(* ===== verification/Prelude.thy ===== *)
theory Prelude
  imports Main "HOL-Library.Word"
begin

text \<open>
  Shared vocabulary of the development: the machine types of the sources, the results a C
  routine of the library can have, and the lemmas on lists and words that the component
  theories use.

  The sources are read on an LP64 platform: \<open>char\<close> is a signed octet, \<open>int\<close> has 32 bits,
  \<open>apr_size_t\<close> is an unsigned and \<open>apr_off_t\<close> a signed 64-bit integer.  Both are
  \<open>64 word\<close> here; \<open>unat\<close> reads the unsigned and \<open>sint\<close> the signed value.  C's
  usual arithmetic conversions make a mixed expression unsigned, which is what \<open>+\<close>,
  \<open>-\<close>, \<open><\<close> and \<open>\<le>\<close> on words compute.
\<close>

unbundle bit_operations_syntax

section \<open>Types\<close>

type_synonym apr_size_t = "64 word"
type_synonym apr_off_t = "64 word"
type_synonym apr_uint32_t = "32 word"

text \<open>A byte string: the bytes a pointer and a length denote.\<close>

type_synonym bytes = "char list"

abbreviation NUL :: char where
  "NUL \<equiv> CHR 0x00"

lemma char_eq_nat: "c = d \<longleftrightarrow> of_char c = (of_char d :: nat)"
  by (simp only: of_char_eq_iff)

text \<open>The signed reading of an octet, as the integer promotion of a \<open>char\<close> gives it.\<close>

definition schar :: "char \<Rightarrow> int" where
  "schar c = (if of_char c < (128 :: int) then of_char c else of_char c - 256)"

section \<open>Results\<close>

text \<open>The error codes of Berkeley DB, as far as the filesystem tells them apart.\<close>

datatype db_errcode = DB_NOTFOUND | DB_KEYEMPTY | DB_LOCK_DEADLOCK | DB_ENOMEM | DB_other int

text \<open>
  The error codes the modelled routines return.  An error from Berkeley DB keeps the code of the
  database in \<open>src_err\<close>; a conflict keeps the path of the conflicting node, which is also in its message.
\<close>

datatype svn_errcode =
    SVN_ERR_INCOMPLETE_DATA
  | SVN_ERR_SVNDIFF_INVALID_HEADER
  | SVN_ERR_SVNDIFF_CORRUPT_WINDOW
  | SVN_ERR_SVNDIFF_BACKWARD_VIEW
  | SVN_ERR_SVNDIFF_INVALID_OPS
  | SVN_ERR_SVNDIFF_UNEXPECTED_END
  | SVN_ERR_MALFORMED_FILE
  | SVN_ERR_BAD_FILENAME
  | SVN_ERR_BERKELEY_DB db_errcode
  | SVN_ERR_FS_GENERAL
  | SVN_ERR_FS_NOT_OPEN
  | SVN_ERR_FS_CORRUPT
  | SVN_ERR_FS_PATH_SYNTAX
  | SVN_ERR_FS_NO_SUCH_TRANSACTION
  | SVN_ERR_FS_NO_SUCH_ENTRY
  | SVN_ERR_FS_NO_SUCH_REPRESENTATION
  | SVN_ERR_FS_NO_SUCH_STRING
  | SVN_ERR_FS_NOT_FOUND
  | SVN_ERR_FS_ID_NOT_FOUND
  | SVN_ERR_FS_NOT_DIRECTORY
  | SVN_ERR_FS_NOT_FILE
  | SVN_ERR_FS_NOT_SINGLE_PATH_COMPONENT
  | SVN_ERR_FS_NOT_MUTABLE
  | SVN_ERR_FS_ALREADY_EXISTS
  | SVN_ERR_FS_DIR_NOT_EMPTY
  | SVN_ERR_FS_NOT_ID
  | SVN_ERR_FS_NOT_TXN_ROOT
  | SVN_ERR_FS_NOT_REVISION_ROOT
  | SVN_ERR_FS_ROOT_DIR
  | SVN_ERR_FS_CONFLICT bytes
  | SVN_ERR_TXN_OUT_OF_DATE
  | SVN_ERR_FS_REP_CHANGED
  | SVN_ERR_FS_REP_NOT_MUTABLE
  | SVN_ERR_DELTA_MD5_CHECKSUM_ABSENT
  | SVN_WARNING
  | APR_EOF
  | APR_ERR

text \<open>
  A routine returns a value with no error, returns an \<open>svn_error_t\<close>, or stops the process
  through a failed \<open>assert\<close> or a call of \<open>abort\<close>.
\<close>

datatype 'a svn_result = Ok 'a | Err svn_errcode | Abort

fun svn_bind :: "'a svn_result \<Rightarrow> ('a \<Rightarrow> 'b svn_result) \<Rightarrow> 'b svn_result" where
  "svn_bind (Ok x) f = f x"
| "svn_bind (Err e) f = Err e"
| "svn_bind Abort f = Abort"

lemma svn_bind_cong:
  "m = m' \<Longrightarrow> (\<And>x. m' = Ok x \<Longrightarrow> f x = g x) \<Longrightarrow> svn_bind m f = svn_bind m' g"
  by (cases m') simp_all

lemma svn_bind_Ok_iff: "svn_bind m f = Ok y \<longleftrightarrow> (\<exists>x. m = Ok x \<and> f x = Ok y)"
  by (cases m) auto

lemma svn_bind_assoc: "svn_bind (svn_bind m f) g = svn_bind m (\<lambda>x. svn_bind (f x) g)"
  by (cases m) auto

section \<open>Lists\<close>

text \<open>\<open>seg i n xs\<close>: the \<open>n\<close> elements of \<open>xs\<close> from index \<open>i\<close> on.\<close>

definition seg :: "nat \<Rightarrow> nat \<Rightarrow> 'a list \<Rightarrow> 'a list" where
  "seg i n xs = take n (drop i xs)"

lemma length_seg [simp]: "i + n \<le> length xs \<Longrightarrow> length (seg i n xs) = n"
  by (simp add: seg_def)

lemma nth_seg [simp]: "i + n \<le> length xs \<Longrightarrow> k < n \<Longrightarrow> seg i n xs ! k = xs ! (i + k)"
  by (simp add: seg_def)

lemma seg_0 [simp]: "seg i 0 xs = []"
  by (simp add: seg_def)

lemma seg_append_eq: "seg i m xs @ seg (i + m) n xs = seg i (m + n) xs"
  by (simp add: seg_def take_add drop_drop add.commute)

lemma seg_eqI:
  assumes "i + n \<le> length xs" and "j + n \<le> length ys"
    and "\<And>k. k < n \<Longrightarrow> xs ! (i + k) = ys ! (j + k)"
  shows "seg i n xs = seg j n ys"
  using assms by (intro nth_equalityI) auto

lemma seg_append_left: "i + n \<le> length xs \<Longrightarrow> seg i n (xs @ ys) = seg i n xs"
  by (simp add: seg_def)

lemma seg_append_right [simp]: "seg (length xs) n (xs @ ys) = take n ys"
  by (simp add: seg_def)

lemma seg_full [simp]: "seg 0 (length xs) xs = xs"
  by (simp add: seg_def)

section \<open>Words\<close>

lemma unat_lt64: "unat (w :: 64 word) < 2 ^ 64"
  by (rule order_less_le_trans [OF unsigned_less]) simp

lemma unat_of_nat64: "n < 2 ^ 64 \<Longrightarrow> unat (of_nat n :: 64 word) = n"
  by (simp add: unat_of_nat take_bit_nat_eq_self)

lemma div_lt_double: "0 \<le> (x::int) \<Longrightarrow> x < 2 * m \<Longrightarrow> even (x div m) \<longleftrightarrow> x < m"
  by (cases "x < m") (auto simp: div_pos_geq)

lemma sint64_nonneg_iff: "0 \<le> sint (w :: 64 word) \<longleftrightarrow> unat w < 2 ^ 63"
proof -
  have "0 \<le> sint w \<longleftrightarrow> even (uint w div 2 ^ 63)"
    by (simp add: sint_uint bit_iff_odd)
  also have "\<dots> \<longleftrightarrow> uint w < 2 ^ 63"
    using uint_lt2p [of w] by (intro div_lt_double) simp_all
  also have "\<dots> \<longleftrightarrow> unat w < 2 ^ 63"
    unfolding uint_nat by (metis of_nat_less_iff of_nat_numeral of_nat_power)
  finally show ?thesis .
qed

lemma sint64_eq:
  assumes "unat (w :: 64 word) < 2 ^ 63"
  shows "sint w = int (unat w)"
proof -
  have "sint w = signed_take_bit 63 (int (unat w))"
    unfolding sint_uint uint_nat by simp
  also have "\<dots> = int (unat w)"
  proof (rule signed_take_bit_int_eq_self)
    show "- (2 ^ 63) \<le> int (unat w)"
      by (rule order_trans [of _ 0]) simp_all
    show "int (unat w) < 2 ^ 63"
      using assms by (metis of_nat_less_iff of_nat_numeral of_nat_power)
  qed
  finally show ?thesis .
qed

lemma sint64_mono:
  assumes "unat a \<le> unat b" and "unat (b :: 64 word) < 2 ^ 63"
  shows "sint (a :: 64 word) \<le> sint b"
  using assms sint64_eq [of a] sint64_eq [of b] by linarith

lemmas word64_nat =
  word_le_nat_alt word_less_nat_alt unat_word_ariths unat_of_nat64 sint64_nonneg_iff linorder_not_le

end
