(* ===== verification/Text_Delta.thy ===== *)
theory Text_Delta
  imports Prelude
begin

text \<open>
  Text deltas: the instruction and window types of \<open>svn_delta.h\<close>, the building of
  operation sequences and the application of a window to a source view
  (\<open>libsvn_delta/text_delta.c\<close>), and the meaning \<open>svn_delta.h\<close> documents for the three
  instructions, against which the memory routine is proved.
\<close>

section \<open>Instructions and windows\<close>

datatype svn_delta_action = svn_txdelta_source | svn_txdelta_target | svn_txdelta_new

record svn_txdelta_op_t =
  action_code :: svn_delta_action
  op_offset :: apr_off_t
  op_length :: apr_off_t

text \<open>The \<open>num_ops\<close> field of the C structure is the length of the list \<open>ops\<close>.\<close>

record svn_txdelta_window_t =
  sview_offset :: apr_off_t
  sview_len :: apr_size_t
  tview_len :: apr_size_t
  ops :: "svn_txdelta_op_t list"
  new_data :: bytes

section \<open>Building operation sequences\<close>

record build_ops_baton_t =
  num_ops :: nat
  ops_size :: nat
  bob_ops :: "svn_txdelta_op_t list"
  bob_new_data :: bytes

definition empty_bob :: build_ops_baton_t where
  "empty_bob = \<lparr>num_ops = 0, ops_size = 0, bob_ops = [], bob_new_data = []\<rparr>"

definition make_window :: "build_ops_baton_t \<Rightarrow> svn_txdelta_window_t" where
  "make_window bob =
     \<lparr>sview_offset = 0, sview_len = 0, tview_len = 0,
      ops = bob_ops bob, new_data = bob_new_data bob\<rparr>"

text \<open>
  \<open>nd\<close> is the memory the \<open>new_data\<close> pointer of the call denotes; only its first
  \<open>len\<close> bytes are read.
\<close>

definition svn_txdelta__insert_op ::
  "build_ops_baton_t \<Rightarrow> svn_delta_action \<Rightarrow> apr_off_t \<Rightarrow> apr_off_t \<Rightarrow> bytes \<Rightarrow> build_ops_baton_t"
where
  "svn_txdelta__insert_op bob opcode off len nd =
     (let bob1 = (if num_ops bob = ops_size bob
                  then bob\<lparr>ops_size := (if ops_size bob = 0 then 16 else 2 * ops_size bob)\<rparr>
                  else bob);
          op = (case opcode of
                  svn_txdelta_source \<Rightarrow>
                    \<lparr>action_code = opcode, op_offset = off, op_length = len\<rparr>
                | svn_txdelta_target \<Rightarrow>
                    \<lparr>action_code = opcode, op_offset = off, op_length = len\<rparr>
                | svn_txdelta_new \<Rightarrow>
                    \<lparr>action_code = opcode, op_offset = of_nat (length (bob_new_data bob1)),
                     op_length = len\<rparr>);
          bob2 = (case opcode of
                    svn_txdelta_new \<Rightarrow>
                      bob1\<lparr>bob_new_data := bob_new_data bob1 @ take (unat len) nd\<rparr>
                  | _ \<Rightarrow> bob1)
      in bob2\<lparr>bob_ops := bob_ops bob2 @ [op], num_ops := Suc (num_ops bob2)\<rparr>)"

section \<open>Applying a window\<close>

text \<open>
  The byte-by-byte loop of a target copy: \<open>tbuf[tpos++] = tbuf[i]\<close> for \<open>n\<close> values of
  \<open>i\<close>.  The target buffer is the list of the bytes written so far, so \<open>tpos\<close> is its
  length.
\<close>

primrec copy_from_target :: "nat \<Rightarrow> nat \<Rightarrow> bytes \<Rightarrow> bytes" where
  "copy_from_target i 0 tbuf = tbuf"
| "copy_from_target i (Suc n) tbuf = copy_from_target (Suc i) n (tbuf @ [tbuf ! i])"

definition apply_instruction ::
  "svn_txdelta_window_t \<Rightarrow> bytes \<Rightarrow> svn_txdelta_op_t \<Rightarrow> bytes \<Rightarrow> bytes svn_result"
where
  "apply_instruction window sbuf op tbuf =
     (let tpos = of_nat (length tbuf) :: apr_size_t; off = op_offset op; len = op_length op in
      if \<not> (0 \<le> sint off \<and> 0 \<le> sint len) then Abort
      else if \<not> tpos + len \<le> tview_len window then Abort
      else case action_code op of
        svn_txdelta_source \<Rightarrow>
          if \<not> off + len \<le> sview_len window then Abort
          else Ok (tbuf @ seg (unat off) (unat len) sbuf)
      | svn_txdelta_target \<Rightarrow>
          if \<not> off < tpos then Abort
          else Ok (copy_from_target (unat off) (unat len) tbuf)
      | svn_txdelta_new \<Rightarrow>
          if \<not> off + len \<le> of_nat (length (new_data window)) then Abort
          else Ok (tbuf @ seg (unat off) (unat len) (new_data window)))"

fun apply_ops ::
  "svn_txdelta_window_t \<Rightarrow> bytes \<Rightarrow> svn_txdelta_op_t list \<Rightarrow> bytes \<Rightarrow> bytes svn_result"
where
  "apply_ops window sbuf [] tbuf =
     (if of_nat (length tbuf) = tview_len window then Ok tbuf else Abort)"
| "apply_ops window sbuf (op # rest) tbuf =
     svn_bind (apply_instruction window sbuf op tbuf) (apply_ops window sbuf rest)"

definition apply_instructions :: "svn_txdelta_window_t \<Rightarrow> bytes \<Rightarrow> bytes svn_result" where
  "apply_instructions window sbuf = apply_ops window sbuf (ops window) []"

section \<open>The documented meaning of the instructions\<close>

text \<open>
  One instruction, over unbounded numbers: the ranges \<open>svn_delta.h\<close> demands, and the bytes
  the instruction appends to the target.  A target copy may run past the end of the target
  built so far; its \<open>k\<close>-th byte is the target's byte at \<open>offset + k\<close>, which is then known.
\<close>

fun target_bytes :: "nat \<Rightarrow> nat \<Rightarrow> bytes \<Rightarrow> bytes" where
  "target_bytes off len t = map (\<lambda>k. t ! (off + k mod (length t - off))) [0..<len]"

definition op_denotes ::
  "bytes \<Rightarrow> bytes \<Rightarrow> svn_txdelta_op_t \<Rightarrow> bytes \<Rightarrow> bytes option"
where
  "op_denotes src nd op t =
     (let off = unat (op_offset op); len = unat (op_length op) in
      case action_code op of
        svn_txdelta_source \<Rightarrow> if off + len \<le> length src then Some (seg off len src) else None
      | svn_txdelta_target \<Rightarrow> if off < length t then Some (target_bytes off len t) else None
      | svn_txdelta_new \<Rightarrow> if off + len \<le> length nd then Some (seg off len nd) else None)"

fun ops_denote ::
  "bytes \<Rightarrow> bytes \<Rightarrow> svn_txdelta_op_t list \<Rightarrow> bytes \<Rightarrow> bytes option"
where
  "ops_denote src nd [] t = Some t"
| "ops_denote src nd (op # rest) t =
     (case op_denotes src nd op t of
        None \<Rightarrow> None
      | Some b \<Rightarrow> ops_denote src nd rest (t @ b))"

section \<open>Properties of the documented meaning\<close>

lemma length_target_bytes [simp]: "length (target_bytes off len t) = len"
  by simp

lemma nth_target_bytes:
  "j < len \<Longrightarrow> target_bytes off len t ! j = t ! (off + j mod (length t - off))"
  by simp

declare target_bytes.simps [simp del]

lemma op_denotes_length:
  "op_denotes src nd op t = Some b \<Longrightarrow> length b = unat (op_length op)"
  by (auto simp: op_denotes_def Let_def split: svn_delta_action.splits if_splits)

lemma op_denotes_mono:
  "op_denotes src nd op t = Some b \<Longrightarrow> op_denotes src (nd @ x) op t = Some b"
  by (auto simp: op_denotes_def Let_def seg_append_left
      split: svn_delta_action.splits if_splits)

lemma ops_denote_mono:
  "ops_denote src nd is t = Some r \<Longrightarrow> ops_denote src (nd @ x) is t = Some r"
  by (induction "is" arbitrary: t) (auto split: option.splits dest: op_denotes_mono [where x = x])

lemma ops_denote_append:
  "ops_denote src nd (is @ js) t = Option.bind (ops_denote src nd is t) (ops_denote src nd js)"
  by (induction "is" arbitrary: t) (auto split: option.splits)

lemma ops_denote_extends:
  "ops_denote src nd is t = Some r \<Longrightarrow> length t \<le> length r"
  by (induction "is" arbitrary: t) (fastforce split: option.splits)+

section \<open>The loop of a target copy\<close>

lemma target_byte_read:
  assumes "off < length t"
  shows "(t @ target_bytes off k t) ! (off + k) = t ! (off + k mod (length t - off))"
proof (cases "off + k < length t")
  case True
  then show ?thesis by (simp add: nth_append)
next
  case False
  let ?L = "length t - off"
  from False assms have k: "?L \<le> k" and pos: "0 < ?L" and i: "off + k - length t = k - ?L"
    by simp_all
  have "(t @ target_bytes off k t) ! (off + k) = target_bytes off k t ! (k - ?L)"
    using False i by (simp add: nth_append)
  also have "\<dots> = t ! (off + (k - ?L) mod ?L)"
    using k pos by (intro nth_target_bytes) simp
  also have "(k - ?L) mod ?L = k mod ?L"
    using k by (rule le_mod_geq [symmetric])
  finally show ?thesis .
qed

lemma copy_from_target_denotes:
  assumes "off < length t"
  shows "copy_from_target off len t = t @ target_bytes off len t"
proof -
  have "copy_from_target (off + k) n (t @ target_bytes off k t) = t @ target_bytes off (k + n) t"
    for k n
  proof (induction n arbitrary: k)
    case 0
    then show ?case by simp
  next
    case (Suc n)
    have "(t @ target_bytes off k t) @ [(t @ target_bytes off k t) ! (off + k)]
        = t @ target_bytes off (Suc k) t"
      unfolding target_byte_read [OF assms] by (simp add: target_bytes.simps)
    with Suc [of "Suc k"] show ?case by simp
  qed
  from this [of 0 len] show ?thesis by (simp add: target_bytes.simps)
qed

section \<open>The memory routine implements the meaning\<close>

text \<open>
  The size bounds under which the window arithmetic cannot wrap: the views and the new data
  fit the signed range of \<open>apr_off_t\<close>.
\<close>

definition window_sizes_ok :: "svn_txdelta_window_t \<Rightarrow> bytes \<Rightarrow> bool" where
  "window_sizes_ok w sbuf \<longleftrightarrow>
     unat (sview_len w) = length sbuf \<and> length sbuf < 2 ^ 63 \<and>
     unat (tview_len w) < 2 ^ 63 \<and> length (new_data w) < 2 ^ 63"

lemma apply_instruction_denotes:
  assumes sz: "window_sizes_ok w sbuf" and t: "length t \<le> unat (tview_len w)"
  shows "apply_instruction w sbuf op t =
    (case op_denotes sbuf (new_data w) op t of
       None \<Rightarrow> Abort
     | Some b \<Rightarrow> if length t + length b \<le> unat (tview_len w) then Ok (t @ b) else Abort)"
proof -
  have bounds: "length t < 2 ^ 63" "length sbuf < 2 ^ 63" "length (new_data w) < 2 ^ 63"
    "unat (tview_len w) < 2 ^ 63" "unat (sview_len w) = length sbuf"
    using sz t by (auto simp: window_sizes_ok_def)
  have sum: "unat (a + b) = unat a + unat b" if "unat a < 2 ^ 63" "unat b < 2 ^ 63" for a b :: "64 word"
    using that by (simp add: unat_word_ariths)
  show ?thesis
    using bounds
    by (cases "action_code op")
       (auto simp: apply_instruction_def op_denotes_def Let_def sum word_le_nat_alt
          word_less_nat_alt unat_of_nat64 sint64_nonneg_iff copy_from_target_denotes)
qed

lemma apply_ops_denotes:
  assumes sz: "window_sizes_ok w sbuf" and t: "length t \<le> unat (tview_len w)"
  shows "apply_ops w sbuf is t =
    (case ops_denote sbuf (new_data w) is t of
       None \<Rightarrow> Abort
     | Some r \<Rightarrow> if length r = unat (tview_len w) then Ok r else Abort)"
  using t
proof (induction "is" arbitrary: t)
  case Nil
  moreover have "unat (tview_len w) < 2 ^ 63"
    using sz by (simp add: window_sizes_ok_def)
  ultimately show ?case
    by (auto simp: unat_of_nat64 word_unat_eq_iff)
next
  case (Cons op rest)
  show ?case
  proof (cases "op_denotes sbuf (new_data w) op t")
    case None
    then show ?thesis by (simp add: apply_instruction_denotes [OF sz Cons.prems])
  next
    case (Some b)
    show ?thesis
    proof (cases "length t + length b \<le> unat (tview_len w)")
      case True
      with Some Cons.IH [of "t @ b"] show ?thesis
        by (simp add: apply_instruction_denotes [OF sz Cons.prems])
    next
      case False
      with Some show ?thesis
        by (auto simp: apply_instruction_denotes [OF sz Cons.prems]
            dest!: ops_denote_extends split: option.splits)
    qed
  qed
qed

lemma apply_instructions_denotes:
  assumes "window_sizes_ok w sbuf"
  shows "apply_instructions w sbuf =
    (case ops_denote sbuf (new_data w) (ops w) [] of
       None \<Rightarrow> Abort
     | Some r \<Rightarrow> if length r = unat (tview_len w) then Ok r else Abort)"
  using apply_ops_denotes [OF assms] by (simp add: apply_instructions_def)

section \<open>What an inserted operation adds\<close>

definition bob_wf :: "build_ops_baton_t \<Rightarrow> bool" where
  "bob_wf bob \<longleftrightarrow> num_ops bob = length (bob_ops bob) \<and> num_ops bob \<le> ops_size bob"

lemma bob_wf_empty [simp]: "bob_wf empty_bob"
  by (simp add: bob_wf_def empty_bob_def)

lemma bob_wf_insert_op [simp]:
  "bob_wf bob \<Longrightarrow> bob_wf (svn_txdelta__insert_op bob c off len nd)"
  by (auto simp: bob_wf_def svn_txdelta__insert_op_def Let_def split: svn_delta_action.split)

text \<open>The target bytes an operation sequence under construction stands for.\<close>

definition bob_target :: "bytes \<Rightarrow> build_ops_baton_t \<Rightarrow> bytes option" where
  "bob_target src bob = ops_denote src (bob_new_data bob) (bob_ops bob) []"

lemma bob_target_empty [simp]: "bob_target src empty_bob = Some []"
  by (simp add: bob_target_def empty_bob_def)

lemma bob_target_insert_source:
  assumes "bob_target src bob = Some t" and "i + n \<le> length src" and "length src < 2 ^ 64"
  shows "bob_target src (svn_txdelta__insert_op bob svn_txdelta_source (of_nat i) (of_nat n) nd)
    = Some (t @ seg i n src)"
  using assms
  by (simp add: bob_target_def svn_txdelta__insert_op_def Let_def ops_denote_append
      op_denotes_def unat_of_nat64)

lemma bob_target_insert_target:
  assumes "bob_target src bob = Some t" and "i < length t" and "length t < 2 ^ 64" and "n < 2 ^ 64"
  shows "bob_target src (svn_txdelta__insert_op bob svn_txdelta_target (of_nat i) (of_nat n) nd)
    = Some (t @ target_bytes i n t)"
  using assms
  by (simp add: bob_target_def svn_txdelta__insert_op_def Let_def ops_denote_append
      op_denotes_def unat_of_nat64)

lemma bob_target_insert_new:
  assumes "bob_target src bob = Some t" and "n \<le> length nd"
    and "length (bob_new_data bob) < 2 ^ 63" and "n < 2 ^ 63"
  shows "bob_target src (svn_txdelta__insert_op bob svn_txdelta_new off (of_nat n) nd)
    = Some (t @ take n nd)"
  using assms ops_denote_mono [of src "bob_new_data bob" "bob_ops bob" "[]" t "take n nd"]
  by (simp add: bob_target_def svn_txdelta__insert_op_def Let_def ops_denote_append
      op_denotes_def unat_of_nat64)

lemma bob_new_data_insert_op:
  "bob_new_data (svn_txdelta__insert_op bob c off len nd) =
     bob_new_data bob @ (if c = svn_txdelta_new then take (unat len) nd else [])"
  by (cases c) (simp_all add: svn_txdelta__insert_op_def Let_def)

section \<open>Operation sequences fit for transmission\<close>

text \<open>
  The svndiff format sends neither the offsets of insertions nor empty operations:
  \<open>ops_canon is n\<close> checks that no operation is empty and that the insertions use the new
  data in ascending order from \<open>n\<close> on, with no gap and no overlap, and gives the end of the
  data used.
\<close>

fun ops_canon :: "svn_txdelta_op_t list \<Rightarrow> nat \<Rightarrow> nat option" where
  "ops_canon [] n = Some n"
| "ops_canon (op # rest) n =
     (if unat (op_length op) = 0 then None
      else if action_code op \<noteq> svn_txdelta_new then ops_canon rest n
      else if unat (op_offset op) = n then ops_canon rest (n + unat (op_length op))
      else None)"

lemma ops_canon_append: "ops_canon (is @ js) n = Option.bind (ops_canon is n) (ops_canon js)"
  by (induction "is" arbitrary: n) auto

definition bob_canon :: "build_ops_baton_t \<Rightarrow> bool" where
  "bob_canon bob \<longleftrightarrow> ops_canon (bob_ops bob) 0 = Some (length (bob_new_data bob))"

lemma bob_canon_empty [simp]: "bob_canon empty_bob"
  by (simp add: bob_canon_def empty_bob_def)

lemma bob_canon_insert_op:
  assumes "bob_canon bob" and "0 < unat len" and "length (bob_new_data bob) < 2 ^ 64"
    and "c = svn_txdelta_new \<Longrightarrow> unat len \<le> length nd"
  shows "bob_canon (svn_txdelta__insert_op bob c off len nd)"
  using assms
  by (cases c) (auto simp: bob_canon_def svn_txdelta__insert_op_def Let_def ops_canon_append
      unat_of_nat64)

section \<open>Applying a window: the property\<close>

text \<open>
  C19. On buffers below the signed limit, the memory routine appends for each
  instruction the bytes that \<open>svn_delta.h\<close> describes, one after the other, and the asserts fail for a source copy
  outside the view, a target copy that does not start inside the data written so far, a new-data copy
  past its end, and a result that is not \<open>tview_len\<close> bytes long.  Two demands of the header are not tested:
  an instruction of length zero is executed and appends nothing, and new data may be used in any order and more than once.
\<close>

theorem apply_instructions_spec:
  assumes "window_sizes_ok w sview"
  shows "apply_instructions w sview =
    (case ops_denote sview (new_data w) (ops w) [] of
       Some r \<Rightarrow> if length r = unat (tview_len w) then Ok r else Abort
     | None \<Rightarrow> Abort)"
  using apply_instructions_denotes [OF assms] by (simp split: option.split)

text \<open>The example of the header file: a target copy that overlaps its own output.\<close>

theorem apply_instructions_spec_witness:
  "apply_instructions
     \<lparr>sview_offset = 0, sview_len = 8, tview_len = 15,
      ops = [\<lparr>action_code = svn_txdelta_source, op_offset = 0, op_length = 6\<rparr>,
             \<lparr>action_code = svn_txdelta_new, op_offset = 0, op_length = 2\<rparr>,
             \<lparr>action_code = svn_txdelta_target, op_offset = 6, op_length = 7\<rparr>],
      new_data = ''gh''\<rparr> ''abcdefxx'' = Ok ''abcdefghghghghg''"
  by (subst apply_instructions_spec)
     (simp_all add: window_sizes_ok_def op_denotes_def seg_def target_bytes.simps upt_rec Let_def le_mod_geq)

end
