(* ===== verification/Vdelta.thy ===== *)
theory Vdelta
  imports Text_Delta
begin

text \<open>
  The vdelta generator of \<open>libsvn_delta/vdelta.c\<close>: the hash table over the positions of the
  data window, the search for the longest match, and the loop that emits instructions.  The
  main result is that the instructions it emits for a window rebuild exactly the target part of
  the window, whatever the hash function does.

  Positions in the window's buffer (the pointers \<open>here\<close>, \<open>match\<close>, \<open>key\<close>, \<open>end\<close>) are
  indices into the list \<open>data\<close>; \<open>end\<close> is called \<open>fin\<close>.  \<open>Abort\<close> is a failed
  \<open>assert\<close>, an index outside an array, or a slot chain with no end.
\<close>

section \<open>The hash table\<close>

definition VD_KEY_SIZE :: nat where
  "VD_KEY_SIZE = 4"

text \<open>A \<open>hash_slot_t\<close> is its \<open>next\<close> pointer: the index of the next slot of the chain.\<close>

record hash_table_t =
  num_buckets :: nat
  buckets :: "nat option list"
  slots :: "nat option list"

definition create_hash_table :: "nat \<Rightarrow> hash_table_t" where
  "create_hash_table num_slots =
     \<lparr>num_buckets = (num_slots div 3) OR 1,
      buckets = replicate ((num_slots div 3) OR 1) None,
      slots = replicate num_slots None\<rparr>"

text \<open>The multiplicative hash over the bytes at \<open>key\<close>, each promoted from signed \<open>char\<close>.\<close>

fun hash_bytes :: "apr_uint32_t \<Rightarrow> bytes \<Rightarrow> apr_uint32_t" where
  "hash_bytes h [] = h"
| "hash_bytes h (c # cs) = hash_bytes (h * 127 + of_int (schar c)) cs"

definition get_bucket :: "hash_table_t \<Rightarrow> bytes \<Rightarrow> nat" where
  "get_bucket table key = unat (hash_bytes 0 (take VD_KEY_SIZE key)) mod num_buckets table"

definition store_mapping :: "hash_table_t \<Rightarrow> bytes \<Rightarrow> nat \<Rightarrow> hash_table_t svn_result" where
  "store_mapping table key idx =
     (let bucket = get_bucket table key in
      if \<not> (idx < length (slots table) \<and> bucket < length (buckets table)) then Abort
      else if slots table ! idx \<noteq> None then Abort
      else Ok (table\<lparr>slots := (slots table)[idx := buckets table ! bucket],
                     buckets := (buckets table)[bucket := Some idx]\<rparr>))"

text \<open>The slots of a chain in the order \<open>slot = slot->next\<close> visits them, at most \<open>fuel\<close> of them.\<close>

fun slot_chain :: "nat \<Rightarrow> nat option list \<Rightarrow> nat option \<Rightarrow> nat list option" where
  "slot_chain fuel sl None = Some []"
| "slot_chain 0 sl (Some i) = None"
| "slot_chain (Suc fuel) sl (Some i) =
     (if i < length sl then map_option ((#) i) (slot_chain fuel sl (sl ! i)) else None)"

section \<open>Matches\<close>

function match_end :: "bytes \<Rightarrow> nat \<Rightarrow> nat \<Rightarrow> nat \<Rightarrow> nat" where
  "match_end data match here fin =
     (if here < fin \<and> data ! match = data ! here
      then match_end data (Suc match) (Suc here) fin
      else here)"
  by pat_completeness auto
termination
  by (relation "measure (\<lambda>(data, match, here, fin). fin - here)") auto

declare match_end.simps [simp del]

definition find_match_len :: "bytes \<Rightarrow> nat \<Rightarrow> nat \<Rightarrow> nat \<Rightarrow> nat" where
  "find_match_len data match from fin = match_end data match from fin - from"

text \<open>
  The body of the loop over the slots of a chain: the best match so far is the pair of
  \<open>current_match\<close> (0 for the null pointer) and \<open>current_match_len\<close>, with the flag
  \<open>progress\<close>.
\<close>

definition try_slot ::
  "bytes \<Rightarrow> nat \<Rightarrow> nat \<Rightarrow> nat \<Rightarrow> nat \<Rightarrow> nat \<Rightarrow> nat \<times> nat \<times> bool \<Rightarrow> nat \<times> nat \<times> bool"
where
  "try_slot data start fin here key slot = (\<lambda>(cm, cl, progress).
     if slot < key - here then (cm, cl, progress)
     else
       let match = slot - (key - here);
           len0 = find_match_len data match here fin;
           len = (if match < start \<and> match + len0 > start then start - match else len0)
       in if VD_KEY_SIZE \<le> len \<and> cl < len then (match, len, True) else (cm, cl, progress))"

fun try_slots ::
  "bytes \<Rightarrow> nat \<Rightarrow> nat \<Rightarrow> nat \<Rightarrow> nat \<Rightarrow> nat list \<Rightarrow> nat \<times> nat \<times> bool \<Rightarrow> nat \<times> nat \<times> bool"
where
  "try_slots data start fin here key [] best = best"
| "try_slots data start fin here key (slot # rest) best =
     try_slots data start fin here key rest (try_slot data start fin here key slot best)"

lemma match_end_bounds:
  "here \<le> match_end data match here fin \<and> match_end data match here fin \<le> max here fin"
proof (induction data match here fin rule: match_end.induct)
  case (1 data match here fin)
  then show ?case by (subst (1 2) match_end.simps) auto
qed

lemma find_match_len_le: "find_match_len data match here fin \<le> fin - here"
  using match_end_bounds [of here data match fin] by (auto simp: find_match_len_def)

lemma try_slot_grows:
  assumes "try_slot data start fin here key slot (cm, cl, p) = (cm', cl', p')"
  shows "(cm', cl', p') = (cm, cl, p) \<or> p' \<and> cl < cl' \<and> cl' \<le> fin - here"
  using assms find_match_len_le [of data "slot - (key - here)" here fin]
  by (auto simp: try_slot_def Let_def split: if_splits)

lemma try_slots_grows:
  assumes "try_slots data start fin here key ss (cm, cl, p) = (cm', cl', p')"
  shows "(cm', cl', p') = (cm, cl, p) \<or> p' \<and> cl < cl' \<and> cl' \<le> fin - here"
  using assms
proof (induction ss arbitrary: cm cl p)
  case Nil
  then show ?case by simp
next
  case (Cons slot ss)
  obtain cm1 cl1 p1 where step: "try_slot data start fin here key slot (cm, cl, p) = (cm1, cl1, p1)"
    by (metis prod_cases3)
  with Cons.prems have "try_slots data start fin here key ss (cm1, cl1, p1) = (cm', cl', p')"
    by simp
  from Cons.IH [OF this] try_slot_grows [OF step] show ?case by auto
qed

text \<open>
  The do-while loop: extend the current match through the key made of its last three bytes and
  one unmatched byte, as long as that makes progress.
\<close>

function longest_match ::
  "hash_table_t \<Rightarrow> bytes \<Rightarrow> nat \<Rightarrow> nat \<Rightarrow> nat \<Rightarrow> nat \<Rightarrow> nat \<Rightarrow> nat \<Rightarrow> (nat \<times> nat) svn_result"
where
  "longest_match table data start fin here key cm cl =
     (if \<not> get_bucket table (drop key data) < length (buckets table) then Abort
      else
        case slot_chain (length (slots table)) (slots table)
               (buckets table ! get_bucket table (drop key data)) of
          None \<Rightarrow> Abort
        | Some ss \<Rightarrow>
            (case try_slots data start fin here key ss (cm, cl, False) of
               (cm', cl', progress) \<Rightarrow>
                 let key' = (if progress then here + cl' - (VD_KEY_SIZE - 1) else key) in
                 if progress \<and> VD_KEY_SIZE \<le> fin - key'
                 then longest_match table data start fin here key' cm' cl'
                 else Ok (cm', cl')))"
  by pat_completeness auto
termination
proof (relation "measure (\<lambda>(table, data, start, fin, here, key, cm, cl). fin - here - cl)", goal_cases)
  case 1
  then show ?case by simp
next
  case 2
  then show ?case
    by (auto dest!: try_slots_grows [OF sym])
qed

declare longest_match.simps [simp del]

section \<open>The generator\<close>

fun store_mappings :: "hash_table_t \<Rightarrow> bytes \<Rightarrow> nat list \<Rightarrow> hash_table_t svn_result" where
  "store_mappings table data [] = Ok table"
| "store_mappings table data (i # is) =
     svn_bind (store_mapping table (drop i data) i) (\<lambda>table'. store_mappings table' data is)"

text \<open>Commit the pending insert, if there is one.\<close>

definition commit_insert ::
  "bytes \<Rightarrow> nat \<Rightarrow> nat option \<Rightarrow> build_ops_baton_t \<Rightarrow> build_ops_baton_t"
where
  "commit_insert data here insert_from bob =
     (case insert_from of
        None \<Rightarrow> bob
      | Some from \<Rightarrow>
          svn_txdelta__insert_op bob svn_txdelta_new 0 (of_nat (here - from)) (drop from data))"

text \<open>Emit the copy of the current match.\<close>

definition emit_copy :: "nat \<Rightarrow> nat \<Rightarrow> nat \<Rightarrow> build_ops_baton_t \<Rightarrow> build_ops_baton_t" where
  "emit_copy start cm cl bob =
     (if cm < start
      then svn_txdelta__insert_op bob svn_txdelta_source (of_nat cm) (of_nat cl) []
      else svn_txdelta__insert_op bob svn_txdelta_target (of_nat (cm - start)) (of_nat cl) [])"

function vdelta_loop ::
  "bytes \<Rightarrow> nat \<Rightarrow> nat \<Rightarrow> bool \<Rightarrow> hash_table_t \<Rightarrow> build_ops_baton_t \<Rightarrow> nat \<Rightarrow> nat option
     \<Rightarrow> (hash_table_t \<times> build_ops_baton_t) svn_result"
where
  "vdelta_loop data start fin outputflag table bob here insert_from =
     (if fin - here < VD_KEY_SIZE then
        (let from = (case insert_from of Some f \<Rightarrow> f | None \<Rightarrow> here) in
         Ok (table,
             if outputflag \<and> from < fin
             then svn_txdelta__insert_op bob svn_txdelta_new 0 (of_nat (fin - from)) (drop from data)
             else bob))
      else
        svn_bind (longest_match table data start fin here here 0 0) (\<lambda>(cm, cl).
          if cl < VD_KEY_SIZE then
            svn_bind (store_mapping table (drop here data) here) (\<lambda>table'.
              vdelta_loop data start fin outputflag table' bob (Suc here)
                (case insert_from of None \<Rightarrow> Some here | Some f \<Rightarrow> Some f))
          else
            (let bob' = (if outputflag
                         then emit_copy start cm cl (commit_insert data here insert_from bob)
                         else bob);
                 insert_from' = (if outputflag then None else insert_from);
                 here' = here + cl
             in svn_bind
                  (if VD_KEY_SIZE \<le> fin - here'
                   then store_mappings table data [here' - (VD_KEY_SIZE - 1)..<here']
                   else Ok table)
                  (\<lambda>table'. vdelta_loop data start fin outputflag table' bob' here' insert_from'))))"
  by pat_completeness auto
termination
  by (relation "measure (\<lambda>(data, start, fin, flag, table, bob, here, ins). fin - here)")
     (auto simp: VD_KEY_SIZE_def)

declare vdelta_loop.simps [simp del]

definition vdelta ::
  "build_ops_baton_t \<Rightarrow> bytes \<Rightarrow> nat \<Rightarrow> nat \<Rightarrow> bool \<Rightarrow> hash_table_t
     \<Rightarrow> (hash_table_t \<times> build_ops_baton_t) svn_result"
where
  "vdelta bob data start fin outputflag table =
     vdelta_loop data start fin outputflag table bob start None"

definition svn_txdelta__vdelta ::
  "build_ops_baton_t \<Rightarrow> bytes \<Rightarrow> nat \<Rightarrow> nat \<Rightarrow> build_ops_baton_t svn_result"
where
  "svn_txdelta__vdelta bob data source_len target_len =
     svn_bind (vdelta bob data 0 source_len False (create_hash_table (source_len + target_len)))
       (\<lambda>(table, bob1).
          svn_bind (vdelta bob1 data source_len (source_len + target_len) True table)
            (\<lambda>(table', bob2). Ok bob2))"

section \<open>The invariant of the hash table\<close>

text \<open>
  Every linked slot index is below \<open>h\<close> and every \<open>next\<close> pointer leads to a smaller index, so
  chains end.
\<close>

definition table_inv :: "nat \<Rightarrow> nat \<Rightarrow> hash_table_t \<Rightarrow> bool" where
  "table_inv n h table \<longleftrightarrow>
     length (slots table) = n \<and> h \<le> n \<and>
     0 < num_buckets table \<and> length (buckets table) = num_buckets table \<and>
     (\<forall>i j. i < n \<longrightarrow> slots table ! i = Some j \<longrightarrow> j < i \<and> i < h) \<and>
     (\<forall>b i. b < num_buckets table \<longrightarrow> buckets table ! b = Some i \<longrightarrow> i < h)"

lemma table_inv_create: "table_inv n 0 (create_hash_table n)"
proof -
  have "odd ((n div 3) OR 1)" by (simp add: even_or_iff)
  then have "0 < (n div 3) OR 1" by (rule odd_pos)
  then show ?thesis by (simp add: table_inv_def create_hash_table_def)
qed

lemma table_inv_mono: "table_inv n h table \<Longrightarrow> h \<le> h' \<Longrightarrow> h' \<le> n \<Longrightarrow> table_inv n h' table"
  by (fastforce simp: table_inv_def)

lemma get_bucket_less: "table_inv n h table \<Longrightarrow> get_bucket table key < length (buckets table)"
  by (simp add: table_inv_def get_bucket_def)

lemma store_mapping_inv:
  assumes "table_inv n h table" and "h \<le> idx" and "idx < n"
  obtains table' where "store_mapping table key idx = Ok table'" and "table_inv n (Suc idx) table'"
proof
  let ?b = "get_bucket table key"
  let ?table' = "table\<lparr>slots := (slots table)[idx := buckets table ! ?b],
                       buckets := (buckets table)[?b := Some idx]\<rparr>"
  have "slots table ! idx = None"
    using assms by (cases "slots table ! idx") (auto simp: table_inv_def)
  then show "store_mapping table key idx = Ok ?table'"
    using assms get_bucket_less [OF assms(1), of key]
    by (simp add: store_mapping_def Let_def table_inv_def)
  show "table_inv n (Suc idx) ?table'"
    using assms get_bucket_less [OF assms(1), of key]
    by (fastforce simp: table_inv_def nth_list_update split: if_splits)
qed

lemma store_mappings_inv:
  assumes "table_inv n h table" and "h \<le> i" and "i \<le> j" and "j \<le> n"
  obtains table' where "store_mappings table data [i..<j] = Ok table'" and "table_inv n j table'"
proof -
  have "\<exists>table'. store_mappings table data [i..<j] = Ok table' \<and> table_inv n j table'"
    using assms
  proof (induction "j - i" arbitrary: i h table)
    case 0
    then show ?case by (auto intro: table_inv_mono)
  next
    case (Suc d)
    then have "i < j" by simp
    with Suc.prems have "i < n" by simp
    then obtain table1 where
      1: "store_mapping table (drop i data) i = Ok table1" "table_inv n (Suc i) table1"
      using store_mapping_inv [OF Suc.prems(1,2), of "drop i data"] by blast
    have "d = j - Suc i" and "Suc i \<le> j" using Suc.hyps(2) by simp_all
    with Suc.hyps(1) [of "Suc i" "Suc i" table1] 1(2) Suc.prems(4) obtain table' where
      "store_mappings table1 data [Suc i..<j] = Ok table'" "table_inv n j table'"
      by blast
    with 1 \<open>i < j\<close> show ?case by (simp add: upt_conv_Cons)
  qed
  then show ?thesis using that by blast
qed

lemma slot_chain_ends:
  assumes "\<forall>i j. i < length sl \<longrightarrow> sl ! i = Some j \<longrightarrow> j < i"
    and "\<And>i. s = Some i \<Longrightarrow> i < fuel \<and> i < h \<and> i < length sl"
  shows "\<exists>ss. slot_chain fuel sl s = Some ss \<and> (\<forall>i \<in> set ss. i < h)"
  using assms(2)
proof (induction fuel arbitrary: s)
  case 0
  then show ?case by (cases s) auto
next
  case (Suc fuel)
  show ?case
  proof (cases s)
    case None
    then show ?thesis by simp
  next
    case (Some i)
    with Suc.prems have i: "i < Suc fuel" "i < h" "i < length sl" by auto
    have "k < fuel \<and> k < h \<and> k < length sl" if "sl ! i = Some k" for k
      using assms(1) i that by fastforce
    then obtain ss where "slot_chain fuel sl (sl ! i) = Some ss" "\<forall>i \<in> set ss. i < h"
      using Suc.IH [of "sl ! i"] by blast
    with i Some show ?thesis by auto
  qed
qed

lemma bucket_chain_ends:
  assumes "table_inv n h table"
  obtains ss where
    "slot_chain (length (slots table)) (slots table) (buckets table ! get_bucket table key) = Some ss"
    and "\<forall>i \<in> set ss. i < h"
proof -
  have "\<exists>ss. slot_chain (length (slots table)) (slots table) (buckets table ! get_bucket table key)
      = Some ss \<and> (\<forall>i \<in> set ss. i < h)"
    using assms get_bucket_less [OF assms, of key]
    by (intro slot_chain_ends) (fastforce simp: table_inv_def)+
  then show ?thesis using that by blast
qed

section \<open>Matches are repetitions of the window\<close>

definition good_match :: "bytes \<Rightarrow> nat \<Rightarrow> nat \<Rightarrow> nat \<Rightarrow> nat \<Rightarrow> nat \<Rightarrow> bool" where
  "good_match data start fin here cm cl \<longleftrightarrow>
     cm < here \<and> cl \<le> fin - here \<and>
     (\<forall>k < cl. data ! (cm + k) = data ! (here + k)) \<and>
     (cm < start \<longrightarrow> cm + cl \<le> start)"

lemma match_end_same:
  "here + k < match_end data match here fin \<Longrightarrow> data ! (match + k) = data ! (here + k)"
proof (induction data match here fin arbitrary: k rule: match_end.induct)
  case (1 data match here fin)
  have "here < fin \<and> data ! match = data ! here"
    using "1.prems" by (subst (asm) match_end.simps) (auto split: if_splits)
  moreover from this have "match_end data match here fin = match_end data (Suc match) (Suc here) fin"
    by (subst match_end.simps) simp
  ultimately show ?case
    using "1.IH" [of "k - 1"] "1.prems" by (cases k) simp_all
qed

lemma try_slot_good:
  assumes "slot < here"
    and "VD_KEY_SIZE \<le> cl \<Longrightarrow> good_match data start fin here cm cl"
    and "try_slot data start fin here key slot (cm, cl, p) = (cm', cl', p')"
    and "VD_KEY_SIZE \<le> cl'"
  shows "good_match data start fin here cm' cl'"
proof (cases "(cm', cl', p') = (cm, cl, p)")
  case True
  with assms(2,4) show ?thesis by simp
next
  case False
  define m where "m = slot - (key - here)"
  define l where "l = find_match_len data m here fin"
  from False assms(3) have cm: "cm' = m"
    and cl: "cl' = (if m < start \<and> m + l > start then start - m else l)"
    by (auto simp: try_slot_def Let_def m_def l_def split: if_splits)
  from assms(1) have "m < here" by (simp add: m_def)
  moreover from cl have "cl' \<le> l" by auto
  then have "cl' \<le> fin - here"
    using find_match_len_le [of data m here fin] by (simp add: l_def)
  moreover have "data ! (m + k) = data ! (here + k)" if "k < cl'" for k
    using that \<open>cl' \<le> l\<close>
    by (intro match_end_same [where fin = fin]) (simp add: l_def find_match_len_def)
  moreover from cl have "m + cl' \<le> start" if "m < start"
    using that by auto
  ultimately show ?thesis by (simp add: good_match_def cm)
qed

lemma try_slots_good:
  assumes "\<forall>i \<in> set ss. i < here"
    and "VD_KEY_SIZE \<le> cl \<Longrightarrow> good_match data start fin here cm cl"
    and "try_slots data start fin here key ss (cm, cl, p) = (cm', cl', p')"
    and "VD_KEY_SIZE \<le> cl'"
  shows "good_match data start fin here cm' cl'"
  using assms
proof (induction ss arbitrary: cm cl p)
  case Nil
  then show ?case by simp
next
  case (Cons slot ss)
  obtain cm1 cl1 p1 where step: "try_slot data start fin here key slot (cm, cl, p) = (cm1, cl1, p1)"
    by (metis prod_cases3)
  with Cons.prems have "try_slots data start fin here key ss (cm1, cl1, p1) = (cm', cl', p')"
    by simp
  then show ?case
    using Cons.prems(1)
    by (intro Cons.IH [OF _ _ _ Cons.prems(4)])
       (auto intro!: try_slot_good [OF _ Cons.prems(2) step])
qed

lemma longest_match_good:
  assumes "table_inv n h table" and "h \<le> here"
    and "VD_KEY_SIZE \<le> cl \<Longrightarrow> good_match data start fin here cm cl"
  shows "\<exists>cm' cl'. longest_match table data start fin here key cm cl = Ok (cm', cl') \<and>
           (VD_KEY_SIZE \<le> cl' \<longrightarrow> good_match data start fin here cm' cl')"
  using assms
proof (induction table data start fin here key cm cl rule: longest_match.induct)
  case (1 table data start fin here key cm cl)
  obtain ss where ss: "slot_chain (length (slots table)) (slots table)
      (buckets table ! get_bucket table (drop key data)) = Some ss" "\<forall>i \<in> set ss. i < here"
    using bucket_chain_ends [OF "1.prems"(1)] "1.prems"(2) by (metis order_less_le_trans)
  obtain cm1 cl1 p1 where
    t: "try_slots data start fin here key ss (cm, cl, False) = (cm1, cl1, p1)"
    by (metis prod_cases3)
  have good: "good_match data start fin here cm1 cl1" if "VD_KEY_SIZE \<le> cl1"
    using try_slots_good [OF ss(2) "1.prems"(3) t that] by simp
  let ?key = "if p1 then here + cl1 - (VD_KEY_SIZE - 1) else key"
  show ?case
  proof (cases "p1 \<and> VD_KEY_SIZE \<le> fin - ?key")
    case True
    have "longest_match table data start fin here key cm cl
        = longest_match table data start fin here ?key cm1 cl1"
      using True ss(1) t get_bucket_less [OF "1.prems"(1)]
      by (subst longest_match.simps) (auto simp: Let_def VD_KEY_SIZE_def split: if_splits)
    with "1.IH" [OF _ ss(1) t [symmetric] refl refl True "1.prems"(1,2) good]
      get_bucket_less [OF "1.prems"(1)] show ?thesis by simp
  next
    case False
    then have "longest_match table data start fin here key cm cl = Ok (cm1, cl1)"
      using ss(1) t get_bucket_less [OF "1.prems"(1)]
      by (subst longest_match.simps) (auto simp: Let_def)
    with good show ?thesis by simp
  qed
qed

section \<open>The emitted instructions rebuild the window\<close>

text \<open>The operations so far stand for the target bytes from \<open>start\<close> up to \<open>pos\<close>.\<close>

definition bob_upto :: "bytes \<Rightarrow> nat \<Rightarrow> nat \<Rightarrow> build_ops_baton_t \<Rightarrow> bool" where
  "bob_upto data start pos bob \<longleftrightarrow>
     bob_wf bob \<and> bob_canon bob \<and> start \<le> pos \<and> pos \<le> length data \<and>
     bob_target (take start data) bob = Some (seg start (pos - start) data) \<and>
     length (bob_new_data bob) \<le> pos - start"

lemma seg_extend:
  "start \<le> i \<Longrightarrow> i \<le> j \<Longrightarrow> seg start (i - start) xs @ seg i (j - i) xs = seg start (j - start) xs"
  using seg_append_eq [of start "i - start" xs "j - i"] by simp

lemma bob_upto_insert_new:
  assumes "bob_upto data start from bob" and "from < pos" and "pos \<le> length data"
    and "length data < 2 ^ 63"
  shows "bob_upto data start pos
    (svn_txdelta__insert_op bob svn_txdelta_new off (of_nat (pos - from)) (drop from data))"
proof -
  have "bob_target (take start data)
      (svn_txdelta__insert_op bob svn_txdelta_new off (of_nat (pos - from)) (drop from data))
    = Some (seg start (from - start) data @ take (pos - from) (drop from data))"
    using assms by (intro bob_target_insert_new) (auto simp: bob_upto_def)
  also have "\<dots> = Some (seg start (pos - start) data)"
    using assms seg_extend [of start "from" pos data] by (simp add: bob_upto_def seg_def)
  finally show ?thesis
    using assms by (auto simp: bob_upto_def bob_new_data_insert_op unat_of_nat64 simp del: of_nat_diff
        intro!: bob_canon_insert_op)
qed

lemma copy_from_target_seg:
  assumes "start \<le> i" and "i < pos" and "pos + n \<le> length data"
    and "\<And>k. k < n \<Longrightarrow> data ! (i + k) = data ! (pos + k)"
  shows "copy_from_target (i - start) n (seg start (pos - start) data) = seg start (pos + n - start) data"
  using assms
proof (induction n arbitrary: i pos)
  case 0
  then show ?case by simp
next
  case (Suc n)
  have "seg start (pos - start) data ! (i - start) = data ! pos"
    using Suc.prems(1,2,3) Suc.prems(4) [of 0] by simp
  moreover have "seg start (pos - start) data @ [data ! pos] = seg start (Suc pos - start) data"
    using Suc.prems(1,2,3) seg_extend [of start pos "Suc pos" data]
    by (simp add: seg_def take_Suc_conv_app_nth)
  ultimately show ?case
    using Suc.IH [of "Suc i" "Suc pos"] Suc.prems(1,2,3) Suc.prems(4) [of "Suc _"]
    by (simp add: Suc_diff_le)
qed

lemma bob_upto_emit_copy:
  assumes "bob_upto data start here bob" and "good_match data start fin here cm cl"
    and "VD_KEY_SIZE \<le> cl" and "start \<le> here" and "here < fin" and "fin \<le> length data" and "length data < 2 ^ 63"
  shows "bob_upto data start (here + cl) (emit_copy start cm cl bob)"
proof -
  let ?t = "seg start (here - start) data"
  have cl: "0 < unat (of_nat cl :: apr_off_t)"
    using assms by (auto simp: good_match_def VD_KEY_SIZE_def unat_of_nat64)
  have m: "cm < here" "here + cl \<le> length data" "\<And>k. k < cl \<Longrightarrow> data ! (cm + k) = data ! (here + k)"
    "cm < start \<Longrightarrow> cm + cl \<le> start"
    using assms by (auto simp: good_match_def)
  have t: "bob_target (take start data) bob = Some ?t"
    using assms(1) by (simp add: bob_upto_def)
  have "bob_target (take start data) (emit_copy start cm cl bob)
      = Some (seg start (here + cl - start) data)"
  proof (cases "cm < start")
    case True
    have "seg cm cl (take start data) = seg here cl data"
      using True m assms(4) by (intro seg_eqI) (auto simp: min_def)
    with True t m assms show ?thesis
      using seg_extend [of start here "here + cl" data]
      by (simp add: emit_copy_def bob_target_insert_source min_def)
  next
    case False
    have "?t @ target_bytes (cm - start) cl ?t = seg start (here + cl - start) data"
      using False m assms(4) copy_from_target_denotes [of "cm - start" ?t cl]
        copy_from_target_seg [of start cm here cl data] by simp
    then show ?thesis
      using False t m assms by (simp add: emit_copy_def bob_target_insert_target del: of_nat_diff)
  qed
  then show ?thesis
    using assms m cl by (auto simp: bob_upto_def emit_copy_def bob_new_data_insert_op
        intro!: bob_canon_insert_op)
qed

lemma bob_upto_commit_insert:
  assumes "bob_upto data start (case insert_from of None \<Rightarrow> here | Some f \<Rightarrow> f) bob"
    and "(case insert_from of None \<Rightarrow> True | Some f \<Rightarrow> f < here)"
    and "here \<le> length data" and "length data < 2 ^ 63"
  shows "bob_upto data start here (commit_insert data here insert_from bob)"
  using assms by (auto simp: commit_insert_def simp del: of_nat_diff
      intro: bob_upto_insert_new split: option.splits)

lemma vdelta_loop_correct:
  assumes "table_inv (length data) here table" and "start \<le> here" and "here \<le> fin"
    and "fin \<le> length data" and "length data < 2 ^ 63"
    and "(case insert_from of None \<Rightarrow> True | Some f \<Rightarrow> f < here)"
    and "flag \<Longrightarrow> bob_upto data start (case insert_from of None \<Rightarrow> here | Some f \<Rightarrow> f) bob"
  shows "\<exists>table' bob'. vdelta_loop data start fin flag table bob here insert_from = Ok (table', bob') \<and>
    table_inv (length data) fin table' \<and>
    (if flag then bob_upto data start fin bob' else bob' = bob)"
  using assms
proof (induction data start fin flag table bob here insert_from rule: vdelta_loop.induct)
  case (1 data start fin flag table bob here insert_from)
  note prems = "1.prems"
  show ?case
  proof (cases "fin - here < VD_KEY_SIZE")
    case True
    let ?f = "case insert_from of Some f \<Rightarrow> f | None \<Rightarrow> here"
    have "?f \<le> fin"
      using prems(3,6) by (auto split: option.splits)
    then have "bob_upto data start fin
        (if ?f < fin then svn_txdelta__insert_op bob svn_txdelta_new 0 (of_nat (fin - ?f)) (drop ?f data)
         else bob)" if flag
      using prems(7) [OF that] prems(4,5) by (auto simp del: of_nat_diff intro: bob_upto_insert_new)
    moreover have "table_inv (length data) fin table"
      using prems(1,3,4) by (rule table_inv_mono)
    ultimately show ?thesis
      using True by (subst vdelta_loop.simps) (auto simp: Let_def simp del: of_nat_diff)
  next
    case False
    from False prems(3,4) have less: "here < length data" and lt_fin: "here < fin"
      by (simp_all add: VD_KEY_SIZE_def)
    obtain cm cl where lm: "longest_match table data start fin here here 0 0 = Ok (cm, cl)"
      and good: "VD_KEY_SIZE \<le> cl \<Longrightarrow> good_match data start fin here cm cl"
      using longest_match_good [OF prems(1) order_refl, of 0 data start fin 0 here]
      by (auto simp: VD_KEY_SIZE_def)
    show ?thesis
    proof (cases "cl < VD_KEY_SIZE")
      case True
      obtain table1 where st: "store_mapping table (drop here data) here = Ok table1"
        "table_inv (length data) (Suc here) table1"
        using store_mapping_inv [OF prems(1) order_refl less, of "drop here data"] by blast
      let ?ins = "case insert_from of None \<Rightarrow> Some here | Some f \<Rightarrow> Some f"
      have "vdelta_loop data start fin flag table bob here insert_from
          = vdelta_loop data start fin flag table1 bob (Suc here) ?ins"
        using False True lm st(1) by (subst vdelta_loop.simps) (simp add: Let_def)
      moreover have "\<exists>table' bob'. vdelta_loop data start fin flag table1 bob (Suc here) ?ins
          = Ok (table', bob') \<and> table_inv (length data) fin table' \<and>
          (if flag then bob_upto data start fin bob' else bob' = bob)"
        using False prems by (intro "1.IH"(1) [OF False True] st(2))
          (auto simp: VD_KEY_SIZE_def split: option.splits)
      ultimately show ?thesis by simp
    next
      case notTrue: False
      then have cl: "VD_KEY_SIZE \<le> cl" by simp
      note gm = good [OF this]
      then have here': "here + cl \<le> fin" using lt_fin by (auto simp: good_match_def)
      let ?bob = "if flag then emit_copy start cm cl (commit_insert data here insert_from bob) else bob"
      let ?ins = "if flag then None else insert_from"
      let ?store = "if VD_KEY_SIZE \<le> fin - (here + cl)
                    then store_mappings table data [here + cl - (VD_KEY_SIZE - 1)..<here + cl]
                    else Ok table"
      have bob: "bob_upto data start (here + cl) ?bob" if flag
        using bob_upto_emit_copy [OF bob_upto_commit_insert [OF prems(7) [OF that] prems(6) _ prems(5)]
            gm cl prems(2) lt_fin prems(4,5)] less that by simp
      obtain table1 where st: "?store = Ok table1" "table_inv (length data) (here + cl) table1"
      proof (cases "VD_KEY_SIZE \<le> fin - (here + cl)")
        case True
        obtain table1 where "store_mappings table data [here + cl - (VD_KEY_SIZE - 1)..<here + cl]
            = Ok table1" "table_inv (length data) (here + cl) table1"
          using cl here' prems(4)
          by (elim store_mappings_inv [OF prems(1), of "here + cl - (VD_KEY_SIZE - 1)" "here + cl" data, rotated 3])
             (simp_all add: VD_KEY_SIZE_def)
        with True show ?thesis by (intro that) simp_all
      next
        case False
        with here' prems(4) show ?thesis
          by (intro that [of table]) (auto intro: table_inv_mono [OF prems(1)])
      qed
      have "vdelta_loop data start fin flag table bob here insert_from
          = vdelta_loop data start fin flag table1 ?bob (here + cl) ?ins"
        using False notTrue lm st(1) by (subst vdelta_loop.simps) (simp add: Let_def)
      moreover have "\<exists>table' bob'. vdelta_loop data start fin flag table1 ?bob (here + cl) ?ins
          = Ok (table', bob') \<and> table_inv (length data) fin table' \<and>
          (if flag then bob_upto data start fin bob' else bob' = ?bob)"
        using here' prems bob by (intro "1.IH"(2) [OF False notTrue refl refl refl] st(2))
          (auto split: option.splits)
      ultimately show ?thesis by auto
    qed
  qed
qed

text \<open>
  Both passes of the generator: the first one fills the table from the source part, the second
  one emits the instructions.
\<close>

lemma vdelta_correct:
  assumes "length data = source_len + target_len" and "length data < 2 ^ 63"
  shows "\<exists>bob. svn_txdelta__vdelta empty_bob data source_len target_len = Ok bob \<and>
    bob_wf bob \<and> bob_canon bob \<and> bob_target (take source_len data) bob = Some (drop source_len data) \<and>
    length (bob_new_data bob) \<le> target_len"
proof -
  obtain table where 1: "vdelta empty_bob data 0 source_len False
      (create_hash_table (source_len + target_len)) = Ok (table, empty_bob)"
    "table_inv (length data) source_len table"
    using vdelta_loop_correct [of data 0 "create_hash_table (source_len + target_len)" 0 source_len
        None False empty_bob] assms table_inv_create [of "length data"]
    by (auto simp: vdelta_def)
  have "bob_upto data source_len source_len empty_bob"
    using assms by (simp add: bob_upto_def) (simp add: empty_bob_def)
  with 1 assms obtain table' bob where 2: "vdelta empty_bob data source_len (source_len + target_len) True table
      = Ok (table', bob)" "bob_upto data source_len (source_len + target_len) bob"
    using vdelta_loop_correct [of data source_len table source_len "source_len + target_len"
        None True empty_bob]
    by (auto simp: vdelta_def)
  with 1 have "svn_txdelta__vdelta empty_bob data source_len target_len = Ok bob"
    by (simp add: svn_txdelta__vdelta_def)
  with 2(2) assms show ?thesis by (auto simp: bob_upto_def seg_def)
qed

section \<open>The generator: the property\<close>

text \<open>
  C2. For any source and target part of a window buffer (below 2 GB, where the code's
  \<open>int\<close> fields are exact) the generator ends, no assert fails and no access leaves an array,
  and the instructions it emits, applied to the source part, give the target part.
\<close>

theorem vdelta_rebuilds_target:
  assumes "length data = source_len + target_len" and "length data < 2 ^ 31"
  shows "\<exists>bob. svn_txdelta__vdelta empty_bob data source_len target_len = Ok bob \<and>
    apply_instructions
      ((make_window bob)\<lparr>sview_len := of_nat source_len, tview_len := of_nat target_len\<rparr>)
      (take source_len data) = Ok (drop source_len data)"
proof -
  obtain bob where bob: "svn_txdelta__vdelta empty_bob data source_len target_len = Ok bob"
    "bob_target (take source_len data) bob = Some (drop source_len data)"
    "length (bob_new_data bob) \<le> target_len"
    using vdelta_correct [OF assms(1)] assms(2) by auto
  let ?w = "(make_window bob)\<lparr>sview_len := of_nat source_len, tview_len := of_nat target_len\<rparr>"
  have "window_sizes_ok ?w (take source_len data)"
    using assms bob(3) by (simp add: window_sizes_ok_def make_window_def unat_of_nat64)
  from apply_instructions_denotes [OF this] have "apply_instructions ?w (take source_len data) = Ok (drop source_len data)"
    using bob(2) assms by (simp add: bob_target_def make_window_def unat_of_nat64)
  with bob(1) show ?thesis by blast
qed

theorem vdelta_rebuilds_target_witness:
  "\<exists>bob. svn_txdelta__vdelta empty_bob ''abcdefabcdefgabcdef'' 6 13 = Ok bob \<and>
    apply_instructions ((make_window bob)\<lparr>sview_len := 6, tview_len := 13\<rparr>) ''abcdef''
      = Ok ''abcdefgabcdef''"
  using vdelta_rebuilds_target [of "''abcdefabcdefgabcdef''" 6 13] by simp

end
