(* ===== verification/Svn_Stream.thy ===== *)
theory Svn_Stream
  imports Prelude
begin

text \<open>
  Generic byte streams, from \<open>libsvn_subr/io.c\<close>: a stream is a baton with optional read,
  write and close handlers.  The contract that \<open>svn_io.h\<close> puts on handlers is stated as two
  locales, one for reading and one for writing; the streams over stdio files and the empty
  stream are shown to keep it.
\<close>

section \<open>Streams\<close>

text \<open>
  A handler gets the baton and returns the baton it leaves behind.  A read handler gets the
  number of bytes wanted and returns the bytes it read (their number is the value left in
  \<open>*len\<close>); a write handler returns the value left in \<open>*len\<close>.
\<close>

record 'b svn_stream_t =
  baton :: 'b
  read_fn :: "('b \<Rightarrow> nat \<Rightarrow> (bytes \<times> 'b) svn_result) option"
  write_fn :: "('b \<Rightarrow> bytes \<Rightarrow> (nat \<times> 'b) svn_result) option"
  close_fn :: "('b \<Rightarrow> 'b svn_result) option"

definition svn_stream_create :: "'b \<Rightarrow> 'b svn_stream_t" where
  "svn_stream_create b = \<lparr>baton = b, read_fn = None, write_fn = None, close_fn = None\<rparr>"

text \<open>
  The C routine fills a new structure and then returns its argument, so that the result is
  the original stream.  Streams are addressed objects there; \<open>svn_stream_dup\<close> acts on a store
  of streams and returns the store with the copy added, and the address it returns.
\<close>

definition svn_stream_dup ::
  "(nat \<rightharpoonup> 'b svn_stream_t) \<Rightarrow> nat \<Rightarrow> nat \<Rightarrow> ((nat \<rightharpoonup> 'b svn_stream_t) \<times> nat) svn_result"
where
  "svn_stream_dup store fresh stream =
     (case store stream of
        None \<Rightarrow> Abort
      | Some s \<Rightarrow>
          (let new_stream = \<lparr>baton = baton s, read_fn = read_fn s,
                             write_fn = write_fn s, close_fn = close_fn s\<rparr>
           in Ok (store(fresh \<mapsto> new_stream), stream)))"

definition svn_stream_set_baton :: "'b svn_stream_t \<Rightarrow> 'b \<Rightarrow> 'b svn_stream_t" where
  "svn_stream_set_baton s b = s\<lparr>baton := b\<rparr>"

definition svn_stream_set_read ::
  "'b svn_stream_t \<Rightarrow> ('b \<Rightarrow> nat \<Rightarrow> (bytes \<times> 'b) svn_result) \<Rightarrow> 'b svn_stream_t"
where
  "svn_stream_set_read s f = s\<lparr>read_fn := Some f\<rparr>"

definition svn_stream_set_write ::
  "'b svn_stream_t \<Rightarrow> ('b \<Rightarrow> bytes \<Rightarrow> (nat \<times> 'b) svn_result) \<Rightarrow> 'b svn_stream_t"
where
  "svn_stream_set_write s f = s\<lparr>write_fn := Some f\<rparr>"

definition svn_stream_set_close ::
  "'b svn_stream_t \<Rightarrow> ('b \<Rightarrow> 'b svn_result) \<Rightarrow> 'b svn_stream_t"
where
  "svn_stream_set_close s f = s\<lparr>close_fn := Some f\<rparr>"

definition svn_stream_read ::
  "'b svn_stream_t \<Rightarrow> nat \<Rightarrow> (bytes \<times> 'b svn_stream_t) svn_result"
where
  "svn_stream_read s n =
     (case read_fn s of
        None \<Rightarrow> Abort
      | Some f \<Rightarrow> svn_bind (f (baton s) n) (\<lambda>(d, b). Ok (d, s\<lparr>baton := b\<rparr>)))"

definition svn_stream_write ::
  "'b svn_stream_t \<Rightarrow> bytes \<Rightarrow> (nat \<times> 'b svn_stream_t) svn_result"
where
  "svn_stream_write s d =
     (case write_fn s of
        None \<Rightarrow> Abort
      | Some f \<Rightarrow> svn_bind (f (baton s) d) (\<lambda>(n, b). Ok (n, s\<lparr>baton := b\<rparr>)))"

definition svn_stream_close :: "'b svn_stream_t \<Rightarrow> 'b svn_stream_t svn_result" where
  "svn_stream_close s =
     (case close_fn s of
        None \<Rightarrow> Ok s
      | Some f \<Rightarrow> svn_bind (f (baton s)) (\<lambda>b. Ok (s\<lparr>baton := b\<rparr>)))"

section \<open>The contract of handlers\<close>

text \<open>
  Handlers complete a read to the maximum extent possible, so a short read with no error is
  the end of the input; \<open>rest\<close> is what the stream still has to deliver.
\<close>

locale svn_readable =
  fixes rd_ok :: "'b svn_stream_t \<Rightarrow> bool"
    and rest :: "'b svn_stream_t \<Rightarrow> bytes"
  assumes read_ok: "rd_ok s \<Longrightarrow>
    \<exists>s'. svn_stream_read s n = Ok (take n (rest s), s') \<and> rd_ok s' \<and> rest s' = drop n (rest s)"
begin

lemma readE:
  assumes "rd_ok s"
  obtains s' where "svn_stream_read s n = Ok (take n (rest s), s')"
    and "rd_ok s'" and "rest s' = drop n (rest s)"
  using read_ok [OF assms, of n] by blast

end

text \<open>A short write never occurs without an error; \<open>written\<close> is what the stream has accepted.\<close>

locale svn_writable =
  fixes wr_ok :: "'b svn_stream_t \<Rightarrow> bool"
    and written :: "'b svn_stream_t \<Rightarrow> bytes"
  assumes write_ok: "wr_ok s \<Longrightarrow>
      \<exists>s'. svn_stream_write s d = Ok (length d, s') \<and> wr_ok s' \<and> written s' = written s @ d"
    and close_ok: "wr_ok s \<Longrightarrow> \<exists>s'. svn_stream_close s = Ok s' \<and> written s' = written s"
begin

lemma writeE:
  assumes "wr_ok s"
  obtains s' where "svn_stream_write s d = Ok (length d, s')"
    and "wr_ok s'" and "written s' = written s @ d"
  using write_ok [OF assms, of d] by blast

end

section \<open>The empty stream\<close>

definition read_handler_empty :: "unit \<Rightarrow> nat \<Rightarrow> (bytes \<times> unit) svn_result" where
  "read_handler_empty b n = Ok ([], b)"

definition svn_stream_empty :: "unit svn_stream_t" where
  "svn_stream_empty = svn_stream_set_read (svn_stream_create ()) read_handler_empty"

interpretation empty_stream: svn_readable
  "\<lambda>s :: unit svn_stream_t. s = svn_stream_empty" "\<lambda>_. []"
  by unfold_locales
     (auto simp: svn_stream_read_def svn_stream_empty_def svn_stream_set_read_def
        svn_stream_create_def read_handler_empty_def)

section \<open>Streams over stdio files\<close>

text \<open>
  A stdio file: the bytes still to be read, the bytes written, the number of bytes after which
  the device fails (none for a healthy file), and the error indicator.
\<close>

record FILE =
  fp_rest :: bytes
  fp_out :: bytes
  fp_fault :: "nat option"
  fp_error :: bool

definition fread :: "FILE \<Rightarrow> nat \<Rightarrow> bytes \<times> FILE" where
  "fread fp n =
     (let lim = (case fp_fault fp of None \<Rightarrow> n | Some k \<Rightarrow> min n k);
          d = take lim (fp_rest fp)
      in (d, fp\<lparr>fp_rest := drop (length d) (fp_rest fp),
                fp_fault := map_option (\<lambda>k. k - length d) (fp_fault fp),
                fp_error := fp_error fp \<or> (lim < n \<and> length d = lim)\<rparr>))"

definition fwrite :: "FILE \<Rightarrow> bytes \<Rightarrow> nat \<times> FILE" where
  "fwrite fp d =
     (let n = (case fp_fault fp of None \<Rightarrow> length d | Some k \<Rightarrow> min (length d) k)
      in (n, fp\<lparr>fp_out := fp_out fp @ take n d,
                fp_fault := map_option (\<lambda>k. k - n) (fp_fault fp),
                fp_error := fp_error fp \<or> n < length d\<rparr>))"

definition read_handler_stdio :: "FILE \<Rightarrow> nat \<Rightarrow> (bytes \<times> FILE) svn_result" where
  "read_handler_stdio fp n =
     (case fread fp n of
        (d, fp') \<Rightarrow> if length d < n \<and> fp_error fp' then Err APR_ERR else Ok (d, fp'))"

definition write_handler_stdio :: "FILE \<Rightarrow> bytes \<Rightarrow> (nat \<times> FILE) svn_result" where
  "write_handler_stdio fp d =
     (case fwrite fp d of
        (count, fp') \<Rightarrow> if count < length d then Err APR_ERR else Ok (count, fp'))"

text \<open>The case of a null file pointer, which gives the empty stream, is \<open>svn_stream_empty\<close>.\<close>

definition svn_stream_from_stdio :: "FILE \<Rightarrow> FILE svn_stream_t" where
  "svn_stream_from_stdio fp =
     svn_stream_set_write
       (svn_stream_set_read (svn_stream_create fp) read_handler_stdio) write_handler_stdio"

definition healthy_file :: "FILE \<Rightarrow> bool" where
  "healthy_file fp \<longleftrightarrow> fp_fault fp = None \<and> \<not> fp_error fp"

definition stdio_ok :: "FILE svn_stream_t \<Rightarrow> bool" where
  "stdio_ok s \<longleftrightarrow> s = svn_stream_from_stdio (baton s) \<and> healthy_file (baton s)"

text \<open>A file opened for reading \<open>i\<close> and appending to \<open>out\<close>, on a device that works.\<close>

definition file_of :: "bytes \<Rightarrow> bytes \<Rightarrow> FILE" where
  "file_of i out = \<lparr>fp_rest = i, fp_out = out, fp_fault = None, fp_error = False\<rparr>"

lemma file_of_simps [simp]:
  "fp_rest (file_of i out) = i" "fp_out (file_of i out) = out" "healthy_file (file_of i out)"
  by (simp_all add: file_of_def healthy_file_def)

lemma stdio_ok_from_stdio [simp]: "stdio_ok (svn_stream_from_stdio fp) \<longleftrightarrow> healthy_file fp"
  by (simp add: stdio_ok_def svn_stream_from_stdio_def svn_stream_create_def
      svn_stream_set_read_def svn_stream_set_write_def)

lemma baton_from_stdio [simp]: "baton (svn_stream_from_stdio fp) = fp"
  by (simp add: svn_stream_from_stdio_def svn_stream_create_def
      svn_stream_set_read_def svn_stream_set_write_def)

lemmas stream_defs =
  svn_stream_read_def svn_stream_write_def svn_stream_close_def svn_stream_create_def
  svn_stream_set_read_def svn_stream_set_write_def

interpretation stdio: svn_readable stdio_ok "\<lambda>s. fp_rest (baton s)"
proof unfold_locales
  fix s :: "FILE svn_stream_t" and n
  assume "stdio_ok s"
  moreover define fp where "fp = baton s"
  ultimately have s: "s = svn_stream_from_stdio fp" and h: "healthy_file fp"
    by (auto simp: stdio_ok_def)
  let ?fp = "fp\<lparr>fp_rest := drop n (fp_rest fp)\<rparr>"
  have "drop (min (length (fp_rest fp)) n) (fp_rest fp) = drop n (fp_rest fp)"
    by (cases "n \<le> length (fp_rest fp)") (simp_all add: min_def)
  then have "read_handler_stdio fp n = Ok (take n (fp_rest fp), ?fp)"
    using h by (cases fp) (simp add: read_handler_stdio_def fread_def healthy_file_def Let_def)
  with s h show "\<exists>s'. svn_stream_read s n = Ok (take n (fp_rest (baton s)), s') \<and> stdio_ok s' \<and>
      fp_rest (baton s') = drop n (fp_rest (baton s))"
    by (auto simp: svn_stream_from_stdio_def stream_defs stdio_ok_def healthy_file_def)
qed

interpretation stdio_out: svn_writable stdio_ok "\<lambda>s. fp_out (baton s)"
proof unfold_locales
  fix s :: "FILE svn_stream_t" and d
  assume ok: "stdio_ok s"
  moreover define fp where "fp = baton s"
  ultimately have s: "s = svn_stream_from_stdio fp" and h: "healthy_file fp"
    by (auto simp: stdio_ok_def)
  let ?fp = "fp\<lparr>fp_out := fp_out fp @ d\<rparr>"
  have "write_handler_stdio fp d = Ok (length d, ?fp)"
    using h by (cases fp) (simp add: write_handler_stdio_def fwrite_def healthy_file_def Let_def)
  with s h show "\<exists>s'. svn_stream_write s d = Ok (length d, s') \<and> stdio_ok s' \<and>
      fp_out (baton s') = fp_out (baton s) @ d"
    by (auto simp: svn_stream_from_stdio_def stream_defs stdio_ok_def healthy_file_def)
  from s show "\<exists>s'. svn_stream_close s = Ok s' \<and> fp_out (baton s') = fp_out (baton s)"
    by (simp add: svn_stream_from_stdio_def stream_defs)
qed

end
