(* ===== verification/Delta_Stream.thy ===== *)
theory Delta_Stream
  imports Vdelta Svn_Stream
begin

text \<open>
  The streams of delta windows of \<open>libsvn_delta/text_delta.c\<close>: pulling windows out of a pair
  of byte streams, pushing windows at a handler, and the handler that applies windows to a source
  stream.  The main results are that the windows of a delta stream describe the whole target, and
  that applying them to the source writes exactly the target.
\<close>

section \<open>Producing windows\<close>

definition SVN_STREAM_CHUNK_SIZE :: nat where
  "SVN_STREAM_CHUNK_SIZE = 102400"

text \<open>
  \<open>buf\<close> holds the source data saved for the next window, so \<open>saved_source_len\<close> is its
  length.  The MD5 routines of the APR library are parameters: \<open>upd\<close> is
  \<open>apr_md5_update\<close> and \<open>final\<close> is \<open>apr_md5_final\<close>, which may fail.
\<close>

record ('s, 't, 'c) svn_txdelta_stream_t =
  source :: "'s svn_stream_t"
  target :: "'t svn_stream_t"
  tx_more :: bool
  pos :: apr_off_t
  buf :: bytes
  tx_context :: 'c
  tx_digest :: bytes

definition svn_txdelta ::
  "'c \<Rightarrow> bytes \<Rightarrow> 's svn_stream_t \<Rightarrow> 't svn_stream_t \<Rightarrow> ('s, 't, 'c) svn_txdelta_stream_t"
where
  "svn_txdelta ctx0 junk src tgt =
     \<lparr>source = src, target = tgt, tx_more = True, pos = 0, buf = [], tx_context = ctx0, tx_digest = junk\<rparr>"

text \<open>With no saved source data yet, half a window more is read.\<close>

definition new_source_len :: "('s, 't, 'c) svn_txdelta_stream_t \<Rightarrow> nat" where
  "new_source_len stream =
     (if length (buf stream) = 0 then SVN_STREAM_CHUNK_SIZE + SVN_STREAM_CHUNK_SIZE div 2
      else SVN_STREAM_CHUNK_SIZE)"

text \<open>
  The window for the source data \<open>sview\<close> and the target data \<open>tdata\<close>; the last window's
  worth of the source view is saved.
\<close>

definition window_for ::
  "('s, 't, 'c) svn_txdelta_stream_t \<Rightarrow> bytes \<Rightarrow> bytes
     \<Rightarrow> (svn_txdelta_window_t option \<times> ('s, 't, 'c) svn_txdelta_stream_t) svn_result"
where
  "window_for stream sview tdata =
     svn_bind (svn_txdelta__vdelta empty_bob (sview @ tdata) (length sview) (length tdata)) (\<lambda>bob.
       let window = (make_window bob)
             \<lparr>sview_offset := pos stream - of_nat (length sview),
              sview_len := of_nat (length sview),
              tview_len := of_nat (length tdata)\<rparr>;
           saved = (if length sview < SVN_STREAM_CHUNK_SIZE
                    then length sview else SVN_STREAM_CHUNK_SIZE)
       in Ok (Some window, stream\<lparr>buf := drop (length sview - saved) sview\<rparr>))"

definition svn_txdelta_next_window ::
  "('c \<Rightarrow> bytes \<Rightarrow> 'c) \<Rightarrow> ('c \<Rightarrow> bytes option) \<Rightarrow> ('s, 't, 'c) svn_txdelta_stream_t
     \<Rightarrow> (svn_txdelta_window_t option \<times> ('s, 't, 'c) svn_txdelta_stream_t) svn_result"
where
  "svn_txdelta_next_window upd final stream =
     (if \<not> tx_more stream then
        (case final (tx_context stream) of
           None \<Rightarrow> Err APR_ERR
         | Some d \<Rightarrow> Ok (None, stream\<lparr>tx_digest := d\<rparr>))
      else
        svn_bind (svn_stream_read (source stream) (new_source_len stream)) (\<lambda>(sdata, source').
        svn_bind (svn_stream_read (target stream) SVN_STREAM_CHUNK_SIZE) (\<lambda>(tdata, target').
          let stream1 = stream\<lparr>source := source', target := target',
                               pos := pos stream + of_nat (length sdata),
                               tx_context := upd (tx_context stream) sdata\<rparr>
          in if tdata = [] then Ok (None, stream1\<lparr>tx_more := False\<rparr>)
             else window_for stream1 (buf stream @ sdata) tdata)))"

text \<open>\<open>None\<close> is the null pointer.\<close>

definition svn_txdelta_md5_digest :: "('s, 't, 'c) svn_txdelta_stream_t \<Rightarrow> bytes option" where
  "svn_txdelta_md5_digest stream = (if tx_more stream then None else Some (tx_digest stream))"

section \<open>Pushing windows\<close>

type_synonym 'b window_handler = "svn_txdelta_window_t option \<Rightarrow> 'b \<Rightarrow> 'b svn_result"

text \<open>
  The loop stops when the stream returns the null window; \<open>None\<close> is a loop that never stops.
\<close>

partial_function (option) send_txstream_loop ::
  "('c \<Rightarrow> bytes \<Rightarrow> 'c) \<Rightarrow> ('c \<Rightarrow> bytes option) \<Rightarrow> 'b window_handler
     \<Rightarrow> ('s, 't, 'c) svn_txdelta_stream_t \<Rightarrow> 'b
     \<Rightarrow> (('s, 't, 'c) svn_txdelta_stream_t \<times> 'b) svn_result option"
where
  "send_txstream_loop upd final handler txstream b =
     (case svn_txdelta_next_window upd final txstream of
        Err e \<Rightarrow> Some (Err e)
      | Abort \<Rightarrow> Some Abort
      | Ok (window, txstream') \<Rightarrow>
          (case handler window b of
             Err e \<Rightarrow> Some (Err e)
           | Abort \<Rightarrow> Some Abort
           | Ok b' \<Rightarrow>
               (if window \<noteq> None then send_txstream_loop upd final handler txstream' b'
                else Some (Ok (txstream', b')))))"

definition svn_txdelta_send_txstream ::
  "('c \<Rightarrow> bytes \<Rightarrow> 'c) \<Rightarrow> ('c \<Rightarrow> bytes option) \<Rightarrow> ('s, 't, 'c) svn_txdelta_stream_t
     \<Rightarrow> 'b window_handler \<Rightarrow> 'b \<Rightarrow> (('s, 't, 'c) svn_txdelta_stream_t \<times> 'b) svn_result option"
where
  "svn_txdelta_send_txstream upd final txstream handler b =
     send_txstream_loop upd final handler txstream b"

definition svn_txdelta_send_stream ::
  "'c \<Rightarrow> bytes \<Rightarrow> ('c \<Rightarrow> bytes \<Rightarrow> 'c) \<Rightarrow> ('c \<Rightarrow> bytes option) \<Rightarrow> 't svn_stream_t
     \<Rightarrow> 'b window_handler \<Rightarrow> 'b
     \<Rightarrow> ((unit, 't, 'c) svn_txdelta_stream_t \<times> 'b) svn_result option"
where
  "svn_txdelta_send_stream ctx0 junk upd final stream handler b =
     svn_txdelta_send_txstream upd final (svn_txdelta ctx0 junk svn_stream_empty stream) handler b"

definition svn_txdelta_send_string :: "bytes \<Rightarrow> 'b window_handler \<Rightarrow> 'b \<Rightarrow> 'b svn_result" where
  "svn_txdelta_send_string string handler b =
     (let op = \<lparr>action_code = svn_txdelta_new, op_offset = 0, op_length = of_nat (length string)\<rparr>;
          window = \<lparr>sview_offset = 0, sview_len = 0, tview_len = of_nat (length string),
                    ops = [op], new_data = string\<rparr>
      in svn_bind (handler (Some window) b) (handler None))"

section \<open>Applying windows\<close>

text \<open>\<open>sbuf\<close> holds the \<open>sbuf_len\<close> bytes of the last source view.\<close>

record ('s, 't) apply_baton =
  ab_source :: "'s svn_stream_t"
  ab_target :: "'t svn_stream_t"
  sbuf :: bytes
  sbuf_size :: apr_size_t
  sbuf_offset :: apr_off_t
  tbuf_size :: apr_size_t

abbreviation sbuf_len :: "('s, 't) apply_baton \<Rightarrow> apr_size_t" where
  "sbuf_len ab \<equiv> of_nat (length (sbuf ab))"

definition size_buffer :: "apr_size_t \<Rightarrow> apr_size_t \<Rightarrow> apr_size_t" where
  "size_buffer buf_size view_len =
     (if buf_size < view_len
      then (if buf_size * 2 < view_len then view_len else buf_size * 2)
      else buf_size)"

definition svn_txdelta_apply :: "'s svn_stream_t \<Rightarrow> 't svn_stream_t \<Rightarrow> ('s, 't) apply_baton" where
  "svn_txdelta_apply src tgt =
     \<lparr>ab_source = src, ab_target = tgt, sbuf = [], sbuf_size = 0, sbuf_offset = 0, tbuf_size = 0\<rparr>"

text \<open>Move the buffer to the window's source view, keeping the overlap with the last view.\<close>

definition slide_sbuf :: "svn_txdelta_window_t \<Rightarrow> ('s, 't) apply_baton \<Rightarrow> ('s, 't) apply_baton" where
  "slide_sbuf window ab =
     (if sview_offset window \<noteq> sbuf_offset ab \<or> sbuf_size ab < sview_len window then
        (let ab1 = ab\<lparr>sbuf_size := size_buffer (sbuf_size ab) (sview_len window)\<rparr>;
             ab2 = (if sview_offset window < sbuf_offset ab + sbuf_len ab
                    then ab1\<lparr>sbuf := drop (unat (sview_offset window - sbuf_offset ab)) (sbuf ab)\<rparr>
                    else ab1\<lparr>sbuf := []\<rparr>)
         in ab2\<lparr>sbuf_offset := sview_offset window\<rparr>)
      else ab)"

text \<open>Read the remainder of the source view.\<close>

definition fill_sbuf ::
  "svn_txdelta_window_t \<Rightarrow> ('s, 't) apply_baton \<Rightarrow> ('s, 't) apply_baton svn_result"
where
  "fill_sbuf window ab =
     (if sbuf_len ab < sview_len window then
        (let len = sview_len window - sbuf_len ab
         in svn_bind (svn_stream_read (ab_source ab) (unat len)) (\<lambda>(d, source').
              if of_nat (length d) \<noteq> len then Err SVN_ERR_INCOMPLETE_DATA
              else Ok (ab\<lparr>ab_source := source', sbuf := sbuf ab @ d\<rparr>)))
      else Ok ab)"

definition apply_window :: "('s, 't) apply_baton window_handler" where
  "apply_window window_opt ab =
     (case window_opt of
        None \<Rightarrow>
          (case svn_stream_close (ab_target ab) of
             Ok t \<Rightarrow> Ok (ab\<lparr>ab_target := t\<rparr>)
           | Err e \<Rightarrow> Ok ab
           | Abort \<Rightarrow> Abort)
      | Some window \<Rightarrow>
          if \<not> (sint (sbuf_offset ab) \<le> sint (sview_offset window) \<and>
                sbuf_offset ab + sbuf_len ab \<le> sview_offset window + sview_len window)
          then Abort
          else
            (let ab1 = ab\<lparr>tbuf_size := size_buffer (tbuf_size ab) (tview_len window)\<rparr>
             in svn_bind (fill_sbuf window (slide_sbuf window ab1)) (\<lambda>ab2.
                svn_bind (apply_instructions window (sbuf ab2)) (\<lambda>tbuf.
                svn_bind (svn_stream_write (ab_target ab2) tbuf) (\<lambda>(n, target').
                  Ok (ab2\<lparr>ab_target := target'\<rparr>))))))"

section \<open>Sequences of windows\<close>

text \<open>
  \<open>window_seq S i l ws T\<close>: starting from a source view of \<open>l\<close> bytes at \<open>i\<close>, the
  windows \<open>ws\<close> have source views inside \<open>S\<close> that slide forward without a gap, and their
  instructions build the pieces of \<open>T\<close> in order.
\<close>

definition window_step :: "bytes \<Rightarrow> nat \<Rightarrow> nat \<Rightarrow> svn_txdelta_window_t \<Rightarrow> bytes \<Rightarrow> bool" where
  "window_step S i l w T \<longleftrightarrow>
     (let i' = unat (sview_offset w); l' = unat (sview_len w); n = unat (tview_len w) in
      i \<le> i' \<and> i' \<le> i + l \<and> i + l \<le> i' + l' \<and> i' + l' \<le> length S \<and>
      0 < n \<and> n \<le> length T \<and> n < 2 ^ 56 \<and> length (new_data w) < 2 ^ 56 \<and>
      ops_canon (ops w) 0 = Some (length (new_data w)) \<and>
      ops_denote (seg i' l' S) (new_data w) (ops w) [] = Some (take n T))"

fun window_seq :: "bytes \<Rightarrow> nat \<Rightarrow> nat \<Rightarrow> svn_txdelta_window_t list \<Rightarrow> bytes \<Rightarrow> bool" where
  "window_seq S i l [] T \<longleftrightarrow> T = []"
| "window_seq S i l (w # ws) T \<longleftrightarrow>
     window_step S i l w T \<and>
     window_seq S (unat (sview_offset w)) (unat (sview_len w)) ws (drop (unat (tview_len w)) T)"

text \<open>A handler that is given a list of windows and then the null window.\<close>

fun feed_windows :: "'b window_handler \<Rightarrow> svn_txdelta_window_t list \<Rightarrow> 'b \<Rightarrow> 'b svn_result" where
  "feed_windows h [] b = h None b"
| "feed_windows h (w # ws) b = svn_bind (h (Some w) b) (feed_windows h ws)"

text \<open>\<open>ws\<close> are the windows a delta stream delivers before the null window.\<close>

fun delivers ::
  "('c \<Rightarrow> bytes \<Rightarrow> 'c) \<Rightarrow> ('c \<Rightarrow> bytes option) \<Rightarrow> ('s, 't, 'c) svn_txdelta_stream_t
     \<Rightarrow> svn_txdelta_window_t list \<Rightarrow> ('s, 't, 'c) svn_txdelta_stream_t \<Rightarrow> bool"
where
  "delivers upd final st [] st' \<longleftrightarrow> svn_txdelta_next_window upd final st = Ok (None, st')"
| "delivers upd final st (w # ws) st' \<longleftrightarrow>
     (\<exists>st1. svn_txdelta_next_window upd final st = Ok (Some w, st1) \<and> delivers upd final st1 ws st')"

lemma send_txstream_delivers:
  assumes "delivers upd final st ws st'"
  shows "svn_txdelta_send_txstream upd final st h b =
    Some (svn_bind (feed_windows h ws b) (\<lambda>b'. Ok (st', b')))"
  using assms
proof (induction ws arbitrary: st b)
  case Nil
  then show ?case
    unfolding svn_txdelta_send_txstream_def
    by (subst send_txstream_loop.simps) (simp split: svn_result.split)
next
  case (Cons w ws)
  then obtain st1 where "svn_txdelta_next_window upd final st = Ok (Some w, st1)"
    and "delivers upd final st1 ws st'" by auto
  with Cons.IH [of st1] show ?case
    unfolding svn_txdelta_send_txstream_def
    by (subst send_txstream_loop.simps) (cases "h (Some w) b"; simp)
qed

section \<open>A delta stream describes its target\<close>

locale delta_streams = src: svn_readable s_ok s_rest + tgt: svn_readable t_ok t_rest
  for s_ok :: "'s svn_stream_t \<Rightarrow> bool" and s_rest :: "'s svn_stream_t \<Rightarrow> bytes"
    and t_ok :: "'t svn_stream_t \<Rightarrow> bool" and t_rest :: "'t svn_stream_t \<Rightarrow> bytes"
begin

text \<open>The state between two windows: \<open>pos\<close> bytes of the source \<open>S\<close> have been read, the
  last view was \<open>l\<close> bytes at \<open>i\<close>, and the saved bytes are the end of it.\<close>

definition tx_inv :: "bytes \<Rightarrow> nat \<Rightarrow> nat \<Rightarrow> ('s, 't, 'c) svn_txdelta_stream_t \<Rightarrow> bool" where
  "tx_inv S i l st \<longleftrightarrow>
     tx_more st \<and> i + l = unat (pos st) \<and> unat (pos st) \<le> length S \<and> length (buf st) \<le> l \<and>
     buf st = seg (unat (pos st) - length (buf st)) (length (buf st)) S \<and>
     s_ok (source st) \<and> s_rest (source st) = drop (unat (pos st)) S \<and> t_ok (target st)"

lemma tx_inv_start:
  "s_ok src \<Longrightarrow> t_ok tgt \<Longrightarrow> tx_inv (s_rest src) 0 0 (svn_txdelta ctx0 junk src tgt)"
  by (simp add: tx_inv_def svn_txdelta_def)

lemma next_window_end:
  assumes "tx_inv S i l st" and "t_rest (target st) = []"
  shows "\<exists>st'. svn_txdelta_next_window upd final st = Ok (None, st') \<and> \<not> tx_more st'"
proof -
  obtain sdata s' where "svn_stream_read (source st) (new_source_len st) = Ok (sdata, s')"
    using assms(1) src.readE unfolding tx_inv_def by blast
  moreover obtain t' where "svn_stream_read (target st) SVN_STREAM_CHUNK_SIZE = Ok ([], t')"
    using assms tgt.readE [of "target st" SVN_STREAM_CHUNK_SIZE] by (auto simp: tx_inv_def)
  ultimately show ?thesis
    using assms(1) by (simp add: svn_txdelta_next_window_def tx_inv_def Let_def)
qed

lemma next_window_some:
  assumes inv: "tx_inv S i l st" and T: "t_rest (target st) \<noteq> []" and S: "length S < 2 ^ 62"
  shows "\<exists>w st'. svn_txdelta_next_window upd final st = Ok (Some w, st') \<and>
    window_step S i l w (t_rest (target st)) \<and>
    tx_inv S (unat (sview_offset w)) (unat (sview_len w)) st' \<and>
    t_rest (target st') = drop (unat (tview_len w)) (t_rest (target st)) \<and>
    0 < unat (tview_len w)"
proof -
  let ?C = SVN_STREAM_CHUNK_SIZE
  define p where "p = unat (pos st)"
  define lb where "lb = length (buf st)"
  define n where "n = new_source_len st"
  define tdata where "tdata = take ?C (t_rest (target st))"
  define sdata where "sdata = take n (drop p S)"
  define sview where "sview = buf st @ sdata"
  have more: "tx_more st" and il: "i + l = p" and pS: "p \<le> length S" and lb: "lb \<le> l"
    and buf: "buf st = seg (p - lb) lb S" and s_ok: "s_ok (source st)"
    and s_rest: "s_rest (source st) = drop p S" and t_ok: "t_ok (target st)"
    using inv by (auto simp: tx_inv_def p_def lb_def)
  obtain s' where s': "svn_stream_read (source st) n = Ok (sdata, s')" "s_ok s'"
    "s_rest s' = drop n (drop p S)"
    using src.readE [OF s_ok, of n] by (auto simp: sdata_def s_rest)
  obtain t' where t': "svn_stream_read (target st) ?C = Ok (tdata, t')" "t_ok t'"
    "t_rest t' = drop ?C (t_rest (target st))"
    using tgt.readE [OF t_ok, of ?C] by (auto simp: tdata_def)
  have tdata: "tdata \<noteq> []" "length tdata \<le> ?C" "tdata = take (length tdata) (t_rest (target st))"
    "t_rest t' = drop (length tdata) (t_rest (target st))"
    using T t'(3) by (auto simp: tdata_def SVN_STREAM_CHUNK_SIZE_def min_def)
  have sdata: "sdata = seg p (length sdata) S" "p + length sdata \<le> length S"
    "s_rest s' = drop (p + length sdata) S"
    using pS s'(3) by (auto simp: sdata_def seg_def min_def add.commute)
  have lbp: "lb \<le> p" and ile: "i \<le> p - lb" using lb il by linarith+
  have tlen: "length tdata \<le> length (t_rest (target st))" by (simp add: tdata_def)
  have sview: "sview = seg (p - lb) (lb + length sdata) S"
    using seg_append_eq [of "p - lb" lb S "length sdata"] lbp buf sdata(1) by (simp add: sview_def)
  have len: "length sview = lb + length sdata" by (simp add: sview_def lb_def)
  have "length (sview @ tdata) < 2 ^ 63"
    using S sdata(2) tdata(2) lbp by (simp add: len SVN_STREAM_CHUNK_SIZE_def)
  from vdelta_correct [OF length_append this] obtain bob where
    bob: "svn_txdelta__vdelta empty_bob (sview @ tdata) (length sview) (length tdata) = Ok bob"
      "bob_target sview bob = Some tdata" "bob_canon bob" "length (bob_new_data bob) \<le> length tdata"
    by auto
  define st1 where "st1 = st\<lparr>source := s', target := t', pos := pos st + of_nat (length sdata),
    tx_context := upd (tx_context st) sdata\<rparr>"
  define w where "w = (make_window bob)\<lparr>sview_offset := of_nat (p - lb),
    sview_len := of_nat (length sview), tview_len := of_nat (length tdata)\<rparr>"
  define st' where "st' = st1\<lparr>buf := drop (length sview - (if length sview < ?C then length sview else ?C)) sview\<rparr>"
  have "pos st1 - of_nat (length sview) = of_nat (p - lb)"
    using lbp by (simp add: len p_def st1_def of_nat_diff)
  then have "window_for st1 sview tdata = Ok (Some w, st')"
    using bob(1) by (simp add: window_for_def Let_def st'_def w_def del: of_nat_diff)
  then have run: "svn_txdelta_next_window upd final st = Ok (Some w, st')"
    using more s'(1) t'(1) tdata(1)
    by (simp add: svn_txdelta_next_window_def Let_def flip: n_def sview_def st1_def)
  have w: "unat (sview_offset w) = p - lb" "unat (sview_len w) = length sview"
    "unat (tview_len w) = length tdata"
    using S sdata(2) tdata(2) lbp pS
    by (simp_all add: w_def len unat_of_nat64 SVN_STREAM_CHUNK_SIZE_def del: of_nat_diff of_nat_add)
  have "window_step S i l w (t_rest (target st))"
    using w lb lbp il ile tlen sdata(2) tdata bob(2,3,4) len sview
    by (simp add: window_step_def Let_def SVN_STREAM_CHUNK_SIZE_def bob_target_def bob_canon_def w_def
        make_window_def)
  moreover have "tx_inv S (p - lb) (length sview) st'"
  proof -
    have "unat (pos st + of_nat (length sdata)) = p + length sdata"
      using sdata(2) S by (simp add: p_def unat_word_ariths unat_of_nat64)
    moreover have "drop k sview = seg (p - lb + k) (lb + length sdata - k) S" for k
      by (simp add: sview seg_def drop_take add.commute)
    ultimately show ?thesis
      using more s'(2) t'(2) sdata lbp len
      by (auto simp: tx_inv_def st'_def st1_def)
  qed
  moreover have "t_rest (target st') = drop (length tdata) (t_rest (target st))"
    using tdata(4) by (simp add: st'_def st1_def)
  ultimately show ?thesis
    using run w tdata(1) by (intro exI [of _ w] exI [of _ st']) simp
qed

lemma delivers_windows:
  assumes "tx_inv S i l st" and "length S < 2 ^ 62"
  shows "\<exists>ws st'. delivers upd final st ws st' \<and> window_seq S i l ws (t_rest (target st)) \<and>
    \<not> tx_more st'"
  using assms(1)
proof (induction "length (t_rest (target st))" arbitrary: i l st rule: less_induct)
  case less
  show ?case
  proof (cases "t_rest (target st) = []")
    case True
    from next_window_end [OF less.prems True] obtain st' where
      "svn_txdelta_next_window upd final st = Ok (None, st')" "\<not> tx_more st'" by blast
    with True show ?thesis by (intro exI [of _ "[]"] exI [of _ st']) simp
  next
    case False
    from next_window_some [OF less.prems False assms(2)] obtain w st1 where
      w: "svn_txdelta_next_window upd final st = Ok (Some w, st1)"
        "window_step S i l w (t_rest (target st))"
        "tx_inv S (unat (sview_offset w)) (unat (sview_len w)) st1"
        "t_rest (target st1) = drop (unat (tview_len w)) (t_rest (target st))"
        "0 < unat (tview_len w)" by blast
    from w(4,5) False have "length (t_rest (target st1)) < length (t_rest (target st))" by simp
    from less.hyps [OF this w(3)] obtain ws st' where
      "delivers upd final st1 ws st'"
      "window_seq S (unat (sview_offset w)) (unat (sview_len w)) ws (t_rest (target st1))"
      "\<not> tx_more st'" by blast
    with w show ?thesis by (intro exI [of _ "w # ws"] exI [of _ st']) auto
  qed
qed

lemma txdelta_delivers:
  assumes "s_ok src" and "t_ok tgt" and "length (s_rest src) < 2 ^ 62"
  shows "\<exists>ws st'. delivers upd final (svn_txdelta ctx0 junk src tgt) ws st' \<and>
    window_seq (s_rest src) 0 0 ws (t_rest tgt) \<and> \<not> tx_more st'"
  using delivers_windows [OF tx_inv_start [OF assms(1,2)] assms(3)]
  by (simp add: svn_txdelta_def)

end

section \<open>Applying a sequence of windows writes the target\<close>

locale delta_applier = src: svn_readable s_ok s_rest + out: svn_writable w_ok written
  for s_ok :: "'s svn_stream_t \<Rightarrow> bool" and s_rest :: "'s svn_stream_t \<Rightarrow> bytes"
    and w_ok :: "'t svn_stream_t \<Rightarrow> bool" and written :: "'t svn_stream_t \<Rightarrow> bytes"
begin

definition ab_inv :: "bytes \<Rightarrow> nat \<Rightarrow> nat \<Rightarrow> ('s, 't) apply_baton \<Rightarrow> bool" where
  "ab_inv S i l ab \<longleftrightarrow>
     unat (sbuf_offset ab) = i \<and> i + l \<le> length S \<and> sbuf ab = seg i l S \<and>
     s_ok (ab_source ab) \<and> s_rest (ab_source ab) = drop (i + l) S \<and> w_ok (ab_target ab)"

lemma ab_inv_start: "s_ok src \<Longrightarrow> w_ok tgt \<Longrightarrow> ab_inv (s_rest src) 0 0 (svn_txdelta_apply src tgt)"
  by (simp add: ab_inv_def svn_txdelta_apply_def)

lemma slide_sbuf_view:
  assumes inv: "ab_inv S i l ab" and S: "length S < 2 ^ 62"
    and i': "unat (sview_offset w) = i'" "i \<le> i'" "i' \<le> i + l"
  shows "ab_inv S i' (i + l - i') (slide_sbuf w ab)"
proof (cases "sview_offset w \<noteq> sbuf_offset ab \<or> sbuf_size ab < sview_len w")
  case False
  with inv i' show ?thesis by (auto simp: ab_inv_def slide_sbuf_def)
next
  case True
  have bounds: "i + l < 2 ^ 62" "length (sbuf ab) = l"
    using inv S by (auto simp: ab_inv_def)
  have lt: "sview_offset w < sbuf_offset ab + sbuf_len ab \<longleftrightarrow> i' < i + l"
    using inv i' bounds by (simp add: ab_inv_def word_less_nat_alt unat_word_ariths unat_of_nat64)
  have "unat (sview_offset w - sbuf_offset ab) = i' - i"
    using inv i' by (simp add: ab_inv_def unat_sub word_le_nat_alt)
  moreover have "drop (i' - i) (seg i l S) = seg i' (i + l - i') S"
    using i' by (simp add: seg_def drop_take add.commute)
  ultimately show ?thesis
    using True inv i' lt by (auto simp: slide_sbuf_def ab_inv_def Let_def)
qed

lemma fill_sbuf_view:
  assumes inv: "ab_inv S i l ab" and S: "length S < 2 ^ 62"
    and l': "unat (sview_len w) = l'" "l \<le> l'" "i + l' \<le> length S"
  shows "\<exists>ab'. fill_sbuf w ab = Ok ab' \<and> ab_inv S i l' ab' \<and> ab_target ab' = ab_target ab"
proof -
  have len: "length (sbuf ab) = l" and bounds: "l' < 2 ^ 62"
    using inv S l' by (auto simp: ab_inv_def)
  have lt: "sbuf_len ab < sview_len w \<longleftrightarrow> l < l'"
    using len bounds l' by (simp add: word_less_nat_alt unat_of_nat64)
  show ?thesis
  proof (cases "l < l'")
    case False
    with l' lt inv show ?thesis by (simp add: fill_sbuf_def)
  next
    case True
    have n: "unat (sview_len w - sbuf_len ab) = l' - l"
      using l' len bounds by (simp add: unat_sub word_le_nat_alt unat_of_nat64)
    then have n': "of_nat (l' - l) = sview_len w - sbuf_len ab"
      by (simp flip: n)
    obtain s' where s': "svn_stream_read (ab_source ab) (l' - l)
        = Ok (take (l' - l) (drop (i + l) S), s')" "s_ok s'" "s_rest s' = drop (l' - l) (drop (i + l) S)"
      using inv src.readE [of "ab_source ab" "l' - l"] by (auto simp: ab_inv_def)
    have d: "length (take (l' - l) (drop (i + l) S)) = l' - l"
      using l' by simp
    have "fill_sbuf w ab = Ok (ab\<lparr>ab_source := s', sbuf := sbuf ab @ seg (i + l) (l' - l) S\<rparr>)"
      using True lt s'(1) d n n' by (simp add: fill_sbuf_def seg_def)
    moreover have "sbuf ab @ seg (i + l) (l' - l) S = seg i l' S"
      using inv l' seg_append_eq [of i l S "l' - l"] by (simp add: ab_inv_def)
    ultimately show ?thesis
      using inv s' l' True by (auto simp: ab_inv_def add.commute)
  qed
qed

lemma apply_window_step:
  assumes inv: "ab_inv S i l ab" and S: "length S < 2 ^ 62" and w: "window_step S i l w T"
  shows "\<exists>ab'. apply_window (Some w) ab = Ok ab' \<and>
    ab_inv S (unat (sview_offset w)) (unat (sview_len w)) ab' \<and>
    written (ab_target ab') = written (ab_target ab) @ take (unat (tview_len w)) T"
proof -
  let ?i = "unat (sview_offset w)" and ?l = "unat (sview_len w)" and ?n = "unat (tview_len w)"
  have w': "i \<le> ?i" "?i \<le> i + l" "i + l \<le> ?i + ?l" "?i + ?l \<le> length S"
    "?n \<le> length T" "?n < 2 ^ 56" "length (new_data w) < 2 ^ 56"
    "ops_denote (seg ?i ?l S) (new_data w) (ops w) [] = Some (take ?n T)"
    using w by (auto simp: window_step_def Let_def)
  define ab1 where "ab1 = ab\<lparr>tbuf_size := size_buffer (tbuf_size ab) (tview_len w)\<rparr>"
  have inv1: "ab_inv S i l ab1" using inv by (simp add: ab_inv_def ab1_def)
  from w'(2,3) have "i + l - ?i \<le> ?l" by linarith
  then obtain ab2 where ab2: "fill_sbuf w (slide_sbuf w ab1) = Ok ab2" "ab_inv S ?i ?l ab2"
    "ab_target ab2 = ab_target (slide_sbuf w ab1)"
    using fill_sbuf_view [OF slide_sbuf_view [OF inv1 S refl w'(1,2)] S refl, of w] w'(4) by blast
  have tgt: "ab_target ab2 = ab_target ab"
    by (simp add: ab2(3) slide_sbuf_def ab1_def Let_def)
  have "window_sizes_ok w (sbuf ab2)"
    using ab2(2) w' S by (auto simp: window_sizes_ok_def ab_inv_def)
  from apply_instructions_denotes [OF this] w'(5,8) ab2(2)
  have ai: "apply_instructions w (sbuf ab2) = Ok (take ?n T)" by (simp add: ab_inv_def)
  obtain t' where t': "svn_stream_write (ab_target ab2) (take ?n T) = Ok (length (take ?n T), t')"
    "w_ok t'" "written t' = written (ab_target ab) @ take ?n T"
    using out.writeE [of "ab_target ab2" "take ?n T"] ab2(2) by (auto simp: ab_inv_def tgt)
  have "sint (sbuf_offset ab) \<le> sint (sview_offset w)"
    using inv w'(1,2) S by (intro sint64_mono) (auto simp: ab_inv_def)
  moreover have "sbuf_offset ab + sbuf_len ab \<le> sview_offset w + sview_len w"
    using inv w'(3,4) S by (simp add: ab_inv_def word_le_nat_alt unat_word_ariths unat_of_nat64)
  ultimately have "apply_window (Some w) ab = Ok (ab2\<lparr>ab_target := t'\<rparr>)"
    using ab2(1) ai t'(1) by (simp add: apply_window_def Let_def flip: ab1_def)
  with t' ab2(2) show ?thesis by (auto simp: ab_inv_def)
qed

lemma feed_apply_window:
  assumes "ab_inv S i l ab" and "length S < 2 ^ 62" and "window_seq S i l ws T"
  shows "\<exists>ab'. feed_windows apply_window ws ab = Ok ab' \<and>
    written (ab_target ab') = written (ab_target ab) @ T"
  using assms(1,3)
proof (induction ws arbitrary: i l ab T)
  case Nil
  then obtain t' where "svn_stream_close (ab_target ab) = Ok t'" "written t' = written (ab_target ab)"
    using out.close_ok [of "ab_target ab"] by (auto simp: ab_inv_def)
  with Nil show ?case by (simp add: apply_window_def)
next
  case (Cons w ws)
  then have step: "window_step S i l w T"
    and rest: "window_seq S (unat (sview_offset w)) (unat (sview_len w)) ws (drop (unat (tview_len w)) T)"
    by simp_all
  from apply_window_step [OF Cons.prems(1) assms(2) step] obtain ab1 where
    ab1: "apply_window (Some w) ab = Ok ab1"
      "ab_inv S (unat (sview_offset w)) (unat (sview_len w)) ab1"
      "written (ab_target ab1) = written (ab_target ab) @ take (unat (tview_len w)) T" by blast
  from Cons.IH [OF ab1(2) rest] ab1 show ?case by auto
qed

end

section \<open>Deltas between files\<close>

text \<open>Both contracts hold of stdio streams, and of a stdio target against the empty source.\<close>

interpretation stdio_delta: delta_streams
  stdio_ok "\<lambda>s. fp_rest (baton s)" stdio_ok "\<lambda>s. fp_rest (baton s)"
  by unfold_locales

interpretation fulltext_delta: delta_streams
  "\<lambda>s :: unit svn_stream_t. s = svn_stream_empty" "\<lambda>_. []" stdio_ok "\<lambda>s. fp_rest (baton s)"
  by unfold_locales

interpretation stdio_applier: delta_applier
  stdio_ok "\<lambda>s. fp_rest (baton s)" stdio_ok "\<lambda>s. fp_out (baton s)"
  by unfold_locales

interpretation fulltext_applier: delta_applier
  "\<lambda>s :: unit svn_stream_t. s = svn_stream_empty" "\<lambda>_. []" stdio_ok "\<lambda>s. fp_out (baton s)"
  by unfold_locales

section \<open>Deltas between files: the properties\<close>

text \<open>
  C20. Pushing the delta between two files straight into the applier always ends and writes
  exactly the target file after what the output already held.
\<close>

theorem txdelta_apply_files:
  assumes "healthy_file src" and "healthy_file tgt" and "healthy_file base" and "healthy_file out"
    and "fp_rest base = fp_rest src" and "length (fp_rest src) < 2 ^ 62"
  shows "\<exists>st ab.
    svn_txdelta_send_txstream upd final
        (svn_txdelta ctx0 junk (svn_stream_from_stdio src) (svn_stream_from_stdio tgt))
        apply_window (svn_txdelta_apply (svn_stream_from_stdio base) (svn_stream_from_stdio out))
      = Some (Ok (st, ab)) \<and>
    fp_out (baton (ab_target ab)) = fp_out out @ fp_rest tgt"
proof -
  let ?s = svn_stream_from_stdio
  obtain ws st where ws: "delivers upd final (svn_txdelta ctx0 junk (?s src) (?s tgt)) ws st"
    and seq: "window_seq (fp_rest src) 0 0 ws (fp_rest tgt)"
    using stdio_delta.txdelta_delivers [of "?s src" "?s tgt" upd final ctx0 junk] assms by auto
  have "stdio_applier.ab_inv (fp_rest src) 0 0 (svn_txdelta_apply (?s base) (?s out))"
    using stdio_applier.ab_inv_start [of "?s base" "?s out"] assms by simp
  from stdio_applier.feed_apply_window [OF this assms(6) seq] ws show ?thesis
    by (auto simp: send_txstream_delivers svn_txdelta_apply_def)
qed

theorem txdelta_apply_files_witness:
  "\<exists>st ab.
    svn_txdelta_send_txstream (\<lambda>c x. c) Some
        (svn_txdelta [] [] (svn_stream_from_stdio (file_of ''old text'' []))
           (svn_stream_from_stdio (file_of ''new text'' [])))
        apply_window
        (svn_txdelta_apply (svn_stream_from_stdio (file_of ''old text'' []))
           (svn_stream_from_stdio (file_of [] [])))
      = Some (Ok (st, ab)) \<and>
    fp_out (baton (ab_target ab)) = ''new text''"
  using txdelta_apply_files [of "file_of ''old text'' []" "file_of ''new text'' []"
      "file_of ''old text'' []" "file_of [] []" "\<lambda>c x. c" Some "[]" "[]"] by simp

text \<open>
  A full text sent with \<open>svn_txdelta_send_stream\<close>, as a delta against the empty stream,
  is written out unchanged by an applier with an empty source.
\<close>

lemma send_stream_fulltext:
  assumes "healthy_file tgt" and "healthy_file out"
  shows "\<exists>st ab.
    svn_txdelta_send_stream ctx0 junk upd final (svn_stream_from_stdio tgt)
        apply_window (svn_txdelta_apply svn_stream_empty (svn_stream_from_stdio out))
      = Some (Ok (st, ab)) \<and>
    fp_out (baton (ab_target ab)) = fp_out out @ fp_rest tgt"
proof -
  let ?s = svn_stream_from_stdio
  obtain ws st where ws: "delivers upd final (svn_txdelta ctx0 junk svn_stream_empty (?s tgt)) ws st"
    and seq: "window_seq [] 0 0 ws (fp_rest tgt)"
    using fulltext_delta.txdelta_delivers [of svn_stream_empty "?s tgt" upd final ctx0 junk] assms by auto
  have "fulltext_applier.ab_inv [] 0 0 (svn_txdelta_apply svn_stream_empty (?s out))"
    using fulltext_applier.ab_inv_start [of svn_stream_empty "?s out"] assms by simp
  from fulltext_applier.feed_apply_window [OF this _ seq] ws show ?thesis
    by (auto simp: svn_txdelta_send_stream_def send_txstream_delivers svn_txdelta_apply_def)
qed

text \<open>
  A string sent with \<open>svn_txdelta_send_string\<close>, the empty one included, is written out by
  an applier whatever its source stream: the single window has no source view.
\<close>

lemma send_string_apply:
  assumes "healthy_file out" and "length str < 2 ^ 63"
  shows "\<exists>ab. svn_txdelta_send_string str apply_window (svn_txdelta_apply src (svn_stream_from_stdio out)) = Ok ab \<and>
    fp_out (baton (ab_target ab)) = fp_out out @ str"
proof -
  let ?op = "\<lparr>action_code = svn_txdelta_new, op_offset = 0, op_length = of_nat (length str)\<rparr>"
  let ?w = "\<lparr>sview_offset = 0, sview_len = 0, tview_len = of_nat (length str), ops = [?op], new_data = str\<rparr>"
  let ?ab = "svn_txdelta_apply src (svn_stream_from_stdio out)"
  have "window_sizes_ok ?w []" using assms(2) by (simp add: window_sizes_ok_def unat_of_nat64)
  from apply_instructions_denotes [OF this] have ai: "apply_instructions ?w [] = Ok str"
    using assms(2) by (simp add: op_denotes_def unat_of_nat64)
  obtain t where t: "svn_stream_write (svn_stream_from_stdio out) str = Ok (length str, t)" "stdio_ok t"
    "fp_out (baton t) = fp_out out @ str"
    using stdio_out.writeE [of "svn_stream_from_stdio out" str] assms(1) by auto
  obtain t' where t': "svn_stream_close t = Ok t'" "fp_out (baton t') = fp_out (baton t)"
    using stdio_out.close_ok [OF t(2)] by auto
  define ab1 where "ab1 = ?ab\<lparr>tbuf_size := size_buffer 0 (of_nat (length str)), ab_target := t\<rparr>"
  have "apply_window (Some ?w) ?ab = Ok ab1"
    using ai t(1) by (simp add: apply_window_def svn_txdelta_apply_def Let_def slide_sbuf_def fill_sbuf_def ab1_def)
  then show ?thesis
    using t(3) t' by (simp add: svn_txdelta_send_string_def apply_window_def ab1_def)
qed

text \<open>
  A window whose source view is longer than the source stream is refused with
  \<open>SVN_ERR_INCOMPLETE_DATA\<close> before anything is written.
\<close>

lemma apply_window_short_source:
  assumes "healthy_file base" and "length (fp_rest base) < unat (sview_len w)" and "0 \<le> sint (sview_offset w)"
  shows "apply_window (Some w) (svn_txdelta_apply (svn_stream_from_stdio base) tgt) = Err SVN_ERR_INCOMPLETE_DATA"
proof -
  obtain s' where r: "svn_stream_read (svn_stream_from_stdio base) (unat (sview_len w)) = Ok (fp_rest base, s')"
    using stdio.readE [of "svn_stream_from_stdio base" "unat (sview_len w)"] assms by auto
  have lt: "0 < sview_len w" using assms(2) by (simp add: word_less_nat_alt)
  have ne: "of_nat (length (fp_rest base)) \<noteq> sview_len w"
  proof
    assume "of_nat (length (fp_rest base)) = sview_len w"
    then have "unat (of_nat (length (fp_rest base)) :: 64 word) = unat (sview_len w)" by simp
    moreover have "unat (sview_len w) < 2 ^ 64"
      by (rule unat_lt64)
    ultimately show False using assms(2) by (simp add: unat_of_nat64)
  qed
  show ?thesis
    using assms(3) r lt ne
    by (auto simp: apply_window_def svn_txdelta_apply_def slide_sbuf_def fill_sbuf_def Let_def)
qed

end
