(* ===== verification/Svndiff.thy ===== *)
theory Svndiff
  imports Delta_Stream
begin

text \<open>
  The svndiff format of \<open>libsvn_delta/svndiff.c\<close>: the variable-length integers, the encoder
  that is a window handler writing to a stream, and the decoder that is a stream handing windows
  to a consumer.  The main result is that the windows the decoder hands on are the windows the
  encoder was given, however the encoded bytes are cut into writes.
\<close>

section \<open>Integers\<close>

text \<open>The counting loop: one more byte for every shift by seven that leaves a positive value.\<close>

function encode_int_len :: "apr_off_t \<Rightarrow> nat \<Rightarrow> nat" where
  "encode_int_len v n = (if 0 < sint v then encode_int_len (drop_bit 7 v) (Suc n) else n)"
  by pat_completeness auto
termination
proof (relation "measure (\<lambda>(v, n). unat v)")
  fix v :: apr_off_t and n
  assume "0 < sint v"
  then have "v \<noteq> 0" by auto
  then have "0 < unat v" by (simp add: unat_gt_0)
  then show "((drop_bit 7 v, Suc n), v, n) \<in> measure (\<lambda>(v, n). unat v)"
    by (simp add: drop_bit_eq_div unat_div)
qed simp

declare encode_int_len.simps [simp del]

text \<open>The bytes, most significant first; \<open>n\<close> counts the bytes still to come.\<close>

primrec encode_int_bytes :: "apr_off_t \<Rightarrow> nat \<Rightarrow> bytes" where
  "encode_int_bytes val 0 = []"
| "encode_int_bytes val (Suc n) =
     char_of (unat ((drop_bit (n * 7) val AND 0x7f) OR (if 0 < n then 0x80 else 0)))
       # encode_int_bytes val n"

definition encode_int :: "apr_off_t \<Rightarrow> bytes svn_result" where
  "encode_int val =
     (if \<not> 0 \<le> sint val then Abort
      else Ok (encode_int_bytes val (encode_int_len (drop_bit 7 val) 1)))"

definition append_encoded_int :: "bytes \<Rightarrow> apr_off_t \<Rightarrow> bytes svn_result" where
  "append_encoded_int header val = svn_bind (encode_int val) (\<lambda>buf. Ok (header @ buf))"

fun decode_int_loop :: "apr_off_t \<Rightarrow> bytes \<Rightarrow> (apr_off_t \<times> bytes) option" where
  "decode_int_loop val [] = None"
| "decode_int_loop val (c # p) =
     (let val' = push_bit 7 val OR (of_char c AND 0x7f) in
      if of_char c div (2 ^ 7 :: nat) mod 2 = 0 then Some (val', p) else decode_int_loop val' p)"

definition decode_int :: "bytes \<Rightarrow> (apr_off_t \<times> bytes) option" where
  "decode_int p = decode_int_loop 0 p"

section \<open>Encoding windows\<close>

record 'o encoder_baton =
  eb_output :: "'o svn_stream_t"
  header_done :: bool

definition svn_txdelta_to_svndiff :: "'o svn_stream_t \<Rightarrow> 'o encoder_baton" where
  "svn_txdelta_to_svndiff out = \<lparr>eb_output = out, header_done = False\<rparr>"

definition svndiff_magic :: bytes where
  "svndiff_magic = ''SVN'' @ [NUL]"

definition action_selector :: "svn_delta_action \<Rightarrow> nat" where
  "action_selector a =
     (case a of svn_txdelta_source \<Rightarrow> 0 | svn_txdelta_target \<Rightarrow> 0x1 * 2 ^ 6 | svn_txdelta_new \<Rightarrow> 0x2 * 2 ^ 6)"

definition encode_instruction :: "svn_txdelta_op_t \<Rightarrow> bytes svn_result" where
  "encode_instruction op =
     svn_bind
       (if signed_drop_bit 6 (op_length op) = 0
        then Ok [char_of (action_selector (action_code op) OR unat (op_length op))]
        else svn_bind (encode_int (op_length op))
               (\<lambda>b. Ok (char_of (action_selector (action_code op)) # b)))
       (\<lambda>ip. if action_code op \<noteq> svn_txdelta_new
             then svn_bind (encode_int (op_offset op)) (\<lambda>b. Ok (ip @ b))
             else Ok ip)"

fun encode_instructions :: "svn_txdelta_op_t list \<Rightarrow> bytes \<Rightarrow> bytes svn_result" where
  "encode_instructions [] instructions = Ok instructions"
| "encode_instructions (op # rest) instructions =
     svn_bind (encode_instruction op) (\<lambda>ibuf. encode_instructions rest (instructions @ ibuf))"

fun append_encoded_ints :: "bytes \<Rightarrow> apr_off_t list \<Rightarrow> bytes svn_result" where
  "append_encoded_ints header [] = Ok header"
| "append_encoded_ints header (v # vs) =
     svn_bind (append_encoded_int header v) (\<lambda>header'. append_encoded_ints header' vs)"

text \<open>The header and the instructions of a window, before anything is written.\<close>

definition encode_window :: "svn_txdelta_window_t \<Rightarrow> (bytes \<times> bytes) svn_result" where
  "encode_window window =
     svn_bind (encode_instructions (ops window) []) (\<lambda>instructions.
       svn_bind (append_encoded_ints []
           [sview_offset window, sview_len window, tview_len window,
            of_nat (length instructions), of_nat (length (new_data window))])
         (\<lambda>header. Ok (header, instructions)))"

text \<open>Write \<open>data\<close> unless it is empty, as the handler does for instructions and new data.\<close>

definition write_nonempty :: "'o svn_stream_t \<Rightarrow> bytes \<Rightarrow> 'o svn_stream_t svn_result" where
  "write_nonempty out d =
     (if d = [] then Ok out else svn_bind (svn_stream_write out d) (\<lambda>(n, out'). Ok out'))"

definition window_handler :: "'o encoder_baton window_handler" where
  "window_handler window_opt eb =
     svn_bind
       (if \<not> header_done eb
        then svn_bind (svn_stream_write (eb_output eb) svndiff_magic)
               (\<lambda>(n, out'). Ok (eb\<lparr>eb_output := out', header_done := True\<rparr>))
        else Ok eb)
       (\<lambda>eb1.
          case window_opt of
            None \<Rightarrow> svn_bind (svn_stream_close (eb_output eb1)) (\<lambda>out'. Ok (eb1\<lparr>eb_output := out'\<rparr>))
          | Some window \<Rightarrow>
              svn_bind (encode_window window) (\<lambda>(header, instructions).
              svn_bind (svn_stream_write (eb_output eb1) header) (\<lambda>(n, out1).
              svn_bind (write_nonempty out1 instructions) (\<lambda>out2.
              svn_bind (write_nonempty out2 (new_data window)) (\<lambda>out3.
                Ok (eb1\<lparr>eb_output := out3\<rparr>))))))"

section \<open>Decoding windows\<close>

text \<open>
  The consumer function is an argument of the handlers; its baton is a field.  The unset
  \<open>offset\<close> of a decoded insertion is 0 until \<open>write_handler\<close> sets it.
\<close>

record 'b decode_baton =
  consumer_baton :: 'b
  buffer :: bytes
  last_sview_offset :: apr_off_t
  last_sview_len :: apr_size_t
  header_bytes :: nat
  error_on_early_close :: bool

definition svn_txdelta_parse_svndiff :: "'b \<Rightarrow> bool \<Rightarrow> 'b decode_baton" where
  "svn_txdelta_parse_svndiff b early =
     \<lparr>consumer_baton = b, buffer = [], last_sview_offset = 0, last_sview_len = 0,
      header_bytes = 0, error_on_early_close = early\<rparr>"

definition decode_length :: "nat \<Rightarrow> bytes \<Rightarrow> (apr_off_t \<times> bytes) option" where
  "decode_length low p = (if low = 0 then decode_int p else Some (of_nat low, p))"

definition decode_instruction :: "bytes \<Rightarrow> (svn_txdelta_op_t \<times> bytes) option" where
  "decode_instruction p =
     (case p of
        [] \<Rightarrow> None
      | c # p1 \<Rightarrow>
          (let sel = of_char c div (2 ^ 6 :: nat) mod 4; low = of_char c mod (2 ^ 6 :: nat) in
           if sel = 3 then None
           else
             case decode_length low p1 of
               None \<Rightarrow> None
             | Some (len, p2) \<Rightarrow>
                 if sel = 2
                 then Some (\<lparr>action_code = svn_txdelta_new, op_offset = 0, op_length = len\<rparr>, p2)
                 else
                   case decode_int p2 of
                     None \<Rightarrow> None
                   | Some (off, p3) \<Rightarrow>
                       Some (\<lparr>action_code = (if sel = 0 then svn_txdelta_source else svn_txdelta_target),
                              op_offset = off, op_length = len\<rparr>, p3)))"

lemma decode_int_loop_shorter:
  "decode_int_loop v p = Some (v', p') \<Longrightarrow> length p' < length p"
  by (induction v p rule: decode_int_loop.induct) (fastforce simp: Let_def split: if_splits)+

lemma decode_int_shorter: "decode_int p = Some (v, p') \<Longrightarrow> length p' < length p"
  by (auto simp: decode_int_def dest: decode_int_loop_shorter)

lemma decode_instruction_shorter:
  "decode_instruction p = Some (op, p') \<Longrightarrow> length p' < length p"
  by (fastforce simp: decode_instruction_def decode_length_def Let_def dest: decode_int_shorter
      split: list.splits option.splits if_splits)

text \<open>\<open>None\<close> is the result -1.  The arithmetic is unsigned, as \<open>apr_size_t\<close> makes it.\<close>

function verify_loop ::
  "bytes \<Rightarrow> apr_size_t \<Rightarrow> apr_size_t \<Rightarrow> apr_size_t \<Rightarrow> apr_size_t \<Rightarrow> apr_size_t \<Rightarrow> nat \<Rightarrow> nat option"
where
  "verify_loop p s_len t_len new_len tpos npos n =
     (if p = [] then (if tpos \<noteq> t_len \<or> npos \<noteq> new_len then None else Some n)
      else
        case decode_instruction p of
          None \<Rightarrow> None
        | Some (op, p') \<Rightarrow>
            if \<not> 0 \<le> sint (op_length op) \<or> t_len - tpos < op_length op then None
            else
              case action_code op of
                svn_txdelta_source \<Rightarrow>
                  if \<not> 0 \<le> sint (op_offset op) \<or> s_len - op_offset op < op_length op then None
                  else verify_loop p' s_len t_len new_len (tpos + op_length op) npos (Suc n)
              | svn_txdelta_target \<Rightarrow>
                  if \<not> 0 \<le> sint (op_offset op) \<or> tpos \<le> op_offset op then None
                  else verify_loop p' s_len t_len new_len (tpos + op_length op) npos (Suc n)
              | svn_txdelta_new \<Rightarrow>
                  if new_len - npos < op_length op then None
                  else verify_loop p' s_len t_len new_len (tpos + op_length op)
                         (npos + op_length op) (Suc n))"
  by pat_completeness auto
termination
  by (relation "measure (\<lambda>(p, _). length p)") (auto dest: decode_instruction_shorter)

declare verify_loop.simps [simp del]

definition count_and_verify_instructions ::
  "bytes \<Rightarrow> apr_size_t \<Rightarrow> apr_size_t \<Rightarrow> apr_size_t \<Rightarrow> nat option"
where
  "count_and_verify_instructions p s_len t_len new_len = verify_loop p s_len t_len new_len 0 0 0"

text \<open>The second pass: decode \<open>ninst\<close> instructions and give insertions their offsets.\<close>

fun decode_ops :: "nat \<Rightarrow> bytes \<Rightarrow> apr_size_t \<Rightarrow> svn_txdelta_op_t list option" where
  "decode_ops 0 p npos = Some []"
| "decode_ops (Suc ninst) p npos =
     (case decode_instruction p of
        None \<Rightarrow> None
      | Some (op, p') \<Rightarrow>
          if action_code op = svn_txdelta_new
          then map_option ((#) (op\<lparr>op_offset := npos\<rparr>)) (decode_ops ninst p' (npos + op_length op))
          else map_option ((#) op) (decode_ops ninst p' npos))"

text \<open>The calls of \<open>decode_int\<close> one after the other, each returning early when bytes are missing.\<close>

fun decode_ints :: "nat \<Rightarrow> bytes \<Rightarrow> (apr_off_t list \<times> bytes) option" where
  "decode_ints 0 p = Some ([], p)"
| "decode_ints (Suc n) p =
     (case decode_int p of
        None \<Rightarrow> None
      | Some (v, p1) \<Rightarrow>
          (case decode_ints n p1 of None \<Rightarrow> None | Some (vs, p2) \<Rightarrow> Some (v # vs, p2)))"

text \<open>
  One turn of the loop over the buffered data: either more data is needed, or a window and the
  bytes after it.  The tests of unsigned values for being negative are always false and left out.
  Instructions or new data that would lie outside the buffer are a wild read.
\<close>

datatype turn = More | Window svn_txdelta_window_t bytes

definition decode_turn :: "apr_off_t \<Rightarrow> apr_size_t \<Rightarrow> bytes \<Rightarrow> turn svn_result" where
  "decode_turn last_off last_len buf0 =
     (case decode_ints 5 buf0 of
        Some ([s_off, s_len, t_len, inslen, newlen], p) \<Rightarrow>
          if sint s_off < 0 then Err SVN_ERR_SVNDIFF_CORRUPT_WINDOW
          else if sint s_off < sint last_off \<or> s_off + s_len < last_off + last_len
          then Err SVN_ERR_SVNDIFF_BACKWARD_VIEW
          else if of_nat (length p) < inslen + newlen then Ok More
          else if length p < unat inslen + unat newlen then Abort
          else
            (let ins = take (unat inslen) p; p1 = drop (unat inslen) p in
             case count_and_verify_instructions ins s_len t_len newlen of
               None \<Rightarrow> Err SVN_ERR_SVNDIFF_INVALID_OPS
             | Some ninst \<Rightarrow>
                 (case decode_ops ninst ins 0 of
                    None \<Rightarrow> Abort
                  | Some is \<Rightarrow>
                      Ok (Window
                            \<lparr>sview_offset = s_off, sview_len = s_len, tview_len = t_len,
                             ops = is, new_data = take (unat newlen) p1\<rparr>
                            (drop (unat newlen) p1))))
      | _ \<Rightarrow> Ok More)"

lemma decode_ints_shorter:
  "decode_ints n p = Some (vs, p') \<Longrightarrow> length p' + n \<le> length p"
proof (induction n arbitrary: p vs)
  case 0
  then show ?case by simp
next
  case (Suc n)
  from Suc.prems obtain v p1 vs' where "decode_int p = Some (v, p1)" "decode_ints n p1 = Some (vs', p')"
    by (auto split: option.splits)
  with Suc.IH [of p1 vs'] decode_int_shorter [of p v p1] show ?case by simp
qed

lemma decode_turn_shorter:
  "decode_turn lo ll b = Ok (Window w b') \<Longrightarrow> length b' < length b"
  by (auto simp: decode_turn_def Let_def dest!: decode_ints_shorter
      split: option.splits list.splits if_splits)

function decode_loop ::
  "'b window_handler \<Rightarrow> 'b decode_baton \<Rightarrow> 'b decode_baton svn_result"
where
  "decode_loop consumer db =
     (case decode_turn (last_sview_offset db) (last_sview_len db) (buffer db) of
        Err e \<Rightarrow> Err e
      | Abort \<Rightarrow> Abort
      | Ok More \<Rightarrow> Ok db
      | Ok (Window w b') \<Rightarrow>
          (case consumer (Some w) (consumer_baton db) of
             Err e \<Rightarrow> Err e
           | Abort \<Rightarrow> Abort
           | Ok cb \<Rightarrow>
               decode_loop consumer
                 (db\<lparr>consumer_baton := cb, buffer := b',
                     last_sview_offset := sview_offset w, last_sview_len := sview_len w\<rparr>)))"
  by pat_completeness auto
termination
  by (relation "measure (\<lambda>(consumer, db). length (buffer db))") (auto dest: decode_turn_shorter)

declare decode_loop.simps [simp del]

text \<open>The value returned with the baton is what the handler leaves in \<open>*len\<close>.\<close>

definition nheader :: "'b decode_baton \<Rightarrow> bytes \<Rightarrow> nat" where
  "nheader db buf0 = (if header_bytes db < 4 then min (4 - header_bytes db) (length buf0) else 0)"

definition write_handler ::
  "'b window_handler \<Rightarrow> 'b decode_baton \<Rightarrow> bytes \<Rightarrow> (nat \<times> 'b decode_baton) svn_result"
where
  "write_handler consumer db buf0 =
     (if take (nheader db buf0) buf0 \<noteq> take (nheader db buf0) (drop (header_bytes db) svndiff_magic)
      then Err SVN_ERR_SVNDIFF_INVALID_HEADER
      else
        svn_bind
          (decode_loop consumer
             (db\<lparr>header_bytes := header_bytes db + nheader db buf0,
                 buffer := buffer db @ drop (nheader db buf0) buf0\<rparr>))
          (\<lambda>db'. Ok (length buf0 - nheader db buf0, db')))"

definition close_handler :: "'b window_handler \<Rightarrow> 'b decode_baton \<Rightarrow> 'b decode_baton svn_result" where
  "close_handler consumer db =
     (if error_on_early_close db \<and> (header_bytes db < 4 \<or> buffer db \<noteq> [])
      then Err SVN_ERR_SVNDIFF_UNEXPECTED_END
      else svn_bind (consumer None (consumer_baton db)) (\<lambda>cb. Ok (db\<lparr>consumer_baton := cb\<rparr>)))"

section \<open>Integers round trip\<close>

lemma word_7f: "(0x7f :: 64 word) = mask 7"
  by (simp add: mask_eq_exp_minus_1)

lemma and_7f_nat: "unat (x AND 0x7f :: 64 word) = unat x mod 128"
  proof -
  have "x AND 0x7f = x mod 2 ^ 7"
    unfolding word_7f take_bit_eq_mask [symmetric] by (rule take_bit_eq_mod)
  then show ?thesis by (simp add: unat_mod)
qed 

lemma or_80: "(x AND 0x7f :: 64 word) OR 0x80 = (x AND 0x7f) + 0x80"
proof -
  have "(x AND 0x7f) AND 0x80 = 0"
    by (simp add: and.assoc)
  then show ?thesis by (rule disjunctive_add_eq_or [symmetric])
qed

lemma of_char_word: "(of_char c :: 64 word) = of_nat (of_char c)"
  by (simp add: of_nat_of_char)

lemma enc_byte:
  fixes x :: "64 word" and m :: bool
  defines "c \<equiv> char_of (unat ((x AND 0x7f) OR (if m then 0x80 else 0)))"
  shows "of_char c div (2 ^ 7 :: nat) mod 2 = (if m then 1 else 0)"
    and "(of_char c :: 64 word) AND 0x7f = x AND 0x7f"
proof -
  let ?r = "unat x mod 128"
  have B: "unat ((x AND 0x7f) OR (if m then 0x80 else 0)) = ?r + (if m then 128 else 0)"
    by (simp add: or_80 unat_word_ariths and_7f_nat)
  have c: "(of_char c :: nat) = ?r + (if m then 128 else 0)"
    unfolding c_def B by simp
  show "of_char c div (2 ^ 7 :: nat) mod 2 = (if m then 1 else 0)"
    by (simp add: c div_add_self2)
  have "unat ((of_char c :: 64 word) AND 0x7f) = unat (x AND 0x7f)"
    unfolding and_7f_nat of_char_word c
    by (simp add: unat_of_nat64 del: of_nat_add)
  then show "(of_char c :: 64 word) AND 0x7f = x AND 0x7f"
    by (simp add: word_unat_eq_iff)
qed

lemma bits_step:
  fixes v val :: "64 word"
  shows "push_bit m (push_bit 7 v OR (drop_bit m val AND 0x7f)) OR take_bit m val
    = push_bit (m + 7) v OR take_bit (m + 7) val"
  by (rule bit_word_eqI) (auto simp: word_7f bit_simps)

lemma decode_encode_bytes:
  "decode_int_loop v (encode_int_bytes val (Suc n) @ r)
    = Some (push_bit (Suc n * 7) v OR take_bit (Suc n * 7) val, r)"
proof (induction n arbitrary: v)
  case 0
  show ?case
    using enc_byte [of val False] by (simp add: Let_def word_7f take_bit_eq_mask)
next
  case (Suc n)
  show ?case
    using enc_byte [of "drop_bit (Suc n * 7) val" True] Suc bits_step [of "Suc n * 7" v val]
    by (simp add: Let_def add.commute del: push_bit_push_bit)
qed


lemma length_encode_int_bytes [simp]: "length (encode_int_bytes val n) = n"
  by (induction n) simp_all

lemma decode_truncated_bytes:
  "k \<le> n \<Longrightarrow> decode_int_loop v (take k (encode_int_bytes val (Suc n))) = None"
proof (induction n arbitrary: v k)
  case 0
  then show ?case by simp
next
  case (Suc n)
  show ?case
  proof (cases k)
    case 0
    then show ?thesis by simp
  next
    case (Suc k')
    with Suc.prems Suc.IH [of k'] show ?thesis
      using enc_byte [of "drop_bit (Suc n * 7) val" True] by (simp add: Let_def)
  qed
qed

lemma encode_int_len_ge: "n \<le> encode_int_len v n"
proof (induction v n rule: encode_int_len.induct)
  case (1 v n)
  then show ?case by (subst encode_int_len.simps) auto
qed

lemma encode_int_len_enough:
  assumes "0 \<le> sint v"
  shows "drop_bit ((encode_int_len v n - n) * 7) v = 0"
  using assms
proof (induction v n rule: encode_int_len.induct)
  case (1 v n)
  show ?case
  proof (cases "0 < sint v")
    case True
    have "unat (drop_bit 7 v) < 2 ^ 63"
      using "1.prems" by (simp add: sint64_nonneg_iff drop_bit_eq_div unat_div)
    with "1.IH" [OF True] have IH: "drop_bit ((encode_int_len (drop_bit 7 v) (Suc n) - Suc n) * 7 + 7) v = 0"
      by (simp add: sint64_nonneg_iff)
    have "encode_int_len v n = encode_int_len (drop_bit 7 v) (Suc n)"
      using True by (subst encode_int_len.simps) simp
    moreover from this have "(encode_int_len v n - n) * 7
        = (encode_int_len (drop_bit 7 v) (Suc n) - Suc n) * 7 + 7"
      using encode_int_len_ge [of "Suc n" "drop_bit 7 v"] by simp
    ultimately show ?thesis using IH by simp
  next
    case False
    with "1.prems" have "v = 0" by (metis order_antisym_conv not_less sint_0 signed_word_eqI)
    then show ?thesis by simp
  qed
qed

lemma encode_int_len_le: "unat v < 128 ^ m \<Longrightarrow> encode_int_len v n \<le> n + m"
proof (induction m arbitrary: v n)
  case 0
  then have "v = 0" by (simp add: unat_eq_zero)
  then show ?case by (subst encode_int_len.simps) simp
next
  case (Suc m)
  then have "unat (drop_bit 7 v) < 128 ^ m"
    by (simp add: drop_bit_eq_div unat_div less_mult_imp_div_less mult.commute)
  from Suc.IH [OF this, of "Suc n"] show ?case by (subst encode_int_len.simps) simp
qed

text \<open>The encoding of a non-negative value.\<close>

definition int_bytes :: "apr_off_t \<Rightarrow> bytes" where
  "int_bytes val = encode_int_bytes val (encode_int_len (drop_bit 7 val) 1)"

lemma encode_int_Ok: "unat val < 2 ^ 63 \<Longrightarrow> encode_int val = Ok (int_bytes val)"
  by (simp add: encode_int_def int_bytes_def sint64_nonneg_iff)

lemma int_bytes_length: "0 < length (int_bytes val)" "length (int_bytes val) \<le> 10"
proof -
  show "0 < length (int_bytes val)"
    using encode_int_len_ge [of 1 "drop_bit 7 val"] by (simp add: int_bytes_def)
  have "unat val < 2 ^ 64" by (rule unat_lt64)
  then have "unat (drop_bit 7 val) < 128 ^ 9" by (simp add: drop_bit_eq_div unat_div)
  from encode_int_len_le [OF this, of 1] show "length (int_bytes val) \<le> 10"
    by (simp add: int_bytes_def)
qed

lemma int_bytes_Suc:
  obtains n where "int_bytes val = encode_int_bytes val (Suc n)"
    and "unat val < 2 ^ 63 \<Longrightarrow> take_bit (Suc n * 7) val = val"
proof -
  define L where "L = encode_int_len (drop_bit 7 val) 1"
  obtain n where n: "L = Suc n"
    using encode_int_len_ge [of 1 "drop_bit 7 val"] by (cases L) (simp_all add: L_def)
  have fits: "take_bit (L * 7) val = val" if "unat val < 2 ^ 63"
  proof -
    have "unat (drop_bit 7 val) < 2 ^ 63"
      using that by (simp add: drop_bit_eq_div unat_div)
    then have "drop_bit ((L - 1) * 7) (drop_bit 7 val) = 0"
      unfolding L_def by (intro encode_int_len_enough) (simp add: sint64_nonneg_iff)
    then have "drop_bit (L * 7) val = 0" by (simp add: n add.commute)
    then show ?thesis using bits_ident [of "L * 7" val] by simp
  qed
  show ?thesis
  proof (rule that)
    show "int_bytes val = encode_int_bytes val (Suc n)"
      unfolding int_bytes_def L_def [symmetric] n ..
    show "unat val < 2 ^ 63 \<Longrightarrow> take_bit (Suc n * 7) val = val"
      using fits unfolding n .
  qed
qed

lemma decode_int_bytes:
  assumes "unat val < 2 ^ 63"
  shows "decode_int (int_bytes val @ r) = Some (val, r)"
proof -
  obtain n where n: "int_bytes val = encode_int_bytes val (Suc n)" "take_bit (Suc n * 7) val = val"
    using int_bytes_Suc [of val] assms by blast
  show ?thesis
    unfolding decode_int_def n(1) decode_encode_bytes n(2) by simp
qed

lemma decode_int_prefix:
  assumes "x @ y = int_bytes val @ r" and "unat val < 2 ^ 63"
  shows "decode_int x =
    (if length (int_bytes val) \<le> length x then Some (val, drop (length (int_bytes val)) x) else None)"
proof (cases "length (int_bytes val) \<le> length x")
  case True
  with assms(1) have "x = int_bytes val @ drop (length (int_bytes val)) x"
    by (metis append_eq_append_conv_if append_take_drop_id)
  with True decode_int_bytes [OF assms(2)] show ?thesis by metis
next
  case False
  with assms(1) have x: "x = take (length x) (int_bytes val)"
    by (metis append_eq_append_conv_if nle_le)
  obtain n where n: "int_bytes val = encode_int_bytes val (Suc n)"
    using int_bytes_Suc [of val] by blast
  with False have "length x \<le> n" by simp
  then have "decode_int (take (length x) (int_bytes val)) = None"
    unfolding n decode_int_def by (rule decode_truncated_bytes)
  with x False show ?thesis by simp
qed

section \<open>Instructions round trip\<close>

definition op_fits :: "svn_txdelta_op_t \<Rightarrow> bool" where
  "op_fits op \<longleftrightarrow>
     0 < unat (op_length op) \<and> unat (op_length op) < 2 ^ 63 \<and> unat (op_offset op) < 2 ^ 63"

definition op_bytes :: "svn_txdelta_op_t \<Rightarrow> bytes" where
  "op_bytes op =
     (if unat (op_length op) < 64
      then [char_of (action_selector (action_code op) OR unat (op_length op))]
      else char_of (action_selector (action_code op)) # int_bytes (op_length op)) @
     (if action_code op \<noteq> svn_txdelta_new then int_bytes (op_offset op) else [])"

lemma short_length_iff:
  assumes "unat (w :: 64 word) < 2 ^ 63"
  shows "signed_drop_bit 6 w = 0 \<longleftrightarrow> unat w < 64"
proof -
  have "signed_drop_bit 6 w = 0 \<longleftrightarrow> sint (signed_drop_bit 6 w) = 0"
    by (simp add: signed_eq_0_iff)
  also have "\<dots> \<longleftrightarrow> int (unat w) div 64 = 0"
    using sint64_eq [OF assms] by (simp add: sint_signed_drop_bit_eq drop_bit_eq_div)
  also have "\<dots> \<longleftrightarrow> unat w < 64" by linarith
  finally show ?thesis .
qed

lemma encode_instruction_Ok: "op_fits op \<Longrightarrow> encode_instruction op = Ok (op_bytes op)"
  by (simp add: encode_instruction_def op_bytes_def op_fits_def short_length_iff encode_int_Ok)

lemma encode_instructions_Ok:
  "\<forall>op \<in> set is. op_fits op \<Longrightarrow> encode_instructions is acc = Ok (acc @ concat (map op_bytes is))"
  by (induction "is" arbitrary: acc) (simp_all add: encode_instruction_Ok)

lemma or_low6: "n < 64 \<Longrightarrow> k * 64 OR n = k * 64 + (n :: nat)"
proof -
  assume "n < 64"
  then have n: "take_bit 6 n = n" by (simp add: take_bit_eq_mod)
  have "push_bit 6 k AND take_bit 6 n = 0"
    by (rule bit_eqI) (auto simp: bit_simps)
  then have "k * 64 AND n = 0" by (simp add: n push_bit_eq_mult)
  then show ?thesis by (rule disjunctive_add_eq_or [symmetric])
qed

definition action_number :: "svn_delta_action \<Rightarrow> nat" where
  "action_number a = (case a of svn_txdelta_source \<Rightarrow> 0 | svn_txdelta_target \<Rightarrow> 1 | svn_txdelta_new \<Rightarrow> 2)"

lemma selector_byte:
  assumes "n < 64"
  shows "of_char (char_of (action_selector a OR n)) = action_number a * 64 + n"
proof -
  have "action_selector a OR n = action_number a * 64 + n"
    using or_low6 [OF assms, of "action_number a"]
    by (simp add: action_selector_def action_number_def mult.commute split: svn_delta_action.splits)
  moreover have "action_number a * 64 + n < 256"
    using assms by (simp add: action_number_def split: svn_delta_action.split)
  ultimately show ?thesis by simp
qed

lemma decode_instruction_bytes:
  assumes "op_fits op"
  shows "decode_instruction (op_bytes op @ r) =
    Some (if action_code op = svn_txdelta_new then op\<lparr>op_offset := 0\<rparr> else op, r)"
proof -
  let ?a = "action_number (action_code op)" and ?low = "if unat (op_length op) < 64 then unat (op_length op) else 0"
  let ?len = "if unat (op_length op) < 64 then [] else int_bytes (op_length op)"
  let ?off = "if action_code op \<noteq> svn_txdelta_new then int_bytes (op_offset op) else []"
  define c where "c = char_of (action_selector (action_code op) OR ?low)"
  have c: "of_char c = ?a * 64 + ?low"
    unfolding c_def by (rule selector_byte) simp
  have a: "?a < 3" by (simp add: action_number_def split: svn_delta_action.split)
  have eq: "op_bytes op @ r = c # ?len @ ?off @ r"
    by (simp add: op_bytes_def c_def)
  have len: "decode_length ?low (?len @ ?off @ r) = Some (op_length op, ?off @ r)"
    using assms by (simp add: decode_length_def op_fits_def decode_int_bytes)
  have "of_char c div 64 mod 4 = ?a" "of_char c mod 64 = ?low"
    using a by (simp_all add: c)
  then show ?thesis
    using len assms unfolding eq
    by (cases "action_code op")
       (auto simp: decode_instruction_def Let_def action_number_def op_fits_def decode_int_bytes)
qed


lemma op_bytes_nonempty [simp]: "op_bytes op \<noteq> []"
  by (simp add: op_bytes_def)

lemma op_bytes_length: "length (op_bytes op) \<le> 21"
  using int_bytes_length(2) [of "op_length op"] int_bytes_length(2) [of "op_offset op"]
  by (simp add: op_bytes_def)

lemma ops_bytes_length: "length (concat (map op_bytes is)) \<le> 21 * length is"
proof (induction "is")
  case Nil
  then show ?case by simp
next
  case (Cons op "is")
  then show ?case using op_bytes_length [of op] by simp
qed

lemma op_denotes_fits:
  assumes "op_denotes src nd op t = Some b" and "0 < unat (op_length op)"
    and "length src < 2 ^ 63" and "length nd < 2 ^ 63" and "length t < 2 ^ 63" and "length b < 2 ^ 63"
  shows "op_fits op"
  using assms op_denotes_length [OF assms(1)]
  by (auto simp: op_fits_def op_denotes_def Let_def split: svn_delta_action.splits if_splits)

lemma ops_canon_mono: "ops_canon is n = Some m \<Longrightarrow> n \<le> m"
  by (induction "is" arbitrary: n) (fastforce split: if_splits)+

text \<open>The facts a valid operation sequence gives about its first operation and the rest.\<close>

lemma denote_canon_Cons:
  assumes "ops_denote src nd (op # is) t = Some r" and "ops_canon (op # is) np = Some nl"
    and "length src < 2 ^ 62" and "length nd < 2 ^ 62" and "length r < 2 ^ 62"
  obtains b np' where "op_denotes src nd op t = Some b" and "length b = unat (op_length op)"
    and "ops_denote src nd is (t @ b) = Some r" and "length t + length b \<le> length r"
    and "ops_canon is np' = Some nl" and "op_fits op"
    and "np' = (if action_code op = svn_txdelta_new then np + unat (op_length op) else np)"
    and "action_code op = svn_txdelta_new \<longrightarrow> unat (op_offset op) = np" and "np' \<le> nl"
proof -
  from assms(1) obtain b where b: "op_denotes src nd op t = Some b"
    "ops_denote src nd is (t @ b) = Some r" by (auto split: option.splits)
  note len = op_denotes_length [OF b(1)]
  have ext: "length t + length b \<le> length r" using ops_denote_extends [OF b(2)] by simp
  have pos: "0 < unat (op_length op)" using assms(2) by (auto split: if_splits)
  have fits: "op_fits op"
    using assms ext by (intro op_denotes_fits [OF b(1) pos]) simp_all
  define np' where "np' = (if action_code op = svn_txdelta_new then np + unat (op_length op) else np)"
  have c: "ops_canon is np' = Some nl" "action_code op = svn_txdelta_new \<longrightarrow> unat (op_offset op) = np"
    using assms(2) by (auto simp: np'_def split: if_splits)
  from that [OF b(1) len b(2) ext c(1) fits np'_def c(2) ops_canon_mono [OF c(1)]]
  show ?thesis .
qed

lemma ops_all_fit:
  assumes "ops_denote src nd is t = Some r" and "ops_canon is np = Some nl"
    and "length src < 2 ^ 62" and "length nd < 2 ^ 62" and "length r < 2 ^ 62"
  shows "(\<forall>op \<in> set is. op_fits op) \<and> length is \<le> length r - length t"
  using assms(1,2)
proof (induction "is" arbitrary: t np)
  case Nil
  then show ?case by simp
next
  case (Cons op "is")
  from denote_canon_Cons [OF Cons.prems assms(3-5)] obtain b np' where
    step: "length b = unat (op_length op)" "ops_denote src nd is (t @ b) = Some r"
      "length t + length b \<le> length r" "ops_canon is np' = Some nl" "op_fits op" by metis
  with Cons.IH [OF step(2,4)] show ?case by (auto simp: op_fits_def)
qed

lemma verify_loop_Nil [simp]:
  "verify_loop [] s_len t_len new_len tpos npos n =
     (if tpos \<noteq> t_len \<or> npos \<noteq> new_len then None else Some n)"
  by (simp add: verify_loop.simps)

lemma verify_ops:
  assumes "ops_denote src nd is t = Some r" and "ops_canon is np = Some (length nd)"
    and "length src < 2 ^ 62" and "length nd < 2 ^ 62" and "length r < 2 ^ 62"
  shows "verify_loop (concat (map op_bytes is)) (of_nat (length src)) (of_nat (length r))
    (of_nat (length nd)) (of_nat (length t)) (of_nat np) n = Some (n + length is)"
  using assms(1,2)
proof (induction "is" arbitrary: t np n)
  case Nil
  then show ?case by simp
next
  case (Cons op "is")
  from denote_canon_Cons [OF Cons.prems assms(3-5)] obtain b np' where
    step: "op_denotes src nd op t = Some b" "length b = unat (op_length op)"
      "ops_denote src nd is (t @ b) = Some r" "length t + length b \<le> length r"
      "ops_canon is np' = Some (length nd)" "op_fits op"
      "np' = (if action_code op = svn_txdelta_new then np + unat (op_length op) else np)"
      "np' \<le> length nd" by metis
  let ?op = "if action_code op = svn_txdelta_new then op\<lparr>op_offset := 0\<rparr> else op"
  have dec: "decode_instruction (op_bytes op @ concat (map op_bytes is)) = Some (?op, concat (map op_bytes is))"
    by (rule decode_instruction_bytes [OF step(6)])
  have sub: "unat (of_nat x - y :: 64 word) = x - unat y" if "unat y \<le> x" "x < 2 ^ 62" for x y
    using that by (simp add: unat_sub word_le_nat_alt unat_of_nat64)
  have tpos: "of_nat (length t) + op_length op = of_nat (length (t @ b))"
    and npos: "of_nat np + op_length op = of_nat (np + unat (op_length op))"
    by (simp_all add: step(2))
  have len_ok: "0 \<le> sint (op_length op)" "0 \<le> sint (op_offset op)"
    using step(6) by (simp_all add: op_fits_def sint64_nonneg_iff)
  have t_ok: "\<not> of_nat (length r) - of_nat (length t) < op_length op"
    using step(2,4) assms(5) by (simp add: word_less_nat_alt sub unat_of_nat64 not_less)
  have s_ok: "\<not> of_nat (length src) - op_offset op < op_length op"
    if "action_code op = svn_txdelta_source"
    using that step(1) assms(3)
    by (simp add: op_denotes_def Let_def word_less_nat_alt sub not_less split: if_splits)
  have c_ok: "\<not> of_nat (length t) \<le> op_offset op" if "action_code op = svn_txdelta_target"
    using that step(1,4) assms(5)
    by (simp add: op_denotes_def Let_def word_le_nat_alt unat_of_nat64 not_le split: if_splits)
  have n_ok: "\<not> of_nat (length nd) - of_nat np < op_length op" if "action_code op = svn_txdelta_new"
    using that step(7,8) assms(4) by (simp add: word_less_nat_alt sub unat_of_nat64 not_less)
  have "verify_loop (op_bytes op @ concat (map op_bytes is)) (of_nat (length src)) (of_nat (length r))
      (of_nat (length nd)) (of_nat (length t)) (of_nat np) n
    = verify_loop (concat (map op_bytes is)) (of_nat (length src)) (of_nat (length r))
      (of_nat (length nd)) (of_nat (length (t @ b))) (of_nat np') (Suc n)"
    using s_ok c_ok n_ok
    by (subst verify_loop.simps, cases "action_code op")
       (simp_all add: dec t_ok len_ok tpos npos step(7) del: of_nat_add length_append)
  with Cons.IH [OF step(3,5), of "Suc n"] show ?case by simp
qed

lemma decode_ops_bytes:
  assumes "ops_denote src nd is t = Some r" and "ops_canon is np = Some nl"
    and "length src < 2 ^ 62" and "length nd < 2 ^ 62" and "length r < 2 ^ 62"
  shows "decode_ops (length is) (concat (map op_bytes is)) (of_nat np) = Some is"
  using assms(1,2)
proof (induction "is" arbitrary: t np)
  case Nil
  then show ?case by simp
next
  case (Cons op "is")
  from denote_canon_Cons [OF Cons.prems assms(3-5)] obtain b np' where
    step: "ops_denote src nd is (t @ b) = Some r" "ops_canon is np' = Some nl" "op_fits op"
      "np' = (if action_code op = svn_txdelta_new then np + unat (op_length op) else np)"
      "action_code op = svn_txdelta_new \<longrightarrow> unat (op_offset op) = np" by metis
  have "op_offset op = of_nat np" if "action_code op = svn_txdelta_new"
    using that step(5) by (auto simp flip: step(5))
  then have op: "op\<lparr>op_offset := of_nat np\<rparr> = op" if "action_code op = svn_txdelta_new"
    using that by (cases op) simp
  have npos: "of_nat np + op_length op = of_nat (np + unat (op_length op))" by simp
  from Cons.IH [OF step(1,2)] op show ?case
    by (simp add: decode_instruction_bytes [OF step(3)] step(4) npos del: of_nat_add split: if_splits)
qed

section \<open>Windows round trip\<close>

definition window_header :: "svn_txdelta_window_t \<Rightarrow> apr_off_t list" where
  "window_header w =
     [sview_offset w, sview_len w, tview_len w,
      of_nat (length (concat (map op_bytes (ops w)))), of_nat (length (new_data w))]"

definition window_bytes :: "svn_txdelta_window_t \<Rightarrow> bytes" where
  "window_bytes w = concat (map int_bytes (window_header w)) @ concat (map op_bytes (ops w)) @ new_data w"

lemma append_encoded_ints_Ok:
  "\<forall>v \<in> set vs. unat v < 2 ^ 63 \<Longrightarrow>
     append_encoded_ints acc vs = Ok (acc @ concat (map int_bytes vs))"
  by (induction vs arbitrary: acc) (simp_all add: append_encoded_int_def encode_int_Ok)

lemma decode_ints_prefix:
  assumes "x @ y = concat (map int_bytes vs) @ r" and "\<forall>v \<in> set vs. unat v < 2 ^ 63"
  shows "decode_ints (length vs) x =
    (if length (concat (map int_bytes vs)) \<le> length x
     then Some (vs, drop (length (concat (map int_bytes vs))) x) else None)"
  using assms
proof (induction vs arbitrary: x)
  case Nil
  then show ?case by simp
next
  case (Cons v vs)
  let ?n = "length (int_bytes v)"
  have v: "unat v < 2 ^ 63" and vs: "\<forall>v \<in> set vs. unat v < 2 ^ 63" using Cons.prems(2) by simp_all
  have eq: "x @ y = int_bytes v @ concat (map int_bytes vs) @ r" using Cons.prems(1) by simp
  note d = decode_int_prefix [OF eq v]
  show ?case
  proof (cases "?n \<le> length x")
    case True
    then have "drop ?n x @ y = concat (map int_bytes vs) @ r"
      using arg_cong [OF eq, of "drop ?n"] by simp
    from Cons.IH [OF this vs] True d show ?thesis
      by (auto simp: add.commute)
  next
    case False
    then show ?thesis by (simp add: d)
  qed
qed

text \<open>What a window of a sequence satisfies on the wire.\<close>

lemma window_step_wire:
  assumes "window_step S i l w T" and "length S < 2 ^ 62"
  shows "\<forall>v \<in> set (window_header w). unat v < 2 ^ 62" and "\<forall>op \<in> set (ops w). op_fits op"
    and "length (concat (map op_bytes (ops w))) < 2 ^ 62"
proof -
  let ?src = "seg (unat (sview_offset w)) (unat (sview_len w)) S"
  have w: "ops_denote ?src (new_data w) (ops w) [] = Some (take (unat (tview_len w)) T)"
    "ops_canon (ops w) 0 = Some (length (new_data w))"
    "unat (sview_offset w) + unat (sview_len w) \<le> length S"
    "unat (tview_len w) \<le> length T" "unat (tview_len w) < 2 ^ 56" "length (new_data w) < 2 ^ 56"
    using assms(1) by (auto simp: window_step_def Let_def)
  have fit: "(\<forall>op \<in> set (ops w). op_fits op) \<and> length (ops w) \<le> unat (tview_len w)"
    using ops_all_fit [OF w(1,2)] w assms(2) by auto
  then show "\<forall>op \<in> set (ops w). op_fits op" by blast
  show "length (concat (map op_bytes (ops w))) < 2 ^ 62"
    by (rule order_le_less_trans [OF ops_bytes_length]) (use fit w(5) in simp)
  then show "\<forall>v \<in> set (window_header w). unat v < 2 ^ 62"
    using w assms(2) by (simp add: window_header_def unat_of_nat64 del: length_concat)
qed


lemma encode_window_Ok:
  assumes "window_step S i l w T" and "length S < 2 ^ 62"
  shows "encode_window w =
    Ok (concat (map int_bytes (window_header w)), concat (map op_bytes (ops w)))"
proof -
  have "append_encoded_ints [] (window_header w) = Ok (concat (map int_bytes (window_header w)))"
    using window_step_wire(1) [OF assms] by (subst append_encoded_ints_Ok) force+
  then show ?thesis
    using encode_instructions_Ok [OF window_step_wire(2) [OF assms], of "[]"]
    by (simp add: encode_window_def window_header_def del: append_encoded_ints.simps)
qed

text \<open>The checks of a turn on a complete window, once the header is decoded.\<close>

lemma decode_turn_window:
  assumes w: "window_step S (unat lo) (unat ll) w T" and S: "length S < 2 ^ 62"
    and hdr: "decode_ints 5 x = Some (window_header w, concat (map op_bytes (ops w)) @ new_data w @ r)"
    and len: "length (concat (map op_bytes (ops w)) @ new_data w @ r) < 2 ^ 63"
  shows "decode_turn lo ll x = Ok (Window w r)"
proof -
  let ?src = "seg (unat (sview_offset w)) (unat (sview_len w)) S"
  let ?I = "concat (map op_bytes (ops w))" and ?t = "take (unat (tview_len w)) T"
  have f: "ops_denote ?src (new_data w) (ops w) [] = Some ?t"
    "ops_canon (ops w) 0 = Some (length (new_data w))"
    "unat lo \<le> unat (sview_offset w)" "unat lo + unat ll \<le> unat (sview_offset w) + unat (sview_len w)"
    "unat (sview_offset w) + unat (sview_len w) \<le> length S"
    "unat (tview_len w) \<le> length T" "unat (tview_len w) < 2 ^ 56" "length (new_data w) < 2 ^ 56"
    using w by (auto simp: window_step_def Let_def)
  note I = window_step_wire(3) [OF w S]
  have sl: "of_nat (length ?src) = sview_len w" and tl: "of_nat (length ?t) = tview_len w"
    using f(5,6) by simp_all
  have bounds: "length ?src < 2 ^ 62" "length (new_data w) < 2 ^ 62" "length ?t < 2 ^ 62"
    using f(5-8) S by simp_all
  have cv: "count_and_verify_instructions ?I (sview_len w) (tview_len w) (of_nat (length (new_data w)))
      = Some (length (ops w))"
    using verify_ops [OF f(1,2) bounds, of 0] unfolding count_and_verify_instructions_def sl tl by simp
  have dops: "decode_ops (length (ops w)) ?I 0 = Some (ops w)"
    using decode_ops_bytes [OF f(1,2) bounds] by simp
  have s_off: "\<not> sint (sview_offset w) < 0" "\<not> sint (sview_offset w) < sint lo"
    using f(3,5) S sint64_nonneg_iff [of "sview_offset w"] sint64_mono [OF f(3)] by auto
  have fwd: "\<not> sview_offset w + sview_len w < lo + ll"
    using f(3-5) S by (simp add: word_less_nat_alt unat_word_ariths)
  have uI: "unat (of_nat (length ?I) :: 64 word) = length ?I"
    and uN: "unat (of_nat (length (new_data w)) :: 64 word) = length (new_data w)"
    using I bounds(2) by (simp_all add: unat_of_nat64 del: length_concat)
  have wait: "\<not> of_nat (length (?I @ new_data w @ r)) < (of_nat (length ?I) + of_nat (length (new_data w)) :: 64 word)"
    using len by (simp add: word_less_nat_alt unat_of_nat64 del: length_concat flip: of_nat_add)
  have wild: "\<not> length (?I @ new_data w @ r) < length ?I + length (new_data w)" by simp
  show ?thesis
    using s_off fwd wait wild uI uN cv dops
    by (simp add: decode_turn_def hdr window_header_def Let_def del: length_concat length_append)
qed


lemma decode_turn_prefix:
  assumes w: "window_step S (unat lo) (unat ll) w T" and S: "length S < 2 ^ 62"
    and x: "x @ y = window_bytes w @ r" "length x < 2 ^ 63"
  shows "decode_turn lo ll x =
    (if length (window_bytes w) \<le> length x then Ok (Window w (drop (length (window_bytes w)) x)) else Ok More)"
proof -
  let ?H = "concat (map int_bytes (window_header w))" and ?I = "concat (map op_bytes (ops w))"
  have hdr: "\<forall>v \<in> set (window_header w). unat v < 2 ^ 63"
    using window_step_wire(1) [OF w S] by fastforce
  have n: "length (window_header w) = 5" by (simp add: window_header_def)
  have "x @ y = ?H @ ?I @ new_data w @ r" using x by (simp add: window_bytes_def)
  from decode_ints_prefix [OF this hdr] have di: "decode_ints 5 x =
      (if length ?H \<le> length x then Some (window_header w, drop (length ?H) x) else None)"
    unfolding n .
  show ?thesis
  proof (cases "length (window_bytes w) \<le> length x")
    case True
    define r' where "r' = drop (length (window_bytes w)) x"
    from True x(1) have xr: "x = window_bytes w @ r'"
      by (metis append_eq_append_conv_if append_take_drop_id r'_def)
    then have "decode_ints 5 x = Some (window_header w, ?I @ new_data w @ r')"
      using di by (simp add: window_bytes_def del: length_concat)
    from decode_turn_window [OF w S this] x(2) True xr show ?thesis
      by (simp add: window_bytes_def flip: r'_def)
  next
    case False
    have "decode_turn lo ll x = Ok More" if H: "length ?H \<le> length x"
    proof -
      let ?p = "drop (length ?H) x"
      have short: "length ?p < length ?I + length (new_data w)"
        using False H by (simp add: window_bytes_def del: length_concat)
      have b: "unat lo \<le> unat (sview_offset w)" "length (new_data w) < 2 ^ 56"
        "unat lo + unat ll \<le> unat (sview_offset w) + unat (sview_len w)"
        "unat (sview_offset w) + unat (sview_len w) \<le> length S"
        using w by (auto simp: window_step_def Let_def)
      have "\<not> sint (sview_offset w) < 0" "\<not> sint (sview_offset w) < sint lo"
        using b(1,4) S sint64_nonneg_iff [of "sview_offset w"] sint64_mono [OF b(1)] by auto
      moreover have "\<not> sview_offset w + sview_len w < lo + ll"
        using b S by (simp add: word_less_nat_alt unat_word_ariths)
      moreover have "of_nat (length ?p) < (of_nat (length ?I) + of_nat (length (new_data w)) :: 64 word)"
        using short window_step_wire(3) [OF w S] b(2) x(2)
        by (simp add: word_less_nat_alt unat_of_nat64 del: length_concat flip: of_nat_add)
      ultimately show ?thesis
        using di H by (simp add: decode_turn_def window_header_def del: length_concat)
    qed
    moreover have "decode_turn lo ll x = Ok More" if "\<not> length ?H \<le> length x"
      using di that by (simp add: decode_turn_def)
    ultimately show ?thesis using False by auto
  qed
qed

section \<open>Streams round trip\<close>

definition svndiff_stream :: "svn_txdelta_window_t list \<Rightarrow> bytes" where
  "svndiff_stream ws = svndiff_magic @ concat (map window_bytes ws)"

context svn_writable
begin

lemma write_nonempty_ok:
  assumes "wr_ok s"
  shows "\<exists>s'. write_nonempty s d = Ok s' \<and> wr_ok s' \<and> written s' = written s @ d"
proof (cases "d = []")
  case True
  with assms show ?thesis by (simp add: write_nonempty_def)
next
  case False
  obtain s' where "svn_stream_write s d = Ok (length d, s')" "wr_ok s'" "written s' = written s @ d"
    using writeE [OF assms] by blast
  with False show ?thesis by (simp add: write_nonempty_def)
qed

lemma window_handler_header:
  assumes "wr_ok (eb_output eb)"
  shows "\<exists>eb1. window_handler w eb = window_handler w eb1 \<and> header_done eb1 \<and> wr_ok (eb_output eb1) \<and>
    written (eb_output eb1) = written (eb_output eb) @ (if header_done eb then [] else svndiff_magic)"
proof (cases "header_done eb")
  case True
  with assms show ?thesis by (intro exI [of _ eb]) simp
next
  case False
  obtain s' where s': "svn_stream_write (eb_output eb) svndiff_magic = Ok (length svndiff_magic, s')"
    "wr_ok s'" "written s' = written (eb_output eb) @ svndiff_magic"
    using writeE [OF assms] by blast
  with False show ?thesis
    by (intro exI [of _ "eb\<lparr>eb_output := s', header_done := True\<rparr>"]) (simp add: window_handler_def)
qed

lemma window_handler_window:
  assumes "wr_ok (eb_output eb)" and "header_done eb"
    and "window_step S i l w T" and "length S < 2 ^ 62"
  shows "\<exists>eb'. window_handler (Some w) eb = Ok eb' \<and> header_done eb' \<and> wr_ok (eb_output eb') \<and>
    written (eb_output eb') = written (eb_output eb) @ window_bytes w"
proof -
  let ?H = "concat (map int_bytes (window_header w))" and ?I = "concat (map op_bytes (ops w))"
  obtain s1 where s1: "svn_stream_write (eb_output eb) ?H = Ok (length ?H, s1)" "wr_ok s1"
    "written s1 = written (eb_output eb) @ ?H" using writeE [OF assms(1)] by blast
  obtain s2 where s2: "write_nonempty s1 ?I = Ok s2" "wr_ok s2" "written s2 = written s1 @ ?I"
    using write_nonempty_ok [OF s1(2)] by blast
  obtain s3 where s3: "write_nonempty s2 (new_data w) = Ok s3" "wr_ok s3"
    "written s3 = written s2 @ new_data w"
    using write_nonempty_ok [OF s2(2)] by blast
  show ?thesis
    using assms(2) s1 s2 s3 encode_window_Ok [OF assms(3,4)]
    by (intro exI [of _ "eb\<lparr>eb_output := s3\<rparr>"])
       (simp add: window_handler_def window_bytes_def del: length_concat)
qed

lemma feed_window_handler:
  assumes "wr_ok (eb_output eb)" and "window_seq S i l ws T" and "length S < 2 ^ 62"
  shows "\<exists>eb'. feed_windows window_handler ws eb = Ok eb' \<and>
    written (eb_output eb') = written (eb_output eb) @
      (if header_done eb then [] else svndiff_magic) @ concat (map window_bytes ws)"
  using assms(1,2)
proof (induction ws arbitrary: i l eb T)
  case Nil
  obtain eb1 where eb1: "window_handler None eb = window_handler None eb1" "header_done eb1"
    "wr_ok (eb_output eb1)"
    "written (eb_output eb1) = written (eb_output eb) @ (if header_done eb then [] else svndiff_magic)"
    using window_handler_header [OF Nil.prems(1)] by blast
  obtain s' where "svn_stream_close (eb_output eb1) = Ok s'" "written s' = written (eb_output eb1)"
    using close_ok [OF eb1(3)] by blast
  with eb1 show ?case by (simp add: window_handler_def)
next
  case (Cons w ws)
  obtain eb1 where eb1: "window_handler (Some w) eb = window_handler (Some w) eb1" "header_done eb1"
    "wr_ok (eb_output eb1)"
    "written (eb_output eb1) = written (eb_output eb) @ (if header_done eb then [] else svndiff_magic)"
    using window_handler_header [OF Cons.prems(1)] by blast
  have "window_step S i l w T" using Cons.prems(2) by simp
  from window_handler_window [OF eb1(3,2) this assms(3)] obtain eb2 where
    eb2: "window_handler (Some w) eb1 = Ok eb2" "header_done eb2" "wr_ok (eb_output eb2)"
      "written (eb_output eb2) = written (eb_output eb1) @ window_bytes w" by blast
  from Cons.IH [OF eb2(3)] Cons.prems(2) obtain eb' where
    "feed_windows window_handler ws eb2 = Ok eb'"
    "written (eb_output eb') = written (eb_output eb2) @ concat (map window_bytes ws)"
    using eb2(2) by fastforce
  with eb1 eb2 show ?case by simp
qed

end

fun feed_some :: "'b window_handler \<Rightarrow> svn_txdelta_window_t list \<Rightarrow> 'b \<Rightarrow> 'b svn_result" where
  "feed_some h [] b = Ok b"
| "feed_some h (w # ws) b = svn_bind (h (Some w) b) (feed_some h ws)"

lemma feed_windows_append:
  "feed_windows h (ws1 @ ws2) b = svn_bind (feed_some h ws1 b) (feed_windows h ws2)"
  by (induction ws1 arbitrary: b) (simp_all add: svn_bind_assoc, metis)

lemma window_bytes_nonempty [simp]: "window_bytes w \<noteq> []"
  using int_bytes_length(1) [of "sview_offset w"] by (auto simp: window_bytes_def window_header_def)

lemma decode_turn_Nil [simp]: "decode_turn lo ll [] = Ok More"
proof -
  have "decode_ints 5 [] = None" by (simp add: numeral_eq_Suc decode_int_def)
  then show ?thesis by (simp add: decode_turn_def)
qed

text \<open>
  The decoder on a prefix \<open>buffer db\<close> of the encoding of \<open>ws\<close>: it hands on the windows that
  are complete and keeps the beginning of the next one.
\<close>

lemma decode_loop_prefix:
  assumes "window_seq S (unat (last_sview_offset db)) (unat (last_sview_len db)) ws T"
    and "length S < 2 ^ 62" and "buffer db @ y = concat (map window_bytes ws)"
    and "length (buffer db) < 2 ^ 63"
  shows "\<exists>ws1 ws2 x lo ll T'. ws = ws1 @ ws2 \<and> x @ y = concat (map window_bytes ws2) \<and>
    window_seq S (unat lo) (unat ll) ws2 T' \<and>
    (ws2 \<noteq> [] \<longrightarrow> length x < length (window_bytes (hd ws2))) \<and>
    decode_loop consumer db = svn_bind (feed_some consumer ws1 (consumer_baton db))
      (\<lambda>b. Ok (db\<lparr>consumer_baton := b, buffer := x, last_sview_offset := lo, last_sview_len := ll\<rparr>))"
  using assms(1,3,4)
proof (induction ws arbitrary: db T)
  case Nil
  then have "decode_loop consumer db = Ok db"
    by (subst decode_loop.simps) simp
  with Nil show ?case
    by (intro exI [of _ "[]"] exI [of _ "last_sview_offset db"] exI [of _ "last_sview_len db"]) auto
next
  case (Cons w ws)
  have step: "window_step S (unat (last_sview_offset db)) (unat (last_sview_len db)) w T"
    and seq: "window_seq S (unat (sview_offset w)) (unat (sview_len w)) ws (drop (unat (tview_len w)) T)"
    using Cons.prems(1) by simp_all
  have eq: "buffer db @ y = window_bytes w @ concat (map window_bytes ws)"
    using Cons.prems(2) by simp
  note turn = decode_turn_prefix [OF step assms(2) eq Cons.prems(3)]
  show ?case
  proof (cases "length (window_bytes w) \<le> length (buffer db)")
    case False
    with turn have "decode_loop consumer db = Ok db"
      by (subst decode_loop.simps) simp
    with False Cons.prems show ?thesis
      by (intro exI [of _ "[]"] exI [of _ "w # ws"] exI [of _ "buffer db"]
          exI [of _ "last_sview_offset db"] exI [of _ "last_sview_len db"] exI [of _ T]) simp
  next
    case True
    define b' where "b' = drop (length (window_bytes w)) (buffer db)"
    define db1 where "db1 = (\<lambda>cb. db\<lparr>consumer_baton := cb, buffer := b',
      last_sview_offset := sview_offset w, last_sview_len := sview_len w\<rparr>)"
    have loop: "decode_loop consumer db =
        svn_bind (consumer (Some w) (consumer_baton db)) (\<lambda>cb. decode_loop consumer (db1 cb))"
      using turn True by (subst decode_loop.simps)
        (simp add: b'_def db1_def split: svn_result.split)
    have b': "b' @ y = concat (map window_bytes ws)" "length b' < 2 ^ 63"
      using arg_cong [OF eq, of "drop (length (window_bytes w))"] True Cons.prems(3)
      by (simp_all add: b'_def)
    let ?r = "consumer (Some w) (consumer_baton db)"
    define cb where "cb = (case ?r of Ok c \<Rightarrow> c | _ \<Rightarrow> consumer_baton db)"
    have p: "window_seq S (unat (last_sview_offset (db1 cb))) (unat (last_sview_len (db1 cb))) ws
        (drop (unat (tview_len w)) T)" "buffer (db1 cb) @ y = concat (map window_bytes ws)"
      "length (buffer (db1 cb)) < 2 ^ 63"
      using seq b' by (simp_all add: db1_def)
    from Cons.IH [OF p] obtain ws1 ws2 x lo ll T' where
      IH: "ws = ws1 @ ws2" "x @ y = concat (map window_bytes ws2)"
        "window_seq S (unat lo) (unat ll) ws2 T'"
        "ws2 \<noteq> [] \<longrightarrow> length x < length (window_bytes (hd ws2))"
        "decode_loop consumer (db1 cb) = svn_bind (feed_some consumer ws1 (consumer_baton (db1 cb)))
          (\<lambda>b. Ok (db1 cb\<lparr>consumer_baton := b, buffer := x, last_sview_offset := lo, last_sview_len := ll\<rparr>))"
      by blast
    have "decode_loop consumer db = svn_bind (feed_some consumer (w # ws1) (consumer_baton db))
        (\<lambda>b. Ok (db\<lparr>consumer_baton := b, buffer := x, last_sview_offset := lo, last_sview_len := ll\<rparr>))"
      using loop IH(5) by (cases ?r) (simp_all add: cb_def db1_def)
    with IH show ?thesis
      by (intro exI [of _ "w # ws1"] exI [of _ ws2] exI [of _ x] exI [of _ lo] exI [of _ ll]
          exI [of _ T']) simp
  qed
qed

text \<open>Writing the pieces \<open>cs\<close> to the decoding stream and closing it.\<close>

fun svndiff_writes ::
  "'b window_handler \<Rightarrow> 'b decode_baton \<Rightarrow> bytes list \<Rightarrow> 'b decode_baton svn_result"
where
  "svndiff_writes consumer db [] = Ok db"
| "svndiff_writes consumer db (c # cs) =
     svn_bind (write_handler consumer db c) (\<lambda>(n, db'). svndiff_writes consumer db' cs)"

definition svndiff_parse :: "'b window_handler \<Rightarrow> 'b decode_baton \<Rightarrow> bytes list \<Rightarrow> 'b svn_result" where
  "svndiff_parse consumer db cs =
     svn_bind (svndiff_writes consumer db cs) (\<lambda>db1.
       svn_bind (close_handler consumer db1) (\<lambda>db2. Ok (consumer_baton db2)))"

lemma length_svndiff_magic [simp]: "length svndiff_magic = 4"
  by (simp add: svndiff_magic_def)

text \<open>
  The decoder between two writes: \<open>z\<close> is what follows the header in the bytes still to come,
  and the buffer holds the beginning of the windows \<open>ws\<close>, less than the first of them.
\<close>

definition dec_inv :: "bytes \<Rightarrow> 'b decode_baton \<Rightarrow> svn_txdelta_window_t list \<Rightarrow> bytes \<Rightarrow> bytes \<Rightarrow> bool" where
  "dec_inv S db ws z todo \<longleftrightarrow>
     header_bytes db \<le> 4 \<and> (header_bytes db < 4 \<longrightarrow> buffer db = []) \<and>
     todo = drop (header_bytes db) svndiff_magic @ z \<and>
     buffer db @ z = concat (map window_bytes ws) \<and>
     (ws \<noteq> [] \<longrightarrow> length (buffer db) < length (window_bytes (hd ws))) \<and>
     (\<exists>T. window_seq S (unat (last_sview_offset db)) (unat (last_sview_len db)) ws T)"

lemma write_handler_step:
  assumes inv: "dec_inv S db ws z (c @ todo)" and S: "length S < 2 ^ 62"
    and len: "length (concat (map window_bytes ws)) < 2 ^ 63"
  shows "\<exists>ws1 ws2 z' g. ws = ws1 @ ws2 \<and>
    write_handler consumer db c = svn_bind (feed_some consumer ws1 (consumer_baton db)) (\<lambda>b. Ok (g b)) \<and>
    (\<forall>b. consumer_baton (snd (g b)) = b \<and> dec_inv S (snd (g b)) ws2 z' todo)"
proof -
  define h where "h = header_bytes db"
  define n where "n = nheader db c"
  define z' where "z' = (if h + n < 4 then z else todo)"
  have h: "h \<le> 4" "h < 4 \<longrightarrow> buffer db = []" and eq: "c @ todo = drop h svndiff_magic @ z"
    and bz: "buffer db @ z = concat (map window_bytes ws)"
    using inv by (auto simp: dec_inv_def h_def)
  have n: "n \<le> length c" "n \<le> 4 - h" "h + n < 4 \<Longrightarrow> n = length c" "h + n \<le> 4"
    using h(1) by (auto simp: n_def nheader_def h_def min_def split: if_splits)
  have pre: "take n c = take n (drop h svndiff_magic)"
    using arg_cong [OF eq, of "take n"] n(1,2) by simp
  have rest: "drop n c @ todo = drop (h + n) svndiff_magic @ z"
    using arg_cong [OF eq, of "drop n"] n(1,2) by (simp add: add.commute)
  have todo: "todo = drop (h + n) svndiff_magic @ z'" and bz': "(buffer db @ drop n c) @ z' = concat (map window_bytes ws)"
    using rest n(3,4) h(2) bz by (auto simp: z'_def not_less)
  define db1 where "db1 = db\<lparr>header_bytes := h + n, buffer := buffer db @ drop n c\<rparr>"
  have bz1: "buffer db1 @ z' = concat (map window_bytes ws)" using bz' by (simp add: db1_def)
  obtain T where "window_seq S (unat (last_sview_offset db1)) (unat (last_sview_len db1)) ws T"
    using inv by (auto simp: dec_inv_def db1_def)
  moreover have "length (buffer db1) < 2 ^ 63"
    using len arg_cong [OF bz', of length] by (simp add: db1_def)
  ultimately obtain ws1 ws2 x lo ll T' where
    d: "ws = ws1 @ ws2" "x @ z' = concat (map window_bytes ws2)"
      "window_seq S (unat lo) (unat ll) ws2 T'"
      "ws2 \<noteq> [] \<longrightarrow> length x < length (window_bytes (hd ws2))"
      "decode_loop consumer db1 = svn_bind (feed_some consumer ws1 (consumer_baton db1))
        (\<lambda>b. Ok (db1\<lparr>consumer_baton := b, buffer := x, last_sview_offset := lo, last_sview_len := ll\<rparr>))"
    using decode_loop_prefix [OF _ S bz1, of T consumer] by blast
  have "length (concat (map window_bytes ws)) = length (buffer db1) + length z'"
    using arg_cong [OF bz', of length] by (simp add: db1_def)
  moreover have "length (concat (map window_bytes ws))
      = length (concat (map window_bytes ws1)) + length x + length z'"
    using d(1) arg_cong [OF d(2), of length] by simp
  ultimately have "length x \<le> length (buffer db1)" by linarith
  then have x: "h + n < 4 \<longrightarrow> x = []"
    using h(2) n(3) by (auto simp: db1_def)
  define g where "g = (\<lambda>b. (length c - n, db1\<lparr>consumer_baton := b, buffer := x,
    last_sview_offset := lo, last_sview_len := ll\<rparr>))"
  have "write_handler consumer db c = svn_bind (decode_loop consumer db1) (\<lambda>db'. Ok (length c - n, db'))"
    using pre by (simp add: write_handler_def db1_def n_def h_def)
  then have "write_handler consumer db c = svn_bind (feed_some consumer ws1 (consumer_baton db)) (\<lambda>b. Ok (g b))"
    unfolding d(5) by (simp add: svn_bind_assoc g_def db1_def)
  moreover have "\<forall>b. consumer_baton (snd (g b)) = b \<and> dec_inv S (snd (g b)) ws2 z' todo"
    using d x n(4) todo by (auto simp: g_def dec_inv_def db1_def)
  ultimately show ?thesis using d(1) by blast
qed

lemma svndiff_parse_windows:
  assumes "dec_inv S db ws z (concat cs)" and "length S < 2 ^ 62"
    and "length (concat (map window_bytes ws)) < 2 ^ 63"
  shows "svndiff_parse consumer db cs = feed_windows consumer ws (consumer_baton db)"
  using assms(1,3)
proof (induction cs arbitrary: db ws z)
  case Nil
  then have "header_bytes db = 4" "z = []" by (auto simp: dec_inv_def)
  moreover from this Nil have "ws = []" "buffer db = []"
    by (cases ws; auto simp: dec_inv_def)+
  ultimately show ?case by (cases "consumer None (consumer_baton db)")
    (simp_all add: svndiff_parse_def close_handler_def)
next
  case (Cons c cs)
  have inv: "dec_inv S db ws z (c @ concat cs)" using Cons.prems(1) by simp
  from write_handler_step [OF inv assms(2) Cons.prems(2), of consumer] obtain ws1 ws2 z' g where
    step: "ws = ws1 @ ws2"
      "write_handler consumer db c = svn_bind (feed_some consumer ws1 (consumer_baton db)) (\<lambda>b. Ok (g b))"
      "\<And>b. consumer_baton (snd (g b)) = b" "\<And>b. dec_inv S (snd (g b)) ws2 z' (concat cs)" by blast
  have len: "length (concat (map window_bytes ws2)) < 2 ^ 63"
    using Cons.prems(2) step(1) by simp
  have "svndiff_parse consumer db (c # cs)
      = svn_bind (feed_some consumer ws1 (consumer_baton db)) (\<lambda>b. svndiff_parse consumer (snd (g b)) cs)"
    by (simp add: svndiff_parse_def step(2) svn_bind_assoc case_prod_beta)
  also have "\<dots> = svn_bind (feed_some consumer ws1 (consumer_baton db)) (feed_windows consumer ws2)"
    using Cons.IH [OF step(4) len] step(3) by simp
  finally show ?case by (simp add: step(1) feed_windows_append)
qed

text \<open>The parser as it is created, given the pieces of an encoded sequence of windows.\<close>

lemma svndiff_parse_stream:
  assumes "window_seq S 0 0 ws T" and "length S < 2 ^ 62" and "concat cs = svndiff_stream ws"
    and "length (svndiff_stream ws) < 2 ^ 63"
  shows "svndiff_parse consumer (svn_txdelta_parse_svndiff b early) cs = feed_windows consumer ws b"
proof -
  let ?db = "svn_txdelta_parse_svndiff b early"
  have "dec_inv S ?db ws (concat (map window_bytes ws)) (concat cs)"
    using assms(1,3) by (auto simp: dec_inv_def svn_txdelta_parse_svndiff_def svndiff_stream_def)
  from svndiff_parse_windows [OF this assms(2), of consumer] assms(4) show ?thesis
    by (simp add: svndiff_stream_def svn_txdelta_parse_svndiff_def)
qed

section \<open>The size of an encoding\<close>

lemma canon_ops_sizes:
  "ops_canon is n = Some m \<Longrightarrow> ops_denote src nd is t = Some r \<Longrightarrow>
     length is + length t \<le> length r \<and> m + length t \<le> n + length r"
proof (induction "is" arbitrary: n t)
  case (Cons op rest)
  from Cons.prems(2) obtain b where b: "op_denotes src nd op t = Some b"
    "ops_denote src nd rest (t @ b) = Some r" by (auto split: option.splits)
  have len: "length b = unat (op_length op)" using op_denotes_length [OF b(1)] .
  from Cons.prems(1) len have pos: "0 < length b" by (auto split: if_splits)
  show ?case
    using Cons.IH [OF _ b(2)] Cons.prems(1) len pos by (fastforce split: if_splits)
qed simp

lemma window_bytes_length:
  assumes "window_step S i l w T"
  shows "length (window_bytes w) \<le> 72 * unat (tview_len w)"
proof -
  have w: "0 < unat (tview_len w)" "ops_canon (ops w) 0 = Some (length (new_data w))"
    "ops_denote (seg (unat (sview_offset w)) (unat (sview_len w)) S) (new_data w) (ops w) []
      = Some (take (unat (tview_len w)) T)"
    using assms by (auto simp: window_step_def Let_def)
  have "length (concat (map int_bytes (window_header w))) \<le> 50"
    using int_bytes_length(2) [of "sview_offset w"] int_bytes_length(2) [of "sview_len w"]
      int_bytes_length(2) [of "tview_len w"]
      int_bytes_length(2) [of "of_nat (length (concat (map op_bytes (ops w))))"]
      int_bytes_length(2) [of "of_nat (length (new_data w))"]
    by (simp add: window_header_def del: length_concat)
  moreover have "length (ops w) \<le> unat (tview_len w)" "length (new_data w) \<le> unat (tview_len w)"
    using canon_ops_sizes [OF w(2,3)] by simp_all
  ultimately show ?thesis
    using ops_bytes_length [of "ops w"] w(1) by (simp add: window_bytes_def del: length_concat)
qed

lemma svndiff_stream_length:
  "window_seq S i l ws T \<Longrightarrow> length (svndiff_stream ws) \<le> 4 + 72 * length T"
proof (induction ws arbitrary: i l T)
  case Nil
  then show ?case by (simp add: svndiff_stream_def)
next
  case (Cons w ws)
  have "length (window_bytes w) \<le> 72 * unat (tview_len w)" "unat (tview_len w) \<le> length T"
    using Cons.prems window_bytes_length by (auto simp: window_step_def Let_def)
  with Cons.IH [of "unat (sview_offset w)" "unat (sview_len w)" "drop (unat (tview_len w)) T"] Cons.prems
  show ?case by (simp add: svndiff_stream_def del: length_concat)
qed

lemma to_svndiff_fields [simp]:
  "eb_output (svn_txdelta_to_svndiff s) = s" "\<not> header_done (svn_txdelta_to_svndiff s)"
  by (simp_all add: svn_txdelta_to_svndiff_def)

lemma txdelta_apply_target [simp]: "ab_target (svn_txdelta_apply s t) = t"
  by (simp add: svn_txdelta_apply_def)

section \<open>The decoder does not depend on how its input is cut\<close>

lemma decode_int_loop_append:
  "decode_int_loop v p = Some (w, p') \<Longrightarrow> decode_int_loop v (p @ x) = Some (w, p' @ x)"
  by (induction v p rule: decode_int_loop.induct) (auto simp: Let_def split: if_splits)

lemma decode_int_append: "decode_int p = Some (w, p') \<Longrightarrow> decode_int (p @ x) = Some (w, p' @ x)"
  by (simp add: decode_int_def decode_int_loop_append)

lemma decode_ints_append:
  "decode_ints n p = Some (vs, p') \<Longrightarrow> decode_ints n (p @ x) = Some (vs, p' @ x)"
proof (induction n arbitrary: p vs)
  case (Suc n)
  then obtain v p1 vs' where "decode_int p = Some (v, p1)" "decode_ints n p1 = Some (vs', p')" "vs = v # vs'"
    by (auto split: option.splits)
  with Suc.IH [of p1 vs'] decode_int_append [of p v p1 x] show ?case by simp
qed simp

fun turn_append :: "turn svn_result \<Rightarrow> bytes \<Rightarrow> turn svn_result" where
  "turn_append (Ok (Window w b)) x = Ok (Window w (b @ x))"
| "turn_append r x = r"

lemma decode_turn_append:
  assumes "decode_turn lo ll p \<noteq> Ok More" and "length (p @ x) < 2 ^ 64"
  shows "decode_turn lo ll (p @ x) = turn_append (decode_turn lo ll p) x"
proof -
  from assms(1) obtain vs q where d: "decode_ints 5 p = Some (vs, q)"
    by (auto simp: decode_turn_def split: option.splits)
  show ?thesis
  proof (cases "\<exists>a b c i n. vs = [a, b, c, i, n]")
    case False
    with d assms(1) show ?thesis by (auto simp: decode_turn_def split: list.splits)
  next
    case True
    then obtain a b c i n where vs: "vs = [a, b, c, i, n]" by blast
    have len: "length q + length x < 2 ^ 64"
      using decode_ints_shorter [OF d] assms(2) by simp
    have le: "of_nat (length (q @ x)) < i + n \<longleftrightarrow> length q + length x < unat (i + n)"
      "of_nat (length q) < i + n \<longleftrightarrow> length q < unat (i + n)"
      using len by (simp_all add: word_less_nat_alt unat_of_nat64 del: of_nat_add)
    have more: "length (q @ x) < unat i + unat n"
      if "\<not> length q < unat (i + n)" "length q < unat i + unat n"
    proof (rule ccontr)
      assume "\<not> ?thesis"
      then have "unat (i + n) = unat i + unat n" using len by (simp add: unat_word_ariths)
      with that show False by simp
    qed
    note D = decode_ints_append [OF d, of x]
    have ok: "sint a < 0 \<or> sint a < sint lo \<or> a + b < lo + ll \<or> \<not> length q < unat (i + n)"
      using assms(1) by (auto simp: decode_turn_def d vs le)
    show ?thesis
    proof (cases "sint a < 0 \<or> sint a < sint lo \<or> a + b < lo + ll \<or> length q < unat i + unat n")
      case True
      with ok more show ?thesis by (auto simp: decode_turn_def D d vs le simp del: of_nat_add length_append)
    next
      case False
      then have "unat i + unat n \<le> length q" "unat i \<le> length q" by linarith+
      then have "\<not> length (q @ x) < unat i + unat n" by simp
      with False ok \<open>unat i \<le> length q\<close> \<open>unat i + unat n \<le> length q\<close> show ?thesis
        by (simp add: decode_turn_def D d vs le Let_def split: option.split del: of_nat_add length_append)
    qed
  qed
qed

lemma decode_loop_append:
  "length (buffer db @ x) < 2 ^ 64 \<Longrightarrow>
   decode_loop consumer (db\<lparr>buffer := buffer db @ x\<rparr>) =
   svn_bind (decode_loop consumer db) (\<lambda>db'. decode_loop consumer (db'\<lparr>buffer := buffer db' @ x\<rparr>))"
proof (induction consumer db rule: decode_loop.induct)
  case (1 consumer db)
  let ?t = "decode_turn (last_sview_offset db) (last_sview_len db) (buffer db)"
  show ?case
  proof (cases "?t = Ok More")
    case True
    then have "decode_loop consumer db = Ok db" by (subst decode_loop.simps) simp
    then show ?thesis by simp
  next
    case False
    have T: "decode_turn (last_sview_offset db) (last_sview_len db) (buffer db @ x) = turn_append ?t x"
      using decode_turn_append [OF False "1.prems"] .
    show ?thesis
    proof (cases ?t)
      case (Ok r)
      with False obtain w b where W: "?t = Ok (Window w b)" by (cases r) auto
      then have "length (b @ x) < 2 ^ 64" using decode_turn_shorter [OF W] "1.prems" by simp
      moreover define db1 where "db1 = (\<lambda>cb. db\<lparr>consumer_baton := cb, buffer := b,
        last_sview_offset := sview_offset w, last_sview_len := sview_len w\<rparr>)"
      ultimately have IH: "consumer (Some w) (consumer_baton db) = Ok cb \<Longrightarrow>
        decode_loop consumer ((db1 cb)\<lparr>buffer := b @ x\<rparr>) =
        svn_bind (decode_loop consumer (db1 cb)) (\<lambda>db'. decode_loop consumer (db'\<lparr>buffer := buffer db' @ x\<rparr>))" for cb
        using "1.IH" [of "Window w b" w b cb] W by simp
      have eq: "db\<lparr>consumer_baton := cb, buffer := b @ x, last_sview_offset := sview_offset w,
        last_sview_len := sview_len w\<rparr> = (db1 cb)\<lparr>buffer := b @ x\<rparr>" for cb
        by (simp add: db1_def)
      have "decode_loop consumer db = svn_bind (consumer (Some w) (consumer_baton db)) (\<lambda>cb. decode_loop consumer (db1 cb))"
        by (subst decode_loop.simps) (simp add: W db1_def split: svn_result.split)
      moreover have "decode_loop consumer (db\<lparr>buffer := buffer db @ x\<rparr>) =
          svn_bind (consumer (Some w) (consumer_baton db)) (\<lambda>cb. decode_loop consumer ((db1 cb)\<lparr>buffer := b @ x\<rparr>))"
        by (subst decode_loop.simps) (simp add: W T eq split: svn_result.split)
      ultimately show ?thesis
        using IH by (cases "consumer (Some w) (consumer_baton db)") simp_all
    qed (use T in \<open>(subst (1 2) decode_loop.simps, simp)+\<close>)
  qed
qed


text \<open>What holds of a decoder whose writes have all succeeded.\<close>

definition dec_ok :: "'b decode_baton \<Rightarrow> bool" where
  "dec_ok db \<longleftrightarrow> header_bytes db \<le> 4 \<and> (header_bytes db < 4 \<longrightarrow> buffer db = []) \<and>
     decode_turn (last_sview_offset db) (last_sview_len db) (buffer db) = Ok More"

lemma decode_loop_result:
  "decode_loop consumer db = Ok db' \<Longrightarrow> header_bytes db' = header_bytes db \<and>
     length (buffer db') \<le> length (buffer db) \<and>
     decode_turn (last_sview_offset db') (last_sview_len db') (buffer db') = Ok More"
proof (induction consumer db rule: decode_loop.induct)
  case (1 consumer db)
  let ?t = "decode_turn (last_sview_offset db) (last_sview_len db) (buffer db)"
  have run: "(case ?t of Err e \<Rightarrow> Err e | Abort \<Rightarrow> Abort | Ok More \<Rightarrow> Ok db | Ok (Window w b) \<Rightarrow>
      (case consumer (Some w) (consumer_baton db) of Err e \<Rightarrow> Err e | Abort \<Rightarrow> Abort
       | Ok cb \<Rightarrow> decode_loop consumer (db\<lparr>consumer_baton := cb, buffer := b,
           last_sview_offset := sview_offset w, last_sview_len := sview_len w\<rparr>))) = Ok db'"
    using "1.prems" by (subst (asm) decode_loop.simps)
  show ?case
  proof (cases "\<exists>w b. ?t = Ok (Window w b)")
    case True
    then obtain w b where W: "?t = Ok (Window w b)" by blast
    with run obtain cb where "consumer (Some w) (consumer_baton db) = Ok cb"
      by (auto split: svn_result.splits)
    with run W "1.IH" [OF W, of w b cb] decode_turn_shorter [OF W] show ?thesis by simp
  qed (use run in \<open>auto split: svn_result.splits turn.splits\<close>)
qed

lemma decode_loop_empty: "buffer db = [] \<Longrightarrow> decode_loop consumer db = Ok db"
  by (subst decode_loop.simps) simp

definition dec_feed :: "'b window_handler \<Rightarrow> bytes \<Rightarrow> 'b decode_baton \<Rightarrow> 'b decode_baton svn_result" where
  "dec_feed consumer c db = svn_bind (write_handler consumer db c) (\<lambda>(n, db'). Ok db')"

lemma dec_feed_eq:
  "dec_feed consumer c db =
    (if take (nheader db c) (drop (header_bytes db) svndiff_magic) = take (nheader db c) c
     then decode_loop consumer (db\<lparr>header_bytes := header_bytes db + nheader db c,
            buffer := buffer db @ drop (nheader db c) c\<rparr>)
     else Err SVN_ERR_SVNDIFF_INVALID_HEADER)"
proof -
  have id: "svn_bind m Ok = m" for m :: "'b decode_baton svn_result" by (cases m) simp_all
  show ?thesis unfolding dec_feed_def write_handler_def
    by (auto simp: svn_bind_assoc id)
qed

lemma dec_feed_append:
  assumes ok: "dec_ok db" and len: "length (buffer db) + length a + length b < 2 ^ 64"
  shows "dec_feed consumer (a @ b) db = svn_bind (dec_feed consumer a db) (dec_feed consumer b)"
proof (cases "header_bytes db < 4 \<and> length a \<le> 4 - header_bytes db")
  case True
  let ?h = "header_bytes db" and ?db = "db\<lparr>header_bytes := header_bytes db + length a\<rparr>"
  have buf: "buffer db = []" using True ok by (simp add: dec_ok_def)
  have n: "nheader db a = length a" "nheader db (a @ b) = length a + nheader ?db b"
    using True by (auto simp: nheader_def)
  have a: "dec_feed consumer a db = (if take (length a) (drop ?h svndiff_magic) = a then Ok ?db
      else Err SVN_ERR_SVNDIFF_INVALID_HEADER)"
    by (simp add: dec_feed_eq n buf decode_loop_empty)
  have "take (length a + k) (drop ?h svndiff_magic) = a @ take k b \<longleftrightarrow>
      take (length a) (drop ?h svndiff_magic) = a \<and>
      take k (drop (?h + length a) svndiff_magic) = take k b" for k
    using True by (simp add: take_add drop_drop add.commute [of "length a" ?h])
  then show ?thesis
    by (simp add: a) (simp add: dec_feed_eq n buf add.assoc)
next
  case False
  have n: "nheader db (a @ b) = nheader db a" "nheader db a \<le> length a"
    "header_bytes db + nheader db a = 4"
    using False ok by (auto simp: nheader_def dec_ok_def)
  let ?db = "db\<lparr>header_bytes := 4, buffer := buffer db @ drop (nheader db a) a\<rparr>"
  have "decode_loop consumer (db\<lparr>header_bytes := 4, buffer := buffer db @ drop (nheader db a) a @ b\<rparr>)
      = svn_bind (decode_loop consumer ?db) (\<lambda>db'. decode_loop consumer (db'\<lparr>buffer := buffer db' @ b\<rparr>))"
    using decode_loop_append [of ?db b consumer] len by simp
  moreover have "svn_bind (decode_loop consumer ?db) (\<lambda>db'. decode_loop consumer (db'\<lparr>buffer := buffer db' @ b\<rparr>))
      = svn_bind (decode_loop consumer ?db) (dec_feed consumer b)"
    by (cases "decode_loop consumer ?db")
       (auto dest!: decode_loop_result simp: dec_feed_eq nheader_def)
  ultimately show ?thesis
    using n by (auto simp: dec_feed_eq)
qed

lemma dec_feed_result:
  assumes "dec_feed consumer c db = Ok db'" and "dec_ok db"
  shows "dec_ok db' \<and> length (buffer db') \<le> length (buffer db) + length c"
proof -
  let ?n = "nheader db c"
  have n: "header_bytes db + ?n \<le> 4" "header_bytes db + ?n < 4 \<Longrightarrow> buffer db @ drop ?n c = []"
    using assms(2) by (auto simp: nheader_def dec_ok_def split: if_splits)
  have "decode_loop consumer (db\<lparr>header_bytes := header_bytes db + ?n, buffer := buffer db @ drop ?n c\<rparr>) = Ok db'"
    using assms(1) by (simp add: dec_feed_eq split: if_splits)
  from decode_loop_result [OF this] n show ?thesis by (auto simp: dec_ok_def)
qed

lemma svndiff_writes_Cons:
  "svndiff_writes consumer db (c # cs) = svn_bind (dec_feed consumer c db) (\<lambda>db'. svndiff_writes consumer db' cs)"
  by (cases "write_handler consumer db c") (simp_all add: dec_feed_def case_prod_beta)

lemma svndiff_writes_concat:
  assumes "dec_ok db" and "length (buffer db) + length (concat cs) < 2 ^ 64"
  shows "svndiff_writes consumer db cs = dec_feed consumer (concat cs) db"
  using assms
proof (induction cs arbitrary: db)
  case Nil
  have "nheader db [] = 0" by (simp add: nheader_def)
  moreover from Nil have "decode_loop consumer db = Ok db"
    by (subst decode_loop.simps) (simp add: dec_ok_def)
  ultimately show ?case by (simp add: dec_feed_eq)
next
  case (Cons c cs)
  have "svndiff_writes consumer db (c # cs) = svn_bind (dec_feed consumer c db) (\<lambda>db'. svndiff_writes consumer db' cs)"
    by (rule svndiff_writes_Cons)
  also have "\<dots> = svn_bind (dec_feed consumer c db) (dec_feed consumer (concat cs))"
    using Cons dec_feed_result [of consumer c db]
    by (cases "dec_feed consumer c db") (simp_all del: length_concat)
  also have "\<dots> = dec_feed consumer (c @ concat cs) db"
    using Cons.prems by (intro dec_feed_append [symmetric]) (simp_all del: length_concat)
  finally show ?case by simp
qed

section \<open>The properties\<close>

text \<open>
  C18. The decoder gives the same result, whatever the bytes, valid or not, and whatever the
  pieces in which they are written: the same windows reach the consumer, and the same error is
  reported if there is one.
\<close>

theorem svndiff_parse_chunks:
  assumes "concat cs = concat ds" and "length (concat ds) < 2 ^ 64"
  shows "svndiff_parse consumer (svn_txdelta_parse_svndiff b early) cs =
    svndiff_parse consumer (svn_txdelta_parse_svndiff b early) ds"
proof -
  let ?db = "svn_txdelta_parse_svndiff b early"
  have "dec_ok ?db" "buffer ?db = []" by (simp_all add: dec_ok_def svn_txdelta_parse_svndiff_def)
  then have "svndiff_writes consumer ?db cs = svndiff_writes consumer ?db ds"
    using assms by (simp add: svndiff_writes_concat del: length_concat)
  then show ?thesis by (simp add: svndiff_parse_def)
qed

theorem svndiff_parse_chunks_witness:
  "svndiff_parse (\<lambda>w n. Ok (n + 1)) (svn_txdelta_parse_svndiff 0 True)
     [''SV'', ''N'', [], CHR 0x00 # ''garbage''] =
   svndiff_parse (\<lambda>w n. Ok (n + 1)) (svn_txdelta_parse_svndiff (0::nat) True)
     [''SVN'' @ CHR 0x00 # ''garbage'']"
  by (rule svndiff_parse_chunks) simp_all

text \<open>
  C27. The variable-length integer format: every non-negative offset is encoded in one to nine
  bytes, decoding what was encoded gives the value back and leaves the bytes that follow, and a
  proper prefix of an encoding is recognised as incomplete.
\<close>

theorem encode_int_roundtrip:
  assumes "0 \<le> sint val"
  shows "\<exists>e. encode_int val = Ok e \<and> 1 \<le> length e \<and> length e \<le> 9 \<and>
    decode_int (e @ x) = Some (val, x) \<and> (\<forall>k < length e. decode_int (take k e) = None)"
proof -
  have v: "unat val < 2 ^ 63" using assms by (simp add: sint64_nonneg_iff)
  then have "unat (drop_bit 7 val) < 128 ^ 8" by (simp add: drop_bit_eq_div unat_div)
  from encode_int_len_le [OF this, of 1] have "length (int_bytes val) \<le> 9"
    by (simp add: int_bytes_def)
  moreover have "decode_int (take k (int_bytes val)) = None" if "k < length (int_bytes val)" for k
    using decode_int_prefix [of "take k (int_bytes val)" "drop k (int_bytes val)" val "[]"] v that by simp
  ultimately show ?thesis
    using encode_int_Ok [OF v] int_bytes_length(1) [of val] decode_int_bytes [OF v]
    by (intro exI [of _ "int_bytes val"]) (simp add: Suc_le_eq)
qed

theorem encode_int_roundtrip_witness:
  "\<exists>e. encode_int 2000 = Ok e \<and> 1 \<le> length e \<and> length e \<le> 9 \<and>
    decode_int (e @ ''rest'') = Some (2000, ''rest'')"
  using encode_int_roundtrip [of 2000 "''rest''"] by fastforce

text \<open>
  Input whose first bytes are not the magic number is refused with
  \<open>SVN_ERR_SVNDIFF_INVALID_HEADER\<close> before any window is handed on.
\<close>

lemma svndiff_bad_header:
  assumes "take 4 (concat cs) \<noteq> take (length (concat cs)) svndiff_magic"
    and "length (concat cs) < 2 ^ 64"
  shows "svndiff_parse consumer (svn_txdelta_parse_svndiff b early) cs = Err SVN_ERR_SVNDIFF_INVALID_HEADER"
proof -
  let ?db = "svn_txdelta_parse_svndiff b early"
  have db: "dec_ok ?db" "buffer ?db = []" "header_bytes ?db = 0"
    by (simp_all add: dec_ok_def svn_txdelta_parse_svndiff_def)
  have "nheader ?db (concat cs) = min 4 (length (concat cs))"
    using db by (simp add: nheader_def del: length_concat)
  moreover have "take (min 4 n) svndiff_magic = take n svndiff_magic" for n
    by (cases "n \<le> 4") simp_all
  moreover have "take (min 4 (length (concat cs))) (concat cs) = take 4 (concat cs)"
    by (cases "length (concat cs) \<le> 4") (simp_all del: length_concat)
  ultimately have "dec_feed consumer (concat cs) ?db = Err SVN_ERR_SVNDIFF_INVALID_HEADER"
    using assms(1) [symmetric] by (simp only: dec_feed_eq db drop_0 if_False)
  then show ?thesis
    using db assms(2) by (simp add: svndiff_parse_def svndiff_writes_concat del: length_concat)
qed

text \<open>
  The encoding of the window that \<open>svn_txdelta_send_string\<close> makes of an empty string is not
  accepted by the decoder: the zero length of its one instruction is read as a length that
  follows the selector byte, and the stream is refused with \<open>SVN_ERR_SVNDIFF_INVALID_OPS\<close>.
\<close>

lemma send_string_empty_svndiff:
  "\<exists>eb. svn_txdelta_send_string [] window_handler
           (svn_txdelta_to_svndiff (svn_stream_from_stdio (file_of [] []))) = Ok eb \<and>
     svndiff_parse consumer (svn_txdelta_parse_svndiff b early) [fp_out (baton (eb_output eb))]
       = Err SVN_ERR_SVNDIFF_INVALID_OPS"
proof -
  let ?d = "svndiff_magic @ map char_of [0, 0, 0, 1, 0, 128 :: nat]"
  have "(case svn_txdelta_send_string [] window_handler
           (svn_txdelta_to_svndiff (svn_stream_from_stdio (file_of [] []))) of
           Ok eb \<Rightarrow> fp_out (baton (eb_output eb)) = ?d | _ \<Rightarrow> False)"
    by code_simp
  moreover have "dec_feed consumer ?d (svn_txdelta_parse_svndiff b early) = Err SVN_ERR_SVNDIFF_INVALID_OPS"
  proof -
    have "decode_turn 0 0 (map char_of [0, 0, 0, 1, 0, 128 :: nat]) = Err SVN_ERR_SVNDIFF_INVALID_OPS"
      by code_simp
    then show ?thesis
      by (simp add: dec_feed_eq nheader_def svn_txdelta_parse_svndiff_def)
         (subst decode_loop.simps, simp)
  qed
  ultimately show ?thesis
    by (auto simp: svndiff_parse_def svndiff_writes_Cons simp del: svndiff_writes.simps(2)
        split: svn_result.splits)
qed

end
