(* ===== verification/Svn_String.thy ===== *)
theory Svn_String
  imports Prelude
begin

text \<open>
  The counted strings of \<open>libsvn_subr/svn_string.c\<close>: \<open>svn_stringbuf_t\<close>, a growable block of
  memory with a length and a block size, and \<open>svn_string_t\<close>, a pointer and a length.  Memory
  is explicit: a block is a list of bytes, an uninitialised byte is \<open>None\<close>, and an access
  outside the block or a read of an uninitialised byte is an \<open>Abort\<close>.  The invariant
  \<open>sb_ok\<close> is what the rest of the library relies on (the block has the recorded size, holds the
  contents and the terminating null byte); every operation keeps it and is described on the
  contents, which is how the other theories use these strings.
\<close>

section \<open>Memory\<close>

type_synonym mem = "char option list"

definition apr_palloc :: "nat \<Rightarrow> mem" where
  "apr_palloc n = replicate n None"

definition mem_get :: "mem \<Rightarrow> nat \<Rightarrow> char svn_result" where
  "mem_get m i = (if i < length m then (case m ! i of None \<Rightarrow> Abort | Some c \<Rightarrow> Ok c) else Abort)"

definition mem_set :: "mem \<Rightarrow> nat \<Rightarrow> char \<Rightarrow> mem svn_result" where
  "mem_set m i c = (if i < length m then Ok (m[i := Some c]) else Abort)"

definition memcpy :: "mem \<Rightarrow> nat \<Rightarrow> mem \<Rightarrow> nat \<Rightarrow> mem svn_result" where
  "memcpy dst i src n =
     (if i + n \<le> length dst \<and> n \<le> length src
      then Ok (take i dst @ take n src @ drop (i + n) dst) else Abort)"

text \<open>The \<open>n\<close> bytes at the beginning of a block, as \<open>memcmp\<close> and other readers see them.\<close>

definition mem_bytes :: "mem \<Rightarrow> nat \<Rightarrow> bytes svn_result" where
  "mem_bytes m n =
     (if n \<le> length m \<and> None \<notin> set (take n m) then Ok (map the (take n m)) else Abort)"

text \<open>\<open>apr_isspace\<close> in the C locale.\<close>

definition apr_isspace :: "char \<Rightarrow> bool" where
  "apr_isspace c \<longleftrightarrow> (let n = of_char c :: nat in n = 32 \<or> (9 \<le> n \<and> n \<le> 13))"

section \<open>String buffers\<close>

record svn_stringbuf_t =
  sb_data :: mem
  sb_len :: apr_size_t
  sb_blocksize :: apr_size_t

definition my__realloc :: "mem \<Rightarrow> apr_size_t \<Rightarrow> apr_size_t \<Rightarrow> mem svn_result" where
  "my__realloc data oldsize request = memcpy (apr_palloc (unat request)) 0 data (unat oldsize)"

definition create_stringbuf :: "mem \<Rightarrow> apr_size_t \<Rightarrow> svn_stringbuf_t" where
  "create_stringbuf data sz = \<lparr>sb_data = data, sb_len = sz, sb_blocksize = sz + 1\<rparr>"

text \<open>The argument is the \<open>size\<close> bytes at the pointer.\<close>

definition svn_stringbuf_ncreate :: "bytes \<Rightarrow> svn_stringbuf_t svn_result" where
  "svn_stringbuf_ncreate bs =
     (let sz = of_nat (length bs) in
      svn_bind (memcpy (apr_palloc (unat (sz + 1))) 0 (map Some bs) (unat sz)) (\<lambda>data.
      svn_bind (mem_set data (unat sz) NUL) (\<lambda>data.
        Ok (create_stringbuf data sz))))"

text \<open>A C string is the list of the bytes before its null byte, so \<open>strlen\<close> is the length.\<close>

definition svn_stringbuf_create :: "bytes \<Rightarrow> svn_stringbuf_t svn_result" where
  "svn_stringbuf_create cstring = svn_stringbuf_ncreate cstring"

definition svn_stringbuf_fillchar :: "svn_stringbuf_t \<Rightarrow> char \<Rightarrow> svn_stringbuf_t svn_result" where
  "svn_stringbuf_fillchar str c =
     svn_bind (memcpy (sb_data str) 0 (replicate (unat (sb_len str)) (Some c)) (unat (sb_len str)))
       (\<lambda>data. Ok (str\<lparr>sb_data := data\<rparr>))"

text \<open>
  The doubling loop of \<open>svn_stringbuf_ensure\<close>.  Sixty-four doublings of a word give zero, and
  from then on the loop never ends, so 64 units of fuel are enough to tell what it returns.
\<close>

primrec double_blocksize :: "nat \<Rightarrow> apr_size_t \<Rightarrow> apr_size_t \<Rightarrow> apr_size_t option" where
  "double_blocksize 0 b minimum_size = (if b < minimum_size then None else Some b)"
| "double_blocksize (Suc k) b minimum_size =
     (if b < minimum_size then double_blocksize k (b * 2) minimum_size else Some b)"

definition svn_stringbuf_ensure :: "svn_stringbuf_t \<Rightarrow> apr_size_t \<Rightarrow> svn_stringbuf_t svn_result" where
  "svn_stringbuf_ensure str minimum_size =
     (if sb_blocksize str < minimum_size then
        (case (if sb_blocksize str = 0 then Some minimum_size
               else double_blocksize 64 (sb_blocksize str) minimum_size) of
           None \<Rightarrow> Abort
         | Some b \<Rightarrow>
             svn_bind (my__realloc (sb_data str) (sb_len str) b) (\<lambda>data.
               Ok (str\<lparr>sb_blocksize := b, sb_data := data\<rparr>)))
      else Ok str)"

definition svn_stringbuf_set :: "svn_stringbuf_t \<Rightarrow> bytes \<Rightarrow> svn_stringbuf_t svn_result" where
  "svn_stringbuf_set str v =
     (let amt = of_nat (length v) in
      svn_bind (svn_stringbuf_ensure str (amt + 1)) (\<lambda>str.
      svn_bind (memcpy (sb_data str) 0 (map Some (v @ [NUL])) (unat (amt + 1))) (\<lambda>data.
        Ok (str\<lparr>sb_data := data, sb_len := amt\<rparr>))))"

definition svn_stringbuf_setempty :: "svn_stringbuf_t \<Rightarrow> svn_stringbuf_t svn_result" where
  "svn_stringbuf_setempty str =
     svn_bind (if 0 < sb_len str then mem_set (sb_data str) 0 NUL else Ok (sb_data str)) (\<lambda>data.
       Ok (str\<lparr>sb_data := data, sb_len := 0\<rparr>))"

definition svn_stringbuf_chop :: "svn_stringbuf_t \<Rightarrow> apr_size_t \<Rightarrow> svn_stringbuf_t svn_result" where
  "svn_stringbuf_chop str nbytes =
     (let l = (if sb_len str < nbytes then 0 else sb_len str - nbytes) in
      svn_bind (mem_set (sb_data str) (unat l) NUL) (\<lambda>data.
        Ok (str\<lparr>sb_len := l, sb_data := data\<rparr>)))"

definition svn_stringbuf_isempty :: "svn_stringbuf_t \<Rightarrow> bool" where
  "svn_stringbuf_isempty str \<longleftrightarrow> sb_len str = 0"

definition svn_stringbuf_appendbytes :: "svn_stringbuf_t \<Rightarrow> bytes \<Rightarrow> svn_stringbuf_t svn_result" where
  "svn_stringbuf_appendbytes str bs =
     (let total_len = sb_len str + of_nat (length bs) in
      svn_bind (svn_stringbuf_ensure str (total_len + 1)) (\<lambda>str.
      svn_bind (memcpy (sb_data str) (unat (sb_len str)) (map Some bs) (length bs)) (\<lambda>data.
      svn_bind (mem_set data (unat total_len) NUL) (\<lambda>data.
        Ok (str\<lparr>sb_data := data, sb_len := total_len\<rparr>)))))"

definition svn_stringbuf_appendstr :: "svn_stringbuf_t \<Rightarrow> svn_stringbuf_t \<Rightarrow> svn_stringbuf_t svn_result" where
  "svn_stringbuf_appendstr target app =
     svn_bind (mem_bytes (sb_data app) (unat (sb_len app))) (svn_stringbuf_appendbytes target)"

definition svn_stringbuf_appendcstr :: "svn_stringbuf_t \<Rightarrow> bytes \<Rightarrow> svn_stringbuf_t svn_result" where
  "svn_stringbuf_appendcstr target cstr = svn_stringbuf_appendbytes target cstr"

definition svn_stringbuf_dup :: "svn_stringbuf_t \<Rightarrow> svn_stringbuf_t svn_result" where
  "svn_stringbuf_dup original =
     svn_bind (mem_bytes (sb_data original) (unat (sb_len original))) svn_stringbuf_ncreate"

definition svn_stringbuf_compare :: "svn_stringbuf_t \<Rightarrow> svn_stringbuf_t \<Rightarrow> bool svn_result" where
  "svn_stringbuf_compare str1 str2 =
     (if sb_len str1 \<noteq> sb_len str2 then Ok False
      else svn_bind (mem_bytes (sb_data str1) (unat (sb_len str1))) (\<lambda>b1.
           svn_bind (mem_bytes (sb_data str2) (unat (sb_len str1))) (\<lambda>b2.
             Ok (b1 = b2))))"

text \<open>The scan of \<open>svn_stringbuf_first_non_whitespace\<close>; the result -1 is the largest word.\<close>

fun first_non_whitespace :: "mem \<Rightarrow> nat \<Rightarrow> nat \<Rightarrow> apr_size_t svn_result" where
  "first_non_whitespace data i 0 = Ok (- 1)"
| "first_non_whitespace data i (Suc n) =
     svn_bind (mem_get data i) (\<lambda>c.
       if \<not> apr_isspace c then Ok (of_nat i) else first_non_whitespace data (Suc i) n)"

definition svn_stringbuf_first_non_whitespace :: "svn_stringbuf_t \<Rightarrow> apr_size_t svn_result" where
  "svn_stringbuf_first_non_whitespace str = first_non_whitespace (sb_data str) 0 (unat (sb_len str))"

text \<open>
  The backward scan of \<open>svn_stringbuf_strip_whitespace\<close>.  The index is unsigned, so after index
  zero comes the largest word, which is outside every block.
\<close>

fun last_non_whitespace :: "mem \<Rightarrow> nat \<Rightarrow> apr_size_t svn_result" where
  "last_non_whitespace data i =
     svn_bind (mem_get data i) (\<lambda>c.
       if \<not> apr_isspace c then Ok (of_nat i)
       else case i of 0 \<Rightarrow> Abort | Suc j \<Rightarrow> last_non_whitespace data j)"

declare last_non_whitespace.simps [simp del]

text \<open>An offset past the end of the block makes the data pointer invalid.\<close>

definition svn_stringbuf_strip_whitespace :: "svn_stringbuf_t \<Rightarrow> svn_stringbuf_t svn_result" where
  "svn_stringbuf_strip_whitespace str =
     svn_bind (svn_stringbuf_first_non_whitespace str) (\<lambda>offset.
       if length (sb_data str) < unat offset then Abort
       else
         let str1 = str\<lparr>sb_data := drop (unat offset) (sb_data str), sb_len := sb_len str - offset,
                        sb_blocksize := sb_blocksize str - offset\<rparr> in
         svn_bind (last_non_whitespace (sb_data str1) (unat (sb_len str1 - 1))) (\<lambda>i.
         svn_bind (mem_set (sb_data str1) (unat (i + 1)) NUL) (\<lambda>data.
           Ok (str1\<lparr>sb_len := i + 1, sb_data := data\<rparr>))))"

text \<open>
  The backward search, from index \<open>n - 1\<close> down.  The C index is an \<open>int\<close>, so the length less
  one is cut to 32 bits.
\<close>

primrec find_backward :: "mem \<Rightarrow> nat \<Rightarrow> char \<Rightarrow> nat option svn_result" where
  "find_backward data 0 ch = Ok None"
| "find_backward data (Suc i) ch =
     svn_bind (mem_get data i) (\<lambda>c. if c = ch then Ok (Some i) else find_backward data i ch)"

definition svn_stringbuf_find_char_backward :: "svn_stringbuf_t \<Rightarrow> char \<Rightarrow> apr_size_t svn_result" where
  "svn_stringbuf_find_char_backward str ch =
     (let i = sint (ucast (sb_len str - 1) :: 32 word) in
      svn_bind (find_backward (sb_data str) (nat (i + 1)) ch) (\<lambda>r.
        Ok (case r of None \<Rightarrow> sb_len str | Some j \<Rightarrow> of_nat j)))"

definition svn_stringbuf_chop_back_to_char ::
  "svn_stringbuf_t \<Rightarrow> char \<Rightarrow> (apr_size_t \<times> svn_stringbuf_t) svn_result"
where
  "svn_stringbuf_chop_back_to_char str ch =
     svn_bind (svn_stringbuf_find_char_backward str ch) (\<lambda>i.
       if i < sb_len str then
         (let nbytes = sb_len str - i in
          svn_bind (svn_stringbuf_chop str nbytes) (\<lambda>str. Ok (nbytes, str)))
       else Ok (0, str))"

section \<open>Counted strings\<close>

record svn_string_t =
  st_data :: mem
  st_len :: apr_size_t

definition create_string :: "mem \<Rightarrow> apr_size_t \<Rightarrow> svn_string_t" where
  "create_string data sz = \<lparr>st_data = data, st_len = sz\<rparr>"

definition svn_string_ncreate :: "bytes \<Rightarrow> svn_string_t svn_result" where
  "svn_string_ncreate bs =
     (let sz = of_nat (length bs) in
      svn_bind (memcpy (apr_palloc (unat (sz + 1))) 0 (map Some bs) (unat sz)) (\<lambda>data.
      svn_bind (mem_set data (unat sz) NUL) (\<lambda>data.
        Ok (create_string data sz))))"

definition svn_string_create :: "bytes \<Rightarrow> svn_string_t svn_result" where
  "svn_string_create cstring = svn_string_ncreate cstring"

definition svn_string_create_from_buf :: "svn_stringbuf_t \<Rightarrow> svn_string_t svn_result" where
  "svn_string_create_from_buf strbuf =
     svn_bind (mem_bytes (sb_data strbuf) (unat (sb_len strbuf))) svn_string_ncreate"

definition svn_stringbuf_create_from_string :: "svn_string_t \<Rightarrow> svn_stringbuf_t svn_result" where
  "svn_stringbuf_create_from_string str =
     svn_bind (mem_bytes (st_data str) (unat (st_len str))) svn_stringbuf_ncreate"

definition svn_string_isempty :: "svn_string_t \<Rightarrow> bool" where
  "svn_string_isempty str \<longleftrightarrow> st_len str = 0"

definition svn_string_dup :: "svn_string_t \<Rightarrow> svn_string_t svn_result" where
  "svn_string_dup original =
     svn_bind (mem_bytes (st_data original) (unat (st_len original))) svn_string_ncreate"

definition svn_string_compare :: "svn_string_t \<Rightarrow> svn_string_t \<Rightarrow> bool svn_result" where
  "svn_string_compare str1 str2 =
     (if st_len str1 \<noteq> st_len str2 then Ok False
      else svn_bind (mem_bytes (st_data str1) (unat (st_len str1))) (\<lambda>b1.
           svn_bind (mem_bytes (st_data str2) (unat (st_len str1))) (\<lambda>b2.
             Ok (b1 = b2))))"

definition svn_string_first_non_whitespace :: "svn_string_t \<Rightarrow> apr_size_t svn_result" where
  "svn_string_first_non_whitespace str = first_non_whitespace (st_data str) 0 (unat (st_len str))"

definition svn_string_strip_whitespace :: "svn_string_t \<Rightarrow> svn_string_t svn_result" where
  "svn_string_strip_whitespace str =
     svn_bind (svn_string_first_non_whitespace str) (\<lambda>offset.
       if length (st_data str) < unat offset then Abort
       else
         let str1 = str\<lparr>st_data := drop (unat offset) (st_data str), st_len := st_len str - offset\<rparr> in
         svn_bind (last_non_whitespace (st_data str1) (unat (st_len str1 - 1))) (\<lambda>i.
           Ok (str1\<lparr>st_len := i + 1\<rparr>)))"

definition svn_string_find_char_backward :: "svn_string_t \<Rightarrow> char \<Rightarrow> apr_size_t svn_result" where
  "svn_string_find_char_backward str ch =
     (let i = sint (ucast (st_len str - 1) :: 32 word) in
      svn_bind (find_backward (st_data str) (nat (i + 1)) ch) (\<lambda>r.
        Ok (case r of None \<Rightarrow> st_len str | Some j \<Rightarrow> of_nat j)))"

definition svn_string_compare_stringbuf :: "svn_string_t \<Rightarrow> svn_stringbuf_t \<Rightarrow> bool svn_result" where
  "svn_string_compare_stringbuf str1 str2 =
     (if st_len str1 \<noteq> sb_len str2 then Ok False
      else svn_bind (mem_bytes (st_data str1) (unat (st_len str1))) (\<lambda>b1.
           svn_bind (mem_bytes (sb_data str2) (unat (st_len str1))) (\<lambda>b2.
             Ok (b1 = b2))))"

section \<open>Splitting C strings\<close>

text \<open>The byte at index \<open>i\<close> of a C string, its null byte included.\<close>

definition cchar :: "bytes \<Rightarrow> nat \<Rightarrow> char svn_result" where
  "cchar s i = (if i < length s then Ok (s ! i) else if i = length s then Ok NUL else Abort)"

text \<open>The loop \<open>while (apr_isspace (*(--e2)))\<close> and the increment after it.\<close>

fun chop_end :: "bytes \<Rightarrow> nat \<Rightarrow> nat svn_result" where
  "chop_end s 0 = Abort"
| "chop_end s (Suc k) = svn_bind (cchar s k) (\<lambda>c. if apr_isspace c then chop_end s k else Ok (Suc k))"

text \<open>One iteration of the loop: the new \<open>b\<close>, \<open>e\<close> and the substrings so far.\<close>

definition split_step ::
  "bytes \<Rightarrow> char \<Rightarrow> bool \<Rightarrow> nat \<Rightarrow> nat \<Rightarrow> bytes list \<Rightarrow> (nat \<times> nat \<times> bytes list) svn_result"
where
  "split_step input sep chop b e acc =
     svn_bind (if chop then cchar input b else Ok NUL) (\<lambda>cb.
       if chop \<and> apr_isspace cb then Ok (Suc b, (if e < Suc b then Suc b else e), acc)
       else svn_bind (cchar input e) (\<lambda>ce.
         if ce = sep \<or> ce = NUL then
           svn_bind (if chop \<and> b < e then chop_end input e else Ok e) (\<lambda>e2.
             Ok (Suc e, Suc e, acc @ [seg b (e2 - b) input]))
         else Ok (b, Suc e, acc)))"

lemma split_step_progress:
  "split_step input sep chop b e acc = Ok (b', e', acc') \<Longrightarrow> e < e' \<or> (e' = e \<and> b' = Suc b \<and> b < e)"
  by (auto simp: split_step_def svn_bind_Ok_iff cchar_def split: if_splits)

function split_loop :: "bytes \<Rightarrow> char \<Rightarrow> bool \<Rightarrow> nat \<Rightarrow> nat \<Rightarrow> bool \<Rightarrow> bytes list \<Rightarrow> bytes list svn_result" where
  "split_loop input sep chop b e one_last_time acc =
     (case split_step input sep chop b e acc of
        Err err \<Rightarrow> Err err
      | Abort \<Rightarrow> Abort
      | Ok (b', e', acc') \<Rightarrow>
          if one_last_time then Ok acc'
          else if length input < e' then Abort
          else split_loop input sep chop b' e' (e' = length input \<or> input ! e' = NUL) acc')"
  by pat_completeness auto
termination
  by (relation "measures [\<lambda>(input, sep, chop, b, e, one, acc). Suc (length input) - e,
                          \<lambda>(input, sep, chop, b, e, one, acc). Suc (length input) - b]")
     (use split_step_progress in fastforce)+

declare split_loop.simps [simp del]

definition svn_cstring_split :: "bytes \<Rightarrow> char \<Rightarrow> bool \<Rightarrow> bytes list svn_result" where
  "svn_cstring_split input sep_char chop_whitespace =
     split_loop input sep_char chop_whitespace 0 0 (input = []) []"

section \<open>The invariant\<close>

text \<open>
  \<open>sb_shape\<close>: the block has the recorded size and its first \<open>sb_len\<close> bytes are initialised.
  \<open>sb_ok\<close>: the contents are followed by a null byte as well.
\<close>

definition sb_contents :: "svn_stringbuf_t \<Rightarrow> bytes" where
  "sb_contents str = map the (take (unat (sb_len str)) (sb_data str))"

definition sb_shape :: "svn_stringbuf_t \<Rightarrow> bool" where
  "sb_shape str \<longleftrightarrow> length (sb_data str) = unat (sb_blocksize str) \<and>
     unat (sb_len str) \<le> unat (sb_blocksize str) \<and> None \<notin> set (take (unat (sb_len str)) (sb_data str))"

definition sb_ok :: "svn_stringbuf_t \<Rightarrow> bool" where
  "sb_ok str \<longleftrightarrow> sb_shape str \<and> unat (sb_len str) < unat (sb_blocksize str) \<and>
     sb_data str ! unat (sb_len str) = Some NUL"

definition st_contents :: "svn_string_t \<Rightarrow> bytes" where
  "st_contents str = map the (take (unat (st_len str)) (st_data str))"

definition st_ok :: "svn_string_t \<Rightarrow> bool" where
  "st_ok str \<longleftrightarrow> unat (st_len str) \<le> length (st_data str) \<and>
     None \<notin> set (take (unat (st_len str)) (st_data str))"

lemma map_Some_the: "None \<notin> set xs \<Longrightarrow> map Some (map the xs) = xs"
  by (induction xs) auto

lemma sb_contents_mem: "sb_shape str \<Longrightarrow> take (unat (sb_len str)) (sb_data str) = map Some (sb_contents str)"
  unfolding sb_shape_def sb_contents_def by (rule map_Some_the [symmetric]) blast

lemma sb_split: "sb_shape str \<Longrightarrow> sb_data str = map Some (sb_contents str) @ drop (unat (sb_len str)) (sb_data str)"
  using sb_contents_mem [of str] append_take_drop_id [of "unat (sb_len str)" "sb_data str"] by simp

lemma sb_contents_length: "sb_shape str \<Longrightarrow> length (sb_contents str) = unat (sb_len str)"
  by (simp add: sb_shape_def sb_contents_def)

lemma mem_bytes_contents: "sb_shape str \<Longrightarrow> mem_bytes (sb_data str) (unat (sb_len str)) = Ok (sb_contents str)"
  by (simp add: mem_bytes_def sb_shape_def sb_contents_def)

lemma st_bytes_contents: "st_ok str \<Longrightarrow> mem_bytes (st_data str) (unat (st_len str)) = Ok (st_contents str)"
  by (simp add: mem_bytes_def st_ok_def st_contents_def)

lemma sb_shapeI:
  assumes "sb_data str = map Some bs @ x" and "length bs = unat (sb_len str)"
    and "length bs + length x = unat (sb_blocksize str)"
  shows "sb_shape str" and "sb_contents str = bs"
  using assms by (auto simp: sb_shape_def sb_contents_def map_idI)

lemma sb_okI:
  assumes "sb_data str = map Some bs @ Some NUL # x" and "length bs = unat (sb_len str)"
    and "length bs + Suc (length x) = unat (sb_blocksize str)"
  shows "sb_ok str \<and> sb_contents str = bs"
proof -
  have "sb_shape str" "sb_contents str = bs"
    using sb_shapeI [of str bs "Some NUL # x"] assms by simp_all
  moreover have "sb_data str ! unat (sb_len str) = Some NUL"
    using assms(1) nth_append_length [of "map Some bs" "Some NUL" x] by (simp flip: assms(2))
  ultimately show ?thesis using assms by (simp add: sb_ok_def)
qed

lemma sb_ok_shape: "sb_ok str \<Longrightarrow> sb_shape str"
  by (simp add: sb_ok_def)

section \<open>Growing a block\<close>

lemma double_blocksize_enough:
  assumes "0 < unat b" and "unat m \<le> 2 ^ 63" and "unat m \<le> unat b * 2 ^ k"
  shows "\<exists>b'. double_blocksize k b m = Some b' \<and> m \<le> b' \<and> (b' = b \<or> unat b' < 2 * unat m)"
  using assms(1,3)
proof (induction k arbitrary: b)
  case 0
  then show ?case by (simp add: word_le_nat_alt word_less_nat_alt)
next
  case (Suc k)
  show ?case
  proof (cases "b < m")
    case True
    then have "unat b < 2 ^ 63" using assms(2) by (simp add: word_less_nat_alt)
    then have "unat (b * 2) = 2 * unat b" by (simp add: unat_word_ariths)
    moreover from this True have "unat (b * 2) < 2 * unat m" by (simp add: word_less_nat_alt)
    ultimately show ?thesis using Suc.IH [of "b * 2"] Suc.prems True by auto
  qed simp
qed

lemma sb_ensure:
  assumes sh: "sb_shape str" and m: "unat m \<le> 2 ^ 62"
  shows "\<exists>str'. svn_stringbuf_ensure str m = Ok str' \<and> sb_shape str' \<and> sb_contents str' = sb_contents str \<and>
    sb_len str' = sb_len str \<and> m \<le> sb_blocksize str'"
proof (cases "sb_blocksize str < m")
  case False
  then show ?thesis using sh by (simp add: svn_stringbuf_ensure_def)
next
  case True
  obtain b where b: "(if sb_blocksize str = 0 then Some m else double_blocksize 64 (sb_blocksize str) m) = Some b"
    "m \<le> b"
  proof (cases "sb_blocksize str = 0")
    case False
    then have "0 < unat (sb_blocksize str)" by (simp add: unat_gt_0)
    moreover from this m have "unat m \<le> unat (sb_blocksize str) * 2 ^ 64" by (simp add: trans_le_add1)
    ultimately show ?thesis
      using double_blocksize_enough [of "sb_blocksize str" m 64] m that False by auto
  qed (use that in simp)
  have lt: "unat (sb_blocksize str) < unat b"
    using True b(2) by (simp add: word_less_nat_alt word_le_nat_alt)
  let ?d = "map Some (sb_contents str) @ replicate (unat b - unat (sb_len str)) None"
  let ?str = "str\<lparr>sb_blocksize := b, sb_data := ?d\<rparr>"
  have "my__realloc (sb_data str) (sb_len str) b = Ok ?d"
    using sh lt sb_contents_mem [OF sh]
    by (simp add: my__realloc_def memcpy_def apr_palloc_def sb_shape_def)
  then have "svn_stringbuf_ensure str m = Ok ?str"
    using True b(1) by (simp add: svn_stringbuf_ensure_def)
  moreover have "sb_shape ?str \<and> sb_contents ?str = sb_contents str"
    using sb_shapeI [of ?str "sb_contents str" "replicate (unat b - unat (sb_len str)) None"] sh lt
      sb_contents_length [OF sh] by (simp add: sb_shape_def)
  ultimately show ?thesis using b(2) by (intro exI [of _ ?str]) simp
qed


section \<open>What the operations do to the contents\<close>

lemma sb_ncreate:
  assumes "length bs < 2 ^ 62"
  shows "\<exists>str. svn_stringbuf_ncreate bs = Ok str \<and> sb_ok str \<and> sb_contents str = bs"
proof -
  have u: "unat (of_nat (length bs) :: 64 word) = length bs"
    "unat (of_nat (length bs) + 1 :: 64 word) = Suc (length bs)"
    using assms by (simp_all add: unat_of_nat64 unat_word_ariths)
  let ?d = "map Some bs @ [Some NUL]"
  have "svn_stringbuf_ncreate bs = Ok (create_stringbuf ?d (of_nat (length bs)))"
    by (simp add: svn_stringbuf_ncreate_def Let_def u memcpy_def apr_palloc_def mem_set_def del: replicate_Suc)
       (simp add: list_update_append)
  with sb_okI [of "create_stringbuf ?d (of_nat (length bs))" bs "[]"] show ?thesis
    by (simp add: create_stringbuf_def u)
qed

lemma sb_appendbytes:
  assumes sh: "sb_shape str" and len: "length (sb_contents str) + length bs < 2 ^ 62"
  shows "\<exists>str'. svn_stringbuf_appendbytes str bs = Ok str' \<and> sb_ok str' \<and> sb_contents str' = sb_contents str @ bs"
proof -
  let ?n = "sb_len str + of_nat (length bs)"
  have l: "length (sb_contents str) = unat (sb_len str)" by (rule sb_contents_length [OF sh])
  have u: "unat ?n = unat (sb_len str) + length bs" "unat (?n + 1) = Suc (unat (sb_len str) + length bs)"
    using len l by (simp_all add: unat_of_nat64 unat_word_ariths)
  have "unat (?n + 1) \<le> 2 ^ 62" using len l u by simp
  from sb_ensure [OF sh this] obtain s1 where s1: "svn_stringbuf_ensure str (?n + 1) = Ok s1" "sb_shape s1"
    "sb_contents s1 = sb_contents str" "sb_len s1 = sb_len str" "?n + 1 \<le> sb_blocksize s1" by blast
  define y where "y = drop (unat (sb_len str)) (sb_data s1)"
  have d: "sb_data s1 = map Some (sb_contents str) @ y"
    using sb_split [OF s1(2)] s1(3,4) by (simp add: y_def)
  have big: "Suc (unat (sb_len str) + length bs) \<le> unat (sb_blocksize s1)"
    using s1(5) u by (simp add: word_le_nat_alt)
  moreover have bl: "unat (sb_len str) + length y = unat (sb_blocksize s1)"
    using s1(2) d l arg_cong [OF d, of length] by (simp add: sb_shape_def)
  ultimately have y: "Suc (length bs) \<le> length y" by linarith
  define z where "z = drop (Suc (length bs)) y"
  have yz: "drop (length bs) y = y ! length bs # z" using y by (simp add: z_def Cons_nth_drop_Suc)
  have cpy: "memcpy (sb_data s1) (unat (sb_len s1)) (map Some bs) (length bs)
      = Ok (map Some (sb_contents str @ bs) @ drop (length bs) y)"
    using y l s1(4) by (simp add: memcpy_def d)
  have set: "mem_set (map Some (sb_contents str @ bs) @ drop (length bs) y) (unat ?n) NUL
      = Ok (map Some (sb_contents str @ bs) @ Some NUL # z)"
  proof -
    have "unat ?n = length (map Some (sb_contents str @ bs))" using u l by simp
    then show ?thesis by (simp add: mem_set_def yz list_update_append)
  qed
  let ?s = "s1\<lparr>sb_data := map Some (sb_contents str @ bs) @ Some NUL # z, sb_len := ?n\<rparr>"
  have "svn_stringbuf_appendbytes str bs = Ok ?s"
    unfolding svn_stringbuf_appendbytes_def Let_def using s1(1) cpy set by simp
  moreover have "sb_ok ?s \<and> sb_contents ?s = sb_contents str @ bs"
    using y bl l u by (intro sb_okI [where x = z]) (simp_all add: z_def)
  ultimately show ?thesis by blast
qed

text \<open>A byte stored at the end, as code that has ensured the room does.\<close>

lemma sb_put:
  assumes sh: "sb_shape str" and room: "unat (sb_len str) < unat (sb_blocksize str)"
  shows "\<exists>d. mem_set (sb_data str) (unat (sb_len str)) c = Ok d \<and>
    (let str' = str\<lparr>sb_data := d, sb_len := sb_len str + 1\<rparr> in
     sb_shape str' \<and> sb_contents str' = sb_contents str @ [c])"
proof -
  have l: "length (sb_contents str) = unat (sb_len str)" by (rule sb_contents_length [OF sh])
  define y where "y = drop (unat (sb_len str)) (sb_data str)"
  have d: "sb_data str = map Some (sb_contents str) @ y"
    using sb_split [OF sh] by (simp add: y_def)
  have y: "y = hd y # tl y" and yl: "unat (sb_len str) + length y = unat (sb_blocksize str)"
    using room sh by (auto simp: y_def sb_shape_def)
  have u: "unat (sb_len str + 1) = Suc (unat (sb_len str))"
    using room unat_lt64 [of "sb_blocksize str"] by (simp add: unat_word_ariths)
  let ?d = "map Some (sb_contents str @ [c]) @ tl y"
  have "(map Some (sb_contents str) @ y)[unat (sb_len str) := Some c] = ?d"
    by (subst y) (simp add: list_update_append flip: l)
  then have "mem_set (sb_data str) (unat (sb_len str)) c = Ok ?d"
    using room sh by (simp add: mem_set_def sb_shape_def d)
  moreover have "length y = Suc (length (tl y))" by (subst y) simp
  ultimately show ?thesis
    using sb_shapeI [of "str\<lparr>sb_data := ?d, sb_len := sb_len str + 1\<rparr>" "sb_contents str @ [c]" "tl y"] yl l u
    by (simp add: Let_def)
qed

lemma sb_chop:
  assumes "sb_ok str"
  shows "\<exists>str'. svn_stringbuf_chop str n = Ok str' \<and> sb_ok str' \<and>
    sb_contents str' = take (length (sb_contents str) - unat n) (sb_contents str)"
proof -
  have sh: "sb_shape str" and lt: "unat (sb_len str) < unat (sb_blocksize str)" using assms by (simp_all add: sb_ok_def)
  have l: "length (sb_contents str) = unat (sb_len str)" by (rule sb_contents_length [OF sh])
  define m where "m = (if sb_len str < n then 0 else sb_len str - n)"
  have m: "unat m = unat (sb_len str) - unat n"
    by (auto simp: m_def word_less_nat_alt unat_sub word_le_nat_alt)
  then have ml: "unat m < length (sb_data str)" "unat m \<le> unat (sb_len str)"
    using lt sh by (simp_all add: sb_shape_def)
  let ?b = "take (unat m) (sb_contents str)"
  have "take (unat m) (sb_data str) = map Some ?b"
    using arg_cong [OF sb_contents_mem [OF sh], of "take (unat m)"] ml by (simp add: take_map min_absorb1)
  then have d: "(sb_data str)[unat m := Some NUL] = map Some ?b @ Some NUL # drop (Suc (unat m)) (sb_data str)"
    using ml by (simp add: upd_conv_take_nth_drop)
  let ?s = "str\<lparr>sb_len := m, sb_data := (sb_data str)[unat m := Some NUL]\<rparr>"
  have "svn_stringbuf_chop str n = Ok ?s"
    using ml(1) by (simp add: svn_stringbuf_chop_def Let_def mem_set_def flip: m_def)
  moreover have "sb_ok ?s \<and> sb_contents ?s = ?b"
    using d ml l sh by (intro sb_okI [where x = "drop (Suc (unat m)) (sb_data str)"]) (simp_all add: sb_shape_def)
  ultimately show ?thesis using m l by auto
qed


lemma sb_set:
  assumes sh: "sb_shape str" and len: "length v < 2 ^ 62" and str: "unat (sb_len str) < 2 ^ 62"
  shows "\<exists>str'. svn_stringbuf_set str v = Ok str' \<and> sb_ok str' \<and> sb_contents str' = v"
proof -
  let ?n = "of_nat (length v) :: 64 word"
  have u: "unat ?n = length v" "unat (?n + 1) = Suc (length v)"
    using len by (simp_all add: unat_of_nat64 unat_word_ariths)
  then have "unat (?n + 1) \<le> 2 ^ 62" using len by simp
  from sb_ensure [OF sh this] obtain s1 where s1: "svn_stringbuf_ensure str (?n + 1) = Ok s1" "sb_shape s1"
    "?n + 1 \<le> sb_blocksize s1" by blast
  have big: "Suc (length v) \<le> length (sb_data s1)" "length (sb_data s1) = unat (sb_blocksize s1)"
    using s1(2,3) u by (simp_all add: sb_shape_def word_le_nat_alt)
  let ?x = "drop (Suc (length v)) (sb_data s1)"
  let ?s = "s1\<lparr>sb_data := map Some v @ Some NUL # ?x, sb_len := ?n\<rparr>"
  have "svn_stringbuf_set str v = Ok ?s"
    using s1(1) big by (simp add: svn_stringbuf_set_def Let_def memcpy_def u)
  moreover have "sb_ok ?s \<and> sb_contents ?s = v"
    using big u by (intro sb_okI [where x = ?x]) simp_all
  ultimately show ?thesis by blast
qed

lemma sb_setempty:
  assumes "sb_ok str"
  shows "\<exists>str'. svn_stringbuf_setempty str = Ok str' \<and> sb_ok str' \<and> sb_contents str' = []"
proof -
  have bl: "0 < length (sb_data str)" "length (sb_data str) = unat (sb_blocksize str)"
    using assms by (auto simp: sb_ok_def sb_shape_def)
  let ?d = "if 0 < sb_len str then (sb_data str)[0 := Some NUL] else sb_data str"
  let ?s = "str\<lparr>sb_data := ?d, sb_len := 0\<rparr>"
  have "svn_stringbuf_setempty str = Ok ?s"
    using bl by (simp add: svn_stringbuf_setempty_def mem_set_def)
  moreover have "?d = Some NUL # drop 1 (sb_data str)"
  proof (cases "0 < sb_len str")
    case True
    with bl show ?thesis by (simp add: upd_conv_take_nth_drop)
  next
    case False
    then have "sb_len str = 0" by (simp add: word_neq_0_conv [symmetric])
    with assms have "sb_data str ! 0 = Some NUL" by (simp add: sb_ok_def)
    with False bl show ?thesis by (cases "sb_data str") auto
  qed
  then have "sb_ok ?s \<and> sb_contents ?s = []"
    using bl by (intro sb_okI [where x = "drop 1 (sb_data str)"]) simp_all
  ultimately show ?thesis by blast
qed

lemma sb_compare:
  assumes "sb_shape str1" and "sb_shape str2"
  shows "svn_stringbuf_compare str1 str2 = Ok (sb_contents str1 = sb_contents str2)"
proof (cases "sb_len str1 = sb_len str2")
  case True
  then show ?thesis
    using assms mem_bytes_contents [of str1] mem_bytes_contents [of str2]
    by (simp add: svn_stringbuf_compare_def)
next
  case False
  then have "sb_contents str1 \<noteq> sb_contents str2"
    using assms sb_contents_length by (metis word_unat_eq_iff)
  with False show ?thesis by (simp add: svn_stringbuf_compare_def)
qed

lemma sb_dup:
  assumes "sb_shape str" and "unat (sb_len str) < 2 ^ 62"
  shows "\<exists>str'. svn_stringbuf_dup str = Ok str' \<and> sb_ok str' \<and> sb_contents str' = sb_contents str"
  using sb_ncreate [of "sb_contents str"] assms sb_contents_length [of str] mem_bytes_contents [of str]
  by (simp add: svn_stringbuf_dup_def)

lemma sb_appendstr:
  assumes "sb_shape str" and "sb_shape app" and "length (sb_contents str) + length (sb_contents app) < 2 ^ 62"
  shows "\<exists>str'. svn_stringbuf_appendstr str app = Ok str' \<and> sb_ok str' \<and>
    sb_contents str' = sb_contents str @ sb_contents app"
  using sb_appendbytes [OF assms(1,3)] mem_bytes_contents [OF assms(2)]
  by (simp add: svn_stringbuf_appendstr_def)

section \<open>Searching and stripping\<close>

lemma mem_get_contents: "i < length bs \<Longrightarrow> mem_get (map Some bs @ x) i = Ok (bs ! i)"
  by (simp add: mem_get_def nth_append)

lemma first_non_whitespace_bytes:
  "i + n = length bs \<Longrightarrow> first_non_whitespace (map Some bs @ x) i n =
     Ok (if \<forall>c \<in> set (drop i bs). apr_isspace c then - 1
         else of_nat (i + length (takeWhile apr_isspace (drop i bs))))"
proof (induction n arbitrary: i)
  case 0
  then show ?case by simp
next
  case (Suc n)
  then have i: "i < length bs" by simp
  then have d: "drop i bs = bs ! i # drop (Suc i) bs" by (simp add: Cons_nth_drop_Suc)
  show ?case using Suc.IH [of "Suc i"] Suc.prems i by (simp add: mem_get_contents d)
qed

lemma last_non_whitespace_bytes:
  assumes "i < length bs" and "\<exists>c \<in> set (take (Suc i) bs). \<not> apr_isspace c"
  shows "\<exists>j \<le> i. last_non_whitespace (map Some bs @ x) i = Ok (of_nat j) \<and> \<not> apr_isspace (bs ! j) \<and>
    (\<forall>k. j < k \<and> k \<le> i \<longrightarrow> apr_isspace (bs ! k))"
  using assms
proof (induction i)
  case 0
  then have "\<not> apr_isspace (bs ! 0)" by (cases bs) auto
  with 0 show ?case by (subst last_non_whitespace.simps) (simp add: mem_get_contents)
next
  case (Suc i)
  show ?case
  proof (cases "apr_isspace (bs ! Suc i)")
    case False
    with Suc.prems show ?thesis
      by (subst last_non_whitespace.simps) (auto simp: mem_get_contents)
  next
    case True
    with Suc.prems have "\<exists>c \<in> set (take (Suc i) bs). \<not> apr_isspace c"
      by (auto simp: take_Suc_conv_app_nth)
    with Suc obtain j where j: "j \<le> i" "last_non_whitespace (map Some bs @ x) i = Ok (of_nat j)"
      "\<not> apr_isspace (bs ! j)" "\<forall>k. j < k \<and> k \<le> i \<longrightarrow> apr_isspace (bs ! k)" by auto
    show ?thesis
    proof (intro exI [of _ j] conjI allI impI)
      show "last_non_whitespace (map Some bs @ x) (Suc i) = Ok (of_nat j)"
        using True Suc.prems j(2) by (subst last_non_whitespace.simps) (simp add: mem_get_contents)
      show "apr_isspace (bs ! k)" if "j < k \<and> k \<le> Suc i" for k
        using that True j(4) by (cases "k = Suc i") auto
    qed (use j in auto)
  qed
qed

lemma int_index:
  assumes "unat n \<le> 2 ^ 31"
  shows "nat (sint (ucast (n - 1 :: 64 word) :: 32 word) + 1) = unat n"
proof -
  have s: "sint (ucast w :: 32 word) = signed_take_bit 31 (uint w)" for w :: "64 word"
    by (simp add: signed_ucast_eq)
  show ?thesis
  proof (cases "n = 0")
    case True
    then show ?thesis by (simp add: unsigned_minus_1_eq_mask mask_eq_exp_minus_1)
  next
    case False
    then have "unat (n - 1) = unat n - 1" "0 < unat n"
      by (simp_all add: unat_sub word_le_nat_alt Suc_le_eq unat_gt_0)
    then have "uint (n - 1) = int (unat n) - 1" unfolding uint_nat by linarith
    moreover have "int (unat n) \<le> 2 ^ 31" using of_nat_mono [OF assms, where 'a = int] by simp
    moreover from calculation have "signed_take_bit 31 (uint (n - 1)) = uint (n - 1)"
      using \<open>0 < unat n\<close> by (intro signed_take_bit_int_eq_self) linarith+
    ultimately show ?thesis by (simp add: s)
  qed
qed

lemma find_backward_bytes:
  "n \<le> length bs \<Longrightarrow>
   (case find_backward (map Some bs @ x) n ch of
      Ok (Some j) \<Rightarrow> j < n \<and> bs ! j = ch \<and> ch \<notin> set (drop (Suc j) (take n bs))
    | Ok None \<Rightarrow> ch \<notin> set (take n bs)
    | _ \<Rightarrow> False)"
proof (induction n)
  case 0
  then show ?case by simp
next
  case (Suc n)
  then have "take (Suc n) bs = take n bs @ [bs ! n]" by (simp add: take_Suc_conv_app_nth)
  with Suc show ?case
    by (auto simp: mem_get_contents split: svn_result.splits option.splits)
qed


text \<open>Both ends stripped, as \<open>svn_stringbuf_strip_whitespace\<close> is meant to do.\<close>

definition rstrip :: "bytes \<Rightarrow> bytes" where
  "rstrip bs = rev (dropWhile apr_isspace (rev bs))"

definition strip :: "bytes \<Rightarrow> bytes" where
  "strip bs = rstrip (dropWhile apr_isspace bs)"

lemma rstrip_at:
  assumes "j < length bs" and "\<not> apr_isspace (bs ! j)" and "\<forall>k. j < k \<and> k < length bs \<longrightarrow> apr_isspace (bs ! k)"
  shows "rstrip bs = take (Suc j) bs"
proof -
  have "\<forall>c \<in> set (drop (Suc j) bs). apr_isspace c"
    using assms(3) by (auto simp: in_set_conv_nth)
  moreover have "bs = take j bs @ bs ! j # drop (Suc j) bs"
    using assms(1) by (simp add: id_take_nth_drop)
  then have "rev bs = rev (drop (Suc j) bs) @ bs ! j # rev (take j bs)"
    by (metis append_assoc append_Cons append_Nil rev.simps(2) rev_append)
  ultimately have "dropWhile apr_isspace (rev bs) = dropWhile apr_isspace (bs ! j # rev (take j bs))"
    using dropWhile_append2 [of "rev (drop (Suc j) bs)" apr_isspace] by (metis set_rev)
  then show ?thesis
    using assms(1,2) by (simp add: rstrip_def take_Suc_conv_app_nth)
qed

lemma sb_strip:
  assumes ok: "sb_ok str" and ns: "\<exists>c \<in> set (sb_contents str). \<not> apr_isspace c"
  shows "\<exists>str'. svn_stringbuf_strip_whitespace str = Ok str' \<and> sb_ok str' \<and> sb_contents str' = strip (sb_contents str)"
proof -
  let ?bs = "sb_contents str"
  define w where "w = length (takeWhile apr_isspace ?bs)"
  define core where "core = dropWhile apr_isspace ?bs"
  have sh: "sb_shape str" by (rule sb_ok_shape [OF ok])
  have l: "length ?bs = unat (sb_len str)" by (rule sb_contents_length [OF sh])
  have ne: "core \<noteq> []" using ns by (simp add: core_def)
  then have "\<not> apr_isspace (hd core)" unfolding core_def by (rule hd_dropWhile)
  moreover have "length ?bs = w + length core"
    unfolding w_def core_def by (metis length_append takeWhile_dropWhile_id)
  moreover have "drop w ?bs = core" unfolding w_def core_def by (rule dropWhile_eq_drop [symmetric])
  ultimately have core: "drop w ?bs = core" "core \<noteq> []" "\<not> apr_isspace (core ! 0)"
      "w + length core = unat (sb_len str)"
    using ne l by (simp_all add: hd_conv_nth)
  define x where "x = drop (unat (sb_len str)) (sb_data str)"
  have d: "sb_data str = map Some ?bs @ x" using sb_split [OF sh] by (simp add: x_def)
  then have d1: "drop w (sb_data str) = map Some core @ x"
    using core(1,4) l by (simp add: drop_map)
  have bl: "unat (sb_len str) + length x = unat (sb_blocksize str)" "0 < length x"
    using sh ok l by (auto simp: sb_shape_def sb_ok_def x_def)
  have fnw: "svn_stringbuf_first_non_whitespace str = Ok (of_nat w)"
    using first_non_whitespace_bytes [of 0 "unat (sb_len str)" ?bs x] ns l
    by (auto simp: svn_stringbuf_first_non_whitespace_def w_def simp flip: d)
  have wu: "unat (of_nat w :: 64 word) = w"
    using core(4) unat_lt64 [of "sb_len str"] by (simp add: unat_of_nat64)
  have lu: "unat (sb_len str - of_nat w) = length core"
    using core(4) wu by (simp add: unat_sub word_le_nat_alt)
  then have lu1: "unat (sb_len str - of_nat w - 1) = length core - 1"
    using core(2) by (simp add: unat_sub word_le_nat_alt Suc_le_eq)
  have "length core - 1 < length core" "\<exists>c \<in> set (take (Suc (length core - 1)) core). \<not> apr_isspace c"
    using core(2,3) by (auto intro!: bexI [of _ "core ! 0"])
  from last_non_whitespace_bytes [OF this] obtain j where
    j: "j \<le> length core - 1" "last_non_whitespace (map Some core @ x) (length core - 1) = Ok (of_nat j)"
      "\<not> apr_isspace (core ! j)" "\<forall>k. j < k \<and> k \<le> length core - 1 \<longrightarrow> apr_isspace (core ! k)" by blast
  then have jl: "j < length core" using core(2) by (simp add: Suc_le_eq flip: length_greater_0_conv)
  have ju: "unat (of_nat j + 1 :: 64 word) = Suc j"
    using jl core(4) unat_lt64 [of "sb_len str"] by (simp add: unat_of_nat64 unat_word_ariths)
  have "\<forall>k. j < k \<and> k < length core \<longrightarrow> apr_isspace (core ! k)"
    using j(4) by auto
  from rstrip_at [OF jl j(3) this] have st: "strip ?bs = take (Suc j) core"
    by (simp add: strip_def flip: core_def)
  let ?y = "map Some core @ x"
  have yl: "Suc j < length ?y" using jl bl(2) by (cases x) simp_all
  have take_y: "take (Suc j) ?y = map Some (take (Suc j) core)" using jl by (simp add: take_map)
  let ?s = "str\<lparr>sb_data := map Some (take (Suc j) core) @ Some NUL # drop (Suc (Suc j)) ?y,
    sb_len := of_nat j + 1, sb_blocksize := sb_blocksize str - of_nat w\<rparr>"
  have set: "mem_set ?y (Suc j) NUL = Ok (map Some (take (Suc j) core) @ Some NUL # drop (Suc (Suc j)) ?y)"
    using yl take_y by (simp only: mem_set_def upd_conv_take_nth_drop if_True)
  have "\<not> length (sb_data str) < w"
    using d core(4) l by simp
  then have "svn_stringbuf_strip_whitespace str = Ok ?s"
    by (simp add: svn_stringbuf_strip_whitespace_def Let_def fnw wu d1 lu1 j(2) ju set
        del: One_nat_def drop_append)
  moreover have "unat (sb_blocksize str - of_nat w) = length core + length x"
    using bl core(4) wu by (simp add: unat_sub word_le_nat_alt)
  then have "sb_ok ?s \<and> sb_contents ?s = take (Suc j) core"
    using jl ju yl by (intro sb_okI [where x = "drop (Suc (Suc j)) ?y"]) simp_all
  ultimately show ?thesis using st by auto
qed


section \<open>Splitting\<close>

text \<open>The pieces of a string between separators.\<close>

fun split_on :: "char \<Rightarrow> bytes \<Rightarrow> bytes list" where
  "split_on sep [] = [[]]"
| "split_on sep (c # cs) =
     (if c = sep then [] # split_on sep cs
      else (case split_on sep cs of [] \<Rightarrow> [] | p # ps \<Rightarrow> (c # p) # ps))"

lemma split_on_nonempty [simp]: "split_on sep cs \<noteq> []"
  by (induction cs) (auto split: list.split)

lemma split_on_prefix: "sep \<notin> set p \<Longrightarrow> split_on sep (p @ cs) = (p @ hd (split_on sep cs)) # tl (split_on sep cs)"
  by (induction p) (auto split: list.split)

lemma split_on_whole: "sep \<notin> set p \<Longrightarrow> split_on sep p = [p]"
  using split_on_prefix [of sep p "[]"] by simp

lemma split_on_sep: "sep \<notin> set p \<Longrightarrow> split_on sep (p @ sep # cs) = p # split_on sep cs"
  using split_on_prefix [of sep p "sep # cs"] by simp

lemma chop_end_rstrip:
  assumes "b < e" and "e \<le> length s" and "\<not> apr_isspace (s ! b)"
  shows "\<exists>e2. chop_end s e = Ok e2 \<and> seg b (e2 - b) s = rstrip (seg b (e - b) s)"
  using assms(1,2)
proof (induction e)
  case (Suc k)
  then have c: "cchar s k = Ok (s ! k)" by (simp add: cchar_def)
  have sg: "seg b (Suc k - b) s = seg b (k - b) s @ [s ! k]"
    using Suc.prems by (auto simp: seg_def Suc_diff_le take_Suc_conv_app_nth)
  show ?case
  proof (cases "apr_isspace (s ! k)")
    case False
    then show ?thesis by (simp add: c sg rstrip_def)
  next
    case True
    then have "b < k" using Suc.prems assms(3) by (cases "b = k") auto
    with Suc True show ?thesis by (simp add: c sg rstrip_def)
  qed
qed simp

definition piece_of :: "bool \<Rightarrow> bytes \<Rightarrow> bytes" where
  "piece_of chop p = (if chop then strip p else p)"

lemma strip_Cons_space: "apr_isspace c \<Longrightarrow> strip (c # p) = strip p"
  by (simp add: strip_def)

lemma strip_nonspace: "p \<noteq> [] \<Longrightarrow> \<not> apr_isspace (p ! 0) \<Longrightarrow> strip p = rstrip p"
  by (cases p) (simp_all add: strip_def)

lemma NUL_not_space: "\<not> apr_isspace NUL"
  by (simp add: apr_isspace_def)

lemma piece_of_seg:
  assumes "b \<le> e" and "e \<le> length s" and "chop \<and> b < e \<longrightarrow> \<not> apr_isspace (s ! b)"
  shows "\<exists>e2. (if chop \<and> b < e then chop_end s e else Ok e) = Ok e2 \<and>
    seg b (e2 - b) s = piece_of chop (seg b (e - b) s)"
proof (cases "chop \<and> b < e")
  case True
  then have "seg b (e - b) s \<noteq> []" "\<not> apr_isspace (seg b (e - b) s ! 0)"
    using assms nth_seg [of b "e - b" s 0] by (auto simp: seg_def)
  with True show ?thesis
    using chop_end_rstrip [of b e s] assms by (auto simp: piece_of_def strip_nonspace)
next
  case False
  then show ?thesis using assms(1) by (auto simp: piece_of_def strip_def rstrip_def)
qed

text \<open>
  Between two iterations \<open>b\<close> is the start of the current piece, the bytes up to \<open>e\<close> belong to
  it, and leading whitespace has been skipped.
\<close>

definition split_inv :: "bytes \<Rightarrow> char \<Rightarrow> bool \<Rightarrow> nat \<Rightarrow> nat \<Rightarrow> bool" where
  "split_inv s sep chop b e \<longleftrightarrow> b \<le> e \<and> e \<le> length s \<and> NUL \<notin> set s \<and> (chop \<longrightarrow> \<not> apr_isspace sep) \<and>
     sep \<notin> set (seg b (e - b) s) \<and> (chop \<and> b < e \<longrightarrow> \<not> apr_isspace (s ! b))"

lemma split_inv_nth: "split_inv s sep chop b e \<Longrightarrow> i < length s \<Longrightarrow> s ! i \<noteq> NUL"
  unfolding split_inv_def by (metis nth_mem)

lemma split_step_skip:
  assumes "split_inv s sep chop b e" and "chop" and "b < length s" and "apr_isspace (s ! b)"
  shows "split_step s sep chop b e acc = Ok (Suc b, Suc b, acc)" and "split_inv s sep chop (Suc b) (Suc b)"
    and "map (piece_of chop) (split_on sep (drop b s)) = map (piece_of chop) (split_on sep (drop (Suc b) s))"
proof -
  have "b = e" using assms by (auto simp: split_inv_def)
  with assms show "split_step s sep chop b e acc = Ok (Suc b, Suc b, acc)"
    by (simp add: split_step_def cchar_def)
  show "split_inv s sep chop (Suc b) (Suc b)" using assms by (auto simp: split_inv_def)
  have "drop b s = s ! b # drop (Suc b) s" "s ! b \<noteq> sep"
    using assms by (auto simp: split_inv_def Cons_nth_drop_Suc)
  then show "map (piece_of chop) (split_on sep (drop b s)) = map (piece_of chop) (split_on sep (drop (Suc b) s))"
    using assms(2,4) by (auto simp: piece_of_def strip_Cons_space split: list.split)
qed

lemma split_step_push:
  assumes inv: "split_inv s sep chop b e" and ns: "\<not> (chop \<and> b < length s \<and> apr_isspace (s ! b))"
    and e: "e = length s \<or> s ! e = sep"
  shows "split_step s sep chop b e acc = Ok (Suc e, Suc e, acc @ [piece_of chop (seg b (e - b) s)])"
proof -
  obtain e2 where "(if chop \<and> b < e then chop_end s e else Ok e) = Ok e2"
    "seg b (e2 - b) s = piece_of chop (seg b (e - b) s)"
    using piece_of_seg [of b e s chop] inv by (auto simp: split_inv_def)
  moreover have "(if chop then cchar s b else Ok NUL) = Ok (if chop \<and> b < length s then s ! b else NUL)"
    using inv by (auto simp: cchar_def split_inv_def)
  moreover have "\<not> (chop \<and> apr_isspace (if chop \<and> b < length s then s ! b else NUL))"
    using ns by (auto simp: NUL_not_space)
  moreover have "cchar s e = Ok (if e = length s then NUL else sep)"
    using inv e by (auto simp: cchar_def split_inv_def)
  ultimately show ?thesis by (simp add: split_step_def)
qed

lemma split_step_next:
  assumes inv: "split_inv s sep chop b e" and ns: "\<not> (chop \<and> b < length s \<and> apr_isspace (s ! b))"
    and e: "e < length s" "s ! e \<noteq> sep"
  shows "split_step s sep chop b e acc = Ok (b, Suc e, acc)" and "split_inv s sep chop b (Suc e)"
proof -
  have "s ! e \<noteq> NUL" using split_inv_nth [OF inv e(1)] .
  moreover have "b < length s" using inv e by (simp add: split_inv_def)
  ultimately show "split_step s sep chop b e acc = Ok (b, Suc e, acc)"
    using ns e by (auto simp: split_step_def cchar_def)
  have "seg b (Suc e - b) s = seg b (e - b) s @ [s ! e]"
    using inv e by (auto simp: split_inv_def seg_def Suc_diff_le take_Suc_conv_app_nth)
  then show "split_inv s sep chop b (Suc e)"
    using inv ns e by (auto simp: split_inv_def)
qed

lemma split_loop_spec:
  "split_inv s sep chop b e \<Longrightarrow> one = (e = length s) \<Longrightarrow>
    split_loop s sep chop b e one acc = Ok (acc @ map (piece_of chop) (split_on sep (drop b s)))"
proof (induction s sep chop b e one acc rule: split_loop.induct)
  case (1 s sep chop b e one acc)
  note inv = "1.prems"(1) and one = "1.prems"(2)
  have last: "(e' = length s \<or> s ! e' = NUL) = (e' = length s)" if "e' \<le> length s" for e'
    using that split_inv_nth [OF inv, of e'] by (auto simp: le_less)
  consider (skip) "chop" "b < length s" "apr_isspace (s ! b)"
    | (push) "\<not> (chop \<and> b < length s \<and> apr_isspace (s ! b))" "e = length s \<or> s ! e = sep"
    | (nxt) "\<not> (chop \<and> b < length s \<and> apr_isspace (s ! b))" "e < length s" "s ! e \<noteq> sep"
    using inv by (auto simp: split_inv_def le_less)
  then show ?case
  proof cases
    case skip
    note st = split_step_skip [OF inv skip]
    have "\<not> one" using one st(2) inv skip by (auto simp: split_inv_def)
    with st skip "1.IH" [OF st(1), of "Suc b" "(Suc b, acc)" "Suc b" acc] last [of "Suc b"] show ?thesis
      by (subst split_loop.simps) (simp add: Suc_le_eq)
  next
    case nxt
    note st = split_step_next [OF inv nxt]
    have "\<not> one" using one nxt by auto
    with st nxt "1.IH" [OF st(1), of b "(Suc e, acc)" "Suc e" acc] last [of "Suc e"] show ?thesis
      by (subst split_loop.simps) (simp add: Suc_le_eq)
  next
    case push
    let ?p = "seg b (e - b) s"
    note st = split_step_push [OF inv push]
    have p: "sep \<notin> set ?p" using inv by (simp add: split_inv_def)
    show ?thesis
    proof (cases "e = length s")
      case True
      then have "drop b s = ?p" by (simp add: seg_def)
      with True st one split_on_whole [OF p] show ?thesis
        by (subst split_loop.simps) simp
    next
      case False
      then have e: "e < length s" "s ! e = sep" using inv push by (auto simp: split_inv_def)
      then have "drop b s = ?p @ sep # drop (Suc e) s"
        using inv append_take_drop_id [of "e - b" "drop b s"] Cons_nth_drop_Suc [OF e(1)]
        by (simp add: seg_def split_inv_def)
      moreover have "split_inv s sep chop (Suc e) (Suc e)"
        using inv e by (auto simp: split_inv_def)
      ultimately show ?thesis
        using False one st e split_on_sep [OF p, of "drop (Suc e) s"] last [of "Suc e"]
          "1.IH" [OF st, of "Suc e" "(Suc e, acc @ [piece_of chop ?p])" "Suc e" "acc @ [piece_of chop ?p]"]
        by (subst split_loop.simps) (simp add: Suc_le_eq)
    qed
  qed
qed


lemma sb_chop_back:
  assumes "sb_ok str" and "length (sb_contents str) \<le> 2 ^ 31"
  shows "if ch \<in> set (sb_contents str) then
      \<exists>p q str'. sb_contents str = p @ ch # q \<and> ch \<notin> set q \<and>
        svn_stringbuf_chop_back_to_char str ch = Ok (of_nat (Suc (length q)), str') \<and>
        sb_ok str' \<and> sb_contents str' = p
    else svn_stringbuf_chop_back_to_char str ch = Ok (0, str)"
proof -
  let ?bs = "sb_contents str" and ?x = "drop (unat (sb_len str)) (sb_data str)"
  have sh: "sb_shape str" by (rule sb_ok_shape [OF assms(1)])
  have l: "length ?bs = unat (sb_len str)" by (rule sb_contents_length [OF sh])
  have "nat (sint (ucast (sb_len str - 1) :: 32 word) + 1) = length ?bs"
    using int_index [of "sb_len str"] assms(2) l by simp
  then have f: "svn_stringbuf_find_char_backward str ch =
      svn_bind (find_backward (map Some ?bs @ ?x) (length ?bs) ch) (\<lambda>r.
        Ok (case r of None \<Rightarrow> sb_len str | Some j \<Rightarrow> of_nat j))"
    using sb_split [OF sh] by (simp add: svn_stringbuf_find_char_backward_def)
  show ?thesis
  proof (cases "ch \<in> set ?bs")
    case False
    then have "find_backward (map Some ?bs @ ?x) (length ?bs) ch = Ok None"
      using find_backward_bytes [where n = "length ?bs" and bs = ?bs and x = ?x and ch = ch] by (auto split: svn_result.splits option.splits)
    with False f show ?thesis by (simp add: svn_stringbuf_chop_back_to_char_def)
  next
    case True
    then obtain j where j: "find_backward (map Some ?bs @ ?x) (length ?bs) ch = Ok (Some j)"
      "j < length ?bs" "?bs ! j = ch" "ch \<notin> set (drop (Suc j) ?bs)"
      using find_backward_bytes [where n = "length ?bs" and bs = ?bs and x = ?x and ch = ch] by (auto split: svn_result.splits option.splits)
    let ?n = "sb_len str - of_nat j"
    have ju: "unat (of_nat j :: 64 word) = j" using j(2) assms(2) by (simp add: unat_of_nat64)
    then have n: "unat ?n = length ?bs - j" using j(2) l by (simp add: unat_sub word_le_nat_alt)
    have lt: "of_nat j < sb_len str" using ju j(2) l by (simp add: word_less_nat_alt)
    obtain str' where s': "svn_stringbuf_chop str ?n = Ok str'" "sb_ok str'"
      "sb_contents str' = take (length ?bs - unat ?n) ?bs" using sb_chop [OF assms(1)] by blast
    have q: "?n = of_nat (Suc (length (drop (Suc j) ?bs)))"
      using n j(2) assms(2) by (simp add: word_unat_eq_iff unat_of_nat64 Suc_diff_Suc del: of_nat_Suc of_nat_diff)
    have "svn_stringbuf_chop_back_to_char str ch = Ok (?n, str')"
      using f j(1) lt s'(1) by (simp add: svn_stringbuf_chop_back_to_char_def Let_def)
    moreover have "?bs = take j ?bs @ ch # drop (Suc j) ?bs"
      using id_take_nth_drop [OF j(2)] j(3) by simp
    moreover have "sb_contents str' = take j ?bs" using s'(3) n j(2) by simp
    ultimately show ?thesis using True s'(2) j(4) q by (simp only: if_True) blast
  qed
qed

section \<open>Routines that append\<close>

text \<open>
  \<open>sb_adds f t\<close>: on a buffer with room in the address space, \<open>f\<close> succeeds and appends \<open>t\<close>;
  \<open>sb_emits f t\<close>: it leaves the buffer null-terminated as well.
\<close>

definition sb_adds :: "(svn_stringbuf_t \<Rightarrow> svn_stringbuf_t svn_result) \<Rightarrow> bytes \<Rightarrow> bool" where
  "sb_adds f t \<longleftrightarrow>
     (\<forall>str. sb_shape str \<and> length (sb_contents str) + length t < 2 ^ 62 \<longrightarrow>
        (\<exists>str'. f str = Ok str' \<and> sb_shape str' \<and> sb_contents str' = sb_contents str @ t))"

definition sb_emits :: "(svn_stringbuf_t \<Rightarrow> svn_stringbuf_t svn_result) \<Rightarrow> bytes \<Rightarrow> bool" where
  "sb_emits f t \<longleftrightarrow>
     (\<forall>str. sb_shape str \<and> length (sb_contents str) + length t < 2 ^ 62 \<longrightarrow>
        (\<exists>str'. f str = Ok str' \<and> sb_ok str' \<and> sb_contents str' = sb_contents str @ t))"

lemma sb_emits_adds: "sb_emits f t \<Longrightarrow> sb_adds f t"
  unfolding sb_emits_def sb_adds_def using sb_ok_shape by blast

lemma sb_adds_bind:
  assumes "sb_adds f t" and "sb_adds g u"
  shows "sb_adds (\<lambda>str. svn_bind (f str) g) (t @ u)"
  unfolding sb_adds_def
proof (intro allI impI)
  fix str assume a: "sb_shape str \<and> length (sb_contents str) + length (t @ u) < 2 ^ 62"
  then obtain s1 where "f str = Ok s1" "sb_shape s1" "sb_contents s1 = sb_contents str @ t"
    using assms(1) by (auto simp: sb_adds_def)
  with a assms(2) show "\<exists>str'. svn_bind (f str) g = Ok str' \<and> sb_shape str' \<and>
      sb_contents str' = sb_contents str @ (t @ u)"
    by (auto simp: sb_adds_def)
qed

lemma sb_emits_bind:
  assumes "sb_adds f t" and "sb_emits g u"
  shows "sb_emits (\<lambda>str. svn_bind (f str) g) (t @ u)"
  unfolding sb_emits_def
proof (intro allI impI)
  fix str assume a: "sb_shape str \<and> length (sb_contents str) + length (t @ u) < 2 ^ 62"
  then obtain s1 where "f str = Ok s1" "sb_shape s1" "sb_contents s1 = sb_contents str @ t"
    using assms(1) by (auto simp: sb_adds_def)
  with a assms(2) show "\<exists>str'. svn_bind (f str) g = Ok str' \<and> sb_ok str' \<and>
      sb_contents str' = sb_contents str @ (t @ u)"
    by (auto simp: sb_emits_def)
qed

lemma sb_emits_appendbytes: "sb_emits (\<lambda>str. svn_stringbuf_appendbytes str bs) bs"
  unfolding sb_emits_def using sb_appendbytes by blast

lemma sb_ok_split:
  assumes "sb_ok str"
  obtains post where "sb_data str = map Some (sb_contents str @ [NUL]) @ post"
proof -
  have "sb_data str = map Some (sb_contents str) @ drop (unat (sb_len str)) (sb_data str)"
    using sb_split [OF sb_ok_shape [OF assms]] by simp
  moreover have "drop (unat (sb_len str)) (sb_data str) = Some NUL # drop (Suc (unat (sb_len str))) (sb_data str)"
    using assms by (simp add: sb_ok_def sb_shape_def Cons_nth_drop_Suc [symmetric])
  ultimately show thesis using that by simp
qed

lemma new_buffer:
  obtains str where "svn_stringbuf_create [] = Ok str" and "sb_ok str" and "sb_contents str = []"
  using sb_ncreate [of "[]"] by (auto simp: svn_stringbuf_create_def)

lemma sb_emitsD:
  assumes "sb_emits f t" and "sb_ok str" and "length (sb_contents str) + length t < 2 ^ 62"
  shows "\<exists>str'. f str = Ok str' \<and> sb_ok str' \<and> sb_contents str' = sb_contents str @ t"
  using assms(1,3) sb_ok_shape [OF assms(2)] unfolding sb_emits_def by blast

section \<open>The properties\<close>

text \<open>
  C30. Appending to a string buffer keeps its invariant, null termination included, never
  writes outside the block, and appends exactly the given bytes, for contents below \<open>2 ^ 62\<close>
  bytes; the buffer may have been left without its null byte by code that stores bytes itself.
\<close>

theorem appendbytes_contents:
  assumes "sb_shape str" and "length (sb_contents str) + length bs < 2 ^ 62"
  shows "\<exists>str'. svn_stringbuf_appendbytes str bs = Ok str' \<and> sb_ok str' \<and>
    sb_contents str' = sb_contents str @ bs"
  using sb_appendbytes [OF assms] .

theorem appendbytes_contents_witness:
  "\<exists>str str'. svn_stringbuf_create ''ab'' = Ok str \<and> svn_stringbuf_appendbytes str ''cdefgh'' = Ok str' \<and>
     sb_ok str' \<and> sb_contents str' = ''abcdefgh''"
proof -
  obtain str where s: "svn_stringbuf_ncreate ''ab'' = Ok str" "sb_ok str" "sb_contents str = ''ab''"
    using sb_ncreate [of "''ab''"] by auto
  then have "sb_shape str" "length (sb_contents str) + length ''cdefgh'' < 2 ^ 62"
    by (simp_all add: sb_ok_def)
  from appendbytes_contents [OF this] s show ?thesis by (auto simp: svn_stringbuf_create_def)
qed

text \<open>
  Stripping removes the whitespace at both ends of a string that has anything else in it,
  and leaves a valid buffer.
\<close>

lemma strip_whitespace_contents:
  assumes "sb_ok str" and "\<exists>c \<in> set (sb_contents str). \<not> apr_isspace c"
  shows "\<exists>str'. svn_stringbuf_strip_whitespace str = Ok str' \<and> sb_ok str' \<and>
    sb_contents str' = strip (sb_contents str)"
  using sb_strip [OF assms] .

text \<open>
  Stripping a string with nothing but whitespace in it, the empty string included, moves
  the data pointer by the offset -1 and leaves the block.
\<close>

lemma strip_whitespace_blank:
  assumes "sb_ok str" and "\<forall>c \<in> set (sb_contents str). apr_isspace c" and "unat (sb_blocksize str) < 2 ^ 63"
  shows "svn_stringbuf_strip_whitespace str = Abort"
proof -
  have sh: "sb_shape str" by (rule sb_ok_shape [OF assms(1)])
  have "svn_stringbuf_first_non_whitespace str = Ok (- 1)"
    using first_non_whitespace_bytes [of 0 "unat (sb_len str)" "sb_contents str" "drop (unat (sb_len str)) (sb_data str)"]
      assms(2) sb_contents_length [OF sh] sb_split [OF sh]
    by (simp add: svn_stringbuf_first_non_whitespace_def)
  moreover have "unat (- 1 :: 64 word) = 2 ^ 64 - 1" by (simp add: unsigned_minus_1_eq_mask mask_eq_exp_minus_1)
  ultimately show ?thesis
    using sh assms(3) by (simp add: svn_stringbuf_strip_whitespace_def sb_shape_def)
qed

text \<open>
  Splitting a C string at a separator gives its pieces in order, stripped when whitespace
  is chopped (with a separator that is not whitespace): the loop ends, never reads outside the
  string and drops no piece.
\<close>

lemma cstring_split_pieces:
  assumes "NUL \<notin> set s" and "chop \<longrightarrow> \<not> apr_isspace sep"
  shows "svn_cstring_split s sep chop = Ok (map (if chop then strip else id) (split_on sep s))"
proof -
  have "split_inv s sep chop 0 0" using assms by (simp add: split_inv_def)
  from split_loop_spec [OF this, of "s = []" "[]"] show ?thesis
    by (auto simp: svn_cstring_split_def piece_of_def [abs_def] fun_eq_iff)
qed

end
