(* ===== verification/Stream_Coder.thy ===== *)
theory Stream_Coder
  imports Svn_String Svn_Stream
begin

text \<open>
  What the base64 and quoted-printable filters of \<open>libsvn_subr\<close> share.  Each of the four is a
  stream whose write handler runs the written bytes through a routine that appends its output
  to a string buffer and keeps a few bytes of state, and then writes the buffer to an inner
  stream.  The locale \<open>stream_coder\<close> is the contract of such a routine, \<open>coder_stream\<close> the
  stream around it; the lemmas about any sequence of writes are proved once here.
\<close>

section \<open>Shared routines\<close>

text \<open>
  The index of the first occurrence of a character in a C string.  The terminating null byte
  is part of the string for \<open>strchr\<close>.
\<close>

fun strchr :: "bytes \<Rightarrow> char \<Rightarrow> nat option" where
  "strchr [] c = (if c = NUL then Some 0 else None)"
| "strchr (x # xs) c = (if x = c then Some 0 else map_option Suc (strchr xs c))"

text \<open>The body the write handlers share: code the data into an empty buffer, write what came out.\<close>

definition coder_write ::
  "('s \<Rightarrow> bytes \<Rightarrow> svn_stringbuf_t \<Rightarrow> (svn_stringbuf_t \<times> 's) svn_result) \<Rightarrow>
   'b svn_stream_t \<Rightarrow> 's \<Rightarrow> bytes \<Rightarrow> ('b svn_stream_t \<times> 's) svn_result"
where
  "coder_write feed out s data =
     svn_bind (svn_stringbuf_create []) (\<lambda>coded.
     svn_bind (feed s data coded) (\<lambda>(coded, s').
       if sb_len coded \<noteq> 0
       then svn_bind (mem_bytes (sb_data coded) (unat (sb_len coded))) (\<lambda>d.
            svn_bind (svn_stream_write out d) (\<lambda>(n, out'). Ok (out', s')))
       else Ok (out, s')))"

text \<open>A sequence of writes to a stream, as its users make them.\<close>

fun stream_writes :: "'b svn_stream_t \<Rightarrow> bytes list \<Rightarrow> 'b svn_stream_t svn_result" where
  "stream_writes s [] = Ok s"
| "stream_writes s (d # ds) = svn_bind (svn_stream_write s d) (\<lambda>(n, s'). stream_writes s' ds)"

text \<open>The output and the last state of a decoder that takes one character at a time.\<close>

fun run_out :: "('s \<Rightarrow> char \<Rightarrow> bytes \<times> 's) \<Rightarrow> 's \<Rightarrow> bytes \<Rightarrow> bytes" where
  "run_out turn st [] = []"
| "run_out turn st (c # p) = fst (turn st c) @ run_out turn (snd (turn st c)) p"

fun run_after :: "('s \<Rightarrow> char \<Rightarrow> bytes \<times> 's) \<Rightarrow> 's \<Rightarrow> bytes \<Rightarrow> 's" where
  "run_after turn st [] = st"
| "run_after turn st (c # p) = run_after turn (snd (turn st c)) p"

lemma run_append:
  "run_out turn st (d @ e) = run_out turn st d @ run_out turn (run_after turn st d) e"
  "run_after turn st (d @ e) = run_after turn (run_after turn st d) e"
  by (induction d arbitrary: st) simp_all

lemma run_after_inv: "(\<And>st c. P st \<Longrightarrow> P (snd (turn st c))) \<Longrightarrow> P st \<Longrightarrow> P (run_after turn st d)"
  by (induction d arbitrary: st) simp_all

lemma strchr_nth: "distinct s \<Longrightarrow> n < length s \<Longrightarrow> strchr s (s ! n) = Some n"
  by (induction s arbitrary: n) (auto simp: nth_Cons split: nat.splits)

lemma strchr_None: "c \<noteq> NUL \<Longrightarrow> c \<notin> set s \<Longrightarrow> strchr s c = None"
  by (induction s) auto

lemma or_plus: "b < 2 ^ k \<Longrightarrow> push_bit k a OR b = a * 2 ^ k + (b :: nat)"
proof -
  assume "b < 2 ^ k"
  then have b: "take_bit k b = b" by (simp add: take_bit_eq_mod)
  have "push_bit k a AND take_bit k b = 0" by (rule bit_eqI) (auto simp: bit_simps)
  then show ?thesis by (simp add: b push_bit_eq_mult disjunctive_add_eq_or [symmetric])
qed

section \<open>The contract of a coder\<close>

text \<open>\<open>outp s d\<close> is what coding \<open>d\<close> in state \<open>s\<close> gives, \<open>after s d\<close> the state it leaves.\<close>

locale stream_coder =
  fixes st_good :: "'s \<Rightarrow> bool"
    and feed :: "'s \<Rightarrow> bytes \<Rightarrow> svn_stringbuf_t \<Rightarrow> (svn_stringbuf_t \<times> 's) svn_result"
    and outp :: "'s \<Rightarrow> bytes \<Rightarrow> bytes"
    and after :: "'s \<Rightarrow> bytes \<Rightarrow> 's"
  assumes feed_good: "st_good s \<Longrightarrow> sb_ok str \<Longrightarrow> length (sb_contents str) + length (outp s d) < 2 ^ 62 \<Longrightarrow>
      \<exists>str'. feed s d str = Ok (str', after s d) \<and> sb_ok str' \<and> sb_contents str' = sb_contents str @ outp s d"
    and after_good: "st_good s \<Longrightarrow> st_good (after s d)"
    and after_Nil: "st_good s \<Longrightarrow> after s [] = s" and outp_Nil: "st_good s \<Longrightarrow> outp s [] = []"
    and after_append: "st_good s \<Longrightarrow> after s (d @ e) = after (after s d) e"
    and outp_append: "st_good s \<Longrightarrow> outp s (d @ e) = outp s d @ outp (after s d) e"
begin

lemma feed_new:
  assumes "st_good s" and "length (outp s d) < 2 ^ 62"
  obtains str str' where "svn_stringbuf_create [] = Ok str"
    and "feed s d str = Ok (str', after s d)" and "sb_ok str'" and "sb_contents str' = outp s d"
proof -
  obtain str where str: "svn_stringbuf_create [] = Ok str" "sb_ok str" "sb_contents str = []"
    by (rule new_buffer)
  with feed_good [OF assms(1) str(2), of d] assms(2) that show thesis by auto
qed

end

locale coder_stream = stream_coder st_good feed outp after + svn_writable wr_ok written
  for st_good :: "'s \<Rightarrow> bool" and feed and outp and after
    and wr_ok :: "'b svn_stream_t \<Rightarrow> bool" and written +
  fixes mk :: "'b svn_stream_t \<Rightarrow> 's \<Rightarrow> 'd svn_stream_t"
  assumes mk_write: "svn_stream_write (mk out s) d =
      svn_bind (coder_write feed out s d) (\<lambda>(out', s'). Ok (length d, mk out' s'))"
begin

lemma coder_write_out:
  assumes "st_good s" and "wr_ok out" and "length (outp s d) < 2 ^ 62"
  obtains out' where "coder_write feed out s d = Ok (out', after s d)" and "wr_ok out'"
    and "written out' = written out @ outp s d"
proof -
  obtain str str' where f: "svn_stringbuf_create [] = Ok str" "feed s d str = Ok (str', after s d)"
    "sb_ok str'" "sb_contents str' = outp s d"
    by (rule feed_new [OF assms(1,3)])
  have len: "unat (sb_len str') = length (outp s d)"
    using f(3,4) sb_contents_length [OF sb_ok_shape [OF f(3)]] by simp
  show thesis
  proof (cases "outp s d = []")
    case True
    with len have "sb_len str' = 0" by (simp add: word_unat_eq_iff)
    with f(1,2) True assms(2) that [of out] show ?thesis by (simp add: coder_write_def)
  next
    case False
    with len have "sb_len str' \<noteq> 0" by (auto simp: word_unat_eq_iff)
    moreover have "mem_bytes (sb_data str') (unat (sb_len str')) = Ok (outp s d)"
      using mem_bytes_contents [OF sb_ok_shape [OF f(3)]] f(4) by simp
    moreover obtain out' where "svn_stream_write out (outp s d) = Ok (length (outp s d), out')"
      "wr_ok out'" "written out' = written out @ outp s d"
      by (rule writeE [OF assms(2)])
    ultimately show ?thesis using f(1,2) that [of out'] by (simp add: coder_write_def)
  qed
qed

text \<open>Any cut of the data into writes gives the same output and the same state.\<close>

lemma writes_out:
  assumes "st_good s" and "wr_ok out" and "length (outp s (concat ds)) < 2 ^ 62"
  shows "\<exists>out'. stream_writes (mk out s) ds = Ok (mk out' (after s (concat ds))) \<and> wr_ok out' \<and>
    written out' = written out @ outp s (concat ds)"
  using assms
proof (induction ds arbitrary: s out)
  case Nil
  then show ?case by (auto simp: after_Nil outp_Nil)
next
  case (Cons d ds)
  have l: "length (outp s d) < 2 ^ 62" "length (outp (after s d) (concat ds)) < 2 ^ 62"
    using Cons.prems(3) outp_append [OF Cons.prems(1), of d "concat ds"] by simp_all
  obtain out1 where w: "coder_write feed out s d = Ok (out1, after s d)" "wr_ok out1"
    "written out1 = written out @ outp s d"
    by (rule coder_write_out [OF Cons.prems(1,2) l(1)])
  from Cons.IH [OF after_good [OF Cons.prems(1)] w(2) l(2)] obtain out2 where
    "stream_writes (mk out1 (after s d)) ds = Ok (mk out2 (after (after s d) (concat ds)))" "wr_ok out2"
    "written out2 = written out1 @ outp (after s d) (concat ds)" by blast
  with w show ?case
    by (auto simp: mk_write outp_append [OF Cons.prems(1)] after_append [OF Cons.prems(1)])
qed

end

end
