(* ===== verification/Base64.thy ===== *)
theory Base64
  imports Stream_Coder
begin

text \<open>
  Base64 (\<open>libsvn_subr/svn_base64.c\<close>): the routines on groups and on blocks of data, the
  encoding and decoding streams, and the routines on whole strings.  The bytes waiting in a
  baton's \<open>buf\<close> are a list, whose length is the field \<open>buflen\<close>.
\<close>

section \<open>Encoding\<close>

definition BASE64_LINELEN :: nat where
  "BASE64_LINELEN = 76"

definition base64tab :: bytes where
  "base64tab = ''ABCDEFGHIJKLMNOPQRSTUVWXYZabcdefghijklmnopqrstuvwxyz0123456789+/''"

definition encode_group :: "bytes \<Rightarrow> bytes" where
  "encode_group inp =
     (let in0 = of_char (inp ! 0) :: nat; in1 = of_char (inp ! 1); in2 = of_char (inp ! 2) in
      [base64tab ! drop_bit 2 in0,
       base64tab ! (push_bit 4 (in0 AND 0x3) OR drop_bit 4 in1),
       base64tab ! (push_bit 2 (in1 AND 0xf) OR drop_bit 6 in2),
       base64tab ! (in2 AND 0x3f)])"

text \<open>\<open>memcpy\<close> with a negative count, for more than three bytes waiting, leaves the model.\<close>

function base64_encode_bytes ::
  "svn_stringbuf_t \<Rightarrow> bytes \<Rightarrow> bytes \<Rightarrow> nat \<Rightarrow> (svn_stringbuf_t \<times> bytes \<times> nat) svn_result"
where
  "base64_encode_bytes str p inbuf linelen =
     (if 3 < length inbuf then Abort
      else if 3 \<le> length inbuf + length p then
        (let n = 3 - length inbuf in
         svn_bind (svn_stringbuf_appendbytes str (encode_group (inbuf @ take n p))) (\<lambda>str.
           if linelen + 4 = BASE64_LINELEN
           then svn_bind (svn_stringbuf_appendcstr str [CHR 0x0A]) (\<lambda>str.
                  base64_encode_bytes str (drop n p) [] 0)
           else base64_encode_bytes str (drop n p) [] (linelen + 4)))
      else Ok (str, inbuf @ p, linelen))"
  by pat_completeness auto
termination
  by (relation "measure (\<lambda>(str, p, inbuf, linelen). length p + length inbuf)") auto

declare base64_encode_bytes.simps [simp del]

text \<open>\<open>len\<close> is \<open>length extra\<close>, which must be below 3.\<close>

definition base64_encode_partial_group ::
  "svn_stringbuf_t \<Rightarrow> bytes \<Rightarrow> nat \<Rightarrow> svn_stringbuf_t svn_result"
where
  "base64_encode_partial_group str extra linelen =
     (let len = length extra in
      if 3 < len then Abort
      else
        svn_bind
          (if 0 < len
           then (let ingroup = extra @ replicate (3 - len) NUL;
                     outgroup = take (len + 1) (encode_group ingroup) @ replicate (4 - (len + 1)) (CHR ''='')
                 in svn_bind (svn_stringbuf_appendbytes str outgroup) (\<lambda>str. Ok (str, linelen + 4)))
           else Ok (str, linelen))
          (\<lambda>(str, linelen).
             if 0 < linelen then svn_stringbuf_appendcstr str [CHR 0x0A] else Ok str))"

record 'b base64_encode_baton =
  e64_output :: "'b svn_stream_t"
  e64_buf :: bytes
  e64_linelen :: nat

abbreviation base64_feed ::
  "bytes \<times> nat \<Rightarrow> bytes \<Rightarrow> svn_stringbuf_t \<Rightarrow> (svn_stringbuf_t \<times> bytes \<times> nat) svn_result"
where
  "base64_feed st data str \<equiv> base64_encode_bytes str data (fst st) (snd st)"

definition base64_encode_data ::
  "'b base64_encode_baton \<Rightarrow> bytes \<Rightarrow> (nat \<times> 'b base64_encode_baton) svn_result"
where
  "base64_encode_data eb data =
     svn_bind (coder_write base64_feed (e64_output eb) (e64_buf eb, e64_linelen eb) data)
       (\<lambda>(out, buf, linelen). Ok (length data, \<lparr>e64_output = out, e64_buf = buf, e64_linelen = linelen\<rparr>))"

definition base64_finish_encoding_data :: "'b base64_encode_baton \<Rightarrow> 'b base64_encode_baton svn_result" where
  "base64_finish_encoding_data eb =
     svn_bind (svn_stringbuf_create []) (\<lambda>encoded.
     svn_bind (base64_encode_partial_group encoded (e64_buf eb) (e64_linelen eb)) (\<lambda>encoded.
     svn_bind
       (if sb_len encoded \<noteq> 0
        then svn_bind (mem_bytes (sb_data encoded) (unat (sb_len encoded))) (\<lambda>d.
             svn_bind (svn_stream_write (e64_output eb) d) (\<lambda>(n, out). Ok out))
        else Ok (e64_output eb)) (\<lambda>out.
     svn_bind (svn_stream_close out) (\<lambda>out. Ok (eb\<lparr>e64_output := out\<rparr>)))))"

definition svn_base64_encode :: "'b svn_stream_t \<Rightarrow> 'b base64_encode_baton svn_stream_t" where
  "svn_base64_encode out =
     svn_stream_set_close
       (svn_stream_set_write
          (svn_stream_create \<lparr>e64_output = out, e64_buf = [], e64_linelen = 0\<rparr>)
          base64_encode_data)
       base64_finish_encoding_data"

definition svn_base64_encode_string :: "svn_stringbuf_t \<Rightarrow> svn_stringbuf_t svn_result" where
  "svn_base64_encode_string str =
     svn_bind (svn_stringbuf_create []) (\<lambda>encoded.
     svn_bind (mem_bytes (sb_data str) (unat (sb_len str))) (\<lambda>data.
     svn_bind (base64_encode_bytes encoded data [] 0) (\<lambda>(encoded, ingroup, linelen).
       base64_encode_partial_group encoded ingroup linelen)))"

section \<open>Decoding\<close>

text \<open>The values waiting are indices into the table; stores into \<open>char\<close> keep the low eight bits.\<close>

definition decode_group :: "nat list \<Rightarrow> bytes" where
  "decode_group inp =
     [char_of (push_bit 2 (inp ! 0) OR drop_bit 4 (inp ! 1)),
      char_of (push_bit 4 (inp ! 1 AND 0xf) OR drop_bit 2 (inp ! 2)),
      char_of (push_bit 6 (inp ! 2 AND 0x3) OR inp ! 3)]"

fun base64_decode_bytes ::
  "svn_stringbuf_t \<Rightarrow> bytes \<Rightarrow> nat list \<Rightarrow> bool \<Rightarrow> (svn_stringbuf_t \<times> nat list \<times> bool) svn_result"
where
  "base64_decode_bytes str [] inbuf finished = Ok (str, inbuf, finished)"
| "base64_decode_bytes str (c # p) inbuf finished =
     (if finished then Ok (str, inbuf, finished)
      else if 4 \<le> length inbuf then Abort
      else if c = CHR ''='' then
        svn_bind
          (if 2 \<le> length inbuf
           then svn_stringbuf_appendbytes str
                  (take (length inbuf - 1) (decode_group (inbuf @ replicate (4 - length inbuf) 0)))
           else Ok str)
          (\<lambda>str. base64_decode_bytes str p inbuf True)
      else
        (let inbuf = (case strchr base64tab c of None \<Rightarrow> inbuf | Some i \<Rightarrow> inbuf @ [i]) in
         if length inbuf = 4
         then svn_bind (svn_stringbuf_appendbytes str (decode_group inbuf)) (\<lambda>str.
                base64_decode_bytes str p [] False)
         else base64_decode_bytes str p inbuf False))"

record 'b base64_decode_baton =
  d64_output :: "'b svn_stream_t"
  d64_buf :: "nat list"
  d64_done :: bool

abbreviation base64_unfeed ::
  "nat list \<times> bool \<Rightarrow> bytes \<Rightarrow> svn_stringbuf_t \<Rightarrow> (svn_stringbuf_t \<times> nat list \<times> bool) svn_result"
where
  "base64_unfeed st data str \<equiv> base64_decode_bytes str data (fst st) (snd st)"

definition base64_decode_data ::
  "'b base64_decode_baton \<Rightarrow> bytes \<Rightarrow> (nat \<times> 'b base64_decode_baton) svn_result"
where
  "base64_decode_data db data =
     svn_bind (coder_write base64_unfeed (d64_output db) (d64_buf db, d64_done db) data)
       (\<lambda>(out, buf, fin). Ok (length data, \<lparr>d64_output = out, d64_buf = buf, d64_done = fin\<rparr>))"

definition base64_finish_decoding_data :: "'b base64_decode_baton \<Rightarrow> 'b base64_decode_baton svn_result" where
  "base64_finish_decoding_data db =
     svn_bind (svn_stream_close (d64_output db)) (\<lambda>out. Ok (db\<lparr>d64_output := out\<rparr>))"

definition svn_base64_decode :: "'b svn_stream_t \<Rightarrow> 'b base64_decode_baton svn_stream_t" where
  "svn_base64_decode out =
     svn_stream_set_close
       (svn_stream_set_write
          (svn_stream_create \<lparr>d64_output = out, d64_buf = [], d64_done = False\<rparr>)
          base64_decode_data)
       base64_finish_decoding_data"

definition svn_base64_decode_string :: "svn_stringbuf_t \<Rightarrow> svn_stringbuf_t svn_result" where
  "svn_base64_decode_string str =
     svn_bind (svn_stringbuf_create []) (\<lambda>decoded.
     svn_bind (mem_bytes (sb_data str) (unat (sb_len str))) (\<lambda>data.
     svn_bind (base64_decode_bytes decoded data [] False) (\<lambda>(decoded, ingroup, fin). Ok decoded)))"

section \<open>What the encoder writes\<close>

text \<open>The groups of four characters with a line end after every nineteenth, by groups of three bytes.\<close>

fun groups_text :: "nat \<Rightarrow> bytes \<Rightarrow> bytes" where
  "groups_text l (a # b # c # p) =
     encode_group [a, b, c] @
     (if l + 4 = BASE64_LINELEN then CHR 0x0A # groups_text 0 p else groups_text (l + 4) p)"
| "groups_text l p = []"

fun groups_rest :: "nat \<Rightarrow> bytes \<Rightarrow> bytes \<times> nat" where
  "groups_rest l (a # b # c # p) = groups_rest (if l + 4 = BASE64_LINELEN then 0 else l + 4) p"
| "groups_rest l p = (p, l)"

definition partial_text :: "bytes \<Rightarrow> nat \<Rightarrow> bytes" where
  "partial_text extra l =
     (if extra = [] then [] else take (length extra + 1) (encode_group (extra @ replicate (3 - length extra) NUL)) @
        replicate (3 - length extra) (CHR ''='')) @
     (if extra = [] \<and> l = 0 then [] else [CHR 0x0A])"

definition base64_text :: "bytes \<Rightarrow> bytes" where
  "base64_text data = groups_text 0 data @ (case groups_rest 0 data of (extra, l) \<Rightarrow> partial_text extra l)"

lemma groups_append:
  "groups_text l (d @ e) = groups_text l d @ groups_text (snd (groups_rest l d)) (fst (groups_rest l d) @ e)"
  "groups_rest l (d @ e) = groups_rest (snd (groups_rest l d)) (fst (groups_rest l d) @ e)"
  by (induction l d rule: groups_text.induct) simp_all

lemma groups_rest_short: "length (fst (groups_rest l d)) < 3"
  by (induction l d rule: groups_rest.induct) simp_all

lemma groups_short: "length d < 3 \<Longrightarrow> groups_text l d = [] \<and> groups_rest l d = (d, l)"
  by (cases "(l, d)" rule: groups_text.cases) simp_all

lemma encode_bytes_text:
  assumes "length inbuf < 3" and "sb_ok str" and "length (sb_contents str) + length (groups_text l (inbuf @ p)) < 2 ^ 62"
  shows "\<exists>str'. base64_encode_bytes str p inbuf l = Ok (str', groups_rest l (inbuf @ p)) \<and> sb_ok str' \<and>
    sb_contents str' = sb_contents str @ groups_text l (inbuf @ p)"
  using assms
proof (induction str p inbuf l rule: base64_encode_bytes.induct)
  case (1 str p inbuf l)
  show ?case
  proof (cases "3 \<le> length inbuf + length p")
    case False
    then show ?thesis using 1 groups_short [of "inbuf @ p" l] by (subst base64_encode_bytes.simps) simp
  next
    case True
    let ?n = "3 - length inbuf"
    have "3 \<le> length (inbuf @ p)" using True by simp
    then obtain a b c q where q: "inbuf @ p = a # b # c # q"
      by (metis Suc_le_length_iff numeral_3_eq_3)
    have "inbuf @ take ?n p = take 3 (inbuf @ p)" "drop ?n p = drop 3 (inbuf @ p)"
      using "1.prems"(1) by simp_all
    then have n: "inbuf @ take ?n p = [a, b, c]" "drop ?n p = q" unfolding q by simp_all
    have g4: "length (encode_group [a, b, c]) = 4" by (simp add: encode_group_def Let_def)
    obtain s1 where s1: "svn_stringbuf_appendbytes str (encode_group [a, b, c]) = Ok s1" "sb_ok s1"
      "sb_contents s1 = sb_contents str @ encode_group [a, b, c]"
      using sb_appendbytes [OF sb_ok_shape [OF "1.prems"(2)], of "encode_group [a, b, c]"] "1.prems"(3) q
      by auto
    show ?thesis
    proof (cases "l + 4 = BASE64_LINELEN")
      case line: True
      obtain s2 where s2: "svn_stringbuf_appendcstr s1 [CHR 0x0A] = Ok s2" "sb_ok s2"
        "sb_contents s2 = sb_contents s1 @ [CHR 0x0A]"
        using sb_appendbytes [OF sb_ok_shape [OF s1(2)], of "[CHR 0x0A]"] "1.prems"(3) q s1(3) line
        by (auto simp: svn_stringbuf_appendcstr_def)
      from "1.IH"(1) [of ?n s2] True line "1.prems" q n s1 s2 show ?thesis
        by (subst base64_encode_bytes.simps) (simp add: Let_def)
    next
      case line: False
      from "1.IH"(2) [of ?n s1] True line "1.prems" q n s1 show ?thesis
        by (subst base64_encode_bytes.simps) (simp add: Let_def)
    qed
  qed
qed

lemma encode_partial_text:
  assumes "length extra < 3" and "sb_ok str" and "length (sb_contents str) + length (partial_text extra l) < 2 ^ 62"
  shows "\<exists>str'. base64_encode_partial_group str extra l = Ok str' \<and> sb_ok str' \<and>
    sb_contents str' = sb_contents str @ partial_text extra l"
proof -
  let ?g = "take (length extra + 1) (encode_group (extra @ replicate (3 - length extra) NUL)) @
        replicate (3 - length extra) (CHR ''='')"
  have nl: "sb_emits (\<lambda>str. svn_stringbuf_appendcstr str [CHR 0x0A]) [CHR 0x0A]"
    by (simp add: svn_stringbuf_appendcstr_def sb_emits_appendbytes)
  consider "extra = []" "l = 0" | "extra = []" "0 < l" | "extra \<noteq> []" by blast
  then show ?thesis
  proof cases
    case 1
    with assms show ?thesis by (simp add: base64_encode_partial_group_def partial_text_def)
  next
    case 2
    with assms nl show ?thesis
      by (auto simp: base64_encode_partial_group_def partial_text_def sb_emits_def dest: sb_ok_shape)
  next
    case 3
    then have t: "partial_text extra l = ?g @ [CHR 0x0A]" by (simp add: partial_text_def)
    from sb_emitsD [OF sb_emits_bind [OF sb_emits_adds [OF sb_emits_appendbytes] nl] assms(2), of ?g] assms(3)
    obtain str' where
      "svn_bind (svn_stringbuf_appendbytes str ?g) (\<lambda>str. svn_stringbuf_appendcstr str [CHR 0x0A]) = Ok str'"
      "sb_ok str'" "sb_contents str' = sb_contents str @ partial_text extra l"
      unfolding t by blast
    with assms(1) 3 show ?thesis
      by (simp add: base64_encode_partial_group_def Let_def svn_bind_assoc)
  qed
qed

section \<open>What the decoder writes\<close>

definition dec_char :: "nat list \<times> bool \<Rightarrow> char \<Rightarrow> bytes \<times> nat list \<times> bool" where
  "dec_char st c =
     (case st of (buf, fin) \<Rightarrow>
      if fin then ([], buf, True)
      else if c = CHR ''='' then
        (if 2 \<le> length buf then take (length buf - 1) (decode_group (buf @ replicate (4 - length buf) 0)) else [],
         buf, True)
      else
        (let buf = (case strchr base64tab c of None \<Rightarrow> buf | Some i \<Rightarrow> buf @ [i]) in
         if length buf = 4 then (decode_group buf, [], False) else ([], buf, False)))"

abbreviation dec_text :: "nat list \<times> bool \<Rightarrow> bytes \<Rightarrow> bytes" where
  "dec_text \<equiv> run_out dec_char"

abbreviation dec_after :: "nat list \<times> bool \<Rightarrow> bytes \<Rightarrow> nat list \<times> bool" where
  "dec_after \<equiv> run_after dec_char"

lemma dec_char_short: "length (fst st) < 4 \<Longrightarrow> length (fst (snd (dec_char st c))) < 4"
  by (auto simp: dec_char_def Let_def split: prod.splits option.splits)

lemma dec_after_short: "length (fst st) < 4 \<Longrightarrow> length (fst (dec_after st d)) < 4"
  by (rule run_after_inv [of "\<lambda>st. length (fst st) < 4"]) (rule dec_char_short)

lemma dec_char_done [simp]: "dec_char (buf, True) c = ([], buf, True)"
  by (simp add: dec_char_def)

lemma dec_done [simp]: "dec_text (buf, True) d = []" "dec_after (buf, True) d = (buf, True)"
  by (induction d) simp_all

lemma decode_bytes_step:
  assumes "length buf < 4" and "dec_char (buf, False) c = (t, buf', fin')"
  shows "base64_decode_bytes str (c # p) buf False =
    svn_bind (if t = [] then Ok str else svn_stringbuf_appendbytes str t) (\<lambda>str. base64_decode_bytes str p buf' fin')"
  using assms by (auto simp: dec_char_def Let_def decode_group_def split: if_splits)

lemma decode_bytes_text:
  assumes "length buf < 4" and "sb_ok str" and "length (sb_contents str) + length (dec_text (buf, fin) d) < 2 ^ 62"
  shows "\<exists>str'. base64_decode_bytes str d buf fin = Ok (str', dec_after (buf, fin) d) \<and> sb_ok str' \<and>
    sb_contents str' = sb_contents str @ dec_text (buf, fin) d"
  using assms
proof (induction d arbitrary: str buf fin)
  case (Cons c p)
  obtain t buf' fin' where st: "dec_char (buf, fin) c = (t, buf', fin')" by (metis surj_pair)
  show ?case
  proof (cases fin)
    case False
    have "\<exists>s1. (if t = [] then Ok str else svn_stringbuf_appendbytes str t) = Ok s1 \<and> sb_ok s1 \<and>
        sb_contents s1 = sb_contents str @ t"
      using sb_emitsD [OF sb_emits_appendbytes Cons.prems(2), of t] Cons.prems(2,3) st by simp
    then obtain s1 where s1: "(if t = [] then Ok str else svn_stringbuf_appendbytes str t) = Ok s1" "sb_ok s1"
        "sb_contents s1 = sb_contents str @ t" by blast
    have short: "length buf' < 4" using dec_char_short [of "(buf, fin)" c] Cons.prems(1) st by simp
    from Cons.IH [OF short s1(2), of fin'] Cons.prems(3) st s1(3)
    show ?thesis
      using decode_bytes_step [OF Cons.prems(1), of c t buf' fin' str p] s1(1) st False by simp
  qed (use Cons.prems in simp)
qed simp

section \<open>Decoding what was encoded\<close>

lemma base64tab_props: "distinct base64tab" "length base64tab = 64" "CHR ''='' \<notin> set base64tab"
  "CHR 0x0A \<notin> set base64tab"
  unfolding base64tab_def by simp_all

lemma dec_char_tab:
  assumes "n < 64" and "length buf < 4"
  shows "dec_char (buf, False) (base64tab ! n) =
    (if length buf = 3 then (decode_group (buf @ [n]), [], False) else ([], buf @ [n], False))"
proof -
  have "base64tab ! n \<noteq> CHR ''=''" using assms(1) base64tab_props(2,3) by (metis nth_mem)
  moreover have "strchr base64tab (base64tab ! n) = Some n"
    using strchr_nth [OF base64tab_props(1)] assms(1) base64tab_props(2) by simp
  ultimately show ?thesis using assms(2) by (simp add: dec_char_def Let_def)
qed

lemma dec_char_newline: "length buf < 4 \<Longrightarrow> dec_char (buf, False) (CHR 0x0A) = ([], buf, False)"
  using strchr_None [OF _ base64tab_props(4)] by (simp add: dec_char_def Let_def)

text \<open>The four indices of a group and the bytes they stand for.\<close>

definition sextets :: "char \<Rightarrow> char \<Rightarrow> char \<Rightarrow> nat list" where
  "sextets a b c =
     (let in0 = of_char a :: nat; in1 = of_char b; in2 = of_char c in
      [in0 div 4, in0 mod 4 * 16 + in1 div 16, in1 mod 16 * 4 + in2 div 64, in2 mod 64])"

lemma and_masks: "n AND 0x3 = n mod (4::nat)" "n AND 0xf = n mod (16::nat)" "n AND 0x3f = n mod (64::nat)"
  using take_bit_eq_mask [of 2 n] take_bit_eq_mask [of 4 n] take_bit_eq_mask [of 6 n]
  by (simp_all add: take_bit_eq_mod mask_eq_exp_minus_1)

lemma encode_group_sextets: "encode_group [a, b, c] = map (\<lambda>i. base64tab ! i) (sextets a b c)"
proof -
  have "of_char b div 16 < (2 ^ 4 :: nat)" "of_char c div 64 < (2 ^ 2 :: nat)" "of_char a < (256 :: nat)"
    by (simp_all add: less_mult_imp_div_less)
  then show ?thesis
    by (simp add: encode_group_def sextets_def Let_def and_masks drop_bit_eq_div or_plus)
qed

lemma sextet_bounds:
  fixes x y :: nat
  assumes "x < 256" and "y < 256"
  shows "x div 4 < 64" "x mod 4 * 16 + y div 16 < 64" "x mod 16 * 4 + y div 64 < 64" "y mod 64 < 64"
  using assms by linarith+

lemmas octet_bounds = sextet_bounds [of "of_char a :: nat" "of_char b :: nat" for a b]

lemma sextets_less: "i \<in> set (sextets a b c) \<Longrightarrow> i < 64"
  using octet_bounds [of a b] octet_bounds [of b c] by (auto simp: sextets_def Let_def)

lemma decode_group_sum:
  assumes "i < 64" and "j < 64" and "k < 64" and "m < 64"
  shows "decode_group [i, j, k, m] =
    [char_of (i * 4 + j div 16), char_of (j mod 16 * 16 + k div 4), char_of (k mod 4 * 64 + m)]"
proof -
  have "j div 16 < 2 ^ 2" "k div 4 < 2 ^ 4" "m < 2 ^ 6" using assms by (simp_all add: less_mult_imp_div_less)
  then show ?thesis by (simp add: decode_group_def drop_bit_eq_div and_masks or_plus)
qed

lemma decode_sextets: "decode_group (sextets a b c) = [a, b, c]"
proof -
  let ?a = "of_char a :: nat" and ?b = "of_char b :: nat" and ?c = "of_char c :: nat"
  have small: "?b div 16 < 16" "?c div 64 < 4" by (simp_all add: less_mult_imp_div_less)
  have "decode_group (sextets a b c) =
     [char_of (?a div 4 * 4 + (?a mod 4 * 16 + ?b div 16) div 16),
      char_of ((?a mod 4 * 16 + ?b div 16) mod 16 * 16 + (?b mod 16 * 4 + ?c div 64) div 4),
      char_of ((?b mod 16 * 4 + ?c div 64) mod 4 * 64 + ?c mod 64)]"
    unfolding sextets_def Let_def by (intro decode_group_sum octet_bounds) simp_all
  also have "?a div 4 * 4 + (?a mod 4 * 16 + ?b div 16) div 16 = ?a" using small by simp
  also have "(?a mod 4 * 16 + ?b div 16) mod 16 * 16 + (?b mod 16 * 4 + ?c div 64) div 4 = ?b"
    using small by simp
  also have "(?b mod 16 * 4 + ?c div 64) mod 4 * 64 + ?c mod 64 = ?c"
    using small by simp
  finally show ?thesis by simp
qed

lemma dec_group:
  "dec_text ([], False) (encode_group [a, b, c]) = [a, b, c]"
  "dec_after ([], False) (encode_group [a, b, c]) = ([], False)"
proof -
  obtain i j k m where s: "sextets a b c = [i, j, k, m]" by (simp add: sextets_def Let_def)
  then have "i < 64" "j < 64" "k < 64" "m < 64" using sextets_less [of _ a b c] by simp_all
  with s decode_sextets [of a b c]
  show "dec_text ([], False) (encode_group [a, b, c]) = [a, b, c]"
    "dec_after ([], False) (encode_group [a, b, c]) = ([], False)"
    by (simp_all add: encode_group_sextets dec_char_tab)
qed

lemma dec_groups:
  "dec_text ([], False) (groups_text l d) @ fst (groups_rest l d) = d"
  "dec_after ([], False) (groups_text l d) = ([], False)"
  by (induction l d rule: groups_text.induct)
     (simp_all add: run_append dec_group dec_char_newline)

lemma dec_partial:
  assumes "length extra < 3"
  shows "dec_text ([], False) (partial_text extra l) = extra"
proof -
  consider "extra = []" | a where "extra = [a]" | a b where "extra = [a, b]"
    using assms by (cases extra; cases "tl extra"; auto)
  then show ?thesis
  proof cases
    case 1
    then show ?thesis by (simp add: partial_text_def dec_char_newline)
  next
    case (2 a)
    obtain i j where s: "sextets a NUL NUL = [i, j, 0, 0]" by (simp add: sextets_def Let_def)
    then have "i < 64" "j < 64" using sextets_less [of _ a NUL NUL] by simp_all
    with 2 s decode_sextets [of a NUL NUL] show ?thesis
      by (simp add: partial_text_def numeral_2_eq_2 encode_group_sextets dec_char_tab dec_char_def [of _ "CHR ''=''"])
  next
    case (3 a b)
    obtain i j k where s: "sextets a b NUL = [i, j, k, 0]" by (simp add: sextets_def Let_def)
    then have "i < 64" "j < 64" "k < 64" using sextets_less [of _ a b NUL] by simp_all
    with 3 s decode_sextets [of a b NUL] show ?thesis
      by (simp add: partial_text_def encode_group_sextets dec_char_tab dec_char_def [of _ "CHR ''=''"])
  qed
qed

lemma dec_base64_text: "dec_text ([], False) (base64_text data) = data"
proof -
  obtain extra l where g: "groups_rest 0 data = (extra, l)" by (metis surj_pair)
  then have "length extra < 3" using groups_rest_short [of 0 data] by simp
  with g dec_groups [of 0 data] show ?thesis
    by (simp add: base64_text_def run_append dec_partial)
qed

lemma groups_text_length: "length (groups_text l d) + 2 * length (fst (groups_rest l d)) \<le> 2 * length d"
  by (induction l d rule: groups_text.induct) (auto simp: encode_group_def Let_def)

lemma base64_text_length: "length (base64_text data) \<le> 2 * length data + 5"
proof -
  obtain extra l where g: "groups_rest 0 data = (extra, l)" by (metis surj_pair)
  then have "length extra < 3" using groups_rest_short [of 0 data] by simp
  then have "length (partial_text extra l) \<le> 5" by (simp add: partial_text_def encode_group_def Let_def)
  with g groups_text_length [of 0 data] show ?thesis by (simp add: base64_text_def)
qed

lemma base64_text_fits: "length data < 2 ^ 60 \<Longrightarrow> length (base64_text data) < 2 ^ 62"
  using base64_text_length [of data] by simp

section \<open>The streams\<close>

definition encode_stream :: "'b svn_stream_t \<Rightarrow> bytes \<times> nat \<Rightarrow> 'b base64_encode_baton svn_stream_t" where
  "encode_stream out st =
     (svn_base64_encode out)\<lparr>baton := \<lparr>e64_output = out, e64_buf = fst st, e64_linelen = snd st\<rparr>\<rparr>"

definition decode_stream :: "'b svn_stream_t \<Rightarrow> nat list \<times> bool \<Rightarrow> 'b base64_decode_baton svn_stream_t" where
  "decode_stream out st =
     (svn_base64_decode out)\<lparr>baton := \<lparr>d64_output = out, d64_buf = fst st, d64_done = snd st\<rparr>\<rparr>"

interpretation enc64: stream_coder
  "\<lambda>st. length (fst st) < 3" base64_feed
  "\<lambda>st d. groups_text (snd st) (fst st @ d)" "\<lambda>st d. groups_rest (snd st) (fst st @ d)"
proof unfold_locales
  fix st :: "bytes \<times> nat" and str d
  assume "length (fst st) < 3" "sb_ok str" "length (sb_contents str) + length (groups_text (snd st) (fst st @ d)) < 2 ^ 62"
  then show "\<exists>str'. base64_feed st d str = Ok (str', groups_rest (snd st) (fst st @ d)) \<and> sb_ok str' \<and>
      sb_contents str' = sb_contents str @ groups_text (snd st) (fst st @ d)"
    by (rule encode_bytes_text)
next
  fix st :: "bytes \<times> nat" and d e
  show "groups_rest (snd st) (fst st @ d @ e) =
      groups_rest (snd (groups_rest (snd st) (fst st @ d))) (fst (groups_rest (snd st) (fst st @ d)) @ e)"
    using groups_append(2) [of "snd st" "fst st @ d" e] by simp
  show "groups_text (snd st) (fst st @ d @ e) = groups_text (snd st) (fst st @ d) @
      groups_text (snd (groups_rest (snd st) (fst st @ d))) (fst (groups_rest (snd st) (fst st @ d)) @ e)"
    using groups_append(1) [of "snd st" "fst st @ d" e] by simp
qed (simp_all add: groups_rest_short groups_short)

interpretation dec64: stream_coder "\<lambda>st. length (fst st) < 4" base64_unfeed dec_text dec_after
proof unfold_locales
  fix st :: "nat list \<times> bool" and str d
  assume "length (fst st) < 4" "sb_ok str" "length (sb_contents str) + length (dec_text st d) < 2 ^ 62"
  then show "\<exists>str'. base64_unfeed st d str = Ok (str', dec_after st d) \<and> sb_ok str' \<and>
      sb_contents str' = sb_contents str @ dec_text st d"
    using decode_bytes_text [of "fst st" str "snd st" d] by simp
qed (simp_all add: dec_after_short run_append)

lemmas base64_stream_defs = encode_stream_def decode_stream_def svn_base64_encode_def svn_base64_decode_def
  stream_defs svn_stream_set_close_def base64_encode_data_def base64_decode_data_def

interpretation enc64_stdio: coder_stream
  "\<lambda>st. length (fst st) < 3" base64_feed
  "\<lambda>st d. groups_text (snd st) (fst st @ d)" "\<lambda>st d. groups_rest (snd st) (fst st @ d)"
  stdio_ok "\<lambda>s. fp_out (baton s)" encode_stream
  by unfold_locales
     (simp add: base64_stream_defs svn_bind_assoc case_prod_beta split_def)

interpretation dec64_stdio: coder_stream
  "\<lambda>st. length (fst st) < 4" base64_unfeed dec_text dec_after
  stdio_ok "\<lambda>s. fp_out (baton s)" decode_stream
  by unfold_locales
     (simp add: base64_stream_defs svn_bind_assoc case_prod_beta split_def)

lemma encode_stream_init: "svn_base64_encode out = encode_stream out ([], 0)"
  "decode_stream out ([], False) = svn_base64_decode out"
  by (simp_all add: base64_stream_defs)

lemma finish_encoding:
  assumes "stdio_ok out" and "length buf < 3"
  shows "\<exists>s. svn_stream_close (encode_stream out (buf, l)) = Ok s \<and>
    fp_out (baton (e64_output (baton s))) = fp_out (baton out) @ partial_text buf l"
proof -
  obtain str where str: "svn_stringbuf_create [] = Ok str" "sb_ok str" "sb_contents str = []"
    by (rule new_buffer)
  have "length (partial_text buf l) < 2 ^ 62"
    using assms(2) by (simp add: partial_text_def encode_group_def Let_def)
  with encode_partial_text [OF assms(2) str(2), of l] str(3) obtain e where
    e: "base64_encode_partial_group str buf l = Ok e" "sb_ok e" "sb_contents e = partial_text buf l" by auto
  have len: "unat (sb_len e) = length (partial_text buf l)"
    using e(3) sb_contents_length [OF sb_ok_shape [OF e(2)]] by simp
  have d: "mem_bytes (sb_data e) (unat (sb_len e)) = Ok (partial_text buf l)"
    using mem_bytes_contents [OF sb_ok_shape [OF e(2)]] e(3) by simp
  obtain out1 where w: "svn_stream_write out (partial_text buf l) = Ok (length (partial_text buf l), out1)"
    "stdio_ok out1" "fp_out (baton out1) = fp_out (baton out) @ partial_text buf l"
    by (rule stdio_out.writeE [OF assms(1)])
  have c: "\<exists>s'. svn_stream_close s = Ok s' \<and> fp_out (baton s') = fp_out (baton s)" if "stdio_ok s" for s
    using stdio_out.close_ok [OF that] .
  show ?thesis
  proof (cases "partial_text buf l = []")
    case True
    with len have "sb_len e = 0" by (simp add: word_unat_eq_iff)
    with True c [OF assms(1)] str(1) e(1) show ?thesis
      by (auto simp: base64_stream_defs base64_finish_encoding_data_def)
  next
    case False
    with len have "sb_len e \<noteq> 0" by (auto simp: word_unat_eq_iff)
    with c [OF w(2)] w(1,3) d str(1) e(1) show ?thesis
      by (auto simp: base64_stream_defs base64_finish_encoding_data_def)
  qed
qed

section \<open>The properties\<close>

text \<open>
  C33. Data written to the base64 encoder in any pieces reaches the inner stream as the base64
  text of the whole, and that text written to the decoder in any pieces reaches its inner
  stream as the data: neither stream adds, drops or reorders a byte at the cuts.
\<close>

theorem base64_streams:
  assumes "healthy_file wire" and "healthy_file out" and "length (concat cs) < 2 ^ 60"
  shows "\<exists>es. svn_bind (stream_writes (svn_base64_encode (svn_stream_from_stdio wire)) cs) svn_stream_close = Ok es \<and>
    fp_out (baton (e64_output (baton es))) = fp_out wire @ base64_text (concat cs) \<and>
    (\<forall>ds. concat ds = base64_text (concat cs) \<longrightarrow>
      (\<exists>s. svn_bind (stream_writes (svn_base64_decode (svn_stream_from_stdio out)) ds) svn_stream_close = Ok s \<and>
        fp_out (baton (d64_output (baton s))) = fp_out out @ concat cs))"
proof -
  let ?t = "base64_text (concat cs)" and ?w = "svn_stream_from_stdio wire" and ?o = "svn_stream_from_stdio out"
  obtain buf l where g: "groups_rest 0 (concat cs) = (buf, l)" by (metis surj_pair)
  have t: "?t = groups_text 0 (concat cs) @ partial_text buf l" by (simp add: base64_text_def g)
  have "length ?t < 2 ^ 62" by (rule base64_text_fits [OF assms(3)])
  then have "length (groups_text 0 (concat cs)) < 2 ^ 62" by (simp add: t)
  then obtain w1 where w1: "stream_writes (encode_stream ?w ([], 0)) cs = Ok (encode_stream w1 (buf, l))"
    "stdio_ok w1" "fp_out (baton w1) = fp_out wire @ groups_text 0 (concat cs)"
    using enc64_stdio.writes_out [of "([], 0)" ?w cs] assms(1) g by auto
  have "length buf < 3" using groups_rest_short [of 0 "concat cs"] g by simp
  from finish_encoding [OF w1(2) this, of l] obtain es where
    es: "svn_stream_close (encode_stream w1 (buf, l)) = Ok es" "fp_out (baton (e64_output (baton es))) = fp_out wire @ ?t"
    using w1(3) t by auto
  have "\<exists>s. svn_bind (stream_writes (svn_base64_decode ?o) ds) svn_stream_close = Ok s \<and>
      fp_out (baton (d64_output (baton s))) = fp_out out @ concat cs" if ds: "concat ds = ?t" for ds
  proof -
    have "length (dec_text ([], False) (concat ds)) < 2 ^ 62" using ds assms(3) by (simp add: dec_base64_text)
    then obtain o1 where "stream_writes (svn_base64_decode ?o) ds = Ok (decode_stream o1 (dec_after ([], False) ?t))"
      "stdio_ok o1" "fp_out (baton o1) = fp_out out @ concat cs"
      using dec64_stdio.writes_out [of "([], False)" ?o ds] assms(2) ds
      by (auto simp: dec_base64_text encode_stream_init)
    with stdio_out.close_ok [of o1] show ?thesis
      by (auto simp: base64_stream_defs base64_finish_decoding_data_def)
  qed
  with w1(1) es show ?thesis by (simp add: encode_stream_init(1))
qed

theorem base64_streams_witness:
  "\<exists>es. svn_bind (stream_writes (svn_base64_encode (svn_stream_from_stdio (file_of [] []))) [''M'', ''an!'']) svn_stream_close = Ok es \<and>
    fp_out (baton (e64_output (baton es))) = ''TWFuIQ==\<newline>''"
proof -
  have "base64_text ''Man!'' = ''TWFuIQ==\<newline>''" by code_simp
  with base64_streams [of "file_of [] []" "file_of [] []" "[''M'', ''an!'']"] show ?thesis by auto
qed

text \<open>
  A string encoded and decoded is the same string, null bytes included.
\<close>

lemma base64_string_roundtrip:
  assumes "sb_ok str" and "length (sb_contents str) < 2 ^ 60"
  shows "\<exists>enc dec. svn_base64_encode_string str = Ok enc \<and> sb_ok enc \<and>
    sb_contents enc = base64_text (sb_contents str) \<and>
    svn_base64_decode_string enc = Ok dec \<and> sb_ok dec \<and> sb_contents dec = sb_contents str"
proof -
  let ?d = "sb_contents str"
  have d: "mem_bytes (sb_data str) (unat (sb_len str)) = Ok ?d"
    by (rule mem_bytes_contents [OF sb_ok_shape [OF assms(1)]])
  obtain s0 where s0: "svn_stringbuf_create [] = Ok s0" "sb_ok s0" "sb_contents s0 = []"
    by (rule new_buffer)
  obtain buf l where g: "groups_rest 0 ?d = (buf, l)" by (metis surj_pair)
  have t: "base64_text ?d = groups_text 0 ?d @ partial_text buf l" by (simp add: base64_text_def g)
  have tl: "length (base64_text ?d) < 2 ^ 62" by (rule base64_text_fits [OF assms(2)])
  obtain s1 where s1: "base64_encode_bytes s0 ?d [] 0 = Ok (s1, buf, l)" "sb_ok s1" "sb_contents s1 = groups_text 0 ?d"
    using encode_bytes_text [OF _ s0(2), of "[]" 0 ?d] s0(3) tl t g by auto
  have "length buf < 3" using groups_rest_short [of 0 ?d] g by simp
  from encode_partial_text [OF this s1(2), of l] tl t s1(3) obtain enc where
    enc: "base64_encode_partial_group s1 buf l = Ok enc" "sb_ok enc" "sb_contents enc = base64_text ?d" by auto
  have "mem_bytes (sb_data enc) (unat (sb_len enc)) = Ok (base64_text ?d)"
    using mem_bytes_contents [OF sb_ok_shape [OF enc(2)]] enc(3) by simp
  moreover obtain dec where "base64_decode_bytes s0 (base64_text ?d) [] False = Ok (dec, dec_after ([], False) (base64_text ?d))" "sb_ok dec"
    "sb_contents dec = ?d"
    using decode_bytes_text [OF _ s0(2), of "[]" False "base64_text ?d"] s0(3) assms(2) by (auto simp: dec_base64_text)
  ultimately show ?thesis using d s0(1) s1(1) enc
    by (simp add: svn_base64_encode_string_def svn_base64_decode_string_def split: prod.splits)
qed

end
