(* ===== verification/Quoprint.thy ===== *)
theory Quoprint
  imports Stream_Coder
begin

text \<open>
  Quoted-printable (\<open>libsvn_subr/quoprint.c\<close>): the encoder and the decoder, as streams and on
  whole strings.  The decoder's loop reads one byte beyond its data; the data is a block of
  memory here, so that the read is seen.
\<close>

section \<open>Encoding\<close>

definition QUOPRINT_LINELEN :: nat where
  "QUOPRINT_LINELEN = 76"

definition VALID_LITERAL :: "char \<Rightarrow> bool" where
  "VALID_LITERAL c \<longleftrightarrow> c = CHR 0x09 \<or> (32 \<le> schar c \<and> schar c \<le> 126 \<and> c \<noteq> CHR ''='')"

definition ENCODE_AS_LITERAL :: "char \<Rightarrow> bool" where
  "ENCODE_AS_LITERAL c \<longleftrightarrow> VALID_LITERAL c \<and> c \<noteq> CHR 0x09 \<and> c \<noteq> CHR ''<'' \<and> c \<noteq> CHR ''>'' \<and>
     c \<noteq> CHR 0x27 \<and> c \<noteq> CHR 0x22 \<and> c \<noteq> CHR ''&''"

definition hextab :: bytes where
  "hextab = ''0123456789ABCDEF''"

text \<open>The shift of a negative \<open>char\<close> is arithmetic.\<close>

definition quote_char :: "char \<Rightarrow> bytes" where
  "quote_char c =
     [CHR ''='', hextab ! nat (drop_bit 4 (schar c) AND 0xf), hextab ! nat (schar c AND 0xf)]"

fun quoprint_encode_bytes :: "svn_stringbuf_t \<Rightarrow> bytes \<Rightarrow> nat \<Rightarrow> (svn_stringbuf_t \<times> nat) svn_result" where
  "quoprint_encode_bytes str [] linelen = Ok (str, linelen)"
| "quoprint_encode_bytes str (c # p) linelen =
     svn_bind
       (if ENCODE_AS_LITERAL c
        then svn_bind (svn_stringbuf_appendbytes str [c]) (\<lambda>str. Ok (str, linelen + 1))
        else svn_bind (svn_stringbuf_appendbytes str (quote_char c)) (\<lambda>str. Ok (str, linelen + 3)))
       (\<lambda>(str, linelen).
          if QUOPRINT_LINELEN < linelen + 3
          then svn_bind (svn_stringbuf_appendcstr str [CHR ''='', CHR 0x0A]) (\<lambda>str.
                 quoprint_encode_bytes str p 0)
          else quoprint_encode_bytes str p linelen)"

record 'b quoprint_encode_baton =
  eqp_output :: "'b svn_stream_t"
  eqp_linelen :: nat

abbreviation quoprint_feed :: "nat \<Rightarrow> bytes \<Rightarrow> svn_stringbuf_t \<Rightarrow> (svn_stringbuf_t \<times> nat) svn_result" where
  "quoprint_feed linelen data str \<equiv> quoprint_encode_bytes str data linelen"

definition quoprint_encode_data ::
  "'b quoprint_encode_baton \<Rightarrow> bytes \<Rightarrow> (nat \<times> 'b quoprint_encode_baton) svn_result"
where
  "quoprint_encode_data eb data =
     svn_bind (coder_write quoprint_feed (eqp_output eb) (eqp_linelen eb) data)
       (\<lambda>(out, linelen). Ok (length data, \<lparr>eqp_output = out, eqp_linelen = linelen\<rparr>))"

definition quoprint_finish_encoding_data :: "'b quoprint_encode_baton \<Rightarrow> 'b quoprint_encode_baton svn_result" where
  "quoprint_finish_encoding_data eb =
     svn_bind
       (if 0 < eqp_linelen eb
        then svn_bind (svn_stream_write (eqp_output eb) [CHR ''='', CHR 0x0A]) (\<lambda>(n, out). Ok out)
        else Ok (eqp_output eb)) (\<lambda>out.
     svn_bind (svn_stream_close out) (\<lambda>out. Ok (eb\<lparr>eqp_output := out\<rparr>)))"

definition svn_quoprint_encode :: "'b svn_stream_t \<Rightarrow> 'b quoprint_encode_baton svn_stream_t" where
  "svn_quoprint_encode out =
     svn_stream_set_close
       (svn_stream_set_write (svn_stream_create \<lparr>eqp_output = out, eqp_linelen = 0\<rparr>) quoprint_encode_data)
       quoprint_finish_encoding_data"

definition svn_quoprint_encode_string :: "svn_stringbuf_t \<Rightarrow> svn_stringbuf_t svn_result" where
  "svn_quoprint_encode_string str =
     svn_bind (svn_stringbuf_create []) (\<lambda>encoded.
     svn_bind (mem_bytes (sb_data str) (unat (sb_len str))) (\<lambda>data.
     svn_bind (quoprint_encode_bytes encoded data 0) (\<lambda>(encoded, linelen).
       if 0 < linelen then svn_stringbuf_appendcstr encoded [CHR ''='', CHR 0x0A] else Ok encoded)))"

section \<open>Decoding\<close>

text \<open>One turn of the loop, on the byte read; three bytes fit into \<open>inbuf\<close>.\<close>

definition quoprint_decode_turn ::
  "svn_stringbuf_t \<Rightarrow> char \<Rightarrow> bytes \<Rightarrow> (svn_stringbuf_t \<times> bytes) svn_result"
where
  "quoprint_decode_turn str c buf =
     (if 3 \<le> length buf then Abort
      else
        (let inbuf = buf @ [c] in
         if inbuf ! 0 \<noteq> CHR ''='' then
           svn_bind (if VALID_LITERAL (inbuf ! 0) then svn_stringbuf_appendbytes str [inbuf ! 0] else Ok str)
             (\<lambda>str. Ok (str, []))
         else if length inbuf = 2 \<and> inbuf ! 1 = CHR 0x0A then Ok (str, [])
         else if length inbuf = 3 then
           svn_bind
             (case (strchr hextab (inbuf ! 1), strchr hextab (inbuf ! 2)) of
                (Some find1, Some find2) \<Rightarrow>
                  svn_stringbuf_appendbytes str [char_of (push_bit 4 find1 OR find2)]
              | _ \<Rightarrow> Ok str)
             (\<lambda>str. Ok (str, []))
         else Ok (str, inbuf)))"

text \<open>\<open>quoprint_decode_loop str data p n buf\<close>: \<open>n\<close> turns, from index \<open>p\<close> on; the loop makes \<open>len + 1\<close>.\<close>

fun quoprint_decode_loop ::
  "svn_stringbuf_t \<Rightarrow> mem \<Rightarrow> nat \<Rightarrow> nat \<Rightarrow> bytes \<Rightarrow> (svn_stringbuf_t \<times> bytes) svn_result"
where
  "quoprint_decode_loop str data p 0 buf = Ok (str, buf)"
| "quoprint_decode_loop str data p (Suc n) buf =
     svn_bind (mem_get data p) (\<lambda>c.
     svn_bind (quoprint_decode_turn str c buf) (\<lambda>(str, buf).
       quoprint_decode_loop str data (Suc p) n buf))"

definition quoprint_decode_bytes ::
  "svn_stringbuf_t \<Rightarrow> mem \<Rightarrow> nat \<Rightarrow> bytes \<Rightarrow> (svn_stringbuf_t \<times> bytes) svn_result"
where
  "quoprint_decode_bytes str data len buf = quoprint_decode_loop str data 0 (len + 1) buf"

record 'b quoprint_decode_baton =
  dqp_output :: "'b svn_stream_t"
  dqp_buf :: bytes

text \<open>A write handler is given exactly the bytes of the write.\<close>

definition quoprint_decode_data ::
  "'b quoprint_decode_baton \<Rightarrow> bytes \<Rightarrow> (nat \<times> 'b quoprint_decode_baton) svn_result"
where
  "quoprint_decode_data db data =
     svn_bind
       (coder_write (\<lambda>buf d str. quoprint_decode_bytes str (map Some d) (length d) buf)
          (dqp_output db) (dqp_buf db) data)
       (\<lambda>(out, buf). Ok (length data, \<lparr>dqp_output = out, dqp_buf = buf\<rparr>))"

definition quoprint_finish_decoding_data :: "'b quoprint_decode_baton \<Rightarrow> 'b quoprint_decode_baton svn_result" where
  "quoprint_finish_decoding_data db =
     svn_bind (svn_stream_close (dqp_output db)) (\<lambda>out. Ok (db\<lparr>dqp_output := out\<rparr>))"

definition svn_quoprint_decode :: "'b svn_stream_t \<Rightarrow> 'b quoprint_decode_baton svn_stream_t" where
  "svn_quoprint_decode out =
     svn_stream_set_close
       (svn_stream_set_write (svn_stream_create \<lparr>dqp_output = out, dqp_buf = []\<rparr>) quoprint_decode_data)
       quoprint_finish_decoding_data"

definition svn_quoprint_decode_string :: "svn_stringbuf_t \<Rightarrow> svn_stringbuf_t svn_result" where
  "svn_quoprint_decode_string str =
     svn_bind (svn_stringbuf_create []) (\<lambda>decoded.
     svn_bind (quoprint_decode_bytes decoded (sb_data str) (unat (sb_len str)) []) (\<lambda>(decoded, ingroup).
       Ok decoded))"

section \<open>What the encoder writes\<close>

definition char_text :: "char \<Rightarrow> bytes" where
  "char_text c = (if ENCODE_AS_LITERAL c then [c] else quote_char c)"

abbreviation soft_break :: bytes where
  "soft_break \<equiv> [CHR ''='', CHR 0x0A]"

fun line_text :: "nat \<Rightarrow> bytes \<Rightarrow> bytes" where
  "line_text l [] = []"
| "line_text l (c # p) =
     (let l' = l + length (char_text c) in
      char_text c @ (if QUOPRINT_LINELEN < l' + 3 then soft_break @ line_text 0 p else line_text l' p))"

fun line_len :: "nat \<Rightarrow> bytes \<Rightarrow> nat" where
  "line_len l [] = l"
| "line_len l (c # p) =
     (let l' = l + length (char_text c) in if QUOPRINT_LINELEN < l' + 3 then line_len 0 p else line_len l' p)"

definition quoprint_text :: "bytes \<Rightarrow> bytes" where
  "quoprint_text d = line_text 0 d @ (if 0 < line_len 0 d then soft_break else [])"

lemma length_quote_char [simp]: "length (quote_char c) = 3"
  by (simp add: quote_char_def)

lemma line_append:
  "line_text l (d @ e) = line_text l d @ line_text (line_len l d) e"
  "line_len l (d @ e) = line_len (line_len l d) e"
  by (induction l d rule: line_text.induct) (simp_all add: Let_def)

lemma encode_turn:
  "sb_emits (\<lambda>str. svn_bind (svn_stringbuf_appendbytes str (char_text c)) (\<lambda>str. svn_stringbuf_appendcstr str soft_break))
     (char_text c @ soft_break)"
  unfolding svn_stringbuf_appendcstr_def
  by (rule sb_emits_bind [OF sb_emits_adds [OF sb_emits_appendbytes] sb_emits_appendbytes])

lemma encode_bytes_Cons:
  "quoprint_encode_bytes str (c # p) l =
    (let l' = l + length (char_text c) in
     if QUOPRINT_LINELEN < l' + 3
     then svn_bind (svn_bind (svn_stringbuf_appendbytes str (char_text c)) (\<lambda>str. svn_stringbuf_appendcstr str soft_break))
            (\<lambda>str. quoprint_encode_bytes str p 0)
     else svn_bind (svn_stringbuf_appendbytes str (char_text c)) (\<lambda>str. quoprint_encode_bytes str p l'))"
  by (simp add: char_text_def Let_def svn_bind_assoc)

lemma quoprint_bytes_text:
  assumes "sb_ok str" and "length (sb_contents str) + length (line_text l d) < 2 ^ 62"
  shows "\<exists>str'. quoprint_encode_bytes str d l = Ok (str', line_len l d) \<and> sb_ok str' \<and>
    sb_contents str' = sb_contents str @ line_text l d"
  using assms
proof (induction d arbitrary: str l)
  case (Cons c p)
  let ?l = "l + length (char_text c)"
  show ?case
  proof (cases "QUOPRINT_LINELEN < ?l + 3")
    case True
    obtain s1 where s1: "svn_bind (svn_stringbuf_appendbytes str (char_text c))
        (\<lambda>str. svn_stringbuf_appendcstr str soft_break) = Ok s1" "sb_ok s1"
      "sb_contents s1 = sb_contents str @ char_text c @ soft_break"
      using sb_emitsD [OF encode_turn Cons.prems(1), of c] Cons.prems(2) True by (auto simp: Let_def)
    then show ?thesis using Cons.IH [of s1 0] Cons.prems(2) True
      by (simp add: encode_bytes_Cons Let_def del: quoprint_encode_bytes.simps)
  next
    case False
    obtain s1 where s1: "svn_stringbuf_appendbytes str (char_text c) = Ok s1" "sb_ok s1"
      "sb_contents s1 = sb_contents str @ char_text c"
      using sb_emitsD [OF sb_emits_appendbytes Cons.prems(1), of "char_text c"] Cons.prems(2) False by (auto simp: Let_def)
    then show ?thesis using Cons.IH [of s1 ?l] Cons.prems(2) False
      by (simp add: encode_bytes_Cons Let_def del: quoprint_encode_bytes.simps)
  qed
qed simp

section \<open>What the decoder writes\<close>

definition qp_char :: "bytes \<Rightarrow> char \<Rightarrow> bytes \<times> bytes" where
  "qp_char buf c =
     (let inbuf = buf @ [c] in
      if inbuf ! 0 \<noteq> CHR ''='' then (if VALID_LITERAL (inbuf ! 0) then [inbuf ! 0] else [], [])
      else if length inbuf = 2 \<and> inbuf ! 1 = CHR 0x0A then ([], [])
      else if length inbuf = 3 then
        (case (strchr hextab (inbuf ! 1), strchr hextab (inbuf ! 2)) of
           (Some i, Some j) \<Rightarrow> ([char_of (push_bit 4 i OR j)], [])
         | _ \<Rightarrow> ([], []))
      else ([], inbuf))"

lemma qp_char_short: "length buf < 3 \<Longrightarrow> length (snd (qp_char buf c)) < 3"
  by (auto simp: qp_char_def Let_def split: option.splits)

lemma decode_turn_step:
  assumes "length buf < 3" and "qp_char buf c = (t, buf')"
  shows "quoprint_decode_turn str c buf =
    svn_bind (if t = [] then Ok str else svn_stringbuf_appendbytes str t) (\<lambda>str. Ok (str, buf'))"
  using assms by (auto simp: qp_char_def quoprint_decode_turn_def Let_def split: if_splits option.splits)

lemma decode_loop_text:
  assumes "length buf < 3" and "sb_ok str" and "length (sb_contents str) + length (run_out qp_char buf t) < 2 ^ 62"
    and "data = pre @ map Some t @ post"
  shows "\<exists>str'. quoprint_decode_loop str data (length pre) (length t) buf = Ok (str', run_after qp_char buf t) \<and>
    sb_ok str' \<and> sb_contents str' = sb_contents str @ run_out qp_char buf t"
  using assms
proof (induction t arbitrary: str buf pre)
  case (Cons c t)
  obtain o1 buf' where q: "qp_char buf c = (o1, buf')" by (metis surj_pair)
  have "\<exists>s1. (if o1 = [] then Ok str else svn_stringbuf_appendbytes str o1) = Ok s1 \<and> sb_ok s1 \<and>
      sb_contents s1 = sb_contents str @ o1"
    using sb_emitsD [OF sb_emits_appendbytes Cons.prems(2), of o1] Cons.prems(2,3) q by simp
  then obtain s1 where s1: "quoprint_decode_turn str c buf = Ok (s1, buf')" "sb_ok s1"
    "sb_contents s1 = sb_contents str @ o1"
    using decode_turn_step [OF Cons.prems(1) q] by auto
  have "mem_get data (length pre) = Ok c" using Cons.prems(4) by (simp add: mem_get_def)
  moreover have "length buf' < 3" using qp_char_short [OF Cons.prems(1), of c] q by simp
  ultimately show ?case using Cons.IH [of buf' s1 "pre @ [Some c]"] s1 Cons.prems(3,4) q by simp
qed simp

section \<open>Decoding what was encoded\<close>

lemma hextab_props: "distinct hextab" "length hextab = 16" "CHR 0x0A \<notin> set hextab"
  unfolding hextab_def by simp_all

lemma nibble_shift:
  fixes y :: int
  assumes "0 \<le> y" and "y < 256"
  shows "y div 16 mod 16 = y div 16" "(y - 256) div 16 mod 16 = y div 16" "(y - 256) mod 16 = y mod 16"
proof -
  have d: "(y - 256) div 16 = y div 16 - 16" by linarith
  have "0 \<le> y div 16" "y div 16 < 16" using assms by linarith+
  then show "y div 16 mod 16 = y div 16" "(y - 256) div 16 mod 16 = y div 16"
    unfolding d by (simp_all add: mod_diff_right_eq [symmetric])
  show "(y - 256) mod 16 = y mod 16" by presburger
qed

lemma nibbles: "nat (drop_bit 4 (schar c) AND 0xf) = of_char c div 16" "nat (schar c AND 0xf) = of_char c mod 16"
proof -
  have m: "n AND 0xf = n mod (16::int)" for n
    using take_bit_eq_mask [of 4 n] by (simp add: take_bit_eq_mod mask_eq_exp_minus_1)
  define x :: nat where "x = of_char c"
  have x: "x < 256" by (simp add: x_def)
  have xi: "of_char c = int x" by (simp add: x_def of_nat_of_char)
  have s: "schar c = (if x < 128 then int x else int x - 256)"
    using xi by (simp add: schar_def)
  have "schar c div 16 mod 16 = int (x div 16)" "schar c mod 16 = int (x mod 16)"
    using x nibble_shift [of "int x"] unfolding s by (simp_all add: zdiv_int zmod_int)
  then show "nat (drop_bit 4 (schar c) AND 0xf) = of_char c div 16" "nat (schar c AND 0xf) = of_char c mod 16"
    by (simp_all add: m drop_bit_eq_div x_def [symmetric] del: of_nat_of_char)
qed

lemma hex_digit: "i < 16 \<Longrightarrow> strchr hextab (hextab ! i) = Some i \<and> hextab ! i \<noteq> CHR 0x0A"
  using strchr_nth [OF hextab_props(1), of i] hextab_props(2,3) nth_mem [of i hextab] by metis

lemma qp_char_text:
  "run_out qp_char [] (char_text c) = [c]" "run_after qp_char [] (char_text c) = []"
proof -
  let ?h = "of_char c div 16 :: nat" and ?l = "of_char c mod 16 :: nat"
  have l: "?l < 2 ^ 4" "?h < 16" by (simp_all add: less_mult_imp_div_less)
  have "char_of (push_bit 4 ?h OR ?l) = c" unfolding or_plus [OF l(1)] by simp
  moreover have "quote_char c = [CHR ''='', hextab ! ?h, hextab ! ?l]" by (simp add: quote_char_def nibbles)
  ultimately have "run_out qp_char [] (quote_char c) = [c] \<and> run_after qp_char [] (quote_char c) = []"
    using hex_digit [OF l(2)] hex_digit [of ?l] by (simp add: qp_char_def)
  then show "run_out qp_char [] (char_text c) = [c]" "run_after qp_char [] (char_text c) = []"
    by (auto simp: char_text_def qp_char_def ENCODE_AS_LITERAL_def VALID_LITERAL_def)
qed

lemma qp_soft_break: "run_out qp_char [] soft_break = []" "run_after qp_char [] soft_break = []"
  by (simp_all add: qp_char_def)

lemma qp_line_text: "run_out qp_char [] (line_text l d) = d" "run_after qp_char [] (line_text l d) = []"
  by (induction l d rule: line_text.induct)
     (simp_all add: Let_def run_append qp_char_text qp_soft_break del: run_out.simps(2) run_after.simps(2) append_Cons)

lemma qp_quoprint_text: "run_out qp_char [] (quoprint_text d) = d" "run_after qp_char [] (quoprint_text d) = []"
  by (simp_all add: quoprint_text_def run_append qp_line_text qp_soft_break del: run_out.simps(2) run_after.simps(2))

section \<open>Lines\<close>

lemma char_text_no_newline: "CHR 0x0A \<notin> set (char_text c)"
proof -
  have "of_char c div 16 < (16 :: nat)" by (simp add: less_mult_imp_div_less)
  then have "CHR 0x0A \<notin> set (quote_char c)"
    using hex_digit [of "of_char c div 16"] hex_digit [of "of_char c mod 16"]
    unfolding quote_char_def nibbles by auto
  moreover have "\<not> ENCODE_AS_LITERAL (CHR 0x0A)"
    by (simp add: ENCODE_AS_LITERAL_def VALID_LITERAL_def schar_def)
  ultimately show ?thesis by (auto simp: char_text_def)
qed

lemma char_text_length: "length (char_text c) \<le> 3"
  by (simp add: char_text_def)

lemma line_text_lines:
  assumes "CHR 0x0A \<notin> set pre" and "length pre \<le> 73"
    and "ln \<in> set (split_on (CHR 0x0A) (pre @ line_text (length pre) d @ (if 0 < line_len (length pre) d then soft_break else [])))"
  shows "length ln \<le> 77"
  using assms
proof (induction d arbitrary: pre)
  case Nil
  have "CHR 0x0A \<notin> set (pre @ ''='')" using Nil.prems(1) by simp
  from split_on_sep [OF this, of "[]"] split_on_whole [OF Nil.prems(1)] Nil.prems(2,3) show ?case
    by (auto split: if_splits)
next
  case (Cons c p)
  let ?l = "length pre + length (char_text c)"
  have nl: "CHR 0x0A \<notin> set (pre @ char_text c)" "CHR 0x0A \<notin> set (pre @ char_text c @ ''='')"
    using Cons.prems(1) char_text_no_newline [of c] by simp_all
  show ?case
  proof (cases "QUOPRINT_LINELEN < ?l + 3")
    case True
    with Cons.prems(3) split_on_sep [OF nl(2), of "line_text 0 p @ (if 0 < line_len 0 p then soft_break else [])"]
    have "ln = pre @ char_text c @ ''='' \<or>
        ln \<in> set (split_on (CHR 0x0A) (line_text 0 p @ (if 0 < line_len 0 p then soft_break else [])))"
      by (simp add: Let_def)
    then show ?thesis using Cons.IH [of "[]"] Cons.prems(2) char_text_length [of c] by auto
  next
    case False
    then show ?thesis using Cons.IH [OF nl(1)] Cons.prems(3) by (simp add: Let_def QUOPRINT_LINELEN_def)
  qed
qed

lemma quoprint_text_lines: "ln \<in> set (split_on (CHR 0x0A) (quoprint_text d)) \<Longrightarrow> length ln \<le> 77"
  using line_text_lines [of "[]" ln d] by (simp add: quoprint_text_def)

lemma line_text_length: "length (line_text l d) \<le> 5 * length d"
proof (induction l d rule: line_text.induct)
  case (2 l c p)
  with char_text_length [of c] show ?case by (auto simp: Let_def)
qed simp

lemma quoprint_text_fits: "length d < 2 ^ 58 \<Longrightarrow> length (quoprint_text d) < 2 ^ 62"
  using line_text_length [of 0 d] by (simp add: quoprint_text_def)

section \<open>Strings and streams\<close>

lemma encode_string_text:
  assumes "sb_ok str" and "length (sb_contents str) < 2 ^ 58"
  shows "\<exists>enc. svn_quoprint_encode_string str = Ok enc \<and> sb_ok enc \<and> sb_contents enc = quoprint_text (sb_contents str)"
proof -
  let ?d = "sb_contents str"
  obtain s0 where s0: "svn_stringbuf_create [] = Ok s0" "sb_ok s0" "sb_contents s0 = []" by (rule new_buffer)
  have d: "mem_bytes (sb_data str) (unat (sb_len str)) = Ok ?d"
    by (rule mem_bytes_contents [OF sb_ok_shape [OF assms(1)]])
  have fits: "length (quoprint_text ?d) < 2 ^ 62" by (rule quoprint_text_fits [OF assms(2)])
  then obtain s1 where s1: "quoprint_encode_bytes s0 ?d 0 = Ok (s1, line_len 0 ?d)" "sb_ok s1"
    "sb_contents s1 = line_text 0 ?d"
    using quoprint_bytes_text [OF s0(2), of 0 ?d] s0(3) by (auto simp: quoprint_text_def)
  show ?thesis
  proof (cases "0 < line_len 0 ?d")
    case True
    with fits s1(3) have "length (sb_contents s1) + length soft_break < 2 ^ 62" by (simp add: quoprint_text_def)
    from sb_emitsD [OF sb_emits_appendbytes s1(2) this] True s0(1) d s1 show ?thesis
      by (auto simp: svn_quoprint_encode_string_def svn_stringbuf_appendcstr_def quoprint_text_def)
  next
    case False
    with s0(1) d s1 show ?thesis by (simp add: svn_quoprint_encode_string_def quoprint_text_def)
  qed
qed

text \<open>
  C36. A string encoded as quoted-printable and decoded is the same string: the byte the decoder
  reads beyond the text is the null byte after a string buffer, which it drops.
\<close>

theorem quoprint_string_roundtrip:
  assumes "sb_ok str" and "length (sb_contents str) < 2 ^ 58"
  shows "\<exists>enc dec. svn_quoprint_encode_string str = Ok enc \<and> sb_ok enc \<and>
    svn_quoprint_decode_string enc = Ok dec \<and> sb_ok dec \<and> sb_contents dec = sb_contents str"
proof -
  let ?d = "sb_contents str"
  obtain enc where enc: "svn_quoprint_encode_string str = Ok enc" "sb_ok enc" "sb_contents enc = quoprint_text ?d"
    using encode_string_text [OF assms] by blast
  obtain post where post: "sb_data enc = map Some (quoprint_text ?d @ [NUL]) @ post"
    using sb_ok_split [OF enc(2)] enc(3) by metis
  obtain s0 where s0: "svn_stringbuf_create [] = Ok s0" "sb_ok s0" "sb_contents s0 = []" by (rule new_buffer)
  have n: "length (quoprint_text ?d @ [NUL]) = unat (sb_len enc) + 1"
    using sb_contents_length [OF sb_ok_shape [OF enc(2)]] enc(3) by simp
  have "run_out qp_char [] (quoprint_text ?d @ [NUL]) = ?d"
    by (simp add: run_append qp_quoprint_text) (simp add: qp_char_def VALID_LITERAL_def schar_def)
  with decode_loop_text [of "[]" s0 "quoprint_text ?d @ [NUL]" "sb_data enc" "[]" post] s0 post assms(2) n
  show ?thesis using enc(1,2) by (auto simp: svn_quoprint_decode_string_def quoprint_decode_bytes_def)
qed

theorem quoprint_string_roundtrip_witness:
  "\<exists>str enc dec. svn_stringbuf_ncreate ''a<=b'' = Ok str \<and> svn_quoprint_encode_string str = Ok enc \<and>
    svn_quoprint_decode_string enc = Ok dec \<and> sb_contents dec = ''a<=b''"
proof -
  obtain str where str: "svn_stringbuf_ncreate ''a<=b'' = Ok str" "sb_ok str" "sb_contents str = ''a<=b''"
    using sb_ncreate [of "''a<=b''"] by auto
  with quoprint_string_roundtrip [OF str(2)] show ?thesis by auto
qed

text \<open>
  No line of the encoder's output is longer than 77 characters.  The bound is one more than
  \<open>QUOPRINT_LINELEN\<close> and is reached: the check leaves out the \<open>=\<close> of the soft line break.
\<close>

lemma quoprint_line_bound:
  assumes "sb_ok str" and "length (sb_contents str) < 2 ^ 58" and "svn_quoprint_encode_string str = Ok enc"
    and "ln \<in> set (split_on (CHR 0x0A) (sb_contents enc))"
  shows "length ln \<le> QUOPRINT_LINELEN + 1"
proof -
  have "sb_contents enc = quoprint_text (sb_contents str)" using encode_string_text [OF assms(1,2)] assms(3) by auto
  with assms(4) quoprint_text_lines show ?thesis by (simp add: QUOPRINT_LINELEN_def)
qed

interpretation enc_qp: stream_coder "\<lambda>l. True" quoprint_feed line_text line_len
  by unfold_locales (simp_all add: quoprint_bytes_text line_append)

definition quoprint_stream :: "'b svn_stream_t \<Rightarrow> nat \<Rightarrow> 'b quoprint_encode_baton svn_stream_t" where
  "quoprint_stream out l = (svn_quoprint_encode out)\<lparr>baton := \<lparr>eqp_output = out, eqp_linelen = l\<rparr>\<rparr>"

lemmas quoprint_stream_defs = quoprint_stream_def svn_quoprint_encode_def svn_quoprint_decode_def
  stream_defs svn_stream_set_close_def quoprint_encode_data_def quoprint_decode_data_def

interpretation enc_qp_stdio: coder_stream
  "\<lambda>l. True" quoprint_feed line_text line_len stdio_ok "\<lambda>s. fp_out (baton s)" quoprint_stream
  by unfold_locales (simp add: quoprint_stream_defs svn_bind_assoc case_prod_beta split_def)

text \<open>
  Data written to the quoted-printable encoder in any pieces reaches the inner stream as
  the same text the routine on strings gives for the whole.
\<close>

lemma quoprint_encode_stream:
  assumes "healthy_file wire" and "sb_ok str" and "concat cs = sb_contents str" and "length (sb_contents str) < 2 ^ 58"
  shows "\<exists>enc es. svn_quoprint_encode_string str = Ok enc \<and>
    svn_bind (stream_writes (svn_quoprint_encode (svn_stream_from_stdio wire)) cs) svn_stream_close = Ok es \<and>
    fp_out (baton (eqp_output (baton es))) = fp_out wire @ sb_contents enc"
proof -
  let ?d = "sb_contents str" and ?w = "svn_stream_from_stdio wire"
  obtain enc where enc: "svn_quoprint_encode_string str = Ok enc" "sb_contents enc = quoprint_text ?d"
    using encode_string_text [OF assms(2,4)] by blast
  have "length (line_text 0 ?d) < 2 ^ 62" using quoprint_text_fits [OF assms(4)] by (simp add: quoprint_text_def)
  with assms(1,3) obtain w1 where w1: "stream_writes (quoprint_stream ?w 0) cs = Ok (quoprint_stream w1 (line_len 0 ?d))"
    "stdio_ok w1" "fp_out (baton w1) = fp_out wire @ line_text 0 ?d"
    using enc_qp_stdio.writes_out [where s = 0 and out = ?w and ds = cs] by auto
  have init: "quoprint_stream ?w 0 = svn_quoprint_encode ?w" by (simp add: quoprint_stream_defs)
  have "\<exists>es. svn_stream_close (quoprint_stream w1 l) = Ok es \<and> fp_out (baton (eqp_output (baton es))) =
      fp_out (baton w1) @ (if 0 < l then soft_break else [])" for l
  proof (cases "0 < l")
    case True
    obtain w2 where w2: "svn_stream_write w1 soft_break = Ok (length soft_break, w2)" "stdio_ok w2"
      "fp_out (baton w2) = fp_out (baton w1) @ soft_break" by (rule stdio_out.writeE [OF w1(2)])
    with stdio_out.close_ok [OF w2(2)] True show ?thesis
      by (auto simp: quoprint_stream_defs quoprint_finish_encoding_data_def)
  next
    case False
    with stdio_out.close_ok [OF w1(2)] show ?thesis
      by (auto simp: quoprint_stream_defs quoprint_finish_encoding_data_def)
  qed
  from this [of "line_len 0 ?d"] w1(1,3) enc init show ?thesis by (auto simp: quoprint_text_def)
qed

lemma qp_out_length: "length (run_out qp_char buf t) \<le> length t"
proof (induction t arbitrary: buf)
  case (Cons c t)
  have "length (fst (qp_char buf c)) \<le> 1" by (auto simp: qp_char_def Let_def split: option.splits)
  with Cons [of "snd (qp_char buf c)"] show ?case by simp
qed simp

lemma decode_loop_end:
  "quoprint_decode_loop str data p (n + m) buf =
    svn_bind (quoprint_decode_loop str data p n buf) (\<lambda>(str, buf). quoprint_decode_loop str data (p + n) m buf)"
  by (induction n arbitrary: str p buf) (simp_all add: svn_bind_assoc case_prod_beta')

text \<open>
  The decoding stream reads the byte after the data of every write: a write of exactly the
  bytes at hand leaves the memory it was given.
\<close>

lemma quoprint_decode_overread:
  assumes "length d < 2 ^ 60"
  shows "svn_stream_write (svn_quoprint_decode out) d = Abort"
proof -
  obtain s0 where s0: "svn_stringbuf_create [] = Ok s0" "sb_ok s0" "sb_contents s0 = []" by (rule new_buffer)
  obtain s1 buf where "quoprint_decode_loop s0 (map Some d) 0 (length d) [] = Ok (s1, buf)"
    using decode_loop_text [of "[]" s0 d "map Some d" "[]" "[]"] s0 assms order_le_less_trans [OF qp_out_length [of "[]" d], of "2 ^ 60"]
    by auto
  then have "quoprint_decode_bytes s0 (map Some d) (length d) [] = Abort"
    unfolding quoprint_decode_bytes_def decode_loop_end by (simp add: mem_get_def)
  with s0(1) show ?thesis by (simp add: quoprint_stream_defs coder_write_def)
qed

end
