(* ===== verification/Svn_Path.thy ===== *)
theory Svn_Path
  imports Svn_String
begin

text \<open>
  Paths (\<open>libsvn_subr/path.c\<close>, the routines on components).  Paths in string buffers are
  changed in place, with every read and store checked against the block; C strings are byte
  lists without their null byte.
\<close>

section \<open>Canonical paths\<close>

abbreviation SVN_PATH_SEPARATOR :: char where
  "SVN_PATH_SEPARATOR \<equiv> CHR ''/''"

function svn_path_canonicalize :: "svn_stringbuf_t \<Rightarrow> svn_stringbuf_t svn_result" where
  "svn_path_canonicalize path =
     (if 0 < sb_len path then
        svn_bind (mem_get (sb_data path) (unat (sb_len path - 1))) (\<lambda>c.
          if c = SVN_PATH_SEPARATOR then
            svn_bind (mem_set (sb_data path) (unat (sb_len path - 1)) NUL) (\<lambda>d.
              svn_path_canonicalize (path\<lparr>sb_data := d, sb_len := sb_len path - 1\<rparr>))
          else Ok path)
      else Ok path)"
  by pat_completeness auto
termination
  by (relation "measure (\<lambda>path. unat (sb_len path))")
     (auto simp: unat_sub word_le_nat_alt word_less_nat_alt)

declare svn_path_canonicalize.simps [simp del]

text \<open>The local separator is set by the build; the loop runs to the null byte.\<close>

function convert_seps :: "char \<Rightarrow> char \<Rightarrow> mem \<Rightarrow> nat \<Rightarrow> mem svn_result" where
  "convert_seps old new data i =
     (if i < length data then
        (case data ! i of
           None \<Rightarrow> Abort
         | Some c \<Rightarrow>
             if c = NUL then Ok data
             else convert_seps old new (if c = old then data[i := Some new] else data) (Suc i))
      else Abort)"
  by pat_completeness auto
termination
  by (relation "measure (\<lambda>(old, new, data, i). length data - i)") auto

declare convert_seps.simps [simp del]

definition svn_path_internal_style :: "char \<Rightarrow> svn_stringbuf_t \<Rightarrow> svn_stringbuf_t svn_result" where
  "svn_path_internal_style local_sep path =
     svn_bind
       (if SVN_PATH_SEPARATOR \<noteq> local_sep
        then svn_bind (convert_seps local_sep SVN_PATH_SEPARATOR (sb_data path) 0) (\<lambda>d. Ok (path\<lparr>sb_data := d\<rparr>))
        else Ok path)
       svn_path_canonicalize"

definition svn_path_local_style :: "char \<Rightarrow> svn_stringbuf_t \<Rightarrow> svn_stringbuf_t svn_result" where
  "svn_path_local_style local_sep path =
     svn_bind (svn_path_canonicalize path) (\<lambda>path.
       if SVN_PATH_SEPARATOR \<noteq> local_sep
       then svn_bind (convert_seps SVN_PATH_SEPARATOR local_sep (sb_data path) 0) (\<lambda>d. Ok (path\<lparr>sb_data := d\<rparr>))
       else Ok path)"

section \<open>Joining\<close>

definition svn_path_join :: "bytes \<Rightarrow> bytes \<Rightarrow> bytes" where
  "svn_path_join base component =
     (if base = [] \<or> (component \<noteq> [] \<and> component ! 0 = CHR ''/'') then component
      else if component = [] then base
      else
        (let blen = (if base ! (length base - 1) = CHR ''/'' then length base - 1 else length base) in
         take blen base @ CHR ''/'' # component))"

definition MAX_SAVED_LENGTHS :: nat where
  "MAX_SAVED_LENGTHS = 10"

text \<open>The length of a component without one trailing slash.\<close>

definition component_len :: "bytes \<Rightarrow> nat" where
  "component_len s =
     (let len = length s in if 1 < len \<and> s ! (len - 1) = CHR ''/'' then len - 1 else len)"

record join_state =
  saved_lengths :: "nat list"
  total_len :: nat
  base_arg :: nat
  base_is_root :: bool

text \<open>The first pass over the arguments; a store into \<open>saved_lengths\<close> past its end aborts.\<close>

fun join_measure :: "join_state \<Rightarrow> nat \<Rightarrow> bytes list \<Rightarrow> join_state svn_result" where
  "join_measure st nargs [] = Ok st"
| "join_measure st nargs (s # va) =
     (let len = component_len s; nargs' = nargs + 1 in
      svn_bind
        (if nargs < MAX_SAVED_LENGTHS
         then if nargs' < MAX_SAVED_LENGTHS then Ok (st\<lparr>saved_lengths := (saved_lengths st)[nargs' := len]\<rparr>) else Abort
         else Ok st)
        (\<lambda>st.
           if len = 0 then
             join_measure (if total_len st = 0 then st\<lparr>base_arg := nargs' + 1\<rparr> else st) nargs' va
           else if s ! 0 = CHR ''/'' then
             join_measure (st\<lparr>total_len := len, base_arg := nargs', base_is_root := (len = 1)\<rparr>) nargs' va
           else if nargs' = base_arg st \<or> (nargs' = base_arg st + 1 \<and> base_is_root st) then
             join_measure (st\<lparr>total_len := total_len st + len\<rparr>) nargs' va
           else
             join_measure (st\<lparr>total_len := total_len st + (1 + len)\<rparr>) nargs' va))"

text \<open>The second pass; \<open>path\<close> is what has been stored, in a block of \<open>total_len + 1\<close> bytes.\<close>

definition join_store :: "join_state \<Rightarrow> bytes \<Rightarrow> bytes \<Rightarrow> bytes svn_result" where
  "join_store st path bs = (if length path + length bs \<le> total_len st + 1 then Ok (path @ bs) else Abort)"

fun join_copy :: "join_state \<Rightarrow> nat \<Rightarrow> bytes list \<Rightarrow> bytes \<Rightarrow> bytes svn_result" where
  "join_copy st nargs [] path = Ok path"
| "join_copy st nargs (s # va) path =
     (let nargs' = nargs + 1 in
      if nargs' < base_arg st then join_copy st nargs' va path
      else
        (let len = (if nargs' < MAX_SAVED_LENGTHS then saved_lengths st ! nargs' else component_len s) in
         if len = 0 then join_copy st nargs' va path
         else
           svn_bind (if path \<noteq> [] \<and> last path \<noteq> CHR ''/'' then join_store st path [CHR ''/''] else Ok path) (\<lambda>path.
           svn_bind (join_store st path (take len s)) (\<lambda>path.
             join_copy st nargs' va path))))"

definition svn_path_join_many :: "bytes \<Rightarrow> bytes list \<Rightarrow> bytes svn_result" where
  "svn_path_join_many base va =
     (let len0 = length base in
      if len0 = 0 then Abort
      else
        (let slash = (base ! (len0 - 1) = CHR ''/'');
             root = (slash \<and> len0 = 1);
             total = (if slash \<and> len0 \<noteq> 1 then len0 - 1 else len0);
             st0 = \<lparr>saved_lengths = (replicate MAX_SAVED_LENGTHS 0)[0 := total], total_len = total,
                    base_arg = 0, base_is_root = root\<rparr> in
         svn_bind (join_measure st0 0 va) (\<lambda>st.
           if base_is_root st \<and> total_len st = 1 then Ok ''/''
           else
             svn_bind (if base_arg st = 0 then join_store st [] (take (saved_lengths st ! 0) base) else Ok []) (\<lambda>path.
             svn_bind (join_copy st 0 va path) (\<lambda>path.
             svn_bind (join_store st path [NUL]) (\<lambda>_.
               if length path = total_len st then Ok path else Abort))))))"

section \<open>Joining many is joining one by one\<close>

definition trim1 :: "bytes \<Rightarrow> bytes" where
  "trim1 s = take (component_len s) s"

definition tidy :: "bytes \<Rightarrow> bool" where
  "tidy s \<longleftrightarrow> s \<noteq> [] \<and> (\<forall>p. s \<noteq> p @ ''//'')"

lemma trim1_eq: "trim1 s = (if 1 < length s \<and> last s = CHR ''/'' then butlast s else s)"
proof (cases "s = []")
  case False
  then show ?thesis by (simp add: trim1_def component_len_def Let_def last_conv_nth butlast_conv_take)
qed (simp add: trim1_def)

lemma length_trim1 [simp]: "length (trim1 s) = component_len s"
  by (simp add: trim1_def component_len_def Let_def)

lemma trim1_hd: "s \<noteq> [] \<Longrightarrow> trim1 s \<noteq> [] \<and> hd (trim1 s) = s ! 0"
  by (cases s) (auto simp: trim1_eq)

lemma tidy_trim1:
  assumes "tidy s"
  shows "trim1 s \<noteq> []" and "last (trim1 s) = CHR ''/'' \<longleftrightarrow> s = ''/''"
proof -
  show "trim1 s \<noteq> []" using assms trim1_hd by (simp add: tidy_def)
  show "last (trim1 s) = CHR ''/'' \<longleftrightarrow> s = ''/''"
  proof (cases "1 < length s \<and> last s = CHR ''/''")
    case True
    then obtain u where u: "s = u @ ''/''" by (cases s rule: rev_cases) auto
    with True obtain t c where "u = t @ [c]" by (cases u rule: rev_cases) auto
    with u assms have "c \<noteq> CHR ''/''" by (auto simp: tidy_def)
    with u \<open>u = t @ [c]\<close> True show ?thesis by (auto simp: trim1_eq butlast_append)
  next
    case False
    with assms show ?thesis by (cases s rule: rev_cases) (auto simp: trim1_eq tidy_def)
  qed
qed

text \<open>One step on trimmed paths.\<close>

definition jstep :: "bytes \<Rightarrow> bytes \<Rightarrow> bytes" where
  "jstep acc s = (if hd s = CHR ''/'' then s else if last acc = CHR ''/'' then acc @ s else acc @ CHR ''/'' # s)"

lemma join_trim1:
  assumes "tidy p" and "tidy s"
  shows "tidy (svn_path_join p s)" and "trim1 (svn_path_join p s) = jstep (trim1 p) (trim1 s)"
proof -
  have ne: "p \<noteq> []" "s \<noteq> []" using assms by (auto simp: tidy_def)
  have j: "svn_path_join p s = (if s ! 0 = CHR ''/'' then s
      else (if last p = CHR ''/'' then butlast p else p) @ CHR ''/'' # s)"
    using ne by (simp add: svn_path_join_def last_conv_nth butlast_conv_take)
  have h: "hd (trim1 s) = s ! 0" using trim1_hd [OF ne(2)] by simp
  show "tidy (svn_path_join p s)"
  proof (cases "s ! 0 = CHR ''/''")
    case False
    have "X @ CHR ''/'' # s \<noteq> q @ ''//''" for X q
    proof (cases s rule: rev_cases)
      case (snoc t d)
      with False assms(2) show ?thesis by (cases t rule: rev_cases) (auto simp: tidy_def)
    qed (use ne in simp)
    with j False show ?thesis by (simp add: tidy_def)
  qed (use j assms(2) in simp)
  show "trim1 (svn_path_join p s) = jstep (trim1 p) (trim1 s)"
  proof (cases "s ! 0 = CHR ''/''")
    case True
    with j h show ?thesis by (simp add: jstep_def)
  next
    case False
    have "1 < length s" if "last s = CHR ''/''" using that False ne(2) by (cases s) auto
    then have t: "trim1 (X @ CHR ''/'' # s) = X @ CHR ''/'' # trim1 s" for X
      using ne(2) by (auto simp: trim1_eq butlast_append)
    show ?thesis
    proof (cases "p = ''/''")
      case True
      with j False t [of "[]"] h show ?thesis by (simp add: jstep_def trim1_eq [of "''/''"])
    next
      case False': False
      have "(if last p = CHR ''/'' then butlast p else p) = trim1 p"
        using False' ne(1) by (cases p) (auto simp: trim1_eq)
      moreover have "last (trim1 p) \<noteq> CHR ''/''" using tidy_trim1(2) [OF assms(1)] False' by simp
      ultimately show ?thesis using j False h t by (simp add: jstep_def)
    qed
  qed
qed

text \<open>The trimmed join of the first components.\<close>

abbreviation jfold :: "bytes \<Rightarrow> bytes list \<Rightarrow> bytes" where
  "jfold base xs \<equiv> foldl jstep (trim1 base) (map trim1 xs)"

lemma foldl_join_trim1:
  assumes "tidy base" and "\<forall>s \<in> set xs. tidy s"
  shows "tidy (foldl svn_path_join base xs)" and "trim1 (foldl svn_path_join base xs) = jfold base xs"
  using assms by (induction xs rule: rev_induct) (simp_all add: join_trim1)

lemma jfold_root:
  assumes "tidy base" and "\<forall>s \<in> set xs. tidy s"
  shows "jfold base xs \<noteq> []" and "last (jfold base xs) = CHR ''/'' \<longleftrightarrow> jfold base xs = ''/''"
proof -
  let ?p = "foldl svn_path_join base xs"
  have t: "tidy ?p" "trim1 ?p = jfold base xs" using foldl_join_trim1 [OF assms] by simp_all
  then show "jfold base xs \<noteq> []" using tidy_trim1(1) by metis
  show "last (jfold base xs) = CHR ''/'' \<longleftrightarrow> jfold base xs = ''/''"
    using tidy_trim1(2) [OF t(1)] t(2) by (auto simp: trim1_eq split: if_splits)
qed

text \<open>
  What the first pass knows after the components \<open>xs\<close>: the length of their join, and the last
  absolute argument, after which all arguments are relative.
\<close>

definition measured :: "bytes \<Rightarrow> bytes list \<Rightarrow> join_state \<Rightarrow> bool" where
  "measured base xs st \<longleftrightarrow>
     length (saved_lengths st) = MAX_SAVED_LENGTHS \<and>
     (\<forall>i \<le> length xs. saved_lengths st ! i = component_len ((base # xs) ! i)) \<and>
     total_len st = length (jfold base xs) \<and> base_arg st \<le> length xs \<and>
     base_is_root st = (trim1 ((base # xs) ! base_arg st) = ''/'') \<and>
     (0 < base_arg st \<longrightarrow> ((base # xs) ! base_arg st) ! 0 = CHR ''/'') \<and>
     (\<forall>i. base_arg st < i \<and> i \<le> length xs \<longrightarrow> ((base # xs) ! i) ! 0 \<noteq> CHR ''/'') \<and>
     hd (jfold base xs) = ((base # xs) ! base_arg st) ! 0"

lemma jstep_length: "hd s \<noteq> CHR ''/'' \<Longrightarrow> length acc \<le> length (jstep acc s)"
  by (simp add: jstep_def)

lemma jstep_root: "hd s \<noteq> CHR ''/'' \<Longrightarrow> s \<noteq> [] \<Longrightarrow> acc \<noteq> [] \<Longrightarrow> jstep acc s \<noteq> ''/''"
  by (cases acc) (auto simp: jstep_def)

text \<open>The join is the root exactly when the last absolute argument is, and nothing follows it.\<close>

lemma measured_root:
  assumes "measured base xs st" and "tidy base" and "\<forall>s \<in> set xs. tidy s"
  shows "jfold base xs = ''/'' \<longleftrightarrow> base_is_root st \<and> base_arg st = length xs"
proof (cases xs rule: rev_cases)
  case Nil
  with assms(1) show ?thesis by (simp add: measured_def)
next
  case (snoc ys y)
  have y: "tidy y" and ys: "\<forall>s \<in> set ys. tidy s" using assms(3) snoc by simp_all
  have n: "(base # xs) ! length xs = y" using snoc by simp
  have "y \<noteq> []" using y by (simp add: tidy_def)
  then have h: "hd (trim1 y) = y ! 0" "trim1 y \<noteq> []" using trim1_hd by simp_all
  show ?thesis
  proof (cases "y ! 0 = CHR ''/''")
    case True
    then have "base_arg st = length xs" using assms(1) n unfolding measured_def
      by (metis le_neq_implies_less order_refl)
    with True h assms(1) n snoc show ?thesis by (simp add: measured_def jstep_def)
  next
    case False
    then have "base_arg st \<noteq> length xs" using assms(1) n snoc unfolding measured_def by fastforce
    with False h jstep_root [of "trim1 y" "jfold base ys"] jfold_root(1) [OF assms(2) ys] snoc show ?thesis by simp
  qed
qed

lemma join_measure_step:
  assumes m: "measured base xs st" and t: "tidy base" "\<forall>s \<in> set xs. tidy s" "tidy s" and n: "length xs < 9"
  shows "\<exists>st'. join_measure st (length xs) (s # va) = join_measure st' (length (xs @ [s])) va \<and> measured base (xs @ [s]) st'"
proof -
  let ?n = "Suc (length xs)" and ?len = "component_len s"
  have ne: "s \<noteq> []" using t(3) by (simp add: tidy_def)
  have len: "?len \<noteq> 0" using trim1_hd [OF ne] length_trim1 [of s] by (metis length_0_conv)
  have h: "hd (trim1 s) = s ! 0" using trim1_hd [OF ne] by simp
  define st1 where "st1 = st\<lparr>saved_lengths := (saved_lengths st)[?n := ?len]\<rparr>"
  have saved: "length (saved_lengths st1) = MAX_SAVED_LENGTHS"
    "\<forall>i \<le> ?n. saved_lengths st1 ! i = component_len ((base # xs @ [s]) ! i)"
    using m n by (auto simp: measured_def st1_def MAX_SAVED_LENGTHS_def nth_append nth_Cons' nth_list_update)
  have keep: "(base # xs @ [s]) ! i = (base # xs) ! i" if "i \<le> length xs" for i
    using that by (cases i) (simp_all add: nth_append)
  have step: "join_measure st (length xs) (s # va) = join_measure
     (if s ! 0 = CHR ''/'' then st1\<lparr>total_len := ?len, base_arg := ?n, base_is_root := (?len = 1)\<rparr>
      else if ?n = base_arg st + 1 \<and> base_is_root st then st1\<lparr>total_len := total_len st + ?len\<rparr>
      else st1\<lparr>total_len := total_len st + (1 + ?len)\<rparr>) ?n va"
    using n len m [unfolded measured_def, THEN conjunct2, THEN conjunct2, THEN conjunct2, THEN conjunct1]
    by (simp add: MAX_SAVED_LENGTHS_def st1_def Let_def)
  show ?thesis
  proof (cases "s ! 0 = CHR ''/''")
    case True
    have "?len = 1 \<longleftrightarrow> trim1 s = ''/''"
      using h True trim1_hd [OF ne] length_trim1 [of s] by (cases "trim1 s") auto
    with True step saved h have "measured base (xs @ [s]) (st1\<lparr>total_len := ?len, base_arg := ?n, base_is_root := (?len = 1)\<rparr>)"
      by (auto simp: measured_def jstep_def nth_append)
    with step True show ?thesis by auto
  next
    case False
    have root: "last (jfold base xs) = CHR ''/'' \<longleftrightarrow> base_is_root st \<and> base_arg st = length xs"
      using measured_root [OF m t(1,2)] jfold_root(2) [OF t(1,2)] by simp
    have rel: "((base # xs @ [s]) ! i) ! 0 \<noteq> CHR ''/''" if "base_arg st < i" "i \<le> ?n" for i
      using that m False keep by (cases "i = ?n") (auto simp: measured_def nth_append)
    have hd_acc: "hd (jfold base (xs @ [s])) = hd (jfold base xs)"
      using False h jfold_root(1) [OF t(1,2)] by (simp add: jstep_def)
    have fields: "base_arg st1 = base_arg st" "base_is_root st1 = base_is_root st" by (simp_all add: st1_def)
    have "measured base (xs @ [s]) (st1\<lparr>total_len := length (jfold base (xs @ [s]))\<rparr>)"
      using m saved rel keep fields hd_acc by (auto simp: measured_def nth_append)
    moreover have "length (jfold base (xs @ [s])) = total_len st +
        (if ?n = base_arg st + 1 \<and> base_is_root st then ?len else 1 + ?len)"
      using root False h m by (auto simp: jstep_def measured_def)
    ultimately show ?thesis using step False by (auto split: if_splits)
  qed
qed

lemma join_measure_all:
  assumes "measured base xs st" and "tidy base" and "\<forall>s \<in> set (xs @ va). tidy s" and "length (xs @ va) \<le> 9"
  shows "\<exists>st'. join_measure st (length xs) va = Ok st' \<and> measured base (xs @ va) st'"
  using assms
proof (induction va arbitrary: xs st)
  case (Cons s va)
  then obtain st' where "join_measure st (length xs) (s # va) = join_measure st' (length (xs @ [s])) va"
    "measured base (xs @ [s]) st'"
    using join_measure_step [of base xs st s va] by auto
  with Cons.IH [of "xs @ [s]" st'] Cons.prems show ?case by simp
qed simp

text \<open>The second pass after the components \<open>xs\<close> has stored their join, once the last absolute argument is copied.\<close>

lemma jfold_length_mono:
  assumes "\<forall>s \<in> set va. s \<noteq> [] \<and> s ! 0 \<noteq> CHR ''/''"
  shows "length (jfold base xs) \<le> length (jfold base (xs @ va))"
  using assms
proof (induction va rule: rev_induct)
  case (snoc s va)
  then have "hd (trim1 s) \<noteq> CHR ''/''" using trim1_hd by simp
  from jstep_length [OF this] snoc show ?case by (simp add: order_trans)
qed simp

lemma measured_tail:
  assumes "measured base (xs @ va) st" and "base_arg st \<le> length xs" and "\<forall>s \<in> set va. tidy s"
  shows "\<forall>x \<in> set va. x \<noteq> [] \<and> x ! 0 \<noteq> CHR ''/''"
proof
  fix x assume x: "x \<in> set va"
  then obtain k where k: "k < length va" "va ! k = x" unfolding in_set_conv_nth by blast
  have "(base # xs @ va) ! Suc (length xs + k) = x" by (simp add: k(2) nth_append)
  moreover have "base_arg st < Suc (length xs + k)" "Suc (length xs + k) \<le> length (xs @ va)" using assms(2) k(1) by simp_all
  ultimately have "x ! 0 \<noteq> CHR ''/''" using assms(1) unfolding measured_def by metis
  with x assms(3) show "x \<noteq> [] \<and> x ! 0 \<noteq> CHR ''/''" by (auto simp: tidy_def)
qed

lemma join_copy_all:
  assumes m: "measured base (xs @ va) st" and t: "tidy base" "\<forall>s \<in> set (xs @ va). tidy s" and n: "length (xs @ va) \<le> 9"
    and p: "path = (if length xs < base_arg st then [] else jfold base xs)"
  shows "join_copy st (length xs) va path = Ok (jfold base (xs @ va))"
  using assms
proof (induction va arbitrary: xs path)
  case Nil
  then show ?case by (simp add: measured_def)
next
  case (Cons s va)
  let ?n = "Suc (length xs)"
  have s: "tidy s" "s \<noteq> []" using Cons.prems(3) by (auto simp: tidy_def)
  have ih: "join_copy st ?n va path' = Ok (jfold base (xs @ s # va))"
    if "path' = (if ?n < base_arg st then [] else jfold base (xs @ [s]))" for path'
    using Cons.IH [of "xs @ [s]" path'] Cons.prems that by simp
  show ?case
  proof (cases "?n < base_arg st")
    case True
    with ih [of "[]"] Cons.prems(5) show ?thesis by simp
  next
    case False
    have n: "?n < MAX_SAVED_LENGTHS" using Cons.prems(4) by (simp add: MAX_SAVED_LENGTHS_def)
    have len: "saved_lengths st ! ?n = component_len s" using Cons.prems(1) by (auto simp: measured_def nth_append)
    have len0: "component_len s \<noteq> 0" using trim1_hd [OF s(2)] length_trim1 [of s] by (metis length_0_conv)
    have h: "hd (trim1 s) = s ! 0" using trim1_hd [OF s(2)] by simp
    have "\<forall>x \<in> set va. x \<noteq> [] \<and> x ! 0 \<noteq> CHR ''/''"
      using measured_tail [of base "xs @ [s]" va st] Cons.prems(1,3) False by simp
    then have room: "length (jfold base (xs @ [s])) \<le> total_len st"
      using jfold_length_mono [of va base "xs @ [s]"] Cons.prems(1) by (simp add: measured_def)
    have "svn_bind (if path \<noteq> [] \<and> last path \<noteq> CHR ''/'' then join_store st path [CHR ''/''] else Ok path) (\<lambda>path.
        join_store st path (trim1 s)) = Ok (jfold base (xs @ [s]))"
    proof (cases "length xs < base_arg st")
      case True
      with False have b: "base_arg st = ?n" by simp
      then have "s ! 0 = CHR ''/''" using Cons.prems(1) by (simp add: measured_def nth_append)
      with h room True Cons.prems(5) show ?thesis by (simp add: jstep_def join_store_def)
    next
      case before: False
      have "s ! 0 \<noteq> CHR ''/''" using measured_tail [of base xs "s # va" st] Cons.prems(1,3) before by simp
      moreover have "path = jfold base xs" "path \<noteq> []"
        using before Cons.prems(3,5) jfold_root(1) [OF Cons.prems(2), of xs] by simp_all
      ultimately show ?thesis using h room by (auto simp: jstep_def join_store_def split: if_splits)
    qed
    then have "join_copy st (length xs) (s # va) path = join_copy st ?n va (jfold base (xs @ [s]))"
      using False n len len0 by (auto simp: trim1_def svn_bind_assoc [symmetric] split: if_splits)
    with ih [of "jfold base (xs @ [s])"] False show ?thesis by simp
  qed
qed

text \<open>
  C34. Joining many components in two passes is joining them one by one: the length measured in
  the first pass is the length copied in the second, no store leaves the block, and the result
  is the iterated join without its trailing slash.  It holds for at most nine components, each
  not empty and with at most one trailing slash.
\<close>

theorem join_many_fold:
  assumes "tidy base" and "\<forall>s \<in> set va. tidy s" and "length va \<le> 9"
  shows "svn_path_join_many base va = Ok (trim1 (foldl svn_path_join base va))"
proof -
  have ne: "base \<noteq> []" using assms(1) by (simp add: tidy_def)
  let ?st0 = "\<lparr>saved_lengths = (replicate MAX_SAVED_LENGTHS 0)[0 := component_len base],
    total_len = component_len base, base_arg = 0, base_is_root = (base = ''/'')\<rparr>"
  have root: "trim1 base = ''/'' \<longleftrightarrow> base = ''/''"
    using tidy_trim1(2) [OF assms(1)] by (auto simp: trim1_eq)
  then have "measured base [] ?st0" using trim1_hd [OF ne] by (simp add: measured_def MAX_SAVED_LENGTHS_def)
  from join_measure_all [OF this assms(1)] assms(2,3) obtain st where
    st: "join_measure ?st0 0 va = Ok st" "measured base va st" by auto
  have join: "svn_path_join_many base va = svn_bind (join_measure ?st0 0 va) (\<lambda>st.
      if base_is_root st \<and> total_len st = 1 then Ok ''/''
      else svn_bind (if base_arg st = 0 then join_store st [] (take (saved_lengths st ! 0) base) else Ok []) (\<lambda>path.
        svn_bind (join_copy st 0 va path) (\<lambda>path.
        svn_bind (join_store st path [NUL]) (\<lambda>_. if length path = total_len st then Ok path else Abort))))"
  proof -
    have "(if base ! (length base - 1) = CHR ''/'' \<and> length base \<noteq> 1 then length base - 1 else length base) = component_len base"
      using ne by (cases base) (auto simp: component_len_def Let_def)
    moreover have "(base ! (length base - 1) = CHR ''/'' \<and> length base = 1) = (base = ''/'')" using ne by (cases base) auto
    ultimately show ?thesis using ne unfolding svn_path_join_many_def Let_def by (simp only: length_0_conv if_False)
  qed
  show ?thesis
  proof (cases "base_is_root st \<and> total_len st = 1")
    case True
    then have "length (jfold base va) = 1" "hd (jfold base va) = CHR ''/''"
      using st(2) trim1_hd [of "(base # va) ! base_arg st"] assms(1,2)
      by (auto simp: measured_def nth_Cons' tidy_def)
    then have "jfold base va = ''/''" by (cases "jfold base va") auto
    with st True join foldl_join_trim1(2) [OF assms(1,2)] show ?thesis by simp
  next
    case False
    have total: "total_len st = length (jfold base va)" using st(2) by (simp add: measured_def)
    have l0: "saved_lengths st ! 0 = component_len base" using st(2) by (auto simp: measured_def)
    have "(if base_arg st = 0 then join_store st [] (take (saved_lengths st ! 0) base) else Ok []) =
        Ok (if 0 < base_arg st then [] else trim1 base)"
    proof (cases "base_arg st = 0")
      case True
      then have "\<forall>x \<in> set va. x \<noteq> [] \<and> x ! 0 \<noteq> CHR ''/''"
        using measured_tail [of base "[]" va st] st(2) assms(2) by simp
      from jfold_length_mono [OF this, of base "[]"] have "component_len base \<le> total_len st"
        using total by simp
      with True l0 show ?thesis by (simp add: join_store_def trim1_def)
    qed simp
    moreover have "join_copy st 0 va (if 0 < base_arg st then [] else trim1 base) = Ok (jfold base va)"
      using join_copy_all [of base "[]" va st] st(2) assms by (simp split: if_splits)
    ultimately show ?thesis using False join st(1) foldl_join_trim1(2) [OF assms(1,2)] total
      by (simp add: join_store_def) blast
  qed
qed

theorem join_many_fold_witness:
  "svn_path_join_many ''trunk/'' [''doc'', ''/branches'', ''a/'', ''b''] = Ok ''/branches/a/b''"
proof -
  let ?va = "[''doc'', ''/branches'', ''a/'', ''b'']"
  have t: "\<forall>s \<in> set (''trunk/'' # ?va). tidy s"
    unfolding tidy_def by (auto simp: append_eq_Cons_conv Cons_eq_append_conv)
  have "svn_path_join_many ''trunk/'' ?va = Ok (trim1 (foldl svn_path_join ''trunk/'' ?va))"
    by (rule join_many_fold) (use t in simp_all)
  also have "trim1 (foldl svn_path_join ''trunk/'' ?va) = ''/branches/a/b''" by code_simp
  finally show ?thesis .
qed

text \<open>
  A root base with an empty first component and a relative second one fails the routine's
  own assert: the separator that the first pass counts is not copied in the second.
\<close>

lemma join_many_root_empty:
  assumes "tidy s" and "s ! 0 \<noteq> CHR ''/''"
  shows "svn_path_join_many ''/'' [[], s] = Abort"
proof -
  have ne: "s \<noteq> []" using assms(1) by (simp add: tidy_def)
  then have len: "component_len s \<noteq> 0" using trim1_hd [OF ne] length_trim1 [of s] by (metis length_0_conv)
  show ?thesis using len assms(2)
    by (simp add: svn_path_join_many_def Let_def MAX_SAVED_LENGTHS_def component_len_def [of "[]"] join_store_def)
qed

end
