(* ===== verification/Path_Components.thy ===== *)
theory Path_Components
  imports Svn_Path
begin

text \<open>
  Paths (\<open>libsvn_subr/path.c\<close>): adding, removing and finding components, and comparing paths.
\<close>

section \<open>Adding and removing components\<close>

definition add_component_internal :: "svn_stringbuf_t \<Rightarrow> bytes \<Rightarrow> svn_stringbuf_t svn_result" where
  "add_component_internal path component =
     svn_bind
       (if \<not> svn_stringbuf_isempty path
        then if sb_len path = 1
             then svn_bind (mem_get (sb_data path) 0) (\<lambda>c. Ok (c \<noteq> SVN_PATH_SEPARATOR))
             else Ok True
        else Ok False) (\<lambda>sep.
     svn_bind (if sep then svn_stringbuf_appendbytes path [SVN_PATH_SEPARATOR] else Ok path) (\<lambda>path.
     svn_bind (svn_stringbuf_appendbytes path component) svn_path_canonicalize))"

definition svn_path_add_component_nts :: "svn_stringbuf_t \<Rightarrow> bytes \<Rightarrow> svn_stringbuf_t svn_result" where
  "svn_path_add_component_nts path component = add_component_internal path component"

definition svn_path_add_component :: "svn_stringbuf_t \<Rightarrow> svn_stringbuf_t \<Rightarrow> svn_stringbuf_t svn_result" where
  "svn_path_add_component path component =
     svn_bind (mem_bytes (sb_data component) (unat (sb_len component))) (add_component_internal path)"

text \<open>For an empty buffer \<open>sb_len - 1\<close> wraps around, and the read leaves the block.\<close>

definition svn_path_remove_component :: "svn_stringbuf_t \<Rightarrow> svn_stringbuf_t svn_result" where
  "svn_path_remove_component path =
     svn_bind (svn_path_canonicalize path) (\<lambda>path.
     svn_bind (svn_stringbuf_chop_back_to_char path SVN_PATH_SEPARATOR) (\<lambda>(nbytes, path).
       if nbytes = 0 then svn_stringbuf_setempty path
       else
         svn_bind (mem_get (sb_data path) (unat (sb_len path - 1))) (\<lambda>c.
           if c = SVN_PATH_SEPARATOR
           then svn_bind (mem_set (sb_data path) (unat (sb_len path - 1)) NUL) (\<lambda>d.
                  Ok (path\<lparr>sb_data := d, sb_len := sb_len path - 1\<rparr>))
           else Ok path)))"

text \<open>The length without trailing slashes, and the index after the slash before a given one.\<close>

primrec unslashed_len :: "bytes \<Rightarrow> nat \<Rightarrow> nat" where
  "unslashed_len path 0 = 0"
| "unslashed_len path (Suc n) = (if path ! n = CHR ''/'' then unslashed_len path n else Suc n)"

primrec after_slash :: "bytes \<Rightarrow> nat \<Rightarrow> nat" where
  "after_slash path 0 = 0"
| "after_slash path (Suc n) = (if path ! n = CHR ''/'' then Suc n else after_slash path n)"

definition svn_path_basename :: "bytes \<Rightarrow> bytes" where
  "svn_path_basename path =
     (if path = [] then []
      else
        (let len = unslashed_len path (length path) in
         if len = 0 then ''/''
         else let p1 = after_slash path len in seg p1 (len - p1) path))"

text \<open>
  The C string at \<open>path->data\<close>, read to its null byte.
\<close>

fun mem_cstring :: "mem \<Rightarrow> bytes svn_result" where
  "mem_cstring [] = Abort"
| "mem_cstring (None # m) = Abort"
| "mem_cstring (Some c # m) = (if c = NUL then Ok [] else svn_bind (mem_cstring m) (\<lambda>s. Ok (c # s)))"

text \<open>
  The flags say which results are wanted; asking for none makes the two null pointers equal,
  which the assert forbids.
\<close>

definition svn_path_split ::
  "svn_stringbuf_t \<Rightarrow> bool \<Rightarrow> bool \<Rightarrow> (svn_stringbuf_t option \<times> svn_stringbuf_t option) svn_result"
where
  "svn_path_split path want_dirpath want_basename =
     (if \<not> want_dirpath \<and> \<not> want_basename then Abort
      else
        svn_bind
          (if want_dirpath
           then svn_bind (svn_stringbuf_dup path) (\<lambda>d.
                svn_bind (svn_path_canonicalize d) (\<lambda>d.
                svn_bind (svn_path_remove_component d) (\<lambda>d. Ok (Some d))))
           else Ok None) (\<lambda>dirpath.
        svn_bind
          (if want_basename
           then svn_bind (mem_cstring (sb_data path)) (\<lambda>s.
                svn_bind (svn_stringbuf_create (svn_path_basename s)) (\<lambda>b. Ok (Some b)))
           else Ok None) (\<lambda>basename.
        Ok (dirpath, basename))))"

section \<open>Testing and comparing\<close>

definition at_char :: "mem \<Rightarrow> nat \<Rightarrow> char \<Rightarrow> bool svn_result" where
  "at_char data i ch = svn_bind (mem_get data i) (\<lambda>c. Ok (c = ch))"

definition svn_path_is_empty :: "svn_stringbuf_t option \<Rightarrow> bool svn_result" where
  "svn_path_is_empty path =
     (case path of
        None \<Rightarrow> Ok True
      | Some p \<Rightarrow>
          if svn_stringbuf_isempty p then Ok True
          else
            if sb_len p = 1 then at_char (sb_data p) 0 (CHR ''.'')
            else if sb_len p = 2
            then svn_bind (at_char (sb_data p) 0 (CHR ''.'')) (\<lambda>dot.
                   if dot then at_char (sb_data p) 1 SVN_PATH_SEPARATOR else Ok False)
            else Ok False)"

fun common_len :: "mem \<Rightarrow> mem \<Rightarrow> nat \<Rightarrow> nat \<Rightarrow> nat svn_result" where
  "common_len d1 d2 i 0 = Ok i"
| "common_len d1 d2 i (Suc n) =
     svn_bind (mem_get d1 i) (\<lambda>a. svn_bind (mem_get d2 i) (\<lambda>b.
       if a = b then common_len d1 d2 (Suc i) n else Ok i))"

definition svn_path_compare_paths :: "svn_stringbuf_t \<Rightarrow> svn_stringbuf_t \<Rightarrow> int svn_result" where
  "svn_path_compare_paths path1 path2 =
     (let min_len = (if sb_len path1 < sb_len path2 then sb_len path1 else sb_len path2) in
      svn_bind (common_len (sb_data path1) (sb_data path2) 0 (unat min_len)) (\<lambda>i.
        if sb_len path1 = sb_len path2 \<and> unat min_len \<le> i then Ok 0
        else
          svn_bind (mem_get (sb_data path1) i) (\<lambda>a.
            if a = SVN_PATH_SEPARATOR then Ok 1
            else
              svn_bind (mem_get (sb_data path2) i) (\<lambda>b.
                if b = SVN_PATH_SEPARATOR then Ok (- 1)
                else Ok (if schar a < schar b then - 1 else 1)))))"

text \<open>
  The loop over the common prefix; \<open>n\<close> bytes are left before the end of one of the paths.
  The result is \<open>i\<close> and \<open>last_dirsep\<close>.
\<close>

fun ancestor_loop :: "mem \<Rightarrow> mem \<Rightarrow> nat \<Rightarrow> nat \<Rightarrow> nat \<Rightarrow> (nat \<times> nat) svn_result" where
  "ancestor_loop d1 d2 i last_dirsep n =
     svn_bind (mem_get d1 i) (\<lambda>a. svn_bind (mem_get d2 i) (\<lambda>b.
       if a = b then
         (let last_dirsep = (if a = SVN_PATH_SEPARATOR then i else last_dirsep) in
          case n of 0 \<Rightarrow> Abort | Suc 0 \<Rightarrow> Ok (Suc i, last_dirsep) | Suc n' \<Rightarrow> ancestor_loop d1 d2 (Suc i) last_dirsep n')
       else Ok (i, last_dirsep)))"

definition svn_path_get_longest_ancestor ::
  "svn_stringbuf_t option \<Rightarrow> svn_stringbuf_t option \<Rightarrow> svn_stringbuf_t option svn_result"
where
  "svn_path_get_longest_ancestor path1 path2 =
     (case (path1, path2) of
        (Some p1, Some p2) \<Rightarrow>
          if svn_stringbuf_isempty p1 \<or> svn_stringbuf_isempty p2 then Ok None
          else
            (let len1 = unat (sb_len p1); len2 = unat (sb_len p2) in
             svn_bind (ancestor_loop (sb_data p1) (sb_data p2) 0 0 (min len1 len2)) (\<lambda>(i, last_dirsep).
             svn_bind (if i = len1 then at_char (sb_data p2) i SVN_PATH_SEPARATOR else Ok False) (\<lambda>sep2.
             svn_bind (if i = len2 then at_char (sb_data p1) i SVN_PATH_SEPARATOR else Ok False) (\<lambda>sep1.
             svn_bind (mem_bytes (sb_data p1) (if sep2 \<or> sep1 \<or> (i = len1 \<and> i = len2) then i else last_dirsep)) (\<lambda>bs.
             svn_bind (svn_stringbuf_ncreate bs) (\<lambda>common_path.
             svn_bind (svn_path_canonicalize common_path) (\<lambda>common_path. Ok (Some common_path))))))))
      | _ \<Rightarrow> Ok None)"

definition svn_path_is_child ::
  "svn_stringbuf_t option \<Rightarrow> svn_stringbuf_t option \<Rightarrow> svn_stringbuf_t option svn_result"
where
  "svn_path_is_child path1 path2 =
     (case (path1, path2) of
        (Some p1, Some p2) \<Rightarrow>
          if svn_stringbuf_isempty p1 \<or> svn_stringbuf_isempty p2 then Ok None
          else if sb_len p2 \<le> sb_len p1 then Ok None
          else
            (let len1 = unat (sb_len p1) in
             svn_bind (common_len (sb_data p1) (sb_data p2) 0 len1) (\<lambda>i.
               if i < len1 then Ok None
               else
                 svn_bind (mem_get (sb_data p1) (i - 1)) (\<lambda>a.
                   if a = SVN_PATH_SEPARATOR then
                     svn_bind (mem_bytes (sb_data p2) (unat (sb_len p2))) (\<lambda>bs.
                     svn_bind (svn_stringbuf_ncreate (drop i bs)) (\<lambda>r. Ok (Some r)))
                   else
                     svn_bind (mem_get (sb_data p2) i) (\<lambda>b.
                       if b = SVN_PATH_SEPARATOR then
                         svn_bind (mem_bytes (sb_data p2) (unat (sb_len p2))) (\<lambda>bs.
                         svn_bind (svn_stringbuf_ncreate (drop (i + 1) bs)) (\<lambda>r. Ok (Some r)))
                       else Ok None))))
      | _ \<Rightarrow> Ok None)"

section \<open>Decomposing\<close>

definition store_component :: "svn_stringbuf_t list \<Rightarrow> bytes \<Rightarrow> svn_stringbuf_t list svn_result" where
  "store_component components bs = svn_bind (svn_stringbuf_ncreate bs) (\<lambda>component. Ok (components @ [component]))"

text \<open>\<open>n\<close> turns of the loop are left; \<open>i\<close> runs to \<open>path->len\<close>.\<close>

fun decompose_loop ::
  "mem \<Rightarrow> nat \<Rightarrow> nat \<Rightarrow> nat \<Rightarrow> svn_stringbuf_t list \<Rightarrow> svn_stringbuf_t list svn_result"
where
  "decompose_loop data 0 i oldi components = Ok components"
| "decompose_loop data (Suc n) i oldi components =
     svn_bind (mem_get data i) (\<lambda>c.
       if c = SVN_PATH_SEPARATOR \<or> c = NUL then
         svn_bind (mem_bytes (drop oldi data) (i - oldi)) (\<lambda>bs.
         svn_bind (store_component components bs) (\<lambda>components.
           decompose_loop data n (Suc i) (Suc i) components))
       else decompose_loop data n (Suc i) oldi components)"

definition svn_path_decompose :: "svn_stringbuf_t \<Rightarrow> svn_stringbuf_t list svn_result" where
  "svn_path_decompose path =
     svn_bind (svn_path_is_empty (Some path)) (\<lambda>empty_path.
       if empty_path then Ok []
       else
         svn_bind (mem_get (sb_data path) 0) (\<lambda>c.
           if c = SVN_PATH_SEPARATOR
           then svn_bind (store_component [] [SVN_PATH_SEPARATOR]) (\<lambda>components.
                  decompose_loop (sb_data path) (unat (sb_len path)) 1 1 components)
           else decompose_loop (sb_data path) (unat (sb_len path) + 1) 0 0 []))"

section \<open>Reading buffers\<close>

lemma sb_read:
  assumes "sb_ok str" and "i \<le> length (sb_contents str)"
  shows "mem_get (sb_data str) i = Ok ((sb_contents str @ [NUL]) ! i)"
proof -
  obtain post where d: "sb_data str = map Some (sb_contents str @ [NUL]) @ post" by (rule sb_ok_split [OF assms(1)])
  show ?thesis using assms(2) unfolding d mem_get_def by (simp add: nth_append)
qed

lemma sb_len_contents: "sb_ok str \<Longrightarrow> unat (sb_len str) = length (sb_contents str)"
  using sb_contents_length sb_ok_shape by metis

lemma sb_isempty_contents: "sb_ok str \<Longrightarrow> svn_stringbuf_isempty str \<longleftrightarrow> sb_contents str = []"
  using sb_len_contents [of str] by (auto simp: svn_stringbuf_isempty_def word_unat_eq_iff)

lemma at_char_read:
  "sb_ok str \<Longrightarrow> i \<le> length (sb_contents str) \<Longrightarrow> at_char (sb_data str) i ch = Ok ((sb_contents str @ [NUL]) ! i = ch)"
  by (simp add: at_char_def sb_read)

definition unslash :: "bytes \<Rightarrow> bytes" where
  "unslash s = rev (dropWhile (\<lambda>c. c = SVN_PATH_SEPARATOR) (rev s))"

lemma unslash_snoc [simp]: "unslash (s @ [c]) = (if c = SVN_PATH_SEPARATOR then unslash s else s @ [c])"
  by (simp add: unslash_def)

lemma unslash_Nil [simp]: "unslash [] = []"
  by (simp add: unslash_def)

lemma chop_one:
  assumes "0 < sb_len path"
  shows "svn_bind (mem_set (sb_data path) (unat (sb_len path - 1)) NUL) (\<lambda>d.
      Ok (path\<lparr>sb_data := d, sb_len := sb_len path - 1\<rparr>)) = svn_stringbuf_chop path 1"
proof -
  have "path\<lparr>sb_len := n, sb_data := d\<rparr> = path\<lparr>sb_data := d, sb_len := n\<rparr>" for n d by simp
  moreover have "(sb_len path < 1) = False" using assms by (simp add: word_less_nat_alt)
  ultimately show ?thesis unfolding svn_stringbuf_chop_def Let_def by (simp only: if_False)
qed

lemma canonicalize_chop:
  assumes "0 < sb_len path"
  shows "svn_path_canonicalize path =
    svn_bind (mem_get (sb_data path) (unat (sb_len path - 1))) (\<lambda>c.
      if c = SVN_PATH_SEPARATOR then svn_bind (svn_stringbuf_chop path 1) svn_path_canonicalize else Ok path)"
  unfolding chop_one [OF assms, symmetric] svn_bind_assoc svn_bind.simps
  using assms by (subst svn_path_canonicalize.simps) simp

lemma canonicalize_contents:
  assumes "sb_ok path"
  shows "\<exists>p. svn_path_canonicalize path = Ok p \<and> sb_ok p \<and> sb_contents p = unslash (sb_contents path)"
  using assms
proof (induction "sb_contents path" arbitrary: path rule: rev_induct)
  case Nil
  then have "sb_len path = 0" using sb_len_contents [of path] by (simp add: word_unat_eq_iff)
  with Nil show ?case by (subst svn_path_canonicalize.simps) simp
next
  case (snoc c s)
  let ?n = "unat (sb_len path)"
  have n: "?n = Suc (length s)" using sb_len_contents [OF snoc.prems] snoc.hyps(2) [symmetric] by simp
  then have len: "0 < sb_len path" "unat (sb_len path - 1) = length s"
    by (simp_all add: word_less_nat_alt unat_sub word_le_nat_alt)
  have r: "mem_get (sb_data path) (length s) = Ok c"
    using sb_read [OF snoc.prems, of "length s"] snoc.hyps(2) [symmetric] by (simp add: nth_append)
  obtain p1 where p1: "svn_stringbuf_chop path 1 = Ok p1" "sb_ok p1" "sb_contents p1 = s"
    using sb_chop [OF snoc.prems, of 1] snoc.hyps(2) [symmetric] by auto
  show ?case
    using snoc.hyps(1) [OF p1(3) [symmetric] p1(2)] p1 r snoc.prems snoc.hyps(2) [symmetric]
    by (simp add: canonicalize_chop [OF len(1)] len(2))
qed

lemma unslash_append: "s \<noteq> [] \<Longrightarrow> last s \<noteq> SVN_PATH_SEPARATOR \<Longrightarrow> unslash s = s"
  by (cases s rule: rev_cases) simp_all

section \<open>Adding and removing\<close>

lemma add_component_contents:
  assumes "sb_ok path" and "length (sb_contents path) + length part + 1 < 2 ^ 62"
  shows "\<exists>p. add_component_internal path part = Ok p \<and> sb_ok p \<and>
    sb_contents p = unslash (if sb_contents path \<in> {[], ''/''} then sb_contents path @ part
                             else sb_contents path @ SVN_PATH_SEPARATOR # part)"
proof -
  let ?s = "sb_contents path"
  have sep: "(if \<not> svn_stringbuf_isempty path
        then if sb_len path = 1
             then svn_bind (mem_get (sb_data path) 0) (\<lambda>c. Ok (c \<noteq> SVN_PATH_SEPARATOR))
             else Ok True
        else Ok False) = Ok (?s \<notin> {[], ''/''})"
  proof -
    have "sb_len path = 1 \<longleftrightarrow> length ?s = 1"
      using sb_len_contents [OF assms(1)] by (simp add: word_unat_eq_iff)
    then show ?thesis
      using sb_isempty_contents [OF assms(1)] sb_read [OF assms(1), of 0] by (cases ?s) (auto simp: nth_append)
  qed
  have app: "\<exists>q. svn_stringbuf_appendbytes p bs = Ok q \<and> sb_ok q \<and> sb_contents q = sb_contents p @ bs"
    if "sb_ok p" "length (sb_contents p) + length bs < 2 ^ 62" for p bs
    using sb_emitsD [OF sb_emits_appendbytes that] .
  let ?t = "if ?s \<in> {[], ''/''} then ?s else ?s @ [SVN_PATH_SEPARATOR]"
  obtain p1 where p1: "(if ?s \<notin> {[], ''/''} then svn_stringbuf_appendbytes path [SVN_PATH_SEPARATOR] else Ok path) = Ok p1"
    "sb_ok p1" "sb_contents p1 = ?t"
    using app [OF assms(1), of "[SVN_PATH_SEPARATOR]"] assms by (cases "?s \<in> {[], ''/''}") auto
  have "length (sb_contents p1) + length part < 2 ^ 62" using p1(3) assms(2) by auto
  from app [OF p1(2) this] obtain p2 where p2: "svn_stringbuf_appendbytes p1 part = Ok p2" "sb_ok p2"
    "sb_contents p2 = ?t @ part" using p1(3) by auto
  from canonicalize_contents [OF p2(2)] p2(3) show ?thesis
    unfolding add_component_internal_def sep using p1(1) p2(1) by (auto split: if_splits)
qed

text \<open>
  Removing a component takes off the last one together with the separator before it, or
  two of them when they are doubled; a path of one relative component becomes empty.  A path
  of one component below the root is read before its first byte.
\<close>

lemma remove_component_cases:
  assumes "sb_ok path" and "length (sb_contents path) \<le> 2 ^ 31"
  shows "let s = unslash (sb_contents path) in
    if SVN_PATH_SEPARATOR \<in> set s then
      \<exists>d q. s = d @ SVN_PATH_SEPARATOR # q \<and> SVN_PATH_SEPARATOR \<notin> set q \<and>
        (if d = [] then svn_path_remove_component path = Abort
         else \<exists>p. svn_path_remove_component path = Ok p \<and> sb_ok p \<and>
           sb_contents p = (if last d = SVN_PATH_SEPARATOR then butlast d else d))
    else \<exists>p. svn_path_remove_component path = Ok p \<and> sb_ok p \<and> sb_contents p = []"
proof -
  let ?s = "unslash (sb_contents path)"
  obtain p0 where p0: "svn_path_canonicalize path = Ok p0" "sb_ok p0" "sb_contents p0 = ?s"
    using canonicalize_contents [OF assms(1)] by blast
  have len: "length (sb_contents p0) \<le> 2 ^ 31"
    using assms(2) p0(3) length_dropWhile_le [of "\<lambda>c. c = SVN_PATH_SEPARATOR" "rev (sb_contents path)"]
    by (simp add: unslash_def)
  note chop = sb_chop_back [OF p0(2) len, of SVN_PATH_SEPARATOR, unfolded p0(3)]
  show ?thesis
  proof (cases "SVN_PATH_SEPARATOR \<in> set ?s")
    case False
    with chop sb_setempty [OF p0(2)] p0(1) show ?thesis by (simp add: svn_path_remove_component_def)
  next
    case True
    with chop obtain d q p1 where c: "?s = d @ SVN_PATH_SEPARATOR # q" "SVN_PATH_SEPARATOR \<notin> set q"
      "svn_stringbuf_chop_back_to_char p0 SVN_PATH_SEPARATOR = Ok (of_nat (Suc (length q)), p1)"
      "sb_ok p1" "sb_contents p1 = d" by auto
    have "Suc (length q) < 2 ^ 64" using len p0(3) c(1) by simp
    then have nz: "(of_nat (Suc (length q)) :: 64 word) \<noteq> 0"
      by (metis nat.distinct(1) unat_0 unat_of_nat64)
    have r: "svn_path_remove_component path =
       svn_bind (mem_get (sb_data p1) (unat (sb_len p1 - 1))) (\<lambda>c.
           if c = SVN_PATH_SEPARATOR
           then svn_bind (mem_set (sb_data p1) (unat (sb_len p1 - 1)) NUL) (\<lambda>d.
                  Ok (p1\<lparr>sb_data := d, sb_len := sb_len p1 - 1\<rparr>))
           else Ok p1)"
      using p0(1) c(3) nz by (simp add: svn_path_remove_component_def del: of_nat_Suc)
    show ?thesis
    proof (cases d rule: rev_cases)
      case Nil
      then have "sb_len p1 = 0" using sb_len_contents [OF c(4)] c(5) by (simp add: word_unat_eq_iff)
      moreover have "length (sb_data p1) < 2 ^ 64"
        using sb_ok_shape [OF c(4)] unat_lt64 [of "sb_blocksize p1"] by (simp add: sb_shape_def)
      moreover have "unat (- 1 :: 64 word) = 2 ^ 64 - 1" by (simp add: unsigned_minus_1_eq_mask mask_eq_exp_minus_1)
      ultimately have "svn_path_remove_component path = Abort" unfolding r by (simp add: mem_get_def)
      with True Nil c(1,2) show ?thesis by auto
    next
      case (snoc e z)
      then have n: "unat (sb_len p1) = Suc (length e)" using sb_len_contents [OF c(4)] c(5) by simp
      then have len1: "0 < sb_len p1" "unat (sb_len p1 - 1) = length e"
        by (simp_all add: word_less_nat_alt unat_sub word_le_nat_alt)
      have "mem_get (sb_data p1) (length e) = Ok z"
        using sb_read [OF c(4), of "length e"] c(5) snoc by (simp add: nth_append)
      then have "svn_path_remove_component path = (if z = SVN_PATH_SEPARATOR then svn_stringbuf_chop p1 1 else Ok p1)"
        using r chop_one [OF len1(1)] unfolding len1(2) by simp
      moreover obtain p2 where "svn_stringbuf_chop p1 1 = Ok p2" "sb_ok p2" "sb_contents p2 = e"
        using sb_chop [OF c(4), of 1] c(5) snoc by auto
      ultimately have "\<exists>p. svn_path_remove_component path = Ok p \<and> sb_ok p \<and>
          sb_contents p = (if last d = SVN_PATH_SEPARATOR then butlast d else d)" using snoc c(4,5) by auto
      then show ?thesis unfolding Let_def if_P [OF True] using snoc c(1,2) by (intro exI [of _ d] exI [of _ q]) simp
    qed
  qed
qed

section \<open>The order of paths\<close>

text \<open>The separator is above every other character, which are ordered as signed octets.\<close>

definition path_key :: "char \<Rightarrow> int" where
  "path_key c = (if c = SVN_PATH_SEPARATOR then 200 else schar c)"

definition char_cmp :: "char \<Rightarrow> char \<Rightarrow> int" where
  "char_cmp a b = (if path_key a < path_key b then - 1 else 1)"

fun path_cmp :: "bytes \<Rightarrow> bytes \<Rightarrow> int" where
  "path_cmp [] [] = 0"
| "path_cmp (a # s) (b # t) = (if a = b then path_cmp s t else char_cmp a b)"
| "path_cmp [] (b # t) = char_cmp NUL b"
| "path_cmp (a # s) [] = char_cmp a NUL"

lemma of_char_int: "0 \<le> (of_char c :: int)" "of_char c < (256 :: int)"
proof -
  have "(of_char c :: int) = int (of_char c)" by (simp add: of_nat_of_char)
  moreover have "of_char c < (256 :: nat)" by simp
  ultimately show "0 \<le> (of_char c :: int)" "of_char c < (256 :: int)" by linarith+
qed

lemma schar_bounds: "- 128 \<le> schar c" "schar c < 128"
proof -
  show "- 128 \<le> schar c" "schar c < 128" using of_char_int [of c] by (auto simp: schar_def)
qed

lemma schar_inj: "schar a = schar b \<longleftrightarrow> a = b"
proof -
  have "schar a = schar b \<longleftrightarrow> (of_char a :: int) = of_char b"
    using of_char_int [of a] of_char_int [of b] by (auto simp: schar_def)
  then show ?thesis by simp
qed

lemma path_key_inj: "path_key a = path_key b \<longleftrightarrow> a = b"
  using schar_inj [of a b] schar_bounds [of a] schar_bounds [of b] by (auto simp: path_key_def)

lemma char_cmp_code:
  "char_cmp a b = (if a = SVN_PATH_SEPARATOR then 1 else if b = SVN_PATH_SEPARATOR then - 1
     else if schar a < schar b then - 1 else 1)"
  using schar_bounds [of a] schar_bounds [of b] by (simp add: char_cmp_def path_key_def)

lemma common_len_read:
  assumes "sb_ok p" and "sb_ok q" and "i + n \<le> length (sb_contents p)" and "i + n \<le> length (sb_contents q)"
  shows "common_len (sb_data p) (sb_data q) i n =
    Ok (i + length (takeWhile (\<lambda>(a, b). a = b) (zip (seg i n (sb_contents p)) (seg i n (sb_contents q)))))"
  using assms
proof (induction n arbitrary: i)
  case (Suc n)
  let ?s = "sb_contents p" and ?t = "sb_contents q"
  have "seg i (Suc n) ?s = ?s ! i # seg (Suc i) n ?s" "seg i (Suc n) ?t = ?t ! i # seg (Suc i) n ?t"
    using Suc.prems by (simp_all add: seg_def Cons_nth_drop_Suc [symmetric])
  with Suc.IH [of "Suc i"] Suc.prems show ?case
    by (simp add: sb_read nth_append)
qed simp

lemma path_cmp_prefix:
  "path_cmp s t = (let i = length (takeWhile (\<lambda>(a, b). a = b) (zip s t)) in
     if length s = length t \<and> length s \<le> i then 0 else char_cmp ((s @ [NUL]) ! i) ((t @ [NUL]) ! i))"
  by (induction s t rule: path_cmp.induct) (auto simp: Let_def)

lemma compare_paths_cmp:
  assumes "sb_ok p" and "sb_ok q"
  shows "svn_path_compare_paths p q = Ok (path_cmp (sb_contents p) (sb_contents q))"
proof -
  let ?s = "sb_contents p" and ?t = "sb_contents q"
  let ?m = "min (length ?s) (length ?t)" and ?i = "length (takeWhile (\<lambda>(a, b). a = b) (zip ?s ?t))"
  have l: "unat (sb_len p) = length ?s" "unat (sb_len q) = length ?t" using assms by (simp_all add: sb_len_contents)
  have m: "unat (if sb_len p < sb_len q then sb_len p else sb_len q) = ?m" using l by (simp add: word_less_nat_alt)
  have e: "sb_len p = sb_len q \<longleftrightarrow> length ?s = length ?t" using l by (simp add: word_unat_eq_iff)
  have "zip (seg 0 ?m ?s) (seg 0 ?m ?t) = zip ?s ?t"
    by (simp add: seg_def flip: take_zip)
  then have c: "common_len (sb_data p) (sb_data q) 0 ?m = Ok ?i"
    using common_len_read [OF assms, of 0 ?m] by simp
  have "?i \<le> ?m" using length_takeWhile_le [of "\<lambda>(a, b). a = b" "zip ?s ?t"] by simp
  then show ?thesis
    unfolding svn_path_compare_paths_def Let_def m c e
    by (simp add: sb_read assms path_cmp_prefix [of ?s ?t] char_cmp_code Let_def)
qed

lemma path_cmp_order:
  assumes "NUL \<notin> set s" and "NUL \<notin> set t"
  shows "path_cmp s t = 0 \<longleftrightarrow> s = t" and "path_cmp t s = - path_cmp s t"
  using assms
  by (induction s t rule: path_cmp.induct)
     (auto simp: char_cmp_def not_less le_less path_key_inj)

lemma char_cmp_le: "char_cmp a b \<le> 0 \<longleftrightarrow> path_key a < path_key b"
  by (simp add: char_cmp_def)

lemma path_cmp_trans:
  assumes "NUL \<notin> set s" and "NUL \<notin> set t" and "NUL \<notin> set u" and "path_cmp s t \<le> 0" and "path_cmp t u \<le> 0"
  shows "path_cmp s u \<le> 0"
  using assms
proof (induction s arbitrary: t u)
  case Nil
  then show ?case by (cases t; cases u) (auto simp: char_cmp_le split: if_splits)
next
  case (Cons a s)
  note ih = Cons.IH and prems = Cons.prems
  show ?case
  proof (cases t)
    case Nil
    with prems(4,5) show ?thesis by (cases u) (auto simp: char_cmp_le split: if_splits)
  next
    case (Cons b t')
    show ?thesis
    proof (cases u)
      case Nil
      with Cons prems(4,5) show ?thesis by (auto simp: char_cmp_le split: if_splits)
    next
      case u: (Cons c u')
      have "path_cmp s u' \<le> 0" if "a = b" "b = c"
        using ih [of t' u'] prems Cons u that by simp
      with Cons u prems(4,5) show ?thesis
        by (cases "a = b"; cases "b = c"; cases "a = c") (simp_all add: char_cmp_le)
    qed
  qed
qed

text \<open>
  The comparison of paths is a linear order on paths without null bytes: it is zero on
  equal paths only, exchanging the arguments negates it, and it is transitive; a directory
  comes before everything in it.
\<close>

lemma compare_paths_order:
  assumes "sb_ok p" and "sb_ok q" and "sb_ok r"
    and "NUL \<notin> set (sb_contents p)" and "NUL \<notin> set (sb_contents q)" and "NUL \<notin> set (sb_contents r)"
  shows "\<exists>a b c. svn_path_compare_paths p q = Ok a \<and> svn_path_compare_paths q r = Ok b \<and> svn_path_compare_paths p r = Ok c \<and>
    svn_path_compare_paths q p = Ok (- a) \<and> (a = 0 \<longleftrightarrow> sb_contents p = sb_contents q) \<and>
    (a \<le> 0 \<and> b \<le> 0 \<longrightarrow> c \<le> 0) \<and> (\<forall>x. sb_contents q = sb_contents p @ SVN_PATH_SEPARATOR # x \<longrightarrow> a < 0)"
proof -
  let ?p = "sb_contents p" and ?q = "sb_contents q" and ?r = "sb_contents r"
  have child: "path_cmp s (s @ SVN_PATH_SEPARATOR # x) < 0" for s x
    by (induction s) (simp_all add: char_cmp_def path_key_def schar_def)
  have swap: "svn_path_compare_paths q p = Ok (- path_cmp ?p ?q)"
    unfolding compare_paths_cmp [OF assms(2,1)] path_cmp_order(2) [OF assms(4,5)] ..
  have below: "\<forall>x. ?q = ?p @ SVN_PATH_SEPARATOR # x \<longrightarrow> path_cmp ?p ?q < 0" using child by simp
  have trans: "path_cmp ?p ?q \<le> 0 \<and> path_cmp ?q ?r \<le> 0 \<longrightarrow> path_cmp ?p ?r \<le> 0"
    using path_cmp_trans [OF assms(4-6)] by blast
  show ?thesis
    by (intro exI [of _ "path_cmp ?p ?q"] exI [of _ "path_cmp ?q ?r"] exI [of _ "path_cmp ?p ?r"] conjI)
       (fact compare_paths_cmp [OF assms(1,2)] compare_paths_cmp [OF assms(2,3)] compare_paths_cmp [OF assms(1,3)]
          swap path_cmp_order(1) [OF assms(4,5)] trans below)+
qed

section \<open>Decomposing\<close>

lemma mem_bytes_seg:
  assumes "sb_ok p" and "i \<le> j" and "j \<le> length (sb_contents p)"
  shows "mem_bytes (drop i (sb_data p)) (j - i) = Ok (seg i (j - i) (sb_contents p))"
proof -
  obtain post where d: "sb_data p = map Some (sb_contents p @ [NUL]) @ post" by (rule sb_ok_split [OF assms(1)])
  have t: "take (j - i) (drop i (sb_data p)) = map Some (seg i (j - i) (sb_contents p))"
    using assms(2,3) unfolding d seg_def by (simp add: take_map drop_map)
  moreover have "j - i \<le> length (drop i (sb_data p))" using assms(2,3) unfolding d by simp
  ultimately show ?thesis unfolding mem_bytes_def t by (simp add: comp_def)
qed

lemma store_component_contents:
  assumes "length bs < 2 ^ 62"
  shows "\<exists>c. store_component comps bs = Ok (comps @ [c]) \<and> sb_ok c \<and> sb_contents c = bs"
  using sb_ncreate [OF assms] by (auto simp: store_component_def)

lemma decompose_loop_split:
  assumes "sb_ok p" and "NUL \<notin> set (sb_contents p)" and "length (sb_contents p) < 2 ^ 62"
    and "i + n = length (sb_contents p)" and "oldi \<le> i"
    and "SVN_PATH_SEPARATOR \<notin> set (seg oldi (i - oldi) (sb_contents p))"
  shows "\<exists>cs. decompose_loop (sb_data p) (Suc n) i oldi comps = Ok (comps @ cs) \<and>
    list_all sb_ok cs \<and> map sb_contents cs = split_on SVN_PATH_SEPARATOR (drop oldi (sb_contents p))"
  using assms(4-)
proof (induction n arbitrary: i oldi comps)
  case 0
  let ?s = "sb_contents p"
  have seg: "seg oldi (i - oldi) ?s = drop oldi ?s" using 0 by (simp add: seg_def)
  have "length (seg oldi (i - oldi) ?s) < 2 ^ 62" using assms(3) 0 by simp
  from store_component_contents [OF this, of comps] obtain c where
    c: "store_component comps (seg oldi (i - oldi) ?s) = Ok (comps @ [c])" "sb_ok c" "sb_contents c = seg oldi (i - oldi) ?s"
    by blast
  have "mem_get (sb_data p) i = Ok NUL" using sb_read [OF assms(1), of i] 0 by simp
  moreover have "split_on SVN_PATH_SEPARATOR (drop oldi ?s) = [drop oldi ?s]"
    using 0(3) seg by (intro split_on_whole) simp
  ultimately show ?case using c mem_bytes_seg [OF assms(1), of oldi i] 0 seg by (intro exI [of _ "[c]"]) simp
next
  case (Suc n)
  let ?s = "sb_contents p" and ?g = "seg oldi (i - oldi) (sb_contents p)"
  have i: "i < length ?s" using Suc.prems(1) by simp
  have r: "mem_get (sb_data p) i = Ok (?s ! i)" using sb_read [OF assms(1), of i] i by (simp add: nth_append)
  have nul: "?s ! i \<noteq> NUL" using assms(2) i nth_mem by metis
  have "?g @ drop i ?s = drop oldi ?s"
    using append_take_drop_id [of "i - oldi" "drop oldi ?s"] Suc.prems(2) by (simp add: seg_def)
  then have whole: "drop oldi ?s = ?g @ ?s ! i # drop (Suc i) ?s" using Cons_nth_drop_Suc [OF i] by simp
  show ?case
  proof (cases "?s ! i = SVN_PATH_SEPARATOR")
    case True
    have "length ?g < 2 ^ 62" using assms(3) i Suc.prems(2) by simp
    from store_component_contents [OF this, of comps] obtain c where
      c: "store_component comps ?g = Ok (comps @ [c])" "sb_ok c" "sb_contents c = ?g" by blast
    obtain cs where cs: "decompose_loop (sb_data p) (Suc n) (Suc i) (Suc i) (comps @ [c]) = Ok (comps @ c # cs)"
      "list_all sb_ok cs" "map sb_contents cs = split_on SVN_PATH_SEPARATOR (drop (Suc i) ?s)"
      using Suc.IH [of "Suc i" "Suc i" "comps @ [c]"] Suc.prems(1) by (auto simp: seg_def)
    have "split_on SVN_PATH_SEPARATOR (drop oldi ?s) = ?g # split_on SVN_PATH_SEPARATOR (drop (Suc i) ?s)"
      using split_on_sep [OF Suc.prems(3)] True by (simp add: whole)
    with c cs r True mem_bytes_seg [OF assms(1) Suc.prems(2)] i show ?thesis
      by (intro exI [of _ "c # cs"]) (simp del: decompose_loop.simps add: decompose_loop.simps(2) [of _ "Suc n"])
  next
    case False
    have "seg oldi (Suc i - oldi) ?s = ?g @ [?s ! i]"
      using i Suc.prems(2) seg_append_eq [of oldi "i - oldi" ?s 1] by (simp add: seg_def Suc_diff_le take_Suc_conv_app_nth)
    with Suc.IH [of "Suc i" oldi comps] Suc.prems False r nul show ?thesis
      by (simp del: decompose_loop.simps add: decompose_loop.simps(2) [of _ "Suc n"])
  qed
qed

text \<open>
  A path that is neither empty nor the current directory is decomposed into the pieces
  between its separators, in order, with the separator itself first for an absolute path.
\<close>

lemma decompose_components:
  assumes "sb_ok path" and "NUL \<notin> set (sb_contents path)" and "length (sb_contents path) < 2 ^ 62"
    and "sb_contents path \<notin> {[], ''.'', ''./''}"
  shows "\<exists>cs. svn_path_decompose path = Ok cs \<and> list_all sb_ok cs \<and>
    map sb_contents cs =
      (if sb_contents path ! 0 = SVN_PATH_SEPARATOR
       then [SVN_PATH_SEPARATOR] # split_on SVN_PATH_SEPARATOR (drop 1 (sb_contents path))
       else split_on SVN_PATH_SEPARATOR (sb_contents path))"
proof -
  let ?s = "sb_contents path"
  have len: "unat (sb_len path) = length ?s" by (rule sb_len_contents [OF assms(1)])
  then have l1: "sb_len path = 1 \<longleftrightarrow> length ?s = 1" "sb_len path = 2 \<longleftrightarrow> length ?s = 2"
    by (simp_all add: word_unat_eq_iff)
  have ne: "?s \<noteq> []" "0 < length ?s" using assms(4) by auto
  have "svn_path_is_empty (Some path) = Ok False"
    using assms(4) ne l1 sb_isempty_contents [OF assms(1)]
    by (auto simp: svn_path_is_empty_def at_char_read [OF assms(1)] nth_append length_Suc_conv numeral_2_eq_2)
  moreover have "mem_get (sb_data path) 0 = Ok (?s ! 0)" using sb_read [OF assms(1), of 0] ne by (simp add: nth_append)
  moreover obtain c where c: "store_component [] [SVN_PATH_SEPARATOR] = Ok [c]" "sb_ok c" "sb_contents c = [SVN_PATH_SEPARATOR]"
    using store_component_contents [of "[SVN_PATH_SEPARATOR]" "[]"] by auto
  moreover obtain cs where cs: "decompose_loop (sb_data path) (length ?s) 1 1 [c] = Ok (c # cs)"
    "list_all sb_ok cs" "map sb_contents cs = split_on SVN_PATH_SEPARATOR (drop 1 ?s)"
    using decompose_loop_split [OF assms(1-3), of 1 "length ?s - 1" 1 "[c]"] ne by (auto simp: seg_def)
  moreover obtain ds where "decompose_loop (sb_data path) (length ?s + 1) 0 0 [] = Ok ds"
    "list_all sb_ok ds" "map sb_contents ds = split_on SVN_PATH_SEPARATOR ?s"
    using decompose_loop_split [OF assms(1-3), of 0 "length ?s" 0 "[]"] by (auto simp: seg_def)
  ultimately show ?thesis
    by (simp add: svn_path_decompose_def len del: decompose_loop.simps)
qed

section \<open>Ancestors\<close>

lemma ancestor_loop_prefix:
  assumes "sb_ok p" and "sb_ok q"
    and "i + Suc n = min (length (sb_contents p)) (length (sb_contents q))"
    and "take i (sb_contents p) = take i (sb_contents q)"
  shows "\<exists>j ld'. ancestor_loop (sb_data p) (sb_data q) i ld (Suc n) = Ok (j, ld') \<and>
    i \<le> j \<and> j \<le> i + Suc n \<and> take j (sb_contents p) = take j (sb_contents q) \<and>
    (j = i + Suc n \<or> sb_contents p ! j \<noteq> sb_contents q ! j) \<and>
    (ld' = ld \<or> (i \<le> ld' \<and> ld' < j \<and> sb_contents p ! ld' = SVN_PATH_SEPARATOR)) \<and>
    (\<forall>k. i \<le> k \<and> k < j \<and> sb_contents p ! k = SVN_PATH_SEPARATOR \<longrightarrow> k \<le> ld')"
  using assms(3,4)
proof (induction n arbitrary: i ld)
  case 0
  let ?s = "sb_contents p" and ?t = "sb_contents q"
  have i: "i < length ?s" "i < length ?t" using 0 by simp_all
  have r: "mem_get (sb_data p) i = Ok (?s ! i)" "mem_get (sb_data q) i = Ok (?t ! i)"
    using i sb_read [OF assms(1), of i] sb_read [OF assms(2), of i] by (simp_all add: nth_append)
  show ?case
  proof (cases "?s ! i = ?t ! i")
    case True
    then have "take (Suc i) ?s = take (Suc i) ?t" using i 0(2) by (simp add: take_Suc_conv_app_nth)
    with r True show ?thesis by (auto simp: Let_def less_Suc_eq)
  next
    case False
    with r 0 show ?thesis by auto
  qed
next
  case (Suc n)
  let ?s = "sb_contents p" and ?t = "sb_contents q"
  have i: "i < length ?s" "i < length ?t" using Suc.prems by simp_all
  have r: "mem_get (sb_data p) i = Ok (?s ! i)" "mem_get (sb_data q) i = Ok (?t ! i)"
    using i sb_read [OF assms(1), of i] sb_read [OF assms(2), of i] by (simp_all add: nth_append)
  show ?case
  proof (cases "?s ! i = ?t ! i")
    case True
    let ?ld = "if ?s ! i = SVN_PATH_SEPARATOR then i else ld"
    have "take (Suc i) ?s = take (Suc i) ?t" using i Suc.prems(2) True by (simp add: take_Suc_conv_app_nth)
    moreover have "Suc i + Suc n = min (length ?s) (length ?t)" using Suc.prems(1) by simp
    ultimately obtain j ld' where ih: "ancestor_loop (sb_data p) (sb_data q) (Suc i) ?ld (Suc n) = Ok (j, ld')"
      "Suc i \<le> j" "j \<le> Suc i + Suc n" "take j ?s = take j ?t" "j = Suc i + Suc n \<or> ?s ! j \<noteq> ?t ! j"
      "ld' = ?ld \<or> (Suc i \<le> ld' \<and> ld' < j \<and> ?s ! ld' = SVN_PATH_SEPARATOR)"
      "\<forall>k. Suc i \<le> k \<and> k < j \<and> ?s ! k = SVN_PATH_SEPARATOR \<longrightarrow> k \<le> ld'"
      using Suc.IH [of "Suc i" ?ld] by blast
    have "ancestor_loop (sb_data p) (sb_data q) i ld (Suc (Suc n)) = Ok (j, ld')"
      using r True ih(1) by (subst ancestor_loop.simps) (simp add: Let_def del: ancestor_loop.simps)
    moreover have "k \<le> ld'" if "i \<le> k" "k < j" "?s ! k = SVN_PATH_SEPARATOR" for k
    proof (cases "k = i")
      case True
      with ih(6) that(3) show ?thesis by (auto split: if_splits)
    next
      case False
      with ih(7) that show ?thesis by simp
    qed
    moreover have "ld' = ld \<or> (i \<le> ld' \<and> ld' < j \<and> ?s ! ld' = SVN_PATH_SEPARATOR)"
      using ih(2,6) by (auto split: if_splits)
    ultimately show ?thesis using ih(2-5) by (intro exI [of _ j] exI [of _ ld']) auto
  next
    case False
    with r Suc.prems show ?thesis by auto
  qed
qed

text \<open>A path is at or below another.\<close>

definition at_or_below :: "bytes \<Rightarrow> bytes \<Rightarrow> bool" where
  "at_or_below u s \<longleftrightarrow> s = u \<or> (\<exists>x. s = u @ SVN_PATH_SEPARATOR # x)"

lemma unslash_pad: "\<exists>m. s = unslash s @ replicate m SVN_PATH_SEPARATOR"
proof (induction s rule: rev_induct)
  case (snoc c s)
  then obtain m where m: "s = unslash s @ replicate m SVN_PATH_SEPARATOR" by blast
  show ?case
  proof (cases "c = SVN_PATH_SEPARATOR")
    case True
    have "s @ [c] = unslash s @ replicate (Suc m) SVN_PATH_SEPARATOR"
      using True by (subst m) (simp add: replicate_append_same)
    moreover have "unslash (s @ [c]) = unslash s" using True by simp
    ultimately show ?thesis by metis
  qed (auto intro: exI [of _ 0])
qed simp

lemma unslash_length: "length (unslash s) \<le> length s"
  using length_dropWhile_le [of "\<lambda>c. c = SVN_PATH_SEPARATOR" "rev s"] by (simp add: unslash_def)

lemma unslash_idem: "unslash (unslash s) = unslash s"
  by (induction s rule: rev_induct) simp_all

lemma unslash_keeps_prefix:
  assumes "unslash u = u" and "take (length u) w = u" and "length u \<le> length w"
  shows "length u \<le> length (unslash w)"
  using assms(2,3)
proof (induction w rule: rev_induct)
  case (snoc c w)
  show ?case
  proof (cases "length u \<le> length w")
    case True
    with snoc show ?thesis by (cases "c = SVN_PATH_SEPARATOR") simp_all
  next
    case False
    with snoc.prems have "u = w @ [c]" by simp
    with assms(1) show ?thesis by simp
  qed
qed simp

lemma at_or_below_take:
  assumes "k \<le> length s" and "k = length s \<or> s ! k = SVN_PATH_SEPARATOR"
  shows "at_or_below (unslash (take k s)) s"
proof -
  obtain m where m: "take k s = unslash (take k s) @ replicate m SVN_PATH_SEPARATOR" using unslash_pad by blast
  have s: "s = unslash (take k s) @ replicate m SVN_PATH_SEPARATOR @ drop k s"
    using m append_take_drop_id [of k s] by (metis append.assoc)
  show ?thesis
  proof (cases m)
    case 0
    have "drop k s = [] \<or> (\<exists>x. drop k s = SVN_PATH_SEPARATOR # x)"
      using assms Cons_nth_drop_Suc [of k s] by (metis drop_all le_neq_implies_less order_refl)
    with s 0 show ?thesis unfolding at_or_below_def by (metis append_Nil append_Nil2 replicate_0)
  next
    case (Suc n)
    with s show ?thesis unfolding at_or_below_def by (metis append_Cons replicate_Suc)
  qed
qed

lemma at_or_below_at:
  assumes "at_or_below u s"
  shows "take (length u) s = u" and "length u \<le> length s" and "length u < length s \<Longrightarrow> s ! length u = SVN_PATH_SEPARATOR"
  using assms by (auto simp: at_or_below_def)

lemma longest_ancestor_bounds:
  assumes "sb_ok p" and "sb_ok q" and "sb_contents p \<noteq> []" and "sb_contents q \<noteq> []" and "length (sb_contents p) < 2 ^ 62"
  shows "\<exists>c. svn_path_get_longest_ancestor (Some p) (Some q) = Ok (Some c) \<and> sb_ok c \<and> unslash (sb_contents c) = sb_contents c \<and>
    (sb_contents c = [] \<or> at_or_below (sb_contents c) (sb_contents p) \<and> at_or_below (sb_contents c) (sb_contents q)) \<and>
    (\<forall>u. unslash u = u \<and> at_or_below u (sb_contents p) \<and> at_or_below u (sb_contents q) \<longrightarrow>
       length u \<le> length (sb_contents c))"
proof -
  let ?s = "sb_contents p" and ?t = "sb_contents q"
  let ?m = "min (length ?s) (length ?t)"
  obtain j ld where jl: "ancestor_loop (sb_data p) (sb_data q) 0 0 ?m = Ok (j, ld)"
    "j \<le> ?m" "take j ?s = take j ?t" "j = ?m \<or> ?s ! j \<noteq> ?t ! j"
    "ld = 0 \<or> (ld < j \<and> ?s ! ld = SVN_PATH_SEPARATOR)"
    "\<And>k. k < j \<Longrightarrow> ?s ! k = SVN_PATH_SEPARATOR \<Longrightarrow> k \<le> ld"
  proof -
    have "Suc (?m - 1) = ?m" using assms(3,4) by (simp add: Suc_leI)
    with ancestor_loop_prefix [OF assms(1,2), of 0 "?m - 1" 0] that show thesis by (auto simp del: ancestor_loop.simps)
  qed
  define whole where "whole \<longleftrightarrow> (j = length ?s \<and> (?t @ [NUL]) ! j = SVN_PATH_SEPARATOR) \<or>
    (j = length ?t \<and> (?s @ [NUL]) ! j = SVN_PATH_SEPARATOR) \<or> (j = length ?s \<and> j = length ?t)"
  define k where "k = (if whole then j else ld)"
  have k: "k \<le> j" using jl(5) by (auto simp: k_def)
  have "length (take k ?s) < 2 ^ 62" using assms(5) by simp
  from sb_ncreate [OF this] obtain c0 where c0: "svn_stringbuf_ncreate (take k ?s) = Ok c0" "sb_ok c0" "sb_contents c0 = take k ?s"
    by blast
  obtain c where c: "svn_path_canonicalize c0 = Ok c" "sb_ok c" "sb_contents c = unslash (take k ?s)"
    using canonicalize_contents [OF c0(2)] c0(3) by auto
  have run: "svn_path_get_longest_ancestor (Some p) (Some q) = Ok (Some c)"
  proof -
    have "mem_bytes (sb_data p) k = Ok (take k ?s)"
      using mem_bytes_seg [OF assms(1), of 0 k] k jl(2) by (simp add: seg_def)
    moreover have "(if j = length ?s then at_char (sb_data q) j SVN_PATH_SEPARATOR else Ok False) =
        Ok (j = length ?s \<and> (?t @ [NUL]) ! j = SVN_PATH_SEPARATOR)"
      "(if j = length ?t then at_char (sb_data p) j SVN_PATH_SEPARATOR else Ok False) =
        Ok (j = length ?t \<and> (?s @ [NUL]) ! j = SVN_PATH_SEPARATOR)"
      using jl(2) by (simp_all add: at_char_read assms(1,2))
    ultimately show ?thesis
      using assms(3,4) jl(1) c0(1) c(1)
      unfolding svn_path_get_longest_ancestor_def k_def whole_def
      by (simp add: sb_isempty_contents assms(1,2) sb_len_contents Let_def disj_assoc del: ancestor_loop.simps)
  qed
  have tk: "take k ?t = take k ?s" using jl(3) k by (metis min.absorb1 take_take)
  have same: "?s ! i = ?t ! i" if "i < j" for i using that jl(3) by (metis nth_take)
  have above: "sb_contents c = [] \<or> at_or_below (sb_contents c) ?s \<and> at_or_below (sb_contents c) ?t"
  proof (cases "k = 0")
    case False
    have "k = length ?s \<or> ?s ! k = SVN_PATH_SEPARATOR" "k = length ?t \<or> ?t ! k = SVN_PATH_SEPARATOR"
      using False jl(2,5) same [of ld] by (cases whole; auto simp: k_def whole_def nth_append split: if_splits)+
    with at_or_below_take [of k ?s] at_or_below_take [of k ?t] k jl(2) c(3) tk show ?thesis by simp
  qed (simp add: c(3))
  have longest: "length u \<le> length (sb_contents c)"
    if u: "unslash u = u" "at_or_below u ?s" "at_or_below u ?t" for u
  proof -
    note us = at_or_below_at [OF u(2)] and ut = at_or_below_at [OF u(3)]
    have lu: "length u \<le> j"
    proof (rule ccontr)
      assume "\<not> length u \<le> j"
      then have j: "j < length u" by simp
      then have "j \<noteq> ?m" using us(2) ut(2) by simp
      moreover have "?s ! j = u ! j" using nth_take [OF j, of ?s] us(1) by simp
      moreover have "?t ! j = u ! j" using nth_take [OF j, of ?t] ut(1) by simp
      ultimately show False using jl(4) by simp
    qed
    have "length u \<le> k"
    proof (cases whole)
      case False
      have "length u \<noteq> j"
      proof
        assume j: "length u = j"
        have "?s ! j = SVN_PATH_SEPARATOR" if "j < length ?s" using us(3) that j by simp
        moreover have "?t ! j = SVN_PATH_SEPARATOR" if "j < length ?t" using ut(3) that j by simp
        moreover have "j \<le> length ?s" "j \<le> length ?t" using jl(2) by simp_all
        ultimately show False using False jl(4) unfolding whole_def
          by (cases "j = length ?s"; cases "j = length ?t") (simp_all add: nth_append)
      qed
      then have "length u < j" using lu by simp
      then show ?thesis using jl(6) [of "length u"] us(3) jl(2) False by (simp add: k_def)
    qed (use lu k_def in simp)
    moreover have "take (length u) (take k ?s) = u" using us(1) calculation by (simp add: min_def)
    moreover have "length u \<le> length (take k ?s)" using calculation(1) us(2) by simp
    ultimately show ?thesis using unslash_keeps_prefix [OF u(1)] c(3) by simp
  qed
  have "unslash (sb_contents c) = sb_contents c" by (simp add: c(3) unslash_idem)
  with run c(2) above longest show ?thesis by blast
qed

text \<open>A path other than the root, without trailing separators, that both paths are at or below.\<close>

definition common_ancestor :: "bytes \<Rightarrow> bytes \<Rightarrow> bytes \<Rightarrow> bool" where
  "common_ancestor u s t \<longleftrightarrow> u \<noteq> [] \<and> unslash u = u \<and> at_or_below u s \<and> at_or_below u t"

text \<open>
  C35. For two nonempty paths that have a common ancestor other than the root, the longest common ancestor
  is an ancestor of both, and no common ancestor is longer.  When they have none, the result is the
  empty path, where \<open>svn_path.h\<close> says that it is null.
\<close>

theorem longest_ancestor:
  assumes "sb_ok p" and "sb_ok q" and "sb_contents p \<noteq> []" and "sb_contents q \<noteq> []" and "length (sb_contents p) < 2 ^ 62"
  shows "\<exists>c. svn_path_get_longest_ancestor (Some p) (Some q) = Ok (Some c) \<and> sb_ok c \<and>
    (if \<exists>u. common_ancestor u (sb_contents p) (sb_contents q)
     then common_ancestor (sb_contents c) (sb_contents p) (sb_contents q) \<and>
       (\<forall>u. common_ancestor u (sb_contents p) (sb_contents q) \<longrightarrow> length u \<le> length (sb_contents c))
     else sb_contents c = [])"
proof -
  obtain c where c: "svn_path_get_longest_ancestor (Some p) (Some q) = Ok (Some c)" "sb_ok c" "unslash (sb_contents c) = sb_contents c"
      "sb_contents c = [] \<or> at_or_below (sb_contents c) (sb_contents p) \<and> at_or_below (sb_contents c) (sb_contents q)"
      "\<And>u. unslash u = u \<Longrightarrow> at_or_below u (sb_contents p) \<Longrightarrow> at_or_below u (sb_contents q) \<Longrightarrow> length u \<le> length (sb_contents c)"
    using longest_ancestor_bounds [OF assms] by blast
  have nonempty: "sb_contents c \<noteq> []" if "common_ancestor u (sb_contents p) (sb_contents q)" for u
    using that c(5) [of u] by (auto simp: common_ancestor_def)
  show ?thesis
  proof (intro exI conjI)
    show "if \<exists>u. common_ancestor u (sb_contents p) (sb_contents q)
       then common_ancestor (sb_contents c) (sb_contents p) (sb_contents q) \<and>
         (\<forall>u. common_ancestor u (sb_contents p) (sb_contents q) \<longrightarrow> length u \<le> length (sb_contents c))
       else sb_contents c = []"
    proof (cases "\<exists>u. common_ancestor u (sb_contents p) (sb_contents q)")
      case True
      then show ?thesis using nonempty c(3-5) by (auto simp: common_ancestor_def)
    next
      case False
      then have "\<not> common_ancestor (sb_contents c) (sb_contents p) (sb_contents q)" by blast
      then show ?thesis using False c(3,4) by (auto simp: common_ancestor_def)
    qed
  qed (rule c(1,2))+
qed

theorem longest_ancestor_witness:
  "\<exists>p q c. svn_stringbuf_create ''a/b/cd'' = Ok p \<and> svn_stringbuf_create ''a/b/ce/f'' = Ok q \<and>
    svn_path_get_longest_ancestor (Some p) (Some q) = Ok (Some c) \<and> length ''a/b'' \<le> length (sb_contents c)"
proof -
  obtain p where p: "svn_stringbuf_ncreate ''a/b/cd'' = Ok p" "sb_ok p" "sb_contents p = ''a/b/cd''"
    using sb_ncreate [of "''a/b/cd''"] by auto
  obtain q where q: "svn_stringbuf_ncreate ''a/b/ce/f'' = Ok q" "sb_ok q" "sb_contents q = ''a/b/ce/f''"
    using sb_ncreate [of "''a/b/ce/f''"] by auto
  have u: "common_ancestor ''a/b'' (sb_contents p) (sb_contents q)"
    using p(3) q(3) by (simp add: common_ancestor_def unslash_def at_or_below_def)
  have "\<exists>c. svn_path_get_longest_ancestor (Some p) (Some q) = Ok (Some c) \<and> length ''a/b'' \<le> length (sb_contents c)"
  proof -
    have "sb_contents p \<noteq> []" "sb_contents q \<noteq> []" "length (sb_contents p) < 2 ^ 62" using p(3) q(3) by simp_all
    from longest_ancestor [OF p(2) q(2) this] u show ?thesis by (metis (full_types))
  qed
  with p(1) q(1) show ?thesis by (simp add: svn_stringbuf_create_def)
qed

end
