(* ===== verification/Targets.thy ===== *)
theory Targets
  imports Path_Components "HOL-Library.Sublist"
begin

text \<open>
  Lists of targets (\<open>libsvn_subr/target.c\<close>): making paths absolute, condensing a list of
  targets to a common directory, and removing redundant targets.  APR's \<open>apr_filepath_merge\<close>
  and \<open>apr_stat\<close> are the parameters \<open>merge\<close> and \<open>stat\<close>; \<open>None\<close> is a failure.
\<close>

section \<open>Absolute paths\<close>

text \<open>The constructor \<open>APR_NOFILE\<close> stands for every other type of file.\<close>

datatype apr_filetype = APR_DIR | APR_REG | APR_NOFILE

definition svn_path_get_absolute ::
  "(bytes \<Rightarrow> bytes option) \<Rightarrow> svn_stringbuf_t \<Rightarrow> svn_stringbuf_t svn_result"
where
  "svn_path_get_absolute merge relative =
     svn_bind (mem_cstring (sb_data relative)) (\<lambda>s.
       case merge s of
         None \<Rightarrow> Err SVN_ERR_BAD_FILENAME
       | Some buffer \<Rightarrow> svn_bind (svn_stringbuf_create buffer) svn_path_canonicalize)"

text \<open>The directory and the file.\<close>

definition svn_path_split_if_file ::
  "(bytes \<Rightarrow> apr_filetype option) \<Rightarrow> svn_stringbuf_t \<Rightarrow>
   (svn_stringbuf_t option \<times> svn_stringbuf_t option) svn_result"
where
  "svn_path_split_if_file stat path =
     svn_bind (mem_cstring (sb_data path)) (\<lambda>s.
       case stat s of
         None \<Rightarrow> Err SVN_ERR_BAD_FILENAME
       | Some APR_DIR \<Rightarrow> svn_bind (svn_stringbuf_create []) (\<lambda>file. Ok (Some path, Some file))
       | Some APR_REG \<Rightarrow> svn_path_split path True True
       | Some APR_NOFILE \<Rightarrow> Err SVN_ERR_BAD_FILENAME)"

section \<open>Condensing\<close>

fun svn_fold :: "('x \<Rightarrow> 's \<Rightarrow> 's svn_result) \<Rightarrow> 'x list \<Rightarrow> 's \<Rightarrow> 's svn_result" where
  "svn_fold f [] s = Ok s"
| "svn_fold f (x # xs) s = svn_bind (f x s) (svn_fold f xs)"

text \<open>The absolute targets and their common directory.\<close>

definition condense_base ::
  "(bytes \<Rightarrow> bytes option) \<Rightarrow> svn_stringbuf_t \<Rightarrow> svn_stringbuf_t list \<times> svn_stringbuf_t option \<Rightarrow>
   (svn_stringbuf_t list \<times> svn_stringbuf_t option) svn_result"
where
  "condense_base merge rel st =
     (case st of
        (abs_targets, pbasedir) \<Rightarrow>
          svn_bind (svn_path_get_absolute merge rel) (\<lambda>absolute.
          svn_bind (svn_path_get_longest_ancestor pbasedir (Some absolute)) (\<lambda>pbasedir.
            Ok (abs_targets @ [absolute], pbasedir))))"

text \<open>The test of one pair in the first pass.\<close>

definition condense_pair :: "svn_stringbuf_t list \<Rightarrow> nat \<Rightarrow> nat \<Rightarrow> bool list \<Rightarrow> bool list svn_result" where
  "condense_pair abs_targets i j removed =
     (if removed ! j then Ok removed
      else
        svn_bind (svn_path_get_longest_ancestor (Some (abs_targets ! i)) (Some (abs_targets ! j))) (\<lambda>ancestor.
          case ancestor of
            None \<Rightarrow> Ok removed
          | Some a \<Rightarrow>
              svn_bind (svn_stringbuf_compare a (abs_targets ! i)) (\<lambda>same_i.
                if same_i then Ok (removed[j := True])
                else
                  svn_bind (svn_stringbuf_compare a (abs_targets ! j)) (\<lambda>same_j.
                    Ok (if same_j then removed[i := True] else removed)))))"

definition condense_row :: "svn_stringbuf_t list \<Rightarrow> nat \<Rightarrow> bool list \<Rightarrow> bool list svn_result" where
  "condense_row abs_targets i removed =
     (if removed ! i then Ok removed
      else svn_fold (condense_pair abs_targets i) [i + 1..<length abs_targets] removed)"

definition condense_same :: "svn_stringbuf_t list \<Rightarrow> svn_stringbuf_t option \<Rightarrow> nat \<Rightarrow> bool list \<Rightarrow> bool list svn_result" where
  "condense_same abs_targets pbasedir i removed =
     (case pbasedir of
        None \<Rightarrow> Abort
      | Some b \<Rightarrow>
          svn_bind (svn_stringbuf_compare (abs_targets ! i) b) (\<lambda>same.
            Ok (if same \<and> \<not> removed ! i then removed[i := True] else removed)))"

text \<open>The part of a target behind the common directory and a separator, as a C string.\<close>

definition condense_copy ::
  "svn_stringbuf_t list \<Rightarrow> svn_stringbuf_t option \<Rightarrow> bool list \<Rightarrow> nat \<Rightarrow> svn_stringbuf_t list \<Rightarrow>
   svn_stringbuf_t list svn_result"
where
  "condense_copy abs_targets pbasedir removed i condensed =
     (if removed ! i then Ok condensed
      else
        (case pbasedir of
           None \<Rightarrow> Abort
         | Some b \<Rightarrow>
             svn_bind (mem_cstring (drop (unat (sb_len b + 1)) (sb_data (abs_targets ! i)))) (\<lambda>rel_item.
             svn_bind (svn_stringbuf_create rel_item) (\<lambda>item. Ok (condensed @ [item])))))"

text \<open>
  The results are the common directory and, when wanted, the condensed targets.  The count
  \<open>num_condensed\<close> only gives the array its first capacity.
\<close>

definition svn_path_condense_targets ::
  "(bytes \<Rightarrow> bytes option) \<Rightarrow> (bytes \<Rightarrow> apr_filetype option) \<Rightarrow> bool \<Rightarrow> svn_stringbuf_t list \<Rightarrow>
   (svn_stringbuf_t option \<times> svn_stringbuf_t list option) svn_result"
where
  "svn_path_condense_targets merge stat want targets =
     (case targets of
        [] \<Rightarrow> Ok (None, None)
      | t # ts \<Rightarrow>
          svn_bind (svn_path_get_absolute merge t) (\<lambda>first.
          svn_bind (svn_fold (condense_base merge) ts ([first], Some first)) (\<lambda>(abs_targets, pbasedir).
          (let ixs = [0..<length abs_targets] in
           svn_bind
             (if want
              then svn_bind (svn_fold (condense_row abs_targets) ixs (replicate (length targets) False)) (\<lambda>removed.
                   svn_bind (svn_fold (condense_same abs_targets pbasedir) ixs removed) (\<lambda>removed.
                   svn_bind (svn_fold (condense_copy abs_targets pbasedir removed) ixs []) (\<lambda>condensed. Ok (Some condensed))))
              else Ok None) (\<lambda>condensed.
           case pbasedir of
             None \<Rightarrow> Abort
           | Some b \<Rightarrow>
               (case svn_path_split_if_file stat b of
                  Abort \<Rightarrow> Abort
                | Err e \<Rightarrow> Ok (pbasedir, condensed)
                | Ok (dir, file) \<Rightarrow>
                    svn_bind (if want then svn_path_is_empty file else Ok True) (\<lambda>none.
                      Ok (dir, if none then condensed
                               else map_option (\<lambda>cs. cs @ (case file of None \<Rightarrow> [] | Some f \<Rightarrow> [f])) condensed))))))))"

section \<open>Removing redundancies\<close>

text \<open>Whether a path is one of the keepers or below one of them.\<close>

fun kept_already :: "svn_stringbuf_t list \<Rightarrow> svn_stringbuf_t \<Rightarrow> bool svn_result" where
  "kept_already [] abs_path = Ok False"
| "kept_already (keeper # keepers) abs_path =
     svn_bind (svn_stringbuf_compare keeper abs_path) (\<lambda>same.
       if same then Ok True
       else
         svn_bind (svn_path_is_child (Some keeper) (Some abs_path)) (\<lambda>child.
           if child \<noteq> None then Ok True else kept_already keepers abs_path))"

definition keep_target ::
  "(bytes \<Rightarrow> bytes option) \<Rightarrow> svn_stringbuf_t \<Rightarrow> svn_stringbuf_t list \<times> svn_stringbuf_t list \<Rightarrow>
   (svn_stringbuf_t list \<times> svn_stringbuf_t list) svn_result"
where
  "keep_target merge rel_path st =
     (case st of
        (abs_targets, rel_targets) \<Rightarrow>
          svn_bind (svn_path_get_absolute merge rel_path) (\<lambda>abs_path.
          svn_bind (kept_already abs_targets abs_path) (\<lambda>found.
            Ok (if found then (abs_targets, rel_targets) else (abs_targets @ [abs_path], rel_targets @ [rel_path])))))"

text \<open>Without a place for the result there is nothing to do.\<close>

definition svn_path_remove_redundancies ::
  "(bytes \<Rightarrow> bytes option) \<Rightarrow> bool \<Rightarrow> svn_stringbuf_t list \<Rightarrow> svn_stringbuf_t list option svn_result"
where
  "svn_path_remove_redundancies merge want targets =
     (if targets = [] \<or> \<not> want then Ok None
      else
        svn_bind (svn_fold (keep_target merge) targets ([], [])) (\<lambda>(abs_targets, rel_targets).
          Ok (Some rel_targets)))"

section \<open>Children\<close>

lemma takeWhile_zip_prefix:
  "length s \<le> length t \<Longrightarrow>
    length (takeWhile (\<lambda>(a, b). a = b) (zip s t)) = length s \<longleftrightarrow> take (length s) t = s"
proof (induction s arbitrary: t)
  case (Cons a s)
  then show ?case by (cases t) auto
qed simp

lemma common_len_prefix:
  assumes "sb_ok p" and "sb_ok q" and "length (sb_contents p) \<le> length (sb_contents q)"
  shows "\<exists>i \<le> length (sb_contents p). common_len (sb_data p) (sb_data q) 0 (length (sb_contents p)) = Ok i \<and>
    (i = length (sb_contents p) \<longleftrightarrow> take (length (sb_contents p)) (sb_contents q) = sb_contents p)"
proof -
  let ?s = "sb_contents p" and ?t = "sb_contents q"
  let ?i = "length (takeWhile (\<lambda>(a, b). a = b) (zip ?s (take (length ?s) ?t)))"
  have "?i \<le> length ?s"
    using length_takeWhile_le [of "\<lambda>(a, b). a = b" "zip ?s (take (length ?s) ?t)"] assms(3) by simp
  moreover have "?i = length ?s \<longleftrightarrow> take (length ?s) ?t = ?s"
    using takeWhile_zip_prefix [of ?s "take (length ?s) ?t"] assms(3) by simp
  ultimately show ?thesis
    using common_len_read [OF assms(1,2), of 0 "length ?s"] assms(3) by (auto simp: seg_def)
qed

text \<open>A path without a trailing separator has exactly the paths below it as its children.\<close>

lemma is_child_below:
  assumes "sb_ok p" and "sb_ok q" and "sb_contents p \<noteq> []" and "last (sb_contents p) \<noteq> SVN_PATH_SEPARATOR"
    and "length (sb_contents q) < 2 ^ 62"
  shows "\<exists>r. svn_path_is_child (Some p) (Some q) = Ok r \<and>
    (r \<noteq> None \<longleftrightarrow> (\<exists>x. sb_contents q = sb_contents p @ SVN_PATH_SEPARATOR # x))"
proof (cases "length (sb_contents q) \<le> length (sb_contents p)")
  case True
  then have "sb_len q \<le> sb_len p" by (simp add: word_le_nat_alt sb_len_contents assms(1,2))
  with True show ?thesis by (auto simp: svn_path_is_child_def)
next
  case False
  let ?s = "sb_contents p" and ?t = "sb_contents q"
  have q: "?t \<noteq> []" and le: "length ?s \<le> length ?t" using False by auto
  from common_len_prefix [OF assms(1,2) le] obtain i where i: "i \<le> length ?s"
    "common_len (sb_data p) (sb_data q) 0 (length ?s) = Ok i" "i = length ?s \<longleftrightarrow> take (length ?s) ?t = ?s" by blast
  have len: "\<not> sb_len q \<le> sb_len p" using False by (simp add: word_le_nat_alt sb_len_contents assms(1,2))
  have below: "(\<exists>x. ?t = ?s @ SVN_PATH_SEPARATOR # x) \<longleftrightarrow> i = length ?s \<and> ?t ! i = SVN_PATH_SEPARATOR"
  proof
    assume "i = length ?s \<and> ?t ! i = SVN_PATH_SEPARATOR"
    with i(3) False Cons_nth_drop_Suc [of "length ?s" ?t] show "\<exists>x. ?t = ?s @ SVN_PATH_SEPARATOR # x"
      by (metis append_take_drop_id not_le)
  qed (use i(3) in auto)
  have lastc: "mem_get (sb_data p) (length ?s - 1) = Ok (last ?s)" using assms(3) by (simp add: sb_read [OF assms(1)] nth_append last_conv_nth)
  have nextc: "mem_get (sb_data q) (length ?s) = Ok (?t ! length ?s)" using False by (simp add: sb_read [OF assms(2)] nth_append)
  have all: "mem_bytes (sb_data q) (length ?t) = Ok ?t" using mem_bytes_seg [OF assms(2), of 0 "length ?t"] by (simp add: seg_def)
  have "length (drop (length ?s + 1) ?t) < 2 ^ 62" using assms(5) by simp
  from sb_ncreate [OF this] obtain r where "svn_stringbuf_ncreate (drop (length ?s + 1) ?t) = Ok r" by blast
  then show ?thesis unfolding below using i(1,2) assms(3,4) len q lastc nextc all
    by (cases "i = length ?s")
       (auto simp: svn_path_is_child_def sb_isempty_contents sb_len_contents assms(1,2) Let_def)
qed

section \<open>Absolute paths and keepers\<close>

lemma mem_cstring_contents:
  assumes "sb_ok str" and "NUL \<notin> set (sb_contents str)"
  shows "mem_cstring (sb_data str) = Ok (sb_contents str)"
proof -
  obtain post where d: "sb_data str = map Some (sb_contents str @ [NUL]) @ post" by (rule sb_ok_split [OF assms(1)])
  have "mem_cstring (map Some (s @ [NUL]) @ post) = Ok s" if "NUL \<notin> set s" for s
    using that by (induction s) auto
  with assms(2) show ?thesis unfolding d by simp
qed

text \<open>The absolute path of a target, and the targets that have a usable one.\<close>

definition absolute_of :: "(bytes \<Rightarrow> bytes option) \<Rightarrow> svn_stringbuf_t \<Rightarrow> bytes" where
  "absolute_of merge t = unslash (the (merge (sb_contents t)))"

definition target_ok :: "(bytes \<Rightarrow> bytes option) \<Rightarrow> svn_stringbuf_t \<Rightarrow> bool" where
  "target_ok merge t \<longleftrightarrow> sb_ok t \<and> NUL \<notin> set (sb_contents t) \<and> merge (sb_contents t) \<noteq> None \<and>
     length (the (merge (sb_contents t))) < 2 ^ 62 \<and> absolute_of merge t \<noteq> []"

definition keeper_ok :: "svn_stringbuf_t \<Rightarrow> bool" where
  "keeper_ok p \<longleftrightarrow> sb_ok p \<and> sb_contents p \<noteq> [] \<and> last (sb_contents p) \<noteq> SVN_PATH_SEPARATOR \<and> length (sb_contents p) < 2 ^ 62"

lemma unslash_last: "unslash s \<noteq> [] \<Longrightarrow> last (unslash s) \<noteq> SVN_PATH_SEPARATOR"
  by (induction s rule: rev_induct) auto

lemma get_absolute_contents:
  assumes "target_ok merge t"
  shows "\<exists>p. svn_path_get_absolute merge t = Ok p \<and> keeper_ok p \<and> sb_contents p = absolute_of merge t"
proof -
  obtain b where b: "merge (sb_contents t) = Some b" "length b < 2 ^ 62" using assms by (auto simp: target_ok_def)
  from sb_ncreate [OF b(2)] obtain c where c: "svn_stringbuf_ncreate b = Ok c" "sb_ok c" "sb_contents c = b" by blast
  from canonicalize_contents [OF c(2)] obtain p where
    p: "svn_path_canonicalize c = Ok p" "sb_ok p" "sb_contents p = unslash b" using c(3) by auto
  with b c mem_cstring_contents [of t] assms unslash_last [of b] unslash_length [of b] show ?thesis
    by (auto simp: svn_path_get_absolute_def svn_stringbuf_create_def target_ok_def absolute_of_def keeper_ok_def)
qed

lemma kept_already_below:
  assumes "\<forall>k \<in> set keepers. keeper_ok k" and "keeper_ok p"
  shows "kept_already keepers p = Ok (\<exists>k \<in> set keepers. at_or_below (sb_contents k) (sb_contents p))"
  using assms(1)
proof (induction keepers)
  case (Cons k keepers)
  have ok: "sb_ok k" "sb_ok p" "sb_contents k \<noteq> []" "last (sb_contents k) \<noteq> SVN_PATH_SEPARATOR" "length (sb_contents p) < 2 ^ 62"
    using Cons.prems assms(2) by (simp_all add: keeper_ok_def)
  from is_child_below [OF ok] obtain r where r: "svn_path_is_child (Some k) (Some p) = Ok r"
    "r \<noteq> None \<longleftrightarrow> (\<exists>x. sb_contents p = sb_contents k @ SVN_PATH_SEPARATOR # x)" by blast
  have "svn_stringbuf_compare k p = Ok (sb_contents k = sb_contents p)"
    using ok(1,2) by (intro sb_compare) (simp_all add: sb_ok_def)
  with r Cons show ?case by (cases "sb_contents k = sb_contents p") (auto simp: at_or_below_def)
qed simp

section \<open>Removing redundancies, as a list function\<close>

fun thin :: "('x \<Rightarrow> bytes) \<Rightarrow> 'x list \<Rightarrow> 'x list \<Rightarrow> 'x list" where
  "thin f kept [] = kept"
| "thin f kept (x # xs) = thin f (if \<exists>k \<in> set kept. at_or_below (f k) (f x) then kept else kept @ [x]) xs"

lemma thin_extends: "\<exists>new. thin f kept xs = kept @ new \<and> subseq new xs"
proof (induction xs arbitrary: kept)
  case (Cons x xs)
  show ?case
  proof (cases "\<exists>k \<in> set kept. at_or_below (f k) (f x)")
    case True
    with Cons [of kept] show ?thesis by (auto intro: list_emb_Cons)
  next
    case False
    obtain new where "thin f (kept @ [x]) xs = (kept @ [x]) @ new" "subseq new xs" using Cons by blast
    with False show ?thesis by (intro exI [of _ "x # new"]) simp
  qed
qed simp

lemma thin_keeps: "set kept \<subseteq> set (thin f kept xs)"
  using thin_extends [of f kept xs] by auto

lemma thin_covers: "x \<in> set xs \<Longrightarrow> \<exists>k \<in> set (thin f kept xs). at_or_below (f k) (f x)"
proof (induction xs arbitrary: kept)
  case (Cons y xs)
  show ?case
  proof (cases "x \<in> set xs")
    case False
    then have "x = y" using Cons.prems by simp
    moreover have "at_or_below (f y) (f y)" by (simp add: at_or_below_def)
    ultimately show ?thesis
      using thin_keeps [of kept f xs] thin_keeps [of "kept @ [y]" f xs] by auto
  qed (simp add: Cons.IH)
qed simp

lemma thin_apart:
  assumes "sorted_wrt (\<lambda>k l. \<not> at_or_below (f k) (f l)) kept"
  shows "sorted_wrt (\<lambda>k l. \<not> at_or_below (f k) (f l)) (thin f kept xs)"
  using assms by (induction xs arbitrary: kept) (simp_all add: sorted_wrt_append)

lemma keep_target_thin:
  assumes "\<forall>t \<in> set ts. target_ok merge t" and "\<forall>k \<in> set ks. keeper_ok k"
    and "map sb_contents ks = map (absolute_of merge) rel"
  shows "\<exists>ks'. svn_fold (keep_target merge) ts (ks, rel) = Ok (ks', thin (absolute_of merge) rel ts)"
  using assms
proof (induction ts arbitrary: ks rel)
  case (Cons t ts)
  obtain p where p: "svn_path_get_absolute merge t = Ok p" "keeper_ok p" "sb_contents p = absolute_of merge t"
    using get_absolute_contents [of merge t] Cons.prems(1) by auto
  have "(\<exists>k \<in> set ks. at_or_below (sb_contents k) (sb_contents p)) \<longleftrightarrow>
      (\<exists>u \<in> set (map sb_contents ks). at_or_below u (sb_contents p))" by auto
  also have "\<dots> \<longleftrightarrow> (\<exists>k \<in> set rel. at_or_below (absolute_of merge k) (absolute_of merge t))"
    unfolding Cons.prems(3) p(3) by auto
  finally have "keep_target merge t (ks, rel) =
      Ok (if \<exists>k \<in> set rel. at_or_below (absolute_of merge k) (absolute_of merge t) then (ks, rel) else (ks @ [p], rel @ [t]))"
    by (simp add: keep_target_def p(1) kept_already_below [OF Cons.prems(2) p(2)])
  then show ?case
    using Cons.IH [of ks rel] Cons.IH [of "ks @ [p]" "rel @ [t]"] Cons.prems p(2,3) by auto
qed simp

text \<open>
  C38. Removing the redundancies of a list of targets whose absolute paths can be determined and
  none of which is the root (below a root target nothing is removed) returns a sublist in the order given, in which no target is at or below an
  earlier one, and such that every target given is at or below one that was kept.
\<close>

theorem remove_redundancies_spec:
  assumes "targets \<noteq> []" and "\<forall>t \<in> set targets. target_ok merge t"
  shows "\<exists>kept. svn_path_remove_redundancies merge True targets = Ok (Some kept) \<and> subseq kept targets \<and>
    sorted_wrt (\<lambda>k l. \<not> at_or_below (absolute_of merge k) (absolute_of merge l)) kept \<and>
    (\<forall>t \<in> set targets. \<exists>k \<in> set kept. at_or_below (absolute_of merge k) (absolute_of merge t))"
proof -
  let ?kept = "thin (absolute_of merge) [] targets"
  obtain ks where "svn_fold (keep_target merge) targets ([], []) = Ok (ks, ?kept)"
    using keep_target_thin [OF assms(2), of "[]" "[]"] by auto
  then have "svn_path_remove_redundancies merge True targets = Ok (Some ?kept)"
    by (simp add: svn_path_remove_redundancies_def assms(1))
  moreover have "subseq ?kept targets" using thin_extends [of _ "[]"] by (metis append_Nil)
  ultimately show ?thesis
    using thin_covers [of _ targets] thin_apart [of "absolute_of merge" "[]" targets] by auto
qed

theorem remove_redundancies_spec_witness:
  "\<exists>s t kept. svn_stringbuf_create ''a'' = Ok s \<and> svn_stringbuf_create ''a/b'' = Ok t \<and>
     svn_path_remove_redundancies (\<lambda>p. Some (''/w/'' @ p)) True [s, t] = Ok (Some kept) \<and> subseq kept [s, t] \<and>
     (\<exists>k \<in> set kept. at_or_below (absolute_of (\<lambda>p. Some (''/w/'' @ p)) k) ''/w/a/b'')"
proof -
  let ?merge = "\<lambda>p. Some (''/w/'' @ p)"
  obtain s where s: "svn_stringbuf_ncreate ''a'' = Ok s" "sb_ok s" "sb_contents s = ''a''" using sb_ncreate [of "''a''"] by auto
  obtain t where t: "svn_stringbuf_ncreate ''a/b'' = Ok t" "sb_ok t" "sb_contents t = ''a/b''" using sb_ncreate [of "''a/b''"] by auto
  have "\<forall>u \<in> set [s, t]. target_ok ?merge u"
    using s t by (simp add: target_ok_def absolute_of_def unslash_def)
  from remove_redundancies_spec [OF _ this] obtain kept where k: "svn_path_remove_redundancies ?merge True [s, t] = Ok (Some kept)"
    "subseq kept [s, t]" "\<exists>k \<in> set kept. at_or_below (absolute_of ?merge k) (absolute_of ?merge t)"
    by auto
  have "absolute_of ?merge t = ''/w/a/b''" using t(3) by (simp add: absolute_of_def unslash_def)
  with s(1) t(1) k show ?thesis by (auto simp: svn_stringbuf_create_def)
qed

end
