(* ===== verification/Path_Uri.thy ===== *)
theory Path_Uri
  imports Svn_Path Stream_Coder
begin

text \<open>
  Paths as URIs (\<open>libsvn_subr/path.c\<close>, the last part): recognising URLs, and escaping and
  unescaping the characters that are not allowed in them.
\<close>

section \<open>Recognising URLs\<close>

text \<open>\<open>strchr\<close> on the null-terminated bytes in memory.\<close>

fun mem_strchr :: "mem \<Rightarrow> char \<Rightarrow> bool svn_result" where
  "mem_strchr [] ch = Abort"
| "mem_strchr (None # m) ch = Abort"
| "mem_strchr (Some c # m) ch = (if c = ch then Ok True else if c = NUL then Ok False else mem_strchr m ch)"

text \<open>The loop over the scheme; \<open>n\<close> turns are left.\<close>

fun is_url_loop :: "mem \<Rightarrow> nat \<Rightarrow> nat \<Rightarrow> bool svn_result" where
  "is_url_loop data j 0 = Ok False"
| "is_url_loop data j (Suc n) =
     svn_bind (mem_get data j) (\<lambda>c.
       if c = CHR ''/'' then Ok False
       else if c \<noteq> CHR '':'' then is_url_loop data (Suc j) n
       else if j = 0 then Ok False
       else
         svn_bind (mem_get data (j + 1)) (\<lambda>c1.
           if c1 \<noteq> CHR ''/'' then Ok False
           else
             svn_bind (mem_get data (j + 2)) (\<lambda>c2.
               if c2 \<noteq> CHR ''/'' then Ok False else mem_strchr (drop (j + 3) data) (CHR ''/''))))"

definition svn_path_is_url :: "svn_string_t \<Rightarrow> bool svn_result" where
  "svn_path_is_url path =
     (if st_len path < 5 then Ok False else is_url_loop (st_data path) 0 (unat (st_len path - 3)))"

section \<open>Escaping\<close>

definition char_is_uri_safe :: "char \<Rightarrow> bool" where
  "char_is_uri_safe c =
     ((65 \<le> schar c \<and> schar c \<le> 90) \<or> (97 \<le> schar c \<and> schar c \<le> 122) \<or> (48 \<le> schar c \<and> schar c \<le> 57) \<or>
      strchr (''/:.-_!~'' @ [CHR 0x27] @ ''()@=+$,&*'') c \<noteq> None)"

fun uri_safe_loop :: "mem \<Rightarrow> nat \<Rightarrow> nat \<Rightarrow> bool svn_result" where
  "uri_safe_loop data i 0 = Ok True"
| "uri_safe_loop data i (Suc n) =
     svn_bind (mem_get data i) (\<lambda>c. if \<not> char_is_uri_safe c then Ok False else uri_safe_loop data (Suc i) n)"

definition svn_path_is_uri_safe :: "svn_string_t \<Rightarrow> bool svn_result" where
  "svn_path_is_uri_safe path = uri_safe_loop (st_data path) 0 (unat (st_len path))"

text \<open>
  \<open>sprintf\<close> with \<open>%%%02X\<close>: a percent sign and at least two digits of the argument, which the
  promotion of a negative \<open>char\<close> and the reading as \<open>unsigned\<close> make a large number.
\<close>

definition hex_digit :: "nat \<Rightarrow> char" where
  "hex_digit n = ''0123456789ABCDEF'' ! n"

fun hex_digits :: "nat \<Rightarrow> bytes" where
  "hex_digits n = (if n < 16 then [hex_digit n] else hex_digits (n div 16) @ [hex_digit (n mod 16)])"

declare hex_digits.simps [simp del]

definition sprintf_02X :: "char \<Rightarrow> bytes" where
  "sprintf_02X c =
     (let ds = hex_digits (unat (word_of_int (schar c) :: 32 word)) in
      CHR ''%'' # (if length ds < 2 then CHR ''0'' # ds else ds))"

text \<open>The copy of the safe characters up to \<open>i\<close> that have not been copied yet.\<close>

definition uri_flush :: "svn_string_t \<Rightarrow> nat \<Rightarrow> nat \<Rightarrow> svn_stringbuf_t \<Rightarrow> svn_stringbuf_t svn_result" where
  "uri_flush path copied i retstr =
     (if i - copied \<noteq> 0
      then svn_bind (mem_bytes (drop copied (st_data path)) (i - copied)) (svn_stringbuf_appendbytes retstr)
      else Ok retstr)"

fun uri_encode_loop ::
  "svn_string_t \<Rightarrow> nat \<Rightarrow> nat \<Rightarrow> nat \<Rightarrow> svn_stringbuf_t \<Rightarrow> (nat \<times> svn_stringbuf_t) svn_result"
where
  "uri_encode_loop path i 0 copied retstr = Ok (copied, retstr)"
| "uri_encode_loop path i (Suc n) copied retstr =
     svn_bind (mem_get (st_data path) i) (\<lambda>c.
       if char_is_uri_safe c then uri_encode_loop path (Suc i) n copied retstr
       else
         svn_bind (uri_flush path copied i retstr) (\<lambda>retstr.
         svn_bind (svn_stringbuf_ensure retstr (sb_len retstr + 3)) (\<lambda>retstr.
         (let text = sprintf_02X c @ [NUL] in
          svn_bind (memcpy (sb_data retstr) (unat (sb_len retstr)) (map Some text) (length text)) (\<lambda>d.
            uri_encode_loop path (Suc i) n (Suc i) (retstr\<lparr>sb_data := d, sb_len := sb_len retstr + 3\<rparr>))))))"

text \<open>A null argument gives a null result.\<close>

definition svn_path_uri_encode :: "svn_string_t option \<Rightarrow> svn_stringbuf_t option svn_result" where
  "svn_path_uri_encode path_opt =
     (case path_opt of
        None \<Rightarrow> Ok None
      | Some path \<Rightarrow>
          (let len = unat (st_len path) in
           svn_bind (svn_stringbuf_create []) (\<lambda>retstr.
           svn_bind (uri_encode_loop path 0 len 0 retstr) (\<lambda>(copied, retstr).
           svn_bind (uri_flush path copied len retstr) (\<lambda>retstr.
           svn_bind (svn_stringbuf_ensure retstr (sb_len retstr + 1)) (\<lambda>retstr.
           svn_bind (mem_set (sb_data retstr) (unat (sb_len retstr)) NUL) (\<lambda>d.
             Ok (Some (retstr\<lparr>sb_data := d\<rparr>)))))))))"

section \<open>Unescaping\<close>

text \<open>\<open>strtol\<close> in base 16: blanks, a sign, an optional \<open>0x\<close> before a digit, and digits.\<close>

definition hex_value :: "char \<Rightarrow> nat option" where
  "hex_value c =
     (if 48 \<le> schar c \<and> schar c \<le> 57 then Some (nat (schar c - 48))
      else if 65 \<le> schar c \<and> schar c \<le> 70 then Some (nat (schar c - 55))
      else if 97 \<le> schar c \<and> schar c \<le> 102 then Some (nat (schar c - 87))
      else None)"

fun strtol_digits :: "nat \<Rightarrow> bytes \<Rightarrow> nat" where
  "strtol_digits v [] = v"
| "strtol_digits v (c # cs) = (case hex_value c of None \<Rightarrow> v | Some d \<Rightarrow> strtol_digits (16 * v + d) cs)"

fun strtol_prefix :: "bytes \<Rightarrow> bytes" where
  "strtol_prefix (z # x # d # cs) =
     (if z = CHR ''0'' \<and> (x = CHR ''x'' \<or> x = CHR ''X'') \<and> hex_value d \<noteq> None then d # cs else z # x # d # cs)"
| "strtol_prefix cs = cs"

definition strtol_16 :: "bytes \<Rightarrow> int" where
  "strtol_16 s =
     (case dropWhile apr_isspace s of
        [] \<Rightarrow> 0
      | c # cs \<Rightarrow>
          if c = CHR ''-'' then - int (strtol_digits 0 (strtol_prefix cs))
          else if c = CHR ''+'' then int (strtol_digits 0 (strtol_prefix cs))
          else int (strtol_digits 0 (strtol_prefix (c # cs))))"

text \<open>The bytes of \<open>digitz\<close> before its null byte.\<close>

definition digitz :: "char \<Rightarrow> char \<Rightarrow> bytes" where
  "digitz c1 c2 = takeWhile (\<lambda>c. c \<noteq> NUL) [c1, c2]"

function uri_decode_loop ::
  "svn_string_t \<Rightarrow> nat \<Rightarrow> bool \<Rightarrow> svn_stringbuf_t \<Rightarrow> svn_stringbuf_t svn_result"
where
  "uri_decode_loop path i query_start retstr =
     (if i < unat (st_len path) then
        svn_bind (mem_get (st_data path) i) (\<lambda>c.
        svn_bind
          (if c = CHR ''?'' then Ok (c, 0, True)
           else if c = CHR ''+'' \<and> query_start then Ok (CHR '' '', 0, query_start)
           else if c = CHR ''%'' then
             svn_bind (mem_get (st_data path) (i + 1)) (\<lambda>c1.
             svn_bind (mem_get (st_data path) (i + 2)) (\<lambda>c2.
               Ok (char_of (strtol_16 (digitz c1 c2)), 2, query_start)))
           else Ok (c, 0, query_start)) (\<lambda>(c, more_read, query_start).
        svn_bind (mem_set (sb_data retstr) (unat (sb_len retstr)) c) (\<lambda>d.
          uri_decode_loop path (i + more_read + 1) query_start (retstr\<lparr>sb_data := d, sb_len := sb_len retstr + 1\<rparr>))))
      else Ok retstr)"
  by pat_completeness auto
termination
  by (relation "measure (\<lambda>(path, i, q, r). unat (st_len path) - i)") auto

declare uri_decode_loop.simps [simp del]

definition svn_path_uri_decode :: "svn_string_t option \<Rightarrow> svn_stringbuf_t option svn_result" where
  "svn_path_uri_decode path_opt =
     (case path_opt of
        None \<Rightarrow> Ok None
      | Some path \<Rightarrow>
          svn_bind (svn_stringbuf_create []) (\<lambda>retstr.
          svn_bind (svn_stringbuf_ensure retstr (st_len path)) (\<lambda>retstr.
          svn_bind (uri_decode_loop path 0 False (retstr\<lparr>sb_len := 0\<rparr>)) (\<lambda>retstr.
          svn_bind (mem_set (sb_data retstr) (unat (sb_len retstr)) NUL) (\<lambda>d.
            Ok (Some (retstr\<lparr>sb_data := d\<rparr>)))))))"

section \<open>What unescaping gives\<close>

fun uri_text :: "bool \<Rightarrow> bytes \<Rightarrow> bytes option" where
  "uri_text q [] = Some []"
| "uri_text q (c # cs) =
     (if c = CHR ''?'' then map_option ((#) c) (uri_text True cs)
      else if c = CHR ''+'' \<and> q then map_option ((#) (CHR '' '')) (uri_text q cs)
      else if c = CHR ''%'' then
        (case cs of
           c1 # c2 # r \<Rightarrow> map_option ((#) (char_of (strtol_16 (digitz c1 c2)))) (uri_text q r)
         | _ \<Rightarrow> None)
      else map_option ((#) c) (uri_text q cs))"

lemma uri_text_length: "uri_text q s = Some out \<Longrightarrow> length out \<le> length s"
  by (induction q s arbitrary: out rule: uri_text.induct)
     (fastforce split: if_splits list.splits)+

text \<open>The size of the block: the least power of two that is not below the length.\<close>

function grow :: "nat \<Rightarrow> nat \<Rightarrow> nat" where
  "grow b n = (if b = 0 \<or> n \<le> b then b else grow (b * 2) n)"
  by pat_completeness auto
termination
  by (relation "measure (\<lambda>(b, n). n - b)") auto

declare grow.simps [simp del]

lemma grow_ge: "0 < b \<Longrightarrow> n \<le> grow b n"
proof (induction b n rule: grow.induct)
  case (1 b n)
  then show ?case by (subst grow.simps) auto
qed

lemma grow_less: "0 < b \<Longrightarrow> grow b n \<le> b \<or> grow b n < 2 * n"
proof (induction b n rule: grow.induct)
  case (1 b n)
  show ?case
  proof (cases "n \<le> b")
    case False
    with 1 have "grow (b * 2) n \<le> b * 2 \<or> grow (b * 2) n < 2 * n" by simp
    with 1 False show ?thesis by (subst (1 2) grow.simps) auto
  qed (subst grow.simps, simp)
qed

lemma double_blocksize_grow:
  assumes "0 < b" and "unat n \<le> b * 2 ^ k" and "b * 2 ^ k < 2 ^ 64"
  shows "double_blocksize k (of_nat b) n = Some (of_nat (grow b (unat n)))"
  using assms
proof (induction k arbitrary: b)
  case 0
  then have "unat (of_nat b :: 64 word) = b" by (simp add: unat_of_nat64)
  with 0 show ?case by (subst grow.simps) (simp add: word_less_nat_alt)
next
  case (Suc k)
  have "b < 2 ^ 64" using Suc.prems(3) by (metis le_less_trans nat_mult_le_cancel1 one_le_numeral one_le_power mult.right_neutral le_refl mult_le_mono)
  then have u: "unat (of_nat b :: 64 word) = b" by (simp add: unat_of_nat64)
  have "double_blocksize k (of_nat (b * 2)) n = Some (of_nat (grow (b * 2) (unat n)))"
    using Suc.IH [of "b * 2"] Suc.prems by (simp add: mult.assoc)
  then show ?case using Suc.prems(1) u by (subst grow.simps) (simp add: word_less_nat_alt)
qed

lemma double_blocksize_more: "double_blocksize k b n = Some r \<Longrightarrow> double_blocksize (Suc k) b n = Some r"
proof (induction k arbitrary: b)
  case (Suc k)
  show ?case
  proof (cases "b < n")
    case True
    with Suc.prems have "double_blocksize k (b * 2) n = Some r" by simp
    from Suc.IH [OF this] True show ?thesis by (simp only: double_blocksize.simps if_True)
  qed (use Suc.prems in simp)
qed (simp split: if_splits)

lemma ensure_grow:
  assumes "unat n < 2 ^ 62"
  shows "\<exists>d. svn_stringbuf_ensure \<lparr>sb_data = [Some NUL], sb_len = 0, sb_blocksize = 1\<rparr> n =
      Ok \<lparr>sb_data = d, sb_len = 0, sb_blocksize = of_nat (grow 1 (unat n))\<rparr> \<and> length d = grow 1 (unat n)"
proof (cases "1 < n")
  case True
  have "double_blocksize 62 (of_nat 1) n = Some (of_nat (grow 1 (unat n)))"
    using assms by (intro double_blocksize_grow) simp_all
  then have "double_blocksize (Suc (Suc 62)) 1 n = Some (of_nat (grow 1 (unat n)))"
    by (intro double_blocksize_more) simp
  then have b: "double_blocksize 64 1 n = Some (of_nat (grow 1 (unat n)))" by (simp add: eval_nat_numeral)
  have "grow 1 (unat n) < 2 ^ 64" using grow_less [of 1 "unat n"] assms True by (auto simp: word_less_nat_alt)
  then have "unat (of_nat (grow 1 (unat n)) :: 64 word) = grow 1 (unat n)" by (simp add: unat_of_nat64)
  with True b show ?thesis
    by (simp add: svn_stringbuf_ensure_def my__realloc_def memcpy_def apr_palloc_def)
next
  case False
  then have "grow 1 (unat n) = 1" by (subst grow.simps) (simp add: word_less_nat_alt)
  with False show ?thesis by (simp add: svn_stringbuf_ensure_def)
qed

lemma st_read:
  assumes "st_ok path" and "i < length (st_contents path)"
  shows "mem_get (st_data path) i = Ok (st_contents path ! i)"
proof -
  have "i < length (st_data path)" "i < unat (st_len path)" "st_data path ! i \<noteq> None"
    using assms by (auto simp: st_ok_def st_contents_def in_set_conv_nth)
  then show ?thesis by (auto simp: mem_get_def st_contents_def split: option.splits)
qed

lemma st_len_contents: "st_ok path \<Longrightarrow> unat (st_len path) = length (st_contents path)"
  by (simp add: st_ok_def st_contents_def)

text \<open>A buffer of given bytes at the beginning of its block.\<close>

definition holds :: "svn_stringbuf_t \<Rightarrow> bytes \<Rightarrow> bool" where
  "holds r pre \<longleftrightarrow> sb_len r = of_nat (length pre) \<and> take (length pre) (sb_data r) = map Some pre \<and>
     length pre \<le> length (sb_data r)"

lemma holds_put:
  assumes "holds r pre" and "length pre < length (sb_data r)" and "length (sb_data r) < 2 ^ 63"
  shows "\<exists>d. mem_set (sb_data r) (unat (sb_len r)) c = Ok d \<and> length d = length (sb_data r) \<and>
    holds (r\<lparr>sb_data := d, sb_len := sb_len r + 1\<rparr>) (pre @ [c])"
proof -
  have u: "unat (sb_len r) = length pre" using assms by (simp add: holds_def unat_of_nat64)
  with assms show ?thesis
    by (simp add: holds_def mem_set_def take_Suc_conv_app_nth)
qed

lemma uri_decode_loop_text:
  assumes "st_ok path" and "uri_text q (drop i (st_contents path)) = Some out" and "i \<le> length (st_contents path)"
    and "holds r pre" and "length pre + length out \<le> length (sb_data r)" and "length (sb_data r) < 2 ^ 63"
  shows "\<exists>r'. uri_decode_loop path i q r = Ok r' \<and> holds r' (pre @ out) \<and> length (sb_data r') = length (sb_data r) \<and>
    sb_blocksize r' = sb_blocksize r"
  using assms(2-)
proof (induction "length (st_contents path) - i" arbitrary: i q out r pre rule: less_induct)
  case less
  let ?s = "st_contents path"
  show ?case
  proof (cases "i < length ?s")
    case False
    then have "out = []" using less.prems(1) by simp
    with False less.prems(3) st_len_contents [OF assms(1)] show ?thesis by (subst uri_decode_loop.simps) simp
  next
    case True
    have d: "drop i ?s = ?s ! i # drop (Suc i) ?s" by (rule Cons_nth_drop_Suc [OF True, symmetric])
    have step: "\<exists>r'. svn_bind (mem_set (sb_data r) (unat (sb_len r)) c) (\<lambda>d. uri_decode_loop path j q'
          (r\<lparr>sb_data := d, sb_len := sb_len r + 1\<rparr>)) = Ok r' \<and> holds r' (pre @ out) \<and>
          length (sb_data r') = length (sb_data r) \<and> sb_blocksize r' = sb_blocksize r"
      if o: "out = c # o1" "uri_text q' (drop j ?s) = Some o1" "i < j" "j \<le> length ?s" for c o1 j q'
    proof -
      have "length pre < length (sb_data r)" using less.prems(4) o(1) by simp
      from holds_put [OF less.prems(3) this less.prems(5), of c] obtain d where
        d: "mem_set (sb_data r) (unat (sb_len r)) c = Ok d" "length d = length (sb_data r)"
          "holds (r\<lparr>sb_data := d, sb_len := sb_len r + 1\<rparr>) (pre @ [c])" by blast
      have "length ?s - j < length ?s - i" using o(3) True by simp
      from less.hyps [OF this o(2,4) d(3)] d less.prems(4,5) o(1) show ?thesis by simp
    qed
    have run: "uri_decode_loop path i q r = svn_bind
          (if ?s ! i = CHR ''?'' then Ok (?s ! i, 0, True)
           else if ?s ! i = CHR ''+'' \<and> q then Ok (CHR '' '', 0, q)
           else if ?s ! i = CHR ''%'' then
             svn_bind (mem_get (st_data path) (i + 1)) (\<lambda>c1.
             svn_bind (mem_get (st_data path) (i + 2)) (\<lambda>c2.
               Ok (char_of (strtol_16 (digitz c1 c2)), 2, q)))
           else Ok (?s ! i, 0, q)) (\<lambda>(c, more_read, q).
        svn_bind (mem_set (sb_data r) (unat (sb_len r)) c) (\<lambda>d.
          uri_decode_loop path (i + more_read + 1) q (r\<lparr>sb_data := d, sb_len := sb_len r + 1\<rparr>)))"
      using True st_read [OF assms(1) True] st_len_contents [OF assms(1)] by (subst uri_decode_loop.simps) simp
    consider (query) "?s ! i = CHR ''?''" | (plus) "?s ! i = CHR ''+''" q | (escape) "?s ! i = CHR ''%''"
      | (plain) "?s ! i \<noteq> CHR ''?''" "\<not> (?s ! i = CHR ''+'' \<and> q)" "?s ! i \<noteq> CHR ''%''" by blast
    then show ?thesis
    proof cases
      case query
      with less.prems(1) d obtain o1 where "out = ?s ! i # o1" "uri_text True (drop (Suc i) ?s) = Some o1" by auto
      with step [of "?s ! i" o1 True "Suc i"] True query show ?thesis by (simp add: run)
    next
      case plus
      with less.prems(1) d obtain o1 where "out = CHR '' '' # o1" "uri_text q (drop (Suc i) ?s) = Some o1" by auto
      with step [of "CHR '' ''" o1 q "Suc i"] True plus show ?thesis unfolding run by simp
    next
      case escape
      with less.prems(1) d obtain c1 c2 w o1 where w: "drop (Suc i) ?s = c1 # c2 # w"
        "out = char_of (strtol_16 (digitz c1 c2)) # o1" "uri_text q w = Some o1"
        by (auto split: list.splits)
      have len: "Suc (Suc (Suc i)) \<le> length ?s" using arg_cong [OF w(1), of length] by simp
      have "?s ! Suc i = c1" "?s ! Suc (Suc i) = c2" "drop (Suc (Suc (Suc i))) ?s = w"
        using w(1) len nth_drop [of "Suc i" ?s 0] nth_drop [of "Suc i" ?s 1] drop_drop [of 2 "Suc i" ?s] by simp_all
      with step [of "char_of (strtol_16 (digitz c1 c2))" o1 q "Suc (Suc (Suc i))"] w(2,3) len escape
      show ?thesis by (simp add: run st_read [OF assms(1)])
    next
      case plain
      with less.prems(1) d obtain o1 where "out = ?s ! i # o1" "uri_text q (drop (Suc i) ?s) = Some o1" by auto
      with step [of "?s ! i" o1 q "Suc i"] True plain(1,3) show ?thesis
        unfolding run if_not_P [OF plain(2)] by simp
    qed
  qed
qed

text \<open>
  Unescaping a path whose escapes are complete gives its text when the text is shorter
  than the least power of two that is not below the length of the path, which is the size of
  the block; otherwise the terminating null byte is stored outside the block.  In particular
  a path without escapes whose length is a power of two overruns its buffer.
\<close>

lemma uri_decode_result:
  assumes "st_ok path" and "uri_text False (st_contents path) = Some out" and "length (st_contents path) < 2 ^ 62"
  shows "if length out < grow 1 (length (st_contents path))
    then \<exists>r. svn_path_uri_decode (Some path) = Ok (Some r) \<and> sb_ok r \<and> sb_contents r = out
    else svn_path_uri_decode (Some path) = Abort"
proof -
  let ?n = "length (st_contents path)" and ?b = "grow 1 (length (st_contents path))"
  have n: "unat (st_len path) = ?n" by (rule st_len_contents [OF assms(1)])
  have b: "?n \<le> ?b" "?b < 2 ^ 63" using grow_ge [of 1 ?n] grow_less [of 1 ?n] assms(3) by auto
  have "svn_stringbuf_create [] = Ok \<lparr>sb_data = [Some NUL], sb_len = 0, sb_blocksize = 1\<rparr>" by code_simp
  moreover obtain d where d: "svn_stringbuf_ensure \<lparr>sb_data = [Some NUL], sb_len = 0, sb_blocksize = 1\<rparr> (st_len path) =
      Ok \<lparr>sb_data = d, sb_len = 0, sb_blocksize = of_nat ?b\<rparr>" "length d = ?b"
    using ensure_grow [of "st_len path"] assms(3) n by auto
  moreover obtain r where r: "uri_decode_loop path 0 False \<lparr>sb_data = d, sb_len = 0, sb_blocksize = of_nat ?b\<rparr> = Ok r"
    "holds r out" "length (sb_data r) = ?b" "sb_blocksize r = of_nat ?b"
    using uri_decode_loop_text [OF assms(1), of False 0 out "\<lparr>sb_data = d, sb_len = 0, sb_blocksize = of_nat ?b\<rparr>" "[]"]
      assms(2) d(2) b uri_text_length [OF assms(2)] by (auto simp: holds_def)
  ultimately have run: "svn_path_uri_decode (Some path) =
      svn_bind (mem_set (sb_data r) (unat (sb_len r)) NUL) (\<lambda>d. Ok (Some (r\<lparr>sb_data := d\<rparr>)))"
    by (simp add: svn_path_uri_decode_def)
  have o: "length out \<le> ?n" by (rule uri_text_length [OF assms(2)])
  then have u: "unat (sb_len r) = length out" "unat (sb_blocksize r) = ?b"
    using r(2,4) b by (simp_all add: holds_def unat_of_nat64)
  show ?thesis
  proof (cases "length out < ?b")
    case True
    let ?r = "r\<lparr>sb_data := (sb_data r)[length out := Some NUL]\<rparr>"
    have t: "take (length out) (sb_data ?r) = map Some out" using r(2) by (simp add: holds_def)
    then have "sb_ok ?r" "sb_contents ?r = out"
      using True u r(3) by (auto simp: sb_ok_def sb_shape_def sb_contents_def)
    with True run u(1) r(3) show ?thesis by (simp add: mem_set_def)
  next
    case False
    with run u(1) r(3) show ?thesis by (simp add: mem_set_def)
  qed
qed

text \<open>Escaping can overrun its buffer too: the null byte that \<open>sprintf\<close> stores is not counted.\<close>

lemma uri_encode_overrun:
  "svn_bind (svn_string_create ''a b'') (\<lambda>path. svn_path_uri_encode (Some path)) = Abort"
  by code_simp

lemma uri_encode_space:
  "svn_bind (svn_string_create ''ab c'') (\<lambda>path.
     svn_bind (svn_path_uri_encode (Some path)) (\<lambda>r. Ok (map_option sb_contents r))) = Ok (Some ''ab%20c'')"
  by code_simp

end
