(* ===== verification/Key_Gen.thy ===== *)
theory Key_Gen
  imports Prelude
begin

text \<open>
  The number and key conversions of \<open>libsvn_fs/key-gen.c\<close>: decimal numbers in 64-bit words,
  read with an overflow check that does not itself overflow and written most significant digit
  first, and the base-36 keys of the representations and strings tables.
\<close>

section \<open>Text to numbers\<close>

definition is_digit :: "char \<Rightarrow> bool" where
  "is_digit c \<longleftrightarrow> 48 \<le> (of_char c :: nat) \<and> (of_char c :: nat) \<le> 57"

definition digit_of :: "char \<Rightarrow> nat" where
  "digit_of c = of_char c - 48"

text \<open>\<open>None\<close> is the null end pointer; the bytes returned are those from the end pointer on.\<close>

fun getsize_loop :: "apr_size_t \<Rightarrow> apr_size_t \<Rightarrow> apr_size_t \<Rightarrow> bytes \<Rightarrow> (apr_size_t \<times> bytes) option" where
  "getsize_loop max_prefix max_digit v [] = Some (v, [])"
| "getsize_loop max_prefix max_digit v (c # cs) =
     (if is_digit c then
        (let digit = of_nat (digit_of c) in
         if max_prefix < v \<or> (v = max_prefix \<and> max_digit < digit) then None
         else getsize_loop max_prefix max_digit (v * 10 + digit) cs)
      else Some (v, c # cs))"

definition svn_fs__getsize :: "bytes \<Rightarrow> apr_size_t \<Rightarrow> (apr_size_t \<times> bytes) option" where
  "svn_fs__getsize data mx =
     (case getsize_loop (mx div 10) (mx mod 10) 0 data of
        None \<Rightarrow> None
      | Some (v, rest) \<Rightarrow> if length rest = length data then None else Some (v, rest))"

section \<open>Numbers to text\<close>

text \<open>The digits, least significant first; \<open>acc\<close> is \<open>data[0..i)\<close>.\<close>

function putsize_digits :: "nat \<Rightarrow> apr_size_t \<Rightarrow> bytes \<Rightarrow> bytes option" where
  "putsize_digits len v acc =
     (if len \<le> length acc then None
      else
        (let acc' = acc @ [char_of (unat (v mod 10) + 48)] in
         if 0 < v div 10 then putsize_digits len (v div 10) acc' else Some acc'))"
  by pat_completeness auto
termination
  by (relation "measure (\<lambda>(len, v, acc). len - length acc)") auto

declare putsize_digits.simps [simp del]

text \<open>The exchange loop that puts the digits in order.\<close>

function swap_loop :: "'a list \<Rightarrow> nat \<Rightarrow> nat \<Rightarrow> 'a list" where
  "swap_loop data left right =
     (if left < right
      then swap_loop (data[left := data ! right, right := data ! left]) (Suc left) (right - 1)
      else data)"
  by pat_completeness auto
termination
  by (relation "measure (\<lambda>(data, left, right). right - left)") auto

declare swap_loop.simps [simp del]

text \<open>\<open>None\<close> is the result zero, otherwise the bytes written.\<close>

definition svn_fs__putsize :: "nat \<Rightarrow> apr_size_t \<Rightarrow> bytes option" where
  "svn_fs__putsize len v =
     map_option (\<lambda>data. swap_loop data 0 (length data - 1)) (putsize_digits len v [])"

section \<open>Keys\<close>

definition svn_fs__next_key_key :: bytes where
  "svn_fs__next_key_key = ''next-key''"

definition is_key_char :: "char \<Rightarrow> bool" where
  "is_key_char c \<longleftrightarrow> is_digit c \<or> (97 \<le> (of_char c :: nat) \<and> (of_char c :: nat) \<le> 122)"

text \<open>
  The loop over the indices below \<open>n\<close>, downwards; \<open>acc\<close> is \<open>next[n..olen)\<close>.  \<open>None\<close> is
  the return with \<open>*len = 0\<close>.
\<close>

primrec next_key_loop :: "bytes \<Rightarrow> nat \<Rightarrow> bool \<Rightarrow> bytes \<Rightarrow> (bool \<times> bytes) option" where
  "next_key_loop this 0 carry acc = Some (carry, acc)"
| "next_key_loop this (Suc i) carry acc =
     (let c = this ! i in
      if \<not> is_key_char c then None
      else if carry then
        (if c = CHR ''z'' then next_key_loop this i True (CHR ''0'' # acc)
         else next_key_loop this i False
                ((if c = CHR ''9'' then CHR ''a'' else char_of (of_char c + 1 :: nat)) # acc))
      else next_key_loop this i False (c # acc))"

definition svn_fs__next_key :: "bytes \<Rightarrow> bytes option" where
  "svn_fs__next_key this =
     (if 1 < length this \<and> this ! 0 = CHR ''0'' then None
      else map_option (\<lambda>(carry, next). if carry then CHR ''1'' # next else next)
             (next_key_loop this (length this) True []))"

section \<open>Decimal notation\<close>

definition dec_value :: "bytes \<Rightarrow> nat" where
  "dec_value ds = foldl (\<lambda>v c. 10 * v + digit_of c) 0 ds"

fun dec_digits :: "nat \<Rightarrow> bytes" where
  "dec_digits n = (if n < 10 then [char_of (n + 48)] else dec_digits (n div 10) @ [char_of (n mod 10 + 48)])"

declare dec_digits.simps [simp del]

lemma digit_char [simp]:
  assumes "n < 10"
  shows "is_digit (char_of (n + 48 :: nat))" and "digit_of (char_of (n + 48 :: nat)) = n"
  using assms by (simp_all add: is_digit_def digit_of_def of_char_of)

lemma digit_of_less: "is_digit c \<Longrightarrow> digit_of c < 10"
  by (auto simp: is_digit_def digit_of_def)

lemma dec_value_append: "dec_value (ds @ [c]) = 10 * dec_value ds + digit_of c"
  by (simp add: dec_value_def)

lemma dec_digits_digits: "\<forall>c \<in> set (dec_digits n). is_digit c"
proof (induction n rule: dec_digits.induct)
  case (1 n)
  then show ?case by (subst dec_digits.simps) auto
qed

lemma dec_value_digits [simp]: "dec_value (dec_digits n) = n"
proof (induction n rule: dec_digits.induct)
  case (1 n)
  show ?case
  proof (cases "n < 10")
    case True
    then show ?thesis by (subst dec_digits.simps) (simp add: dec_value_def)
  next
    case False
    with 1 show ?thesis by (subst dec_digits.simps) (simp add: dec_value_append)
  qed
qed

lemma dec_digits_nonempty [simp]: "dec_digits n \<noteq> []"
  by (subst dec_digits.simps) simp

section \<open>Reading a number\<close>

lemma foldl_digits_mono: "v \<le> foldl (\<lambda>v c. 10 * v + digit_of c) v ds"
proof (induction ds arbitrary: v)
  case (Cons c ds)
  from Cons.IH [of "10 * v + digit_of c"] show ?case by simp
qed simp

lemma getsize_loop_spec:
  assumes "unat v \<le> unat mx"
  shows "getsize_loop (mx div 10) (mx mod 10) v data =
    (let n = foldl (\<lambda>v c. 10 * v + digit_of c) (unat v) (takeWhile is_digit data) in
     if n \<le> unat mx then Some (of_nat n, dropWhile is_digit data) else None)"
  using assms
proof (induction data arbitrary: v)
  case Nil
  then show ?case by (simp add: Let_def)
next
  case (Cons c cs)
  show ?case
  proof (cases "is_digit c")
    case False
    with Cons.prems show ?thesis by (simp add: Let_def)
  next
    case True
    let ?d = "digit_of c" and ?n = "10 * unat v + digit_of c"
    have d: "?d < 10" by (rule digit_of_less [OF True])
    then have du: "unat (of_nat ?d :: 64 word) = ?d" by (simp add: unat_of_nat64)
    have over: "(mx div 10 < v \<or> (v = mx div 10 \<and> mx mod 10 < of_nat ?d)) \<longleftrightarrow> unat mx < ?n"
    proof -
      have mx: "unat mx = 10 * unat (mx div 10) + unat (mx mod 10)" "unat (mx mod 10) < 10"
        by (simp_all add: unat_div unat_mod)
      show ?thesis
        unfolding word_less_nat_alt word_unat_eq_iff du using mx d by auto
    qed
    show ?thesis
    proof (cases "unat mx < ?n")
      case True
      moreover have "?n \<le> foldl (\<lambda>v c. 10 * v + digit_of c) ?n (takeWhile is_digit cs)"
        by (rule foldl_digits_mono)
      ultimately show ?thesis using over \<open>is_digit c\<close> by (simp add: Let_def)
    next
      case False
      then have "unat (v * 10 + of_nat ?d) = ?n"
        using unat_lt64 [of mx] du by (simp add: unat_word_ariths)
      with Cons.IH [of "v * 10 + of_nat ?d"] False over \<open>is_digit c\<close> show ?thesis
        by (auto simp: Let_def)
    qed
  qed
qed

lemma getsize_spec:
  "svn_fs__getsize data mx =
    (let ds = takeWhile is_digit data in
     if ds \<noteq> [] \<and> dec_value ds \<le> unat mx then Some (of_nat (dec_value ds), dropWhile is_digit data) else None)"
proof -
  have "length (dropWhile is_digit data) = length data \<longleftrightarrow> takeWhile is_digit data = []"
    by (metis add_cancel_left_left length_0_conv length_append takeWhile_dropWhile_id)
  with getsize_loop_spec [of 0 mx data] show ?thesis
    by (simp add: svn_fs__getsize_def dec_value_def Let_def)
qed


section \<open>Writing a number\<close>

lemma swap_loop_rev:
  "xs \<noteq> [] \<Longrightarrow> swap_loop (p @ xs @ q) (length p) (length p + length xs - 1) = p @ rev xs @ q"
proof (induction xs arbitrary: p q rule: length_induct)
  case (1 xs)
  show ?case
  proof (cases "length xs = 1")
    case True
    then obtain x where "xs = [x]" by (cases xs) auto
    then show ?thesis by (subst swap_loop.simps) simp
  next
    case False
    then obtain a ys b where xs: "xs = a # ys @ [b]"
      using "1.prems" by (cases xs; cases "tl xs" rule: rev_cases) auto
    let ?l = "length p" and ?r = "length p + Suc (length ys)"
    let ?data = "p @ xs @ q"
    have "?data[?l := ?data ! ?r, ?r := ?data ! ?l] = p @ b # ys @ a # q"
      by (simp add: xs nth_append list_update_append)
    then have step: "swap_loop ?data ?l (length p + length xs - 1) = swap_loop ((p @ [b]) @ ys @ (a # q)) (length (p @ [b])) (?r - 1)"
      by (subst swap_loop.simps) (simp add: xs)
    show ?thesis
    proof (cases "ys = []")
      case True
      then show ?thesis unfolding step by (subst swap_loop.simps) (simp add: xs)
    next
      case False
      have "length ys < length xs" by (simp add: xs)
      from "1.IH" [rule_format, OF this False, of "p @ [b]" "a # q"] show ?thesis
        unfolding step by (simp add: xs)
    qed
  qed
qed

lemma putsize_digits_spec:
  "putsize_digits len v acc =
    (if length acc + length (dec_digits (unat v)) \<le> len then Some (acc @ rev (dec_digits (unat v))) else None)"
proof (induction len v acc rule: putsize_digits.induct)
  case (1 len v acc)
  have v: "0 < v div 10 \<longleftrightarrow> 10 \<le> unat v" "unat (v div 10) = unat v div 10" "unat (v mod 10) = unat v mod 10"
    by (simp_all add: word_less_nat_alt unat_div unat_mod div_greater_zero_iff)
  have pos: "0 < length (dec_digits n)" for n by simp
  show ?case
  proof (cases "length acc < len \<and> 10 \<le> unat v")
    case True
    then have "dec_digits (unat v) = dec_digits (unat v div 10) @ [char_of (unat v mod 10 + 48)]"
      by (subst dec_digits.simps) simp
    with True 1 show ?thesis by (subst putsize_digits.simps) (simp add: v)
  next
    case False
    then show ?thesis
      using pos [of "unat v"]
      by (subst putsize_digits.simps) (auto simp: v dec_digits.simps [of "unat v"])
  qed
qed

lemma putsize_spec:
  "svn_fs__putsize len v =
    (if length (dec_digits (unat v)) \<le> len then Some (dec_digits (unat v)) else None)"
proof -
  have "swap_loop (rev xs) 0 (length xs - 1) = xs" if "xs \<noteq> []" for xs :: bytes
    using swap_loop_rev [of "rev xs" "[]" "[]"] that by simp
  then show ?thesis by (simp add: svn_fs__putsize_def putsize_digits_spec)
qed

lemma dec_digits_length: "n < 10 ^ Suc k \<Longrightarrow> length (dec_digits n) \<le> Suc k"
proof (induction k arbitrary: n)
  case 0
  then show ?case by (subst dec_digits.simps) simp
next
  case (Suc k)
  then have "n div 10 < 10 ^ Suc k" by (simp add: div_less_iff_less_mult)
  from Suc.IH [OF this] show ?case by (subst dec_digits.simps) simp
qed

lemma takeWhile_dec_digits:
  assumes "x = [] \<or> \<not> is_digit (hd x)"
  shows "takeWhile is_digit (dec_digits n @ x) = dec_digits n" "dropWhile is_digit (dec_digits n @ x) = x"
proof -
  have "takeWhile is_digit x = []" "dropWhile is_digit x = x"
    using assms by (cases x; auto)+
  then show "takeWhile is_digit (dec_digits n @ x) = dec_digits n" "dropWhile is_digit (dec_digits n @ x) = x"
    using dec_digits_digits [of n] by (simp_all add: takeWhile_append2 dropWhile_append2)
qed

lemma getsize_dec_digits:
  assumes "x = [] \<or> \<not> is_digit (hd x)" and "n \<le> unat mx"
  shows "svn_fs__getsize (dec_digits n @ x) mx = Some (of_nat n, x)"
  using takeWhile_dec_digits [OF assms(1)] assms(2) by (simp add: getsize_spec)


section \<open>Base-36 notation\<close>

definition key_digit :: "char \<Rightarrow> nat" where
  "key_digit c = (if is_digit c then digit_of c else of_char c - 87)"

definition key_char :: "nat \<Rightarrow> char" where
  "key_char d = (if d < 10 then char_of (d + 48) else char_of (d + 87))"

definition key_value :: "bytes \<Rightarrow> nat" where
  "key_value k = foldl (\<lambda>v c. 36 * v + key_digit c) 0 k"

fun key_digits :: "nat \<Rightarrow> bytes" where
  "key_digits n = (if n < 36 then [key_char n] else key_digits (n div 36) @ [key_char (n mod 36)])"

declare key_digits.simps [simp del]

text \<open>Digits and lower-case letters only, no leading zero except in the key \<open>0\<close>.\<close>

definition valid_key :: "bytes \<Rightarrow> bool" where
  "valid_key k \<longleftrightarrow> k \<noteq> [] \<and> (\<forall>c \<in> set k. is_key_char c) \<and> (1 < length k \<longrightarrow> k ! 0 \<noteq> CHR ''0'')"

lemma key_char_digit: "is_key_char c \<Longrightarrow> key_char (key_digit c) = c"
  by (auto simp: is_key_char_def is_digit_def key_char_def key_digit_def digit_of_def)

lemma key_digit_less: "is_key_char c \<Longrightarrow> key_digit c < 36"
  by (auto simp: is_key_char_def is_digit_def key_digit_def digit_of_def)

lemma key_digit_zero: "is_key_char c \<Longrightarrow> key_digit c = 0 \<longleftrightarrow> c = CHR ''0''"
  unfolding char_eq_nat [of c "CHR ''0''"]
  by (auto simp: is_key_char_def is_digit_def key_digit_def digit_of_def)

lemma key_value_append: "key_value (k @ [c]) = 36 * key_value k + key_digit c"
  by (simp add: key_value_def)

lemma key_value_pos:
  "\<forall>c \<in> set k. is_key_char c \<Longrightarrow> k \<noteq> [] \<Longrightarrow> k ! 0 \<noteq> CHR ''0'' \<Longrightarrow> 0 < key_value k"
proof (induction k rule: rev_induct)
  case (snoc c k)
  show ?case
  proof (cases "k = []")
    case True
    with snoc.prems show ?thesis by (auto simp: key_value_def key_digit_zero neq0_conv [symmetric] simp del: neq0_conv)
  next
    case False
    with snoc show ?thesis by (simp add: key_value_append nth_append)
  qed
qed simp

text \<open>A valid key is the base-36 notation of its value.\<close>

lemma key_digits_value:
  "valid_key k \<Longrightarrow> key_digits (key_value k) = k"
proof (induction k rule: rev_induct)
  case (snoc c k)
  then have c: "is_key_char c" by (simp add: valid_key_def)
  show ?case
  proof (cases "k = []")
    case True
    with c key_digit_less [OF c] show ?thesis
      by (subst key_digits.simps) (simp add: key_value_def key_char_digit)
  next
    case False
    with snoc.prems have k: "valid_key k" "k ! 0 \<noteq> CHR ''0''"
      by (auto simp: valid_key_def nth_append)
    then have "0 < key_value k" by (intro key_value_pos) (auto simp: valid_key_def)
    with snoc.IH [OF k(1)] c key_digit_less [OF c] show ?thesis
      by (subst key_digits.simps) (simp add: key_value_append key_char_digit)
  qed
qed (simp add: valid_key_def)

lemma next_key_loop_None:
  "next_key_loop this n carry acc = None \<longleftrightarrow> (\<exists>i < n. \<not> is_key_char (this ! i))"
  by (induction n arbitrary: carry acc) (auto simp: Let_def less_Suc_eq)

lemma key_char_succ:
  assumes "is_key_char c" and "c \<noteq> CHR ''z''"
  defines "d \<equiv> (if c = CHR ''9'' then CHR ''a'' else char_of (of_char c + 1 :: nat))"
  shows "is_key_char d \<and> key_digit d = Suc (key_digit c)"
proof -
  have n: "of_char c < (256 :: nat)" by simp
  have "of_char c \<noteq> (122 :: nat)"
    using assms(2) unfolding char_eq_nat [of c] by simp
  moreover have "c = CHR ''9'' \<longleftrightarrow> of_char c = (57 :: nat)"
    unfolding char_eq_nat [of c] by simp
  ultimately show ?thesis
    using assms(1) unfolding d_def
    by (auto simp: is_key_char_def is_digit_def key_digit_def digit_of_def of_char_of)
qed

lemma next_key_loop_Some:
  "\<forall>i < n. is_key_char (this ! i) \<Longrightarrow> n \<le> length this \<Longrightarrow>
   \<exists>c q. next_key_loop this n carry acc = Some (c, q @ acc) \<and> length q = n \<and> (\<forall>x \<in> set q. is_key_char x) \<and>
     key_value q + of_bool c * 36 ^ n = key_value (take n this) + of_bool carry"
proof (induction n arbitrary: carry acc)
  case 0
  then show ?case by (auto simp: key_value_def)
next
  case (Suc i)
  let ?c = "this ! i"
  have c: "is_key_char ?c" using Suc.prems by simp
  have tk: "take (Suc i) this = take i this @ [?c]" using Suc.prems by (simp add: take_Suc_conv_app_nth)
  consider (z) "carry" "?c = CHR ''z''" | (inc) "carry" "?c \<noteq> CHR ''z''" | (copy) "\<not> carry" by blast
  then show ?case
  proof cases
    case z
    obtain c' q where "next_key_loop this i True (CHR ''0'' # acc) = Some (c', q @ CHR ''0'' # acc)" "length q = i"
      "\<forall>x \<in> set q. is_key_char x" "key_value q + of_bool c' * 36 ^ i = key_value (take i this) + of_bool True"
      using Suc.IH [of True "CHR ''0'' # acc"] Suc.prems by auto
    moreover have "key_digit CHR ''z'' = 35" "is_key_char CHR ''0''" "key_digit CHR ''0'' = 0"
      by (simp_all add: key_digit_def is_digit_def is_key_char_def digit_of_def)
    ultimately show ?thesis using z c
      by (intro exI [of _ c'] exI [of _ "q @ [CHR ''0'']"]) (auto simp: tk key_value_append)
  next
    case inc
    let ?d = "if ?c = CHR ''9'' then CHR ''a'' else char_of (of_char ?c + 1 :: nat)"
    obtain c' q where "next_key_loop this i False (?d # acc) = Some (c', q @ ?d # acc)" "length q = i"
      "\<forall>x \<in> set q. is_key_char x" "key_value q + of_bool c' * 36 ^ i = key_value (take i this)"
      using Suc.IH [of False "?d # acc"] Suc.prems by auto
    then show ?thesis using inc c key_char_succ [OF c inc(2)]
      by (intro exI [of _ c'] exI [of _ "q @ [?d]"]) (auto simp: tk key_value_append Let_def)
  next
    case copy
    obtain c' q where "next_key_loop this i False (?c # acc) = Some (c', q @ ?c # acc)" "length q = i"
      "\<forall>x \<in> set q. is_key_char x" "key_value q + of_bool c' * 36 ^ i = key_value (take i this)"
      using Suc.IH [of False "?c # acc"] Suc.prems by auto
    then show ?thesis using copy c
      by (intro exI [of _ c'] exI [of _ "q @ [?c]"]) (auto simp: tk key_value_append)
  qed
qed


lemma key_value_bound: "\<forall>c \<in> set k. is_key_char c \<Longrightarrow> key_value k < 36 ^ length k"
proof (induction k rule: rev_induct)
  case (snoc c k)
  then have "key_value k < 36 ^ length k" "key_digit c < 36" using key_digit_less by auto
  then have "key_value k + 1 \<le> 36 ^ length k" by simp
  then have "36 * (key_value k + 1) \<le> 36 * 36 ^ length k" by (rule mult_le_mono2)
  with \<open>key_digit c < 36\<close> show ?case by (simp add: key_value_append)
qed (simp add: key_value_def)

lemma key_value_Cons: "key_value (c # k) = key_digit c * 36 ^ length k + key_value k"
proof (induction k rule: rev_induct)
  case (snoc d k)
  have "key_value (c # k @ [d]) = 36 * key_value (c # k) + key_digit d"
    using key_value_append [of "c # k" d] by simp
  with snoc show ?case by (simp add: key_value_append algebra_simps)
qed (simp add: key_value_def)

lemma next_key_valid:
  assumes "valid_key k"
  shows "\<exists>k'. svn_fs__next_key k = Some k' \<and> valid_key k' \<and> key_value k' = Suc (key_value k) \<and>
    length k \<le> length k' \<and> length k' \<le> Suc (length k)"
proof -
  have k: "\<forall>i < length k. is_key_char (k ! i)" "k \<noteq> []" "1 < length k \<longrightarrow> k ! 0 \<noteq> CHR ''0''"
    using assms by (auto simp: valid_key_def)
  obtain c q where q: "next_key_loop k (length k) True [] = Some (c, q)" "length q = length k"
    "\<forall>x \<in> set q. is_key_char x" "key_value q + of_bool c * 36 ^ length k = Suc (key_value k)"
    using next_key_loop_Some [OF k(1), of True "[]"] by auto
  let ?k = "if c then CHR ''1'' # q else q"
  have "svn_fs__next_key k = Some ?k" using q(1) k(3) by (auto simp: svn_fs__next_key_def)
  moreover have one: "key_digit CHR ''1'' = 1" "is_key_char CHR ''1''"
    by (simp_all add: key_digit_def is_digit_def digit_of_def is_key_char_def)
  have v: "key_value ?k = Suc (key_value k)"
    using q(2,4) one by (cases c) (simp_all add: key_value_Cons)
  moreover have "valid_key ?k"
  proof (cases c)
    case True
    with q(3) one show ?thesis by (auto simp: valid_key_def)
  next
    case False
    have "q ! 0 \<noteq> CHR ''0''" if l: "1 < length q"
    proof
      assume z: "q ! 0 = CHR ''0''"
      obtain a p where k': "k = a # p" using k(2) by (cases k) auto
      then have a: "0 < key_digit a" using k l q(2) key_digit_zero [of a] by auto
      obtain r where r: "q = CHR ''0'' # r" using z l by (cases q) auto
      have "key_digit CHR ''0'' = 0" by (simp add: key_digit_def is_digit_def digit_of_def)
      then have "key_value q < 36 ^ length p"
        using key_value_bound [of r] q(2,3) r k' by (simp add: key_value_Cons)
      moreover have "36 ^ length p \<le> key_value k" using a by (simp add: k' key_value_Cons trans_le_add1)
      ultimately show False using v False by simp
    qed
    with False q k(2) show ?thesis by (auto simp: valid_key_def)
  qed
  ultimately show ?thesis using q(2) by auto
qed

section \<open>The properties\<close>

text \<open>
  C31. Keys are counted up in base 36: the next key after a valid one is the notation of its
  value plus one, which is again a valid key, so a table that starts at \<open>0\<close> never hands out a
  key twice; anything that is not a key is refused.
\<close>

theorem next_key_counts:
  "svn_fs__next_key k =
    (if (\<forall>c \<in> set k. is_key_char c) \<and> \<not> (1 < length k \<and> k ! 0 = CHR ''0'')
     then Some (key_digits (Suc (key_value k))) else None)"
proof (cases "valid_key k")
  case True
  from next_key_valid [OF True] obtain k' where
    "svn_fs__next_key k = Some k'" "valid_key k'" "key_value k' = Suc (key_value k)" by blast
  with key_digits_value [of k'] True show ?thesis by (auto simp: valid_key_def)
next
  case False
  show ?thesis
  proof (cases "k = []")
    case True
    have "key_digits 1 = ''1''"
      by (subst key_digits.simps) (simp add: key_char_def char_eq_nat of_char_of)
    with True show ?thesis by (simp add: svn_fs__next_key_def key_value_def)
  next
    case ne: False
    have "next_key_loop k (length k) True [] = None" if "\<exists>c \<in> set k. \<not> is_key_char c"
      using that by (auto simp: next_key_loop_None in_set_conv_nth)
    with ne False show ?thesis by (auto simp: svn_fs__next_key_def valid_key_def)
  qed
qed

theorem next_key_counts_witness:
  "svn_fs__next_key ''2zz'' = Some ''300'' \<and> svn_fs__next_key ''zz'' = Some ''100'' \<and>
   svn_fs__next_key ''0a'' = None"
  by (intro conjI; subst next_key_counts) code_simp+

text \<open>
  The number reader returns the value of the leading digits and what follows them exactly
  when there is a digit and the value is at most \<open>max\<close>: the overflow check is exact for every
  64-bit bound and every input length.
\<close>

lemma getsize_exact:
  "svn_fs__getsize data mx =
    (let ds = takeWhile is_digit data in
     if ds \<noteq> [] \<and> dec_value ds \<le> unat mx
     then Some (of_nat (dec_value ds), dropWhile is_digit data) else None)"
  by (rule getsize_spec)

text \<open>
  What the number writer writes, the number reader reads back, with the bytes after it
  untouched, and a buffer of 20 bytes is always enough.
\<close>

lemma putsize_getsize:
  assumes "20 \<le> len" and "v \<le> mx" and "x = [] \<or> \<not> is_digit (hd x)"
  shows "\<exists>ds. svn_fs__putsize len v = Some ds \<and> length ds \<le> 20 \<and> svn_fs__getsize (ds @ x) mx = Some (v, x)"
proof -
  have "unat v < 10 ^ Suc 19" using unat_lt64 [of v] by simp
  from dec_digits_length [OF this] have "length (dec_digits (unat v)) \<le> 20" by simp
  moreover have "unat v \<le> unat mx" using assms(2) by (simp add: word_le_nat_alt)
  ultimately show ?thesis
    using assms(1) getsize_dec_digits [OF assms(3), of "unat v" mx] by (simp add: putsize_spec)
qed

end
