(* ===== verification/Hashdump.thy ===== *)
theory Hashdump
  imports Svn_String Svn_Stream Key_Gen
begin

text \<open>
  Dumping hash tables to files and reading them back (\<open>libsvn_subr/hashdump.c\<close>).  A table is
  a map from keys to packaged values; the order in which APR's iterator delivers the entries is
  the order of the list that is written.  Files are those of \<open>Svn_Stream\<close>: the bytes still to
  be read, the bytes written, and the number of bytes after which the device fails.
\<close>

section \<open>Files\<close>


definition apr_file_getc :: "FILE \<Rightarrow> (char \<times> FILE) svn_result" where
  "apr_file_getc fp =
     (case fread fp 1 of
        (d, fp') \<Rightarrow>
          (case d of c # _ \<Rightarrow> Ok (c, fp') | [] \<Rightarrow> if fp_error fp' then Err APR_ERR else Err APR_EOF))"

definition apr_file_read_full :: "FILE \<Rightarrow> nat \<Rightarrow> (bytes \<times> FILE) svn_result" where
  "apr_file_read_full fp n =
     (case fread fp n of
        (d, fp') \<Rightarrow>
          if length d = n then Ok (d, fp') else if fp_error fp' then Err APR_ERR else Err APR_EOF)"

section \<open>Packaging\<close>



section \<open>Writing\<close>

definition SVN_KEYLINE_MAXLEN :: nat where
  "SVN_KEYLINE_MAXLEN = 100"



section \<open>Reading\<close>

fun read_length_loop :: "nat \<Rightarrow> bytes \<Rightarrow> FILE \<Rightarrow> (bytes \<times> FILE) svn_result" where
  "read_length_loop 0 buf fp = Err SVN_WARNING"
| "read_length_loop (Suc n) buf fp =
     svn_bind (apr_file_getc fp) (\<lambda>(c, fp).
       if c = CHR 0x0A then Ok (buf, fp) else read_length_loop n (buf @ [c]) fp)"

text \<open>The line without its newline; its length is the value left in \<open>*limit\<close>.\<close>

definition svn_io_read_length_line :: "FILE \<Rightarrow> nat \<Rightarrow> (bytes \<times> FILE) svn_result" where
  "svn_io_read_length_line fp limit = read_length_loop limit [] fp"

text \<open>\<open>atoi\<close>: blanks, a sign and digits; a value outside \<open>int\<close> is undefined.\<close>

definition atoi :: "bytes \<Rightarrow> int svn_result" where
  "atoi s =
     (let s1 = dropWhile apr_isspace s;
          neg = (s1 \<noteq> [] \<and> hd s1 = CHR ''-'');
          s2 = (if s1 \<noteq> [] \<and> (hd s1 = CHR ''-'' \<or> hd s1 = CHR ''+'') then tl s1 else s1);
          v = int (dec_value (takeWhile is_digit s2));
          r = (if neg then - v else v)
      in if - (2 ^ 31) \<le> r \<and> r < 2 ^ 31 then Ok r else Abort)"

text \<open>
  The bytes after a length line with the given letter, and the newline behind them.  A negative
  length becomes a huge count of bytes for a block of fewer bytes.
\<close>

definition hash_read_item :: "char \<Rightarrow> bytes \<Rightarrow> FILE \<Rightarrow> (nat \<times> bytes \<times> FILE) svn_result" where
  "hash_read_item letter line fp =
     (if take 2 line = [letter, CHR '' ''] then
        svn_bind (atoi (drop 2 line)) (\<lambda>len.
          if len < 0 then Abort
          else
            svn_bind (apr_file_read_full fp (nat len)) (\<lambda>(d, fp).
            svn_bind (apr_file_getc fp) (\<lambda>(c, fp).
              if c \<noteq> CHR 0x0A then Err SVN_ERR_MALFORMED_FILE else Ok (nat len, d, fp))))
      else Err SVN_ERR_MALFORMED_FILE)"

lemma fread_length: "fread fp n = (d, fp') \<Longrightarrow> length (fp_rest fp') + length d = length (fp_rest fp)"
  by (auto simp: fread_def Let_def)

lemma getc_shorter: "apr_file_getc fp = Ok (c, fp') \<Longrightarrow> length (fp_rest fp') < length (fp_rest fp)"
  by (cases "fread fp 1") (auto simp: apr_file_getc_def dest: fread_length split: list.splits if_splits)

lemma read_full_shorter: "apr_file_read_full fp n = Ok (d, fp') \<Longrightarrow> length (fp_rest fp') \<le> length (fp_rest fp)"
  by (cases "fread fp n") (auto simp: apr_file_read_full_def dest: fread_length split: if_splits)

lemma read_length_shorter: "read_length_loop n buf fp = Ok (line, fp') \<Longrightarrow> length (fp_rest fp') < length (fp_rest fp)"
proof (induction n arbitrary: buf fp)
  case (Suc n)
  then obtain c fp1 where g: "apr_file_getc fp = Ok (c, fp1)" by (auto simp: svn_bind_Ok_iff)
  from getc_shorter [OF g] Suc g show ?case by (fastforce split: if_splits)
qed simp

lemma read_item_shorter: "hash_read_item l line fp = Ok (n, d, fp') \<Longrightarrow> length (fp_rest fp') < length (fp_rest fp)"
  by (fastforce simp: hash_read_item_def svn_bind_Ok_iff dest: getc_shorter read_full_shorter split: if_splits)

text \<open>The file after an end of file has been reached.\<close>

definition at_eof :: "FILE \<Rightarrow> FILE" where
  "at_eof fp = snd (fread fp (length (fp_rest fp)))"

function svn_hash_read ::
  "(bytes \<rightharpoonup> 'v) \<Rightarrow> (nat \<Rightarrow> mem \<Rightarrow> 'v) \<Rightarrow> bool \<Rightarrow> FILE \<Rightarrow> ((bytes \<rightharpoonup> 'v) \<times> FILE) svn_result"
where
  "svn_hash_read hash pack_func first_time srcfile =
     (case svn_io_read_length_line srcfile SVN_KEYLINE_MAXLEN of
        Abort \<Rightarrow> Abort
      | Err e \<Rightarrow> if e = APR_EOF \<and> first_time then Ok (hash, at_eof srcfile) else Err e
      | Ok (line, file1) \<Rightarrow>
          if line = ''END'' then Ok (hash, file1)
          else
            (case hash_read_item (CHR ''K'') line file1 of
               Abort \<Rightarrow> Abort
             | Err e \<Rightarrow> Err e
             | Ok (keylen, keybuf, file2) \<Rightarrow>
                 (case svn_io_read_length_line file2 SVN_KEYLINE_MAXLEN of
                    Abort \<Rightarrow> Abort
                  | Err e \<Rightarrow> Err e
                  | Ok (line, file3) \<Rightarrow>
                      (case hash_read_item (CHR ''V'') line file3 of
                         Abort \<Rightarrow> Abort
                       | Err e \<Rightarrow> Err e
                       | Ok (vallen, valbuf, file4) \<Rightarrow>
                           svn_hash_read (hash(keybuf \<mapsto> pack_func vallen (map Some valbuf @ [Some NUL])))
                             pack_func False file4))))"
  by pat_completeness auto
termination
  by (relation "measure (\<lambda>(h, p, b, fp). length (fp_rest fp))")
     (auto simp: svn_io_read_length_line_def dest!: read_length_shorter read_item_shorter)

declare svn_hash_read.simps [simp del]

section \<open>What is written\<close>




lemma healthy_out [simp]: "healthy_file (fp\<lparr>fp_out := x\<rparr>) = healthy_file fp"
  "healthy_file (fp\<lparr>fp_rest := x\<rparr>) = healthy_file fp"
  by (simp_all add: healthy_file_def)



section \<open>What is read\<close>

lemma getc_healthy:
  assumes "healthy_file fp" and "fp_rest fp = c # cs"
  shows "apr_file_getc fp = Ok (c, fp\<lparr>fp_rest := cs\<rparr>)"
  using assms by (cases fp) (simp add: apr_file_getc_def fread_def healthy_file_def Let_def)












text \<open>
  Reading succeeds on any file without a newline, the empty file among them: the table is
  left as it was and the bytes are ignored.
\<close>

lemma hash_read_no_newline:
  assumes "healthy_file src" and "CHR 0x0A \<notin> set (fp_rest src)" and "length (fp_rest src) < SVN_KEYLINE_MAXLEN"
  shows "\<exists>src'. svn_hash_read h pack True src = Ok (h, src')"
proof -
  have "read_length_loop n buf fp = Err APR_EOF"
    if "healthy_file fp" "CHR 0x0A \<notin> set (fp_rest fp)" "length (fp_rest fp) < n" for n buf fp
    using that
  proof (induction n arbitrary: buf fp)
    case (Suc n)
    show ?case
    proof (cases "fp_rest fp")
      case Nil
      then have "apr_file_getc fp = Err APR_EOF" using Suc.prems(1)
        by (cases fp) (simp add: apr_file_getc_def fread_def healthy_file_def Let_def)
      then show ?thesis by simp
    next
      case (Cons c cs)
      with Suc getc_healthy [OF Suc.prems(1) Cons] show ?thesis by auto
    qed
  qed simp
  with assms show ?thesis by (subst svn_hash_read.simps) (simp add: svn_io_read_length_line_def)
qed

end
