(* ===== verification/Skel.thy ===== *)
theory Skel
  imports Svn_String Key_Gen
begin

text \<open>
  The skeletons of \<open>libsvn_fs/skel.c\<close>, the concrete syntax of every record the file system
  keeps in its tables: the parser, the unparser (over string buffers, with its direct stores
  into the block), and the operations that build, examine, compare and copy skels.
\<close>

section \<open>Skels\<close>

text \<open>
  An atom has its contents; a list has the bytes of its body, which the parser makes it point
  to and which are empty in a list built otherwise, and its children.  The \<open>next\<close> pointers are
  the order of the children.
\<close>

datatype skel_t = skel_atom bytes | skel_list bytes "skel_t list"

datatype char_type = type_nothing | type_space | type_digit | type_paren | type_name

text \<open>The table \<open>skel_char_type\<close>; its brackets, 91 and 93, are of type \<open>type_paren\<close> too.\<close>

definition skel_char_type :: "char \<Rightarrow> char_type" where
  "skel_char_type c =
     (let n = of_char c :: nat in
      if n = 9 \<or> n = 10 \<or> n = 12 \<or> n = 13 \<or> n = 32 then type_space
      else if n = 40 \<or> n = 41 \<or> n = 91 \<or> n = 93 then type_paren
      else if 48 \<le> n \<and> n \<le> 57 then type_digit
      else if (65 \<le> n \<and> n \<le> 90) \<or> (97 \<le> n \<and> n \<le> 122) then type_name
      else type_nothing)"

section \<open>Parsing\<close>

text \<open>
  Each parser returns the skel and the bytes that follow it, where the caller of the C routine
  continues: \<open>element->data + element->len\<close>.
\<close>

definition in_implicit :: "char \<Rightarrow> bool" where
  "in_implicit c \<longleftrightarrow> skel_char_type c \<noteq> type_space \<and> skel_char_type c \<noteq> type_paren"

definition implicit_atom :: "bytes \<Rightarrow> (skel_t \<times> bytes) option" where
  "implicit_atom data =
     (case data of
        [] \<Rightarrow> None
      | c # cs \<Rightarrow>
          if skel_char_type c \<noteq> type_name then None
          else Some (skel_atom (c # takeWhile in_implicit cs), dropWhile in_implicit cs))"

text \<open>
  The \<open>n\<close> bytes that begin where \<open>cs\<close> begins; behind the end of \<open>cs\<close> they are not specified, so that what
  is shown of an atom rests on the test that it ends inside the data.
\<close>

definition bytes_at :: "bytes \<Rightarrow> nat \<Rightarrow> bytes" where
  "bytes_at cs n = map ((!) cs) [0..<n]"

lemma bytes_at_inside: "n \<le> length cs \<Longrightarrow> bytes_at cs n = take n cs"
  by (rule nth_equalityI) (simp_all add: bytes_at_def)

definition explicit_atom :: "bytes \<Rightarrow> (skel_t \<times> bytes) option" where
  "explicit_atom data =
     (case svn_fs__getsize data (of_nat (length data)) of
        None \<Rightarrow> None
      | Some (sz, p) \<Rightarrow>
          (case p of
             [] \<Rightarrow> None
           | c # cs \<Rightarrow>
               if skel_char_type c \<noteq> type_space then None
               else if length cs < unat sz then None
               else Some (skel_atom (bytes_at cs (unat sz)), drop (unat sz) cs)))"

lemma implicit_atom_shorter: "implicit_atom data = Some (e, r) \<Longrightarrow> length r < length data"
  by (auto simp: implicit_atom_def less_Suc_eq_le length_dropWhile_le split: list.splits if_splits)

lemma explicit_atom_shorter: "explicit_atom data = Some (e, r) \<Longrightarrow> length r < length data"
proof -
  assume "explicit_atom data = Some (e, r)"
  then obtain sz c cs where "svn_fs__getsize data (of_nat (length data)) = Some (sz, c # cs)" "r = drop (unat sz) cs"
    by (auto simp: explicit_atom_def split: option.splits list.splits if_splits)
  then have "c # cs = dropWhile is_digit data" "length r \<le> length cs"
    by (auto simp: getsize_spec Let_def split: if_splits)
  with length_dropWhile_le [of is_digit data] show ?thesis by (metis length_Cons less_eq_Suc_le order_le_less_trans order_less_le_trans)
qed

function (sequential) parse :: "bytes \<Rightarrow> (skel_t \<times> bytes) option"
  and list_skel :: "bytes \<Rightarrow> (skel_t \<times> bytes) option"
  and list_elements :: "bytes \<Rightarrow> (skel_t list \<times> bytes) option"
where
  "parse data =
     (case data of
        [] \<Rightarrow> None
      | c # cs \<Rightarrow>
          if c = CHR ''('' then list_skel data
          else if skel_char_type c = type_name then implicit_atom data
          else explicit_atom data)"
| "list_skel data =
     (case data of
        [] \<Rightarrow> None
      | c # cs \<Rightarrow>
          if c \<noteq> CHR ''('' then None
          else (case list_elements cs of
                  None \<Rightarrow> None
                | Some (children, rest) \<Rightarrow>
                    Some (skel_list (take (length data - length rest) data) children, rest)))"
| "list_elements data =
     (case dropWhile (\<lambda>c. skel_char_type c = type_space) data of
        [] \<Rightarrow> None
      | c # cs \<Rightarrow>
          if c = CHR '')'' then Some ([], cs)
          else (case parse (c # cs) of
                  None \<Rightarrow> None
                | Some (element, rest) \<Rightarrow>
                    (case list_elements rest of
                       None \<Rightarrow> None
                     | Some (elements, rest') \<Rightarrow> Some (element # elements, rest'))))"
  by pat_completeness auto

text \<open>Every skel takes up at least one byte, so the loop over the elements ends.\<close>

termination
proof -
  have shorter:
    "parse_list_skel_list_elements_dom (Inl data) \<Longrightarrow> parse data = Some (e, r) \<Longrightarrow> length r < length data"
    "parse_list_skel_list_elements_dom (Inr (Inl data)) \<Longrightarrow> list_skel data = Some (e, r) \<Longrightarrow> length r < length data"
    "parse_list_skel_list_elements_dom (Inr (Inr data)) \<Longrightarrow> list_elements data = Some (es, r) \<Longrightarrow> length r < length data"
    for data e r es
  proof (induction data and data and data arbitrary: e r and e r and es r rule: parse_list_skel_list_elements.pinduct)
    case (1 data)
    then show ?case
      by (auto simp: parse.psimps dest: implicit_atom_shorter explicit_atom_shorter split: list.splits if_splits)
  next
    case (2 data)
    from "2.prems" "2.hyps" obtain c cs children where d: "data = c # cs" "c = CHR ''(''"
      "list_elements cs = Some (children, r)"
      by (auto simp: list_skel.psimps split: list.splits if_splits option.splits)
    with "2.IH" show ?case by fastforce
  next
    case (3 data)
    let ?d = "dropWhile (\<lambda>c. skel_char_type c = type_space) data"
    have le: "length ?d \<le> length data" by (rule length_dropWhile_le)
    obtain c cs where d: "?d = c # cs"
      using "3.prems" "3.hyps" by (auto simp: list_elements.psimps split: list.splits)
    show ?case
    proof (cases "c = CHR '')''")
      case True
      with 3 d le show ?thesis by (auto simp: list_elements.psimps)
    next
      case False
      with "3.prems" "3.hyps" d obtain e1 r1 es1 where p: "parse (c # cs) = Some (e1, r1)"
        "list_elements r1 = Some (es1, r)"
        by (auto simp: list_elements.psimps split: option.splits)
      have "length r1 < length ?d" using "3.IH"(1) [OF d False p(1)] d by simp
      moreover have "length r < length r1" using "3.IH"(2) [OF d False p(1)] p(2) by simp
      ultimately show ?thesis using le by simp
    qed
  qed
  show ?thesis
  proof (relation "measure (\<lambda>x. case x of Inl d \<Rightarrow> 3 * length d + 1 | Inr (Inl d) \<Rightarrow> 3 * length d | Inr (Inr d) \<Rightarrow> 3 * length d + 2)", goal_cases)
    case 1
    show ?case by simp
  next
    case (2 data c cs)
    then show ?case by simp
  next
    case (3 data c cs)
    then show ?case by simp
  next
    case (4 data c cs)
    then show ?case using length_dropWhile_le [of "\<lambda>c. skel_char_type c = type_space" data] by simp
  next
    case (5 data c cs a element rest)
    then have "length rest < length (c # cs)" using shorter(1) by metis
    with 5 show ?case using length_dropWhile_le [of "\<lambda>c. skel_char_type c = type_space" data] by simp
  qed
qed

declare parse.simps [simp del] list_skel.simps [simp del] list_elements.simps [simp del]

definition svn_fs__parse_skel :: "bytes \<Rightarrow> skel_t option" where
  "svn_fs__parse_skel data = map_option fst (parse data)"

section \<open>Unparsing\<close>

text \<open>The total is an \<open>int\<close>: a sum is cut to 32 bits and its sign extended on return.\<close>

definition int_cast :: "apr_size_t \<Rightarrow> apr_size_t" where
  "int_cast w = scast (ucast w :: 32 word)"

fun estimate_unparsed_size :: "skel_t \<Rightarrow> apr_size_t"
  and estimate_children :: "apr_size_t \<Rightarrow> skel_t list \<Rightarrow> apr_size_t"
where
  "estimate_unparsed_size (skel_atom d) =
     (if length d < 100 then of_nat (length d) + 3 else of_nat (length d) + 30)"
| "estimate_unparsed_size (skel_list body children) = estimate_children 2 children"
| "estimate_children total_len [] = total_len"
| "estimate_children total_len (child # children) =
     estimate_children (int_cast (total_len + (estimate_unparsed_size child + 1))) children"

definition use_implicit :: "bytes \<Rightarrow> bool" where
  "use_implicit d \<longleftrightarrow>
     d \<noteq> [] \<and> length d < 100 \<and> skel_char_type (hd d) = type_name \<and>
     (\<forall>c \<in> set (tl d). skel_char_type c \<noteq> type_space \<and> skel_char_type c \<noteq> type_paren)"

text \<open>The store \<open>str->data[str->len++] = c\<close>.\<close>

definition sb_putc :: "char \<Rightarrow> svn_stringbuf_t \<Rightarrow> svn_stringbuf_t svn_result" where
  "sb_putc c str =
     svn_bind (mem_set (sb_data str) (unat (sb_len str)) c) (\<lambda>data.
       Ok (str\<lparr>sb_data := data, sb_len := sb_len str + 1\<rparr>))"

fun unparse :: "skel_t \<Rightarrow> svn_stringbuf_t \<Rightarrow> svn_stringbuf_t svn_result"
  and unparse_children :: "skel_t list \<Rightarrow> svn_stringbuf_t \<Rightarrow> svn_stringbuf_t svn_result"
where
  "unparse (skel_atom d) str =
     (if use_implicit d then svn_stringbuf_appendbytes str d
      else
        (case svn_fs__putsize 200 (of_nat (length d)) of
           None \<Rightarrow> Abort
         | Some buf \<Rightarrow>
             svn_bind (svn_stringbuf_ensure str
               (sb_len str + of_nat (length buf) + 1 + of_nat (length d))) (\<lambda>str.
             svn_bind (svn_stringbuf_appendbytes str buf) (\<lambda>str.
             svn_bind (sb_putc CHR '' '' str) (\<lambda>str.
               svn_stringbuf_appendbytes str d)))))"
| "unparse (skel_list body children) str =
     svn_bind (svn_stringbuf_ensure str (sb_len str + 1)) (\<lambda>str.
     svn_bind (sb_putc CHR ''('' str) (\<lambda>str.
     svn_bind (unparse_children children str) (\<lambda>str.
       svn_stringbuf_appendbytes str '')'')))"
| "unparse_children [] str = Ok str"
| "unparse_children [child] str = unparse child str"
| "unparse_children (child # sibling # rest) str =
     svn_bind (unparse child str) (\<lambda>str.
     svn_bind (svn_stringbuf_ensure str (sb_len str + 1)) (\<lambda>str.
     svn_bind (sb_putc CHR '' '' str) (\<lambda>str.
       unparse_children (sibling # rest) str)))"

definition svn_fs__unparse_skel :: "skel_t \<Rightarrow> svn_stringbuf_t svn_result" where
  "svn_fs__unparse_skel skel =
     (let blocksize = estimate_unparsed_size skel + 200 in
      unparse skel
        \<lparr>sb_data = apr_palloc (unat blocksize), sb_len = 0, sb_blocksize = blocksize\<rparr>)"

section \<open>Building skels\<close>

definition svn_fs__str_atom :: "bytes \<Rightarrow> skel_t" where
  "svn_fs__str_atom str = skel_atom str"

definition svn_fs__mem_atom :: "bytes \<Rightarrow> skel_t" where
  "svn_fs__mem_atom addr = skel_atom addr"

definition svn_fs__make_empty_list :: skel_t where
  "svn_fs__make_empty_list = skel_list [] []"

fun svn_fs__prepend :: "skel_t \<Rightarrow> skel_t \<Rightarrow> skel_t svn_result" where
  "svn_fs__prepend skel (skel_atom d) = Abort"
| "svn_fs__prepend skel (skel_list body children) = Ok (skel_list body (skel # children))"

fun svn_fs__append :: "skel_t \<Rightarrow> skel_t \<Rightarrow> skel_t svn_result" where
  "svn_fs__append skel (skel_atom d) = Abort"
| "svn_fs__append skel (skel_list body children) = Ok (skel_list body (children @ [skel]))"

section \<open>Examining skels\<close>

text \<open>\<open>None\<close> is the null pointer.\<close>

fun svn_fs__matches_atom :: "skel_t option \<Rightarrow> bytes \<Rightarrow> bool" where
  "svn_fs__matches_atom (Some (skel_atom d)) str \<longleftrightarrow> d = str"
| "svn_fs__matches_atom _ str \<longleftrightarrow> False"

fun svn_fs__atom_matches_string :: "skel_t option \<Rightarrow> svn_string_t \<Rightarrow> bool svn_result" where
  "svn_fs__atom_matches_string (Some (skel_atom d)) str =
     (if of_nat (length d) \<noteq> st_len str then Ok False
      else svn_bind (mem_bytes (st_data str) (length d)) (\<lambda>b. Ok (d = b)))"
| "svn_fs__atom_matches_string _ str = Ok False"

fun svn_fs__list_length :: "skel_t option \<Rightarrow> int" where
  "svn_fs__list_length (Some (skel_list body children)) = int (length children)"
| "svn_fs__list_length _ = - 1"

text \<open>\<open>strncmp\<close> on two arrays of the same length: equal up to the first null byte.\<close>

fun strncmp_eq :: "bytes \<Rightarrow> bytes \<Rightarrow> bool" where
  "strncmp_eq (a # as) (b # bs) \<longleftrightarrow> a = b \<and> (a = NUL \<or> strncmp_eq as bs)"
| "strncmp_eq _ _ \<longleftrightarrow> True"

text \<open>
  The comparison of two distinct skels.  The loop over the children steps through memory with
  \<open>children + i\<close>, although the children are linked by their \<open>next\<close> pointers: the step to the
  second child leaves the object.
\<close>

fun svn_fs__skels_are_equal :: "skel_t \<Rightarrow> skel_t \<Rightarrow> bool svn_result" where
  "svn_fs__skels_are_equal (skel_atom d1) (skel_atom d2) =
     Ok (length d1 = length d2 \<and> strncmp_eq d1 d2)"
| "svn_fs__skels_are_equal (skel_list b1 cs1) (skel_list b2 cs2) =
     (if length cs1 \<noteq> length cs2 then Ok False
      else
        (case (cs1, cs2) of
           (c1 # cs1', c2 # cs2') \<Rightarrow>
             svn_bind (svn_fs__skels_are_equal c1 c2) (\<lambda>eq.
               if \<not> eq then Ok False
               else if cs1' = [] then Ok True
               else Abort)
         | _ \<Rightarrow> Ok True))"
| "svn_fs__skels_are_equal _ _ = Ok False"

fun svn_fs__copy_skel :: "skel_t \<Rightarrow> skel_t" where
  "svn_fs__copy_skel (skel_atom d) = skel_atom d"
| "svn_fs__copy_skel (skel_list body children) = skel_list [] (map svn_fs__copy_skel children)"


section \<open>The text of a skel\<close>

fun skel_text :: "skel_t \<Rightarrow> bytes" and children_text :: "skel_t list \<Rightarrow> bytes" where
  "skel_text (skel_atom d) = (if use_implicit d then d else dec_digits (length d) @ CHR '' '' # d)"
| "skel_text (skel_list body children) = CHR ''('' # children_text children @ '')''"
| "children_text [] = []"
| "children_text [child] = skel_text child"
| "children_text (child # sibling # rest) = skel_text child @ CHR '' '' # children_text (sibling # rest)"

lemma sb_putc_room:
  assumes "sb_shape str" and "unat (sb_len str) < unat (sb_blocksize str)"
  shows "\<exists>str'. sb_putc c str = Ok str' \<and> sb_shape str' \<and> sb_contents str' = sb_contents str @ [c]"
  using sb_put [OF assms, of c] by (auto simp: sb_putc_def Let_def)

lemma sb_adds_putc:
  "sb_adds (\<lambda>str. svn_bind (svn_stringbuf_ensure str (sb_len str + 1)) (sb_putc c)) [c]"
  unfolding sb_adds_def
proof (intro allI impI)
  fix str assume a: "sb_shape str \<and> length (sb_contents str) + length [c] < 2 ^ 62"
  then have u: "unat (sb_len str + 1) = Suc (unat (sb_len str))"
    using sb_contents_length [of str] by (simp add: unat_word_ariths)
  with a sb_contents_length [of str] have "unat (sb_len str + 1) \<le> 2 ^ 62" by simp
  from sb_ensure [OF conjunct1 [OF a] this] obtain s1 where
    s1: "svn_stringbuf_ensure str (sb_len str + 1) = Ok s1" "sb_shape s1" "sb_contents s1 = sb_contents str"
      "sb_len s1 = sb_len str" "sb_len str + 1 \<le> sb_blocksize s1" by blast
  then have "unat (sb_len s1) < unat (sb_blocksize s1)" using u by (simp add: word_le_nat_alt)
  from sb_putc_room [OF s1(2) this, of c] s1
  show "\<exists>str'. svn_bind (svn_stringbuf_ensure str (sb_len str + 1)) (sb_putc c) = Ok str' \<and>
      sb_shape str' \<and> sb_contents str' = sb_contents str @ [c]" by simp
qed

lemma sb_adds_append_putc:
  "sb_adds (\<lambda>str. svn_bind (svn_stringbuf_appendbytes str bs) (sb_putc c)) (bs @ [c])"
  unfolding sb_adds_def
proof (intro allI impI)
  fix str assume a: "sb_shape str \<and> length (sb_contents str) + length (bs @ [c]) < 2 ^ 62"
  then obtain s1 where s1: "svn_stringbuf_appendbytes str bs = Ok s1" "sb_ok s1"
    "sb_contents s1 = sb_contents str @ bs" using sb_appendbytes [of str bs] by auto
  from sb_putc_room [of s1 c] s1
  show "\<exists>str'. svn_bind (svn_stringbuf_appendbytes str bs) (sb_putc c) = Ok str' \<and>
      sb_shape str' \<and> sb_contents str' = sb_contents str @ (bs @ [c])" by (auto simp: sb_ok_def)
qed

section \<open>The unparser writes the text\<close>

lemma putsize_length:
  assumes "n < 2 ^ 62"
  shows "svn_fs__putsize 200 (of_nat n) = Some (dec_digits n)" and "length (dec_digits n) \<le> 20"
proof -
  have "n < 10 ^ Suc 19" using assms by simp
  from dec_digits_length [OF this] show "length (dec_digits n) \<le> 20" by simp
  with assms show "svn_fs__putsize 200 (of_nat n) = Some (dec_digits n)"
    by (simp add: putsize_spec unat_of_nat64)
qed

lemma unparse_explicit:
  assumes "\<not> use_implicit d"
  shows "sb_emits (unparse (skel_atom d)) (dec_digits (length d) @ CHR '' '' # d)"
  unfolding sb_emits_def
proof (intro allI impI)
  fix str :: svn_stringbuf_t
  let ?buf = "dec_digits (length d)"
  let ?m = "sb_len str + of_nat (length ?buf) + 1 + of_nat (length d)"
  assume a: "sb_shape str \<and> length (sb_contents str) + length (?buf @ CHR '' '' # d) < 2 ^ 62"
  then have d: "length d < 2 ^ 62" by simp
  have l: "length (sb_contents str) = unat (sb_len str)" using a sb_contents_length by blast
  have "unat ?m \<le> 2 ^ 62" using a l by (simp add: unat_word_ariths unat_of_nat64)
  from sb_ensure [OF conjunct1 [OF a] this] obtain s1 where
    s1: "svn_stringbuf_ensure str ?m = Ok s1" "sb_shape s1" "sb_contents s1 = sb_contents str" by blast
  have "sb_emits (\<lambda>str. svn_bind (svn_bind (svn_stringbuf_appendbytes str ?buf) (sb_putc CHR '' ''))
      (\<lambda>str. svn_stringbuf_appendbytes str d)) ((?buf @ '' '') @ d)"
    by (rule sb_emits_bind [OF sb_adds_append_putc sb_emits_appendbytes])
  with a s1 obtain s2 where "svn_bind (svn_stringbuf_appendbytes s1 ?buf) (\<lambda>str. svn_bind (sb_putc CHR '' '' str)
      (\<lambda>str. svn_stringbuf_appendbytes str d)) = Ok s2" "sb_ok s2" "sb_contents s2 = sb_contents str @ ?buf @ '' '' @ d"
    by (auto simp: sb_emits_def svn_bind_assoc)
  with s1(1) assms show "\<exists>str'. unparse (skel_atom d) str = Ok str' \<and> sb_ok str' \<and>
      sb_contents str' = sb_contents str @ (?buf @ CHR '' '' # d)"
    by (simp add: putsize_length [OF d])
qed

lemma unparse_text:
  "sb_emits (unparse s) (skel_text s)"
  "sb_adds (unparse_children cs) (children_text cs)"
proof (induction s and cs rule: skel_text_children_text.induct)
  case (1 d)
  show ?case
  proof (cases "use_implicit d")
    case True
    then have "unparse (skel_atom d) = (\<lambda>str. svn_stringbuf_appendbytes str d)" by (simp add: fun_eq_iff)
    with True show ?thesis by (simp add: sb_emits_appendbytes)
  next
    case False
    with unparse_explicit [OF this] show ?thesis by (simp only: skel_text.simps if_False)
  qed
next
  case (2 body children)
  from sb_emits_bind [OF sb_adds_bind [OF sb_adds_putc 2] sb_emits_appendbytes]
  have "sb_emits (\<lambda>str. svn_bind (svn_bind (svn_bind (svn_stringbuf_ensure str (sb_len str + 1)) (sb_putc CHR ''(''))
      (unparse_children children)) (\<lambda>str. svn_stringbuf_appendbytes str '')''))
      ((''('' @ children_text children) @ '')'')" .
  then show ?case by (simp add: svn_bind_assoc [abs_def])
next
  case 3
  show ?case by (simp add: sb_adds_def)
next
  case (4 child)
  have "unparse_children [child] = unparse child" by (simp add: fun_eq_iff)
  with 4 show ?case by (simp add: sb_emits_adds)
next
  case (5 child sibling rest)
  from sb_adds_bind [OF sb_adds_bind [OF sb_emits_adds [OF 5(1)] sb_adds_putc] 5(2)]
  have "sb_adds (\<lambda>str. svn_bind (svn_bind (unparse child str) (\<lambda>str. svn_bind (svn_stringbuf_ensure str (sb_len str + 1)) (sb_putc CHR '' '')))
      (unparse_children (sibling # rest))) ((skel_text child @ '' '') @ children_text (sibling # rest))" .
  then show ?case by (simp add: svn_bind_assoc [abs_def])
qed


section \<open>The parser reads the text back\<close>

text \<open>What the parser makes of a skel: the same structure, with the bodies of the lists filled in.\<close>

fun skel_norm :: "skel_t \<Rightarrow> skel_t" where
  "skel_norm (skel_atom d) = skel_atom d"
| "skel_norm (skel_list body children) =
     skel_list (skel_text (skel_list body children)) (map skel_norm children)"

definition ends_atom :: "bytes \<Rightarrow> bool" where
  "ends_atom x \<longleftrightarrow> x = [] \<or> \<not> in_implicit (hd x)"

lemma char_types [simp]:
  "skel_char_type CHR '' '' = type_space" "skel_char_type CHR ''('' = type_paren"
  "skel_char_type CHR '')'' = type_paren"
  by (simp_all add: skel_char_type_def)

lemma digit_type: "is_digit c \<Longrightarrow> skel_char_type c = type_digit"
  by (auto simp: skel_char_type_def is_digit_def Let_def)

lemma dec_digits_Cons: "\<exists>c cs. dec_digits n = c # cs \<and> is_digit c"
  using dec_digits_digits [of n] by (cases "dec_digits n") auto

lemma skel_text_start:
  "\<exists>c cs. skel_text s = c # cs \<and> skel_char_type c \<noteq> type_space \<and> c \<noteq> CHR '')''"
proof (cases s)
  case (skel_atom d)
  show ?thesis
  proof (cases "use_implicit d")
    case True
    then obtain c cs where "d = c # cs" "skel_char_type c = type_name" by (cases d) (auto simp: use_implicit_def)
    then show ?thesis using True skel_atom by auto
  next
    case False
    obtain c cs where c: "dec_digits (length d) = c # cs" "is_digit c" using dec_digits_Cons by blast
    then have "skel_char_type c = type_digit" by (simp add: digit_type)
    then have "skel_char_type c \<noteq> type_space" "c \<noteq> CHR '')''" by auto
    with False skel_atom c show ?thesis by simp
  qed
qed simp

lemma takeWhile_ends:
  assumes "\<forall>c \<in> set cs. in_implicit c" and "ends_atom x"
  shows "takeWhile in_implicit (cs @ x) = cs" and "dropWhile in_implicit (cs @ x) = x"
proof -
  have "takeWhile in_implicit x = []" "dropWhile in_implicit x = x"
    using assms(2) by (cases x; auto simp: ends_atom_def)+
  with assms(1) show "takeWhile in_implicit (cs @ x) = cs" "dropWhile in_implicit (cs @ x) = x"
    by (simp_all add: takeWhile_append2 dropWhile_append2)
qed

lemma parse_atom_text:
  assumes "ends_atom x" and "length (skel_text (skel_atom d) @ x) < 2 ^ 62"
  shows "parse (skel_text (skel_atom d) @ x) = Some (skel_atom d, x)"
proof (cases "use_implicit d")
  case True
  then obtain c cs where d: "d = c # cs" "skel_char_type c = type_name" "\<forall>c \<in> set cs. in_implicit c"
    by (cases d) (auto simp: use_implicit_def in_implicit_def)
  then have "c \<noteq> CHR ''(''" by auto
  with True d takeWhile_ends [OF d(3) assms(1)] show ?thesis
    by (simp add: parse.simps implicit_atom_def)
next
  case False
  let ?ds = "dec_digits (length d)"
  let ?t = "?ds @ CHR '' '' # d @ x"
  obtain c cs where c: "?ds = c # cs" "is_digit c" using dec_digits_Cons by blast
  then have "skel_char_type c = type_digit" by (simp add: digit_type)
  then have "c \<noteq> CHR ''(''" "skel_char_type c \<noteq> type_name" by auto
  then have ex: "parse ?t = explicit_atom ?t" by (simp add: parse.simps c)
  have len: "length ?t < 2 ^ 62" using False assms(2) by simp
  have "unat (of_nat (length ?t) :: 64 word) = length ?t"
    by (rule unat_of_nat64) (use len in simp)
  moreover have "length d \<le> length ?t" by simp
  ultimately have "svn_fs__getsize ?t (of_nat (length ?t)) = Some (of_nat (length d), CHR '' '' # d @ x)"
    by (intro getsize_dec_digits) (simp_all only: is_digit_def, simp)
  moreover have "unat (of_nat (length d) :: 64 word) = length d" using len by (simp add: unat_of_nat64)
  ultimately show ?thesis using False ex by (simp add: explicit_atom_def bytes_at_inside)
qed

lemma list_elements_step:
  assumes "parse (skel_text s @ x) = Some (e, x)" and "list_elements x = Some (es, y)"
  shows "list_elements (skel_text s @ x) = Some (e # es, y)"
proof -
  obtain c cs where "skel_text s = c # cs" "skel_char_type c \<noteq> type_space" "c \<noteq> CHR '')''"
    using skel_text_start by blast
  with assms show ?thesis by (simp add: list_elements.simps [of "_ # _"])
qed

lemma list_elements_space: "list_elements (CHR '' '' # x) = list_elements x"
  by (subst (1 2) list_elements.simps) simp

lemma ends_atom_simps [simp]: "ends_atom (CHR '')'' # x)" "ends_atom (CHR '' '' # x)"
  by (simp_all add: ends_atom_def in_implicit_def)

lemma parse_text:
  "ends_atom x \<Longrightarrow> length (skel_text s @ x) < 2 ^ 62 \<Longrightarrow> parse (skel_text s @ x) = Some (skel_norm s, x)"
  "length (children_text cs @ CHR '')'' # x) < 2 ^ 62 \<Longrightarrow>
     list_elements (children_text cs @ CHR '')'' # x) = Some (map skel_norm cs, x)"
proof (induction s and cs arbitrary: x and x rule: skel_text_children_text.induct)
  case (1 d)
  then show ?case using parse_atom_text by simp
next
  case (2 body children)
  let ?d = "CHR ''('' # children_text children @ CHR '')'' # x"
  have "list_elements (children_text children @ CHR '')'' # x) = Some (map skel_norm children, x)"
    using 2 by simp
  then have "list_skel ?d = Some (skel_list (take (length ?d - length x) ?d) (map skel_norm children), x)"
    by (simp add: list_skel.simps)
  moreover have "take (length ?d - length x) ?d = CHR ''('' # children_text children @ '')''" by simp
  ultimately show ?case by (simp add: parse.simps)
next
  case 3
  show ?case by (simp add: list_elements.simps)
next
  case (4 child)
  have "list_elements (CHR '')'' # x) = Some ([], x)" by (simp add: list_elements.simps)
  with 4 list_elements_step [of child "CHR '')'' # x"] show ?case by simp
next
  case (5 child sibling rest)
  let ?x = "CHR '' '' # children_text (sibling # rest) @ CHR '')'' # x"
  have "parse (skel_text child @ ?x) = Some (skel_norm child, ?x)"
    using 5(1) [of ?x] 5(3) by simp
  moreover have "list_elements ?x = Some (map skel_norm (sibling # rest), x)"
    using 5(2,3) by (simp add: list_elements_space)
  ultimately show ?case using list_elements_step [of child ?x] by simp
qed


section \<open>The properties\<close>

lemma sb_alloc:
  "sb_shape \<lparr>sb_data = apr_palloc (unat b), sb_len = 0, sb_blocksize = b\<rparr>"
  "sb_contents \<lparr>sb_data = apr_palloc (unat b), sb_len = 0, sb_blocksize = b\<rparr> = []"
  by (simp_all add: sb_shape_def sb_contents_def apr_palloc_def)

lemma unparse_skel_text:
  assumes "length (skel_text s) < 2 ^ 62"
  shows "\<exists>str. svn_fs__unparse_skel s = Ok str \<and> sb_ok str \<and> sb_contents str = skel_text s \<and>
    svn_fs__parse_skel (sb_contents str) = Some (skel_norm s)"
proof -
  let ?b = "estimate_unparsed_size s + 200"
  let ?str = "\<lparr>sb_data = apr_palloc (unat ?b), sb_len = 0, sb_blocksize = ?b\<rparr>"
  have "sb_shape ?str \<and> length (sb_contents ?str) + length (skel_text s) < 2 ^ 62"
    using assms by (simp add: sb_alloc)
  from unparse_text(1) [of s, unfolded sb_emits_def, rule_format, OF this] obtain str where
    "svn_fs__unparse_skel s = Ok str" "sb_ok str" "sb_contents str = skel_text s"
    by (auto simp: svn_fs__unparse_skel_def Let_def sb_alloc)
  moreover have "parse (skel_text s) = Some (skel_norm s, [])"
    using parse_text(1) [of "[]" s] assms by (simp add: ends_atom_def)
  ultimately show ?thesis by (simp add: svn_fs__parse_skel_def)
qed

text \<open>
  C28. Unparsing any skel whose text fits in memory succeeds, never stores outside the buffer
  and leaves it null-terminated, and parsing the bytes gives the skel back, its lists with
  their bodies filled in: atoms may hold any bytes at all.
\<close>

theorem unparse_parse_skel:
  assumes "length (skel_text s) < 2 ^ 62"
  shows "\<exists>str. svn_fs__unparse_skel s = Ok str \<and> sb_ok str \<and> sb_contents str = skel_text s \<and>
    svn_fs__parse_skel (sb_contents str) = Some (skel_norm s)"
  by (rule unparse_skel_text [OF assms])

theorem unparse_parse_skel_witness:
  "\<exists>str. svn_fs__unparse_skel (skel_list [] [skel_atom ''dir'', skel_atom ''a b'', skel_list [] []]) = Ok str \<and>
     sb_contents str = ''(dir 3 a b ())'' \<and>
     svn_fs__parse_skel (sb_contents str)
       = Some (skel_list ''(dir 3 a b ())'' [skel_atom ''dir'', skel_atom ''a b'', skel_list ''()'' []])"
proof -
  let ?s = "skel_list [] [skel_atom ''dir'', skel_atom ''a b'', skel_list [] []]"
  have t: "skel_text ?s = ''(dir 3 a b ())''" by code_simp
  have "length (skel_text ?s) < 2 ^ 62" unfolding t by simp
  from unparse_parse_skel [OF this] t show ?thesis by auto
qed

text \<open>\<open>skel_within p e\<close>: the skel points into the bytes \<open>p\<close>, and a child into the body of its list.\<close>

definition part_of :: "bytes \<Rightarrow> bytes \<Rightarrow> bool" where
  "part_of d p \<longleftrightarrow> (\<exists>a b. p = a @ d @ b)"

fun skel_within :: "bytes \<Rightarrow> skel_t \<Rightarrow> bool" where
  "skel_within p (skel_atom d) \<longleftrightarrow> part_of d p"
| "skel_within p (skel_list body children) \<longleftrightarrow> part_of body p \<and> (\<forall>c \<in> set children. skel_within body c)"

lemma part_of_trans: "part_of d p \<Longrightarrow> part_of p q \<Longrightarrow> part_of d q"
  unfolding part_of_def by (metis append.assoc)

lemma part_of_self [simp]: "part_of d d"
  unfolding part_of_def by (metis append_Nil append_Nil2)

lemma skel_within_mono: "skel_within p e \<Longrightarrow> part_of p q \<Longrightarrow> skel_within q e"
  by (cases e) (auto dest: part_of_trans)

lemma implicit_atom_within: "implicit_atom data = Some (e, r) \<Longrightarrow> \<exists>p. data = p @ r \<and> skel_within p e"
  by (auto simp: implicit_atom_def split: list.splits if_splits)
     (metis append_Cons takeWhile_dropWhile_id part_of_self)

lemma explicit_atom_within: "explicit_atom data = Some (e, r) \<Longrightarrow> \<exists>p. data = p @ r \<and> skel_within p e"
proof -
  assume "explicit_atom data = Some (e, r)"
  then obtain sz c cs where g: "svn_fs__getsize data (of_nat (length data)) = Some (sz, c # cs)"
    and e: "r = drop (unat sz) cs" "e = skel_atom (take (unat sz) cs)"
    by (auto simp: explicit_atom_def bytes_at_inside split: option.splits list.splits if_splits)
  have "c # cs = dropWhile is_digit data" using g by (auto simp: getsize_spec Let_def split: if_splits)
  then have "data = (takeWhile is_digit data @ [c]) @ take (unat sz) cs @ r"
    using takeWhile_dropWhile_id [of is_digit data] e(1) by simp
  then have "data = ((takeWhile is_digit data @ [c]) @ take (unat sz) cs @ []) @ r" by simp
  moreover have "part_of (take (unat sz) cs) ((takeWhile is_digit data @ [c]) @ take (unat sz) cs @ [])"
    unfolding part_of_def by blast
  ultimately show ?thesis unfolding e(2) skel_within.simps by blast
qed

lemma parse_within:
  "parse data = Some (e, r) \<Longrightarrow> \<exists>p. data = p @ r \<and> skel_within p e"
  "list_skel data = Some (e, r) \<Longrightarrow> \<exists>p. data = p @ r \<and> skel_within p e"
  "list_elements data = Some (es, r) \<Longrightarrow> \<exists>p. data = p @ r \<and> (\<forall>e \<in> set es. skel_within p e)"
proof (induction data and data and data arbitrary: e r and e r and es r rule: parse_list_skel_list_elements.induct)
  case (1 data)
  then show ?case
    by (auto simp: parse.simps dest: implicit_atom_within explicit_atom_within split: list.splits if_splits)
next
  case (2 data)
  from "2.prems" obtain c cs children where d: "data = c # cs" "c = CHR ''(''"
    "list_elements cs = Some (children, r)" "e = skel_list (take (length data - length r) data) children"
    by (auto simp: list_skel.simps split: list.splits if_splits option.splits)
  with "2.IH" obtain p where p: "cs = p @ r" "\<forall>e \<in> set children. skel_within p e" by fastforce
  have "part_of p (c # p)" unfolding part_of_def by (metis append_Cons append_Nil append_Nil2)
  with p have "\<forall>e \<in> set children. skel_within (c # p) e" using skel_within_mono by blast
  with d p show ?case by (intro exI [of _ "c # p"]) simp
next
  case (3 data)
  let ?sp = "\<lambda>c. skel_char_type c = type_space"
  have data: "data = takeWhile ?sp data @ dropWhile ?sp data" by simp
  obtain c cs where d: "dropWhile ?sp data = c # cs"
    using "3.prems" by (auto simp: list_elements.simps split: list.splits)
  show ?case
  proof (cases "c = CHR '')''")
    case True
    with "3.prems" d have "es = []" "r = cs" by (auto simp: list_elements.simps)
    with data d show ?thesis by (intro exI [of _ "takeWhile ?sp data @ [c]"]) simp
  next
    case False
    with "3.prems" d obtain e1 r1 es1 where p: "parse (c # cs) = Some (e1, r1)"
      "list_elements r1 = Some (es1, r)" "es = e1 # es1"
      by (auto simp: list_elements.simps split: option.splits)
    obtain p1 where p1: "c # cs = p1 @ r1" "skel_within p1 e1" using "3.IH"(1) [OF d False p(1)] by blast
    obtain p2 where p2: "r1 = p2 @ r" "\<forall>e \<in> set es1. skel_within p2 e"
      using "3.IH"(2) [OF d False p(1)] p(2) by blast
    let ?p = "takeWhile ?sp data @ p1 @ p2"
    have sub: "part_of p1 ?p" "part_of p2 ?p" unfolding part_of_def by (metis append.assoc append_Nil2)+
    have "data = ?p @ r" using data d p1(1) p2(1) by simp
    moreover have "skel_within ?p e1" by (rule skel_within_mono [OF p1(2) sub(1)])
    moreover have "\<forall>e \<in> set es1. skel_within ?p e" using p2(2) skel_within_mono [OF _ sub(2)] by blast
    ultimately show ?thesis using p(3) by (intro exI [of _ ?p] conjI) simp_all
  qed
qed

text \<open>
  C29. Whatever the bytes, the parser ends, and a skel it returns points only into them: every
  atom and every list body is a block of the input, and a child lies inside the body of its
  list.
\<close>

theorem parse_skel_within:
  assumes "svn_fs__parse_skel data = Some s"
  shows "skel_within data s"
proof -
  obtain r where "parse data = Some (s, r)" using assms by (auto simp: svn_fs__parse_skel_def)
  from parse_within(1) [OF this] obtain p where "data = p @ r" "skel_within p s" by blast
  moreover from this have "part_of p data" unfolding part_of_def by (metis append_Nil)
  ultimately show ?thesis using skel_within_mono by blast
qed

theorem parse_skel_within_witness:
  "skel_within ''(a (3 x y) b)'' (skel_list ''(a (3 x y) b)''
     [skel_atom ''a'', skel_list ''(3 x y)'' [skel_atom ''x y''], skel_atom ''b''])"
  by (rule parse_skel_within) code_simp

end
