(* ===== verification/Fs_Id.thy ===== *)
theory Fs_Id
  imports Skel
begin

text \<open>
  Node revision ids (\<open>libsvn_fs/id.c\<close>) and the validation routines of
  \<open>libsvn_fs/validate.c\<close>.  An id is an array of node, branch and revision numbers closed by -1:
  a node number and a revision number, followed by a branch number and a revision number for
  each branch.
\<close>

section \<open>Validation\<close>

text \<open>The loop over the bytes; \<open>fresh\<close> says whether the current component has no digit yet.\<close>

fun count_id_loop :: "bytes \<Rightarrow> bool \<Rightarrow> nat \<Rightarrow> nat" where
  "count_id_loop [] fresh id_len = (if fresh then 0 else id_len)"
| "count_id_loop (c # cs) fresh id_len =
     (if c = CHR ''.'' then (if fresh then 0 else count_id_loop cs True (Suc id_len))
      else if is_digit c then count_id_loop cs False id_len
      else 0)"

definition svn_fs__count_id_components :: "bytes \<Rightarrow> nat" where
  "svn_fs__count_id_components data = count_id_loop data True 1"

definition svn_fs__is_valid_proplist :: "skel_t option \<Rightarrow> bool" where
  "svn_fs__is_valid_proplist skel \<longleftrightarrow>
     (let len = svn_fs__list_length skel in
      0 \<le> len \<and> even len \<and>
      (case skel of
         Some (skel_list body children) \<Rightarrow> list_all (\<lambda>elt. case elt of skel_atom d \<Rightarrow> True | _ \<Rightarrow> False) children
       | _ \<Rightarrow> True))"

definition svn_fs__is_single_path_component :: "bytes \<Rightarrow> bool" where
  "svn_fs__is_single_path_component name \<longleftrightarrow>
     \<not> (name = []) \<and> \<not> (name = ''.'' \<or> name = ''..'') \<and> \<not> CHR ''/'' \<in> set name"

section \<open>Ids\<close>

text \<open>The loops below end because a read beyond the closing -1 stops them.\<close>

declare svn_bind_cong [fundef_cong]

text \<open>The components before the closing -1, and the read of \<open>id[i]\<close>.\<close>

type_synonym svn_fs_id_t = "int list"

definition id_at :: "svn_fs_id_t \<Rightarrow> nat \<Rightarrow> int svn_result" where
  "id_at nid i = (if i < length nid then Ok (nid ! i) else if i = length nid then Ok (- 1) else Abort)"

text \<open>The conversion to \<open>int\<close>.\<close>

definition to_int :: "int \<Rightarrow> int" where
  "to_int x = sint (word_of_int x :: 32 word)"

definition svn_fs__id_length :: "svn_fs_id_t \<Rightarrow> nat" where
  "svn_fs__id_length nid = length (takeWhile (\<lambda>c. c \<noteq> - 1) nid)"

text \<open>The loops step through both arrays at once, the closing -1 included.\<close>

fun svn_fs__id_eq :: "svn_fs_id_t \<Rightarrow> svn_fs_id_t \<Rightarrow> bool" where
  "svn_fs__id_eq [] [] \<longleftrightarrow> True"
| "svn_fs__id_eq (a # as) (b # bs) \<longleftrightarrow> a = b \<and> (a = - 1 \<or> svn_fs__id_eq as bs)"
| "svn_fs__id_eq [] (b # bs) \<longleftrightarrow> b = - 1"
| "svn_fs__id_eq (a # as) [] \<longleftrightarrow> a = - 1"

function is_ancestor_loop :: "svn_fs_id_t \<Rightarrow> svn_fs_id_t \<Rightarrow> nat \<Rightarrow> bool svn_result" where
  "is_ancestor_loop a b i =
     svn_bind (id_at a i) (\<lambda>ai.
       if ai = - 1 then Ok True
       else svn_bind (id_at b i) (\<lambda>bi.
         if ai \<noteq> bi then Ok False
         else svn_bind (id_at a (i + 1)) (\<lambda>ar. svn_bind (id_at b (i + 1)) (\<lambda>br.
           if br < ar then Ok False
           else if ar < br then svn_bind (id_at a (i + 2)) (\<lambda>an. Ok (an = - 1))
           else is_ancestor_loop a b (i + 2)))))"
  by pat_completeness auto
termination
  by (relation "measure (\<lambda>(a, b, i). Suc (length a) - i)") (auto simp: id_at_def split: if_splits)

declare is_ancestor_loop.simps [simp del]

definition svn_fs__id_is_ancestor :: "svn_fs_id_t \<Rightarrow> svn_fs_id_t \<Rightarrow> bool svn_result" where
  "svn_fs__id_is_ancestor a b = is_ancestor_loop a b 0"

function distance_loop :: "svn_fs_id_t \<Rightarrow> nat \<Rightarrow> int \<Rightarrow> int svn_result" where
  "distance_loop a i d =
     svn_bind (id_at a i) (\<lambda>ai.
       if ai = - 1 then Ok d
       else svn_bind (id_at a (i + 1)) (\<lambda>ar.
         distance_loop a (i + 2) (to_int (d + ar))))"
  by pat_completeness auto
termination
  by (relation "measure (\<lambda>(a, i, d). Suc (length a) - i)") (auto simp: id_at_def split: if_splits)

declare distance_loop.simps [simp del]

definition distance_from_prefix :: "svn_fs_id_t \<Rightarrow> nat \<Rightarrow> int svn_result" where
  "distance_from_prefix a prefix = distance_loop a prefix 0"

function common_prefix :: "svn_fs_id_t \<Rightarrow> svn_fs_id_t \<Rightarrow> nat \<Rightarrow> nat svn_result" where
  "common_prefix a b i =
     svn_bind (id_at a i) (\<lambda>ai. svn_bind (id_at b i) (\<lambda>bi.
       if ai = bi \<and> ai \<noteq> - 1 then
         svn_bind (id_at a (i + 1)) (\<lambda>ar. svn_bind (id_at b (i + 1)) (\<lambda>br.
           if ar = br then common_prefix a b (i + 2) else Ok i))
       else Ok i))"
  by pat_completeness auto
termination
  by (relation "measure (\<lambda>(a, b, i). Suc (length a) - i)") (auto simp: id_at_def split: if_splits)

declare common_prefix.simps [simp del]

definition svn_fs_id_distance :: "svn_fs_id_t \<Rightarrow> svn_fs_id_t \<Rightarrow> int svn_result" where
  "svn_fs_id_distance a b =
     svn_bind (id_at a 0) (\<lambda>a0. svn_bind (id_at b 0) (\<lambda>b0.
       if a0 \<noteq> b0 then Ok (- 1)
       else
         svn_bind (common_prefix a b 0) (\<lambda>i.
         svn_bind (id_at a i) (\<lambda>ai. svn_bind (id_at b i) (\<lambda>bi.
           if ai = - 1 \<and> bi = - 1 then Ok 0
           else if ai = bi then
             svn_bind (distance_from_prefix a (i + 2)) (\<lambda>da.
             svn_bind (distance_from_prefix b (i + 2)) (\<lambda>db.
             svn_bind (id_at a (i + 1)) (\<lambda>ar. svn_bind (id_at b (i + 1)) (\<lambda>br.
               Ok (to_int (to_int (da + db) + to_int \<bar>to_int (ar - br)\<bar>))))))
           else
             svn_bind (distance_from_prefix a i) (\<lambda>da.
             svn_bind (distance_from_prefix b i) (\<lambda>db.
               Ok (to_int (da + db)))))))))"


text \<open>The loop of \<open>svn_fs__id_is_parent\<close>: the first index where the ids differ, if any.\<close>

function id_mismatch :: "svn_fs_id_t \<Rightarrow> svn_fs_id_t \<Rightarrow> nat \<Rightarrow> nat option svn_result" where
  "id_mismatch parent child i =
     svn_bind (id_at parent i) (\<lambda>p. svn_bind (id_at child i) (\<lambda>c.
       if p \<noteq> c then Ok (Some i)
       else if p = - 1 then Ok None
       else id_mismatch parent child (i + 1)))"
  by pat_completeness auto
termination
  by (relation "measure (\<lambda>(a, b, i). Suc (length a) - i)") (auto simp: id_at_def split: if_splits)

declare id_mismatch.simps [simp del]

text \<open>\<open>C && D\<close>, where the second condition reads the array only if the first one holds.\<close>

definition and_then :: "bool svn_result \<Rightarrow> bool svn_result \<Rightarrow> bool svn_result" where
  "and_then m1 m2 = svn_bind m1 (\<lambda>b. if b then m2 else Ok False)"

definition id_test :: "svn_fs_id_t \<Rightarrow> nat \<Rightarrow> (int \<Rightarrow> bool) \<Rightarrow> bool svn_result" where
  "id_test nid i P = svn_bind (id_at nid i) (\<lambda>x. Ok (P x))"

definition svn_fs__id_is_parent :: "svn_fs_id_t \<Rightarrow> svn_fs_id_t \<Rightarrow> bool svn_result" where
  "svn_fs__id_is_parent parent child =
     svn_bind (id_mismatch parent child 0) (\<lambda>r.
       case r of
         None \<Rightarrow> Ok False
       | Some i \<Rightarrow>
           svn_bind (id_at parent i) (\<lambda>pi.
           svn_bind
             (and_then (Ok (odd i)) (and_then (id_test child i (\<lambda>x. x = pi + 1))
               (and_then (id_test child (i + 1) (\<lambda>x. x = - 1)) (id_test parent (i + 1) (\<lambda>x. x = - 1)))))
             (\<lambda>next_rev.
               if next_rev then Ok True
               else and_then (Ok (even i)) (and_then (Ok (pi = - 1))
                 (and_then (id_test child (i + 1) (\<lambda>x. x \<noteq> - 1))
                   (and_then (id_test child (i + 2) (\<lambda>x. x = 1)) (id_test child (i + 3) (\<lambda>x. x = - 1))))))))"

section \<open>Parsing and unparsing ids\<close>

text \<open>
  The loop fills the array allocated for \<open>id_len\<close> components and the closing -1; a store past
  it is an \<open>Abort\<close>.  \<open>None\<close> is the null result.
\<close>

function parse_id_loop :: "nat \<Rightarrow> bytes \<Rightarrow> svn_fs_id_t \<Rightarrow> svn_fs_id_t option svn_result" where
  "parse_id_loop id_len data acc =
     (if id_len < length acc then Abort
      else
        (case svn_fs__getsize data 100000000 of
           None \<Rightarrow> Ok None
         | Some (v, next) \<Rightarrow>
             (case next of
                [] \<Rightarrow> if id_len < Suc (length acc) then Abort else Ok (Some (acc @ [uint v]))
              | c # rest \<Rightarrow>
                  if c \<noteq> CHR ''.'' then Ok None else parse_id_loop id_len rest (acc @ [uint v]))))"
  by pat_completeness auto
termination
  by (relation "measure (\<lambda>(n, data, acc). Suc n - length acc)") auto

declare parse_id_loop.simps [simp del]

definition svn_fs_parse_id :: "bytes \<Rightarrow> svn_fs_id_t option svn_result" where
  "svn_fs_parse_id data =
     (let id_len = svn_fs__count_id_components data in
      if id_len = 0 then Ok None else parse_id_loop id_len data [])"

fun unparse_id_loop :: "svn_fs_id_t \<Rightarrow> svn_stringbuf_t \<Rightarrow> svn_stringbuf_t svn_result" where
  "unparse_id_loop [] unparsed = Ok unparsed"
| "unparse_id_loop (c # cs) unparsed =
     (if c = - 1 then Ok unparsed
      else
        (case svn_fs__putsize 200 (word_of_int c) of
           None \<Rightarrow> Abort
         | Some buf \<Rightarrow>
             svn_bind (svn_stringbuf_appendbytes unparsed
                 (if (case cs of [] \<Rightarrow> - 1 | d # _ \<Rightarrow> d) \<noteq> - 1 then buf @ ''.'' else buf))
               (unparse_id_loop cs)))"

definition svn_fs_unparse_id :: "svn_fs_id_t \<Rightarrow> svn_stringbuf_t svn_result" where
  "svn_fs_unparse_id nid = svn_bind (svn_stringbuf_ncreate []) (unparse_id_loop nid)"

definition svn_fs__id_copy :: "svn_fs_id_t \<Rightarrow> svn_fs_id_t" where
  "svn_fs__id_copy nid = take (svn_fs__id_length nid) nid"

text \<open>\<open>Ok None\<close> is the null result; storing -1 cuts the id off.\<close>

definition svn_fs__id_predecessor :: "svn_fs_id_t \<Rightarrow> svn_fs_id_t option svn_result" where
  "svn_fs__id_predecessor nid =
     (let len = svn_fs__id_length nid; pred = svn_fs__id_copy nid in
      if len = 0 then Abort
      else
        (let pred = pred[len - 1 := pred ! (len - 1) - 1] in
         if 0 < pred ! (len - 1) then Ok (Some pred)
         else if 2 < len then Ok (Some (take (len - 2) pred))
         else Ok None))"

section \<open>Well-formed ids\<close>

definition id_wf :: "svn_fs_id_t \<Rightarrow> bool" where
  "id_wf nid \<longleftrightarrow> even (length nid) \<and> (\<forall>c \<in> set nid. 0 \<le> c)"

lemma id_at_Cons [simp]:
  "id_at (c # cs) 0 = Ok c" "id_at (c # cs) (Suc i) = id_at cs i" "id_at [] 0 = Ok (- 1)"
  by (auto simp: id_at_def)

text \<open>Reading an id at an index where the rest of the array is known.\<close>

lemma id_at_next:
  assumes "drop i a = x # xs"
  shows "id_at a i = Ok x" and "drop (Suc i) a = xs" and "Suc i \<le> length a"
proof -
  have i: "i < length a" using assms by (metis drop_eq_Nil list.distinct(1) not_le)
  then show "Suc i \<le> length a" by simp
  show "id_at a i = Ok x" "drop (Suc i) a = xs"
    using i assms by (simp_all add: id_at_def Cons_nth_drop_Suc [OF i, symmetric])
qed

lemma id_at_end: "drop i a = [] \<Longrightarrow> i \<le> length a \<Longrightarrow> id_at a i = Ok (- 1)"
  by (simp add: id_at_def)

lemma id_at_next2:
  assumes "drop i a = x # y # xs"
  shows "id_at a i = Ok x" "id_at a (Suc i) = Ok y" "drop (Suc (Suc i)) a = xs" "Suc (Suc i) \<le> length a"
  using id_at_next [OF assms] id_at_next [OF id_at_next(2) [OF assms]] by simp_all

lemma id_wf_cases [consumes 1, case_names Nil Cons]:
  assumes "id_wf nid"
  obtains "nid = []" | n r rest where "nid = n # r # rest" "id_wf rest" "0 \<le> n" "0 \<le> r"
proof (cases nid)
  case (Cons n xs)
  with assms have "xs \<noteq> []" by (auto simp: id_wf_def)
  with Cons assms that(2) show ?thesis by (cases xs) (auto simp: id_wf_def)
qed (use that in simp)

lemma id_length_wf [simp]: "id_wf nid \<Longrightarrow> svn_fs__id_length nid = length nid"
proof -
  assume "id_wf nid"
  then have "takeWhile (\<lambda>c. c \<noteq> - 1) nid = nid" by (intro takeWhile_eq_all_conv [THEN iffD2]) (auto simp: id_wf_def)
  then show ?thesis by (simp only: svn_fs__id_length_def)
qed

lemma id_test_end:
  assumes "drop i a = rest" and "i \<le> length a" and "id_wf rest"
  shows "svn_bind (id_at a i) (\<lambda>x. Ok (x = - 1)) = Ok (rest = [])"
  using assms(3)
proof (cases rule: id_wf_cases)
  case Nil
  with id_at_end assms show ?thesis by simp
next
  case (Cons n r xs)
  with id_at_next(1) [of i a n "r # xs"] assms(1) show ?thesis by simp
qed

section \<open>Ancestors\<close>

text \<open>
  An id is an ancestor of another when it is a prefix of it, or ends in a smaller revision
  number of the same node or branch.
\<close>

fun id_ancestor :: "svn_fs_id_t \<Rightarrow> svn_fs_id_t \<Rightarrow> bool" where
  "id_ancestor [] b \<longleftrightarrow> True"
| "id_ancestor (n # r # a) (m # s # b) \<longleftrightarrow> n = m \<and> (r < s \<and> a = [] \<or> r = s \<and> id_ancestor a b)"
| "id_ancestor _ _ \<longleftrightarrow> False"

lemma is_ancestor_loop_spec:
  "id_wf (drop i a) \<Longrightarrow> id_wf (drop i b) \<Longrightarrow> i \<le> length a \<Longrightarrow> i \<le> length b \<Longrightarrow>
   is_ancestor_loop a b i = Ok (id_ancestor (drop i a) (drop i b))"
proof (induction a b i rule: is_ancestor_loop.induct)
  case (1 a b i)
  from "1.prems"(1) show ?case
  proof (cases rule: id_wf_cases)
    case Nil
    then show ?thesis using id_at_end [OF Nil "1.prems"(3)] by (subst is_ancestor_loop.simps) simp
  next
    case (Cons n r rest)
    note A = id_at_next2 [OF Cons(1)]
    from "1.prems"(2) show ?thesis
    proof (cases rule: id_wf_cases)
      case Nil
      then show ?thesis using Cons A id_at_end [OF Nil "1.prems"(4)]
        by (subst is_ancestor_loop.simps) simp
    next
      case B': (Cons m s rest')
      note B = id_at_next2 [OF B'(1)]
      have an: "svn_bind (id_at a (Suc (Suc i))) (\<lambda>x. Ok (x = - 1)) = Ok (rest = [])"
        using A(3,4) Cons(2) by (intro id_test_end)
      show ?thesis
      proof (cases "n = m \<and> r = s")
        case True
        have "is_ancestor_loop a b (i + 2) = Ok (id_ancestor rest rest')"
          using "1.IH" [of n m r s] A B True Cons B' by simp
        with True A B Cons B' show ?thesis by (subst is_ancestor_loop.simps) simp
      next
        case False
        with A B Cons B' an show ?thesis by (subst is_ancestor_loop.simps) auto
      qed
    qed
  qed
qed

lemma id_ancestor_exists:
  "id_ancestor a b \<longleftrightarrow> a = [] \<or> (\<exists>p n r s q. a = p @ [n, r] \<and> b = p @ n # s # q \<and> even (length p) \<and> r \<le> s)"
proof (induction a b rule: id_ancestor.induct)
  case (2 n r a m s b)
  let ?E = "\<lambda>a b. \<exists>p n r s q. a = p @ [n, r] \<and> b = p @ n # s # q \<and> even (length p) \<and> r \<le> (s :: int)"
  have "?E (n # r # a) (m # s # b) \<longleftrightarrow> (n = m \<and> r \<le> s \<and> a = []) \<or> (n = m \<and> r = s \<and> ?E a b)"
  proof
    assume "?E (n # r # a) (m # s # b)"
    then obtain p n' r' s' q where p: "n # r # a = p @ [n', r']" "m # s # b = p @ n' # s' # q"
      "even (length p)" "r' \<le> s'" by blast
    then show "(n = m \<and> r \<le> s \<and> a = []) \<or> (n = m \<and> r = s \<and> ?E a b)"
      by (cases p; cases "tl p") auto
  next
    assume "(n = m \<and> r \<le> s \<and> a = []) \<or> (n = m \<and> r = s \<and> ?E a b)"
    then show "?E (n # r # a) (m # s # b)"
    proof
      assume "n = m \<and> r \<le> s \<and> a = []"
      then show ?thesis by (intro exI [of _ "[]"]) simp
    next
      assume *: "n = m \<and> r = s \<and> ?E a b"
      then obtain p n' r' s' q where p: "a = p @ [n', r']" "b = p @ n' # s' # q" "even (length p)" "r' \<le> s'" by blast
      with * show ?thesis
        by (intro exI [of _ "n # r # p"] exI [of _ n'] exI [of _ r'] exI [of _ s'] exI [of _ q]) simp
    qed
  qed
  with 2 show ?case by auto
qed (auto simp: Cons_eq_append_conv)


section \<open>Parents\<close>

fun lcp_len :: "'a list \<Rightarrow> 'a list \<Rightarrow> nat" where
  "lcp_len (x # xs) (y # ys) = (if x = y then Suc (lcp_len xs ys) else 0)"
| "lcp_len _ _ = 0"

lemma lcp_len_spec:
  "lcp_len xs ys \<le> length xs" "lcp_len xs ys \<le> length ys"
  "take (lcp_len xs ys) xs = take (lcp_len xs ys) ys"
  by (induction xs ys rule: lcp_len.induct) auto

lemma lcp_len_differ:
  "lcp_len xs ys < length xs \<Longrightarrow> lcp_len xs ys < length ys \<Longrightarrow> xs ! lcp_len xs ys \<noteq> ys ! lcp_len xs ys"
  by (induction xs ys rule: lcp_len.induct) auto

lemma lcp_len_append: "x \<noteq> y \<Longrightarrow> lcp_len (q @ x # xs) (q @ y # ys) = length q"
  by (induction q) auto

lemma id_mismatch_spec:
  "\<forall>c \<in> set parent \<union> set child. 0 \<le> c \<Longrightarrow> i \<le> length parent \<Longrightarrow> i \<le> length child \<Longrightarrow>
   id_mismatch parent child i =
     Ok (if drop i parent = drop i child then None else Some (i + lcp_len (drop i parent) (drop i child)))"
proof (induction parent child i rule: id_mismatch.induct)
  case (1 parent child i)
  consider (ends) "drop i parent = []" "drop i child = []"
    | (left) c cs where "drop i parent = []" "drop i child = c # cs"
    | (right) p ps where "drop i parent = p # ps" "drop i child = []"
    | (both) p ps c cs where "drop i parent = p # ps" "drop i child = c # cs"
    by (cases "drop i parent"; cases "drop i child")
  then show ?case
  proof cases
    case ends
    with id_at_end 1 show ?thesis by (subst id_mismatch.simps) simp
  next
    case left
    then have "0 \<le> c" using 1 in_set_dropD [of c i child] by auto
    with left id_at_end [of i parent] id_at_next(1) [of i child c cs] 1 show ?thesis
      by (subst id_mismatch.simps) simp
  next
    case right
    then have "0 \<le> p" using 1 in_set_dropD [of p i parent] by auto
    with right id_at_end [of i child] id_at_next(1) [of i parent p ps] 1 show ?thesis
      by (subst id_mismatch.simps) simp
  next
    case both
    then have "0 \<le> p" using 1 in_set_dropD [of p i parent] by auto
    note P = id_at_next [OF both(1)] and C = id_at_next [OF both(2)]
    show ?thesis
    proof (cases "p = c")
      case False
      with both P C show ?thesis by (subst id_mismatch.simps) simp
    next
      case True
      have "id_mismatch parent child (i + 1) = Ok (if ps = cs then None else Some (i + 1 + lcp_len ps cs))"
        using "1.IH" [of p c] P C True \<open>0 \<le> p\<close> "1.prems" by simp
      with both P C True \<open>0 \<le> p\<close> show ?thesis by (subst id_mismatch.simps) simp
    qed
  qed
qed

lemma id_at_nonneg: "id_wf a \<Longrightarrow> i < length a \<Longrightarrow> id_at a i = Ok (a ! i) \<and> 0 \<le> a ! i"
  by (simp add: id_at_def id_wf_def)

lemma id_at_length [simp]: "id_at a (length a) = Ok (- 1)"
  by (simp add: id_at_def)

lemma and_then_Ok [simp]: "and_then (Ok b) m = (if b then m else Ok False)"
  by (simp add: and_then_def)

definition next_revision :: "svn_fs_id_t \<Rightarrow> svn_fs_id_t \<Rightarrow> bool" where
  "next_revision p c \<longleftrightarrow> (\<exists>q r. p = q @ [r] \<and> c = q @ [r + 1])"

lemma next_revision_lcp:
  assumes "next_revision p c"
  shows "Suc (lcp_len p c) = length p"
proof -
  obtain q r where q: "p = q @ [r]" "c = q @ [r + 1]" using assms by (auto simp: next_revision_def)
  with lcp_len_append [of r "r + 1" q "[]" "[]"] show ?thesis by simp
qed

text \<open>The ids first differ at a revision number.\<close>

lemma is_parent_odd:
  assumes wf: "id_wf p" "id_wf c" and m: "id_mismatch p c 0 = Ok (Some i)" and i: "i = lcp_len p c" "odd i"
  shows "svn_fs__id_is_parent p c = Ok (next_revision p c)"
proof -
  have "i \<le> length p" "i \<le> length c" and tk: "take i p = take i c" unfolding i by (rule lcp_len_spec)+
  with i wf have lt: "i < length p" "i < length c" by (auto simp: le_less id_wf_def)
  have at: "id_at p i = Ok (p ! i)" "id_at c i = Ok (c ! i)"
    using lt wf id_at_nonneg by blast+
  have e: "id_test a (Suc i) (\<lambda>x. x = - 1) = Ok (drop (Suc i) a = [])" if "i < length a" "id_wf a" for a
    using that id_at_nonneg [of a "Suc i"]
    by (cases "Suc i = length a") (auto simp: id_test_def)
  have t0: "id_test c i P = Ok (P (c ! i))" for P using at(2) by (simp add: id_test_def)
  have "svn_fs__id_is_parent p c = Ok (c ! i = p ! i + 1 \<and> drop (Suc i) c = [] \<and> drop (Suc i) p = [])"
    using i(2) by (simp add: svn_fs__id_is_parent_def m at(1) t0 e [OF lt(1) wf(1)] e [OF lt(2) wf(2)])
  moreover have "next_revision p c \<longleftrightarrow> c ! i = p ! i + 1 \<and> drop (Suc i) c = [] \<and> drop (Suc i) p = []"
  proof
    assume n: "next_revision p c"
    then obtain q r where "p = q @ [r]" "c = q @ [r + 1]" by (auto simp: next_revision_def)
    with next_revision_lcp [OF n] i show "c ! i = p ! i + 1 \<and> drop (Suc i) c = [] \<and> drop (Suc i) p = []" by simp
  next
    assume "c ! i = p ! i + 1 \<and> drop (Suc i) c = [] \<and> drop (Suc i) p = []"
    then have "p = take i p @ [p ! i]" "c = take i p @ [p ! i + 1]"
      using id_take_nth_drop [OF lt(1)] id_take_nth_drop [OF lt(2)] tk by metis+
    then show "next_revision p c" unfolding next_revision_def by blast
  qed
  ultimately show ?thesis by simp
qed

text \<open>The ids first differ at a node or branch number, or one of them ends there.\<close>

lemma is_parent_even:
  assumes wf: "id_wf p" "id_wf c" and m: "id_mismatch p c 0 = Ok (Some i)" and i: "i = lcp_len p c" "even i"
    and ne: "p \<noteq> c"
  shows "svn_fs__id_is_parent p c = Ok False"
proof (cases "i = length p")
  case False
  with lcp_len_spec(1) [of p c] i have "i < length p" by simp
  from id_at_nonneg [OF wf(1) this] i m show ?thesis
    by (auto simp: svn_fs__id_is_parent_def and_then_def)
next
  case True
  then have "i < length c"
    using lcp_len_spec(2,3) [of p c] i ne by (metis le_less take_all_iff order_refl)
  then have l1: "i + 1 < length c" using wf(2) i by (metis Suc_eq_plus1 Suc_lessI even_Suc id_wf_def)
  then have t1: "id_test c (i + 1) (\<lambda>x. x \<noteq> - 1) = Ok True"
    using id_at_nonneg [OF wf(2) l1] by (auto simp: id_test_def)
  have t23: "and_then (id_test c (i + 2) (\<lambda>x. x = 1)) (id_test c (i + 3) (\<lambda>x. x = - 1)) = Ok False"
  proof (cases "i + 2 = length c")
    case True
    then show ?thesis using id_at_length [of c] by (simp add: and_then_def id_test_def)
  next
    case False
    with l1 have l2: "i + 2 < length c" by simp
    moreover have "i + 3 \<noteq> length c" using wf(2) i(2) by (metis even_add id_wf_def odd_numeral)
    ultimately have l3: "i + 3 < length c" by simp
    show ?thesis
      using id_at_nonneg [OF wf(2) l2] id_at_nonneg [OF wf(2) l3] by (auto simp: and_then_def id_test_def)
  qed
  show ?thesis
    unfolding svn_fs__id_is_parent_def using m i(2) t1 t23
    by (simp only: svn_bind.simps option.simps True id_at_length and_then_Ok if_True if_False simp_thms)
qed

text \<open>
  For well-formed ids the parent test holds exactly when the child is the next revision of
  the parent; the first revision of a branch, which the comment in the code mentions as well,
  is never recognised, since its index is off by one.
\<close>

lemma id_is_parent_next_revision:
  assumes "id_wf p" and "id_wf c"
  shows "svn_fs__id_is_parent p c = Ok (\<exists>q r. p = q @ [r] \<and> c = q @ [r + 1])"
proof (cases "p = c")
  case True
  then have "id_mismatch p c 0 = Ok None"
    using assms id_mismatch_spec [of p c 0] by (auto simp: id_wf_def)
  with True show ?thesis by (simp add: svn_fs__id_is_parent_def)
next
  case False
  have m: "id_mismatch p c 0 = Ok (Some (lcp_len p c))"
    using assms False id_mismatch_spec [of p c 0] by (auto simp: id_wf_def)
  show ?thesis
  proof (cases "odd (lcp_len p c)")
    case True
    from is_parent_odd [OF assms m refl True] show ?thesis by (simp add: next_revision_def)
  next
    case even: False
    then have "\<not> next_revision p c"
      using next_revision_lcp [of p c] assms(1) by (metis even_Suc id_wf_def)
    with is_parent_even [OF assms m refl _ False] even show ?thesis by (simp add: next_revision_def)
  qed
qed

text \<open>
  C32. The ancestor test on well-formed ids is the documented relation: the ancestor is a
  prefix of the descendant up to its last revision number, which is not larger there.
\<close>

theorem id_is_ancestor_spec:
  assumes "id_wf a" and "id_wf b"
  shows "svn_fs__id_is_ancestor a b =
    Ok (a = [] \<or> (\<exists>p n r s q. a = p @ [n, r] \<and> b = p @ n # s # q \<and> even (length p) \<and> r \<le> s))"
  using is_ancestor_loop_spec [of 0 a b] assms id_ancestor_exists [of a b]
  by (simp add: svn_fs__id_is_ancestor_def)

theorem id_is_ancestor_spec_witness:
  "svn_fs__id_is_ancestor [100, 20] [100, 32, 2, 4] = Ok True \<and>
   svn_fs__id_is_ancestor [100, 20, 3, 2] [100, 20] = Ok False"
proof -
  have wf: "id_wf [100, 20]" "id_wf [100, 32, 2, 4]" "id_wf [100, 20, 3, 2]"
    by (simp_all add: id_wf_def)
  show ?thesis
    using id_is_ancestor_spec [OF wf(1,2)] id_is_ancestor_spec [OF wf(3,1)]
    by (force simp: Cons_eq_append_conv)
qed


section \<open>Ids as text\<close>

text \<open>Ids whose components the parser accepts.\<close>

definition id_readable :: "svn_fs_id_t \<Rightarrow> bool" where
  "id_readable nid \<longleftrightarrow> nid \<noteq> [] \<and> (\<forall>c \<in> set nid. 0 \<le> c \<and> c \<le> 100000000)"

fun id_text :: "svn_fs_id_t \<Rightarrow> bytes" where
  "id_text [] = []"
| "id_text [c] = dec_digits (nat c)"
| "id_text (c # d # cs) = dec_digits (nat c) @ CHR ''.'' # id_text (d # cs)"

lemma count_id_digits:
  "\<forall>c \<in> set ds. is_digit c \<Longrightarrow> ds \<noteq> [] \<Longrightarrow> count_id_loop (ds @ x) fresh n = count_id_loop x False n"
proof (induction ds arbitrary: fresh)
  case (Cons c ds)
  then have "c \<noteq> CHR ''.''" "is_digit c" by (auto simp: is_digit_def)
  with Cons show ?case by (cases ds) simp_all
qed simp

lemma count_id_text: "nid \<noteq> [] \<Longrightarrow> count_id_loop (id_text nid) True n = n + length nid - 1"
proof (induction nid arbitrary: n rule: id_text.induct)
  case (2 c)
  then show ?case using count_id_digits [of "dec_digits (nat c)" "[]"] dec_digits_digits by simp
next
  case (3 c d cs)
  then show ?case using count_id_digits [of "dec_digits (nat c)"] dec_digits_digits by simp
qed simp

lemma component_word:
  assumes "0 \<le> c" and "c \<le> 100000000"
  shows "uint (of_nat (nat c) :: 64 word) = c"
  unfolding uint_nat using assms by (subst unat_of_nat64) simp_all

lemma unparse_id_loop_Nil: "unparse_id_loop [] = Ok"
  by (simp add: fun_eq_iff)

lemma parse_id_text:
  assumes "id_readable nid" and "length acc + length nid \<le> id_len"
  shows "parse_id_loop id_len (id_text nid) acc = Ok (Some (acc @ nid))"
  using assms
proof (induction nid arbitrary: acc rule: id_text.induct)
  case 1
  then show ?case by (simp add: id_readable_def)
next
  case (2 c)
  then have c: "0 \<le> c" "c \<le> 100000000" by (auto simp: id_readable_def)
  then have "svn_fs__getsize (dec_digits (nat c) @ []) 100000000 = Some (of_nat (nat c), [])"
    by (intro getsize_dec_digits) simp_all
  moreover have "uint (of_nat (nat c) :: 64 word) = c" using c by (rule component_word)
  ultimately show ?case using 2 by (subst parse_id_loop.simps) simp
next
  case (3 c d cs)
  then have c: "0 \<le> c" "c \<le> 100000000" and r: "id_readable (d # cs)" by (auto simp: id_readable_def)
  let ?x = "CHR ''.'' # id_text (d # cs)"
  have "svn_fs__getsize (dec_digits (nat c) @ ?x) 100000000 = Some (of_nat (nat c), ?x)"
    using c by (intro getsize_dec_digits) (simp_all add: is_digit_def)
  moreover have "uint (of_nat (nat c) :: 64 word) = c" using c by (rule component_word)
  ultimately show ?case using 3 r by (subst parse_id_loop.simps) simp
qed

lemma unparse_id_text:
  assumes "id_readable nid"
  shows "sb_emits (unparse_id_loop nid) (id_text nid)"
  using assms
proof (induction nid rule: id_text.induct)
  case 1
  then show ?case by (simp add: id_readable_def)
next
  case (2 c)
  then have c: "0 \<le> c" "c \<le> 100000000" by (auto simp: id_readable_def)
  then have "svn_fs__putsize 200 (word_of_int c) = Some (dec_digits (nat c))"
    using putsize_length(1) [of "nat c"] by simp
  moreover have "svn_bind m Ok = m" for m :: "svn_stringbuf_t svn_result" by (cases m) simp_all
  ultimately have "unparse_id_loop [c] = (\<lambda>sb. svn_stringbuf_appendbytes sb (dec_digits (nat c)))"
    using c by (simp add: fun_eq_iff unparse_id_loop_Nil)
  then show ?case by (simp add: sb_emits_appendbytes)
next
  case (3 c d cs)
  then have c: "0 \<le> c" "c \<le> 100000000" "0 \<le> d" and r: "id_readable (d # cs)" by (auto simp: id_readable_def)
  then have "svn_fs__putsize 200 (word_of_int c) = Some (dec_digits (nat c))"
    using putsize_length(1) [of "nat c"] by simp
  then have "unparse_id_loop (c # d # cs) = (\<lambda>sb. svn_bind (svn_stringbuf_appendbytes sb (dec_digits (nat c) @ ''.''))
      (unparse_id_loop (d # cs)))"
    using c by (simp add: fun_eq_iff)
  with sb_emits_bind [OF sb_emits_adds [OF sb_emits_appendbytes] "3.IH" [OF r], of "dec_digits (nat c) @ ''.''"]
  show ?case by (simp del: unparse_id_loop.simps)
qed

lemma unparse_id_contents:
  assumes "id_readable nid" and "length (id_text nid) < 2 ^ 62"
  shows "\<exists>str. svn_fs_unparse_id nid = Ok str \<and> sb_ok str \<and> sb_contents str = id_text nid \<and>
    svn_fs_parse_id (id_text nid) = Ok (Some nid)"
proof -
  obtain s0 where s0: "svn_stringbuf_ncreate [] = Ok s0" "sb_shape s0" "sb_contents s0 = []"
    using sb_ncreate [of "[]"] by (auto simp: sb_ok_def)
  with unparse_id_text [OF assms(1)] assms(2) obtain str where
    str: "unparse_id_loop nid s0 = Ok str" "sb_ok str" "sb_contents str = id_text nid"
    by (auto simp: sb_emits_def)
  have "nid \<noteq> []" using assms(1) by (simp add: id_readable_def)
  then have "svn_fs__count_id_components (id_text nid) = length nid"
    using count_id_text [of nid 1] by (simp add: svn_fs__count_id_components_def)
  with parse_id_text [OF assms(1), of "[]" "length nid"] \<open>nid \<noteq> []\<close> str s0 show ?thesis
    by (simp add: svn_fs_parse_id_def svn_fs_unparse_id_def)
qed

text \<open>
  An id printed and parsed is the same id: the array the parser allocates is exactly
  filled, for every number of components, each at most \<open>100000000\<close>.
\<close>

lemma unparse_parse_id:
  assumes "id_readable nid" and "length (id_text nid) < 2 ^ 62"
  shows "\<exists>str. svn_fs_unparse_id nid = Ok str \<and> sb_ok str \<and> svn_fs_parse_id (sb_contents str) = Ok (Some nid)"
  using unparse_id_contents [OF assms] by auto

text \<open>
  The predecessor of a revision after the first is the one it is the next revision of; the
  predecessor of the first revision of a branch is the revision the branch is based on, and
  the first revision of a node has none.  In each case it is a well-formed ancestor.
\<close>

lemma id_predecessor_cases:
  assumes "id_wf (q @ [n, r])" and "1 \<le> r"
  shows "svn_fs__id_predecessor (q @ [n, r]) =
    Ok (if 1 < r then Some (q @ [n, r - 1]) else if q \<noteq> [] then Some q else None)"
proof -
  have len: "svn_fs__id_length (q @ [n, r]) = length q + 2" using assms(1) by simp
  show ?thesis using assms(2)
    by (simp add: svn_fs__id_predecessor_def svn_fs__id_copy_def len nth_append list_update_append Let_def)
qed

end
