(* ===== verification/Fs_Db.thy ===== *)
theory Fs_Db
  imports Fs_Id "HOL-Library.Finite_Map" "HOL-Library.List_Lexorder" "HOL-Library.Char_ord"
begin

text \<open>
  The database under the filesystem: what \<open>libsvn_fs\<close> uses of Berkeley DB, as a record of
  operations that every routine of the tables takes as an argument, the trails of
  \<open>libsvn_fs/trail.c\<close>, the key comparison that \<open>nodes-table.c\<close> gives to the database, and the
  conversions of \<open>dbt.c\<close>.

  The type \<open>'d\<close> is the state of the database inside a transaction.  A cursor of a table without
  duplicate keys is the key it stands on; a cursor of the table of strings is its key and the
  index of the record among the records of that key.  Opening and closing a cursor belongs to the
  operations that use it.
\<close>

section \<open>The operations of the database\<close>

datatype 'a db_result = DB_ok 'a | DB_err db_errcode

datatype db_table = Nodes | Representations | Transactions

text \<open>
  \<^item> \<open>db_get\<close>, \<open>db_put\<close>, \<open>db_del\<close>: the methods of a table handle;
  \<^item> \<open>db_first\<close>, \<open>db_next\<close>, \<open>db_last\<close>, \<open>db_prev\<close>, \<open>db_set_range\<close>: the key a cursor gets with the flag
    of that name, from the key it stands on; \<open>db_count\<close>: the number of keys of a table, which bounds
    the walk of a cursor over them;
  \<^item> \<open>str_dups\<close>: the number of records of a key, which bounds the walk of a cursor over them;
    \<open>str_bytes\<close>: the number of bytes in them, which bounds the loops that read them;
    \<open>str_probe\<close>: the error and the record size a cursor read with an empty buffer reports; \<open>str_move\<close>:
    the same read of no bytes; \<open>str_current\<close>: a partial read at an offset; \<open>str_fetch\<close>: a whole
    record; \<open>str_set\<close>: overwriting the first record of a key; \<open>str_put\<close>: adding a record; \<open>str_del\<close>:
    deleting all records of a key;
  \<^item> \<open>rev_get\<close>, \<open>rev_put\<close>, \<open>rev_append\<close>, \<open>rev_last\<close>: the table of records by number;
  \<^item> \<open>txn_begin\<close>, \<open>txn_commit\<close>, \<open>txn_checkpoint\<close>, \<open>txn_abort\<close>: the transactions;
  \<^item> \<open>txn_left\<close>: the state, somewhere inside the transaction that began in the given state, in which a
    body that failed with the given error has left the database.  The result of a body that fails has
    no state, and nothing is known of this one until it is aborted.
\<close>

record 'd bdb =
  env_open :: bool
  db_get :: "db_table \<Rightarrow> bytes \<Rightarrow> 'd \<Rightarrow> bytes db_result"
  db_put :: "db_table \<Rightarrow> bytes \<Rightarrow> bytes \<Rightarrow> 'd \<Rightarrow> 'd db_result"
  db_del :: "db_table \<Rightarrow> bytes \<Rightarrow> 'd \<Rightarrow> 'd db_result"
  db_first :: "db_table \<Rightarrow> 'd \<Rightarrow> bytes db_result"
  db_next :: "db_table \<Rightarrow> bytes \<Rightarrow> 'd \<Rightarrow> bytes db_result"
  db_last :: "db_table \<Rightarrow> 'd \<Rightarrow> bytes db_result"
  db_prev :: "db_table \<Rightarrow> bytes \<Rightarrow> 'd \<Rightarrow> bytes db_result"
  db_set_range :: "db_table \<Rightarrow> bytes \<Rightarrow> 'd \<Rightarrow> bytes db_result"
  db_count :: "db_table \<Rightarrow> 'd \<Rightarrow> nat"
  str_dups :: "bytes \<Rightarrow> 'd \<Rightarrow> nat"
  str_bytes :: "bytes \<Rightarrow> 'd \<Rightarrow> nat"
  str_probe :: "bytes \<Rightarrow> nat \<Rightarrow> 'd \<Rightarrow> db_errcode option \<times> nat"
  str_move :: "bytes \<Rightarrow> nat \<Rightarrow> 'd \<Rightarrow> unit db_result"
  str_current :: "bytes \<Rightarrow> nat \<Rightarrow> nat \<Rightarrow> nat \<Rightarrow> 'd \<Rightarrow> bytes db_result"
  str_fetch :: "bytes \<Rightarrow> nat \<Rightarrow> 'd \<Rightarrow> bytes db_result"
  str_set :: "bytes \<Rightarrow> bytes \<Rightarrow> 'd \<Rightarrow> 'd db_result"
  str_put :: "bytes \<Rightarrow> bytes \<Rightarrow> 'd \<Rightarrow> 'd db_result"
  str_del :: "bytes \<Rightarrow> 'd \<Rightarrow> 'd db_result"
  rev_get :: "nat \<Rightarrow> 'd \<Rightarrow> bytes db_result"
  rev_put :: "nat \<Rightarrow> bytes \<Rightarrow> 'd \<Rightarrow> 'd db_result"
  rev_append :: "bytes \<Rightarrow> 'd \<Rightarrow> (nat \<times> 'd) db_result"
  rev_last :: "'d \<Rightarrow> nat db_result"
  txn_begin :: "'d \<Rightarrow> 'd db_result"
  txn_commit :: "'d \<Rightarrow> 'd db_result"
  txn_checkpoint :: "'d \<Rightarrow> 'd db_result"
  txn_abort :: "'d \<Rightarrow> 'd db_result"
  txn_left :: "svn_errcode \<Rightarrow> 'd \<Rightarrow> 'd"

section \<open>Trails\<close>

text \<open>A step of a trail reads and changes the state of the database, or fails.\<close>

type_synonym ('d, 'a) trail = "'d \<Rightarrow> ('a \<times> 'd) svn_result"

definition tbind :: "('d, 'a) trail \<Rightarrow> ('a \<Rightarrow> ('d, 'b) trail) \<Rightarrow> ('d, 'b) trail" where
  "tbind m f s = svn_bind (m s) (\<lambda>(x, s'). f x s')"

definition tret :: "'a \<Rightarrow> ('d, 'a) trail" where
  "tret x s = Ok (x, s)"

definition tfail :: "svn_errcode \<Rightarrow> ('d, 'a) trail" where
  "tfail e s = Err e"

definition tlift :: "'a svn_result \<Rightarrow> ('d, 'a) trail" where
  "tlift r s = svn_bind r (\<lambda>x. Ok (x, s))"

text \<open>\<open>DB_WRAP\<close> around a read, around a write, around a write with a result; and a read whose status is looked at.\<close>

definition db_read :: "('d \<Rightarrow> 'a db_result) \<Rightarrow> ('d, 'a) trail" where
  "db_read rd s = (case rd s of DB_ok x \<Rightarrow> Ok (x, s) | DB_err e \<Rightarrow> Err (SVN_ERR_BERKELEY_DB e))"

definition db_write :: "('d \<Rightarrow> 'd db_result) \<Rightarrow> ('d, unit) trail" where
  "db_write wr s = (case wr s of DB_ok s' \<Rightarrow> Ok ((), s') | DB_err e \<Rightarrow> Err (SVN_ERR_BERKELEY_DB e))"

definition db_write' :: "('d \<Rightarrow> ('a \<times> 'd) db_result) \<Rightarrow> ('d, 'a) trail" where
  "db_write' wr s = (case wr s of DB_ok (x, s') \<Rightarrow> Ok (x, s') | DB_err e \<Rightarrow> Err (SVN_ERR_BERKELEY_DB e))"

definition db_peek :: "('d \<Rightarrow> 'a) \<Rightarrow> ('d, 'a) trail" where
  "db_peek rd s = Ok (rd s, s)"

text \<open>An operation whose error the caller looks at: \<open>h\<close> says what some of the errors become.\<close>

definition db_read_or :: "('d \<Rightarrow> 'a db_result) \<Rightarrow> (db_errcode \<Rightarrow> svn_errcode) \<Rightarrow> ('d, 'a) trail" where
  "db_read_or rd h s = (case rd s of DB_ok x \<Rightarrow> Ok (x, s) | DB_err e \<Rightarrow> Err (h e))"

definition db_write_or :: "('d \<Rightarrow> 'd db_result) \<Rightarrow> (db_errcode \<Rightarrow> svn_errcode) \<Rightarrow> ('d, unit) trail" where
  "db_write_or wr h s = (case wr s of DB_ok s' \<Rightarrow> Ok ((), s') | DB_err e \<Rightarrow> Err (h e))"

text \<open>The errors of a routine that has an error of its own for a key that does not exist.\<close>

definition or_notfound :: "svn_errcode \<Rightarrow> db_errcode \<Rightarrow> svn_errcode" where
  "or_notfound e d = (if d = DB_NOTFOUND then e else SVN_ERR_BERKELEY_DB d)"

section \<open>Running a trail\<close>

text \<open>
  The steps of \<open>svn_fs__retry_txn\<close>.  The result is the result of the body and the state of the
  database after the commit or the abort; \<open>None\<close> is a body that deadlocks for ever.  The undo
  actions that clear the caches of nodes at the end of a trail act on memory and not on the state.
\<close>

definition begin_trail :: "'d bdb \<Rightarrow> ('d, unit) trail" where
  "begin_trail db = db_write (txn_begin db)"

definition commit_trail :: "'d bdb \<Rightarrow> ('d, unit) trail" where
  "commit_trail db = tbind (db_write (txn_commit db)) (\<lambda>_. db_write (txn_checkpoint db))"

definition abort_trail :: "'d bdb \<Rightarrow> ('d, unit) trail" where
  "abort_trail db = db_write (txn_abort db)"

partial_function (option) svn_fs__retry_txn ::
  "'d bdb \<Rightarrow> ('d, 'a) trail \<Rightarrow> 'd \<Rightarrow> ('a svn_result \<times> 'd) option"
where
  "svn_fs__retry_txn db body s =
     (case begin_trail db s of
        Abort \<Rightarrow> Some (Abort, s)
      | Err e \<Rightarrow> Some (Err e, s)
      | Ok (_, s1) \<Rightarrow>
          (case body s1 of
             Abort \<Rightarrow> Some (Abort, s1)
           | Ok (x, s2) \<Rightarrow>
               (case commit_trail db s2 of
                  Ok (_, s3) \<Rightarrow> Some (Ok x, s3)
                | Err e \<Rightarrow> Some (Err e, s2)
                | Abort \<Rightarrow> Some (Abort, s2))
           | Err e \<Rightarrow>
               if e \<noteq> SVN_ERR_BERKELEY_DB DB_LOCK_DEADLOCK then
                 (case abort_trail db (txn_left db e s1) of
                    Ok (_, s2) \<Rightarrow> Some (Err e, s2)
                  | _ \<Rightarrow> Some (Err e, txn_left db e s1))
               else
                 (case abort_trail db (txn_left db e s1) of
                    Ok (_, s2) \<Rightarrow> svn_fs__retry_txn db body s2
                  | Err e' \<Rightarrow> Some (Err e', txn_left db e s1)
                  | Abort \<Rightarrow> Some (Abort, txn_left db e s1))))"

definition svn_fs__check_fs :: "'d bdb \<Rightarrow> unit svn_result" where
  "svn_fs__check_fs db = (if env_open db then Ok () else Err SVN_ERR_FS_NOT_OPEN)"

section \<open>Keys and data\<close>

text \<open>A \<open>DBT\<close> keeps its size in 32 bits.\<close>

definition svn_fs__set_dbt :: "bytes \<Rightarrow> bytes" where
  "svn_fs__set_dbt data = take (length data mod 2 ^ 32) data"

definition svn_fs__str_to_dbt :: "bytes \<Rightarrow> bytes" where
  "svn_fs__str_to_dbt str = svn_fs__set_dbt str"

definition svn_fs__id_to_dbt :: "svn_fs_id_t \<Rightarrow> bytes svn_result" where
  "svn_fs__id_to_dbt nid =
     svn_bind (svn_fs_unparse_id nid) (\<lambda>str.
     svn_bind (mem_bytes (sb_data str) (unat (sb_len str))) (\<lambda>bs. Ok (svn_fs__set_dbt bs)))"

definition svn_fs__skel_to_dbt :: "skel_t \<Rightarrow> bytes svn_result" where
  "svn_fs__skel_to_dbt skel =
     svn_bind (svn_fs__unparse_skel skel) (\<lambda>str.
     svn_bind (mem_bytes (sb_data str) (unat (sb_len str))) (\<lambda>bs. Ok (svn_fs__set_dbt bs)))"

text \<open>\<open>apr_pstrndup\<close>: the C string in the given bytes.\<close>

definition apr_pstrndup :: "bytes \<Rightarrow> bytes" where
  "apr_pstrndup data = takeWhile (\<lambda>c. c \<noteq> NUL) data"

text \<open>\<open>memcmp\<close> compares unsigned bytes; only the sign of its result is defined.\<close>

fun memcmp :: "bytes \<Rightarrow> bytes \<Rightarrow> int" where
  "memcmp (a # as) (b # bs) =
     (if a = b then memcmp as bs else if of_char a < (of_char b :: nat) then - 1 else 1)"
| "memcmp _ _ = 0"

definition svn_fs__compare_dbt :: "bytes \<Rightarrow> bytes \<Rightarrow> int" where
  "svn_fs__compare_dbt a b =
     (let common_size = min (length a) (length b);
          cmp = memcmp (take common_size a) (take common_size b)
      in if cmp \<noteq> 0 then cmp else to_int (int (length a) - int (length b)))"

section \<open>The order of the nodes table\<close>

function compare_ids_loop :: "svn_fs_id_t \<Rightarrow> svn_fs_id_t \<Rightarrow> nat \<Rightarrow> nat option svn_result" where
  "compare_ids_loop a b i =
     svn_bind (id_at a i) (\<lambda>ai. svn_bind (id_at b i) (\<lambda>bi.
       if ai = bi then (if ai = - 1 then Ok None else compare_ids_loop a b (i + 1))
       else Ok (Some i)))"
  by pat_completeness auto
termination
  by (relation "measure (\<lambda>(a, b, i). Suc (length a) - i)") (auto simp: id_at_def split: if_splits)

declare compare_ids_loop.simps [simp del]

definition compare_ids :: "svn_fs_id_t \<Rightarrow> svn_fs_id_t \<Rightarrow> int svn_result" where
  "compare_ids a b =
     svn_bind (compare_ids_loop a b 0) (\<lambda>r.
       case r of
         None \<Rightarrow> Ok 0
       | Some i \<Rightarrow>
           svn_bind (id_at a i) (\<lambda>ai. svn_bind (id_at b i) (\<lambda>bi.
             if even i then Ok (to_int (ai - bi))
             else if ai = - 1 \<or> bi = - 1 then Abort
             else
               svn_bind (id_at a (i + 1)) (\<lambda>an. svn_bind (id_at b (i + 1)) (\<lambda>bn.
                 if an = - 1 \<and> bn = - 1 then Ok (to_int (ai - bi))
                 else if an = - 1 then Ok (- 1)
                 else if bn = - 1 then Ok 1
                 else Ok (to_int (ai - bi)))))))"

definition parse_node_revision_dbt :: "bytes \<Rightarrow> svn_fs_id_t option svn_result" where
  "parse_node_revision_dbt d =
     svn_bind (svn_fs_parse_id d) (\<lambda>r.
       case r of
         None \<Rightarrow> Ok None
       | Some nid \<Rightarrow> if odd (svn_fs__id_length nid) then Ok None else Ok (Some nid))"

definition compare_nodes_keys :: "bytes \<Rightarrow> bytes \<Rightarrow> int svn_result" where
  "compare_nodes_keys ak bk =
     svn_bind (parse_node_revision_dbt ak) (\<lambda>a.
     svn_bind (parse_node_revision_dbt bk) (\<lambda>b.
       case (a, b) of
         (Some x, Some y) \<Rightarrow> compare_ids x y
       | (Some x, None) \<Rightarrow> Ok 1
       | (None, Some y) \<Rightarrow> Ok (- 1)
       | (None, None) \<Rightarrow> Ok (svn_fs__compare_dbt ak bk)))"

end
