(* ===== verification/Fs_Props.thy ===== *)
theory Fs_Props
  imports Fs_Db
begin

text \<open>
  Property lists (\<open>libsvn_fs/proplist.c\<close>): a skel that is a list of names and values in turn.  A
  \<open>svn_string_t\<close> is represented by its bytes, a hash table by a finite map.
\<close>

section \<open>Reading skels\<close>

fun skel_data :: "skel_t \<Rightarrow> bytes" where
  "skel_data (skel_atom d) = d"
| "skel_data (skel_list body children) = body"

fun skel_children :: "skel_t \<Rightarrow> skel_t list" where
  "skel_children (skel_atom d) = []"
| "skel_children (skel_list body children) = children"

text \<open>Following the pointers to a child: a null pointer stops the program.\<close>

definition skel_child :: "nat \<Rightarrow> skel_t \<Rightarrow> skel_t svn_result" where
  "skel_child i skel = (if i < length (skel_children skel) then Ok (skel_children skel ! i) else Abort)"

fun set_skel_child :: "nat \<Rightarrow> skel_t \<Rightarrow> skel_t \<Rightarrow> skel_t" where
  "set_skel_child i x (skel_list body children) = skel_list body (children[i := x])"
| "set_skel_child i x (skel_atom d) = skel_atom d"

section \<open>Property lists\<close>

fun find_prop :: "skel_t list \<Rightarrow> bytes \<Rightarrow> bytes option" where
  "find_prop (this_name # this_value # props) name =
     (if svn_fs__matches_atom (Some this_name) name then Some (skel_data this_value) else find_prop props name)"
| "find_prop _ name = None"

definition svn_fs__get_prop :: "skel_t \<Rightarrow> bytes \<Rightarrow> bytes option svn_result" where
  "svn_fs__get_prop proplist name =
     (if \<not> svn_fs__is_valid_proplist (Some proplist) then Err SVN_ERR_FS_CORRUPT
      else Ok (find_prop (skel_children proplist) name))"

fun hash_props :: "skel_t list \<Rightarrow> (bytes, bytes) fmap \<Rightarrow> (bytes, bytes) fmap" where
  "hash_props (this_name # this_value # props) tbl =
     hash_props props (fmupd (skel_data this_name) (skel_data this_value) tbl)"
| "hash_props _ tbl = tbl"

definition svn_fs__make_prop_hash :: "skel_t \<Rightarrow> (bytes, bytes) fmap svn_result" where
  "svn_fs__make_prop_hash proplist =
     (if \<not> svn_fs__is_valid_proplist (Some proplist) then Err SVN_ERR_FS_CORRUPT
      else Ok (hash_props (skel_children proplist) fmempty))"

text \<open>The loop that looks for the property; \<open>None\<close> when it is not there.\<close>

fun change_prop :: "skel_t list \<Rightarrow> bytes \<Rightarrow> bytes option \<Rightarrow> skel_t list option" where
  "change_prop (this_name # this_value # props) name value =
     (if svn_fs__matches_atom (Some this_name) name then
        (case value of
           None \<Rightarrow> Some props
         | Some v \<Rightarrow> Some (this_name # skel_atom v # props))
      else map_option (\<lambda>rest. this_name # this_value # rest) (change_prop props name value))"
| "change_prop _ name value = None"

text \<open>The property list is changed in place: the result is the list afterwards.\<close>

definition svn_fs__set_prop :: "skel_t \<Rightarrow> bytes \<Rightarrow> bytes option \<Rightarrow> skel_t svn_result" where
  "svn_fs__set_prop proplist name value =
     (if \<not> svn_fs__is_valid_proplist (Some proplist) then Err SVN_ERR_FS_CORRUPT
      else case change_prop (skel_children proplist) name value of
             Some children \<Rightarrow> Ok (skel_list (skel_data proplist) children)
           | None \<Rightarrow>
               (case value of
                  None \<Rightarrow> Ok proplist
                | Some v \<Rightarrow>
                    svn_bind (svn_fs__prepend (svn_fs__mem_atom v) proplist)
                      (svn_fs__prepend (svn_fs__mem_atom name))))"

section \<open>Property lists as maps\<close>

fun prop_names :: "skel_t list \<Rightarrow> bytes list" where
  "prop_names (n # v # props) = skel_data n # prop_names props"
| "prop_names _ = []"

text \<open>A valid property list with no name twice.\<close>

definition proplist_ok :: "skel_t \<Rightarrow> bool" where
  "proplist_ok p \<longleftrightarrow> svn_fs__is_valid_proplist (Some p) \<and> distinct (prop_names (skel_children p))"

fun atom_pairs :: "skel_t list \<Rightarrow> bool" where
  "atom_pairs (skel_atom n # skel_atom v # props) \<longleftrightarrow> atom_pairs props"
| "atom_pairs [] \<longleftrightarrow> True"
| "atom_pairs _ \<longleftrightarrow> False"

lemma valid_proplist_pairs:
  "svn_fs__is_valid_proplist (Some p) \<longleftrightarrow> (\<exists>body children. p = skel_list body children \<and> atom_pairs children)"
proof (cases p)
  case (skel_list body children)
  have "(even (length cs) \<and> list_all (\<lambda>elt. case elt of skel_atom d \<Rightarrow> True | _ \<Rightarrow> False) cs) \<longleftrightarrow> atom_pairs cs" for cs
    by (induction cs rule: atom_pairs.induct) auto
  with skel_list show ?thesis by (simp add: svn_fs__is_valid_proplist_def)
qed (simp add: svn_fs__is_valid_proplist_def)

lemma find_prop_not_in: "atom_pairs cs \<Longrightarrow> name \<notin> set (prop_names cs) \<Longrightarrow> find_prop cs name = None"
  by (induction cs rule: atom_pairs.induct) auto

lemma hash_props_lookup:
  "atom_pairs cs \<Longrightarrow> distinct (prop_names cs) \<Longrightarrow>
   fmlookup (hash_props cs tbl) name = (case find_prop cs name of Some v \<Rightarrow> Some v | None \<Rightarrow> fmlookup tbl name)"
  by (induction cs arbitrary: tbl rule: atom_pairs.induct) (auto simp: find_prop_not_in split: option.split)

lemma change_prop_spec:
  assumes "atom_pairs cs" and "distinct (prop_names cs)"
  shows "case change_prop cs name value of
      None \<Rightarrow> name \<notin> set (prop_names cs)
    | Some cs' \<Rightarrow> atom_pairs cs' \<and> distinct (prop_names cs') \<and> set (prop_names cs') \<subseteq> set (prop_names cs) \<and>
        (\<forall>n. find_prop cs' n = (if n = name then value else find_prop cs n))"
  using assms
  by (induction cs rule: atom_pairs.induct) (auto split: option.splits simp: find_prop_not_in)

lemma set_prop_spec:
  assumes "proplist_ok p"
  obtains p' where "svn_fs__set_prop p name value = Ok p'" and "proplist_ok p'"
    and "\<forall>n. svn_fs__get_prop p' n = (if n = name then Ok value else svn_fs__get_prop p n)"
proof -
  obtain body cs where p: "p = skel_list body cs" "atom_pairs cs" "distinct (prop_names cs)"
    using assms by (auto simp: proplist_ok_def valid_proplist_pairs)
  have valid: "svn_fs__is_valid_proplist (Some (skel_list b xs)) \<longleftrightarrow> atom_pairs xs" for b xs
    by (simp add: valid_proplist_pairs)
  note ch = change_prop_spec [OF p(2,3), of name "value"]
  show thesis
  proof (cases "change_prop cs name value")
    case (Some cs')
    with ch p that [of "skel_list body cs'"] show thesis
      by (simp add: svn_fs__set_prop_def svn_fs__get_prop_def proplist_ok_def valid)
  next
    case None
    then have fresh: "name \<notin> set (prop_names cs)" using ch by simp
    show thesis
    proof (cases "value")
      case None
      with \<open>change_prop cs name value = None\<close> fresh p that [of p] show thesis
        by (simp add: svn_fs__set_prop_def svn_fs__get_prop_def proplist_ok_def valid find_prop_not_in)
    next
      case (Some v)
      with \<open>change_prop cs name value = None\<close> fresh p that [of "skel_list body (skel_atom name # skel_atom v # cs)"] show thesis
        by (simp add: svn_fs__set_prop_def svn_fs__get_prop_def proplist_ok_def valid svn_fs__mem_atom_def)
    qed
  qed
qed

text \<open>
  C23. Property lists implement maps: setting a property of a list without repeated names updates or
  removes its entry in the hash table of the list and nothing else, and gives again a list without
  repeated names; looking a property up gives its entry in the hash table.
\<close>

theorem set_prop_hash:
  assumes "proplist_ok p"
  shows "\<exists>p' h. svn_fs__make_prop_hash p = Ok h \<and> svn_fs__set_prop p name value = Ok p' \<and> proplist_ok p' \<and>
    svn_fs__make_prop_hash p' = Ok (case value of None \<Rightarrow> fmdrop name h | Some v \<Rightarrow> fmupd name v h) \<and>
    (\<forall>n. svn_fs__get_prop p n = Ok (fmlookup h n))"
proof -
  have hash: "\<exists>h. svn_fs__make_prop_hash q = Ok h \<and> (\<forall>n. svn_fs__get_prop q n = Ok (fmlookup h n))" if "proplist_ok q" for q
    using that hash_props_lookup [of "skel_children q" fmempty]
    by (auto simp: proplist_ok_def svn_fs__make_prop_hash_def svn_fs__get_prop_def valid_proplist_pairs split: option.split)
  obtain p' where p': "svn_fs__set_prop p name value = Ok p'" "proplist_ok p'"
    "\<forall>n. svn_fs__get_prop p' n = (if n = name then Ok value else svn_fs__get_prop p n)" by (rule set_prop_spec [OF assms])
  obtain h h' where h: "svn_fs__make_prop_hash p = Ok h" "\<forall>n. svn_fs__get_prop p n = Ok (fmlookup h n)"
    "svn_fs__make_prop_hash p' = Ok h'" "\<forall>n. svn_fs__get_prop p' n = Ok (fmlookup h' n)"
    using hash [OF assms] hash [OF p'(2)] by auto
  have "h' = (case value of None \<Rightarrow> fmdrop name h | Some v \<Rightarrow> fmupd name v h)"
    by (rule fmap_ext) (use p'(3) h(2,4) in \<open>auto split: option.split if_splits\<close>)
  with h p' show ?thesis by auto
qed

theorem set_prop_hash_witness:
  "\<exists>p' h. svn_fs__set_prop (skel_list [] [skel_atom ''a'', skel_atom ''1'', skel_atom ''b'', skel_atom ''2'']) ''b'' None = Ok p' \<and>
    proplist_ok p' \<and> svn_fs__make_prop_hash p' = Ok (fmdrop ''b'' h) \<and> fmlookup h ''a'' = Some ''1''"
proof -
  let ?p = "skel_list [] [skel_atom ''a'', skel_atom ''1'', skel_atom ''b'', skel_atom ''2'']"
  have ok: "proplist_ok ?p" by (simp add: proplist_ok_def valid_proplist_pairs)
  then have "svn_fs__get_prop ?p ''a'' = Ok (Some ''1'')" by (simp add: svn_fs__get_prop_def proplist_ok_def)
  with set_prop_hash [OF ok, of "''b''" None] show ?thesis by auto
qed

end
