(* ===== verification/Fs_Ref.thy ===== *)
theory Fs_Ref
  imports Fs_Db
begin

text \<open>
  What the filesystem relies on of Berkeley DB.  \<open>ref_db\<close> is a database whose state is a set of
  finite maps and whose operations do what the documentation of Berkeley DB says.  A database
  \<open>db\<close> with the abstraction \<open>view\<close> of its states satisfies \<open>bdb_laws\<close> when each of its operations
  does the same on the abstractions: no operation fails except for a key that is missing.

  \<open>refines\<close> lifts this from the operations to the routines of the filesystem: a routine run on
  \<open>db\<close> has the results it has when run on \<open>ref_db\<close>, so that what is proved of \<open>ref_db\<close> holds of
  every database with these laws.
\<close>

section \<open>The reference database\<close>

record fs_tables =
  ft_tab :: "db_table \<Rightarrow> (bytes, bytes) fmap"
  ft_strings :: "(bytes, bytes list) fmap"
  ft_revs :: "(nat, bytes) fmap"

definition key_cmp :: "db_table \<Rightarrow> bytes \<Rightarrow> bytes \<Rightarrow> int" where
  "key_cmp T a b =
     (case T of
        Nodes \<Rightarrow> (case compare_nodes_keys a b of Ok r \<Rightarrow> r | _ \<Rightarrow> 0)
      | _ \<Rightarrow> svn_fs__compare_dbt a b)"

definition table_keys :: "db_table \<Rightarrow> fs_tables \<Rightarrow> bytes list" where
  "table_keys T v = sorted_list_of_fset (fmdom (ft_tab v T))"

fun last_of :: "('k \<Rightarrow> 'k \<Rightarrow> int) \<Rightarrow> 'k list \<Rightarrow> 'k db_result" where
  "last_of cmp [] = DB_err DB_NOTFOUND"
| "last_of cmp (k # ks) = DB_ok (foldl (\<lambda>m x. if cmp m x < 0 then x else m) k ks)"

definition first_of :: "('k \<Rightarrow> 'k \<Rightarrow> int) \<Rightarrow> 'k list \<Rightarrow> 'k db_result" where
  "first_of cmp ks = last_of (\<lambda>a b. cmp b a) ks"

definition put_tab :: "db_table \<Rightarrow> bytes \<Rightarrow> bytes \<Rightarrow> fs_tables \<Rightarrow> fs_tables" where
  "put_tab T k x v = v\<lparr>ft_tab := (ft_tab v)(T := fmupd k x (ft_tab v T))\<rparr>"

definition del_tab :: "db_table \<Rightarrow> bytes \<Rightarrow> fs_tables \<Rightarrow> fs_tables" where
  "del_tab T k v = v\<lparr>ft_tab := (ft_tab v)(T := fmdrop k (ft_tab v T))\<rparr>"

text \<open>The records of a string, in the order in which they were added.\<close>

definition str_recs :: "bytes \<Rightarrow> fs_tables \<Rightarrow> bytes list" where
  "str_recs k v = (case fmlookup (ft_strings v) k of None \<Rightarrow> [] | Some rs \<Rightarrow> rs)"

definition set_str :: "bytes \<Rightarrow> bytes list \<Rightarrow> fs_tables \<Rightarrow> fs_tables" where
  "set_str k rs v = v\<lparr>ft_strings := (if rs = [] then fmdrop k (ft_strings v) else fmupd k rs (ft_strings v))\<rparr>"

definition last_rev :: "fs_tables \<Rightarrow> nat" where
  "last_rev v = foldl max 0 (sorted_list_of_fset (fmdom (ft_revs v)))"

definition put_rev_rec :: "nat \<Rightarrow> bytes \<Rightarrow> fs_tables \<Rightarrow> fs_tables" where
  "put_rev_rec n x v = v\<lparr>ft_revs := fmupd n x (ft_revs v)\<rparr>"

definition of_option :: "'a option \<Rightarrow> 'a db_result" where
  "of_option r = (case r of None \<Rightarrow> DB_err DB_NOTFOUND | Some x \<Rightarrow> DB_ok x)"

definition nth_rec :: "bytes list \<Rightarrow> nat \<Rightarrow> bytes option" where
  "nth_rec rs i = (if i < length rs then Some (rs ! i) else None)"

definition ref_rev_get :: "nat \<Rightarrow> fs_tables \<Rightarrow> bytes db_result" where
  "ref_rev_get n v =
     (case fmlookup (ft_revs v) n of
        Some x \<Rightarrow> DB_ok x
      | None \<Rightarrow> DB_err (if n = 0 then DB_other 22 else if n < last_rev v then DB_KEYEMPTY else DB_NOTFOUND))"

definition ref_db :: "fs_tables bdb" where
  "ref_db =
     \<lparr>env_open = True,
      db_get = (\<lambda>T k v. of_option (fmlookup (ft_tab v T) k)),
      db_put = (\<lambda>T k x v. DB_ok (put_tab T k x v)),
      db_del = (\<lambda>T k v. if fmlookup (ft_tab v T) k = None then DB_err DB_NOTFOUND else DB_ok (del_tab T k v)),
      db_first = (\<lambda>T v. first_of (key_cmp T) (table_keys T v)),
      db_next = (\<lambda>T k v. first_of (key_cmp T) (filter (\<lambda>x. key_cmp T k x < 0) (table_keys T v))),
      db_last = (\<lambda>T v. last_of (key_cmp T) (table_keys T v)),
      db_prev = (\<lambda>T k v. last_of (key_cmp T) (filter (\<lambda>x. key_cmp T x k < 0) (table_keys T v))),
      db_set_range = (\<lambda>T k v. first_of (key_cmp T) (filter (\<lambda>x. key_cmp T x k \<ge> 0) (table_keys T v))),
      db_count = (\<lambda>T v. length (table_keys T v)),
      str_dups = (\<lambda>k v. length (str_recs k v)),
      str_bytes = (\<lambda>k v. length (concat (str_recs k v))),
      str_probe = (\<lambda>k i v. case nth_rec (str_recs k v) i of
                              None \<Rightarrow> (Some DB_NOTFOUND, 0)
                            | Some r \<Rightarrow> (if r = [] then None else Some DB_ENOMEM, length r)),
      str_move = (\<lambda>k i v. case nth_rec (str_recs k v) i of None \<Rightarrow> DB_err DB_NOTFOUND | Some r \<Rightarrow> DB_ok ()),
      str_current = (\<lambda>k i off n v. of_option (map_option (\<lambda>r. take n (drop off r)) (nth_rec (str_recs k v) i))),
      str_fetch = (\<lambda>k i v. of_option (nth_rec (str_recs k v) i)),
      str_set = (\<lambda>k x v. if str_recs k v = [] then DB_err DB_NOTFOUND
                          else DB_ok (set_str k (x # tl (str_recs k v)) v)),
      str_put = (\<lambda>k x v. DB_ok (set_str k (str_recs k v @ [x]) v)),
      str_del = (\<lambda>k v. if str_recs k v = [] then DB_err DB_NOTFOUND else DB_ok (set_str k [] v)),
      rev_get = ref_rev_get,
      rev_put = (\<lambda>n x v. if n = 0 then DB_err (DB_other 22) else DB_ok (put_rev_rec n x v)),
      rev_append = (\<lambda>x v. DB_ok (last_rev v + 1, put_rev_rec (last_rev v + 1) x v)),
      rev_last = (\<lambda>v. if last_rev v = 0 then DB_err DB_NOTFOUND else DB_ok (last_rev v)),
      txn_begin = DB_ok, txn_commit = DB_ok, txn_checkpoint = DB_ok, txn_abort = DB_ok, txn_left = (\<lambda>e v. v)\<rparr>"

lemma ref_db_simps [simp]:
  "env_open ref_db"
  "db_get ref_db T k v = of_option (fmlookup (ft_tab v T) k)"
  "db_put ref_db T k x v = DB_ok (put_tab T k x v)"
  "db_del ref_db T k v = (if fmlookup (ft_tab v T) k = None then DB_err DB_NOTFOUND else DB_ok (del_tab T k v))"
  "db_first ref_db T v = first_of (key_cmp T) (table_keys T v)"
  "db_next ref_db T k v = first_of (key_cmp T) (filter (\<lambda>x. key_cmp T k x < 0) (table_keys T v))"
  "db_last ref_db T v = last_of (key_cmp T) (table_keys T v)"
  "db_prev ref_db T k v = last_of (key_cmp T) (filter (\<lambda>x. key_cmp T x k < 0) (table_keys T v))"
  "db_set_range ref_db T k v = first_of (key_cmp T) (filter (\<lambda>x. key_cmp T x k \<ge> 0) (table_keys T v))"
  "db_count ref_db T v = length (table_keys T v)"
  "str_dups ref_db k v = length (str_recs k v)"
  "str_bytes ref_db k v = length (concat (str_recs k v))"
  "str_probe ref_db k i v = (case nth_rec (str_recs k v) i of
     None \<Rightarrow> (Some DB_NOTFOUND, 0) | Some r \<Rightarrow> (if r = [] then None else Some DB_ENOMEM, length r))"
  "str_move ref_db k i v = (case nth_rec (str_recs k v) i of None \<Rightarrow> DB_err DB_NOTFOUND | Some r \<Rightarrow> DB_ok ())"
  "str_current ref_db k i off n v = of_option (map_option (\<lambda>r. take n (drop off r)) (nth_rec (str_recs k v) i))"
  "str_fetch ref_db k i v = of_option (nth_rec (str_recs k v) i)"
  "str_set ref_db k x v = (if str_recs k v = [] then DB_err DB_NOTFOUND else DB_ok (set_str k (x # tl (str_recs k v)) v))"
  "str_put ref_db k x v = DB_ok (set_str k (str_recs k v @ [x]) v)"
  "str_del ref_db k v = (if str_recs k v = [] then DB_err DB_NOTFOUND else DB_ok (set_str k [] v))"
  "rev_get ref_db n v = ref_rev_get n v"
  "rev_put ref_db n x v = (if n = 0 then DB_err (DB_other 22) else DB_ok (put_rev_rec n x v))"
  "rev_append ref_db x v = DB_ok (last_rev v + 1, put_rev_rec (last_rev v + 1) x v)"
  "rev_last ref_db v = (if last_rev v = 0 then DB_err DB_NOTFOUND else DB_ok (last_rev v))"
  by (simp_all add: ref_db_def)

lemma of_option_simps [simp]: "of_option None = DB_err DB_NOTFOUND" "of_option (Some x) = DB_ok x"
  by (simp_all add: of_option_def)

lemma nth_rec_simps [simp]:
  "i < length rs \<Longrightarrow> nth_rec rs i = Some (rs ! i)" "\<not> i < length rs \<Longrightarrow> nth_rec rs i = None"
  by (simp_all add: nth_rec_def)

lemma str_recs_set [simp]:
  "str_recs k (set_str k rs v) = rs" "k' \<noteq> k \<Longrightarrow> str_recs k' (set_str k rs v) = str_recs k' v"
  by (auto simp: str_recs_def set_str_def)

lemma tables_frame [simp]:
  "ft_tab (set_str k rs v) = ft_tab v" "ft_revs (set_str k rs v) = ft_revs v"
  "ft_strings (put_tab T k x v) = ft_strings v" "ft_revs (put_tab T k x v) = ft_revs v"
  "ft_strings (del_tab T k v) = ft_strings v" "ft_revs (del_tab T k v) = ft_revs v"
  "ft_tab (put_rev_rec n x v) = ft_tab v" "ft_strings (put_rev_rec n x v) = ft_strings v"
  by (simp_all add: set_str_def put_tab_def del_tab_def put_rev_rec_def)

lemma str_recs_frame [simp]:
  "str_recs k (put_tab T k' x v) = str_recs k v" "str_recs k (del_tab T k' v) = str_recs k v"
  "str_recs k (put_rev_rec n x v) = str_recs k v"
  by (simp_all add: str_recs_def)

lemma ft_tab_simps [simp]:
  "ft_tab (put_tab T k x v) T' = (if T' = T then fmupd k x (ft_tab v T) else ft_tab v T')"
  "ft_tab (del_tab T k v) T' = (if T' = T then fmdrop k (ft_tab v T) else ft_tab v T')"
  by (simp_all add: put_tab_def del_tab_def)

lemmas trail_defs =
  tbind_def tret_def tfail_def tlift_def db_read_def db_write_def db_write'_def db_peek_def
  db_read_or_def db_write_or_def or_notfound_def

section \<open>The laws of the database\<close>

definition read_law :: "('d \<Rightarrow> fs_tables) \<Rightarrow> ('d \<Rightarrow> 'a) \<Rightarrow> (fs_tables \<Rightarrow> 'a) \<Rightarrow> bool" where
  "read_law view rd ref \<longleftrightarrow> (\<forall>s. rd s = ref (view s))"

definition write_law :: "('d \<Rightarrow> fs_tables) \<Rightarrow> ('d \<Rightarrow> 'd db_result) \<Rightarrow> (fs_tables \<Rightarrow> fs_tables db_result) \<Rightarrow> bool" where
  "write_law view wr ref \<longleftrightarrow> (\<forall>s. map_db_result view (wr s) = ref (view s))"

definition bdb_laws :: "'d bdb \<Rightarrow> ('d \<Rightarrow> fs_tables) \<Rightarrow> bool" where
  "bdb_laws db view \<longleftrightarrow>
     env_open db \<and>
     (\<forall>T k. read_law view (db_get db T k) (db_get ref_db T k)) \<and>
     (\<forall>T k x. write_law view (db_put db T k x) (db_put ref_db T k x)) \<and>
     (\<forall>T k. write_law view (db_del db T k) (db_del ref_db T k)) \<and>
     (\<forall>T. read_law view (db_first db T) (db_first ref_db T)) \<and>
     (\<forall>T k. read_law view (db_next db T k) (db_next ref_db T k)) \<and>
     (\<forall>T. read_law view (db_last db T) (db_last ref_db T)) \<and>
     (\<forall>T k. read_law view (db_prev db T k) (db_prev ref_db T k)) \<and>
     (\<forall>T k. read_law view (db_set_range db T k) (db_set_range ref_db T k)) \<and>
     (\<forall>T. read_law view (db_count db T) (db_count ref_db T)) \<and>
     (\<forall>k. read_law view (str_dups db k) (str_dups ref_db k)) \<and>
     (\<forall>k. read_law view (str_bytes db k) (str_bytes ref_db k)) \<and>
     (\<forall>k i. read_law view (str_probe db k i) (str_probe ref_db k i)) \<and>
     (\<forall>k i. read_law view (str_move db k i) (str_move ref_db k i)) \<and>
     (\<forall>k i off n. read_law view (str_current db k i off n) (str_current ref_db k i off n)) \<and>
     (\<forall>k i. read_law view (str_fetch db k i) (str_fetch ref_db k i)) \<and>
     (\<forall>k x. write_law view (str_set db k x) (str_set ref_db k x)) \<and>
     (\<forall>k x. write_law view (str_put db k x) (str_put ref_db k x)) \<and>
     (\<forall>k. write_law view (str_del db k) (str_del ref_db k)) \<and>
     (\<forall>n. read_law view (rev_get db n) (rev_get ref_db n)) \<and>
     (\<forall>n x. write_law view (rev_put db n x) (rev_put ref_db n x)) \<and>
     (\<forall>x s. map_db_result (map_prod id view) (rev_append db x s) = rev_append ref_db x (view s)) \<and>
     read_law view (rev_last db) (rev_last ref_db)"

lemma bdb_laws_ref: "bdb_laws ref_db id"
  by (simp add: bdb_laws_def read_law_def write_law_def db_result.map_id0 prod.map_id0)

section \<open>Refinement of routines\<close>

named_theorems refine_intros

definition refines :: "('d \<Rightarrow> 'v) \<Rightarrow> ('d, 'a) trail \<Rightarrow> ('v, 'a) trail \<Rightarrow> bool" where
  "refines view m g \<longleftrightarrow> (\<forall>s. map_svn_result (map_prod id view) (m s) = g (view s))"

lemma refinesD: "refines view m g \<Longrightarrow> map_svn_result (map_prod id view) (m s) = g (view s)"
  by (simp add: refines_def)

lemma refines_Ok:
  assumes "refines view m g" and "g (view s) = Ok (x, v')"
  shows "\<exists>s'. m s = Ok (x, s') \<and> view s' = v'"
  using refinesD [OF assms(1), of s] assms(2) by (cases "m s") auto

lemma refines_Err: "refines view m g \<Longrightarrow> g (view s) = Err e \<Longrightarrow> m s = Err e"
  using refinesD [of view m g s] by (cases "m s") auto

lemma refines_Abort: "refines view m g \<Longrightarrow> g (view s) = Abort \<Longrightarrow> m s = Abort"
  using refinesD [of view m g s] by (cases "m s") auto

text \<open>What a routine returns, without the state it leaves behind.\<close>

definition trail_result :: "('d, 'a) trail \<Rightarrow> 'd \<Rightarrow> 'a svn_result" where
  "trail_result m s = map_svn_result fst (m s)"

lemma refines_result: "refines view m g \<Longrightarrow> trail_result m s = trail_result g (view s)"
  using refinesD [of view m g s, symmetric] by (cases "m s") (auto simp: trail_result_def)

lemma refines_tbind [refine_intros]:
  assumes "refines view m g" and "\<And>x. refines view (f x) (h x)"
  shows "refines view (tbind m f) (tbind g h)"
  unfolding refines_def tbind_def
proof
  fix s
  show "map_svn_result (map_prod id view) (svn_bind (m s) (\<lambda>(x, s'). f x s')) =
      svn_bind (g (view s)) (\<lambda>(x, s'). h x s')"
    using refinesD [OF assms(1), of s, symmetric] refinesD [OF assms(2)] by (cases "m s") auto
qed

lemma refines_tret [refine_intros]: "refines view (tret x) (tret x)"
  by (simp add: refines_def tret_def)

lemma refines_tfail [refine_intros]: "refines view (tfail e) (tfail e)"
  by (simp add: refines_def tfail_def)

lemma refines_tlift [refine_intros]: "refines view (tlift r) (tlift r)"
  by (cases r) (simp_all add: refines_def tlift_def)

lemma refines_if [refine_intros]:
  "refines view m g \<Longrightarrow> refines view m' g' \<Longrightarrow> refines view (if b then m else m') (if b then g else g')"
  by simp

lemma refines_option [refine_intros]:
  "refines view m g \<Longrightarrow> (\<And>x. refines view (f x) (h x)) \<Longrightarrow>
   refines view (case r of None \<Rightarrow> m | Some x \<Rightarrow> f x) (case r of None \<Rightarrow> g | Some x \<Rightarrow> h x)"
  by (cases r) simp_all

lemma refines_prod [refine_intros]:
  "(\<And>x y. refines view (f x y) (h x y)) \<Longrightarrow> refines view (case p of (x, y) \<Rightarrow> f x y) (case p of (x, y) \<Rightarrow> h x y)"
  by (cases p) simp

lemma refines_list [refine_intros]:
  "refines view m g \<Longrightarrow> (\<And>x xs. refines view (f x xs) (h x xs)) \<Longrightarrow>
   refines view (case l of [] \<Rightarrow> m | x # xs \<Rightarrow> f x xs) (case l of [] \<Rightarrow> g | x # xs \<Rightarrow> h x xs)"
  by (cases l) simp_all

lemma refines_read [refine_intros]: "read_law view rd ref \<Longrightarrow> refines view (db_read rd) (db_read ref)"
  by (simp add: refines_def db_read_def read_law_def split: db_result.split)

lemma refines_peek [refine_intros]: "read_law view rd ref \<Longrightarrow> refines view (db_peek rd) (db_peek ref)"
  by (simp add: refines_def db_peek_def read_law_def)

lemma refines_read_or [refine_intros]: "read_law view rd ref \<Longrightarrow> refines view (db_read_or rd h) (db_read_or ref h)"
  by (simp add: refines_def db_read_or_def read_law_def split: db_result.split)

lemma write_lawD: "write_law view wr ref \<Longrightarrow> ref (view s) = map_db_result view (wr s)"
  by (simp add: write_law_def)

lemma refines_write [refine_intros]: "write_law view wr ref \<Longrightarrow> refines view (db_write wr) (db_write ref)"
  by (simp add: refines_def db_write_def write_lawD split: db_result.split)

lemma refines_write_or [refine_intros]: "write_law view wr ref \<Longrightarrow> refines view (db_write_or wr h) (db_write_or ref h)"
  by (simp add: refines_def db_write_or_def write_lawD split: db_result.split)

lemma bdb_lawsD [refine_intros]:
  assumes "bdb_laws db view"
  shows "read_law view (db_get db T k) (db_get ref_db T k)"
    and "write_law view (db_put db T k x) (db_put ref_db T k x)"
    and "write_law view (db_del db T k) (db_del ref_db T k)"
    and "read_law view (db_first db T) (db_first ref_db T)"
    and "read_law view (db_next db T k) (db_next ref_db T k)"
    and "read_law view (db_last db T) (db_last ref_db T)"
    and "read_law view (db_prev db T k) (db_prev ref_db T k)"
    and "read_law view (db_set_range db T k) (db_set_range ref_db T k)"
    and "read_law view (db_count db T) (db_count ref_db T)"
    and "read_law view (str_dups db k) (str_dups ref_db k)"
    and "read_law view (str_bytes db k) (str_bytes ref_db k)"
    and "read_law view (str_probe db k i) (str_probe ref_db k i)"
    and "read_law view (str_move db k i) (str_move ref_db k i)"
    and "read_law view (str_current db k i off n) (str_current ref_db k i off n)"
    and "read_law view (str_fetch db k i) (str_fetch ref_db k i)"
    and "write_law view (str_set db k x) (str_set ref_db k x)"
    and "write_law view (str_put db k x) (str_put ref_db k x)"
    and "write_law view (str_del db k) (str_del ref_db k)"
    and "read_law view (rev_get db n) (rev_get ref_db n)"
    and "write_law view (rev_put db n x) (rev_put ref_db n x)"
    and "read_law view (rev_last db) (rev_last ref_db)"
  using assms by (simp_all add: bdb_laws_def)

lemma refines_append [refine_intros]:
  assumes "bdb_laws db view"
  shows "refines view (db_write' (rev_append db x)) (db_write' (rev_append ref_db x))"
proof -
  have "rev_append ref_db x (view s) = map_db_result (map_prod id view) (rev_append db x s)" for s
    using assms by (simp add: bdb_laws_def)
  then show ?thesis by (auto simp: refines_def db_write'_def split: db_result.split)
qed

lemma bdb_laws_open: "bdb_laws db view \<Longrightarrow> svn_fs__check_fs db = svn_fs__check_fs ref_db"
  by (simp add: bdb_laws_def svn_fs__check_fs_def)

end
