(* ===== verification/Fs_Strings.thy ===== *)
theory Fs_Strings
  imports Fs_Ref
begin

text \<open>
  The tables of strings and of representations (\<open>libsvn_fs/strings-table.c\<close>, \<open>reps-table.c\<close>).
  A string is kept in one or more records under its key; new keys are taken from the record
  \<open>next-key\<close>.  Offsets and lengths are numbers here; the database takes them in 32 bits.
\<close>

section \<open>Records of a string\<close>

text \<open>The length of the first record.\<close>

definition locate_key :: "'d bdb \<Rightarrow> bytes \<Rightarrow> ('d, nat) trail" where
  "locate_key db query =
     tbind (db_peek (str_probe db query 0)) (\<lambda>(db_err, n).
       case db_err of
         None \<Rightarrow> tret n
       | Some e \<Rightarrow>
           if e = DB_NOTFOUND then tfail SVN_ERR_FS_NO_SUCH_STRING
           else if e \<noteq> DB_ENOMEM then tfail (SVN_ERR_BERKELEY_DB e)
           else tbind (db_read (str_move db query 0)) (\<lambda>_. tret n))"

text \<open>The length of the \<open>i\<close>-th record, with the status of the database.\<close>

definition get_next_length :: "'d bdb \<Rightarrow> bytes \<Rightarrow> nat \<Rightarrow> ('d, db_errcode option \<times> nat) trail" where
  "get_next_length db query i =
     tbind (db_peek (str_probe db query i)) (\<lambda>(db_err, n).
       case db_err of
         None \<Rightarrow> tret (None, n)
       | Some e \<Rightarrow>
           if e \<noteq> DB_ENOMEM then tret (Some e, n)
           else
             tbind (db_peek (str_move db query i)) (\<lambda>r.
               tret (case r of DB_ok _ \<Rightarrow> None | DB_err e' \<Rightarrow> Some e', n)))"

section \<open>Reading\<close>

text \<open>
  The search for the record that has the offset: the cursor is on record \<open>i\<close>, which has
  \<open>len_i\<close> bytes.  The result is the record and the offset in it, or \<open>None\<close> past the end.
\<close>

primrec seek_record :: "'d bdb \<Rightarrow> bytes \<Rightarrow> nat \<Rightarrow> nat \<Rightarrow> nat \<Rightarrow> nat \<Rightarrow> ('d, (nat \<times> nat) option) trail" where
  "seek_record db query 0 i len_i offset = tlift Abort"
| "seek_record db query (Suc fuel) i len_i offset =
     (if len_i \<le> offset then
        tbind (get_next_length db query (Suc i)) (\<lambda>(db_err, n).
          case db_err of
            None \<Rightarrow> seek_record db query fuel (Suc i) n (offset - len_i)
          | Some e \<Rightarrow> if e = DB_NOTFOUND then tret None else tfail (SVN_ERR_BERKELEY_DB e))
      else tret (Some (i, offset)))"

definition string_read :: "'d bdb \<Rightarrow> bytes \<Rightarrow> nat \<Rightarrow> nat \<Rightarrow> ('d, bytes) trail" where
  "string_read db key offset len =
     (let query = svn_fs__str_to_dbt key in
      tbind (locate_key db query) (\<lambda>n.
      tbind (db_peek (str_dups db query)) (\<lambda>dups.
      tbind (seek_record db query (Suc dups) 0 n offset) (\<lambda>r.
        case r of
          None \<Rightarrow> tret []
        | Some p \<Rightarrow>
            (case p of (i, off) \<Rightarrow>
               db_read (str_current db query i (off mod 2 ^ 32) (len mod 2 ^ 32)))))))"

text \<open>The loop over partial reads; every turn but the last one reads at least one byte.\<close>

primrec string_read_loop :: "'d bdb \<Rightarrow> bytes \<Rightarrow> nat \<Rightarrow> nat \<Rightarrow> nat \<Rightarrow> bytes \<Rightarrow> ('d, bytes) trail" where
  "string_read_loop db key 0 offset len got = tlift Abort"
| "string_read_loop db key (Suc fuel) offset len got =
     tbind (string_read db key (offset + length got) (len - length got)) (\<lambda>bs.
       (let got' = got @ bs in
        if bs = [] \<or> length got' = len then tret got'
        else string_read_loop db key fuel offset len got'))"

definition svn_fs__string_read :: "'d bdb \<Rightarrow> bytes \<Rightarrow> nat \<Rightarrow> nat \<Rightarrow> ('d, bytes) trail" where
  "svn_fs__string_read db key offset len = string_read_loop db key (Suc len) offset len []"

text \<open>The sum of the lengths of the records from the \<open>i\<close>-th one on.\<close>

primrec size_loop :: "'d bdb \<Rightarrow> bytes \<Rightarrow> nat \<Rightarrow> nat \<Rightarrow> nat \<Rightarrow> ('d, nat) trail" where
  "size_loop db query 0 i acc = tlift Abort"
| "size_loop db query (Suc fuel) i acc =
     tbind (get_next_length db query i) (\<lambda>(db_err, n).
       case db_err of
         None \<Rightarrow> size_loop db query fuel (Suc i) (acc + n)
       | Some e \<Rightarrow> if e = DB_NOTFOUND then tret acc else tfail (SVN_ERR_BERKELEY_DB e))"

definition svn_fs__string_size :: "'d bdb \<Rightarrow> bytes \<Rightarrow> ('d, nat) trail" where
  "svn_fs__string_size db key =
     (let query = svn_fs__str_to_dbt key in
      tbind (locate_key db query) (\<lambda>n.
      tbind (db_peek (str_dups db query)) (\<lambda>dups.
        size_loop db query (Suc dups) 1 n)))"

section \<open>Writing\<close>

text \<open>
  The key to hand out and the key after it.  For a value that is no key the buffer stays
  uninitialised, and a key of 200 characters or more does not fit in it.
\<close>

definition bump_key :: "bytes \<Rightarrow> bytes svn_result" where
  "bump_key data =
     (case svn_fs__next_key data of
        None \<Rightarrow> Abort
      | Some next_key \<Rightarrow> if length next_key < 200 then Ok next_key else Abort)"

definition get_key_and_bump :: "'d bdb \<Rightarrow> ('d, bytes) trail" where
  "get_key_and_bump db =
     (let query = svn_fs__str_to_dbt svn_fs__next_key_key in
      tbind (db_read (str_fetch db query 0)) (\<lambda>result.
      tbind (tlift (bump_key result)) (\<lambda>next_key.
      tbind (db_write (str_set db query (svn_fs__str_to_dbt next_key))) (\<lambda>_.
        tret (apr_pstrndup result)))))"

definition svn_fs__string_append :: "'d bdb \<Rightarrow> bytes option \<Rightarrow> bytes \<Rightarrow> ('d, bytes) trail" where
  "svn_fs__string_append db key buf =
     tbind (case key of None \<Rightarrow> get_key_and_bump db | Some k \<Rightarrow> tret k) (\<lambda>k.
     tbind (db_write (str_put db (svn_fs__str_to_dbt k) (svn_fs__set_dbt buf))) (\<lambda>_. tret k))"

definition svn_fs__string_clear :: "'d bdb \<Rightarrow> bytes \<Rightarrow> ('d, unit) trail" where
  "svn_fs__string_clear db key =
     (let query = svn_fs__str_to_dbt key in
      tbind (db_write_or (str_del db query) (or_notfound SVN_ERR_FS_NO_SUCH_STRING)) (\<lambda>_.
        db_write (str_put db query [])))"

definition svn_fs__string_delete :: "'d bdb \<Rightarrow> bytes \<Rightarrow> ('d, unit) trail" where
  "svn_fs__string_delete db key =
     db_write_or (str_del db (svn_fs__str_to_dbt key)) (or_notfound SVN_ERR_FS_NO_SUCH_STRING)"

text \<open>The loop of the copy: \<open>result\<close> is the record the cursor is on.\<close>

primrec copy_loop :: "'d bdb \<Rightarrow> bytes \<Rightarrow> bytes \<Rightarrow> nat \<Rightarrow> nat \<Rightarrow> bytes \<Rightarrow> ('d, unit) trail" where
  "copy_loop db query copykey 0 i result = tlift Abort"
| "copy_loop db query copykey (Suc fuel) i result =
     tbind (db_write (str_put db copykey result)) (\<lambda>_.
     tbind (db_peek (str_fetch db query (Suc i))) (\<lambda>r.
       case r of
         DB_ok result' \<Rightarrow> copy_loop db query copykey fuel (Suc i) result'
       | DB_err e \<Rightarrow> if e = DB_NOTFOUND then tret () else tfail (SVN_ERR_BERKELEY_DB e)))"

definition svn_fs__string_copy :: "'d bdb \<Rightarrow> bytes \<Rightarrow> ('d, bytes) trail" where
  "svn_fs__string_copy db key =
     tbind (get_key_and_bump db) (\<lambda>new_key.
     (let query = svn_fs__str_to_dbt key; copykey = svn_fs__str_to_dbt new_key in
      tbind (db_read (str_fetch db query 0)) (\<lambda>result.
      tbind (db_peek (str_dups db query)) (\<lambda>dups.
      tbind (copy_loop db query copykey dups 0 result) (\<lambda>_. tret new_key)))))"

text \<open>The first record of the two tables, stored when they are created.\<close>

definition svn_fs__open_strings_table :: "'d bdb \<Rightarrow> bool \<Rightarrow> ('d, unit) trail" where
  "svn_fs__open_strings_table db create =
     (if create then db_write (str_put db (svn_fs__str_to_dbt svn_fs__next_key_key) (svn_fs__str_to_dbt ''0''))
      else tret ())"

definition svn_fs__open_reps_table :: "'d bdb \<Rightarrow> bool \<Rightarrow> ('d, unit) trail" where
  "svn_fs__open_reps_table db create =
     (if create
      then db_write (db_put db Representations (svn_fs__str_to_dbt svn_fs__next_key_key) (svn_fs__str_to_dbt ''0''))
      else tret ())"

section \<open>Representations\<close>

text \<open>The skel is null when the record cannot be parsed.\<close>

definition svn_fs__read_rep :: "'d bdb \<Rightarrow> bytes \<Rightarrow> ('d, skel_t option) trail" where
  "svn_fs__read_rep db key =
     tbind (db_read_or (db_get db Representations (svn_fs__str_to_dbt key))
             (or_notfound SVN_ERR_FS_NO_SUCH_REPRESENTATION)) (\<lambda>result.
       tret (svn_fs__parse_skel result))"

definition svn_fs__write_rep :: "'d bdb \<Rightarrow> bytes \<Rightarrow> skel_t \<Rightarrow> ('d, unit) trail" where
  "svn_fs__write_rep db key skel =
     tbind (tlift (svn_fs__skel_to_dbt skel)) (\<lambda>result.
       db_write (db_put db Representations (svn_fs__str_to_dbt key) result))"

definition svn_fs__write_new_rep :: "'d bdb \<Rightarrow> skel_t \<Rightarrow> ('d, bytes) trail" where
  "svn_fs__write_new_rep db skel =
     tbind (db_read (db_get db Representations (svn_fs__str_to_dbt svn_fs__next_key_key))) (\<lambda>result.
     (let key = apr_pstrndup result in
      tbind (svn_fs__write_rep db key skel) (\<lambda>_.
      tbind (tlift (bump_key result)) (\<lambda>next_key.
      tbind (db_write (db_put db Representations (svn_fs__str_to_dbt svn_fs__next_key_key)
                        (svn_fs__str_to_dbt next_key))) (\<lambda>_.
        tret key)))))"

definition svn_fs__delete_rep :: "'d bdb \<Rightarrow> bytes \<Rightarrow> ('d, unit) trail" where
  "svn_fs__delete_rep db key =
     db_write_or (db_del db Representations (svn_fs__str_to_dbt key))
       (or_notfound SVN_ERR_FS_NO_SUCH_REPRESENTATION)"

section \<open>Refinement\<close>

lemma refines_db_result [refine_intros]:
  "(\<And>x. refines view (f x) (h x)) \<Longrightarrow> (\<And>e. refines view (f' e) (h' e)) \<Longrightarrow>
   refines view (case r of DB_ok x \<Rightarrow> f x | DB_err e \<Rightarrow> f' e) (case r of DB_ok x \<Rightarrow> h x | DB_err e \<Rightarrow> h' e)"
  by (cases r) simp_all

lemma refines_locate_key [refine_intros]:
  "bdb_laws db view \<Longrightarrow> refines view (locate_key db query) (locate_key ref_db query)"
  unfolding locate_key_def by (intro refine_intros)

lemma refines_get_next_length [refine_intros]:
  "bdb_laws db view \<Longrightarrow> refines view (get_next_length db query i) (get_next_length ref_db query i)"
  unfolding get_next_length_def by (intro refine_intros)

lemma refines_seek_record [refine_intros]:
  "bdb_laws db view \<Longrightarrow> refines view (seek_record db query n i l off) (seek_record ref_db query n i l off)"
  by (induction n arbitrary: i l off) (auto intro!: refine_intros)

lemma refines_string_read_once [refine_intros]:
  "bdb_laws db view \<Longrightarrow> refines view (string_read db key off n) (string_read ref_db key off n)"
  unfolding string_read_def Let_def by (intro refine_intros)

lemma refines_string_read_loop [refine_intros]:
  "bdb_laws db view \<Longrightarrow> refines view (string_read_loop db key n off l acc) (string_read_loop ref_db key n off l acc)"
  by (induction n arbitrary: acc) (auto simp: Let_def intro!: refine_intros)

lemma refines_string_read [refine_intros]:
  "bdb_laws db view \<Longrightarrow> refines view (svn_fs__string_read db key off n) (svn_fs__string_read ref_db key off n)"
  unfolding svn_fs__string_read_def by (intro refine_intros)

lemma refines_size_loop [refine_intros]:
  "bdb_laws db view \<Longrightarrow> refines view (size_loop db query n i acc) (size_loop ref_db query n i acc)"
  by (induction n arbitrary: i acc) (auto intro!: refine_intros)

lemma refines_string_size [refine_intros]:
  "bdb_laws db view \<Longrightarrow> refines view (svn_fs__string_size db key) (svn_fs__string_size ref_db key)"
  unfolding svn_fs__string_size_def Let_def by (intro refine_intros)

lemma refines_get_key_and_bump [refine_intros]:
  "bdb_laws db view \<Longrightarrow> refines view (get_key_and_bump db) (get_key_and_bump ref_db)"
  unfolding get_key_and_bump_def Let_def by (intro refine_intros)

lemma refines_string_append [refine_intros]:
  "bdb_laws db view \<Longrightarrow> refines view (svn_fs__string_append db key buf) (svn_fs__string_append ref_db key buf)"
  unfolding svn_fs__string_append_def by (intro refine_intros)

lemma refines_string_clear [refine_intros]:
  "bdb_laws db view \<Longrightarrow> refines view (svn_fs__string_clear db key) (svn_fs__string_clear ref_db key)"
  unfolding svn_fs__string_clear_def Let_def by (intro refine_intros)

lemma refines_string_delete [refine_intros]:
  "bdb_laws db view \<Longrightarrow> refines view (svn_fs__string_delete db key) (svn_fs__string_delete ref_db key)"
  unfolding svn_fs__string_delete_def by (intro refine_intros)

lemma refines_copy_loop [refine_intros]:
  "bdb_laws db view \<Longrightarrow> refines view (copy_loop db q c n i r) (copy_loop ref_db q c n i r)"
  by (induction n arbitrary: i r) (auto intro!: refine_intros)

lemma refines_string_copy [refine_intros]:
  "bdb_laws db view \<Longrightarrow> refines view (svn_fs__string_copy db key) (svn_fs__string_copy ref_db key)"
  unfolding svn_fs__string_copy_def Let_def by (intro refine_intros)

lemma refines_read_rep [refine_intros]:
  "bdb_laws db view \<Longrightarrow> refines view (svn_fs__read_rep db key) (svn_fs__read_rep ref_db key)"
  unfolding svn_fs__read_rep_def by (intro refine_intros)

lemma refines_write_rep [refine_intros]:
  "bdb_laws db view \<Longrightarrow> refines view (svn_fs__write_rep db key skel) (svn_fs__write_rep ref_db key skel)"
  unfolding svn_fs__write_rep_def by (intro refine_intros)

lemma refines_write_new_rep [refine_intros]:
  "bdb_laws db view \<Longrightarrow> refines view (svn_fs__write_new_rep db skel) (svn_fs__write_new_rep ref_db skel)"
  unfolding svn_fs__write_new_rep_def Let_def by (intro refine_intros)

lemma refines_delete_rep [refine_intros]:
  "bdb_laws db view \<Longrightarrow> refines view (svn_fs__delete_rep db key) (svn_fs__delete_rep ref_db key)"
  unfolding svn_fs__delete_rep_def by (intro refine_intros)

section \<open>Strings of the reference database\<close>

definition str_val :: "bytes \<Rightarrow> fs_tables \<Rightarrow> bytes" where
  "str_val k v = concat (str_recs k v)"

definition short_recs :: "bytes list \<Rightarrow> bool" where
  "short_recs rs \<longleftrightarrow> (\<forall>r \<in> set rs. length r < 2 ^ 32)"

lemma dbt_short [simp]:
  "length d < 2 ^ 32 \<Longrightarrow> svn_fs__set_dbt d = d" "length d < 2 ^ 32 \<Longrightarrow> svn_fs__str_to_dbt d = d"
  by (simp_all add: svn_fs__set_dbt_def svn_fs__str_to_dbt_def)

lemma locate_key_ref:
  "locate_key ref_db k v =
    (if str_recs k v = [] then Err SVN_ERR_FS_NO_SUCH_STRING else Ok (length (str_recs k v ! 0), v))"
  by (auto simp: locate_key_def trail_defs nth_rec_def)

lemma get_next_length_ref:
  "get_next_length ref_db k i v =
    Ok (if i < length (str_recs k v) then (None, length (str_recs k v ! i)) else (Some DB_NOTFOUND, 0), v)"
  by (auto simp: get_next_length_def trail_defs nth_rec_def)

lemma concat_drop_Cons: "i < length rs \<Longrightarrow> concat (drop i rs) = rs ! i @ concat (drop (Suc i) rs)"
  by (metis Cons_nth_drop_Suc concat.simps(2))

lemma seek_record_ref:
  assumes "rs = str_recs k v" and "i < length rs" and "length rs - i < fuel"
  shows "\<exists>r. seek_record ref_db k fuel i (length (rs ! i)) off v = Ok (r, v) \<and>
    (case r of
       None \<Rightarrow> drop off (concat (drop i rs)) = []
     | Some (j, o') \<Rightarrow> j < length rs \<and> o' < length (rs ! j) \<and>
         drop off (concat (drop i rs)) = drop o' (rs ! j) @ concat (drop (Suc j) rs))"
  using assms
proof (induction fuel arbitrary: i off)
  case (Suc fuel)
  note c = concat_drop_Cons [OF Suc.prems(2)]
  show ?case
  proof (cases "length (rs ! i) \<le> off")
    case True
    show ?thesis
    proof (cases "Suc i < length rs")
      case more: True
      have d: "drop off (concat (drop i rs)) = drop (off - length (rs ! i)) (concat (drop (Suc i) rs))"
        unfolding c using True by simp
      show ?thesis unfolding d
        using Suc.IH [OF Suc.prems(1) more, of "off - length (rs ! i)"] Suc.prems True more
        by (simp add: get_next_length_ref tbind_def)
    next
      case False
      have "drop off (concat (drop i rs)) = []" unfolding c using True False by simp
      with True False Suc.prems show ?thesis
        by (simp add: get_next_length_ref trail_defs)
    qed
  next
    case False
    with Suc.prems c show ?thesis by (auto simp: tret_def)
  qed
qed simp

lemma string_read_once_ref:
  assumes rs: "str_recs k v \<noteq> []" "short_recs (str_recs k v)" and "length k < 2 ^ 32" and "len < 2 ^ 32"
  shows "\<exists>bs rest. string_read ref_db k off len v = Ok (bs, v) \<and> drop off (str_val k v) = bs @ rest \<and>
    length bs \<le> len \<and> (bs = [] \<longrightarrow> len = 0 \<or> rest = [])"
proof -
  let ?rs = "str_recs k v"
  obtain r where r: "seek_record ref_db k (Suc (length ?rs)) 0 (length (?rs ! 0)) off v = Ok (r, v)"
    "case r of None \<Rightarrow> drop off (concat ?rs) = []
     | Some (j, o') \<Rightarrow> j < length ?rs \<and> o' < length (?rs ! j) \<and>
         drop off (concat ?rs) = drop o' (?rs ! j) @ concat (drop (Suc j) ?rs)"
    using seek_record_ref [OF refl, of 0 k v "Suc (length ?rs)" off, unfolded drop_0] rs(1) by auto
  show ?thesis
  proof (cases r)
    case None
    with r rs(1) assms(3) show ?thesis
      by (auto simp: string_read_def locate_key_ref trail_defs str_val_def simp del: seek_record.simps)
  next
    case (Some p)
    obtain j o' where p: "p = (j, o')" by (cases p)
    have j: "j < length ?rs" "o' < length (?rs ! j)"
      "drop off (concat ?rs) = drop o' (?rs ! j) @ concat (drop (Suc j) ?rs)" using r(2) Some p by auto
    have "length (?rs ! j) < 2 ^ 32" using rs(2) j(1) by (simp add: short_recs_def)
    then have o32: "o' mod 2 ^ 32 = o'" using j(2) by simp
    have "string_read ref_db k off len v = Ok (take len (drop o' (?rs ! j)), v)"
      using r(1) rs(1) assms(3,4) Some p j(1) o32
      by (simp add: string_read_def locate_key_ref trail_defs del: seek_record.simps)
    moreover have "drop off (str_val k v) = take len (drop o' (?rs ! j)) @
        (drop len (drop o' (?rs ! j)) @ concat (drop (Suc j) ?rs))"
      using j(3) by (simp add: str_val_def flip: append.assoc del: drop_drop)
    ultimately show ?thesis using j(2) by fastforce
  qed
qed

lemma string_read_loop_ref:
  assumes rs: "str_recs k v \<noteq> []" "short_recs (str_recs k v)" and k: "length k < 2 ^ 32" and len: "len < 2 ^ 32"
    and "drop off (str_val k v) = got @ rest" and "length got \<le> len" and "len - length got < fuel"
  shows "string_read_loop ref_db k fuel off len got v = Ok (take len (drop off (str_val k v)), v)"
  using assms(5-7)
proof (induction fuel arbitrary: got rest)
  case (Suc fuel)
  have "len - length got < 2 ^ 32" using len by simp
  from string_read_once_ref [OF rs k this] obtain bs more where
    bs: "string_read ref_db k (off + length got) (len - length got) v = Ok (bs, v)"
      "drop (off + length got) (str_val k v) = bs @ more" "length bs \<le> len - length got"
      "bs = [] \<longrightarrow> len - length got = 0 \<or> more = []" by blast
  have rest: "rest = bs @ more"
    using bs(2) Suc.prems(1) by (metis add.commute append_eq_conv_conj drop_drop)
  show ?case
  proof (cases "bs = [] \<or> length (got @ bs) = len")
    case True
    then have got: "got @ bs = take len (drop off (str_val k v))" using bs(4) Suc.prems rest by auto
    have "string_read_loop ref_db k (Suc fuel) off len got v = Ok (got @ bs, v)"
      using True bs(1) by (auto simp: trail_defs Let_def)
    then show ?thesis unfolding got .
  next
    case False
    have "string_read_loop ref_db k fuel off len (got @ bs) v = Ok (take len (drop off (str_val k v)), v)"
      using False Suc.prems rest bs(3) by (intro Suc.IH [of _ more]) (auto simp: neq_Nil_conv)
    with False bs(1) show ?thesis by (simp add: trail_defs Let_def)
  qed
qed simp

lemma string_read_ref:
  assumes "short_recs (str_recs k v)" and "length k < 2 ^ 32" and "len < 2 ^ 32"
  shows "svn_fs__string_read ref_db k off len v =
    (if str_recs k v = [] then Err SVN_ERR_FS_NO_SUCH_STRING else Ok (take len (drop off (str_val k v)), v))"
proof (cases "str_recs k v = []")
  case True
  with assms(2) show ?thesis
    by (simp add: svn_fs__string_read_def string_read_def locate_key_ref tbind_def)
next
  case False
  with string_read_loop_ref [OF False assms, of off "[]"] show ?thesis
    by (simp add: svn_fs__string_read_def del: string_read_loop.simps)
qed

lemma size_loop_ref:
  assumes "rs = str_recs k v" and "i \<le> length rs" and "length rs - i < fuel"
  shows "size_loop ref_db k fuel i acc v = Ok (acc + length (concat (drop i rs)), v)"
  using assms
proof (induction fuel arbitrary: i acc)
  case (Suc fuel)
  show ?case
  proof (cases "i < length rs")
    case True
    with Suc concat_drop_Cons [OF True] show ?thesis by (simp add: get_next_length_ref trail_defs)
  next
    case False
    with Suc.prems show ?thesis by (simp add: get_next_length_ref trail_defs)
  qed
qed simp

lemma string_size_ref:
  assumes "length k < 2 ^ 32"
  shows "svn_fs__string_size ref_db k v =
    (if str_recs k v = [] then Err SVN_ERR_FS_NO_SUCH_STRING else Ok (length (str_val k v), v))"
proof (cases "str_recs k v = []")
  case False
  then have "size_loop ref_db k (Suc (length (str_recs k v))) 1 (length (str_recs k v ! 0)) v =
      Ok (length (str_val k v), v)"
    using size_loop_ref [OF refl, of 1 k v] concat_drop_Cons [of 0 "str_recs k v"]
    by (simp add: str_val_def Suc_le_eq del: size_loop.simps)
  with False assms show ?thesis by (simp add: svn_fs__string_size_def locate_key_ref trail_defs del: size_loop.simps)
qed (use assms in \<open>simp add: svn_fs__string_size_def locate_key_ref trail_defs\<close>)

section \<open>Keys\<close>

text \<open>The next key is above all keys in use.\<close>

definition keys_below :: "bytes \<Rightarrow> bytes set \<Rightarrow> bool" where
  "keys_below nk K \<longleftrightarrow> valid_key nk \<and>
     (\<forall>k \<in> K. k = svn_fs__next_key_key \<or> valid_key k \<and> key_value k < key_value nk)"

lemma next_key_key_invalid: "\<not> valid_key svn_fs__next_key_key"
  by (simp add: valid_key_def svn_fs__next_key_key_def is_key_char_def is_digit_def)

lemma keys_below_fresh:
  "keys_below nk K \<Longrightarrow> nk \<notin> K" "keys_below nk K \<Longrightarrow> nk \<noteq> svn_fs__next_key_key"
  using next_key_key_invalid by (auto simp: keys_below_def)

lemma valid_key_cstring: "valid_key k \<Longrightarrow> apr_pstrndup k = k"
proof -
  assume "valid_key k"
  then have "\<forall>c \<in> set k. c \<noteq> NUL" by (auto simp: valid_key_def is_key_char_def is_digit_def)
  then show ?thesis by (simp add: apr_pstrndup_def)
qed

lemma bump_keys_below:
  assumes "keys_below nk K" and "length nk < 199"
  shows "\<exists>nk'. bump_key nk = Ok nk' \<and> keys_below nk' (insert nk K) \<and> length nk' < 200"
proof -
  obtain nk' where n: "svn_fs__next_key nk = Some nk'" "valid_key nk'" "key_value nk' = Suc (key_value nk)"
    "length nk' \<le> Suc (length nk)"
    using next_key_valid assms(1) by (auto simp: keys_below_def)
  moreover have "length nk' < 200" using n(4) assms(2) by simp
  moreover have "keys_below nk' (insert nk K)" using n(2,3) assms(1) by (auto simp: keys_below_def)
  ultimately show ?thesis by (simp add: bump_key_def)
qed

lemma next_key_short [simp]: "svn_fs__str_to_dbt svn_fs__next_key_key = svn_fs__next_key_key"
  by (rule dbt_short) (simp add: svn_fs__next_key_key_def)

section \<open>The invariant of the table of strings\<close>

definition str_keys :: "fs_tables \<Rightarrow> bytes set" where
  "str_keys v = {k. str_recs k v \<noteq> []}"

definition next_str :: "fs_tables \<Rightarrow> bytes" where
  "next_str v = hd (str_recs svn_fs__next_key_key v)"

definition strings_inv :: "fs_tables \<Rightarrow> bool" where
  "strings_inv v \<longleftrightarrow> length (str_recs svn_fs__next_key_key v) = 1 \<and> keys_below (next_str v) (str_keys v) \<and>
     (\<forall>k. short_recs (str_recs k v))"

lemma str_keys_set [simp]: "str_keys (set_str k rs v) = (if rs = [] then str_keys v - {k} else insert k (str_keys v))"
proof -
  have "str_recs k' (set_str k rs v) = (if k' = k then rs else str_recs k' v)" for k' by simp
  then show ?thesis by (auto simp: str_keys_def)
qed

lemma next_str_set [simp]: "k \<noteq> svn_fs__next_key_key \<Longrightarrow> next_str (set_str k rs v) = next_str v"
  by (simp add: next_str_def)

lemma strings_inv_set:
  assumes "strings_inv v" and "k \<in> str_keys v \<or> rs = []" and "short_recs rs" and "k \<noteq> svn_fs__next_key_key"
  shows "strings_inv (set_str k rs v)"
proof -
  have "short_recs (str_recs k' (set_str k rs v))" for k' using assms(1,3) by (cases "k' = k") (auto simp: strings_inv_def)
  moreover have "keys_below (next_str v) (if rs = [] then str_keys v - {k} else insert k (str_keys v))"
    using assms(1,2) by (auto simp: strings_inv_def keys_below_def)
  ultimately show ?thesis using assms(1,4) by (simp add: strings_inv_def)
qed

text \<open>Handing out a key.\<close>

lemma get_key_and_bump_ref:
  assumes "strings_inv v" and "length (next_str v) < 199"
  obtains nk where "get_key_and_bump ref_db v = Ok (next_str v, set_str svn_fs__next_key_key [nk] v)"
    and "strings_inv (set_str svn_fs__next_key_key [nk] v)"
    and "keys_below nk (insert (next_str v) (str_keys v))"
proof -
  let ?v = "\<lambda>nk. set_str svn_fs__next_key_key [nk] v"
  obtain r where r: "str_recs svn_fs__next_key_key v = [r]" and nr: "next_str v = r"
    using assms(1) by (auto simp: strings_inv_def next_str_def length_Suc_conv)
  have below: "keys_below r (str_keys v)" using assms(1) nr by (simp add: strings_inv_def)
  obtain nk where nk: "bump_key r = Ok nk" "keys_below nk (insert r (str_keys v))" "length nk < 200"
    using bump_keys_below [OF below] assms(2) nr by auto
  have kept: "insert svn_fs__next_key_key (str_keys v) = str_keys v" using r by (auto simp: str_keys_def)
  have "get_key_and_bump ref_db v = Ok (r, ?v nk)"
    using r nk below by (simp add: get_key_and_bump_def trail_defs keys_below_def valid_key_cstring)
  moreover have "strings_inv (?v nk)"
  proof -
    have "short_recs (str_recs k (?v nk))" for k
      using assms(1) nk(3) by (cases "k = svn_fs__next_key_key") (auto simp: strings_inv_def short_recs_def)
    then show ?thesis using nk(2) kept by (simp add: strings_inv_def next_str_def keys_below_def)
  qed
  ultimately show thesis using that nk(2) nr by simp
qed

lemma next_str_fresh: "strings_inv v \<Longrightarrow> str_recs (next_str v) v = []" "strings_inv v \<Longrightarrow> next_str v \<noteq> svn_fs__next_key_key"
  using keys_below_fresh [of "next_str v" "str_keys v"] by (auto simp: strings_inv_def str_keys_def)

lemma key_short: "length k < 200 \<Longrightarrow> length (k :: bytes) < 2 ^ 32"
  by simp

lemma strings_inv_new:
  assumes "strings_inv (set_str svn_fs__next_key_key [nk] v)" and "keys_below nk (insert k (str_keys v))"
    and "k \<noteq> svn_fs__next_key_key" and "short_recs rs" and "rs \<noteq> []"
  shows "strings_inv (set_str k rs (set_str svn_fs__next_key_key [nk] v))"
proof -
  let ?v' = "set_str k rs (set_str svn_fs__next_key_key [nk] v)"
  have "next_str ?v' = nk" using assms(3) by (simp add: next_str_def)
  moreover have "short_recs (str_recs k' ?v')" for k'
    using assms(1,4) by (cases "k' = k") (auto simp: strings_inv_def)
  moreover have "keys_below nk (str_keys ?v')" using assms(2,5) by (auto simp: keys_below_def)
  ultimately show ?thesis using assms(3) by (simp add: strings_inv_def)
qed

text \<open>A new string, and one more record for an existing string.\<close>

lemma string_new_ref:
  assumes inv: "strings_inv v" and room: "length (next_str v) < 199" and "length buf < 2 ^ 32"
  obtains nk where "svn_fs__string_append ref_db None buf v =
      Ok (next_str v, set_str (next_str v) [buf] (set_str svn_fs__next_key_key [nk] v))"
    and "strings_inv (set_str (next_str v) [buf] (set_str svn_fs__next_key_key [nk] v))"
proof -
  let ?k = "next_str v" and ?nx = "svn_fs__next_key_key"
  obtain nk where nk: "get_key_and_bump ref_db v = Ok (?k, set_str ?nx [nk] v)"
    "strings_inv (set_str ?nx [nk] v)" "keys_below nk (insert ?k (str_keys v))"
    using get_key_and_bump_ref [OF inv room] .
  note fr = next_str_fresh [OF inv]
  have "svn_fs__string_append ref_db None buf v = Ok (?k, set_str ?k [buf] (set_str ?nx [nk] v))"
    using nk(1) fr room assms(3) by (simp add: svn_fs__string_append_def trail_defs)
  moreover have "strings_inv (set_str ?k [buf] (set_str ?nx [nk] v))"
    using assms(3) by (intro strings_inv_new nk fr) (simp_all add: short_recs_def)
  ultimately show thesis using that by blast
qed

lemma string_append_ref:
  assumes "length k < 2 ^ 32" and "length buf < 2 ^ 32"
  shows "svn_fs__string_append ref_db (Some k) buf v = Ok (k, set_str k (str_recs k v @ [buf]) v)"
  using assms by (simp add: svn_fs__string_append_def trail_defs)

lemma string_clear_ref:
  "length k < 2 ^ 32 \<Longrightarrow> svn_fs__string_clear ref_db k v =
    (if str_recs k v = [] then Err SVN_ERR_FS_NO_SUCH_STRING else Ok ((), set_str k [[]] (set_str k [] v)))"
  by (simp add: svn_fs__string_clear_def trail_defs)

lemma string_delete_ref:
  "length k < 2 ^ 32 \<Longrightarrow> svn_fs__string_delete ref_db k v =
    (if str_recs k v = [] then Err SVN_ERR_FS_NO_SUCH_STRING else Ok ((), set_str k [] v))"
  by (simp add: svn_fs__string_delete_def trail_defs)

lemma set_str_twice [simp]: "set_str k rs (set_str k rs' v) = set_str k rs v"
  by (simp add: set_str_def fmap_ext)

lemma copy_loop_ref:
  assumes "q \<noteq> c" and "i < length (str_recs q v)" and "length (str_recs q v) - i \<le> fuel"
  shows "copy_loop ref_db q c fuel i (str_recs q v ! i) v = Ok ((), set_str c (str_recs c v @ drop i (str_recs q v)) v)"
  using assms
proof (induction fuel arbitrary: i v)
  case (Suc fuel)
  let ?rs = "str_recs q v" and ?v = "set_str c (str_recs c v @ [str_recs q v ! i]) v"
  have d: "drop i ?rs = ?rs ! i # drop (Suc i) ?rs" using Suc.prems(2) by (simp add: Cons_nth_drop_Suc)
  have q: "str_recs q ?v = ?rs" using Suc.prems(1) by simp
  show ?case
  proof (cases "Suc i < length ?rs")
    case True
    from Suc.IH [of "Suc i" ?v] Suc.prems True q show ?thesis by (simp add: trail_defs d)
  next
    case False
    with Suc.prems q show ?thesis by (simp add: trail_defs d)
  qed
qed simp

lemma string_copy_ref:
  assumes inv: "strings_inv v" and room: "length (next_str v) < 199" and k: "length k < 2 ^ 32" "k \<noteq> svn_fs__next_key_key"
    and ex: "str_recs k v \<noteq> []"
  obtains nk where "svn_fs__string_copy ref_db k v =
      Ok (next_str v, set_str (next_str v) (str_recs k v) (set_str svn_fs__next_key_key [nk] v))"
    and "strings_inv (set_str (next_str v) (str_recs k v) (set_str svn_fs__next_key_key [nk] v))"
proof -
  let ?k = "next_str v" and ?nx = "svn_fs__next_key_key"
  obtain nk where nk: "get_key_and_bump ref_db v = Ok (?k, set_str ?nx [nk] v)"
    "strings_inv (set_str ?nx [nk] v)" "keys_below nk (insert ?k (str_keys v))"
    using get_key_and_bump_ref [OF inv room] .
  note fr = next_str_fresh [OF inv]
  let ?v = "set_str ?nx [nk] v"
  have ne: "k \<noteq> ?k" using ex fr(1) by auto
  have "copy_loop ref_db k ?k (length (str_recs k ?v)) 0 (str_recs k ?v ! 0) ?v = Ok ((), set_str ?k (str_recs k v) ?v)"
    using copy_loop_ref [OF ne, of 0 ?v "length (str_recs k ?v)"] ex k(2) fr by simp
  then have "svn_fs__string_copy ref_db k v = Ok (?k, set_str ?k (str_recs k v) ?v)"
    using nk(1) k ex room by (simp add: svn_fs__string_copy_def trail_defs)
  moreover have "strings_inv (set_str ?k (str_recs k v) ?v)"
    using inv by (intro strings_inv_new nk fr ex) (simp add: strings_inv_def)
  ultimately show thesis using that by blast
qed

section \<open>Representations of the reference database\<close>

lemma skel_to_dbt_text:
  assumes "length (skel_text skel) < 2 ^ 32"
  shows "svn_fs__skel_to_dbt skel = Ok (skel_text skel)"
    and "svn_fs__parse_skel (skel_text skel) = Some (skel_norm skel)"
proof -
  have "length (skel_text skel) < 2 ^ 62" using assms by simp
  from unparse_skel_text [OF this] obtain str where
    str: "svn_fs__unparse_skel skel = Ok str" "sb_ok str" "sb_contents str = skel_text skel"
      "svn_fs__parse_skel (sb_contents str) = Some (skel_norm skel)" by blast
  then show "svn_fs__parse_skel (skel_text skel) = Some (skel_norm skel)" by simp
  have "mem_bytes (sb_data str) (unat (sb_len str)) = Ok (sb_contents str)"
    using str(2) by (intro mem_bytes_contents) (simp add: sb_ok_def)
  with str assms show "svn_fs__skel_to_dbt skel = Ok (skel_text skel)" by (simp add: svn_fs__skel_to_dbt_def)
qed

definition rep_rec :: "bytes \<Rightarrow> fs_tables \<Rightarrow> bytes option" where
  "rep_rec k v = fmlookup (ft_tab v Representations) k"

definition rep_keys :: "fs_tables \<Rightarrow> bytes set" where
  "rep_keys v = {k. rep_rec k v \<noteq> None}"

definition next_rep :: "fs_tables \<Rightarrow> bytes" where
  "next_rep v = the (rep_rec svn_fs__next_key_key v)"

definition reps_inv :: "fs_tables \<Rightarrow> bool" where
  "reps_inv v \<longleftrightarrow> rep_rec svn_fs__next_key_key v \<noteq> None \<and> keys_below (next_rep v) (rep_keys v)"

lemma rep_rec_put [simp]:
  "rep_rec k (put_tab T k' x v) = (if T = Representations \<and> k = k' then Some x else rep_rec k v)"
  "rep_rec k (set_str k'' rs v) = rep_rec k v"
  "rep_rec k (del_tab T k' v) = (if T = Representations \<and> k = k' then None else rep_rec k v)"
  "rep_rec k (put_rev_rec n x v) = rep_rec k v"
  by (auto simp: rep_rec_def)

lemma read_rep_ref:
  "length k < 2 ^ 32 \<Longrightarrow> svn_fs__read_rep ref_db k v =
    (case rep_rec k v of None \<Rightarrow> Err SVN_ERR_FS_NO_SUCH_REPRESENTATION | Some d \<Rightarrow> Ok (svn_fs__parse_skel d, v))"
  by (simp add: svn_fs__read_rep_def trail_defs rep_rec_def of_option_def split: option.split)

lemma write_rep_ref:
  assumes "length k < 2 ^ 32" and "length (skel_text skel) < 2 ^ 32"
  shows "svn_fs__write_rep ref_db k skel v = Ok ((), put_tab Representations k (skel_text skel) v)"
  using assms skel_to_dbt_text(1) [OF assms(2)] by (simp add: svn_fs__write_rep_def trail_defs)

lemma delete_rep_ref:
  "length k < 2 ^ 32 \<Longrightarrow> svn_fs__delete_rep ref_db k v =
    (if rep_rec k v = None then Err SVN_ERR_FS_NO_SUCH_REPRESENTATION else Ok ((), del_tab Representations k v))"
  by (simp add: svn_fs__delete_rep_def trail_defs rep_rec_def)

lemma next_rep_fresh: "reps_inv v \<Longrightarrow> rep_rec (next_rep v) v = None" "reps_inv v \<Longrightarrow> next_rep v \<noteq> svn_fs__next_key_key"
  using keys_below_fresh [of "next_rep v" "rep_keys v"] by (auto simp: reps_inv_def rep_keys_def)

lemma write_new_rep_ref:
  assumes inv: "reps_inv v" and room: "length (next_rep v) < 199" and skel: "length (skel_text skel) < 2 ^ 32"
  obtains nk where "svn_fs__write_new_rep ref_db skel v =
      Ok (next_rep v, put_tab Representations svn_fs__next_key_key nk (put_tab Representations (next_rep v) (skel_text skel) v))"
    and "reps_inv (put_tab Representations svn_fs__next_key_key nk (put_tab Representations (next_rep v) (skel_text skel) v))"
proof -
  let ?k = "next_rep v" and ?nx = "svn_fs__next_key_key"
  have r: "fmlookup (ft_tab v Representations) ?nx = Some ?k" using inv by (auto simp: reps_inv_def rep_rec_def next_rep_def)
  have below: "keys_below ?k (rep_keys v)" using inv by (simp add: reps_inv_def)
  note fr = next_rep_fresh [OF inv]
  obtain nk where nk: "bump_key ?k = Ok nk" "keys_below nk (insert ?k (rep_keys v))" "length nk < 200"
    using bump_keys_below [OF below room] by blast
  let ?v' = "put_tab Representations ?nx nk (put_tab Representations ?k (skel_text skel) v)"
  have "svn_fs__write_new_rep ref_db skel v = Ok (?k, ?v')"
    using r nk below room skel by (simp add: svn_fs__write_new_rep_def write_rep_ref trail_defs Let_def keys_below_def valid_key_cstring)
  moreover have "reps_inv ?v'"
  proof -
    have "rep_keys ?v' = insert ?nx (insert ?k (rep_keys v))" by (auto simp: rep_keys_def)
    moreover have "next_rep ?v' = nk" by (simp add: next_rep_def)
    ultimately show ?thesis using nk(2) by (auto simp: reps_inv_def keys_below_def)
  qed
  ultimately show thesis using that by blast
qed

text \<open>The table as it is created.\<close>

definition new_tables :: fs_tables where
  "new_tables = \<lparr>ft_tab = (\<lambda>T. fmempty), ft_strings = fmempty, ft_revs = fmempty\<rparr>"

lemma open_tables:
  "svn_fs__open_strings_table ref_db True v = Ok ((), set_str svn_fs__next_key_key (str_recs svn_fs__next_key_key v @ [''0'']) v)"
  "svn_fs__open_reps_table ref_db True v = Ok ((), put_tab Representations svn_fs__next_key_key ''0'' v)"
  by (simp_all add: svn_fs__open_strings_table_def svn_fs__open_reps_table_def trail_defs)

definition empty_strings :: fs_tables where
  "empty_strings = put_tab Representations svn_fs__next_key_key ''0'' (set_str svn_fs__next_key_key [''0''] new_tables)"

lemma valid_key_0: "valid_key ''0''"
  by (simp add: valid_key_def is_key_char_def is_digit_def)

lemma empty_strings_inv:
  "strings_inv empty_strings" "reps_inv empty_strings" "next_str empty_strings = ''0''" "next_rep empty_strings = ''0''"
proof -
  have n: "str_recs k new_tables = []" "rep_rec k new_tables = None" for k
    by (simp_all add: str_recs_def rep_rec_def new_tables_def)
  have r: "str_recs k empty_strings = (if k = svn_fs__next_key_key then [''0''] else [])"
    "rep_rec k empty_strings = (if k = svn_fs__next_key_key then Some ''0'' else None)" for k
    using n by (auto simp: empty_strings_def)
  show nx: "next_str empty_strings = ''0''" "next_rep empty_strings = ''0''"
    by (simp_all add: next_str_def next_rep_def r)
  show "strings_inv empty_strings" "reps_inv empty_strings"
    using valid_key_0 by (auto simp: strings_inv_def reps_inv_def r nx keys_below_def str_keys_def rep_keys_def short_recs_def)
qed

section \<open>Properties\<close>

text \<open>
  C22. On every database that works as documented: data that is appended to a string, however many
  records the string is made of, is added behind its contents.  Reading any range of the string then gives
  that range of the old contents and the new data, its size is their length, the keys stay well-formed, and
  every other string is read as before.
\<close>

theorem string_append_read:
  assumes "bdb_laws db view" and "strings_inv (view s)" and "str_recs k (view s) \<noteq> []" and "k \<noteq> svn_fs__next_key_key"
    and "length k < 2 ^ 32" and "length b < 2 ^ 32" and "len < 2 ^ 32"
  defines "old \<equiv> str_val k (view s)"
  shows "trail_result (svn_fs__string_read db k off len) s = Ok (take len (drop off old)) \<and>
    trail_result (svn_fs__string_size db k) s = Ok (length old) \<and>
    (\<exists>s'. svn_fs__string_append db (Some k) b s = Ok (k, s') \<and> strings_inv (view s') \<and>
      trail_result (svn_fs__string_read db k off len) s' = Ok (take len (drop off (old @ b))) \<and>
      trail_result (svn_fs__string_size db k) s' = Ok (length (old @ b)) \<and>
      (\<forall>k'. k' \<noteq> k \<and> length k' < 2 ^ 32 \<longrightarrow>
         trail_result (svn_fs__string_read db k' off len) s' = trail_result (svn_fs__string_read db k' off len) s))"
proof -
  let ?v = "view s"
  have short: "short_recs (str_recs k' ?v)" for k' using assms(2) by (simp add: strings_inv_def)
  obtain s' where s': "svn_fs__string_append db (Some k) b s = Ok (k, s')" "view s' = set_str k (str_recs k ?v @ [b]) ?v"
    using refines_Ok [OF refines_string_append [OF assms(1)] string_append_ref [OF assms(5,6), of ?v]] by blast
  have inv: "strings_inv (view s')" unfolding s'(2)
    using assms(2,3,4,6) short [of k] by (intro strings_inv_set) (auto simp: str_keys_def short_recs_def)
  have short': "short_recs (str_recs k' (view s'))" for k' using inv by (simp add: strings_inv_def)
  have new: "str_recs k (view s') \<noteq> []" "str_val k (view s') = old @ b" by (simp_all add: s'(2) str_val_def old_def)
  note read = refines_result [OF refines_string_read [OF assms(1)]] and size = refines_result [OF refines_string_size [OF assms(1)]]
  have "trail_result (svn_fs__string_read db k' off len) s' = trail_result (svn_fs__string_read db k' off len) s"
    if "k' \<noteq> k" "length k' < 2 ^ 32" for k'
    unfolding read using string_read_ref [OF short' that(2) assms(7)] string_read_ref [OF short that(2) assms(7)] that(1)
    by (simp add: trail_result_def s'(2) str_val_def)
  moreover have "trail_result (svn_fs__string_read db k off len) s = Ok (take len (drop off old))"
    "trail_result (svn_fs__string_read db k off len) s' = Ok (take len (drop off (old @ b)))"
    unfolding read using string_read_ref [OF short assms(5,7)] string_read_ref [OF short' assms(5,7)] assms(3) new
    by (simp_all add: trail_result_def old_def)
  moreover have "trail_result (svn_fs__string_size db k) s = Ok (length old)"
    "trail_result (svn_fs__string_size db k) s' = Ok (length (old @ b))"
    unfolding size using string_size_ref [OF assms(5)] assms(3) new by (simp_all add: trail_result_def old_def)
  ultimately show ?thesis using s'(1) inv by blast
qed

text \<open>A string of two records, to which a third one is appended.\<close>

theorem string_append_read_witness:
  "\<exists>k s1 s2 s3. svn_fs__string_append ref_db None ''abc'' empty_strings = Ok (k, s1) \<and>
    svn_fs__string_append ref_db (Some k) ''def'' s1 = Ok (k, s2) \<and> svn_fs__string_append ref_db (Some k) ''ghi'' s2 = Ok (k, s3) \<and>
    trail_result (svn_fs__string_read ref_db k 2 5) s3 = Ok ''cdefg''"
proof -
  let ?k = "next_str empty_strings"
  obtain nk where nk: "svn_fs__string_append ref_db None ''abc'' empty_strings = Ok (?k, set_str ?k [''abc''] (set_str svn_fs__next_key_key [nk] empty_strings))"
      "strings_inv (set_str ?k [''abc''] (set_str svn_fs__next_key_key [nk] empty_strings))"
    using string_new_ref [of empty_strings "''abc''"] empty_strings_inv by auto
  let ?s1 = "set_str ?k [''abc''] (set_str svn_fs__next_key_key [nk] empty_strings)" and ?s2 = "set_str ?k [''abc'', ''def''] (set_str svn_fs__next_key_key [nk] empty_strings)"
  have k: "?k \<noteq> svn_fs__next_key_key" "length ?k < 2 ^ 32" using next_str_fresh(2) empty_strings_inv by auto
  have s2: "svn_fs__string_append ref_db (Some ?k) ''def'' ?s1 = Ok (?k, ?s2)" using string_append_ref [OF k(2), of "''def''" ?s1] by simp
  have "strings_inv (id ?s2)" using strings_inv_set [OF nk(2), of ?k "[''abc'', ''def'']"] k(1) by (simp add: short_recs_def)
  with string_append_read [of ref_db id ?s2 ?k "''ghi''" 5 2] k bdb_laws_ref nk(1) s2 show ?thesis by (auto simp: str_val_def)
qed

text \<open>
  On every database that works as documented: a copy of a string has the contents of the
  original under a key that was not in use, and what is then appended to the copy does not change
  the original.
\<close>

lemma string_copy_apart:
  assumes "bdb_laws db view" and "strings_inv (view s)" and "length (next_str (view s)) < 199"
    and "length k < 2 ^ 32" and "k \<noteq> svn_fs__next_key_key" and "str_recs k (view s) \<noteq> []"
    and "length b < 2 ^ 32" and "len < 2 ^ 32"
  shows "\<exists>k' s1 s2. svn_fs__string_copy db k s = Ok (k', s1) \<and> svn_fs__string_append db (Some k') b s1 = Ok (k', s2) \<and>
    str_recs k' (view s) = [] \<and>
    trail_result (svn_fs__string_read db k' off len) s1 = Ok (take len (drop off (str_val k (view s)))) \<and>
    trail_result (svn_fs__string_read db k off len) s2 = Ok (take len (drop off (str_val k (view s))))"
proof -
  let ?v = "view s" and ?k = "next_str (view s)"
  obtain nk where nk: "svn_fs__string_copy ref_db k ?v = Ok (?k, set_str ?k (str_recs k ?v) (set_str svn_fs__next_key_key [nk] ?v))"
    "strings_inv (set_str ?k (str_recs k ?v) (set_str svn_fs__next_key_key [nk] ?v))"
    using string_copy_ref [OF assms(2-6)] .
  obtain s1 where s1: "svn_fs__string_copy db k s = Ok (?k, s1)"
    "view s1 = set_str ?k (str_recs k ?v) (set_str svn_fs__next_key_key [nk] ?v)"
    using refines_Ok [OF refines_string_copy [OF assms(1)] nk(1)] by blast
  have kl: "length ?k < 2 ^ 32" using assms(3) by simp
  note fr = next_str_fresh [OF assms(2)]
  have ne: "k \<noteq> ?k" using fr(1) assms(6) by auto
  obtain s2 where s2: "svn_fs__string_append db (Some ?k) b s1 = Ok (?k, s2)"
    "view s2 = set_str ?k (str_recs ?k (view s1) @ [b]) (view s1)"
    using refines_Ok [OF refines_string_append [OF assms(1)] string_append_ref [OF kl assms(7), of "view s1"]] by blast
  have short: "short_recs (str_recs k ?v)" using assms(2) by (simp add: strings_inv_def)
  have r: "str_recs ?k (view s1) = str_recs k ?v" "str_recs k (view s2) = str_recs k ?v"
    using ne assms(5) by (simp_all add: s1(2) s2(2))
  have "trail_result (svn_fs__string_read db ?k off len) s1 = Ok (take len (drop off (str_val k ?v)))"
    unfolding refines_result [OF refines_string_read [OF assms(1)]]
    using string_read_ref [of ?k "view s1", OF _ kl assms(8)] r short assms(6) by (simp add: trail_result_def str_val_def)
  moreover have "trail_result (svn_fs__string_read db k off len) s2 = Ok (take len (drop off (str_val k ?v)))"
    unfolding refines_result [OF refines_string_read [OF assms(1)]]
    using string_read_ref [of k "view s2", OF _ assms(4,8)] r short assms(6) by (simp add: trail_result_def str_val_def)
  ultimately show ?thesis using s1(1) s2(1) fr(1) by blast
qed

text \<open>
  On every database that works as documented: a new representation gets a key that was not in
  use, reading it gives the skel that was written, no other representation changes, and the next
  key is again above all keys in use.
\<close>

lemma new_rep_read:
  assumes "bdb_laws db view" and "reps_inv (view s)" and "length (next_rep (view s)) < 199"
    and "length (skel_text skel) < 2 ^ 32"
  shows "\<exists>k s1. svn_fs__write_new_rep db skel s = Ok (k, s1) \<and> rep_rec k (view s) = None \<and> reps_inv (view s1) \<and>
    trail_result (svn_fs__read_rep db k) s1 = Ok (Some (skel_norm skel)) \<and>
    (\<forall>k'. k' \<noteq> k \<and> k' \<noteq> svn_fs__next_key_key \<and> length k' < 2 ^ 32 \<longrightarrow>
       trail_result (svn_fs__read_rep db k') s1 = trail_result (svn_fs__read_rep db k') s)"
proof -
  let ?v = "view s" and ?k = "next_rep (view s)" and ?T = "put_tab Representations"
  obtain nk where nk: "svn_fs__write_new_rep ref_db skel ?v = Ok (?k, ?T svn_fs__next_key_key nk (?T ?k (skel_text skel) ?v))"
    "reps_inv (?T svn_fs__next_key_key nk (?T ?k (skel_text skel) ?v))"
    using write_new_rep_ref [OF assms(2-4)] .
  obtain s1 where s1: "svn_fs__write_new_rep db skel s = Ok (?k, s1)"
    "view s1 = ?T svn_fs__next_key_key nk (?T ?k (skel_text skel) ?v)"
    using refines_Ok [OF refines_write_new_rep [OF assms(1)] nk(1)] by blast
  have kl: "length ?k < 2 ^ 32" using assms(3) by simp
  note fr = next_rep_fresh [OF assms(2)]
  note read = refines_result [OF refines_read_rep [OF assms(1)]]
  have "trail_result (svn_fs__read_rep db ?k) s1 = Ok (Some (skel_norm skel))"
    unfolding read using fr(2) by (simp add: trail_result_def read_rep_ref [OF kl] s1(2) skel_to_dbt_text(2) [OF assms(4)])
  moreover have "trail_result (svn_fs__read_rep db k') s1 = trail_result (svn_fs__read_rep db k') s"
    if "k' \<noteq> ?k" "k' \<noteq> svn_fs__next_key_key" "length k' < 2 ^ 32" for k'
    unfolding read using that(1,2) by (simp add: trail_result_def read_rep_ref [OF that(3)] s1(2) split: option.split)
  ultimately show ?thesis using s1 nk(2) fr(1) by auto
qed

end
