(* ===== verification/Fs_Nodes.thy ===== *)
theory Fs_Nodes
  imports Fs_Strings
begin

text \<open>
  The table of nodes (\<open>libsvn_fs/nodes-table.c\<close>) and \<open>libsvn_fs/node-rev.c\<close>: the validation of
  node revision skels, the choice of ids for new nodes and for successors, and storing and reading
  node revisions.
\<close>

section \<open>Validating node revisions\<close>

fun is_atom :: "skel_t \<Rightarrow> bool" where
  "is_atom (skel_atom d) \<longleftrightarrow> True"
| "is_atom (skel_list body children) \<longleftrightarrow> False"

fun is_valid_option :: "skel_t \<Rightarrow> bool" where
  "is_valid_option (skel_list body [w, r, path]) \<longleftrightarrow>
     svn_fs__matches_atom (Some w) ''copy'' \<and> is_atom r \<and> is_atom path"
| "is_valid_option _ \<longleftrightarrow> False"

text \<open>The kind of a valid header.\<close>

fun is_valid_header :: "skel_t \<Rightarrow> skel_t option" where
  "is_valid_header (skel_list body (kind # r # options)) =
     (if is_atom kind \<and> is_atom r \<and> list_all is_valid_option options then Some kind else None)"
| "is_valid_header _ = None"

fun is_mutable_header :: "skel_t \<Rightarrow> bool" where
  "is_mutable_header (skel_list body (kind # skel_atom r # options)) \<longleftrightarrow> length r = 0"
| "is_mutable_header _ \<longleftrightarrow> False"

definition is_valid_node_revision :: "skel_t \<Rightarrow> bool" where
  "is_valid_node_revision skel \<longleftrightarrow>
     (case skel of
        skel_list body (header # keys) \<Rightarrow>
          (case is_valid_header header of
             None \<Rightarrow> False
           | Some kind \<Rightarrow>
               svn_fs__matches_atom (Some kind) ''dir'' \<and> length keys = 2 \<and> is_atom (keys ! 0) \<and> is_atom (keys ! 1) \<or>
               svn_fs__matches_atom (Some kind) ''file'' \<and> 2 \<le> length keys \<and> is_atom (keys ! 0) \<and> is_atom (keys ! 1) \<and>
                 (length keys = 2 \<or> length keys = 3 \<and> is_mutable_header header \<and> is_atom (keys ! 2)))
      | _ \<Rightarrow> False)"

section \<open>Choosing ids\<close>

definition svn_fs__new_node_id :: "'d bdb \<Rightarrow> ('d, svn_fs_id_t) trail" where
  "svn_fs__new_node_id db =
     tbind (db_read_or (db_last db Nodes) (or_notfound SVN_ERR_FS_CORRUPT)) (\<lambda>key.
     tbind (tlift (svn_fs_parse_id key)) (\<lambda>r.
       case r of
         None \<Rightarrow> tfail SVN_ERR_FS_CORRUPT
       | Some nid \<Rightarrow>
           if svn_fs__id_length nid < 2 then tfail SVN_ERR_FS_CORRUPT
           else tret [nid ! 0 + 1, 1]))"

definition last_key_before :: "'d bdb \<Rightarrow> db_table \<Rightarrow> bytes \<Rightarrow> ('d, bytes db_result) trail" where
  "last_key_before db T key =
     tbind (db_peek (db_set_range db T key)) (\<lambda>r.
       case r of
         DB_ok found \<Rightarrow> db_peek (db_prev db T found)
       | DB_err e \<Rightarrow> if e = DB_NOTFOUND then db_peek (db_last db T) else tret (DB_err e))"

text \<open>The id to use when the next revision of the node exists, from the last key before its branches.\<close>

definition next_branch :: "svn_fs_id_t \<Rightarrow> svn_fs_id_t \<Rightarrow> svn_fs_id_t svn_result" where
  "next_branch nid last_branch_id =
     (let id_len = svn_fs__id_length nid; last_branch_len = svn_fs__id_length last_branch_id in
      if odd last_branch_len then Err SVN_ERR_FS_CORRUPT
      else if last_branch_len = id_len then Ok (take id_len nid @ [1, 1])
      else if id_len < last_branch_len
      then Ok (take id_len last_branch_id @ [last_branch_id ! id_len + 1, 1])
      else Err SVN_ERR_FS_CORRUPT)"

definition svn_fs__new_successor_id :: "'d bdb \<Rightarrow> svn_fs_id_t \<Rightarrow> ('d, svn_fs_id_t) trail" where
  "svn_fs__new_successor_id db nid =
     (let id_len = svn_fs__id_length nid in
      if odd id_len then tfail SVN_ERR_FS_CORRUPT
      else if id_len = 0 then tlift Abort
      else
        (let new_id = (take id_len nid)[id_len - 1 := nid ! (id_len - 1) + 1] in
         tbind (tlift (svn_fs__id_to_dbt new_id)) (\<lambda>key.
         tbind (db_peek (db_get db Nodes key)) (\<lambda>r.
           case r of
             DB_err e \<Rightarrow> if e = DB_NOTFOUND then tret new_id else tfail (SVN_ERR_BERKELEY_DB e)
           | DB_ok _ \<Rightarrow>
               tbind (tlift (svn_fs__id_to_dbt (new_id @ [1, 1]))) (\<lambda>key.
               tbind (last_key_before db Nodes key) (\<lambda>r.
                 case r of
                   DB_err e \<Rightarrow> tfail (SVN_ERR_BERKELEY_DB e)
                 | DB_ok last_key \<Rightarrow>
                     tbind (tlift (svn_fs_parse_id last_key)) (\<lambda>p.
                       case p of
                         None \<Rightarrow> tfail SVN_ERR_FS_CORRUPT
                       | Some last_branch_id \<Rightarrow> tlift (next_branch nid last_branch_id))))))))"

section \<open>Storing and reading node revisions\<close>

definition svn_fs__delete_nodes_entry :: "'d bdb \<Rightarrow> svn_fs_id_t \<Rightarrow> ('d, unit) trail" where
  "svn_fs__delete_nodes_entry db nid =
     tbind (tlift (svn_fs__id_to_dbt nid)) (\<lambda>key. db_write (db_del db Nodes key))"

definition svn_fs__get_node_revision :: "'d bdb \<Rightarrow> svn_fs_id_t \<Rightarrow> ('d, skel_t) trail" where
  "svn_fs__get_node_revision db nid =
     tbind (tlift (svn_fs__id_to_dbt nid)) (\<lambda>key.
     tbind (db_read_or (db_get db Nodes key) (or_notfound SVN_ERR_FS_ID_NOT_FOUND)) (\<lambda>value.
       case svn_fs__parse_skel value of
         None \<Rightarrow> tfail SVN_ERR_FS_CORRUPT
       | Some skel \<Rightarrow> if is_valid_node_revision skel then tret skel else tfail SVN_ERR_FS_CORRUPT))"

definition svn_fs__put_node_revision :: "'d bdb \<Rightarrow> svn_fs_id_t \<Rightarrow> skel_t \<Rightarrow> ('d, unit) trail" where
  "svn_fs__put_node_revision db nid skel =
     (if \<not> is_valid_node_revision skel then tfail SVN_ERR_FS_CORRUPT
      else
        tbind (tlift (svn_fs__id_to_dbt nid)) (\<lambda>key.
        tbind (tlift (svn_fs__skel_to_dbt skel)) (\<lambda>value.
          db_write (db_put db Nodes key value))))"

definition svn_fs__create_node :: "'d bdb \<Rightarrow> skel_t \<Rightarrow> ('d, svn_fs_id_t) trail" where
  "svn_fs__create_node db skel =
     tbind (svn_fs__new_node_id db) (\<lambda>nid.
     tbind (svn_fs__put_node_revision db nid skel) (\<lambda>_. tret nid))"

definition svn_fs__create_successor :: "'d bdb \<Rightarrow> svn_fs_id_t \<Rightarrow> skel_t \<Rightarrow> ('d, svn_fs_id_t) trail" where
  "svn_fs__create_successor db old_id new_skel =
     tbind (svn_fs__new_successor_id db old_id) (\<lambda>new_id.
     tbind (svn_fs__put_node_revision db new_id new_skel) (\<lambda>_. tret new_id))"

definition svn_fs__delete_node_revision :: "'d bdb \<Rightarrow> svn_fs_id_t \<Rightarrow> ('d, unit) trail" where
  "svn_fs__delete_node_revision db nid = svn_fs__delete_nodes_entry db nid"

section \<open>Refinement\<close>

lemma refines_new_node_id [refine_intros]:
  "bdb_laws db view \<Longrightarrow> refines view (svn_fs__new_node_id db) (svn_fs__new_node_id ref_db)"
  unfolding svn_fs__new_node_id_def by (intro refine_intros)

lemma refines_last_key_before [refine_intros]:
  "bdb_laws db view \<Longrightarrow> refines view (last_key_before db T key) (last_key_before ref_db T key)"
  unfolding last_key_before_def by (intro refine_intros)

lemma refines_new_successor_id [refine_intros]:
  "bdb_laws db view \<Longrightarrow> refines view (svn_fs__new_successor_id db nid) (svn_fs__new_successor_id ref_db nid)"
  unfolding svn_fs__new_successor_id_def Let_def by (intro refine_intros)

lemma refines_delete_nodes_entry [refine_intros]:
  "bdb_laws db view \<Longrightarrow> refines view (svn_fs__delete_nodes_entry db nid) (svn_fs__delete_nodes_entry ref_db nid)"
  unfolding svn_fs__delete_nodes_entry_def by (intro refine_intros)

lemma refines_get_node_revision [refine_intros]:
  "bdb_laws db view \<Longrightarrow> refines view (svn_fs__get_node_revision db nid) (svn_fs__get_node_revision ref_db nid)"
  unfolding svn_fs__get_node_revision_def by (intro refine_intros)

lemma refines_put_node_revision [refine_intros]:
  "bdb_laws db view \<Longrightarrow> refines view (svn_fs__put_node_revision db nid skel) (svn_fs__put_node_revision ref_db nid skel)"
  unfolding svn_fs__put_node_revision_def by (intro refine_intros)

lemma refines_create_node [refine_intros]:
  "bdb_laws db view \<Longrightarrow> refines view (svn_fs__create_node db skel) (svn_fs__create_node ref_db skel)"
  unfolding svn_fs__create_node_def by (intro refine_intros)

lemma refines_create_successor [refine_intros]:
  "bdb_laws db view \<Longrightarrow> refines view (svn_fs__create_successor db nid skel) (svn_fs__create_successor ref_db nid skel)"
  unfolding svn_fs__create_successor_def by (intro refine_intros)

lemma refines_delete_node_revision [refine_intros]:
  "bdb_laws db view \<Longrightarrow> refines view (svn_fs__delete_node_revision db nid) (svn_fs__delete_node_revision ref_db nid)"
  unfolding svn_fs__delete_node_revision_def by (intro refine_intros)

end
