(* ===== verification/Fs_Successor.thy ===== *)
theory Fs_Successor
  imports Fs_Nodes
begin

text \<open>
  The order of the keys of the nodes table and the ids it gives to new nodes and successors.  The
  comparison that \<open>nodes-table.c\<close> hands to the database is the lexicographic order of \<open>id_key\<close>: the
  revisions of a node come first, then the branches, by the revision they start from.
\<close>

section \<open>The order of ids\<close>

fun id_key :: "svn_fs_id_t \<Rightarrow> int list" where
  "id_key (n # r # rest) = n # (if rest = [] then 0 else 1) # r # id_key rest"
| "id_key xs = xs"

fun icmp :: "svn_fs_id_t \<Rightarrow> svn_fs_id_t \<Rightarrow> int" where
  "icmp (x # r # as) (y # q # bs) =
     (if x \<noteq> y then x - y
      else if r = q then icmp as bs
      else if as = [] \<and> bs = [] then r - q else if as = [] then - 1 else if bs = [] then 1 else r - q)"
| "icmp [] (y # bs) = - 1 - y"
| "icmp (x # as) [] = x + 1"
| "icmp _ _ = 0"

definition small_id :: "svn_fs_id_t \<Rightarrow> bool" where
  "small_id nid \<longleftrightarrow> even (length nid) \<and> (\<forall>c \<in> set nid. 0 \<le> c \<and> c \<le> 100000001)"

lemma small_id_cases [consumes 1, case_names Nil Cons]:
  assumes "small_id nid"
  obtains "nid = []" | n r rest where "nid = n # r # rest" "small_id rest" "0 \<le> n" "n \<le> 100000001" "0 \<le> r" "r \<le> 100000001"
proof (cases nid)
  case (Cons n xs)
  with assms have "xs \<noteq> []" by (auto simp: small_id_def)
  with Cons assms that(2) show ?thesis by (cases xs) (auto simp: small_id_def)
qed (use that in simp)

lemma to_int_small: "- (2 ^ 31) \<le> x \<Longrightarrow> x < 2 ^ 31 \<Longrightarrow> to_int x = x"
  by (simp add: to_int_def signed_of_int signed_take_bit_int_eq_self)

lemma compare_ids_loop_mismatch: "compare_ids_loop a b i = id_mismatch a b i"
proof (induction a b i rule: compare_ids_loop.induct)
  case (1 a b i)
  then show ?case
    by (subst compare_ids_loop.simps, subst id_mismatch.simps) (auto intro!: svn_bind_cong)
qed

definition comp_at :: "svn_fs_id_t \<Rightarrow> nat \<Rightarrow> int" where
  "comp_at nid i = (if i < length nid then nid ! i else - 1)"

lemma id_at_comp: "i \<le> length nid \<Longrightarrow> id_at nid i = Ok (comp_at nid i)"
  by (simp add: id_at_def comp_at_def)

lemma comp_at_Cons [simp]: "comp_at (c # cs) 0 = c" "comp_at (c # cs) (Suc i) = comp_at cs i" "comp_at [] i = - 1"
  by (simp_all add: comp_at_def)

lemma small_comp:
  assumes "small_id nid"
  shows "- 1 \<le> comp_at nid i" and "comp_at nid i \<le> 100000001" and "comp_at nid i = - 1 \<longleftrightarrow> length nid \<le> i"
proof -
  have "i < length nid \<Longrightarrow> 0 \<le> nid ! i \<and> nid ! i \<le> 100000001" using assms by (simp add: small_id_def)
  then show "- 1 \<le> comp_at nid i" "comp_at nid i \<le> 100000001" "comp_at nid i = - 1 \<longleftrightarrow> length nid \<le> i"
    by (auto simp: comp_at_def not_less)
qed

text \<open>The comparison from the first position where the ids differ.\<close>

lemma icmp_mismatch:
  assumes "small_id a" and "small_id b" and "a \<noteq> b"
  defines "i \<equiv> lcp_len a b"
  shows "icmp a b =
    (if even i then comp_at a i - comp_at b i
     else if comp_at a (Suc i) = - 1 \<and> comp_at b (Suc i) = - 1 then comp_at a i - comp_at b i
     else if comp_at a (Suc i) = - 1 then - 1 else if comp_at b (Suc i) = - 1 then 1 else comp_at a i - comp_at b i)"
  using assms(1-3) unfolding i_def
proof (induction a b rule: icmp.induct)
  case (1 x r as y q bs)
  have small: "small_id as" "small_id bs" using "1.prems" by (auto simp: small_id_def)
  have nil: "comp_at as 0 = - 1 \<longleftrightarrow> as = []" "comp_at bs 0 = - 1 \<longleftrightarrow> bs = []"
    using small_comp(3) [OF small(1), of 0] small_comp(3) [OF small(2), of 0] by simp_all
  show ?case
  proof (cases "x = y \<and> r = q")
    case True
    then have "as \<noteq> bs" using "1.prems" by simp
    with True "1.IH" small show ?thesis by simp
  next
    case False
    then show ?thesis by (auto simp: nil)
  qed
qed (auto simp: small_id_def)

lemma compare_ids_icmp:
  assumes "small_id a" and "small_id b"
  shows "compare_ids a b = Ok (icmp a b)"
proof -
  let ?i = "lcp_len a b"
  have le: "?i \<le> length a" "?i \<le> length b" by (rule lcp_len_spec)+
  have nonneg: "\<forall>c \<in> set a \<union> set b. 0 \<le> c" using assms by (auto simp: small_id_def)
  have mm: "compare_ids_loop a b 0 = Ok (if a = b then None else Some ?i)"
    using id_mismatch_spec [OF nonneg, of 0] by (simp add: compare_ids_loop_mismatch)
  show ?thesis
  proof (cases "a = b")
    case True
    have "icmp a a = 0" using assms(1)
    proof (induction "length a" arbitrary: a rule: less_induct)
      case less
      from less.prems show ?case by (cases rule: small_id_cases) (use less.hyps in auto)
    qed
    with True mm show ?thesis by (simp add: compare_ids_def)
  next
    case False
    have sm: "to_int (comp_at a ?i - comp_at b ?i) = comp_at a ?i - comp_at b ?i"
      using small_comp(1,2) [OF assms(1), of ?i] small_comp(1,2) [OF assms(2), of ?i] by (intro to_int_small) simp_all
    show ?thesis
    proof (cases "even ?i")
      case True
      with False mm sm icmp_mismatch [OF assms False] show ?thesis
        by (simp add: compare_ids_def id_at_comp le)
    next
      case odd: False
      then have lt: "?i < length a" "?i < length b" using le assms by (auto simp: small_id_def le_less)
      then have "comp_at a ?i \<noteq> - 1" "comp_at b ?i \<noteq> - 1" using small_comp(3) assms by auto
      with False odd mm sm lt icmp_mismatch [OF assms False] show ?thesis
        by (simp add: compare_ids_def id_at_comp le Suc_leI)
    qed
  qed
qed

lemma id_key_ne [simp]: "id_key (x # xs) \<noteq> []"
  by (cases xs) auto

lemma id_key_hd: "id_key (x # xs) = x # tl (id_key (x # xs))"
  by (cases xs) auto

lemma Nil_less_id_key [simp]: "[] < id_key (x # xs)" "\<not> id_key (x # xs) < []"
  by (subst id_key_hd, simp)+

lemma icmp_key:
  assumes "small_id a" and "small_id b"
  shows "(icmp a b < 0 \<longleftrightarrow> id_key a < id_key b) \<and> (icmp a b = 0 \<longleftrightarrow> a = b)"
  using assms
proof (induction a b rule: icmp.induct)
  case (1 x r as y q bs)
  have small: "small_id as" "small_id bs" using "1.prems" by (auto simp: small_id_def)
  show ?case using "1.IH" small by (cases as; cases bs) auto
qed (auto simp: small_id_def)

section \<open>The keys of the table\<close>

text \<open>The ids of the table: the first two components may be 0, those of a branch count from 1.\<close>

definition node_id :: "svn_fs_id_t \<Rightarrow> bool" where
  "node_id nid \<longleftrightarrow>
     nid \<noteq> [] \<and> even (length nid) \<and> length nid \<le> 100000000 \<and>
     (\<forall>c \<in> set nid. 0 \<le> c \<and> c < 100000000) \<and> (\<forall>c \<in> set (drop 2 nid). 1 \<le> c)"

definition key_id :: "bytes \<Rightarrow> svn_fs_id_t" where
  "key_id k = (case svn_fs_parse_id k of Ok (Some nid) \<Rightarrow> nid | _ \<Rightarrow> [])"

definition node_ids :: "fs_tables \<Rightarrow> svn_fs_id_t list" where
  "node_ids v = map key_id (table_keys Nodes v)"

definition nodes_inv :: "fs_tables \<Rightarrow> bool" where
  "nodes_inv v \<longleftrightarrow> (\<forall>k \<in> set (table_keys Nodes v). node_id (key_id k) \<and> id_text (key_id k) = k)"

text \<open>Ids that can be written as keys.\<close>

definition key_ok :: "svn_fs_id_t \<Rightarrow> bool" where
  "key_ok nid \<longleftrightarrow> nid \<noteq> [] \<and> even (length nid) \<and> length nid \<le> 100000002 \<and> (\<forall>c \<in> set nid. 0 \<le> c \<and> c \<le> 100000000)"

lemma node_id_key_ok: "node_id nid \<Longrightarrow> key_ok nid"
  by (auto simp: node_id_def key_ok_def intro: less_imp_le)

lemma key_ok_small: "key_ok nid \<Longrightarrow> small_id nid"
  by (auto simp: key_ok_def small_id_def)

lemma key_ok_readable: "key_ok nid \<Longrightarrow> id_readable nid"
  by (auto simp: key_ok_def id_readable_def)

lemma dec_digits_short: "n \<le> 100000000 \<Longrightarrow> length (dec_digits n) \<le> 9"
  using dec_digits_length [of n 8] by simp

lemma id_text_short: "\<forall>c \<in> set nid. 0 \<le> c \<and> c \<le> 100000000 \<Longrightarrow> length (id_text nid) \<le> 10 * length nid"
proof (induction nid rule: id_text.induct)
  case (2 c)
  then have "nat c \<le> 100000000" by (auto simp: nat_le_iff)
  from dec_digits_short [OF this] show ?case by simp
next
  case (3 c d cs)
  then have "nat c \<le> 100000000" by (auto simp: nat_le_iff)
  from dec_digits_short [OF this] 3 show ?case by simp
qed simp

lemma key_ok_text:
  assumes "key_ok nid"
  shows "svn_fs__id_to_dbt nid = Ok (id_text nid)" and "svn_fs_parse_id (id_text nid) = Ok (Some nid)"
    and "key_id (id_text nid) = nid"
proof -
  have len: "length (id_text nid) \<le> 1000000020" using id_text_short [of nid] assms by (auto simp: key_ok_def)
  then obtain str where str: "svn_fs_unparse_id nid = Ok str" "sb_ok str" "sb_contents str = id_text nid"
      "svn_fs_parse_id (id_text nid) = Ok (Some nid)"
    using unparse_id_contents [OF key_ok_readable [OF assms]] by auto
  show "svn_fs_parse_id (id_text nid) = Ok (Some nid)" by (rule str)
  then show "key_id (id_text nid) = nid" by (simp add: key_id_def)
  show "svn_fs__id_to_dbt nid = Ok (id_text nid)"
    using str len mem_bytes_contents [OF sb_ok_shape [OF str(2)]] by (simp add: svn_fs__id_to_dbt_def svn_fs__set_dbt_def)
qed

lemma id_length_key_ok: "key_ok nid \<Longrightarrow> svn_fs__id_length nid = length nid"
  by (subst svn_fs__id_length_def, subst takeWhile_eq_all_conv [THEN iffD2]) (force simp: key_ok_def)+

lemma nodes_cmp:
  assumes "key_ok a" and "key_ok b"
  shows "key_cmp Nodes (id_text a) (id_text b) < 0 \<longleftrightarrow> id_key a < id_key b"
  using key_ok_text(2) [OF assms(1)] key_ok_text(2) [OF assms(2)] assms
    id_length_key_ok [OF assms(1)] id_length_key_ok [OF assms(2)]
    compare_ids_icmp [OF key_ok_small [OF assms(1)] key_ok_small [OF assms(2)]]
    icmp_key [OF key_ok_small [OF assms(1)] key_ok_small [OF assms(2)]]
  by (simp add: key_cmp_def compare_nodes_keys_def parse_node_revision_dbt_def key_ok_def)

section \<open>The ends of a range of keys\<close>

lemma foldl_end:
  assumes "\<And>x y. x \<in> set (k # ks) \<Longrightarrow> y \<in> set (k # ks) \<Longrightarrow> cmp x y < 0 \<longleftrightarrow> \<not> le y x"
    and "\<And>x. le x x" and "\<And>x y z. le x y \<Longrightarrow> le y z \<Longrightarrow> le x z" and "\<And>x y. le x y \<or> le y x"
  shows "foldl (\<lambda>m x. if cmp m x < 0 then x else m) k ks \<in> set (k # ks) \<and>
    (\<forall>x \<in> set (k # ks). le x (foldl (\<lambda>m x. if cmp m x < 0 then x else m) k ks))"
  using assms(1)
proof (induction ks arbitrary: k)
  case (Cons a ks)
  let ?k = "if cmp k a < 0 then a else k"
  have "foldl (\<lambda>m x. if cmp m x < 0 then x else m) ?k ks \<in> set (?k # ks) \<and>
      (\<forall>x \<in> set (?k # ks). le x (foldl (\<lambda>m x. if cmp m x < 0 then x else m) ?k ks))"
    by (intro Cons.IH Cons.prems) (auto split: if_splits)
  moreover have "le k ?k" "le a ?k" using Cons.prems [of k a] assms(2,4) by (auto split: if_splits)
  ultimately show ?case using assms(3) [of k ?k] assms(3) [of a ?k] by (auto split: if_splits)
qed (use assms(2) in simp)

lemma last_of_max:
  assumes "\<And>x y. x \<in> set ks \<Longrightarrow> y \<in> set ks \<Longrightarrow> cmp x y < 0 \<longleftrightarrow> f x < (f y :: 'b :: linorder)" and "ks \<noteq> []"
  obtains m where "last_of cmp ks = DB_ok m" and "m \<in> set ks" and "\<And>x. x \<in> set ks \<Longrightarrow> f x \<le> f m"
proof (cases ks)
  case (Cons k ks')
  have "foldl (\<lambda>m x. if cmp m x < 0 then x else m) k ks' \<in> set (k # ks') \<and>
      (\<forall>x \<in> set (k # ks'). f x \<le> f (foldl (\<lambda>m x. if cmp m x < 0 then x else m) k ks'))"
    by (rule foldl_end) (use assms(1) Cons in \<open>auto simp: not_le\<close>)
  with that Cons show ?thesis by simp
qed (use assms in simp)

lemma first_of_min:
  assumes "\<And>x y. x \<in> set ks \<Longrightarrow> y \<in> set ks \<Longrightarrow> cmp x y < 0 \<longleftrightarrow> f x < (f y :: 'b :: linorder)" and "ks \<noteq> []"
  obtains m where "first_of cmp ks = DB_ok m" and "m \<in> set ks" and "\<And>x. x \<in> set ks \<Longrightarrow> f m \<le> f x"
proof (cases ks)
  case (Cons k ks')
  have "foldl (\<lambda>m x. if cmp x m < 0 then x else m) k ks' \<in> set (k # ks') \<and>
      (\<forall>x \<in> set (k # ks'). f (foldl (\<lambda>m x. if cmp x m < 0 then x else m) k ks') \<le> f x)"
    by (rule foldl_end [where cmp = "\<lambda>m x. cmp x m"]) (use assms(1) Cons in \<open>auto simp: not_le\<close>)
  with that Cons show ?thesis by (simp add: first_of_def)
qed (use assms in simp)


section \<open>The choice of ids\<close>

text \<open>The revision and the number of each branch off a revision of the node up to the given one.\<close>

definition branches_up_to :: "svn_fs_id_t \<Rightarrow> svn_fs_id_t list \<Rightarrow> int list list" where
  "branches_up_to nid ids =
     map (\<lambda>i. take 2 (drop (length nid - 1) i))
       (filter (\<lambda>i. length nid < length i \<and> butlast nid = take (length nid - 1) i \<and> i ! (length nid - 1) \<le> last nid) ids)"

definition successor_of :: "svn_fs_id_t list \<Rightarrow> svn_fs_id_t \<Rightarrow> svn_fs_id_t" where
  "successor_of ids nid =
     (let new_id = butlast nid @ [last nid + 1]; branches = sort (branches_up_to nid ids) in
      if new_id \<notin> set ids then new_id
      else if branches = [] then nid @ [1, 1]
      else butlast nid @ [last branches ! 0, last branches ! 1 + 1, 1])"

lemma last_key_before_ref:
  assumes "nodes_inv v" and "key_ok nid" and "i \<in> set (node_ids v)" and "id_key i < id_key nid"
  obtains m where "last_key_before ref_db Nodes (id_text nid) v = Ok (DB_ok (id_text m), v)"
    and "m \<in> set (node_ids v)" and "id_key m < id_key nid"
    and "\<And>i. i \<in> set (node_ids v) \<Longrightarrow> id_key i < id_key nid \<Longrightarrow> id_key i \<le> id_key m"
proof -
  let ?K = "table_keys Nodes v" and ?key = "id_text nid" and ?f = "\<lambda>k. id_key (key_id k)"
  have ok: "key_ok (key_id k) \<and> id_text (key_id k) = k" if "k \<in> insert ?key (set ?K)" for k
    using that assms(1,2) node_id_key_ok key_ok_text(3) by (auto simp: nodes_inv_def)
  have cmp: "key_cmp Nodes a b < 0 \<longleftrightarrow> ?f a < ?f b" if "a \<in> insert ?key (set ?K)" "b \<in> insert ?key (set ?K)" for a b
    using nodes_cmp [of "key_id a" "key_id b"] ok [OF that(1)] ok [OF that(2)] by simp
  have key: "?f ?key = id_key nid" using key_ok_text(3) [OF assms(2)] by simp
  let ?L = "filter (\<lambda>x. key_cmp Nodes x ?key < 0) ?K"
  obtain k where k: "k \<in> set ?K" "i = key_id k" using assms(3) by (auto simp: node_ids_def)
  then have "k \<in> set ?L" using cmp [of k ?key] assms(4) key by simp
  then have "?L \<noteq> []" by force
  then obtain m where m: "last_of (key_cmp Nodes) ?L = DB_ok m" "m \<in> set ?L" "\<And>x. x \<in> set ?L \<Longrightarrow> ?f x \<le> ?f m"
    using last_of_max [of ?L "key_cmp Nodes" ?f] cmp by auto
  have run: "last_key_before ref_db Nodes ?key v = Ok (DB_ok m, v)"
  proof (cases "filter (\<lambda>x. key_cmp Nodes x ?key \<ge> 0) ?K = []")
    case True
    then have "?L = ?K" by (auto simp: filter_empty_conv not_le)
    with True m(1) show ?thesis by (simp add: last_key_before_def trail_defs first_of_def)
  next
    case False
    let ?G = "filter (\<lambda>x. key_cmp Nodes x ?key \<ge> 0) ?K"
    obtain g where g: "first_of (key_cmp Nodes) ?G = DB_ok g" "g \<in> set ?G" "\<And>x. x \<in> set ?G \<Longrightarrow> ?f g \<le> ?f x"
      using first_of_min [of ?G "key_cmp Nodes" ?f] cmp False by auto
    have ge: "key_cmp Nodes x ?key \<ge> 0 \<longleftrightarrow> ?f ?key \<le> ?f x" if "x \<in> set ?K" for x
      using cmp [of x ?key] that by (simp add: not_less [symmetric])
    have "key_cmp Nodes x g < 0 \<longleftrightarrow> key_cmp Nodes x ?key < 0" if "x \<in> set ?K" for x
      using that g(2) g(3) [of x] cmp [of x g] cmp [of x ?key] ge [of g] ge [of x] by auto
    then have "filter (\<lambda>x. key_cmp Nodes x g < 0) ?K = ?L" by (simp cong: filter_cong)
    with g(1) m(1) show ?thesis by (simp add: last_key_before_def trail_defs)
  qed
  have "m \<in> set ?K" using m(2) by simp
  with ok have "id_text (key_id m) = m" by blast
  with run have "last_key_before ref_db Nodes ?key v = Ok (DB_ok (id_text (key_id m)), v)" by simp
  moreover have "key_id m \<in> set (node_ids v)" using m(2) by (simp add: node_ids_def)
  moreover have "id_key (key_id m) < id_key nid" using m(2) cmp [of m ?key] key by simp
  moreover have "id_key j \<le> id_key (key_id m)" if j: "j \<in> set (node_ids v)" "id_key j < id_key nid" for j
  proof -
    obtain k where k: "k \<in> set ?K" "j = key_id k" using j(1) by (auto simp: node_ids_def)
    then have "k \<in> set ?L" using cmp [of k ?key] j(2) key by simp
    from m(3) [OF this] k show ?thesis by simp
  qed
  ultimately show thesis by (rule that)
qed

text \<open>The ids from a revision of a node to the first branch off it.\<close>

lemma id_key_branch_ge: "small_id rest \<Longrightarrow> \<forall>c \<in> set rest. 1 \<le> c \<Longrightarrow> rest \<noteq> [] \<Longrightarrow> \<not> id_key rest < [1, 0, 1]"
  by (cases rest rule: id_key.cases) (auto simp: small_id_def)

lemma between_prefix:
  assumes "small_id m" and "even (length p)" and "id_key (p @ [n, r]) \<le> id_key m" and "id_key m < id_key (p @ [n, r, 1, 1])"
  obtains q rest where "m = p @ n # q # rest" and "rest = [] \<Longrightarrow> r \<le> q"
    and "rest \<noteq> [] \<Longrightarrow> q < r \<or> q = r \<and> id_key rest < [1, 0, 1]"
proof -
  have "\<exists>q rest. m = p @ n # q # rest \<and> (rest = [] \<longrightarrow> r \<le> q) \<and> (rest \<noteq> [] \<longrightarrow> q < r \<or> q = r \<and> id_key rest < [1, 0, 1])"
    using assms
  proof (induction p arbitrary: m rule: id_key.induct)
    case (1 a b p)
    from "1.prems"(1) show ?case
    proof (cases rule: small_id_cases)
      case (Cons x y rest)
      have "rest \<noteq> []" "x = a" "y = b" "id_key (p @ [n, r]) \<le> id_key rest" "id_key rest < id_key (p @ [n, r, 1, 1])"
        using "1.prems"(3,4) Cons(1) by (auto simp: less_le_not_le split: if_splits)
      with "1.IH" [of rest] Cons(1,2) "1.prems"(2) show ?thesis by auto
    qed (use "1.prems"(3) in auto)
  next
    case "2_1"
    from "2_1.prems"(1) show ?case
      by (cases rule: small_id_cases) (use "2_1.prems"(3,4) in \<open>auto split: if_splits\<close>)
  qed auto
  with that show thesis by auto
qed

lemma id_key_prefix: "even (length p) \<Longrightarrow> xs \<noteq> [] \<Longrightarrow> ys \<noteq> [] \<Longrightarrow>
  id_key (p @ xs) < id_key (p @ ys) \<longleftrightarrow> id_key xs < id_key ys"
  by (induction p rule: id_key.induct) auto

lemma branches_up_to_mem:
  "x \<in> set (branches_up_to (p @ [n, r]) ids) \<longleftrightarrow> (\<exists>u b rest. x = [u, b] \<and> p @ n # u # b # rest \<in> set ids \<and> u \<le> r)"
proof
  assume "x \<in> set (branches_up_to (p @ [n, r]) ids)"
  then obtain i where i: "i \<in> set ids" "Suc (Suc (length p)) < length i" "p @ [n] = take (Suc (length p)) i"
      "i ! Suc (length p) \<le> r" "x = take 2 (drop (Suc (length p)) i)"
    by (auto simp: branches_up_to_def butlast_append)
  have "2 \<le> length (drop (Suc (length p)) i)" using i(2) by simp
  then obtain u b rest where d: "drop (Suc (length p)) i = u # b # rest"
    by (cases "drop (Suc (length p)) i" rule: id_key.cases) simp_all
  have "i = p @ n # u # b # rest" using append_take_drop_id [of "Suc (length p)" i] unfolding i(3) [symmetric] d by simp
  moreover have "i ! Suc (length p) = u" using calculation by (simp add: nth_append)
  ultimately show "\<exists>u b rest. x = [u, b] \<and> p @ n # u # b # rest \<in> set ids \<and> u \<le> r" using i d by auto
next
  assume "\<exists>u b rest. x = [u, b] \<and> p @ n # u # b # rest \<in> set ids \<and> u \<le> r"
  then obtain u b rest where "x = [u, b]" "p @ n # u # b # rest \<in> set ids" "u \<le> r" by auto
  then show "x \<in> set (branches_up_to (p @ [n, r]) ids)"
    by (auto simp: branches_up_to_def butlast_append nth_append intro!: image_eqI [of _ _ "p @ n # u # b # rest"])
qed

lemma last_sort_Max:
  assumes "x \<in> set xs" and "\<And>y. y \<in> set xs \<Longrightarrow> y \<le> x"
  shows "last (sort xs) = x"
proof -
  have ne: "sort xs \<noteq> []" using assms(1) by (metis empty_iff empty_set set_sort)
  then have "sorted (butlast (sort xs) @ [last (sort xs)])" by simp
  moreover have "x \<in> set (butlast (sort xs) @ [last (sort xs)])" using ne assms(1) by simp
  ultimately have "x \<le> last (sort xs)" by (auto simp: sorted_append simp del: append_butlast_last_id)
  moreover have "last (sort xs) \<le> x" using ne assms(2) by (metis last_in_set set_sort)
  ultimately show ?thesis by simp
qed

lemma node_ids_mem:
  assumes "nodes_inv v" and "key_ok i"
  shows "fmlookup (ft_tab v Nodes) (id_text i) = None \<longleftrightarrow> i \<notin> set (node_ids v)"
proof -
  have keys: "set (table_keys Nodes v) = fset (fmdom (ft_tab v Nodes))" by (simp add: table_keys_def)
  have "i \<in> set (node_ids v) \<longleftrightarrow> id_text i \<in> set (table_keys Nodes v)"
    using assms(1) key_ok_text(3) [OF assms(2)] by (force simp: node_ids_def nodes_inv_def)
  then show ?thesis unfolding keys by (auto simp: fmlookup_dom_iff)
qed

lemma node_id_split:
  assumes "node_id nid"
  obtains p n r where "nid = p @ [n, r]" and "even (length p)"
proof -
  have ne: "nid \<noteq> []" "even (length nid)" using assms by (simp_all add: node_id_def)
  then have "butlast nid \<noteq> []" by (cases nid) auto
  then have "nid = butlast (butlast nid) @ [last (butlast nid), last nid]"
    using append_butlast_last_id [OF ne(1)] append_butlast_last_id [of "butlast nid"]
    by (metis append.assoc append_Cons append_Nil)
  moreover have "even (length (butlast (butlast nid)))" using ne by simp
  ultimately show thesis by (rule that)
qed

lemma next_branch_spec:
  assumes "node_id (p @ [n, r])" and "even (length p)" and "nodes_inv v" and "p @ [n, r + 1] \<in> set (node_ids v)"
    and m: "m \<in> set (node_ids v)" "id_key m < id_key (p @ [n, r + 1, 1, 1])"
      "\<And>i. i \<in> set (node_ids v) \<Longrightarrow> id_key i < id_key (p @ [n, r + 1, 1, 1]) \<Longrightarrow> id_key i \<le> id_key m"
  defines "new_id \<equiv> successor_of (node_ids v) (p @ [n, r])"
  shows "next_branch (p @ [n, r]) m = Ok new_id \<and> new_id \<notin> set (node_ids v)"
proof -
  let ?ids = "node_ids v" and ?B = "branches_up_to (p @ [n, r]) (node_ids v)"
  have node: "node_id m" using m(1) assms(3) by (auto simp: node_ids_def nodes_inv_def)
  then have mk: "key_ok m" by (rule node_id_key_ok)
  have nk: "key_ok (p @ [n, r])" using assms(1) by (rule node_id_key_ok)
  have "id_key (p @ [n, r + 1]) < id_key (p @ [n, r + 1, 1, 1])" using assms(2) by (simp add: id_key_prefix)
  then have low: "id_key (p @ [n, r + 1]) \<le> id_key m" by (rule m(3) [OF assms(4)])
  obtain q rest where q: "m = p @ n # q # rest" "rest = [] \<Longrightarrow> r + 1 \<le> q"
      "rest \<noteq> [] \<Longrightarrow> q < r + 1 \<or> q = r + 1 \<and> id_key rest < [1, 0, 1]"
    using between_prefix [OF key_ok_small [OF mk] assms(2) low m(2)] by metis
  have below: "id_key (n # u # b # rest') \<le> id_key (n # q # rest)" if "p @ n # u # b # rest' \<in> set ?ids" "u \<le> r" for u b rest'
  proof -
    have "id_key (p @ n # u # b # rest') < id_key (p @ [n, r + 1, 1, 1])" using that(2) assms(2) by (subst id_key_prefix) simp_all
    from m(3) [OF that(1) this] show ?thesis using assms(2) q(1) id_key_prefix [of p "n # q # rest" "n # u # b # rest'"]
      by (simp add: not_less [symmetric])
  qed
  show ?thesis
  proof (cases rest)
    case Nil
    have "x \<notin> set ?B" for x using below branches_up_to_mem [of x p n r ?ids] Nil by (auto simp: less_le_not_le)
    then have "?B = []" by (metis list.set_intros(1) neq_Nil_conv)
    moreover from this have "p @ [n, r, 1, 1] \<notin> set ?ids" using branches_up_to_mem [of "[r, 1]" p n r ?ids] by auto
    ultimately show ?thesis using assms(4) id_length_key_ok [OF mk] id_length_key_ok [OF nk] q(1) Nil assms(2)
      by (simp add: next_branch_def new_id_def successor_of_def butlast_append)
  next
    case (Cons b cs)
    have "even (length (b # cs))" using mk q(1) assms(2) Cons by (simp add: key_ok_def)
    then obtain c rest' where rest: "rest = b # c # rest'" using Cons by (cases cs) auto
    have "set (drop (2 + length p) m) \<subseteq> set (drop 2 m)" by (rule set_drop_subset_set_drop) simp
    then have "\<forall>c \<in> set rest. 1 \<le> c" using node unfolding q(1) node_id_def by (auto simp: numeral_2_eq_2)
    moreover have "small_id rest" using key_ok_small [OF mk] q(1) assms(2) by (auto simp: small_id_def)
    ultimately have "q \<le> r" using q(3) id_key_branch_ge [of rest] Cons by auto
    then have mem: "[q, b] \<in> set ?B" using m(1) q(1) rest branches_up_to_mem [of _ p n r ?ids] by auto
    have le: "y \<le> [q, b]" if y: "y \<in> set ?B" for y
    proof -
      obtain u b' rest'' where y': "y = [u, b']" "p @ n # u # b' # rest'' \<in> set ?ids" "u \<le> r"
        using y branches_up_to_mem [of y p n r ?ids] by auto
      from below [OF y'(2,3)] rest show ?thesis unfolding y'(1)
        by (cases rest''; auto simp: less_le_not_le split: if_splits)
    qed
    have last: "last (sort ?B) = [q, b]" by (rule last_sort_Max [OF mem le])
    have fresh: "p @ [n, q, b + 1, 1] \<notin> set ?ids"
      using le [of "[q, b + 1]"] branches_up_to_mem [of "[q, b + 1]" p n r ?ids] \<open>q \<le> r\<close> by auto
    have "sort ?B \<noteq> []" using mem by (metis empty_iff empty_set set_sort)
    with last fresh mem show ?thesis using assms(4) id_length_key_ok [OF mk] id_length_key_ok [OF nk] q(1) rest assms(2) mk
      by (simp add: next_branch_def new_id_def successor_of_def butlast_append nth_append key_ok_def Let_def)
  qed
qed

lemma new_successor_id_ref:
  assumes "nodes_inv v" and "node_id nid"
  defines "new_id \<equiv> successor_of (node_ids v) nid"
  shows "svn_fs__new_successor_id ref_db nid v = Ok (new_id, v) \<and> new_id \<notin> set (node_ids v)"
proof -
  obtain p n r where nid: "nid = p @ [n, r]" and p: "even (length p)" using node_id_split [OF assms(2)] .
  let ?new = "p @ [n, r + 1]"
  have ok: "key_ok ?new" "key_ok (?new @ [1, 1])" and nk: "key_ok nid"
    using assms(2) nid by (auto simp: node_id_def key_ok_def)
  note len = id_length_key_ok [OF nk]
  have upd: "(take (length nid) nid)[length nid - 1 := nid ! (length nid - 1) + 1] = ?new"
    by (simp add: nid list_update_append nth_append)
  show ?thesis
  proof (cases "?new \<in> set (node_ids v)")
    case False
    then have "fmlookup (ft_tab v Nodes) (id_text ?new) = None" using node_ids_mem [OF assms(1) ok(1)] by simp
    then show ?thesis using False p nid key_ok_text(1) [OF ok(1)]
      unfolding svn_fs__new_successor_id_def Let_def len upd
      by (simp add: Let_def trail_defs new_id_def successor_of_def butlast_append)
  next
    case True
    then obtain x where x: "fmlookup (ft_tab v Nodes) (id_text ?new) = Some x"
      using node_ids_mem [OF assms(1) ok(1)] by auto
    have lt: "id_key ?new < id_key (?new @ [1, 1])" using p by (simp add: id_key_prefix)
    obtain m where m: "last_key_before ref_db Nodes (id_text (?new @ [1, 1])) v = Ok (DB_ok (id_text m), v)"
        "m \<in> set (node_ids v)" "id_key m < id_key (?new @ [1, 1])"
        "\<And>i. i \<in> set (node_ids v) \<Longrightarrow> id_key i < id_key (?new @ [1, 1]) \<Longrightarrow> id_key i \<le> id_key m"
      using last_key_before_ref [OF assms(1) ok(2) True lt] by metis
    have mk: "key_ok m" using m(2) assms(1) node_id_key_ok by (auto simp: node_ids_def nodes_inv_def)
    have "next_branch nid m = Ok new_id \<and> new_id \<notin> set (node_ids v)"
      unfolding new_id_def nid by (rule next_branch_spec) (use assms(1,2) p nid True m in auto)
    moreover have "svn_fs__new_successor_id ref_db nid v =
        svn_bind (next_branch nid m) (\<lambda>i. Ok (i, v))"
      using x p nid m(1) key_ok_text(1) [OF ok(1)] key_ok_text(1) [OF ok(2)] key_ok_text(2) [OF mk]
      unfolding svn_fs__new_successor_id_def Let_def len upd
      by (simp add: Let_def trail_defs)
    ultimately show ?thesis by simp
  qed
qed

section \<open>Node revisions in the table\<close>

lemma is_atom_norm [simp]: "is_atom (skel_norm x) = is_atom x"
  by (cases x) simp_all

lemma matches_atom_norm [simp]: "svn_fs__matches_atom (Some (skel_norm x)) str = svn_fs__matches_atom (Some x) str"
  by (cases x) simp_all

lemma is_valid_option_norm [simp]: "is_valid_option (skel_norm x) = is_valid_option x"
  by (cases x rule: is_valid_option.cases) simp_all

lemma is_valid_header_norm [simp]: "is_valid_header (skel_norm x) = map_option skel_norm (is_valid_header x)"
  by (cases x rule: is_valid_header.cases) (simp_all add: list_all_length)

lemma is_mutable_header_norm [simp]: "is_mutable_header (skel_norm x) = is_mutable_header x"
  by (cases x rule: is_mutable_header.cases) simp_all

lemma is_valid_node_revision_norm [simp]: "is_valid_node_revision (skel_norm x) = is_valid_node_revision x"
proof (cases x)
  case (skel_list body children)
  then show ?thesis
    by (cases children) (auto simp: is_valid_node_revision_def split: option.split)
qed (simp add: is_valid_node_revision_def)

lemma set_table_keys: "set (table_keys T v) = fset (fmdom (ft_tab v T))"
  by (simp add: table_keys_def)

lemma nodes_inv_put: "nodes_inv v \<Longrightarrow> node_id nid \<Longrightarrow> nodes_inv (put_tab Nodes (id_text nid) x v)"
  using key_ok_text(3) [OF node_id_key_ok] by (auto simp: nodes_inv_def set_table_keys)

lemma put_node_revision_ref:
  assumes "key_ok nid" and "is_valid_node_revision skel" and "length (skel_text skel) < 2 ^ 32"
  shows "svn_fs__put_node_revision ref_db nid skel v = Ok ((), put_tab Nodes (id_text nid) (skel_text skel) v)"
  using assms(2) key_ok_text(1) [OF assms(1)] skel_to_dbt_text(1) [OF assms(3)]
  by (simp add: svn_fs__put_node_revision_def trail_defs)

text \<open>The node revision that is read for a key.\<close>

definition node_rec :: "fs_tables \<Rightarrow> svn_fs_id_t \<Rightarrow> skel_t svn_result" where
  "node_rec v nid =
     (case fmlookup (ft_tab v Nodes) (id_text nid) of
        None \<Rightarrow> Err SVN_ERR_FS_ID_NOT_FOUND
      | Some d \<Rightarrow>
          (case svn_fs__parse_skel d of
             None \<Rightarrow> Err SVN_ERR_FS_CORRUPT
           | Some skel \<Rightarrow> if is_valid_node_revision skel then Ok skel else Err SVN_ERR_FS_CORRUPT))"

lemma get_node_revision_ref:
  "key_ok nid \<Longrightarrow> svn_fs__get_node_revision ref_db nid v = svn_bind (node_rec v nid) (\<lambda>skel. Ok (skel, v))"
  using key_ok_text(1) [of nid]
  by (simp add: svn_fs__get_node_revision_def trail_defs node_rec_def of_option_def split: option.split)

lemma get_node_revision_result:
  assumes "bdb_laws db view" and "key_ok nid"
  shows "trail_result (svn_fs__get_node_revision db nid) s = node_rec (view s) nid"
  using refines_result [OF refines_get_node_revision [OF assms(1)], of nid s] get_node_revision_ref [OF assms(2), of "view s"]
  by (cases "node_rec (view s) nid") (simp_all add: trail_result_def)

lemma id_text_inj: "key_ok a \<Longrightarrow> key_ok b \<Longrightarrow> id_text a = id_text b \<longleftrightarrow> a = b"
  using key_ok_text(3) by metis

lemma node_rec_put:
  assumes "key_ok nid" and "key_ok nid'" and "is_valid_node_revision skel" and "length (skel_text skel) < 2 ^ 32"
  shows "node_rec (put_tab Nodes (id_text nid) (skel_text skel) v) nid' =
    (if nid' = nid then Ok (skel_norm skel) else node_rec v nid')"
  using assms(3) skel_to_dbt_text(2) [OF assms(4)] id_text_inj [OF assms(1,2)] by (auto simp: node_rec_def)

lemma node_rec_frame [simp]:
  "T \<noteq> Nodes \<Longrightarrow> node_rec (put_tab T k x v) nid = node_rec v nid"
  "node_rec (set_str k rs v) nid = node_rec v nid"
  "T \<noteq> Nodes \<Longrightarrow> node_rec (del_tab T k v) nid = node_rec v nid"
  "node_rec (put_rev_rec n x v) nid = node_rec v nid"
  by (simp_all add: node_rec_def)

lemma new_node_id_ref:
  assumes "nodes_inv v" and "node_ids v \<noteq> []"
  obtains n where "svn_fs__new_node_id ref_db v = Ok ([n + 1, 1], v)" and "\<exists>i \<in> set (node_ids v). hd i = n"
    and "\<forall>i \<in> set (node_ids v). hd i \<le> n"
proof -
  let ?K = "table_keys Nodes v" and ?f = "\<lambda>k. id_key (key_id k)"
  have ok: "key_ok (key_id k) \<and> id_text (key_id k) = k" if "k \<in> set ?K" for k
    using that assms(1) node_id_key_ok by (auto simp: nodes_inv_def)
  have cmp: "key_cmp Nodes a b < 0 \<longleftrightarrow> ?f a < ?f b" if "a \<in> set ?K" "b \<in> set ?K" for a b
    using nodes_cmp [of "key_id a" "key_id b"] ok [OF that(1)] ok [OF that(2)] by simp
  obtain m where m: "last_of (key_cmp Nodes) ?K = DB_ok m" "m \<in> set ?K" "\<And>x. x \<in> set ?K \<Longrightarrow> ?f x \<le> ?f m"
    using last_of_max [of ?K "key_cmp Nodes" ?f] cmp assms(2) by (auto simp: node_ids_def)
  let ?m = "key_id m"
  have mk: "key_ok ?m" "id_text ?m = m" using ok m(2) by auto
  have long: "\<exists>x y ys. i = x # y # ys" if "key_ok i" for i using that by (cases i rule: id_key.cases) (auto simp: key_ok_def)
  have "svn_fs__new_node_id ref_db v = Ok ([hd ?m + 1, 1], v)"
    using m(1) key_ok_text(2) [OF mk(1)] mk(2) id_length_key_ok [OF mk(1)] long [OF mk(1)]
    by (auto simp: svn_fs__new_node_id_def trail_defs)
  moreover have "?m \<in> set (node_ids v)" using m(2) by (simp add: node_ids_def)
  moreover have "hd i \<le> hd ?m" if i: "i \<in> set (node_ids v)" for i
  proof -
    obtain k where "k \<in> set ?K" "i = key_id k" using i by (auto simp: node_ids_def)
    with m(3) [of k] long [of i] long [OF mk(1)] ok [of k] show ?thesis by (auto simp: less_le_not_le split: if_splits)
  qed
  ultimately show thesis using that by blast
qed

text \<open>
  C16. On every database that works as documented, the id of the successor of a node revision is the
  one of \<open>successor_of\<close> and is not in use: the next revision of the node if that is free; otherwise a
  new branch, with the number after the last branch of the last revision up to this one that has
  branches, and \<open>1.1\<close> below the revision itself when none has.
\<close>

theorem new_successor_id_spec:
  assumes "bdb_laws db view" and "nodes_inv (view s)" and "node_id nid"
  defines "new_id \<equiv> successor_of (node_ids (view s)) nid"
  shows "trail_result (svn_fs__new_successor_id db nid) s = Ok new_id \<and> new_id \<notin> set (node_ids (view s))"
  using new_successor_id_ref [OF assms(2,3)]
  unfolding refines_result [OF refines_new_successor_id [OF assms(1)]] new_id_def
  by (simp add: trail_result_def)

definition three_revisions :: fs_tables where
  "three_revisions =
     put_tab Nodes ''7.1'' [] (put_tab Nodes ''7.2'' [] (put_tab Nodes ''7.3'' [] (put_tab Nodes ''7.1.1.1'' [] new_tables)))"

lemma three_revisions_inv: "nodes_inv three_revisions" "set (node_ids three_revisions) = {[7, 1], [7, 2], [7, 3], [7, 1, 1, 1]}"
proof -
  have keys: "set (table_keys Nodes three_revisions) = {''7.1'', ''7.2'', ''7.3'', ''7.1.1.1''}"
    by (simp add: set_table_keys three_revisions_def new_tables_def)
  have ids: "key_id ''7.1'' = [7, 1]" "key_id ''7.2'' = [7, 2]" "key_id ''7.3'' = [7, 3]" "key_id ''7.1.1.1'' = [7, 1, 1, 1]"
    by code_simp+
  show "set (node_ids three_revisions) = {[7, 1], [7, 2], [7, 3], [7, 1, 1, 1]}" by (simp add: node_ids_def keys ids)
  have "id_text [7, 1] = ''7.1''" "id_text [7, 2] = ''7.2''" "id_text [7, 3] = ''7.3''" "id_text [7, 1, 1, 1] = ''7.1.1.1''"
    by code_simp+
  then show "nodes_inv three_revisions" by (simp add: nodes_inv_def keys ids node_id_def)
qed

lemma branches_up_to_set:
  "set ids = set ids' \<Longrightarrow> set (branches_up_to nid ids) = set (branches_up_to nid ids')"
  by (auto simp: branches_up_to_def)

text \<open>The second revision has no branch: its new branch is taken for one of the first.\<close>

theorem new_successor_id_spec_witness:
  "trail_result (svn_fs__new_successor_id ref_db [7, 2]) three_revisions = Ok [7, 1, 2, 1]"
proof -
  let ?ids = "node_ids three_revisions"
  have "set (branches_up_to [7, 2] ?ids) = {[1, 1]}"
    using branches_up_to_set [of ?ids "[[7, 1], [7, 2], [7, 3], [7, 1, 1, 1]]" "[7, 2]"] three_revisions_inv(2)
    by (simp add: branches_up_to_def numeral_eq_Suc)
  then have b: "set (sort (branches_up_to [7, 2] ?ids)) = {[1, 1]}" by simp
  then have "sort (branches_up_to [7, 2] ?ids) \<noteq> []" by (metis empty_set insert_not_empty)
  moreover from this have "last (sort (branches_up_to [7, 2] ?ids)) = [1, 1]" using b last_in_set by blast
  ultimately have "successor_of ?ids [7, 2] = [7, 1, 2, 1]"
    using three_revisions_inv(2) by (simp add: successor_of_def)
  moreover have "node_id [7, 2]" by (simp add: node_id_def)
  ultimately show ?thesis
    using new_successor_id_spec [of ref_db id three_revisions "[7, 2]", OF bdb_laws_ref] three_revisions_inv(1) by simp
qed

text \<open>
  C17. On every database that works as documented: storing a successor gives an id that was not in use,
  under which the skel that was stored is read; every other node revision is read as before, and the
  keys of the table stay well-formed.
\<close>

theorem create_successor_read:
  assumes "bdb_laws db view" and "nodes_inv (view s)" and "node_id nid" and "is_valid_node_revision skel"
    and "length (skel_text skel) < 2 ^ 32"
    and "node_id (successor_of (node_ids (view s)) nid)"
  shows "\<exists>new_id s1. svn_fs__create_successor db nid skel s = Ok (new_id, s1) \<and> nodes_inv (view s1) \<and>
    new_id \<notin> set (node_ids (view s)) \<and>
    trail_result (svn_fs__get_node_revision db new_id) s1 = Ok (skel_norm skel) \<and>
    (\<forall>i. node_id i \<and> i \<noteq> new_id \<longrightarrow>
       trail_result (svn_fs__get_node_revision db i) s1 = trail_result (svn_fs__get_node_revision db i) s)"
proof -
  let ?new = "successor_of (node_ids (view s)) nid"
  let ?v = "put_tab Nodes (id_text ?new) (skel_text skel) (view s)"
  note ids = new_successor_id_ref [OF assms(2,3)] and nk = node_id_key_ok [OF assms(6)]
  have "svn_fs__create_successor ref_db nid skel (view s) = Ok (?new, ?v)"
    using ids put_node_revision_ref [OF nk assms(4,5)] by (simp add: svn_fs__create_successor_def tbind_def tret_def)
  then obtain s1 where s1: "svn_fs__create_successor db nid skel s = Ok (?new, s1)" "view s1 = ?v"
    using refines_Ok [OF refines_create_successor [OF assms(1)]] by blast
  note read = get_node_revision_result [OF assms(1)]
  have "trail_result (svn_fs__get_node_revision db i) s1 =
      (if i = ?new then Ok (skel_norm skel) else trail_result (svn_fs__get_node_revision db i) s)" if "key_ok i" for i
    by (simp add: read that nk s1(2) node_rec_put [OF nk that assms(4,5)] del: id_text.simps)
  then show ?thesis using s1 ids nodes_inv_put [OF assms(2,6)] nk node_id_key_ok by auto
qed

theorem create_successor_read_witness:
  "\<exists>s1. svn_fs__create_successor ref_db [7, 3] (skel_list [] [skel_list [] [skel_atom ''dir'', skel_atom []], skel_atom [], skel_atom []]) three_revisions = Ok ([7, 4], s1) \<and>
    trail_result (svn_fs__get_node_revision ref_db [7, 4]) s1 =
      Ok (skel_list ''((dir 0 ) 0  0 )'' [skel_list ''(dir 0 )'' [skel_atom ''dir'', skel_atom []], skel_atom [], skel_atom []])"
proof -
  let ?skel = "skel_list [] [skel_list [] [skel_atom ''dir'', skel_atom []], skel_atom [], skel_atom []]"
  have t: "skel_text ?skel = ''((dir 0 ) 0  0 )''" by code_simp
  have n: "skel_norm ?skel = skel_list ''((dir 0 ) 0  0 )'' [skel_list ''(dir 0 )'' [skel_atom ''dir'', skel_atom []], skel_atom [], skel_atom []]"
    by code_simp
  have valid: "is_valid_node_revision ?skel" by code_simp
  have succ: "successor_of (node_ids three_revisions) [7, 3] = [7, 4]" using three_revisions_inv(2) by (simp add: successor_of_def)
  have "\<exists>new_id s1. svn_fs__create_successor ref_db [7, 3] ?skel three_revisions = Ok (new_id, s1) \<and> nodes_inv (id s1) \<and>
    new_id \<notin> set (node_ids (id three_revisions)) \<and>
    trail_result (svn_fs__get_node_revision ref_db new_id) s1 = Ok (skel_norm ?skel) \<and>
    (\<forall>i. node_id i \<and> i \<noteq> new_id \<longrightarrow>
       trail_result (svn_fs__get_node_revision ref_db i) s1 = trail_result (svn_fs__get_node_revision ref_db i) three_revisions)"
    by (rule create_successor_read [OF bdb_laws_ref])
      (use three_revisions_inv(1) t valid succ in \<open>simp_all add: node_id_def\<close>)
  moreover have "svn_fs__create_successor ref_db [7, 3] ?skel three_revisions = Ok (i, s1) \<Longrightarrow> i = [7, 4]" for i s1
    using new_successor_id_ref [OF three_revisions_inv(1), of "[7, 3]"] succ
    by (auto simp: svn_fs__create_successor_def tbind_def tret_def node_id_def svn_bind_Ok_iff)
  ultimately show ?thesis using n by metis
qed

text \<open>
  On every database that works as documented, a new node gets the node number after the greatest in
  use and revision 1, and is read back; the other node revisions are read as before.
\<close>

lemma create_node_read:
  assumes "bdb_laws db view" and "nodes_inv (view s)" and "node_ids (view s) \<noteq> []" and "is_valid_node_revision skel"
    and "length (skel_text skel) < 2 ^ 32" and "\<forall>i \<in> set (node_ids (view s)). hd i < 99999999"
  shows "\<exists>n s1. svn_fs__create_node db skel s = Ok ([n, 1], s1) \<and> nodes_inv (view s1) \<and>
    (\<forall>i \<in> set (node_ids (view s)). hd i < n) \<and>
    trail_result (svn_fs__get_node_revision db [n, 1]) s1 = Ok (skel_norm skel) \<and>
    (\<forall>i. node_id i \<and> i \<noteq> [n, 1] \<longrightarrow>
       trail_result (svn_fs__get_node_revision db i) s1 = trail_result (svn_fs__get_node_revision db i) s)"
proof -
  obtain n where n: "svn_fs__new_node_id ref_db (view s) = Ok ([n + 1, 1], view s)" "\<exists>i \<in> set (node_ids (view s)). hd i = n"
      "\<forall>i \<in> set (node_ids (view s)). hd i \<le> n" using new_node_id_ref [OF assms(2,3)] .
  let ?new = "[n + 1, 1]"
  let ?v = "put_tab Nodes (id_text ?new) (skel_text skel) (view s)"
  have "\<forall>i \<in> set (node_ids (view s)). 0 \<le> hd i" using assms(2) by (auto simp: node_ids_def nodes_inv_def node_id_def)
  then have new: "node_id ?new" using n(2) assms(6) by (force simp: node_id_def)
  note nk = node_id_key_ok [OF new]
  have "svn_fs__create_node ref_db skel (view s) = Ok (?new, ?v)"
    using n(1) put_node_revision_ref [OF nk assms(4,5)] by (simp add: svn_fs__create_node_def tbind_def tret_def)
  then obtain s1 where s1: "svn_fs__create_node db skel s = Ok (?new, s1)" "view s1 = ?v"
    using refines_Ok [OF refines_create_node [OF assms(1)]] by blast
  note read = get_node_revision_result [OF assms(1)]
  have "trail_result (svn_fs__get_node_revision db i) s1 =
      (if i = ?new then Ok (skel_norm skel) else trail_result (svn_fs__get_node_revision db i) s)" if "key_ok i" for i
    by (simp add: read that nk s1(2) node_rec_put [OF nk that assms(4,5)] del: id_text.simps)
  then show ?thesis using s1 n(3) nodes_inv_put [OF assms(2) new] nk node_id_key_ok by (intro exI [of _ "n + 1"]) auto
qed

end
