(* ===== verification/Fs_Trail.thy ===== *)
theory Fs_Trail
  imports Fs_Ref
begin

text \<open>
  Running the body of a trail in a database transaction (\<open>libsvn_fs/trail.c\<close>): a body that fails
  leaves no trace, and a body that deadlocks is run again.
\<close>

section \<open>Transactions\<close>

text \<open>
  What the documentation of Berkeley DB says of its transactions: beginning one changes nothing, a
  commit that succeeds keeps what the body did, and an abort that succeeds undoes everything that was
  done since the transaction began, wherever the body has stopped.  Every one of these calls may fail.
\<close>

definition txn_safe :: "'d bdb \<Rightarrow> ('d \<Rightarrow> 'v) \<Rightarrow> bool" where
  "txn_safe db view \<longleftrightarrow>
     (\<forall>s s'. txn_begin db s = DB_ok s' \<longrightarrow> view s' = view s) \<and>
     (\<forall>s s'. txn_commit db s = DB_ok s' \<longrightarrow> view s' = view s) \<and>
     (\<forall>s s'. txn_checkpoint db s = DB_ok s' \<longrightarrow> view s' = view s) \<and>
     (\<forall>e s s1 s2. txn_begin db s = DB_ok s1 \<longrightarrow> txn_abort db (txn_left db e s1) = DB_ok s2 \<longrightarrow> view s2 = view s)"

text \<open>A database on which none of these calls fails.\<close>

definition txn_laws :: "'d bdb \<Rightarrow> ('d \<Rightarrow> 'v) \<Rightarrow> bool" where
  "txn_laws db view \<longleftrightarrow> txn_safe db view \<and>
     (\<forall>s. (\<exists>s'. txn_begin db s = DB_ok s') \<and> (\<exists>s'. txn_commit db s = DB_ok s') \<and>
          (\<exists>s'. txn_checkpoint db s = DB_ok s') \<and> (\<exists>s'. txn_abort db s = DB_ok s'))"

lemma txn_laws_ref: "txn_laws ref_db id"
  by (simp add: txn_laws_def txn_safe_def ref_db_def)

lemma begin_trail_Ok: "begin_trail db s = Ok ((), s1) \<longleftrightarrow> txn_begin db s = DB_ok s1"
  by (simp add: begin_trail_def db_write_def split: db_result.split)

lemma abort_trail_Ok: "abort_trail db s = Ok ((), s1) \<longleftrightarrow> txn_abort db s = DB_ok s1"
  by (simp add: abort_trail_def db_write_def split: db_result.split)

lemma trail_steps:
  assumes "txn_laws db view"
  shows "\<exists>s'. begin_trail db s = Ok ((), s') \<and> view s' = view s"
    and "\<exists>s'. commit_trail db s = Ok ((), s') \<and> view s' = view s"
    and "begin_trail db s = Ok ((), s1) \<Longrightarrow> \<exists>s'. abort_trail db (txn_left db e s1) = Ok ((), s') \<and> view s' = view s"
proof -
  have safe: "txn_safe db view" and ok: "\<exists>s'. txn_begin db s = DB_ok s'" "\<exists>s'. txn_commit db s = DB_ok s'"
      "\<exists>s'. txn_checkpoint db s = DB_ok s'" "\<exists>s'. txn_abort db s = DB_ok s'" for s
    using assms by (auto simp: txn_laws_def)
  show "\<exists>s'. commit_trail db s = Ok ((), s') \<and> view s' = view s"
  proof -
    obtain s1 where s1: "txn_commit db s = DB_ok s1" "view s1 = view s" using ok(2) [of s] safe by (auto simp: txn_safe_def)
    obtain s2 where "txn_checkpoint db s1 = DB_ok s2" "view s2 = view s1" using ok(3) [of s1] safe by (auto simp: txn_safe_def)
    with s1 show ?thesis by (simp add: commit_trail_def tbind_def db_write_def)
  qed
  show "\<exists>s'. begin_trail db s = Ok ((), s') \<and> view s' = view s"
    using ok(1) [of s] safe by (auto simp: txn_safe_def begin_trail_Ok)
  show "\<exists>s'. abort_trail db (txn_left db e s1) = Ok ((), s') \<and> view s' = view s" if "begin_trail db s = Ok ((), s1)"
    using ok(4) [of "txn_left db e s1"] safe that unfolding begin_trail_Ok abort_trail_Ok txn_safe_def by metis
qed

section \<open>Attempts\<close>

text \<open>The state in which another attempt starts, after attempts that deadlocked.\<close>

inductive retried :: "'d bdb \<Rightarrow> ('d, 'a) trail \<Rightarrow> 'd \<Rightarrow> 'd \<Rightarrow> bool" for db body where
  first: "retried db body s s"
| again: "begin_trail db s = Ok ((), s1) \<Longrightarrow> body s1 = Err (SVN_ERR_BERKELEY_DB DB_LOCK_DEADLOCK) \<Longrightarrow>
    abort_trail db (txn_left db (SVN_ERR_BERKELEY_DB DB_LOCK_DEADLOCK) s1) = Ok ((), s2) \<Longrightarrow> retried db body s2 s' \<Longrightarrow>
    retried db body s s'"

lemma retry_txn_again: "retried db body s s' \<Longrightarrow> svn_fs__retry_txn db body s = svn_fs__retry_txn db body s'"
proof (induction rule: retried.induct)
  case (again s s1 s2 s')
  then show ?case by (subst svn_fs__retry_txn.simps) simp
qed simp

lemma retried_view: "retried db body s s' \<Longrightarrow> txn_safe db view \<Longrightarrow> view s' = view s"
proof (induction rule: retried.induct)
  case (again s s1 s2 s')
  then have "view s2 = view s" unfolding begin_trail_Ok abort_trail_Ok txn_safe_def by metis
  with again show ?case by simp
qed simp

text \<open>How a call can end in the database, and not in the body.\<close>

definition db_failed :: "'d bdb \<Rightarrow> ('d \<Rightarrow> 'v) \<Rightarrow> ('d, 'a) trail \<Rightarrow> 'd \<Rightarrow> db_errcode \<Rightarrow> 'd \<Rightarrow> bool" where
  "db_failed db view body s e s' \<longleftrightarrow>
     (\<exists>s0. view s0 = view s \<and>
       (txn_begin db s0 = DB_err e \<and> view s' = view s \<or>
        (\<exists>x s1. body s0 = Ok (x, s1) \<and>
           (txn_commit db s1 = DB_err e \<or> (\<exists>s2. txn_commit db s1 = DB_ok s2 \<and> txn_checkpoint db s2 = DB_err e))) \<or>
        body s0 = Err (SVN_ERR_BERKELEY_DB DB_LOCK_DEADLOCK) \<and>
          txn_abort db (txn_left db (SVN_ERR_BERKELEY_DB DB_LOCK_DEADLOCK) s0) = DB_err e))"

definition body_failed :: "'d bdb \<Rightarrow> ('d \<Rightarrow> 'v) \<Rightarrow> ('d, 'a) trail \<Rightarrow> 'd \<Rightarrow> svn_errcode \<Rightarrow> 'd \<Rightarrow> bool" where
  "body_failed db view body s e s' \<longleftrightarrow>
     e \<noteq> SVN_ERR_BERKELEY_DB DB_LOCK_DEADLOCK \<and>
     (\<exists>s0. view s0 = view s \<and> body s0 = Err e \<and>
        (view s' = view s \<or> (\<exists>e'. txn_abort db (txn_left db e s0) = DB_err e')))"

definition attempt_ends :: "'d bdb \<Rightarrow> ('d \<Rightarrow> 'v) \<Rightarrow> ('d, 'a) trail \<Rightarrow> 'd \<Rightarrow> 'a svn_result \<Rightarrow> 'd \<Rightarrow> bool" where
  "attempt_ends db view body s r s' \<longleftrightarrow>
     (case r of
        Ok x \<Rightarrow> \<exists>s0 s1. view s0 = view s \<and> body s0 = Ok (x, s1) \<and> view s' = view s1
      | Err e \<Rightarrow> body_failed db view body s e s' \<or> (\<exists>d. e = SVN_ERR_BERKELEY_DB d \<and> db_failed db view body s d s')
      | Abort \<Rightarrow> \<exists>s0. view s0 = view s \<and> body s0 = Abort)"

lemma attempt_ends_view: "view s2 = view s \<Longrightarrow> attempt_ends db view body s2 r s' = attempt_ends db view body s r s'"
  by (simp add: attempt_ends_def body_failed_def db_failed_def split: svn_result.split)

lemma attempt_cases:
  assumes "txn_safe db view" and "txn_begin db s = DB_ok s1"
  shows "body s1 = Ok (x, t) \<Longrightarrow> commit_trail db t = Ok ((), t') \<Longrightarrow> attempt_ends db view body s (Ok x) t'"
    and "body s1 = Ok (x, t) \<Longrightarrow> commit_trail db t = Err e \<Longrightarrow> attempt_ends db view body s (Err e) t'"
    and "body s1 = Err e \<Longrightarrow> e \<noteq> SVN_ERR_BERKELEY_DB DB_LOCK_DEADLOCK \<Longrightarrow>
      abort_trail db (txn_left db e s1) = Ok ((), t') \<or> (\<exists>e'. abort_trail db (txn_left db e s1) = Err e') \<Longrightarrow> attempt_ends db view body s (Err e) t'"
    and "body s1 = Err (SVN_ERR_BERKELEY_DB DB_LOCK_DEADLOCK) \<Longrightarrow>
      abort_trail db (txn_left db (SVN_ERR_BERKELEY_DB DB_LOCK_DEADLOCK) s1) = Err e' \<Longrightarrow> attempt_ends db view body s (Err e') t'"
    and "body s1 = Abort \<Longrightarrow> attempt_ends db view body s Abort t'"
proof -
  have v: "view s1 = view s" using assms by (simp add: txn_safe_def)
  show "attempt_ends db view body s (Ok x) t'" if b: "body s1 = Ok (x, t)" "commit_trail db t = Ok ((), t')"
  proof -
    obtain u where "txn_commit db t = DB_ok u" "txn_checkpoint db u = DB_ok t'"
      using b(2) by (auto simp: commit_trail_def tbind_def db_write_def split: db_result.splits)
    then have "view t' = view t" using assms(1) unfolding txn_safe_def by metis
    then show ?thesis using b(1) v by (auto simp: attempt_ends_def)
  qed
  show "attempt_ends db view body s (Err e) t'" if b: "body s1 = Ok (x, t)" "commit_trail db t = Err e"
  proof -
    obtain d where d: "e = SVN_ERR_BERKELEY_DB d" "txn_commit db t = DB_err d \<or> (\<exists>u. txn_commit db t = DB_ok u \<and> txn_checkpoint db u = DB_err d)"
      using b(2) by (auto simp: commit_trail_def tbind_def db_write_def split: db_result.splits)
    then have "db_failed db view body s d t'" using b(1) v unfolding db_failed_def by blast
    then show ?thesis using d(1) by (simp add: attempt_ends_def)
  qed
  show "attempt_ends db view body s (Err e) t'" if "body s1 = Err e" "e \<noteq> SVN_ERR_BERKELEY_DB DB_LOCK_DEADLOCK"
    "abort_trail db (txn_left db e s1) = Ok ((), t') \<or> (\<exists>e'. abort_trail db (txn_left db e s1) = Err e')"
  proof -
    have "view t' = view s \<or> (\<exists>e'. txn_abort db (txn_left db e s1) = DB_err e')" using that(3)
    proof
      assume "abort_trail db (txn_left db e s1) = Ok ((), t')"
      then show ?thesis using assms unfolding abort_trail_Ok txn_safe_def by metis
    qed (auto simp: abort_trail_def db_write_def split: db_result.splits)
    then show ?thesis using that(1,2) v by (auto simp: attempt_ends_def body_failed_def)
  qed
  show "attempt_ends db view body s (Err e') t'" if b: "body s1 = Err (SVN_ERR_BERKELEY_DB DB_LOCK_DEADLOCK)"
    "abort_trail db (txn_left db (SVN_ERR_BERKELEY_DB DB_LOCK_DEADLOCK) s1) = Err e'"
  proof -
    obtain d where "e' = SVN_ERR_BERKELEY_DB d" "txn_abort db (txn_left db (SVN_ERR_BERKELEY_DB DB_LOCK_DEADLOCK) s1) = DB_err d"
      using b(2) by (auto simp: abort_trail_def db_write_def split: db_result.splits)
    then show ?thesis using b(1) v by (auto simp: attempt_ends_def db_failed_def)
  qed
  show "attempt_ends db view body s Abort t'" if "body s1 = Abort" using that v by (auto simp: attempt_ends_def)
qed

lemma retry_txn_ends:
  assumes "svn_fs__retry_txn db body s = Some y" and "txn_safe db view"
  shows "attempt_ends db view body s (fst y) (snd y)"
  using assms
proof (induction rule: svn_fs__retry_txn.raw_induct [rotated 1, consumes 1, case_names step])
  case (step rec db body s y)
  show ?case
  proof (cases "txn_begin db s")
    case (DB_err d)
    then have "y = (Err (SVN_ERR_BERKELEY_DB d), s)" using step.hyps by (simp add: begin_trail_def db_write_def)
    then show ?thesis using DB_err by (auto simp: attempt_ends_def db_failed_def)
  next
    case (DB_ok s1)
    note c = attempt_cases [OF step.prems DB_ok, of body] and s1 = DB_ok [folded begin_trail_Ok]
    show ?thesis
    proof (cases "body s1")
      case (Ok p)
      obtain x t where p: "p = (x, t)" by (cases p)
      show ?thesis
      proof (cases "commit_trail db t")
        case k: (Ok q)
        then obtain t' where "q = ((), t')" by (cases q) auto
        then show ?thesis using step.hyps s1 Ok p k c(1) by auto
      next
        case k: (Err e)
        then show ?thesis using step.hyps s1 Ok p c(2) by auto
      qed (auto simp: commit_trail_def tbind_def db_write_def split: db_result.splits)
    next
      case (Err e)
      have ab: "abort_trail db u \<noteq> Abort" for u by (simp add: abort_trail_def db_write_def split: db_result.split)
      show ?thesis
      proof (cases "\<exists>s2. e = SVN_ERR_BERKELEY_DB DB_LOCK_DEADLOCK \<and> abort_trail db (txn_left db e s1) = Ok ((), s2)")
        case True
        then obtain s2 where s2: "e = SVN_ERR_BERKELEY_DB DB_LOCK_DEADLOCK" "abort_trail db (txn_left db e s1) = Ok ((), s2)" by blast
        then have "rec db body s2 = Some y" using step.hyps s1 Err by simp
        moreover have "view s2 = view s" using step.prems s1 s2(2) unfolding begin_trail_Ok abort_trail_Ok txn_safe_def by metis
        ultimately show ?thesis using step.IH [OF _ step.prems, of body s2] attempt_ends_view [of view s2 s db body "fst y" "snd y"] by simp
      next
        case False
        show ?thesis
        proof (cases "abort_trail db (txn_left db e s1)")
          case a: (Ok q)
          then obtain s2 where q: "q = ((), s2)" by (cases q) auto
          then have ne: "e \<noteq> SVN_ERR_BERKELEY_DB DB_LOCK_DEADLOCK" using False a by blast
          then have "y = (Err e, s2)" using step.hyps s1 Err a q by simp
          then show ?thesis using c(3) [OF Err ne, of s2] a q by simp
        next
          case a: (Err e')
          show ?thesis
          proof (cases "e = SVN_ERR_BERKELEY_DB DB_LOCK_DEADLOCK")
            case True
            then have "y = (Err e', txn_left db e s1)" using step.hyps s1 Err a by simp
            then show ?thesis using c(4) [of e' "txn_left db e s1"] Err a True by simp
          next
            case ne: False
            then have "y = (Err e, txn_left db e s1)" using step.hyps s1 Err a by simp
            then show ?thesis using c(3) [OF Err ne, of "txn_left db e s1"] a by simp
          qed
        qed (use ab in blast)
      qed
    next
      case Abort
      then show ?thesis using step.hyps s1 c(5) by auto
    qed
  qed
qed

text \<open>On a database on which no call fails.\<close>

definition all_or_nothing :: "('d \<Rightarrow> 'v) \<Rightarrow> ('d, 'a) trail \<Rightarrow> 'd \<Rightarrow> 'a svn_result \<Rightarrow> 'd \<Rightarrow> bool" where
  "all_or_nothing view body s r s' \<longleftrightarrow>
     (case r of
        Ok x \<Rightarrow> \<exists>s0 s1. view s0 = view s \<and> body s0 = Ok (x, s1) \<and> view s' = view s1
      | Err e \<Rightarrow> view s' = view s \<and> e \<noteq> SVN_ERR_BERKELEY_DB DB_LOCK_DEADLOCK \<and> (\<exists>s0. view s0 = view s \<and> body s0 = Err e)
      | Abort \<Rightarrow> \<exists>s0. view s0 = view s \<and> body s0 = Abort)"

lemma retry_txn_all_or_nothing:
  assumes "svn_fs__retry_txn db body s = Some y" and "txn_laws db view"
  shows "all_or_nothing view body s (fst y) (snd y)"
proof -
  have "txn_begin db u \<noteq> DB_err e" "txn_commit db u \<noteq> DB_err e" "txn_checkpoint db u \<noteq> DB_err e" "txn_abort db u \<noteq> DB_err e" for u e
    using assms(2) unfolding txn_laws_def by (metis db_result.distinct(1))+
  then show ?thesis using retry_txn_ends [OF assms(1), of view] assms(2)
    by (auto simp: attempt_ends_def all_or_nothing_def body_failed_def db_failed_def txn_laws_def split: svn_result.splits)
qed

section \<open>Properties\<close>

text \<open>
  C3. Whatever the body does and however often it deadlocks, on a database whose transactions are as
  documented and whose calls may all fail: when \<open>svn_fs__retry_txn\<close> returns, it either returns the result
  of a run of the body that started from the tables as they were, and keeps exactly what that run did;
  or it returns an error of such a run, which is not a deadlock, and the tables are as they were, wherever
  the body has left them, unless the abort itself has failed; or it returns the error of the database that
  could not begin (the tables are as they were), commit or checkpoint what the body had done, or undo a deadlocked
  run.
\<close>

theorem retry_txn_atomic:
  assumes "txn_safe db view" and "svn_fs__retry_txn db body s = Some (r, s')" and "r \<noteq> Abort"
  shows "(\<exists>x s0 s1. r = Ok x \<and> view s0 = view s \<and> body s0 = Ok (x, s1) \<and> view s' = view s1) \<or>
    (\<exists>e s0. r = Err e \<and> e \<noteq> SVN_ERR_BERKELEY_DB DB_LOCK_DEADLOCK \<and> view s0 = view s \<and> body s0 = Err e \<and>
       (view s' = view s \<or> (\<exists>e'. txn_abort db (txn_left db e s0) = DB_err e'))) \<or>
    (\<exists>d. r = Err (SVN_ERR_BERKELEY_DB d) \<and> db_failed db view body s d s')"
  using retry_txn_ends [OF assms(2,1)] assms(3)
  by (cases r) (auto simp: attempt_ends_def body_failed_def)

text \<open>
  A database of one number, with the number of attempts and the value at the beginning of the
  transaction; a body that fails leaves a value of its own, which the abort undoes.
\<close>

definition counting_db :: "(nat \<times> nat \<times> nat) bdb" where
  "counting_db = undefined\<lparr>txn_begin := \<lambda>(n, x, b). DB_ok (n, x, x), txn_commit := DB_ok, txn_checkpoint := DB_ok,
     txn_abort := \<lambda>(n, x, b). DB_ok (Suc n, b, b), txn_left := \<lambda>e (n, x, b). (n, x + 100, b)\<rparr>"

definition counted :: "nat \<times> nat \<times> nat \<Rightarrow> nat" where
  "counted s = fst (snd s)"

text \<open>A body that deadlocks on the first two attempts, and one that then fails.\<close>

definition third_time :: "(nat \<times> nat \<times> nat, nat) trail" where
  "third_time s =
     (case s of (n, x, b) \<Rightarrow>
        if n < 2 then Err (SVN_ERR_BERKELEY_DB DB_LOCK_DEADLOCK) else Ok (x, (n, x + 1, b)))"

definition fails_at_last :: "(nat \<times> nat \<times> nat, nat) trail" where
  "fails_at_last s =
     (case s of (n, x, b) \<Rightarrow> Err (if n < 2 then SVN_ERR_BERKELEY_DB DB_LOCK_DEADLOCK else SVN_ERR_FS_CORRUPT))"

lemma counting_txn_laws: "txn_laws counting_db counted" "txn_safe counting_db counted"
  by (auto simp: txn_laws_def txn_safe_def counting_db_def counted_def)

lemma counting_steps:
  "begin_trail counting_db (n, x, b) = Ok ((), (n, x, x))" "commit_trail counting_db s = Ok ((), s)"
  "abort_trail counting_db (txn_left counting_db e (n, x, b)) = Ok ((), (Suc n, b, b))"
  by (simp_all add: begin_trail_def commit_trail_def abort_trail_def counting_db_def tbind_def db_write_def)

lemma counting_retried:
  assumes "\<And>n. n < 2 \<Longrightarrow> body (n, 7, 7) = Err (SVN_ERR_BERKELEY_DB DB_LOCK_DEADLOCK)"
  shows "retried counting_db body (0, 7, 0) (2, 7, 7)"
proof -
  have dead: "body (0, 7, 7) = Err (SVN_ERR_BERKELEY_DB DB_LOCK_DEADLOCK)" "body (Suc 0, 7, 7) = Err (SVN_ERR_BERKELEY_DB DB_LOCK_DEADLOCK)"
    using assms by simp_all
  have "retried counting_db body (0, 7, 0) (Suc (Suc 0), 7, 7)"
    by (rule again [where body = body, OF counting_steps(1) dead(1) counting_steps(3)])
       (rule again [where body = body, OF counting_steps(1) dead(2) counting_steps(3) first])
  then show ?thesis by (simp add: numeral_2_eq_2)
qed

lemma counting_dead: "n < 2 \<Longrightarrow> third_time (n, 7, 7) = Err (SVN_ERR_BERKELEY_DB DB_LOCK_DEADLOCK)"
    "n < 2 \<Longrightarrow> fails_at_last (n, 7, 7) = Err (SVN_ERR_BERKELEY_DB DB_LOCK_DEADLOCK)"
  by (simp_all add: third_time_def fails_at_last_def)

lemma counting_runs:
  "svn_fs__retry_txn counting_db third_time (0, 7, 0) = Some (Ok 7, (2, 8, 7))"
  "svn_fs__retry_txn counting_db fails_at_last (0, 7, 0) = Some (Err SVN_ERR_FS_CORRUPT, (3, 7, 7))"
  unfolding retry_txn_again [OF counting_retried [of third_time, OF counting_dead(1)]] retry_txn_again [OF counting_retried [of fails_at_last, OF counting_dead(2)]]
  by (subst svn_fs__retry_txn.simps, simp add: counting_steps third_time_def fails_at_last_def)+

theorem retry_txn_atomic_witness:
  "((\<exists>x s0 s1. Ok 7 = Ok (x :: nat) \<and> counted s0 = 7 \<and> third_time s0 = Ok (x, s1) \<and> 8 = counted s1) \<or>
    (\<exists>d. Ok (7 :: nat) = Err (SVN_ERR_BERKELEY_DB d))) \<and>
   (\<exists>s0. counted s0 = 7 \<and> fails_at_last s0 = Err SVN_ERR_FS_CORRUPT)"
proof
  show "(\<exists>x s0 s1. Ok 7 = Ok (x :: nat) \<and> counted s0 = 7 \<and> third_time s0 = Ok (x, s1) \<and> 8 = counted s1) \<or>
      (\<exists>d. Ok (7 :: nat) = Err (SVN_ERR_BERKELEY_DB d))"
    using retry_txn_atomic [OF counting_txn_laws(2) counting_runs(1)] by (auto simp: counted_def)
  show "\<exists>s0. counted s0 = 7 \<and> fails_at_last s0 = Err SVN_ERR_FS_CORRUPT"
    using retry_txn_atomic [OF counting_txn_laws(2) counting_runs(2)] by (auto simp: counted_def)
qed

text \<open>
  C21. A transaction returns as soon as an attempt does not deadlock: after any number of attempts
  that deadlocked, the result of the next run of the body is returned, whatever it is: a result, and what
  the run did is kept; an error, and the tables are as they were at the beginning; or the stop of the program.
\<close>

theorem retry_txn_returns:
  assumes "txn_laws db view" and "retried db body s s0" and "begin_trail db s0 = Ok ((), s1)"
    and "body s1 \<noteq> Err (SVN_ERR_BERKELEY_DB DB_LOCK_DEADLOCK)"
  shows "case body s1 of
      Ok (x, s2) \<Rightarrow> \<exists>s'. svn_fs__retry_txn db body s = Some (Ok x, s') \<and> view s' = view s2
    | Err e \<Rightarrow> \<exists>s'. svn_fs__retry_txn db body s = Some (Err e, s') \<and> view s' = view s
    | Abort \<Rightarrow> \<exists>s'. svn_fs__retry_txn db body s = Some (Abort, s')"
proof (cases "body s1")
  case (Ok p)
  obtain x s2 where p: "p = (x, s2)" by (cases p)
  obtain s' where "commit_trail db s2 = Ok ((), s')" "view s' = view s2" using trail_steps(2) [OF assms(1)] by blast
  then have "svn_fs__retry_txn db body s = Some (Ok x, s') \<and> view s' = view s2"
    unfolding retry_txn_again [OF assms(2)] using assms(3) Ok p by (subst svn_fs__retry_txn.simps) simp
  then show ?thesis using Ok p by simp
next
  case (Err e)
  obtain s' where s': "abort_trail db (txn_left db e s1) = Ok ((), s')" "view s' = view s0" using trail_steps(3) [OF assms(1,3)] by blast
  then have "svn_fs__retry_txn db body s = Some (Err e, s')"
    unfolding retry_txn_again [OF assms(2)] using assms(3,4) Err by (subst svn_fs__retry_txn.simps) simp
  then show ?thesis using Err s'(2) retried_view [OF assms(2), of view] assms(1) by (simp add: txn_laws_def)
next
  case Abort
  then have "svn_fs__retry_txn db body s = Some (Abort, s1)"
    unfolding retry_txn_again [OF assms(2)] using assms(3) by (subst svn_fs__retry_txn.simps) simp
  then show ?thesis using Abort by simp
qed

theorem retry_txn_returns_witness:
  "(\<exists>s'. svn_fs__retry_txn counting_db third_time (0, 7, 0) = Some (Ok 7, s') \<and> counted s' = 8) \<and>
   (\<exists>s'. svn_fs__retry_txn counting_db fails_at_last (0, 7, 0) = Some (Err SVN_ERR_FS_CORRUPT, s') \<and> counted s' = 7)"
proof
  have b: "third_time (2, 7, 7) = Ok (7, (2, 8, 7))" "fails_at_last (2, 7, 7) = Err SVN_ERR_FS_CORRUPT"
    by (simp_all add: third_time_def fails_at_last_def)
  show "\<exists>s'. svn_fs__retry_txn counting_db third_time (0, 7, 0) = Some (Ok 7, s') \<and> counted s' = 8"
    using retry_txn_returns [OF counting_txn_laws(1) counting_retried [of third_time, OF counting_dead(1)] counting_steps(1)] b(1) by (simp add: counted_def)
  show "\<exists>s'. svn_fs__retry_txn counting_db fails_at_last (0, 7, 0) = Some (Err SVN_ERR_FS_CORRUPT, s') \<and> counted s' = 7"
    using retry_txn_returns [OF counting_txn_laws(1) counting_retried [of fails_at_last, OF counting_dead(2)] counting_steps(1)] b(2) by (simp add: counted_def)
qed

end
