(* ===== verification/Fs_Revs.thy ===== *)
theory Fs_Revs
  imports Fs_Props Fs_Successor Fs_Trail
begin

text \<open>
  The table of revisions (\<open>libsvn_fs/rev-table.c\<close>): revision \<open>r\<close> is the record with the number
  \<open>r + 1\<close>, computed in 32 bits.
\<close>

section \<open>The table\<close>

fun is_valid_filesystem_revision :: "skel_t \<Rightarrow> bool" where
  "is_valid_filesystem_revision (skel_list body [w, nid, proplist]) \<longleftrightarrow>
     svn_fs__matches_atom (Some w) ''revision'' \<and> svn_fs__is_valid_proplist (Some proplist) \<and>
     is_atom nid \<and> even (svn_fs__count_id_components (skel_data nid))"
| "is_valid_filesystem_revision _ \<longleftrightarrow> False"

definition recno_of :: "int \<Rightarrow> nat" where
  "recno_of r = nat ((r + 1) mod 2 ^ 32)"

definition svn_fs__get_rev :: "'d bdb \<Rightarrow> int \<Rightarrow> ('d, skel_t) trail" where
  "svn_fs__get_rev db r =
     tbind (db_read_or (rev_get db (recno_of r)) (or_notfound SVN_ERR_FS_CORRUPT)) (\<lambda>value.
       case svn_fs__parse_skel value of
         None \<Rightarrow> tfail SVN_ERR_FS_CORRUPT
       | Some skel \<Rightarrow> if is_valid_filesystem_revision skel then tret skel else tfail SVN_ERR_FS_CORRUPT)"

definition svn_fs__put_rev :: "'d bdb \<Rightarrow> skel_t \<Rightarrow> ('d, int) trail" where
  "svn_fs__put_rev db skel =
     (if \<not> is_valid_filesystem_revision skel then tfail SVN_ERR_FS_CORRUPT
      else
        tbind (tlift (svn_fs__skel_to_dbt skel)) (\<lambda>value.
        tbind (db_write' (rev_append db value)) (\<lambda>recno. tret (int recno - 1))))"

definition svn_fs__rev_get_root :: "'d bdb \<Rightarrow> int \<Rightarrow> ('d, svn_fs_id_t) trail" where
  "svn_fs__rev_get_root db r =
     tbind (svn_fs__get_rev db r) (\<lambda>skel.
     tbind (tlift (skel_child 1 skel)) (\<lambda>id_skel.
     tbind (tlift (svn_fs_parse_id (skel_data id_skel))) (\<lambda>nid.
       case nid of None \<Rightarrow> tfail SVN_ERR_FS_CORRUPT | Some nid \<Rightarrow> tret nid)))"

definition svn_fs__youngest_rev :: "'d bdb \<Rightarrow> ('d, int) trail" where
  "svn_fs__youngest_rev db =
     tbind (tlift (svn_fs__check_fs db)) (\<lambda>_.
     tbind (db_read_or (rev_last db) (or_notfound SVN_ERR_FS_CORRUPT)) (\<lambda>recno. tret (int recno - 1)))"

definition svn_fs__set_rev_prop :: "'d bdb \<Rightarrow> int \<Rightarrow> bytes \<Rightarrow> bytes option \<Rightarrow> ('d, unit) trail" where
  "svn_fs__set_rev_prop db r name value =
     tbind (svn_fs__get_rev db r) (\<lambda>skel.
     tbind (tlift (skel_child 2 skel)) (\<lambda>proplist.
     tbind (tlift (svn_fs__set_prop proplist name value)) (\<lambda>proplist.
     tbind (tlift (svn_fs__skel_to_dbt (set_skel_child 2 proplist skel))) (\<lambda>result.
       db_write (rev_put db (recno_of r) result)))))"

section \<open>Public operations\<close>

text \<open>A public operation: it checks that the filesystem is open and runs its body as a trail.\<close>

definition fs_call :: "'d bdb \<Rightarrow> ('d, 'a) trail \<Rightarrow> 'd \<Rightarrow> ('a svn_result \<times> 'd) option" where
  "fs_call db body s =
     (case svn_fs__check_fs db of
        Ok _ \<Rightarrow> svn_fs__retry_txn db body s
      | Err e \<Rightarrow> Some (Err e, s)
      | Abort \<Rightarrow> Some (Abort, s))"

definition txn_body_youngest_rev :: "'d bdb \<Rightarrow> ('d, int) trail" where
  "txn_body_youngest_rev db = svn_fs__youngest_rev db"

definition svn_fs_youngest_rev :: "'d bdb \<Rightarrow> 'd \<Rightarrow> (int svn_result \<times> 'd) option" where
  "svn_fs_youngest_rev db = fs_call db (txn_body_youngest_rev db)"

definition txn_body_revision_prop :: "'d bdb \<Rightarrow> int \<Rightarrow> bytes \<Rightarrow> ('d, bytes option) trail" where
  "txn_body_revision_prop db r propname =
     tbind (svn_fs__get_rev db r) (\<lambda>skel.
     tbind (tlift (skel_child 2 skel)) (\<lambda>proplist. tlift (svn_fs__get_prop proplist propname)))"

definition svn_fs_revision_prop :: "'d bdb \<Rightarrow> int \<Rightarrow> bytes \<Rightarrow> 'd \<Rightarrow> (bytes option svn_result \<times> 'd) option" where
  "svn_fs_revision_prop db r propname = fs_call db (txn_body_revision_prop db r propname)"

definition txn_body_revision_proplist :: "'d bdb \<Rightarrow> int \<Rightarrow> ('d, (bytes, bytes) fmap) trail" where
  "txn_body_revision_proplist db r =
     tbind (svn_fs__get_rev db r) (\<lambda>skel.
     tbind (tlift (skel_child 2 skel)) (\<lambda>proplist. tlift (svn_fs__make_prop_hash proplist)))"

definition svn_fs_revision_proplist :: "'d bdb \<Rightarrow> int \<Rightarrow> 'd \<Rightarrow> ((bytes, bytes) fmap svn_result \<times> 'd) option" where
  "svn_fs_revision_proplist db r = fs_call db (txn_body_revision_proplist db r)"

definition txn_body_change_rev_prop :: "'d bdb \<Rightarrow> int \<Rightarrow> bytes \<Rightarrow> bytes option \<Rightarrow> ('d, unit) trail" where
  "txn_body_change_rev_prop db r name value = svn_fs__set_rev_prop db r name value"

definition svn_fs_change_rev_prop :: "'d bdb \<Rightarrow> int \<Rightarrow> bytes \<Rightarrow> bytes option \<Rightarrow> 'd \<Rightarrow> (unit svn_result \<times> 'd) option" where
  "svn_fs_change_rev_prop db r name value = fs_call db (txn_body_change_rev_prop db r name value)"

section \<open>Refinement\<close>

lemma refines_get_rev [refine_intros]:
  "bdb_laws db view \<Longrightarrow> refines view (svn_fs__get_rev db r) (svn_fs__get_rev ref_db r)"
  unfolding svn_fs__get_rev_def by (intro refine_intros)

lemma refines_put_rev [refine_intros]:
  "bdb_laws db view \<Longrightarrow> refines view (svn_fs__put_rev db skel) (svn_fs__put_rev ref_db skel)"
  unfolding svn_fs__put_rev_def by (intro refine_intros)

lemma refines_rev_get_root [refine_intros]:
  "bdb_laws db view \<Longrightarrow> refines view (svn_fs__rev_get_root db r) (svn_fs__rev_get_root ref_db r)"
  unfolding svn_fs__rev_get_root_def by (intro refine_intros)

lemma refines_youngest_rev [refine_intros]:
  "bdb_laws db view \<Longrightarrow> refines view (svn_fs__youngest_rev db) (svn_fs__youngest_rev ref_db)"
  unfolding svn_fs__youngest_rev_def by (simp only: bdb_laws_open) (intro refine_intros)

lemma refines_set_rev_prop [refine_intros]:
  "bdb_laws db view \<Longrightarrow> refines view (svn_fs__set_rev_prop db r name value) (svn_fs__set_rev_prop ref_db r name value)"
  unfolding svn_fs__set_rev_prop_def by (intro refine_intros)

lemma refines_revision_prop [refine_intros]:
  "bdb_laws db view \<Longrightarrow> refines view (txn_body_revision_prop db r name) (txn_body_revision_prop ref_db r name)"
  unfolding txn_body_revision_prop_def by (intro refine_intros)

text \<open>On a database with the laws there are no deadlocks: an operation runs its body once.\<close>

lemma fs_call_ref:
  assumes "bdb_laws db view" and "txn_laws db view" and "refines view body body'" and "body' (view s) = r"
  shows "case r of
      Ok (x, v') \<Rightarrow> \<exists>s'. fs_call db body s = Some (Ok x, s') \<and> view s' = v'
    | Err e \<Rightarrow> e \<noteq> SVN_ERR_BERKELEY_DB DB_LOCK_DEADLOCK \<longrightarrow> (\<exists>s'. fs_call db body s = Some (Err e, s') \<and> view s' = view s)
    | Abort \<Rightarrow> \<exists>s'. fs_call db body s = Some (Abort, s')"
proof -
  have run: "fs_call db body s = svn_fs__retry_txn db body s" using assms(1) by (simp add: fs_call_def svn_fs__check_fs_def bdb_laws_def)
  obtain s1 where s1: "begin_trail db s = Ok ((), s1)" "view s1 = view s" using trail_steps(1) [OF assms(2)] by blast
  have body: "map_svn_result (map_prod id view) (body s1) = r" using refinesD [OF assms(3)] s1(2) assms(4) by simp
  show ?thesis
  proof (cases "body s1")
    case (Ok p)
    obtain x t where p: "p = (x, t)" by (cases p)
    obtain t' where t': "commit_trail db t = Ok ((), t')" "view t' = view t" using trail_steps(2) [OF assms(2)] by blast
    have "svn_fs__retry_txn db body s = Some (Ok x, t')" by (subst svn_fs__retry_txn.simps) (simp add: s1 Ok p t')
    with run body Ok p t' show ?thesis by auto
  next
    case (Err e)
    obtain s2 where s2: "abort_trail db (txn_left db e s1) = Ok ((), s2)" "view s2 = view s" using trail_steps(3) [OF assms(2) s1(1)] by blast
    have "e \<noteq> SVN_ERR_BERKELEY_DB DB_LOCK_DEADLOCK \<Longrightarrow> svn_fs__retry_txn db body s = Some (Err e, s2)"
      by (subst svn_fs__retry_txn.simps) (simp add: s1 Err s2)
    with run body Err s1 s2 show ?thesis by auto
  next
    case Abort
    have "svn_fs__retry_txn db body s = Some (Abort, s1)" by (subst svn_fs__retry_txn.simps) (simp add: s1 Abort)
    with run body Abort show ?thesis by auto
  qed
qed

section \<open>The revisions of the reference database\<close>

lemma last_rev_Max: "last_rev v = Max (insert 0 (fset (fmdom (ft_revs v))))"
proof -
  have "(\<lambda>x s. max s x) = (max :: nat \<Rightarrow> nat \<Rightarrow> nat)" by (simp add: fun_eq_iff max.commute)
  then have "foldl max a xs = Max (set (a # xs))" for a :: nat and xs
    by (simp only: foldl_conv_fold Max.set_eq_fold)
  then show ?thesis by (simp add: last_rev_def)
qed

text \<open>The records are numbered from 1 without gaps, in less than 32 bits.\<close>

definition revs_inv :: "fs_tables \<Rightarrow> bool" where
  "revs_inv v \<longleftrightarrow> fset (fmdom (ft_revs v)) = {1 .. last_rev v} \<and> last_rev v < 2 ^ 32"

definition rev_rec :: "fs_tables \<Rightarrow> int \<Rightarrow> skel_t svn_result" where
  "rev_rec v r =
     (case fmlookup (ft_revs v) (nat (r + 1)) of
        None \<Rightarrow> Err SVN_ERR_FS_CORRUPT
      | Some d \<Rightarrow>
          (case svn_fs__parse_skel d of
             None \<Rightarrow> Err SVN_ERR_FS_CORRUPT
           | Some skel \<Rightarrow> if is_valid_filesystem_revision skel then Ok skel else Err SVN_ERR_FS_CORRUPT))"

lemma recno_of_small: "0 \<le> r \<Longrightarrow> r < 2 ^ 32 - 1 \<Longrightarrow> recno_of r = nat (r + 1)"
  by (simp add: recno_of_def)

lemma get_rev_ref:
  assumes "revs_inv v" and "0 \<le> r" and "r < 2 ^ 32 - 1"
  shows "svn_fs__get_rev ref_db r v = svn_bind (rev_rec v r) (\<lambda>skel. Ok (skel, v))"
proof (cases "fmlookup (ft_revs v) (nat (r + 1))")
  case None
  then have "nat (r + 1) \<notin> fset (fmdom (ft_revs v))" by (rule fmdom_notI)
  then have "nat (r + 1) \<notin> {1 .. last_rev v}" using assms(1) by (simp add: revs_inv_def)
  then have "last_rev v < nat (r + 1)" using assms(2) by auto
  with None assms(2) show ?thesis
    by (simp add: svn_fs__get_rev_def recno_of_small [OF assms(2,3)] trail_defs ref_rev_get_def rev_rec_def)
next
  case (Some d)
  then show ?thesis
    by (simp add: svn_fs__get_rev_def recno_of_small [OF assms(2,3)] trail_defs ref_rev_get_def rev_rec_def split: option.split)
qed

lemma get_rev_result:
  assumes "bdb_laws db view" and "revs_inv (view s)" and "0 \<le> r" and "r < 2 ^ 32 - 1"
  shows "trail_result (svn_fs__get_rev db r) s = rev_rec (view s) r"
  using refines_result [OF refines_get_rev [OF assms(1)], of r s] get_rev_ref [OF assms(2-4)]
  by (cases "rev_rec (view s) r") (simp_all add: trail_result_def)

lemma is_valid_proplist_norm [simp]:
  "svn_fs__is_valid_proplist (Some (skel_norm p)) = svn_fs__is_valid_proplist (Some p)"
proof (cases p)
  case (skel_list body children)
  have "(\<lambda>elt. case elt of skel_atom d \<Rightarrow> True | _ \<Rightarrow> False) \<circ> skel_norm = (\<lambda>elt. case elt of skel_atom d \<Rightarrow> True | _ \<Rightarrow> False)"
    by (auto simp: fun_eq_iff split: skel_t.split elim: skel_norm.elims)
  with skel_list show ?thesis by (simp add: svn_fs__is_valid_proplist_def list.pred_map)
qed (simp add: svn_fs__is_valid_proplist_def)

lemma is_valid_filesystem_revision_norm [simp]: "is_valid_filesystem_revision (skel_norm x) = is_valid_filesystem_revision x"
proof (cases x rule: is_valid_filesystem_revision.cases)
  case (1 body w nid proplist)
  then show ?thesis by (cases nid) simp_all
qed simp_all

lemma last_rev_put: "last_rev (put_rev_rec n x v) = max n (last_rev v)"
  by (simp add: last_rev_Max put_rev_rec_def insert_commute [of 0])

lemma revs_inv_put:
  assumes "revs_inv v" and "1 \<le> n" and "n \<le> last_rev v + 1" and "n < 2 ^ 32"
  shows "revs_inv (put_rev_rec n x v)"
proof -
  have "insert n {1 .. last_rev v} = {1 .. max n (last_rev v)}" using assms(2,3) by auto
  with assms show ?thesis by (auto simp: revs_inv_def last_rev_put) (simp_all add: put_rev_rec_def)
qed

lemma rev_rec_put:
  assumes "length (skel_text skel) < 2 ^ 32" and "0 \<le> r" and "0 \<le> r'" and "is_valid_filesystem_revision skel"
  shows "rev_rec (put_rev_rec (nat (r + 1)) (skel_text skel) v) r' = (if r' = r then Ok (skel_norm skel) else rev_rec v r')"
  using assms skel_to_dbt_text(2) [OF assms(1)] by (auto simp: rev_rec_def put_rev_rec_def)

lemma put_rev_ref:
  assumes "length (skel_text skel) < 2 ^ 32" and "is_valid_filesystem_revision skel"
  shows "svn_fs__put_rev ref_db skel v = Ok (int (last_rev v), put_rev_rec (last_rev v + 1) (skel_text skel) v)"
  using skel_to_dbt_text(1) [OF assms(1)] assms(2) by (simp add: svn_fs__put_rev_def trail_defs)

text \<open>
  C24. On every database that works as documented: a new revision gets the number after the youngest and
  becomes the youngest; its skel is read back, every older revision is read as before, and a revision
  after the youngest is an error.
\<close>

theorem put_rev_youngest:
  assumes "bdb_laws db view" and "revs_inv (view s)" and "last_rev (view s) < 2 ^ 32 - 1"
    and "length (skel_text skel) < 2 ^ 32" and "is_valid_filesystem_revision skel"
  shows "\<exists>r s1. svn_fs__put_rev db skel s = Ok (r, s1) \<and> revs_inv (view s1) \<and> r = int (last_rev (view s)) \<and>
    trail_result (svn_fs__youngest_rev db) s1 = Ok r \<and> trail_result (svn_fs__get_rev db r) s1 = Ok (skel_norm skel) \<and>
    (\<forall>q. 0 \<le> q \<and> q < r \<longrightarrow> trail_result (svn_fs__get_rev db q) s1 = trail_result (svn_fs__get_rev db q) s) \<and>
    (\<forall>q. r < q \<and> q < 2 ^ 32 - 1 \<longrightarrow> trail_result (svn_fs__get_rev db q) s1 = Err SVN_ERR_FS_CORRUPT)"
proof -
  let ?v = "view s" and ?n = "last_rev (view s)"
  let ?v1 = "put_rev_rec (?n + 1) (skel_text skel) ?v"
  obtain s1 where s1: "svn_fs__put_rev db skel s = Ok (int ?n, s1)" "view s1 = ?v1"
    using refines_Ok [OF refines_put_rev [OF assms(1)] put_rev_ref [OF assms(4,5)]] by blast
  have inv: "revs_inv ?v1" using assms(2,3) by (intro revs_inv_put) auto
  have rec: "rev_rec ?v1 q = (if q = int ?n then Ok (skel_norm skel) else rev_rec ?v q)" if "0 \<le> q" for q
    using rev_rec_put [OF assms(4) _ that assms(5), of "int ?n"] by (simp add: nat_add_distrib)
  have young: "trail_result (svn_fs__youngest_rev db) s1 = Ok (int ?n)"
    using refines_result [OF refines_youngest_rev [OF assms(1)], of s1]
    by (simp add: trail_result_def svn_fs__youngest_rev_def svn_fs__check_fs_def trail_defs s1(2) last_rev_put)
  have beyond: "rev_rec ?v q = Err SVN_ERR_FS_CORRUPT" if "int ?n < q" for q
  proof -
    have "nat (q + 1) \<notin> {1 .. ?n}" using that by auto
    then have "nat (q + 1) \<notin> fset (fmdom (ft_revs ?v))" using assms(2) by (simp add: revs_inv_def)
    then have "fmlookup (ft_revs ?v) (nat (q + 1)) = None" by (rule fmdom_notD)
    then show ?thesis by (simp add: rev_rec_def)
  qed
  have get: "trail_result (svn_fs__get_rev db q) s1 = rev_rec ?v1 q" if "0 \<le> q" "q < 2 ^ 32 - 1" for q
    using get_rev_result [OF assms(1), of s1 q] that inv s1(2) by simp
  have old: "trail_result (svn_fs__get_rev db q) s = rev_rec ?v q" if "0 \<le> q" "q < 2 ^ 32 - 1" for q
    using get_rev_result [OF assms(1,2) that] .
  have n: "int ?n < 2 ^ 32 - 1" using assms(3) by simp
  show ?thesis
  proof (intro exI conjI allI impI)
    show "svn_fs__put_rev db skel s = Ok (int ?n, s1)" by (rule s1)
    show "trail_result (svn_fs__get_rev db (int ?n)) s1 = Ok (skel_norm skel)" using get [OF _ n] rec [of "int ?n"] by simp
    show "trail_result (svn_fs__get_rev db q) s1 = trail_result (svn_fs__get_rev db q) s" if "0 \<le> q \<and> q < int ?n" for q
      using that n get [of q] old [of q] rec [of q] by simp
    show "trail_result (svn_fs__get_rev db q) s1 = Err SVN_ERR_FS_CORRUPT" if "int ?n < q \<and> q < 2 ^ 32 - 1" for q
      using that get [of q] rec [of q] beyond [of q] by simp
  qed (use young inv s1(2) in simp_all)
qed

lemma new_tables_revs: "ft_revs new_tables = fmempty" "last_rev new_tables = 0" "revs_inv new_tables"
  by (simp_all add: new_tables_def last_rev_Max revs_inv_def)

theorem put_rev_youngest_witness:
  "\<exists>s1. svn_fs__put_rev ref_db (skel_list [] [skel_atom ''revision'', skel_atom ''0.0'', skel_list [] []]) new_tables = Ok (0, s1) \<and>
    trail_result (svn_fs__youngest_rev ref_db) s1 = Ok 0"
proof -
  let ?skel = "skel_list [] [skel_atom ''revision'', skel_atom ''0.0'', skel_list [] []]"
  have tx: "skel_text ?skel = ''(revision 3 0.0 ())''" by code_simp
  have len: "length (skel_text ?skel) < 2 ^ 32" unfolding tx by simp
  have valid: "is_valid_filesystem_revision ?skel" by code_simp
  have "revs_inv (id new_tables)" "last_rev (id new_tables) < 2 ^ 32 - 1" using new_tables_revs by simp_all
  from put_rev_youngest [OF bdb_laws_ref this len valid] show ?thesis using new_tables_revs(2) by auto
qed

lemma atom_pairs_norm: "atom_pairs cs \<Longrightarrow> atom_pairs (map skel_norm cs) \<and> find_prop (map skel_norm cs) n = find_prop cs n \<and>
    prop_names (map skel_norm cs) = prop_names cs"
  by (induction cs rule: atom_pairs.induct) auto

lemma get_prop_norm: "svn_fs__get_prop (skel_norm p) n = svn_fs__get_prop p n"
proof (cases "svn_fs__is_valid_proplist (Some p)")
  case True
  then obtain body cs where "p = skel_list body cs" "atom_pairs cs" by (auto simp: valid_proplist_pairs)
  with True atom_pairs_norm [of cs n] show ?thesis
    using is_valid_proplist_norm [of p] by (simp add: svn_fs__get_prop_def)
qed (use is_valid_proplist_norm [of p] in \<open>simp add: svn_fs__get_prop_def\<close>)

lemma revision_prop_result:
  assumes "bdb_laws db view" and "revs_inv (view s)" and "0 \<le> r" and "r < 2 ^ 32 - 1"
  shows "trail_result (txn_body_revision_prop db r name) s =
    svn_bind (rev_rec (view s) r) (\<lambda>skel. svn_fs__get_prop (skel_children skel ! 2) name)"
proof -
  have three: "2 < length (skel_children skel)" if "rev_rec (view s) r = Ok skel" for skel
    using that by (auto simp: rev_rec_def split: option.splits if_splits elim: is_valid_filesystem_revision.elims(2))
  have "trail_result (txn_body_revision_prop db r name) s = trail_result (txn_body_revision_prop ref_db r name) (view s)"
    by (rule refines_result [OF refines_revision_prop [OF assms(1)]])
  also have "\<dots> = svn_bind (rev_rec (view s) r) (\<lambda>skel. svn_fs__get_prop (skel_children skel ! 2) name)"
  proof (cases "rev_rec (view s) r")
    case (Ok skel)
    then show ?thesis using get_rev_ref [OF assms(2-4)] three [OF Ok]
      by (cases "svn_fs__get_prop (skel_children skel ! 2) name")
        (simp_all add: trail_result_def txn_body_revision_prop_def tbind_def tlift_def skel_child_def)
  qed (use get_rev_ref [OF assms(2-4)] in \<open>simp_all add: trail_result_def txn_body_revision_prop_def tbind_def\<close>)
  finally show ?thesis .
qed

text \<open>
  C25. On every database that works as documented and whose transactions do: changing a property of a
  revision changes the value that is read for this property of this revision, and no other property
  of it and no property of another revision.
\<close>

theorem change_rev_prop_read:
  assumes "bdb_laws db view" and "txn_laws db view" and "revs_inv (view s)" and "0 \<le> r" and "r < 2 ^ 32 - 1"
    and "rev_rec (view s) r = Ok skel" and "proplist_ok (skel_children skel ! 2)"
    and "svn_fs__set_prop (skel_children skel ! 2) name value = Ok p'" and "length (skel_text (set_skel_child 2 p' skel)) < 2 ^ 32"
  shows "\<exists>s1. svn_fs_change_rev_prop db r name value s = Some (Ok (), s1) \<and> revs_inv (view s1) \<and>
    (\<forall>q n. 0 \<le> q \<and> q < 2 ^ 32 - 1 \<longrightarrow>
       trail_result (txn_body_revision_prop db q n) s1 =
       (if q = r \<and> n = name then Ok value else trail_result (txn_body_revision_prop db q n) s))"
proof -
  let ?new = "set_skel_child 2 p' skel" and ?v = "view s"
  let ?v1 = "put_rev_rec (nat (r + 1)) (skel_text ?new) ?v"
  have "is_valid_filesystem_revision skel" using assms(6) by (auto simp: rev_rec_def split: option.splits if_splits)
  then obtain body w nid pl where skel: "skel = skel_list body [w, nid, pl]" by (auto elim: is_valid_filesystem_revision.elims(2))
  have p': "proplist_ok p'" "\<forall>n. svn_fs__get_prop p' n = (if n = name then Ok value else svn_fs__get_prop (skel_children skel ! 2) n)"
    using set_prop_spec [OF assms(7), of name "value"] assms(8) by (metis svn_result.inject(1))+
  have valid: "is_valid_filesystem_revision ?new"
    using \<open>is_valid_filesystem_revision skel\<close> p'(1) by (simp add: skel proplist_ok_def numeral_2_eq_2)
  have dom: "nat (r + 1) \<le> last_rev ?v"
  proof -
    have "nat (r + 1) \<in> fset (fmdom (ft_revs ?v))" using assms(6) by (auto simp: rev_rec_def fmlookup_dom_iff split: option.splits)
    then show ?thesis using assms(3) by (simp add: revs_inv_def)
  qed
  have inv: "revs_inv ?v1" using assms(3-5) dom by (intro revs_inv_put) auto
  have "svn_fs__set_rev_prop ref_db r name value ?v = Ok ((), ?v1)"
    using get_rev_ref [OF assms(3-5)] assms(4,6,8) recno_of_small [OF assms(4,5)] skel_to_dbt_text(1) [OF assms(9)]
    by (simp add: svn_fs__set_rev_prop_def trail_defs skel_child_def skel numeral_2_eq_2)
  then obtain s1 where s1: "svn_fs_change_rev_prop db r name value s = Some (Ok (), s1)" "view s1 = ?v1"
    using fs_call_ref [OF assms(1,2) refines_set_rev_prop [OF assms(1)], of r name "value" s]
    by (auto simp: svn_fs_change_rev_prop_def txn_body_change_rev_prop_def)
  have "trail_result (txn_body_revision_prop db q n) s1 =
      (if q = r \<and> n = name then Ok value else trail_result (txn_body_revision_prop db q n) s)" if "0 \<le> q" "q < 2 ^ 32 - 1" for q n
    using revision_prop_result [OF assms(1) _ that, of s1 n] revision_prop_result [OF assms(1,3) that, of n] inv s1(2)
      rev_rec_put [OF assms(9,4) that(1) valid, of ?v] assms(6) p'(2) get_prop_norm [of p' n]
    by (cases "q = r"; cases "n = name") (simp_all add: skel numeral_2_eq_2)
  with s1 inv show ?thesis by auto
qed

theorem change_rev_prop_read_witness:
  "\<exists>s1. svn_fs_change_rev_prop ref_db 0 ''svn:log'' (Some ''hello'')
      (put_rev_rec 1 ''(revision 3 0.0 ())'' new_tables) = Some (Ok (), s1) \<and>
    trail_result (txn_body_revision_prop ref_db 0 ''svn:log'') s1 = Ok (Some ''hello'')"
proof -
  let ?v = "put_rev_rec 1 ''(revision 3 0.0 ())'' new_tables"
  let ?skel = "skel_list ''(revision 3 0.0 ())'' [skel_atom ''revision'', skel_atom ''0.0'', skel_list ''()'' []]"
  let ?p = "skel_list ''()'' [skel_atom ''svn:log'', skel_atom ''hello'']"
  have "svn_fs__parse_skel ''(revision 3 0.0 ())'' = Some ?skel" by code_simp
  moreover have "is_valid_filesystem_revision ?skel" by code_simp
  ultimately have rec: "rev_rec (id ?v) 0 = Ok ?skel" by (simp add: rev_rec_def put_rev_rec_def)
  have inv: "revs_inv (id ?v)" using new_tables_revs by (auto intro: revs_inv_put)
  have pl: "skel_children ?skel ! 2 = skel_list ''()'' []" by (simp add: numeral_2_eq_2)
  then have ok: "proplist_ok (skel_children ?skel ! 2)" by (simp add: proplist_ok_def valid_proplist_pairs)
  have sp: "svn_fs__set_prop (skel_children ?skel ! 2) ''svn:log'' (Some ''hello'') = Ok ?p" unfolding pl by code_simp
  have tx: "skel_text (set_skel_child 2 ?p ?skel) = ''(revision 3 0.0 (svn:log hello))''" by code_simp
  have len: "length (skel_text (set_skel_child 2 ?p ?skel)) < 2 ^ 32" unfolding tx by simp
  have laws: "txn_laws ref_db id" by (rule txn_laws_ref)
  have "(0::int) \<le> 0" "(0::int) < 2 ^ 32 - 1" by simp_all
  from change_rev_prop_read [of ref_db id ?v 0 ?skel "''svn:log''" "Some ''hello''" ?p, OF bdb_laws_ref laws inv this rec ok sp len]
  obtain s1 where
    s1: "svn_fs_change_rev_prop ref_db 0 ''svn:log'' (Some ''hello'') ?v = Some (Ok (), s1)"
      "\<forall>q n. 0 \<le> q \<and> q < 2 ^ 32 - 1 \<longrightarrow> trail_result (txn_body_revision_prop ref_db q n) s1 =
        (if q = 0 \<and> n = ''svn:log'' then Ok (Some ''hello'') else trail_result (txn_body_revision_prop ref_db q n) ?v)"
    by blast
  from s1(2) [rule_format, of 0 "''svn:log''"] have "trail_result (txn_body_revision_prop ref_db 0 ''svn:log'') s1 = Ok (Some ''hello'')"
    by (simp only: if_True simp_thms) simp
  with s1(1) show ?thesis by blast
qed

end
