(* ===== verification/Fs_Txns.thy ===== *)
theory Fs_Txns
  imports Fs_Revs
begin

text \<open>
  The table of transactions (\<open>libsvn_fs/txn-table.c\<close>) and the part of \<open>libsvn_fs/txn.c\<close> that rests
  on it alone: beginning a transaction and listing the transactions.
\<close>

section \<open>The table\<close>

definition next_id_key :: bytes where
  "next_id_key = ''next-id''"

definition svn_fs__open_transactions_table :: "'d bdb \<Rightarrow> bool \<Rightarrow> ('d, unit) trail" where
  "svn_fs__open_transactions_table db create =
     (if create
      then db_write (db_put db Transactions (svn_fs__str_to_dbt next_id_key) (svn_fs__str_to_dbt ''0''))
      else tret ())"

fun is_valid_transaction :: "skel_t \<Rightarrow> bool" where
  "is_valid_transaction (skel_list body [w, root_id, base_root_id, proplist]) \<longleftrightarrow>
     svn_fs__matches_atom (Some w) ''transaction'' \<and> is_atom root_id \<and> is_atom base_root_id \<and>
     svn_fs__is_valid_proplist (Some proplist)"
| "is_valid_transaction _ \<longleftrightarrow> False"

text \<open>The atom of an id.\<close>

definition id_atom :: "svn_fs_id_t \<Rightarrow> skel_t svn_result" where
  "id_atom nid =
     svn_bind (svn_fs_unparse_id nid) (\<lambda>str.
     svn_bind (mem_bytes (sb_data str) (unat (sb_len str))) (\<lambda>bs. Ok (svn_fs__mem_atom bs)))"

definition put_txn :: "'d bdb \<Rightarrow> bytes \<Rightarrow> svn_fs_id_t \<Rightarrow> svn_fs_id_t \<Rightarrow> skel_t \<Rightarrow> ('d, unit) trail" where
  "put_txn db svn_txn root_id base_root_id proplist =
     tbind (tlift (id_atom root_id)) (\<lambda>root.
     tbind (tlift (id_atom base_root_id)) (\<lambda>base_root.
     tbind (tlift (svn_fs__prepend proplist svn_fs__make_empty_list)) (\<lambda>txn_skel.
     tbind (tlift (svn_fs__prepend base_root txn_skel)) (\<lambda>txn_skel.
     tbind (tlift (svn_fs__prepend root txn_skel)) (\<lambda>txn_skel.
     tbind (tlift (svn_fs__prepend (svn_fs__str_atom ''transaction'') txn_skel)) (\<lambda>txn_skel.
       if \<not> is_valid_transaction txn_skel then tlift Abort
       else
         tbind (tlift (svn_fs__skel_to_dbt txn_skel)) (\<lambda>value.
           db_write (db_put db Transactions (svn_fs__str_to_dbt svn_txn) value))))))))"

definition allocate_txn_id :: "'d bdb \<Rightarrow> ('d, bytes) trail" where
  "allocate_txn_id db =
     tbind (db_read (db_get db Transactions (svn_fs__str_to_dbt next_id_key))) (\<lambda>value.
     let next_id_str = apr_pstrndup value in
       case svn_fs__getsize value 1000000 of
         None \<Rightarrow> tfail SVN_ERR_FS_CORRUPT
       | Some (next_id, endptr) \<Rightarrow>
           if endptr \<noteq> [] then tfail SVN_ERR_FS_CORRUPT
           else
             (let buf = (case svn_fs__putsize 200 (next_id + 1) of None \<Rightarrow> [] | Some ds \<Rightarrow> ds) in
              tbind (db_write (db_put db Transactions (svn_fs__str_to_dbt next_id_key) (svn_fs__set_dbt buf))) (\<lambda>_.
                tret next_id_str)))"

definition svn_fs__create_txn :: "'d bdb \<Rightarrow> svn_fs_id_t \<Rightarrow> ('d, bytes) trail" where
  "svn_fs__create_txn db root_id =
     tbind (allocate_txn_id db) (\<lambda>svn_txn.
     tbind (put_txn db svn_txn root_id root_id svn_fs__make_empty_list) (\<lambda>_. tret svn_txn))"

definition svn_fs__delete_txn :: "'d bdb \<Rightarrow> bytes \<Rightarrow> ('d, unit) trail" where
  "svn_fs__delete_txn db svn_txn = db_write (db_del db Transactions (svn_fs__str_to_dbt svn_txn))"

definition svn_fs__get_txn :: "'d bdb \<Rightarrow> bytes \<Rightarrow> ('d, skel_t) trail" where
  "svn_fs__get_txn db svn_txn =
     tbind (db_read_or (db_get db Transactions (svn_fs__str_to_dbt svn_txn)) (or_notfound SVN_ERR_FS_NO_SUCH_TRANSACTION)) (\<lambda>value.
       case svn_fs__parse_skel value of
         None \<Rightarrow> tfail SVN_ERR_FS_CORRUPT
       | Some transaction \<Rightarrow> if is_valid_transaction transaction then tret transaction else tfail SVN_ERR_FS_CORRUPT)"

definition get_proplist_from_txn_skel :: "skel_t \<Rightarrow> skel_t svn_result" where
  "get_proplist_from_txn_skel txn_skel = skel_child 3 txn_skel"

definition get_ids_from_txn_skel :: "skel_t \<Rightarrow> (svn_fs_id_t \<times> svn_fs_id_t) svn_result" where
  "get_ids_from_txn_skel txn_skel =
     svn_bind (skel_child 1 txn_skel) (\<lambda>root_id_skel.
     svn_bind (skel_child 2 txn_skel) (\<lambda>base_root_id_skel.
     svn_bind (svn_fs_parse_id (skel_data root_id_skel)) (\<lambda>root_id.
     svn_bind (svn_fs_parse_id (skel_data base_root_id_skel)) (\<lambda>base_root_id.
       case (root_id, base_root_id) of
         (Some r, Some b) \<Rightarrow> Ok (r, b)
       | _ \<Rightarrow> Err SVN_ERR_FS_CORRUPT))))"

definition svn_fs__get_txn_ids :: "'d bdb \<Rightarrow> bytes \<Rightarrow> ('d, svn_fs_id_t \<times> svn_fs_id_t) trail" where
  "svn_fs__get_txn_ids db svn_txn =
     tbind (svn_fs__get_txn db svn_txn) (\<lambda>transaction. tlift (get_ids_from_txn_skel transaction))"

definition svn_fs__set_txn_root :: "'d bdb \<Rightarrow> bytes \<Rightarrow> svn_fs_id_t \<Rightarrow> ('d, unit) trail" where
  "svn_fs__set_txn_root db svn_txn root_id =
     tbind (svn_fs__get_txn db svn_txn) (\<lambda>txn_skel.
     tbind (tlift (get_ids_from_txn_skel txn_skel)) (\<lambda>(old_root_id, base_root_id).
       if \<not> svn_fs__id_eq old_root_id root_id
       then tbind (tlift (get_proplist_from_txn_skel txn_skel)) (put_txn db svn_txn root_id base_root_id)
       else tret ()))"

definition svn_fs__set_txn_base :: "'d bdb \<Rightarrow> bytes \<Rightarrow> svn_fs_id_t \<Rightarrow> ('d, unit) trail" where
  "svn_fs__set_txn_base db svn_txn new_id =
     tbind (svn_fs__get_txn db svn_txn) (\<lambda>txn_skel.
     tbind (tlift (get_ids_from_txn_skel txn_skel)) (\<lambda>(root_id, base_root_id).
       if \<not> svn_fs__id_eq base_root_id new_id
       then tbind (tlift (get_proplist_from_txn_skel txn_skel)) (put_txn db svn_txn root_id new_id)
       else tret ()))"

text \<open>The loop over the keys; the number of keys bounds it.\<close>

fun txn_list_loop :: "nat \<Rightarrow> 'd bdb \<Rightarrow> bytes db_result \<Rightarrow> bytes list \<Rightarrow> ('d, bytes list) trail" where
  "txn_list_loop 0 db r names = tlift Abort"
| "txn_list_loop (Suc n) db (DB_err e) names = (if e \<noteq> DB_NOTFOUND then tfail (SVN_ERR_BERKELEY_DB e) else tret names)"
| "txn_list_loop (Suc n) db (DB_ok key) names =
     tbind (db_peek (db_next db Transactions key)) (\<lambda>r.
       txn_list_loop n db r (if key = next_id_key then names else names @ [apr_pstrndup key]))"

definition svn_fs__get_txn_list :: "'d bdb \<Rightarrow> ('d, bytes list) trail" where
  "svn_fs__get_txn_list db =
     tbind (db_peek (db_count db Transactions)) (\<lambda>n.
     tbind (db_peek (db_first db Transactions)) (\<lambda>r. txn_list_loop (Suc n) db r []))"

section \<open>Public operations\<close>

record svn_fs_txn_t =
  txn_base_rev :: int
  txn_id :: bytes

definition svn_fs_txn_name :: "svn_fs_txn_t \<Rightarrow> bytes" where
  "svn_fs_txn_name txn = txn_id txn"

definition svn_fs_txn_base_revision :: "svn_fs_txn_t \<Rightarrow> int" where
  "svn_fs_txn_base_revision txn = txn_base_rev txn"

definition make_txn :: "bytes \<Rightarrow> int \<Rightarrow> svn_fs_txn_t" where
  "make_txn tid base_rev = \<lparr>txn_base_rev = base_rev, txn_id = tid\<rparr>"

definition txn_body_txn_prop :: "'d bdb \<Rightarrow> bytes \<Rightarrow> bytes \<Rightarrow> ('d, bytes option) trail" where
  "txn_body_txn_prop db tid propname =
     tbind (svn_fs__get_txn db tid) (\<lambda>skel.
     tbind (tlift (get_proplist_from_txn_skel skel)) (\<lambda>proplist. tlift (svn_fs__get_prop proplist propname)))"

definition svn_fs_txn_prop :: "'d bdb \<Rightarrow> svn_fs_txn_t \<Rightarrow> bytes \<Rightarrow> 'd \<Rightarrow> (bytes option svn_result \<times> 'd) option" where
  "svn_fs_txn_prop db txn propname = fs_call db (txn_body_txn_prop db (svn_fs_txn_name txn) propname)"

definition txn_body_txn_proplist :: "'d bdb \<Rightarrow> bytes \<Rightarrow> ('d, (bytes, bytes) fmap) trail" where
  "txn_body_txn_proplist db tid =
     tbind (svn_fs__get_txn db tid) (\<lambda>skel.
     tbind (tlift (get_proplist_from_txn_skel skel)) (\<lambda>proplist. tlift (svn_fs__make_prop_hash proplist)))"

definition svn_fs_txn_proplist :: "'d bdb \<Rightarrow> svn_fs_txn_t \<Rightarrow> 'd \<Rightarrow> ((bytes, bytes) fmap svn_result \<times> 'd) option" where
  "svn_fs_txn_proplist db txn = fs_call db (txn_body_txn_proplist db (svn_fs_txn_name txn))"

definition txn_body_change_txn_prop :: "'d bdb \<Rightarrow> bytes \<Rightarrow> bytes \<Rightarrow> bytes option \<Rightarrow> ('d, unit) trail" where
  "txn_body_change_txn_prop db tid name value =
     tbind (svn_fs__get_txn db tid) (\<lambda>skel.
     tbind (tlift (get_ids_from_txn_skel skel)) (\<lambda>(root_id, base_root_id).
     tbind (tlift (get_proplist_from_txn_skel skel)) (\<lambda>proplist.
     tbind (tlift (svn_fs__set_prop proplist name value)) (\<lambda>proplist.
       put_txn db tid root_id base_root_id proplist))))"

definition svn_fs_change_txn_prop :: "'d bdb \<Rightarrow> svn_fs_txn_t \<Rightarrow> bytes \<Rightarrow> bytes option \<Rightarrow> 'd \<Rightarrow> (unit svn_result \<times> 'd) option" where
  "svn_fs_change_txn_prop db txn name value = fs_call db (txn_body_change_txn_prop db (svn_fs_txn_name txn) name value)"

definition txn_body_begin_txn :: "'d bdb \<Rightarrow> int \<Rightarrow> ('d, svn_fs_txn_t) trail" where
  "txn_body_begin_txn db r =
     tbind (svn_fs__rev_get_root db r) (\<lambda>root_id.
     tbind (svn_fs__create_txn db root_id) (\<lambda>svn_txn_id. tret (make_txn svn_txn_id r)))"

text \<open>The property with the date is set in a trail of its own; \<open>date\<close> is the text of the current time.\<close>

definition svn_fs_begin_txn :: "'d bdb \<Rightarrow> int \<Rightarrow> bytes \<Rightarrow> 'd \<Rightarrow> (svn_fs_txn_t svn_result \<times> 'd) option" where
  "svn_fs_begin_txn db r date s =
     (case fs_call db (txn_body_begin_txn db r) s of
        None \<Rightarrow> None
      | Some (Err e, s) \<Rightarrow> Some (Err e, s)
      | Some (Abort, s) \<Rightarrow> Some (Abort, s)
      | Some (Ok txn, s) \<Rightarrow>
          map_option (map_prod (\<lambda>result. svn_bind result (\<lambda>_. Ok txn)) id)
            (svn_fs_change_txn_prop db txn ''svn:date'' (Some date) s))"

definition txn_body_list_transactions :: "'d bdb \<Rightarrow> ('d, bytes list) trail" where
  "txn_body_list_transactions db = svn_fs__get_txn_list db"

definition svn_fs_list_transactions :: "'d bdb \<Rightarrow> 'd \<Rightarrow> (bytes list svn_result \<times> 'd) option" where
  "svn_fs_list_transactions db = fs_call db (txn_body_list_transactions db)"

section \<open>Refinement\<close>

lemma refines_put_txn [refine_intros]:
  "bdb_laws db view \<Longrightarrow> refines view (put_txn db t r b p) (put_txn ref_db t r b p)"
  unfolding put_txn_def by (intro refine_intros)

lemma refines_allocate_txn_id [refine_intros]:
  "bdb_laws db view \<Longrightarrow> refines view (allocate_txn_id db) (allocate_txn_id ref_db)"
  unfolding allocate_txn_id_def Let_def by (intro refine_intros)

lemma refines_create_txn [refine_intros]:
  "bdb_laws db view \<Longrightarrow> refines view (svn_fs__create_txn db r) (svn_fs__create_txn ref_db r)"
  unfolding svn_fs__create_txn_def by (intro refine_intros)

lemma refines_delete_txn [refine_intros]:
  "bdb_laws db view \<Longrightarrow> refines view (svn_fs__delete_txn db t) (svn_fs__delete_txn ref_db t)"
  unfolding svn_fs__delete_txn_def by (intro refine_intros)

lemma refines_get_txn [refine_intros]:
  "bdb_laws db view \<Longrightarrow> refines view (svn_fs__get_txn db t) (svn_fs__get_txn ref_db t)"
  unfolding svn_fs__get_txn_def by (intro refine_intros)

lemma refines_get_txn_ids [refine_intros]:
  "bdb_laws db view \<Longrightarrow> refines view (svn_fs__get_txn_ids db t) (svn_fs__get_txn_ids ref_db t)"
  unfolding svn_fs__get_txn_ids_def by (intro refine_intros)

lemma refines_set_txn_root [refine_intros]:
  "bdb_laws db view \<Longrightarrow> refines view (svn_fs__set_txn_root db t r) (svn_fs__set_txn_root ref_db t r)"
  unfolding svn_fs__set_txn_root_def by (intro refine_intros)

lemma refines_set_txn_base [refine_intros]:
  "bdb_laws db view \<Longrightarrow> refines view (svn_fs__set_txn_base db t b) (svn_fs__set_txn_base ref_db t b)"
  unfolding svn_fs__set_txn_base_def by (intro refine_intros)

lemma refines_txn_list_loop [refine_intros]:
  "bdb_laws db view \<Longrightarrow> refines view (txn_list_loop n db r names) (txn_list_loop n ref_db r names)"
  by (induction n db r names rule: txn_list_loop.induct) (auto intro!: refine_intros)

lemma refines_get_txn_list [refine_intros]:
  "bdb_laws db view \<Longrightarrow> refines view (svn_fs__get_txn_list db) (svn_fs__get_txn_list ref_db)"
  unfolding svn_fs__get_txn_list_def by (intro refine_intros)

lemma refines_begin_txn [refine_intros]:
  "bdb_laws db view \<Longrightarrow> refines view (txn_body_begin_txn db r) (txn_body_begin_txn ref_db r)"
  unfolding txn_body_begin_txn_def by (intro refine_intros)

lemma refines_change_txn_prop [refine_intros]:
  "bdb_laws db view \<Longrightarrow> refines view (txn_body_change_txn_prop db t n x) (txn_body_change_txn_prop ref_db t n x)"
  unfolding txn_body_change_txn_prop_def by (intro refine_intros)

lemma refines_txn_prop [refine_intros]:
  "bdb_laws db view \<Longrightarrow> refines view (txn_body_txn_prop db t n) (txn_body_txn_prop ref_db t n)"
  unfolding txn_body_txn_prop_def by (intro refine_intros)

section \<open>The order of the keys\<close>

lemma char_less_of_char: "a < b \<longleftrightarrow> (of_char a :: nat) < of_char b" for a b :: char
  by (simp add: less_char_def)

lemma memcmp_less: "length a = length b \<Longrightarrow> (memcmp a b < 0 \<longleftrightarrow> a < b) \<and> (memcmp a b = 0 \<longleftrightarrow> a = b)"
proof (induction a b rule: memcmp.induct)
  case (1 a as b bs)
  then show ?case by (auto simp: char_less_of_char)
qed auto

lemma list_less_take:
  fixes a b :: "'a :: linorder list"
  shows "a < b \<longleftrightarrow> (let n = min (length a) (length b) in take n a < take n b \<or> take n a = take n b \<and> length a < length b)"
proof (induction a arbitrary: b)
  case (Cons x a)
  then show ?case by (cases b) (auto simp: Let_def)
next
  case Nil
  then show ?case by (cases b) simp_all
qed

lemma compare_dbt_less:
  assumes "length a < 2 ^ 31" and "length b < 2 ^ 31"
  shows "svn_fs__compare_dbt a b < 0 \<longleftrightarrow> a < b"
proof -
  let ?n = "min (length a) (length b)"
  have "memcmp (take ?n a) (take ?n b) < 0 \<longleftrightarrow> take ?n a < take ?n b" "memcmp (take ?n a) (take ?n b) = 0 \<longleftrightarrow> take ?n a = take ?n b"
    using memcmp_less [of "take ?n a" "take ?n b"] by simp_all
  moreover have "to_int (int (length a) - int (length b)) = int (length a) - int (length b)"
    using assms by (intro to_int_small) simp_all
  ultimately show ?thesis by (auto simp: svn_fs__compare_dbt_def Let_def list_less_take [of a b])
qed

section \<open>Transactions of the reference database\<close>

definition txn_rec :: "bytes \<Rightarrow> fs_tables \<Rightarrow> bytes option" where
  "txn_rec t v = fmlookup (ft_tab v Transactions) t"

definition txn_keys :: "fs_tables \<Rightarrow> bytes list" where
  "txn_keys v = filter (\<lambda>k. k \<noteq> next_id_key) (table_keys Transactions v)"

text \<open>The ids are decimal numbers below the one that is stored as the next.\<close>

definition txns_inv :: "fs_tables \<Rightarrow> bool" where
  "txns_inv v \<longleftrightarrow>
     (case txn_rec next_id_key v of
        None \<Rightarrow> False
      | Some d \<Rightarrow> d = dec_digits (dec_value d) \<and> dec_value d \<le> 1000001 \<and>
          (\<forall>k \<in> set (txn_keys v). k = dec_digits (dec_value k) \<and> dec_value k < dec_value d))"

lemma next_id_not_digits: "next_id_key \<noteq> dec_digits n"
proof
  assume "next_id_key = dec_digits n"
  then have "CHR ''n'' \<in> set (dec_digits n)" by (simp add: next_id_key_def flip: \<open>next_id_key = dec_digits n\<close>)
  then show False using dec_digits_digits [of n] by (auto simp: is_digit_def)
qed

lemma first_of_sorted:
  assumes "sorted ks" and "distinct ks" and "\<forall>a \<in> set ks. \<forall>b \<in> set ks. cmp a b < (0 :: int) \<longleftrightarrow> a < b"
  shows "first_of cmp ks = (case ks of [] \<Rightarrow> DB_err DB_NOTFOUND | k # _ \<Rightarrow> DB_ok k)"
proof (cases ks)
  case (Cons k ks')
  have "foldl (\<lambda>m x. if cmp x m < 0 then x else m) k ks' = k" using assms unfolding Cons
    by (induction ks') (auto simp: not_less)
  then show ?thesis by (simp add: first_of_def Cons)
qed (simp add: first_of_def)

text \<open>The order in which a cursor meets the keys.\<close>

definition keys_short :: "db_table \<Rightarrow> fs_tables \<Rightarrow> bool" where
  "keys_short T v \<longleftrightarrow> (\<forall>k \<in> set (table_keys T v). length k < 2 ^ 31)"

definition at_key :: "bytes list \<Rightarrow> bytes db_result" where
  "at_key ks = (case ks of [] \<Rightarrow> DB_err DB_NOTFOUND | k # _ \<Rightarrow> DB_ok k)"

lemma table_cursor:
  assumes "T \<noteq> Nodes" and "keys_short T v" and "table_keys T v = pre @ ks"
  shows "first_of (key_cmp T) ks = at_key ks"
    and "ks = k # post \<Longrightarrow> filter (\<lambda>x. key_cmp T k x < 0) (table_keys T v) = post"
proof -
  have cmp: "\<forall>a \<in> set (pre @ ks). \<forall>b \<in> set (pre @ ks). key_cmp T a b < 0 \<longleftrightarrow> a < b"
    using assms compare_dbt_less by (cases T) (simp_all add: key_cmp_def keys_short_def)
  have sd: "sorted (pre @ ks)" "distinct (pre @ ks)" unfolding assms(3) [symmetric] table_keys_def sorted_list_of_fset.rep_eq by simp_all
  show "first_of (key_cmp T) ks = at_key ks" unfolding at_key_def
    by (rule first_of_sorted) (use sd cmp in \<open>auto simp: sorted_append\<close>)
  assume k: "ks = k # post"
  have "\<not> key_cmp T k x < 0" if "x \<in> set (pre @ [k])" for x
  proof -
    have "x \<le> k" using that sd(1) k by (auto simp: sorted_append)
    moreover have "key_cmp T k x < 0 \<longleftrightarrow> k < x" using cmp that k by auto
    ultimately show ?thesis by (simp only: not_less)
  qed
  moreover have "key_cmp T k x < 0" if "x \<in> set post" for x
  proof -
    have "k < x" using that sd k by (auto simp: sorted_append less_le)
    then show ?thesis using cmp that k by auto
  qed
  ultimately show "filter (\<lambda>x. key_cmp T k x < 0) (table_keys T v) = post"
    unfolding assms(3) k by (simp add: filter_empty_conv)
qed

lemma txn_list_loop_ref:
  assumes "keys_short Transactions v" and "table_keys Transactions v = pre @ ks"
  shows "txn_list_loop (Suc (length ks)) ref_db (at_key ks) names v =
    Ok (names @ map apr_pstrndup (filter (\<lambda>k. k \<noteq> next_id_key) ks), v)"
  using assms(2)
proof (induction ks arbitrary: pre names)
  case (Cons k ks)
  have "filter (\<lambda>x. key_cmp Transactions k x < 0) (table_keys Transactions v) = ks"
    by (rule table_cursor(2) [OF _ assms(1) Cons.prems]) simp_all
  moreover have "first_of (key_cmp Transactions) ks = at_key ks"
    by (rule table_cursor(1) [of _ _ "pre @ [k]"]) (use assms(1) Cons.prems in simp_all)
  ultimately show ?case using Cons.IH [of "pre @ [k]"] Cons.prems
    by (simp add: at_key_def [of "k # ks"] tbind_def db_peek_def del: txn_list_loop.simps(1))
qed (simp add: at_key_def trail_defs)

lemma get_txn_list_ref:
  assumes "keys_short Transactions v"
  shows "svn_fs__get_txn_list ref_db v = Ok (map apr_pstrndup (txn_keys v), v)"
  using txn_list_loop_ref [OF assms, of "[]" "table_keys Transactions v" "[]"]
    table_cursor(1) [OF _ assms, of "[]" "table_keys Transactions v"]
  by (simp add: svn_fs__get_txn_list_def tbind_def db_peek_def txn_keys_def del: txn_list_loop.simps)

lemma txn_keys_mem: "k \<in> set (txn_keys v) \<longleftrightarrow> k \<noteq> next_id_key \<and> txn_rec k v \<noteq> None"
  by (auto simp: txn_keys_def set_table_keys txn_rec_def fmlookup_dom_iff)

lemma txn_rec_put [simp]:
  "txn_rec k (put_tab T k' x v) = (if T = Transactions \<and> k = k' then Some x else txn_rec k v)"
  "txn_rec k (del_tab T k' v) = (if T = Transactions \<and> k = k' then None else txn_rec k v)"
  "txn_rec k (set_str k'' rs v) = txn_rec k v" "txn_rec k (put_rev_rec n x v) = txn_rec k v"
  by (auto simp: txn_rec_def)

lemma short_key: "n \<le> 1000001 \<Longrightarrow> length (dec_digits n) \<le> 9"
  by (rule dec_digits_short) simp

lemma txns_inv_short: "txns_inv v \<Longrightarrow> keys_short Transactions v"
proof -
  assume inv: "txns_inv v"
  have "length k \<le> 9" if "k \<in> set (table_keys Transactions v)" for k
  proof (cases "k = next_id_key")
    case False
    then have "k \<in> set (txn_keys v)" using that by (simp add: txn_keys_def)
    with inv have "k = dec_digits (dec_value k)" "dec_value k \<le> 1000001" by (auto simp: txns_inv_def split: option.splits)
    with short_key [of "dec_value k"] show ?thesis by simp
  qed (simp add: next_id_key_def)
  then show "keys_short Transactions v" by (force simp: keys_short_def)
qed

lemma pstrndup_digits: "apr_pstrndup (dec_digits n) = dec_digits n"
proof -
  have "\<forall>c \<in> set (dec_digits n). c \<noteq> NUL" using dec_digits_digits [of n] by (auto simp: is_digit_def)
  then show ?thesis by (simp add: apr_pstrndup_def takeWhile_eq_all_conv)
qed

text \<open>The record of a transaction.\<close>

definition txn_skel :: "svn_fs_id_t \<Rightarrow> svn_fs_id_t \<Rightarrow> skel_t \<Rightarrow> skel_t" where
  "txn_skel root base p = skel_list [] [skel_atom ''transaction'', skel_atom (id_text root), skel_atom (id_text base), p]"

lemma key_ok_length: "key_ok nid \<Longrightarrow> length (id_text nid) \<le> 1000000020"
  using id_text_short [of nid] by (auto simp: key_ok_def)

lemma id_atom_text:
  assumes "key_ok nid"
  shows "id_atom nid = Ok (skel_atom (id_text nid))"
proof -
  obtain str where "svn_fs_unparse_id nid = Ok str" "sb_ok str" "sb_contents str = id_text nid"
    using unparse_id_contents [OF key_ok_readable [OF assms]] key_ok_length [OF assms] by auto
  then show ?thesis using mem_bytes_contents [OF sb_ok_shape, of str] by (simp add: id_atom_def svn_fs__mem_atom_def)
qed

lemma put_txn_ref:
  assumes "key_ok root" and "key_ok base" and "svn_fs__is_valid_proplist (Some p)"
    and "length (skel_text (txn_skel root base p)) < 2 ^ 32" and "length t < 2 ^ 32"
  shows "put_txn ref_db t root base p v = Ok ((), put_tab Transactions t (skel_text (txn_skel root base p)) v)"
  using id_atom_text [OF assms(1)] id_atom_text [OF assms(2)] assms(3,5) skel_to_dbt_text(1) [OF assms(4)]
  by (simp add: put_txn_def trail_defs svn_fs__make_empty_list_def svn_fs__str_atom_def txn_skel_def
      svn_fs__str_to_dbt_def svn_fs__set_dbt_def)

definition txn_entry :: "fs_tables \<Rightarrow> bytes \<Rightarrow> skel_t svn_result" where
  "txn_entry v t =
     (case txn_rec t v of
        None \<Rightarrow> Err SVN_ERR_FS_NO_SUCH_TRANSACTION
      | Some d \<Rightarrow>
          (case svn_fs__parse_skel d of
             None \<Rightarrow> Err SVN_ERR_FS_CORRUPT
           | Some skel \<Rightarrow> if is_valid_transaction skel then Ok skel else Err SVN_ERR_FS_CORRUPT))"

lemma get_txn_ref:
  "length t < 2 ^ 32 \<Longrightarrow> svn_fs__get_txn ref_db t v = svn_bind (txn_entry v t) (\<lambda>skel. Ok (skel, v))"
  by (simp add: svn_fs__get_txn_def trail_defs txn_entry_def txn_rec_def svn_fs__str_to_dbt_def svn_fs__set_dbt_def
      of_option_def split: option.split)

lemma txn_entry_put:
  assumes "svn_fs__is_valid_proplist (Some p)" and "length (skel_text (txn_skel root base p)) < 2 ^ 32"
  shows "txn_entry (put_tab Transactions t (skel_text (txn_skel root base p)) v) t' =
    (if t' = t then Ok (skel_norm (txn_skel root base p)) else txn_entry v t')"
proof -
  have "is_valid_transaction (skel_norm (txn_skel root base p))" using assms(1) by (simp add: txn_skel_def)
  with skel_to_dbt_text(2) [OF assms(2)] show ?thesis by (auto simp: txn_entry_def)
qed

lemma get_ids_txn_skel:
  assumes "key_ok root" and "key_ok base"
  shows "get_ids_from_txn_skel (skel_norm (txn_skel root base p)) = Ok (root, base)"
  using key_ok_text(2) [OF assms(1)] key_ok_text(2) [OF assms(2)]
  by (simp add: get_ids_from_txn_skel_def skel_child_def txn_skel_def numeral_2_eq_2)

lemma atom_text_length: "length d < 2 ^ 32 \<Longrightarrow> length (skel_text (skel_atom d)) \<le> length d + 21"
  using dec_digits_length [of "length d" 19] by simp

lemma txn_skel_length:
  assumes "key_ok root" and "key_ok base"
  shows "length (skel_text (txn_skel root base p)) \<le> 2000000140 + length (skel_text p)"
proof -
  have tr: "skel_text (skel_atom ''transaction'') = ''transaction''" by code_simp
  have "length (id_text root) < 2 ^ 32" "length (id_text base) < 2 ^ 32"
    using key_ok_length [OF assms(1)] key_ok_length [OF assms(2)] by simp_all
  note this [THEN atom_text_length]
  then show ?thesis using key_ok_length [OF assms(1)] key_ok_length [OF assms(2)] unfolding txn_skel_def
    by (simp add: tr del: skel_text.simps(1))
qed

definition next_txn :: "fs_tables \<Rightarrow> nat" where
  "next_txn v = dec_value (the (txn_rec next_id_key v))"

lemma txns_inv_alt:
  "txns_inv v \<longleftrightarrow> txn_rec next_id_key v = Some (dec_digits (next_txn v)) \<and> next_txn v \<le> 1000001 \<and>
     (\<forall>k \<in> set (txn_keys v). k = dec_digits (dec_value k) \<and> dec_value k < next_txn v)"
  by (cases "txn_rec next_id_key v") (auto simp: txns_inv_def next_txn_def)

lemma next_key_dbt [simp]: "svn_fs__str_to_dbt next_id_key = next_id_key"
  by (simp add: svn_fs__str_to_dbt_def svn_fs__set_dbt_def next_id_key_def)

lemma allocate_txn_id_ref:
  assumes "txns_inv v"
  shows "allocate_txn_id ref_db v =
    (if next_txn v \<le> 1000000
     then Ok (dec_digits (next_txn v), put_tab Transactions next_id_key (dec_digits (Suc (next_txn v))) v)
     else Err SVN_ERR_FS_CORRUPT)"
proof -
  let ?n = "next_txn v"
  have rec: "fmlookup (ft_tab v Transactions) next_id_key = Some (dec_digits ?n)" and n: "?n \<le> 1000001"
    using assms by (simp_all add: txns_inv_alt txn_rec_def)
  have get: "svn_fs__getsize (dec_digits ?n) 1000000 = (if ?n \<le> 1000000 then Some (of_nat ?n, []) else None)"
  proof -
    have "takeWhile is_digit (dec_digits ?n) = dec_digits ?n" "dropWhile is_digit (dec_digits ?n) = []"
      using takeWhile_dec_digits [of "[]" ?n] by simp_all
    then show ?thesis unfolding getsize_spec by (simp only: Let_def) simp
  qed
  have "unat (of_nat ?n + 1 :: 64 word) = Suc ?n" using n by (simp add: unat_word_ariths unat_of_nat64)
  moreover have "length (dec_digits (Suc ?n)) \<le> 200" using dec_digits_short [of "Suc ?n"] n by simp
  ultimately have put: "svn_fs__putsize 200 (of_nat ?n + 1) = Some (dec_digits (Suc ?n))"
    using putsize_spec [of 200 "of_nat ?n + 1"] by simp
  have "svn_fs__set_dbt (dec_digits (Suc ?n)) = dec_digits (Suc ?n)"
    using dec_digits_short [of "Suc ?n"] n by (simp add: svn_fs__set_dbt_def)
  then show ?thesis using rec get put by (simp add: allocate_txn_id_def trail_defs pstrndup_digits Let_def)
qed

lemma txns_inv_new:
  fixes x :: bytes
  assumes "txns_inv v" and "next_txn v \<le> 1000000"
  defines "v' \<equiv> put_tab Transactions (dec_digits (next_txn v)) x (put_tab Transactions next_id_key (dec_digits (Suc (next_txn v))) v)"
  shows "txns_inv v'" and "dec_digits (next_txn v) \<notin> set (txn_keys v)"
    and "set (txn_keys v') = insert (dec_digits (next_txn v)) (set (txn_keys v))"
proof -
  let ?t = "dec_digits (next_txn v)"
  have ne: "?t \<noteq> next_id_key" using next_id_not_digits by metis
  then have next': "txn_rec next_id_key v' = Some (dec_digits (Suc (next_txn v)))" by (simp add: v'_def)
  show keys: "set (txn_keys v') = insert ?t (set (txn_keys v))" using ne by (auto simp: txn_keys_mem v'_def split: if_splits)
  have nx: "next_txn v' = Suc (next_txn v)" by (simp add: next_txn_def [of v'] next')
  have old: "k = dec_digits (dec_value k) \<and> dec_value k < next_txn v" if "k \<in> set (txn_keys v)" for k
    using assms(1) that by (simp add: txns_inv_alt)
  show "txns_inv v'" unfolding txns_inv_alt [of v'] keys nx using old next' assms(2) by force
  show "?t \<notin> set (txn_keys v)" using old by force
qed

lemma create_txn_ref:
  assumes "txns_inv v" and "next_txn v \<le> 1000000" and "key_ok root"
  defines "t \<equiv> dec_digits (next_txn v)"
  shows "svn_fs__create_txn ref_db root v =
    Ok (t, put_tab Transactions t (skel_text (txn_skel root root (skel_list [] []))) (put_tab Transactions next_id_key (dec_digits (Suc (next_txn v))) v))"
proof -
  have len: "length (skel_text (txn_skel root root (skel_list [] []))) < 2 ^ 32"
    using txn_skel_length [OF assms(3,3), of "skel_list [] []"] by simp
  have "svn_fs__is_valid_proplist (Some (skel_list [] []))" by (simp add: svn_fs__is_valid_proplist_def)
  moreover have "length t < 2 ^ 32" using dec_digits_short [of "next_txn v"] assms(2) by (simp add: t_def)
  ultimately show ?thesis
    using allocate_txn_id_ref [OF assms(1)] assms(2) put_txn_ref [OF assms(3,3) _ len, of t]
    by (simp add: svn_fs__create_txn_def tbind_def tret_def svn_fs__make_empty_list_def t_def)
qed

lemma get_txn_result:
  assumes "bdb_laws db view" and "length t < 2 ^ 32"
  shows "trail_result (svn_fs__get_txn db t) s = txn_entry (view s) t"
  using refines_result [OF refines_get_txn [OF assms(1)], of t s] get_txn_ref [OF assms(2), of "view s"]
  by (cases "txn_entry (view s) t") (simp_all add: trail_result_def)

lemma get_txn_ids_result:
  assumes "bdb_laws db view" and "length t < 2 ^ 32"
  shows "trail_result (svn_fs__get_txn_ids db t) s = svn_bind (txn_entry (view s) t) get_ids_from_txn_skel"
proof -
  have "trail_result (svn_fs__get_txn_ids ref_db t) (view s) = svn_bind (txn_entry (view s) t) get_ids_from_txn_skel"
  proof (cases "txn_entry (view s) t")
    case (Ok skel)
    then show ?thesis using get_txn_ref [OF assms(2), of "view s"]
      by (cases "get_ids_from_txn_skel skel") (simp_all add: trail_result_def svn_fs__get_txn_ids_def tbind_def tlift_def)
  qed (use get_txn_ref [OF assms(2), of "view s"] in \<open>simp_all add: trail_result_def svn_fs__get_txn_ids_def tbind_def\<close>)
  then show ?thesis using refines_result [OF refines_get_txn_ids [OF assms(1)], of t s] by simp
qed

section \<open>Properties\<close>

text \<open>
  C26. On every database that works as documented, up to 1000001 transactions can be created: each gets
  an id that is not in use, appears in the list of transactions with those that were there, and has
  the given root as its root and its base root; every other transaction is read as before.  After
  that, creating a transaction reports a corrupt filesystem.
\<close>

theorem create_txn_read:
  assumes "bdb_laws db view" and "txns_inv (view s)" and "key_ok root"
  shows "if next_txn (view s) \<le> 1000000
    then \<exists>t s1 ts. svn_fs__create_txn db root s = Ok (t, s1) \<and> txns_inv (view s1) \<and> t \<notin> set (txn_keys (view s)) \<and>
      trail_result (svn_fs__get_txn_list db) s1 = Ok ts \<and> set ts = insert t (set (txn_keys (view s))) \<and>
      trail_result (svn_fs__get_txn_ids db t) s1 = Ok (root, root) \<and>
      (\<forall>t'. t' \<noteq> t \<and> t' \<noteq> next_id_key \<and> length t' < 2 ^ 32 \<longrightarrow>
         trail_result (svn_fs__get_txn db t') s1 = trail_result (svn_fs__get_txn db t') s)
    else svn_fs__create_txn db root s = Err SVN_ERR_FS_CORRUPT"
proof (cases "next_txn (view s) \<le> 1000000")
  case True
  let ?v = "view s" and ?t = "dec_digits (next_txn (view s))" and ?e = "skel_list [] []"
  let ?v1 = "put_tab Transactions ?t (skel_text (txn_skel root root ?e)) (put_tab Transactions next_id_key (dec_digits (Suc (next_txn ?v))) ?v)"
  obtain s1 where s1: "svn_fs__create_txn db root s = Ok (?t, s1)" "view s1 = ?v1"
    using refines_Ok [OF refines_create_txn [OF assms(1)] create_txn_ref [OF assms(2) True assms(3)]] by blast
  have new: "txns_inv ?v1" "?t \<notin> set (txn_keys ?v)" "set (txn_keys ?v1) = insert ?t (set (txn_keys ?v))"
    by (rule txns_inv_new [OF assms(2) True])+
  have len: "length (skel_text (txn_skel root root ?e)) < 2 ^ 32" using txn_skel_length [OF assms(3,3), of ?e] by simp
  have short: "length ?t < 2 ^ 32" using dec_digits_short [of "next_txn ?v"] True by simp
  have valid: "svn_fs__is_valid_proplist (Some ?e)" by (simp add: svn_fs__is_valid_proplist_def)
  have "map apr_pstrndup (txn_keys ?v1) = txn_keys ?v1"
    by (rule map_idI) (use new(1) pstrndup_digits in \<open>metis txns_inv_alt\<close>)
  then have list: "trail_result (svn_fs__get_txn_list db) s1 = Ok (txn_keys ?v1)"
    using refines_result [OF refines_get_txn_list [OF assms(1)], of s1] get_txn_list_ref [OF txns_inv_short [OF new(1)]] s1(2)
    by (simp add: trail_result_def)
  have ids: "trail_result (svn_fs__get_txn_ids db ?t) s1 = Ok (root, root)"
    using get_txn_ids_result [OF assms(1) short, of s1] get_ids_txn_skel [OF assms(3,3)] s1(2) txn_entry_put [OF valid len]
    by (simp del: skel_norm.simps)
  have "txn_entry ?v1 t' = txn_entry ?v t'" if "t' \<noteq> ?t" "t' \<noteq> next_id_key" for t'
    using that by (simp add: txn_entry_def)
  then have "trail_result (svn_fs__get_txn db t') s1 = trail_result (svn_fs__get_txn db t') s"
    if "t' \<noteq> ?t" "t' \<noteq> next_id_key" "length t' < 2 ^ 32" for t'
    using that get_txn_result [OF assms(1) that(3)] s1(2) by simp
  with True s1 new list ids show ?thesis by auto
next
  case False
  then have "svn_fs__create_txn ref_db root (view s) = Err SVN_ERR_FS_CORRUPT"
    using allocate_txn_id_ref [OF assms(2)] by (simp add: svn_fs__create_txn_def tbind_def)
  with False show ?thesis using refines_Err [OF refines_create_txn [OF assms(1)]] by simp
qed

lemma empty_txns:
  "txns_inv (put_tab Transactions next_id_key ''0'' new_tables)" "next_txn (put_tab Transactions next_id_key ''0'' new_tables) = 0"
proof -
  let ?v = "put_tab Transactions next_id_key ''0'' new_tables"
  have zero: "dec_digits 0 = ''0''" by code_simp
  have "dec_value ''0'' = 0" unfolding zero [symmetric] by (rule dec_value_digits)
  then show n: "next_txn ?v = 0" by (simp add: next_txn_def)
  have "k \<notin> set (txn_keys ?v)" for k using txn_keys_mem [of k ?v] by (simp add: txn_rec_def new_tables_def)
  then show "txns_inv ?v" by (simp add: txns_inv_alt n zero)
qed

theorem create_txn_read_witness:
  "\<exists>t s1. svn_fs__create_txn ref_db [0, 0] (put_tab Transactions next_id_key ''0'' new_tables) = Ok (t, s1) \<and>
    trail_result (svn_fs__get_txn_ids ref_db t) s1 = Ok ([0, 0], [0, 0])"
proof -
  let ?v = "put_tab Transactions next_id_key ''0'' new_tables"
  have inv: "txns_inv (id ?v)" using empty_txns(1) by simp
  have ok: "key_ok [0, 0]" by (simp add: key_ok_def)
  show ?thesis using create_txn_read [of ref_db id ?v "[0, 0]", OF bdb_laws_ref inv ok] empty_txns(2) by auto
qed

lemma id_eq_iff: "\<forall>c \<in> set a \<union> set b. 0 \<le> c \<Longrightarrow> svn_fs__id_eq a b \<longleftrightarrow> a = b"
  by (induction a b rule: svn_fs__id_eq.induct) auto

lemma txn_prop_result:
  assumes "bdb_laws db view" and "length t < 2 ^ 32"
  shows "trail_result (txn_body_txn_prop db t n) s =
    svn_bind (txn_entry (view s) t) (\<lambda>skel. svn_fs__get_prop (skel_children skel ! 3) n)"
proof -
  have four: "3 < length (skel_children skel)" if "txn_entry (view s) t = Ok skel" for skel
    using that by (auto simp: txn_entry_def split: option.splits if_splits elim: is_valid_transaction.elims(2))
  have "trail_result (txn_body_txn_prop ref_db t n) (view s) =
      svn_bind (txn_entry (view s) t) (\<lambda>skel. svn_fs__get_prop (skel_children skel ! 3) n)"
  proof (cases "txn_entry (view s) t")
    case (Ok skel)
    then show ?thesis using get_txn_ref [OF assms(2), of "view s"] four [OF Ok]
      by (cases "svn_fs__get_prop (skel_children skel ! 3) n")
        (simp_all add: trail_result_def txn_body_txn_prop_def tbind_def tlift_def get_proplist_from_txn_skel_def skel_child_def)
  qed (use get_txn_ref [OF assms(2), of "view s"] in \<open>simp_all add: trail_result_def txn_body_txn_prop_def tbind_def\<close>)
  then show ?thesis using refines_result [OF refines_txn_prop [OF assms(1)], of t n s] by simp
qed

text \<open>
  On every database that works as documented, setting the root of a transaction changes its root and
  keeps its base root and its properties, whether or not the new root is the old one; every other
  transaction is read as before.
\<close>

lemma set_txn_root_read:
  assumes "bdb_laws db view" and "length t < 2 ^ 32"
    and "txn_entry (view s) t = Ok skel" and "get_ids_from_txn_skel skel = Ok (old, base)"
    and "key_ok old" and "key_ok base" and "key_ok root"
    and "length (skel_text (txn_skel root base (skel_children skel ! 3))) < 2 ^ 32"
  shows "\<exists>s1. svn_fs__set_txn_root db t root s = Ok ((), s1) \<and>
    trail_result (svn_fs__get_txn_ids db t) s1 = Ok (root, base) \<and>
    (\<forall>n. trail_result (txn_body_txn_prop db t n) s1 = trail_result (txn_body_txn_prop db t n) s) \<and>
    (\<forall>t'. t' \<noteq> t \<and> length t' < 2 ^ 32 \<longrightarrow> trail_result (svn_fs__get_txn db t') s1 = trail_result (svn_fs__get_txn db t') s)"
proof -
  let ?p = "skel_children skel ! 3" and ?v = "view s"
  let ?v1 = "if old = root then ?v else put_tab Transactions t (skel_text (txn_skel root base ?p)) ?v"
  have "is_valid_transaction skel" using assms(3) by (auto simp: txn_entry_def split: option.splits if_splits)
  then have p: "svn_fs__is_valid_proplist (Some ?p)" "3 < length (skel_children skel)"
    by (auto elim!: is_valid_transaction.elims(2) simp: numeral_3_eq_3)
  have eq: "svn_fs__id_eq old root \<longleftrightarrow> old = root"
    using assms(5,7) id_eq_iff [of old root] by (auto simp: key_ok_def)
  have "svn_fs__set_txn_root ref_db t root ?v = Ok ((), ?v1)"
    using get_txn_ref [OF assms(2), of ?v] assms(3,4) eq p(2) put_txn_ref [OF assms(7,6) p(1) assms(8,2)]
    by (simp add: svn_fs__set_txn_root_def tbind_def tlift_def tret_def get_proplist_from_txn_skel_def skel_child_def)
  then obtain s1 where s1: "svn_fs__set_txn_root db t root s = Ok ((), s1)" "view s1 = ?v1"
    using refines_Ok [OF refines_set_txn_root [OF assms(1)]] by blast
  have entry: "txn_entry ?v1 t' = (if t' = t \<and> old \<noteq> root then Ok (skel_norm (txn_skel root base ?p)) else txn_entry ?v t')" for t'
    using txn_entry_put [OF p(1) assms(8)] by simp
  have "trail_result (svn_fs__get_txn_ids db t) s1 = Ok (root, base)"
    using get_txn_ids_result [OF assms(1,2), of s1] s1(2) entry [of t] assms(3,4) get_ids_txn_skel [OF assms(7,6)]
    by (cases "old = root") simp_all
  moreover have "trail_result (txn_body_txn_prop db t n) s1 = trail_result (txn_body_txn_prop db t n) s" for n
    using txn_prop_result [OF assms(1,2)] s1(2) entry [of t] assms(3) get_prop_norm [of ?p n]
    by (cases "old = root") (simp_all add: txn_skel_def)
  moreover have "trail_result (svn_fs__get_txn db t') s1 = trail_result (svn_fs__get_txn db t') s"
    if "t' \<noteq> t" "length t' < 2 ^ 32" for t'
    using get_txn_result [OF assms(1) that(2)] s1(2) entry [of t'] that(1) by (cases "old = root") simp_all
  ultimately show ?thesis using s1(1) by blast
qed

end
