(* ===== verification/Fs_Reps.thy ===== *)
theory Fs_Reps
  imports Fs_Txns Svndiff Hashdump
begin

text \<open>
  Representations (\<open>libsvn_fs/reps-strings.c\<close>): the contents behind a key of the representations
  table, stored as a full text or as a delta against another representation.  A null skel and a
  missing child are read through null pointers.
\<close>

section \<open>Representation skels\<close>

definition rep_children :: "skel_t option \<Rightarrow> skel_t list svn_result" where
  "rep_children rep =
     (case rep of Some (skel_list body children) \<Rightarrow> Ok children | _ \<Rightarrow> Abort)"

definition rep_header :: "skel_t option \<Rightarrow> skel_t list svn_result" where
  "rep_header rep =
     svn_bind (rep_children rep) (\<lambda>children.
       case children of
         skel_list body flags # rest \<Rightarrow> Ok flags
       | skel_atom d # rest \<Rightarrow> Ok []
       | [] \<Rightarrow> Abort)"

definition first_skel :: "skel_t list \<Rightarrow> skel_t option" where
  "first_skel cs = (case cs of [] \<Rightarrow> None | c # _ \<Rightarrow> Some c)"

definition rep_is_fulltext :: "skel_t option \<Rightarrow> bool svn_result" where
  "rep_is_fulltext rep = svn_bind (rep_header rep) (\<lambda>flags. Ok (svn_fs__matches_atom (first_skel flags) ''fulltext''))"

definition rep_is_delta :: "skel_t option \<Rightarrow> bool svn_result" where
  "rep_is_delta rep = svn_bind (rep_header rep) (\<lambda>flags. Ok (svn_fs__matches_atom (first_skel flags) ''delta''))"

definition rep_is_mutable :: "skel_t option \<Rightarrow> bool svn_result" where
  "rep_is_mutable rep =
     svn_bind (rep_header rep) (\<lambda>flags.
       case flags of
         [] \<Rightarrow> Abort
       | _ # flags' \<Rightarrow> Ok (list_ex (\<lambda>flag. svn_fs__matches_atom (Some flag) ''mutable'') flags'))"

definition rep_set_mutable_flag :: "skel_t \<Rightarrow> skel_t svn_result" where
  "rep_set_mutable_flag rep =
     svn_bind (rep_is_mutable (Some rep)) (\<lambda>mutable.
       if mutable then Ok rep
       else
         svn_bind (skel_child 0 rep) (\<lambda>header.
         svn_bind (svn_fs__append (svn_fs__str_atom ''mutable'') header) (\<lambda>header.
           Ok (set_skel_child 0 header rep))))"

text \<open>\<open>None\<close> is a null key.\<close>

definition make_fulltext_rep_skel :: "bytes option \<Rightarrow> bool \<Rightarrow> skel_t svn_result" where
  "make_fulltext_rep_skel str_key mutable =
     svn_bind (if mutable then svn_fs__prepend (svn_fs__str_atom ''mutable'') svn_fs__make_empty_list
               else Ok svn_fs__make_empty_list) (\<lambda>header.
     svn_bind (svn_fs__prepend (svn_fs__str_atom ''fulltext'') header) (\<lambda>header.
     svn_bind (svn_fs__prepend
                (case str_key of Some k \<Rightarrow> svn_fs__str_atom k | None \<Rightarrow> svn_fs__mem_atom []) svn_fs__make_empty_list) (\<lambda>rep_skel.
       svn_fs__prepend header rep_skel)))"

definition fulltext_string_key :: "skel_t option \<Rightarrow> bytes svn_result" where
  "fulltext_string_key rep =
     svn_bind (rep_is_fulltext rep) (\<lambda>ft.
       if \<not> ft then Err SVN_ERR_FS_GENERAL
       else
         svn_bind (rep_children rep) (\<lambda>children.
           if length children < 2 then Abort else Ok (apr_pstrndup (skel_data (children ! 1)))))"

text \<open>The test of the diff format compares at most as many bytes as the atom has.\<close>

definition svndiff_format :: "bytes \<Rightarrow> bool" where
  "svndiff_format d \<longleftrightarrow> strncmp_eq (take (length d) (''svndiff'' @ [NUL])) d"

definition window_string_key :: "skel_t \<Rightarrow> bytes svn_result" where
  "window_string_key window =
     svn_bind (skel_child 1 window) (\<lambda>wnd_skel.
     svn_bind (skel_child 0 wnd_skel) (\<lambda>diff_skel.
     svn_bind (skel_child 0 diff_skel) (\<lambda>diff.
       if \<not> svndiff_format (skel_data diff) then Err SVN_ERR_FS_CORRUPT
       else svn_bind (skel_child 1 diff_skel) (\<lambda>key. Ok (apr_pstrndup (skel_data key))))))"

fun window_string_keys :: "skel_t list \<Rightarrow> bytes list svn_result" where
  "window_string_keys [] = Ok []"
| "window_string_keys (window # windows) =
     svn_bind (window_string_key window) (\<lambda>key.
     svn_bind (window_string_keys windows) (\<lambda>keys. Ok (key # keys)))"

definition delta_string_keys :: "skel_t option \<Rightarrow> bytes list svn_result" where
  "delta_string_keys rep =
     svn_bind (rep_is_delta rep) (\<lambda>delta.
       if \<not> delta then Err SVN_ERR_FS_GENERAL
       else svn_bind (rep_children rep) (\<lambda>children. window_string_keys (tl children)))"

fun delete_strings :: "'d bdb \<Rightarrow> bytes list \<Rightarrow> ('d, unit) trail" where
  "delete_strings db [] = tret ()"
| "delete_strings db (str_key # keys) =
     tbind (svn_fs__string_delete db str_key) (\<lambda>_. delete_strings db keys)"

section \<open>Reading the contents\<close>

text \<open>
  The baton of the window handler: \<open>wh_buf\<close> is the text reconstructed so far, and \<open>len_read\<close> its
  length.
\<close>

record window_handler_baton_t =
  wh_buf :: bytes
  wh_req_offset :: nat
  wh_cur_offset :: nat
  wh_base_rep :: bytes
  wh_len_req :: nat
  wh_done :: bool

text \<open>
  One operation.  \<open>src\<close> is the source text once it has been read; \<open>read\<close> reads from the base
  representation.  A copy outside the bytes that are there stops the program.
\<close>

definition window_op ::
  "(nat \<Rightarrow> nat \<Rightarrow> ('d, bytes) trail) \<Rightarrow> svn_txdelta_window_t \<Rightarrow> svn_txdelta_op_t \<Rightarrow> bytes option \<Rightarrow> bytes
     \<Rightarrow> ('d, bytes option \<times> bytes) trail"
where
  "window_op read window op src tdata =
     (let off = unat (op_offset op); len = unat (op_length op) in
      if unat (tview_len window) < length tdata + len then tlift Abort
      else case action_code op of
        svn_txdelta_source \<Rightarrow>
          tbind (case src of
                   Some sdata \<Rightarrow> tret sdata
                 | None \<Rightarrow> read (unat (sview_offset window)) (unat (sview_len window))) (\<lambda>sdata.
            if length sdata < off + len then tlift Abort
            else tret (Some sdata, tdata @ seg off len sdata))
      | svn_txdelta_target \<Rightarrow>
          if len \<noteq> 0 \<and> \<not> off < length tdata \<or> 2 ^ 31 \<le> off + len then tlift Abort
          else tret (src, copy_from_target off len tdata)
      | svn_txdelta_new \<Rightarrow>
          if length (new_data window) < off + len then tlift Abort
          else tret (src, tdata @ seg off len (new_data window)))"

text \<open>
  The loop over the operations: it stops once the request is filled.  The result is the text of
  the window so far and the number of bytes to copy from it.
\<close>

fun window_ops ::
  "(nat \<Rightarrow> nat \<Rightarrow> ('d, bytes) trail) \<Rightarrow> svn_txdelta_window_t \<Rightarrow> nat \<Rightarrow> nat \<Rightarrow> svn_txdelta_op_t list
     \<Rightarrow> bytes option \<Rightarrow> bytes \<Rightarrow> nat \<Rightarrow> ('d, bytes \<times> nat) trail"
where
  "window_ops read window discard_amt room [] src tdata copy_amt = tret (tdata, copy_amt)"
| "window_ops read window discard_amt room (op # rest) src tdata copy_amt =
     tbind (window_op read window op src tdata) (\<lambda>(src, tdata).
       if discard_amt \<le> length tdata then
         (let copy_amt = length tdata - discard_amt in
          if room < copy_amt then tret (tdata, room)
          else window_ops read window discard_amt room rest src tdata copy_amt)
       else window_ops read window discard_amt room rest src tdata copy_amt)"

definition rep_window_handler ::
  "(bytes \<Rightarrow> nat \<Rightarrow> nat \<Rightarrow> ('d, bytes) trail) \<Rightarrow> svn_txdelta_window_t option
     \<Rightarrow> window_handler_baton_t \<times> 'd \<Rightarrow> (window_handler_baton_t \<times> 'd) svn_result"
where
  "rep_window_handler read window p =
     (case p of (wb, s) \<Rightarrow>
        case window of
          None \<Rightarrow> Ok (wb\<lparr>wh_done := True\<rparr>, s)
        | Some w \<Rightarrow>
            if wh_done wb then Ok (wb, s)
            else
              (let discard_amt = wh_req_offset wb - wh_cur_offset wb; room = wh_len_req wb - length (wh_buf wb) in
               svn_bind (window_ops (read (wh_base_rep wb)) w discard_amt room (ops w) None [] 0 s) (\<lambda>((tdata, copy_amt), s).
                 let cur_offset = wh_cur_offset wb + copy_amt in
                 Ok (wb\<lparr>wh_buf := wh_buf wb @ seg discard_amt copy_amt tdata, wh_cur_offset := cur_offset,
                        wh_done := (wh_done wb \<or> wh_req_offset wb + wh_len_req wb \<le> cur_offset)\<rparr>, s))))"

text \<open>A step on the database inside the state of the svndiff parser.\<close>

definition in_parser :: "('d, 'a) trail \<Rightarrow> (('w \<times> 'd) decode_baton, 'a) trail" where
  "in_parser m dec =
     (case consumer_baton dec of (wb, s) \<Rightarrow>
        svn_bind (m s) (\<lambda>(x, s'). Ok (x, dec\<lparr>consumer_baton := (wb, s')\<rparr>)))"

definition parser_done :: "((window_handler_baton_t \<times> 'd) decode_baton, bool) trail" where
  "parser_done dec = Ok (wh_done (fst (consumer_baton dec)), dec)"

definition parser_update ::
  "(window_handler_baton_t \<Rightarrow> window_handler_baton_t) \<Rightarrow> ((window_handler_baton_t \<times> 'd) decode_baton, unit) trail"
where
  "parser_update f dec = Ok ((), dec\<lparr>consumer_baton := (f (fst (consumer_baton dec)), snd (consumer_baton dec))\<rparr>)"

text \<open>Sending the svndiff data of a string to the parser, in chunks of 4096 bytes.\<close>

fun send_svndiff ::
  "nat \<Rightarrow> 'd bdb \<Rightarrow> (bytes \<Rightarrow> nat \<Rightarrow> nat \<Rightarrow> ('d, bytes) trail) \<Rightarrow> bytes \<Rightarrow> nat
     \<Rightarrow> ((window_handler_baton_t \<times> 'd) decode_baton, unit) trail"
where
  "send_svndiff 0 db read str_key off = tlift Abort"
| "send_svndiff (Suc n) db read str_key off =
     tbind (in_parser (svn_fs__string_read db str_key off 4096)) (\<lambda>chunk.
     tbind (\<lambda>dec. write_handler (rep_window_handler read) dec chunk) (\<lambda>amt.
     tbind parser_done (\<lambda>done.
       if \<not> done \<and> amt \<noteq> 0 then send_svndiff n db read str_key (off + length chunk) else tret ())))"

text \<open>A number in a window skel, as an \<open>apr_size_t\<close>.\<close>

definition skel_size :: "skel_t \<Rightarrow> nat svn_result" where
  "skel_size skel = svn_bind (atoi (apr_pstrndup (skel_data skel))) (\<lambda>n. Ok (nat (n mod 2 ^ 64)))"

fun read_windows ::
  "'d bdb \<Rightarrow> (bytes \<Rightarrow> nat \<Rightarrow> nat \<Rightarrow> ('d, bytes) trail) \<Rightarrow> nat \<Rightarrow> nat \<Rightarrow> skel_t list
     \<Rightarrow> ((window_handler_baton_t \<times> 'd) decode_baton, unit) trail"
where
  "read_windows db read offset len [] = tret ()"
| "read_windows db read offset len (this_window # windows) =
     tbind (tlift (skel_child 1 this_window)) (\<lambda>wnd_skel.
     tbind (tlift (svn_bind (skel_child 0 this_window) skel_size)) (\<lambda>this_off.
     tbind (tlift (svn_bind (skel_child 1 wnd_skel) skel_size)) (\<lambda>this_len.
       if nat ((int this_off + int this_len - 1) mod 2 ^ 64) < offset then read_windows db read offset len windows
       else if (offset + len) mod 2 ^ 64 < this_off then tret ()
       else
         tbind (tlift (svn_bind (skel_child 0 wnd_skel) (skel_child 1))) (\<lambda>key_skel.
         tbind (tlift (skel_child 3 wnd_skel)) (\<lambda>base_skel.
         let str_key = apr_pstrndup (skel_data key_skel) in
         tbind (parser_update (\<lambda>wb. wb\<lparr>wh_cur_offset := this_off, wh_base_rep := apr_pstrndup (skel_data base_skel)\<rparr>)) (\<lambda>_.
         tbind (in_parser (db_peek (str_bytes db (svn_fs__str_to_dbt str_key)))) (\<lambda>fuel.
         tbind (send_svndiff (Suc fuel) db read str_key 0) (\<lambda>_.
         tbind parser_done (\<lambda>done.
           if done then tret () else read_windows db read offset len windows))))))))) "

definition parser_close ::
  "(bytes \<Rightarrow> nat \<Rightarrow> nat \<Rightarrow> ('d, bytes) trail) \<Rightarrow> ((window_handler_baton_t \<times> 'd) decode_baton, bytes) trail"
where
  "parser_close read dec =
     svn_bind (close_handler (rep_window_handler read) dec) (\<lambda>dec. Ok (wh_buf (fst (consumer_baton dec)), dec))"

text \<open>Reading a range of a delta: the parser gets the header and the data of the relevant windows.\<close>

definition parse_delta ::
  "'d bdb \<Rightarrow> (bytes \<Rightarrow> nat \<Rightarrow> nat \<Rightarrow> ('d, bytes) trail) \<Rightarrow> skel_t list \<Rightarrow> nat \<Rightarrow> nat
     \<Rightarrow> ((window_handler_baton_t \<times> 'd) decode_baton, bytes) trail"
where
  "parse_delta db read windows offset len =
     tbind (\<lambda>dec. write_handler (rep_window_handler read) dec svndiff_magic) (\<lambda>_.
     tbind (read_windows db read offset len windows) (\<lambda>_. parser_close read))"

definition read_delta ::
  "'d bdb \<Rightarrow> (bytes \<Rightarrow> nat \<Rightarrow> nat \<Rightarrow> ('d, bytes) trail) \<Rightarrow> skel_t list \<Rightarrow> nat \<Rightarrow> nat \<Rightarrow> ('d, bytes) trail"
where
  "read_delta db read windows offset len s =
     (if windows = [] then Abort
      else
        (let wb = \<lparr>wh_buf = [], wh_req_offset = offset, wh_cur_offset = 0, wh_base_rep = [], wh_len_req = len, wh_done = False\<rparr> in
         svn_bind (parse_delta db read windows offset len (svn_txdelta_parse_svndiff (wb, s) False)) (\<lambda>(data, dec).
           Ok (data, snd (consumer_baton dec)))))"

text \<open>
  The depth of the recursion through base representations.  A chain of different representations
  is not longer than their number; a cycle recurses until the stack is exhausted.
\<close>

fun read_range :: "nat \<Rightarrow> 'd bdb \<Rightarrow> bytes \<Rightarrow> nat \<Rightarrow> nat \<Rightarrow> ('d, bytes) trail" where
  "read_range 0 db rep_key offset len = tlift Abort"
| "read_range (Suc n) db rep_key offset len =
     tbind (svn_fs__read_rep db rep_key) (\<lambda>rep.
     tbind (tlift (rep_is_fulltext rep)) (\<lambda>ft.
       if ft then
         tbind (tlift (fulltext_string_key rep)) (\<lambda>str_key. svn_fs__string_read db str_key offset len)
       else
         tbind (tlift (rep_children rep)) (\<lambda>children. read_delta db (read_range n db) (tl children) offset len)))"

definition rep_read_range :: "'d bdb \<Rightarrow> bytes \<Rightarrow> nat \<Rightarrow> nat \<Rightarrow> ('d, bytes) trail" where
  "rep_read_range db rep_key offset len =
     tbind (db_peek (db_count db Representations)) (\<lambda>n. read_range (Suc n) db rep_key offset len)"

section \<open>The size and the whole contents\<close>

text \<open>The last window package; its offset and size are added as \<open>int\<close>s.\<close>

definition delta_size :: "skel_t list \<Rightarrow> nat svn_result" where
  "delta_size windows =
     (if windows = [] then Abort
      else
        (let pkg_skel = last windows in
         svn_bind (skel_child 0 pkg_skel) (\<lambda>offset_skel.
         svn_bind (skel_child 1 pkg_skel) (\<lambda>window_skel.
         svn_bind (skel_child 1 window_skel) (\<lambda>size_skel.
         svn_bind (atoi (apr_pstrndup (skel_data offset_skel))) (\<lambda>offset.
         svn_bind (atoi (apr_pstrndup (skel_data size_skel))) (\<lambda>sz.
           if offset + sz < - (2 ^ 31) \<or> 2 ^ 31 \<le> offset + sz then Abort else Ok (nat ((offset + sz) mod 2 ^ 64)))))))))"

definition svn_fs__rep_contents_size :: "'d bdb \<Rightarrow> bytes \<Rightarrow> ('d, nat) trail" where
  "svn_fs__rep_contents_size db rep =
     tbind (svn_fs__read_rep db rep) (\<lambda>rep_skel.
     tbind (tlift (rep_is_fulltext rep_skel)) (\<lambda>ft.
       if ft then
         tbind (tlift (fulltext_string_key rep_skel)) (\<lambda>str_key. svn_fs__string_size db str_key)
       else
         tbind (tlift (rep_children rep_skel)) (\<lambda>children. tlift (delta_size (tl children)))))"

definition svn_fs__rep_contents :: "'d bdb \<Rightarrow> bytes \<Rightarrow> ('d, bytes) trail" where
  "svn_fs__rep_contents db rep =
     tbind (svn_fs__rep_contents_size db rep) (\<lambda>len.
     tbind (rep_read_range db rep 0 len) (\<lambda>data.
       if length data \<noteq> len then tfail SVN_ERR_FS_CORRUPT else tret data))"

section \<open>Mutable representations\<close>

text \<open>The loop that copies the text of a delta to a new string, 10000 bytes at a time.\<close>

fun copy_delta :: "nat \<Rightarrow> 'd bdb \<Rightarrow> bytes \<Rightarrow> nat \<Rightarrow> nat \<Rightarrow> bytes option \<Rightarrow> ('d, bytes option) trail" where
  "copy_delta 0 db rep offset sz new_str = tlift Abort"
| "copy_delta (Suc n) db rep offset sz new_str =
     (if offset < sz then
        tbind (rep_read_range db rep offset (min 10000 (sz - offset))) (\<lambda>data.
        tbind (svn_fs__string_append db new_str data) (\<lambda>k.
          copy_delta n db rep (offset + length data) sz (Some k)))
      else tret new_str)"

definition mutable_copy :: "'d bdb \<Rightarrow> bytes \<Rightarrow> skel_t option \<Rightarrow> ('d, skel_t) trail" where
  "mutable_copy db rep rep_skel =
     tbind (tlift (rep_is_fulltext rep_skel)) (\<lambda>ft.
       if ft then
         tbind (tlift (fulltext_string_key rep_skel)) (\<lambda>old_str.
         tbind (svn_fs__string_copy db old_str) (\<lambda>new_str.
         tbind (tlift (case rep_skel of None \<Rightarrow> Abort | Some r \<Rightarrow> rep_set_mutable_flag r)) (\<lambda>r.
           tret (set_skel_child 1 (skel_atom new_str) r))))
       else
         tbind (svn_fs__rep_contents_size db rep) (\<lambda>sz.
         tbind (copy_delta (Suc sz) db rep 0 sz None) (\<lambda>new_str.
           tlift (make_fulltext_rep_skel new_str True))))"

text \<open>\<open>None\<close> is a null key; the empty key stands for a node without contents.\<close>

definition svn_fs__get_mutable_rep :: "'d bdb \<Rightarrow> bytes option \<Rightarrow> ('d, bytes) trail" where
  "svn_fs__get_mutable_rep db rep =
     (case rep of
        Some key \<Rightarrow>
          if key \<noteq> [] then
            tbind (svn_fs__read_rep db key) (\<lambda>rep_skel.
            tbind (tlift (rep_is_mutable rep_skel)) (\<lambda>mutable.
              if mutable then tret key
              else tbind (mutable_copy db key rep_skel) (svn_fs__write_new_rep db)))
          else
            tbind (svn_fs__string_append db None []) (\<lambda>new_str.
            tbind (tlift (make_fulltext_rep_skel (Some new_str) True)) (svn_fs__write_new_rep db))
      | None \<Rightarrow>
          tbind (svn_fs__string_append db None []) (\<lambda>new_str.
          tbind (tlift (make_fulltext_rep_skel (Some new_str) True)) (svn_fs__write_new_rep db)))"

text \<open>
  The flags after the first element of the header, with the flag removed; when it is the first
  of them, the flags after it are dropped with it.  \<open>None\<close>: there is no such flag.
\<close>

fun drop_mutable :: "skel_t list \<Rightarrow> skel_t list option" where
  "drop_mutable [] = None"
| "drop_mutable (flag # flags) =
     (if svn_fs__matches_atom (Some flag) ''mutable'' then Some flags
      else map_option (\<lambda>rest. flag # rest) (drop_mutable flags))"

definition drop_mutable_flag :: "skel_t list \<Rightarrow> skel_t list option" where
  "drop_mutable_flag flags =
     (case flags of
        [] \<Rightarrow> None
      | flag # rest \<Rightarrow>
          if svn_fs__matches_atom (Some flag) ''mutable'' then Some [] else drop_mutable flags)"

definition svn_fs__make_rep_immutable :: "'d bdb \<Rightarrow> bytes \<Rightarrow> ('d, unit) trail" where
  "svn_fs__make_rep_immutable db rep =
     tbind (svn_fs__read_rep db rep) (\<lambda>rep_skel.
     tbind (tlift (rep_header rep_skel)) (\<lambda>header.
       case header of
         [] \<Rightarrow> tlift Abort
       | kind # flags \<Rightarrow>
           (case drop_mutable_flag flags of
              None \<Rightarrow> tret ()
            | Some flags' \<Rightarrow>
                (case rep_skel of
                   Some r \<Rightarrow>
                     tbind (tlift (skel_child 0 r)) (\<lambda>h.
                       svn_fs__write_rep db rep (set_skel_child 0 (skel_list (skel_data h) (kind # flags')) r))
                 | None \<Rightarrow> tlift Abort))))"

definition svn_fs__delete_rep_if_mutable :: "'d bdb \<Rightarrow> bytes \<Rightarrow> ('d, unit) trail" where
  "svn_fs__delete_rep_if_mutable db rep =
     tbind (svn_fs__read_rep db rep) (\<lambda>rep_skel.
     tbind (tlift (rep_is_mutable rep_skel)) (\<lambda>mutable.
       if \<not> mutable then tret ()
       else
         tbind (tlift (rep_is_fulltext rep_skel)) (\<lambda>ft.
         tbind (if ft then tbind (tlift (fulltext_string_key rep_skel)) (svn_fs__string_delete db)
                else tbind (tlift (delta_string_keys rep_skel)) (delete_strings db)) (\<lambda>_.
           svn_fs__delete_rep db rep))))"

section \<open>Streams and clearing\<close>

text \<open>The baton of a read stream: the key, null when there are no contents, and the offset.\<close>

record rep_read_baton =
  rr_rep_key :: "bytes option"
  rr_offset :: nat

definition txn_body_read_rep :: "'d bdb \<Rightarrow> rep_read_baton \<Rightarrow> nat \<Rightarrow> ('d, bytes \<times> rep_read_baton) trail" where
  "txn_body_read_rep db rb len =
     (case rr_rep_key rb of
        Some rep_key \<Rightarrow>
          tbind (rep_read_range db rep_key (rr_offset rb) len) (\<lambda>data.
            tret (data, rb\<lparr>rr_offset := rr_offset rb + length data\<rparr>))
      | None \<Rightarrow> if 0 < rr_offset rb then tfail SVN_ERR_FS_REP_CHANGED else tret ([], rb))"

text \<open>The error that is created for a representation that is not mutable is not returned.\<close>

definition rep_write :: "'d bdb \<Rightarrow> bytes \<Rightarrow> bytes \<Rightarrow> ('d, unit) trail" where
  "rep_write db rep_key data =
     tbind (svn_fs__read_rep db rep_key) (\<lambda>rep.
     tbind (tlift (rep_is_mutable rep)) (\<lambda>mutable.
     tbind (tlift (rep_is_fulltext rep)) (\<lambda>ft.
       if ft then
         tbind (tlift (fulltext_string_key rep)) (\<lambda>str_key.
         tbind (svn_fs__string_append db (Some str_key) data) (\<lambda>_. tret ()))
       else tfail SVN_ERR_FS_CORRUPT)))"

definition txn_body_write_rep :: "'d bdb \<Rightarrow> bytes \<Rightarrow> bytes \<Rightarrow> ('d, unit) trail" where
  "txn_body_write_rep db rep_key data = rep_write db rep_key data"

text \<open>The streams: with a trail they run in it, without one each call is a transaction.\<close>

definition rep_read_contents :: "'d bdb \<Rightarrow> bool \<Rightarrow> rep_read_baton \<Rightarrow> nat \<Rightarrow> 'd \<Rightarrow> ((bytes \<times> rep_read_baton) svn_result \<times> 'd) option" where
  "rep_read_contents db in_trail rb len s =
     (if in_trail then
        (case txn_body_read_rep db rb len s of
           Ok (r, s') \<Rightarrow> Some (Ok r, s')
         | Err e \<Rightarrow> Some (Err e, s)
         | Abort \<Rightarrow> Some (Abort, s))
      else svn_fs__retry_txn db (txn_body_read_rep db rb len) s)"

definition rep_write_contents :: "'d bdb \<Rightarrow> bool \<Rightarrow> bytes \<Rightarrow> bytes \<Rightarrow> 'd \<Rightarrow> (unit svn_result \<times> 'd) option" where
  "rep_write_contents db in_trail rep_key data s =
     (if in_trail then
        (case txn_body_write_rep db rep_key data s of
           Ok (r, s') \<Rightarrow> Some (Ok r, s')
         | Err e \<Rightarrow> Some (Err e, s)
         | Abort \<Rightarrow> Some (Abort, s))
      else svn_fs__retry_txn db (txn_body_write_rep db rep_key data) s)"

definition svn_fs__rep_contents_clear :: "'d bdb \<Rightarrow> bytes \<Rightarrow> ('d, unit) trail" where
  "svn_fs__rep_contents_clear db rep =
     tbind (svn_fs__read_rep db rep) (\<lambda>rep_skel.
     tbind (tlift (rep_is_mutable rep_skel)) (\<lambda>mutable.
       if \<not> mutable then tfail SVN_ERR_FS_REP_NOT_MUTABLE
       else
         tbind (tlift (rep_is_fulltext rep_skel)) (\<lambda>ft.
           if ft then
             tbind (tlift (fulltext_string_key rep_skel)) (\<lambda>str_key.
               if str_key = [] then tret () else svn_fs__string_clear db str_key)
           else
             tbind (tlift (delta_string_keys rep_skel)) (\<lambda>orig_keys.
             tbind (svn_fs__string_append db None []) (\<lambda>str_key.
             tbind (tlift (make_fulltext_rep_skel (Some str_key) True)) (\<lambda>new_skel.
             tbind (svn_fs__write_rep db rep new_skel) (\<lambda>_.
               delete_strings db orig_keys)))))))"

section \<open>Refinement\<close>

definition dec_view :: "('b \<Rightarrow> 'c) \<Rightarrow> 'b decode_baton \<Rightarrow> 'c decode_baton" where
  "dec_view f dec =
     \<lparr>consumer_baton = f (consumer_baton dec), buffer = buffer dec, last_sview_offset = last_sview_offset dec,
      last_sview_len = last_sview_len dec, header_bytes = header_bytes dec, error_on_early_close = error_on_early_close dec\<rparr>"

lemma dec_view_simps [simp]:
  "consumer_baton (dec_view f dec) = f (consumer_baton dec)" "buffer (dec_view f dec) = buffer dec"
  "last_sview_offset (dec_view f dec) = last_sview_offset dec" "last_sview_len (dec_view f dec) = last_sview_len dec"
  "header_bytes (dec_view f dec) = header_bytes dec" "error_on_early_close (dec_view f dec) = error_on_early_close dec"
  "dec_view f (dec\<lparr>consumer_baton := b\<rparr>) = (dec_view f dec)\<lparr>consumer_baton := f b\<rparr>"
  "dec_view f (dec\<lparr>buffer := x\<rparr>) = (dec_view f dec)\<lparr>buffer := x\<rparr>"
  "dec_view f (dec\<lparr>last_sview_offset := off\<rparr>) = (dec_view f dec)\<lparr>last_sview_offset := off\<rparr>"
  "dec_view f (dec\<lparr>last_sview_len := len\<rparr>) = (dec_view f dec)\<lparr>last_sview_len := len\<rparr>"
  "dec_view f (dec\<lparr>header_bytes := n\<rparr>) = (dec_view f dec)\<lparr>header_bytes := n\<rparr>"
  by (simp_all add: dec_view_def)

lemma decode_loop_view:
  assumes "\<And>w b. map_svn_result f (c w b) = c' w (f b)"
  shows "map_svn_result (dec_view f) (decode_loop c dec) = decode_loop c' (dec_view f dec)"
proof (induction "length (buffer dec)" arbitrary: dec rule: less_induct)
  case less
  let ?t = "decode_turn (last_sview_offset dec) (last_sview_len dec) (buffer dec)"
  show ?case
  proof (cases "\<exists>w b. ?t = Ok (Window w b)")
    case True
    then obtain w b where t: "?t = Ok (Window w b)" by blast
    let ?dec = "\<lambda>cb. dec\<lparr>consumer_baton := cb, buffer := b, last_sview_offset := sview_offset w, last_sview_len := sview_len w\<rparr>"
    have IH: "map_svn_result (dec_view f) (decode_loop c (?dec cb)) = decode_loop c' (dec_view f (?dec cb))" for cb
      using decode_turn_shorter [OF t] by (intro less.hyps) simp
    have c: "c' (Some w) (f (consumer_baton dec)) = map_svn_result f (c (Some w) (consumer_baton dec))"
      by (simp add: assms)
    show ?thesis using t IH c
      by (subst (1 2) decode_loop.simps) (cases "c (Some w) (consumer_baton dec)"; simp)
  next
    case False
    then show ?thesis
      by (subst (1 2) decode_loop.simps) (auto split: svn_result.split turn.split)
  qed
qed

lemma refines_write_handler [refine_intros]:
  assumes "\<And>w b. map_svn_result f (c w b) = c' w (f b)"
  shows "refines (dec_view f) (\<lambda>dec. write_handler c dec chunk) (\<lambda>dec. write_handler c' dec chunk)"
proof -
  have nh: "nheader (dec_view f dec) chunk = nheader dec chunk" for dec by (simp add: nheader_def)
  have "map_svn_result (map_prod id (dec_view f)) (write_handler c dec chunk) = write_handler c' (dec_view f dec) chunk" for dec
    using decode_loop_view [of f c c', OF assms, of "dec\<lparr>header_bytes := header_bytes dec + nheader dec chunk, buffer := buffer dec @ drop (nheader dec chunk) chunk\<rparr>", symmetric]
    by (cases "decode_loop c (dec\<lparr>header_bytes := header_bytes dec + nheader dec chunk, buffer := buffer dec @ drop (nheader dec chunk) chunk\<rparr>)")
      (simp_all add: write_handler_def nh)
  then show ?thesis by (simp add: refines_def)
qed

lemma refines_in_parser [refine_intros]:
  fixes m :: "('d, 'a) trail"
  assumes "refines view m g"
  shows "refines (dec_view (map_prod id view)) (in_parser m :: (('w \<times> 'd) decode_baton, 'a) trail) (in_parser g)"
  unfolding refines_def
proof
  fix dec :: "('w \<times> 'd) decode_baton"
  obtain wb s where c: "consumer_baton dec = (wb, s)" by (cases "consumer_baton dec")
  show "map_svn_result (map_prod id (dec_view (map_prod id view))) (in_parser m dec) = in_parser g (dec_view (map_prod id view) dec)"
    using refinesD [OF assms, of s, symmetric] by (cases "m s") (auto simp: in_parser_def c)
qed

lemma refines_parser_done [refine_intros]: "refines (dec_view (map_prod id view)) parser_done parser_done"
  by (simp add: refines_def parser_done_def)

lemma refines_parser_update [refine_intros]: "refines (dec_view (map_prod id view)) (parser_update f) (parser_update f)"
  by (auto simp: refines_def parser_update_def)

text \<open>Readers of representations that refine each other.\<close>

definition reader_refines where
  "reader_refines view read read' \<longleftrightarrow> (\<forall>k off len. refines view (read k off len) (read' k off len))"

lemma refines_window_ops [refine_intros]:
  assumes "\<And>off len. refines view (rd off len) (rd' off len)"
  shows "refines view (window_ops rd w d room os src t n) (window_ops rd' w d room os src t n)"
proof (induction os arbitrary: src t n)
  case (Cons op os)
  have "refines view (window_op rd w op src t) (window_op rd' w op src t)"
    unfolding window_op_def Let_def
    by (cases "action_code op"; simp; intro refine_intros assms conjI impI)
  then show ?case unfolding window_ops.simps Let_def by (intro refine_intros Cons.IH)
qed (simp add: refines_tret)

lemma window_handler_view:
  assumes "reader_refines view read read'"
  shows "map_svn_result (map_prod id view) (rep_window_handler read w b) = rep_window_handler read' w (map_prod id view b)"
proof -
  obtain wb s where b: "b = (wb, s)" by (cases b)
  have rd: "refines view (read (wh_base_rep wb) off len) (read' (wh_base_rep wb) off len)" for off len
    using assms by (simp add: reader_refines_def)
  show ?thesis
  proof (cases w)
    case (Some w')
    let ?ops = "\<lambda>rd. window_ops (rd (wh_base_rep wb)) w' (wh_req_offset wb - wh_cur_offset wb) (wh_len_req wb - length (wh_buf wb)) (ops w') None [] 0"
    show ?thesis using refinesD [OF refines_window_ops [OF rd], symmetric]
      by (cases "?ops read s") (auto simp: rep_window_handler_def b Some Let_def)
  qed (simp add: rep_window_handler_def b)
qed

lemma refines_send_svndiff [refine_intros]:
  assumes "bdb_laws db view" and "reader_refines view read read'"
  shows "refines (dec_view (map_prod id view)) (send_svndiff n db read k off) (send_svndiff n ref_db read' k off)"
proof (induction n arbitrary: off)
  case (Suc n)
  show ?case unfolding send_svndiff.simps
    by (intro refine_intros assms(1) Suc.IH window_handler_view [OF assms(2)])
qed (simp add: refines_tlift)

lemma refines_read_windows [refine_intros]:
  assumes "bdb_laws db view" and "reader_refines view read read'"
  shows "refines (dec_view (map_prod id view)) (read_windows db read off len ws) (read_windows ref_db read' off len ws)"
proof (induction ws)
  case (Cons w ws)
  show ?case unfolding read_windows.simps Let_def
    by (intro refine_intros assms Cons.IH)
qed (simp add: refines_tret)

lemma refines_parser_close [refine_intros]:
  assumes "reader_refines view read read'"
  shows "refines (dec_view (map_prod id view)) (parser_close read) (parser_close read')"
  unfolding refines_def
proof
  fix dec
  show "map_svn_result (map_prod id (dec_view (map_prod id view))) (parser_close read dec) =
      parser_close read' (dec_view (map_prod id view) dec)"
    using window_handler_view [OF assms, of None "consumer_baton dec", symmetric]
    by (cases "rep_window_handler read None (consumer_baton dec)") (auto simp: parser_close_def close_handler_def)
qed

lemma refines_parse_delta [refine_intros]:
  assumes "bdb_laws db view" and "reader_refines view read read'"
  shows "refines (dec_view (map_prod id view)) (parse_delta db read ws off len) (parse_delta ref_db read' ws off len)"
  unfolding parse_delta_def by (intro refine_intros assms window_handler_view [OF assms(2)])

lemma refines_read_delta [refine_intros]:
  assumes "bdb_laws db view" and "reader_refines view read read'"
  shows "refines view (read_delta db read ws off len) (read_delta ref_db read' ws off len)"
  unfolding refines_def
proof
  fix s
  let ?V = "map_prod id view"
  let ?wb = "\<lparr>wh_buf = [], wh_req_offset = off, wh_cur_offset = 0, wh_base_rep = [], wh_len_req = len, wh_done = False\<rparr>"
  have init: "dec_view ?V (svn_txdelta_parse_svndiff (?wb, s) False) = svn_txdelta_parse_svndiff (?wb, view s) False"
    by (simp add: dec_view_def svn_txdelta_parse_svndiff_def)
  show "map_svn_result ?V (read_delta db read ws off len s) = read_delta ref_db read' ws off len (view s)"
    using refinesD [OF refines_parse_delta [OF assms, of ws off len], of "svn_txdelta_parse_svndiff (?wb, s) False", symmetric]
    unfolding init by (cases "parse_delta db read ws off len (svn_txdelta_parse_svndiff (?wb, s) False)") (auto simp: read_delta_def)
qed

lemma refines_read_range: "bdb_laws db view \<Longrightarrow> reader_refines view (read_range n db) (read_range n ref_db)"
proof (induction n)
  case (Suc n)
  show ?case unfolding reader_refines_def read_range.simps by (intro allI refine_intros Suc)
qed (simp add: reader_refines_def refines_tlift)

lemma refines_rep_read_range [refine_intros]:
  "bdb_laws db view \<Longrightarrow> refines view (rep_read_range db k off len) (rep_read_range ref_db k off len)"
  unfolding rep_read_range_def
  by (intro refine_intros refines_read_range [unfolded reader_refines_def, rule_format])

lemma refines_rep_contents_size [refine_intros]:
  "bdb_laws db view \<Longrightarrow> refines view (svn_fs__rep_contents_size db k) (svn_fs__rep_contents_size ref_db k)"
  unfolding svn_fs__rep_contents_size_def by (intro refine_intros)

lemma refines_rep_contents [refine_intros]:
  "bdb_laws db view \<Longrightarrow> refines view (svn_fs__rep_contents db k) (svn_fs__rep_contents ref_db k)"
  unfolding svn_fs__rep_contents_def by (intro refine_intros)

lemma refines_copy_delta [refine_intros]:
  assumes "bdb_laws db view"
  shows "refines view (copy_delta n db k off sz new) (copy_delta n ref_db k off sz new)"
proof (induction n arbitrary: off new)
  case (Suc n)
  show ?case unfolding copy_delta.simps by (intro refine_intros assms Suc.IH)
qed (simp add: refines_tlift)

lemma refines_mutable_copy [refine_intros]:
  "bdb_laws db view \<Longrightarrow> refines view (mutable_copy db k r) (mutable_copy ref_db k r)"
  unfolding mutable_copy_def by (intro refine_intros)

lemma refines_get_mutable_rep [refine_intros]:
  "bdb_laws db view \<Longrightarrow> refines view (svn_fs__get_mutable_rep db k) (svn_fs__get_mutable_rep ref_db k)"
  unfolding svn_fs__get_mutable_rep_def by (intro refine_intros)

lemma refines_make_rep_immutable [refine_intros]:
  "bdb_laws db view \<Longrightarrow> refines view (svn_fs__make_rep_immutable db k) (svn_fs__make_rep_immutable ref_db k)"
  unfolding svn_fs__make_rep_immutable_def by (intro refine_intros)

lemma refines_delete_strings [refine_intros]:
  "bdb_laws db view \<Longrightarrow> refines view (delete_strings db ks) (delete_strings ref_db ks)"
  by (induction ks) (auto intro!: refine_intros)

lemma refines_delete_rep_if_mutable [refine_intros]:
  "bdb_laws db view \<Longrightarrow> refines view (svn_fs__delete_rep_if_mutable db k) (svn_fs__delete_rep_if_mutable ref_db k)"
  unfolding svn_fs__delete_rep_if_mutable_def by (intro refine_intros)

lemma refines_rep_write [refine_intros]:
  "bdb_laws db view \<Longrightarrow> refines view (rep_write db k d) (rep_write ref_db k d)"
  unfolding rep_write_def by (intro refine_intros)

lemma refines_rep_contents_clear [refine_intros]:
  "bdb_laws db view \<Longrightarrow> refines view (svn_fs__rep_contents_clear db k) (svn_fs__rep_contents_clear ref_db k)"
  unfolding svn_fs__rep_contents_clear_def by (intro refine_intros)

end
