(* ===== verification/Fs_Fulltext.thy ===== *)
theory Fs_Fulltext
  imports Fs_Reps
begin

text \<open>
  Representations stored as full texts: what reading, writing, clearing and copying them does.
\<close>

section \<open>Full texts in the tables\<close>

text \<open>Whether a full text is mutable, and the key of its string.\<close>

fun fulltext_of :: "skel_t \<Rightarrow> (bool \<times> bytes) option" where
  "fulltext_of (skel_list b [skel_list h [skel_atom kind], skel_atom sk]) =
     (if kind = ''fulltext'' then Some (False, sk) else None)"
| "fulltext_of (skel_list b [skel_list h [skel_atom kind, skel_atom flag], skel_atom sk]) =
     (if kind = ''fulltext'' \<and> flag = ''mutable'' then Some (True, sk) else None)"
| "fulltext_of _ = None"

definition ft_skel :: "bool \<Rightarrow> bytes \<Rightarrow> skel_t" where
  "ft_skel m sk =
     skel_list [] [skel_list [] (skel_atom ''fulltext'' # (if m then [skel_atom ''mutable''] else [])), skel_atom sk]"

lemma fulltext_of_Some:
  assumes "fulltext_of skel = Some (m, sk)"
  obtains b h where "skel = skel_list b [skel_list h (skel_atom ''fulltext'' # (if m then [skel_atom ''mutable''] else [])), skel_atom sk]"
  using assms by (cases skel rule: fulltext_of.cases) (auto split: if_splits)

lemma fulltext_of_norm [simp]: "fulltext_of (skel_norm (ft_skel m sk)) = Some (m, sk)"
  by (simp add: ft_skel_def)

definition ft_rep :: "fs_tables \<Rightarrow> bytes \<Rightarrow> (bool \<times> bytes) option" where
  "ft_rep v k =
     (case rep_rec k v of
        None \<Rightarrow> None
      | Some d \<Rightarrow> (case svn_fs__parse_skel d of None \<Rightarrow> None | Some skel \<Rightarrow> fulltext_of skel))"

lemma ft_rep_read:
  assumes "ft_rep v k = Some (m, sk)" and "length k < 2 ^ 32"
  obtains skel where "svn_fs__read_rep ref_db k v = Ok (Some skel, v)" and "fulltext_of skel = Some (m, sk)"
proof -
  from assms(1) obtain d skel where "rep_rec k v = Some d" "svn_fs__parse_skel d = Some skel" "fulltext_of skel = Some (m, sk)"
    by (auto simp: ft_rep_def split: option.splits)
  with read_rep_ref [OF assms(2), of v] that show thesis by simp
qed

lemma fulltext_tests:
  assumes "fulltext_of skel = Some (m, sk)"
  shows "rep_is_fulltext (Some skel) = Ok True" and "rep_is_mutable (Some skel) = Ok m"
    and "fulltext_string_key (Some skel) = Ok (apr_pstrndup sk)" and "rep_children (Some skel) = Ok (skel_children skel)"
proof -
  obtain b h where skel: "skel = skel_list b [skel_list h (skel_atom ''fulltext'' # (if m then [skel_atom ''mutable''] else [])), skel_atom sk]"
    using fulltext_of_Some [OF assms] .
  show "rep_is_fulltext (Some skel) = Ok True" "rep_is_mutable (Some skel) = Ok m"
      "fulltext_string_key (Some skel) = Ok (apr_pstrndup sk)" "rep_children (Some skel) = Ok (skel_children skel)"
    by (simp_all add: skel rep_is_fulltext_def rep_is_mutable_def fulltext_string_key_def rep_header_def rep_children_def first_skel_def)
qed

text \<open>A full text whose string is there, and small enough to be read in one piece.\<close>

definition ft_wf :: "fs_tables \<Rightarrow> bytes \<Rightarrow> bool" where
  "ft_wf v k \<longleftrightarrow> length k < 2 ^ 32 \<and> k \<noteq> svn_fs__next_key_key \<and> k \<noteq> [] \<and>
     (case ft_rep v k of
        None \<Rightarrow> False
      | Some (m, sk) \<Rightarrow> valid_key sk \<and> length sk < 2 ^ 32 \<and> str_recs sk v \<noteq> [] \<and> length (str_val sk v) < 2 ^ 32)"

definition ft_text :: "fs_tables \<Rightarrow> bytes \<Rightarrow> bytes" where
  "ft_text v k = (case ft_rep v k of None \<Rightarrow> [] | Some (m, sk) \<Rightarrow> str_val sk v)"

lemma ft_wfE:
  assumes "ft_wf v k"
  obtains m sk where "ft_rep v k = Some (m, sk)" and "valid_key sk" and "length sk < 2 ^ 32" and "str_recs sk v \<noteq> []"
    and "length (str_val sk v) < 2 ^ 32" and "ft_text v k = str_val sk v" and "length k < 2 ^ 32" and "sk \<noteq> svn_fs__next_key_key"
  using assms next_key_key_invalid that by (auto simp: ft_wf_def ft_text_def split: option.splits)

lemma rep_read_range_ref:
  assumes "ft_wf v k" and "strings_inv v" and "len < 2 ^ 32"
  shows "rep_read_range ref_db k off len v = Ok (take len (drop off (ft_text v k)), v)"
proof -
  obtain m sk where w: "ft_rep v k = Some (m, sk)" "valid_key sk" "length sk < 2 ^ 32" "str_recs sk v \<noteq> []"
      "ft_text v k = str_val sk v" "length k < 2 ^ 32"
    using ft_wfE [OF assms(1)] by metis
  obtain skel where skel: "svn_fs__read_rep ref_db k v = Ok (Some skel, v)" "fulltext_of skel = Some (m, sk)"
    using ft_rep_read [OF w(1,6)] .
  note t = fulltext_tests [OF skel(2)]
  have "short_recs (str_recs sk v)" using assms(2) by (simp add: strings_inv_def)
  from string_read_ref [OF this w(3) assms(3)] w(4,5) skel(1) t valid_key_cstring [OF w(2)] show ?thesis
    by (simp add: rep_read_range_def tbind_def tlift_def db_peek_def)
qed

lemma rep_contents_size_ref:
  assumes "ft_wf v k"
  shows "svn_fs__rep_contents_size ref_db k v = Ok (length (ft_text v k), v)"
proof -
  obtain m sk where w: "ft_rep v k = Some (m, sk)" "valid_key sk" "length sk < 2 ^ 32" "str_recs sk v \<noteq> []"
      "ft_text v k = str_val sk v" "length k < 2 ^ 32"
    using ft_wfE [OF assms(1)] by metis
  obtain skel where skel: "svn_fs__read_rep ref_db k v = Ok (Some skel, v)" "fulltext_of skel = Some (m, sk)"
    using ft_rep_read [OF w(1,6)] .
  show ?thesis using string_size_ref [OF w(3), of v] w(4,5) skel(1) fulltext_tests [OF skel(2)] valid_key_cstring [OF w(2)]
    by (simp add: svn_fs__rep_contents_size_def tbind_def tlift_def)
qed

lemma rep_contents_ref:
  assumes "ft_wf v k" and "strings_inv v"
  shows "svn_fs__rep_contents ref_db k v = Ok (ft_text v k, v)"
proof -
  have "length (ft_text v k) < 2 ^ 32" using ft_wfE [OF assms(1)] by metis
  with rep_contents_size_ref [OF assms(1)] rep_read_range_ref [OF assms, of "length (ft_text v k)" 0] show ?thesis
    by (simp add: svn_fs__rep_contents_def tbind_def tret_def)
qed

section \<open>Writing\<close>

lemma ft_skel_length: "length sk < 200 \<Longrightarrow> length (skel_text (ft_skel m sk)) < 2 ^ 32"
proof -
  assume "length sk < 200"
  then have "length (skel_text (skel_atom sk)) \<le> 221" using atom_text_length [of sk] by simp
  moreover have "skel_text (skel_atom ''fulltext'') = ''fulltext''" "skel_text (skel_atom ''mutable'') = ''mutable''"
    by code_simp+
  ultimately show ?thesis by (simp add: ft_skel_def del: skel_text.simps(1))
qed

lemma ft_rep_frame [simp]:
  "ft_rep (set_str sk rs v) k = ft_rep v k"
  "k \<noteq> k' \<Longrightarrow> ft_rep (put_tab Representations k' x v) k = ft_rep v k"
  "T \<noteq> Representations \<Longrightarrow> ft_rep (put_tab T k' x v) k = ft_rep v k"
  by (simp_all add: ft_rep_def)

lemma ft_rep_put: "length sk < 200 \<Longrightarrow> ft_rep (put_tab Representations k (skel_text (ft_skel m sk)) v) k = Some (m, sk)"
  using skel_to_dbt_text(2) [OF ft_skel_length, of sk m] by (simp add: ft_rep_def)

lemma str_val_set [simp]:
  "str_val sk (set_str sk rs v) = concat rs" "sk \<noteq> sk' \<Longrightarrow> str_val sk (set_str sk' rs v) = str_val sk v"
  "str_val sk (put_tab T k x v) = str_val sk v"
  by (simp_all add: str_val_def)

lemma rep_write_ref:
  assumes "ft_wf v k" and "ft_rep v k = Some (m, sk)" and "length data < 2 ^ 32"
  shows "rep_write ref_db k data v = Ok ((), set_str sk (str_recs sk v @ [data]) v)"
proof -
  have w: "valid_key sk" "length sk < 2 ^ 32" "length k < 2 ^ 32" using assms(1,2) by (auto simp: ft_wf_def)
  obtain skel where skel: "svn_fs__read_rep ref_db k v = Ok (Some skel, v)" "fulltext_of skel = Some (m, sk)"
    using ft_rep_read [OF assms(2) w(3)] .
  show ?thesis using skel(1) fulltext_tests [OF skel(2)] valid_key_cstring [OF w(1)] string_append_ref [OF w(2) assms(3), of v]
    by (simp add: rep_write_def tbind_def tlift_def tret_def)
qed

lemma rep_write_wf:
  assumes "ft_wf v k" and "strings_inv v" and "ft_rep v k = Some (m, sk)" and "length (ft_text v k) + length data < 2 ^ 32"
  defines "v' \<equiv> set_str sk (str_recs sk v @ [data]) v"
  shows "ft_wf v' k" and "ft_text v' k = ft_text v k @ data" and "strings_inv v'"
proof -
  have t: "ft_text v k = str_val sk v" using assms(3) by (simp add: ft_text_def)
  then show "ft_text v' k = ft_text v k @ data" using assms(3) by (simp add: v'_def ft_text_def str_val_def)
  show "ft_wf v' k" using assms(1,3,4) t by (simp add: ft_wf_def v'_def str_val_def)
  have "sk \<noteq> svn_fs__next_key_key" using assms(1,3) next_key_key_invalid by (auto simp: ft_wf_def)
  moreover have "short_recs (str_recs sk v @ [data])" using assms(2,4) by (simp add: strings_inv_def short_recs_def)
  moreover have "sk \<in> str_keys v" using assms(1,3) by (simp add: ft_wf_def str_keys_def)
  ultimately show "strings_inv v'" unfolding v'_def using assms(2) by (intro strings_inv_set) simp_all
qed

lemma mutable_skel:
  assumes "fulltext_of skel = Some (False, sk)"
  obtains r where "rep_set_mutable_flag skel = Ok r" and "skel_text (set_skel_child 1 (skel_atom nk) r) = skel_text (ft_skel True nk)"
proof -
  obtain b h where skel: "skel = skel_list b [skel_list h [skel_atom ''fulltext''], skel_atom sk]"
    using fulltext_of_Some [OF assms] by auto
  show thesis
    by (rule that [of "skel_list b [skel_list h [skel_atom ''fulltext'', skel_atom ''mutable''], skel_atom sk]"])
      (simp_all add: skel rep_set_mutable_flag_def fulltext_tests(2) [OF assms [unfolded skel]] skel_child_def
        svn_fs__str_atom_def ft_skel_def)
qed

section \<open>Mutable copies\<close>

lemma inv_frames [simp]:
  "reps_inv (set_str k rs v) = reps_inv v" "next_rep (set_str k rs v) = next_rep v"
  "strings_inv (put_tab T k x v) = strings_inv v" "next_str (put_tab T k x v) = next_str v"
  by (simp_all add: reps_inv_def next_rep_def rep_keys_def strings_inv_def next_str_def str_keys_def)

text \<open>A new string and a new representation leave every full text as it is.\<close>

lemma ft_kept:
  fixes rs :: "bytes list" and nk nr x :: bytes
  assumes "strings_inv v" and "reps_inv v" and "ft_wf v k"
  defines "v1 \<equiv> set_str (next_str v) rs (set_str svn_fs__next_key_key [nk] v)"
  defines "v2 \<equiv> put_tab Representations svn_fs__next_key_key nr (put_tab Representations (next_rep v) x v1)"
  shows "ft_wf v2 k" and "ft_text v2 k = ft_text v k" and "ft_rep v2 k = ft_rep v k"
proof -
  obtain m sk where w: "ft_rep v k = Some (m, sk)" "str_recs sk v \<noteq> []" "sk \<noteq> svn_fs__next_key_key"
    using ft_wfE [OF assms(3)] by metis
  have "sk \<noteq> next_str v" using w(2) next_str_fresh(1) [OF assms(1)] by auto
  moreover have "k \<noteq> next_rep v" using w(1) next_rep_fresh(1) [OF assms(2)] by (auto simp: ft_rep_def)
  moreover have "k \<noteq> svn_fs__next_key_key" using assms(3) by (simp add: ft_wf_def)
  ultimately show "ft_wf v2 k" "ft_text v2 k = ft_text v k" "ft_rep v2 k = ft_rep v k"
    using w assms(3) by (simp_all add: ft_wf_def ft_text_def v2_def v1_def str_val_def)
qed

lemma get_mutable_rep_ref:
  assumes "strings_inv v" and "reps_inv v" and "ft_wf v k" and "length (next_str v) < 199" and "length (next_rep v) < 199"
  obtains k' v' sk' where "svn_fs__get_mutable_rep ref_db (Some k) v = Ok (k', v')"
    and "strings_inv v'" and "reps_inv v'" and "ft_wf v' k'" and "ft_rep v' k' = Some (True, sk')" and "ft_text v' k' = ft_text v k"
    and "ft_rep v' k = ft_rep v k" and "\<And>q. ft_wf v q \<Longrightarrow> ft_wf v' q \<and> ft_text v' q = ft_text v q"
    and "\<And>sk. ft_rep v k = Some (False, sk) \<Longrightarrow> k' \<noteq> k \<and> sk' \<noteq> sk"
proof -
  obtain m sk where w: "ft_rep v k = Some (m, sk)" "valid_key sk" "length sk < 2 ^ 32" "str_recs sk v \<noteq> []"
      "length (str_val sk v) < 2 ^ 32" "ft_text v k = str_val sk v" "length k < 2 ^ 32" "sk \<noteq> svn_fs__next_key_key"
    using ft_wfE [OF assms(3)] by metis
  have ne: "k \<noteq> []" using assms(3) by (simp add: ft_wf_def)
  obtain skel where skel: "svn_fs__read_rep ref_db k v = Ok (Some skel, v)" "fulltext_of skel = Some (m, sk)"
    using ft_rep_read [OF w(1,7)] .
  note t = fulltext_tests [OF skel(2)]
  show thesis
  proof (cases m)
    case True
    then have "svn_fs__get_mutable_rep ref_db (Some k) v = Ok (k, v)"
      using skel(1) t ne by (simp add: svn_fs__get_mutable_rep_def tbind_def tlift_def tret_def)
    with that [of k v sk] assms w True show thesis by simp
  next
    case False
    let ?sk = "next_str v" and ?k = "next_rep v"
    obtain nk where nk: "svn_fs__string_copy ref_db sk v = Ok (?sk, set_str ?sk (str_recs sk v) (set_str svn_fs__next_key_key [nk] v))"
        "strings_inv (set_str ?sk (str_recs sk v) (set_str svn_fs__next_key_key [nk] v))"
      using string_copy_ref [OF assms(1,4) w(3,8,4)] .
    let ?v1 = "set_str ?sk (str_recs sk v) (set_str svn_fs__next_key_key [nk] v)"
    obtain r where r: "rep_set_mutable_flag skel = Ok r" "skel_text (set_skel_child 1 (skel_atom ?sk) r) = skel_text (ft_skel True ?sk)"
      using mutable_skel skel(2) False by metis
    have len: "length (skel_text (set_skel_child 1 (skel_atom ?sk) r)) < 2 ^ 32"
      unfolding r(2) using assms(4) by (intro ft_skel_length) simp
    have inv1: "reps_inv ?v1" "length (next_rep ?v1) < 199" using assms by simp_all
    obtain nr where nr: "svn_fs__write_new_rep ref_db (set_skel_child 1 (skel_atom ?sk) r) ?v1 =
        Ok (?k, put_tab Representations svn_fs__next_key_key nr (put_tab Representations ?k (skel_text (ft_skel True ?sk)) ?v1))"
        "reps_inv (put_tab Representations svn_fs__next_key_key nr (put_tab Representations ?k (skel_text (ft_skel True ?sk)) ?v1))"
      using write_new_rep_ref [OF inv1 len] unfolding r(2) by auto
    let ?v2 = "put_tab Representations svn_fs__next_key_key nr (put_tab Representations ?k (skel_text (ft_skel True ?sk)) ?v1)"
    have "svn_fs__get_mutable_rep ref_db (Some k) v = Ok (?k, ?v2)"
      using skel(1) t False ne nk(1) r(1) nr(1) valid_key_cstring [OF w(2)]
      by (simp add: svn_fs__get_mutable_rep_def mutable_copy_def tbind_def tlift_def tret_def)
    moreover have kne: "?k \<noteq> svn_fs__next_key_key" by (rule next_rep_fresh(2) [OF assms(2)])
    moreover have sne: "?sk \<noteq> svn_fs__next_key_key" by (rule next_str_fresh(2) [OF assms(1)])
    moreover have rep: "ft_rep ?v2 ?k = Some (True, ?sk)" using kne assms(4) ft_rep_put [of ?sk ?k True] by simp
    moreover have tx: "ft_text ?v2 ?k = ft_text v k" using rep w(6) by (simp add: ft_text_def str_val_def)
    moreover have "ft_wf ?v2 ?k"
    proof -
      have "valid_key ?sk" "valid_key ?k" using assms(1,2) by (simp_all add: strings_inv_def reps_inv_def keys_below_def)
      moreover have "?k \<noteq> []" using \<open>valid_key ?k\<close> by (auto simp: valid_key_def)
      ultimately show ?thesis using rep kne assms(4,5) w(4,5) by (simp add: ft_wf_def str_val_def)
    qed
    moreover note ft_kept [OF assms(1,2)]
    moreover have "?k \<noteq> k" using w(1) next_rep_fresh(1) [OF assms(2)] by (auto simp: ft_rep_def)
    moreover have "?sk \<noteq> sk" using w(4) next_str_fresh(1) [OF assms(1)] by auto
    ultimately show thesis using that [of ?k ?v2 ?sk] nk(2) nr(2) w(1) assms(3) by simp
  qed
qed

section \<open>Clearing, and ending mutability\<close>

lemma rep_contents_clear_ref:
  assumes "ft_wf v k" and "ft_rep v k = Some (m, sk)"
  shows "svn_fs__rep_contents_clear ref_db k v =
    (if m then Ok ((), set_str sk [[]] v) else Err SVN_ERR_FS_REP_NOT_MUTABLE)"
proof -
  have w: "valid_key sk" "length sk < 2 ^ 32" "length k < 2 ^ 32" "str_recs sk v \<noteq> []" using assms by (auto simp: ft_wf_def)
  then have "sk \<noteq> []" by (simp add: valid_key_def)
  obtain skel where skel: "svn_fs__read_rep ref_db k v = Ok (Some skel, v)" "fulltext_of skel = Some (m, sk)"
    using ft_rep_read [OF assms(2) w(3)] .
  show ?thesis using skel(1) fulltext_tests [OF skel(2)] valid_key_cstring [OF w(1)] string_clear_ref [OF w(2), of v] w(4) \<open>sk \<noteq> []\<close>
    by (simp add: svn_fs__rep_contents_clear_def tbind_def tlift_def tfail_def)
qed

lemma make_rep_immutable_ref:
  assumes "ft_wf v k" and "ft_rep v k = Some (m, sk)" and "length sk < 200"
  shows "svn_fs__make_rep_immutable ref_db k v =
    Ok ((), if m then put_tab Representations k (skel_text (ft_skel False sk)) v else v)"
proof -
  have kl: "length k < 2 ^ 32" using assms(1) by (simp add: ft_wf_def)
  obtain skel where skel: "svn_fs__read_rep ref_db k v = Ok (Some skel, v)" "fulltext_of skel = Some (m, sk)"
    using ft_rep_read [OF assms(2) kl] .
  obtain b h where s: "skel = skel_list b [skel_list h (skel_atom ''fulltext'' # (if m then [skel_atom ''mutable''] else [])), skel_atom sk]"
    using fulltext_of_Some [OF skel(2)] .
  have "skel_text (skel_list b [skel_list h [skel_atom ''fulltext''], skel_atom sk]) = skel_text (ft_skel False sk)"
    by (simp add: ft_skel_def)
  then have "svn_fs__write_rep ref_db k (skel_list b [skel_list h [skel_atom ''fulltext''], skel_atom sk]) v =
      Ok ((), put_tab Representations k (skel_text (ft_skel False sk)) v)"
    using write_rep_ref [OF kl, of "skel_list b [skel_list h [skel_atom ''fulltext''], skel_atom sk]" v] ft_skel_length [OF assms(3)]
    by (simp del: skel_text.simps)
  then show ?thesis using skel(1)
    by (cases m) (simp_all add: svn_fs__make_rep_immutable_def s tbind_def tlift_def tret_def rep_header_def rep_children_def
        drop_mutable_flag_def skel_child_def)
qed

section \<open>Properties\<close>

lemma rep_contents_result:
  "bdb_laws db view \<Longrightarrow> ft_wf (view s) k \<Longrightarrow> strings_inv (view s) \<Longrightarrow>
   trail_result (svn_fs__rep_contents db k) s = Ok (ft_text (view s) k)"
  using refines_result [OF refines_rep_contents, of db view k s] rep_contents_ref [of "view s" k] by (simp add: trail_result_def)

text \<open>
  C15. On every database that works as documented: a mutable version of a full text has its contents;
  writing to it appends to these contents, and when the original was not mutable, the original keeps
  its contents, and so does every other full text with a string of its own.
\<close>

theorem mutable_rep_apart:
  assumes "bdb_laws db view" and "strings_inv (view s)" and "reps_inv (view s)" and "ft_wf (view s) k"
    and "length (next_str (view s)) < 199" and "length (next_rep (view s)) < 199"
    and "length (ft_text (view s) k) + length data < 2 ^ 32"
  shows "\<exists>k' s1 s2. svn_fs__get_mutable_rep db (Some k) s = Ok (k', s1) \<and> rep_write db k' data s1 = Ok ((), s2) \<and>
    strings_inv (view s2) \<and> reps_inv (view s2) \<and>
    trail_result (svn_fs__rep_contents db k') s2 = Ok (ft_text (view s) k @ data) \<and>
    (\<forall>sk. ft_rep (view s) k = Some (False, sk) \<longrightarrow> trail_result (svn_fs__rep_contents db k) s2 = Ok (ft_text (view s) k))"
proof -
  let ?v = "view s"
  obtain k' v' sk' where g: "svn_fs__get_mutable_rep ref_db (Some k) ?v = Ok (k', v')" "strings_inv v'" "reps_inv v'"
      "ft_wf v' k'" "ft_rep v' k' = Some (True, sk')" "ft_text v' k' = ft_text ?v k" "ft_rep v' k = ft_rep ?v k"
      "\<And>q. ft_wf ?v q \<Longrightarrow> ft_wf v' q \<and> ft_text v' q = ft_text ?v q"
      "\<And>sk. ft_rep ?v k = Some (False, sk) \<Longrightarrow> k' \<noteq> k \<and> sk' \<noteq> sk"
    using get_mutable_rep_ref [OF assms(2-6)] by metis
  obtain s1 where s1: "svn_fs__get_mutable_rep db (Some k) s = Ok (k', s1)" "view s1 = v'"
    using refines_Ok [OF refines_get_mutable_rep [OF assms(1)] g(1)] by blast
  let ?v2 = "set_str sk' (str_recs sk' v' @ [data]) v'"
  have "rep_write ref_db k' data v' = Ok ((), ?v2)" by (rule rep_write_ref [OF g(4,5)]) (use assms(7) in simp)
  then obtain s2 where s2: "rep_write db k' data s1 = Ok ((), s2)" "view s2 = ?v2"
    using refines_Ok [OF refines_rep_write [OF assms(1)], of k' data s1] s1(2) by blast
  note wr = rep_write_wf [OF g(4,2,5), of data]
  have "ft_wf ?v2 k \<and> ft_text ?v2 k = ft_text ?v k" if "ft_rep ?v k = Some (False, sk)" for sk
    using g(8) [OF assms(4)] g(7) g(9) [OF that, THEN conjunct2, symmetric] that by (auto simp: ft_wf_def ft_text_def str_val_def)
  then show ?thesis using s1 s2 wr assms(7) g(3,6) rep_contents_result [OF assms(1), of s2] by auto
qed

text \<open>
  C39. On every database that works as documented: once a full text has been made immutable, its contents
  are as before, clearing it fails with \<open>SVN_ERR_FS_REP_NOT_MUTABLE\<close>, but writing to it succeeds and
  appends to its contents.
\<close>

theorem immutable_rep_written:
  assumes "bdb_laws db view" and "strings_inv (view s)" and "ft_wf (view s) k" and "ft_rep (view s) k = Some (m, sk)" and "length sk < 200"
    and "length (ft_text (view s) k) + length data < 2 ^ 32"
  shows "\<exists>s1 s2. svn_fs__make_rep_immutable db k s = Ok ((), s1) \<and> ft_rep (view s1) k = Some (False, sk) \<and>
    trail_result (svn_fs__rep_contents db k) s1 = Ok (ft_text (view s) k) \<and>
    svn_fs__rep_contents_clear db k s1 = Err SVN_ERR_FS_REP_NOT_MUTABLE \<and>
    rep_write db k data s1 = Ok ((), s2) \<and> trail_result (svn_fs__rep_contents db k) s2 = Ok (ft_text (view s) k @ data)"
proof -
  let ?v = "view s"
  let ?v1 = "if m then put_tab Representations k (skel_text (ft_skel False sk)) ?v else ?v"
  obtain s1 where s1: "svn_fs__make_rep_immutable db k s = Ok ((), s1)" "view s1 = ?v1"
    using refines_Ok [OF refines_make_rep_immutable [OF assms(1)] make_rep_immutable_ref [OF assms(3-5)]] by blast
  have rep: "ft_rep ?v1 k = Some (False, sk)" using assms(4) ft_rep_put [OF assms(5), of k False ?v] by simp
  have wf: "ft_wf ?v1 k" "ft_text ?v1 k = ft_text ?v k" "strings_inv ?v1"
    using rep assms(2-4) by (auto simp: ft_wf_def ft_text_def str_val_def)
  let ?v2 = "set_str sk (str_recs sk ?v1 @ [data]) ?v1"
  have "rep_write ref_db k data (view s1) = Ok ((), ?v2)" unfolding s1(2)
    by (rule rep_write_ref [OF wf(1) rep]) (use assms(6) in simp)
  from refines_Ok [OF refines_rep_write [OF assms(1)] this] obtain s2 where
    s2: "rep_write db k data s1 = Ok ((), s2)" "view s2 = ?v2" by blast
  have clear: "svn_fs__rep_contents_clear db k s1 = Err SVN_ERR_FS_REP_NOT_MUTABLE"
    using refines_Err [OF refines_rep_contents_clear [OF assms(1)], of k s1] rep_contents_clear_ref [OF wf(1) rep] s1(2) by simp
  have "length (ft_text ?v1 k) + length data < 2 ^ 32" using wf(2) assms(6) by simp
  note wr = rep_write_wf [OF wf(1,3) rep this]
  show ?thesis using s1 s2 rep wf clear wr rep_contents_result [OF assms(1), of s1 k] rep_contents_result [OF assms(1), of s2 k]
    by (intro exI [of _ s1] exI [of _ s2] conjI) simp_all
qed

text \<open>A filesystem with one immutable full text.\<close>

definition one_text :: fs_tables where
  "one_text =
     put_tab Representations ''0'' (skel_text (ft_skel False ''0''))
       (put_tab Representations svn_fs__next_key_key ''1''
         (set_str ''0'' [''ab'', ''c''] (set_str svn_fs__next_key_key [''1''] new_tables)))"

lemma one_text:
  "strings_inv one_text" "reps_inv one_text" "ft_wf one_text ''0''" "ft_rep one_text ''0'' = Some (False, ''0'')"
  "ft_text one_text ''0'' = ''abc''" "next_str one_text = ''1''" "next_rep one_text = ''1''"
proof -
  have ne: "''0'' \<noteq> svn_fs__next_key_key" by (simp add: svn_fs__next_key_key_def)
  have n: "str_recs k new_tables = []" "rep_rec k new_tables = None" for k by (simp_all add: str_recs_def rep_rec_def new_tables_def)
  have r: "str_recs k one_text = (if k = ''0'' then [''ab'', ''c''] else if k = svn_fs__next_key_key then [''1''] else [])" for k
    using n by (simp add: one_text_def)
  have p: "rep_rec k one_text = (if k = ''0'' then Some (skel_text (ft_skel False ''0'')) else if k = svn_fs__next_key_key then Some ''1'' else None)" for k
    using n by (auto simp: one_text_def)
  show nx: "next_str one_text = ''1''" using ne by (simp add: next_str_def r)
  show nr: "next_rep one_text = ''1''" using ne by (simp add: next_rep_def p)
  have v: "valid_key ''1'' \<and> key_value ''0'' < key_value ''1''"
    by (simp add: valid_key_def is_key_char_def is_digit_def key_value_def key_digit_def digit_of_def)
  then show "strings_inv one_text"
    using ne valid_key_0 by (auto simp: strings_inv_def nx r keys_below_def str_keys_def short_recs_def)
  show "reps_inv one_text" using v valid_key_0 ne by (auto simp: reps_inv_def nr keys_below_def rep_keys_def p split: if_splits)
  show rep: "ft_rep one_text ''0'' = Some (False, ''0'')" unfolding one_text_def by (rule ft_rep_put) simp
  show "ft_text one_text ''0'' = ''abc''" by (simp add: ft_text_def rep str_val_def r)
  show "ft_wf one_text ''0''" using ne valid_key_0 by (simp add: ft_wf_def rep r str_val_def)
qed

theorem mutable_rep_apart_witness:
  "\<exists>k' s1 s2. svn_fs__get_mutable_rep ref_db (Some ''0'') one_text = Ok (k', s1) \<and> rep_write ref_db k' ''d'' s1 = Ok ((), s2) \<and>
    trail_result (svn_fs__rep_contents ref_db k') s2 = Ok ''abcd'' \<and> trail_result (svn_fs__rep_contents ref_db ''0'') s2 = Ok ''abc''"
  using mutable_rep_apart [of ref_db id one_text "''0''" "''d''", OF bdb_laws_ref] one_text by auto

theorem immutable_rep_written_witness:
  "\<exists>s1 s2. svn_fs__make_rep_immutable ref_db ''0'' one_text = Ok ((), s1) \<and>
    svn_fs__rep_contents_clear ref_db ''0'' s1 = Err SVN_ERR_FS_REP_NOT_MUTABLE \<and>
    rep_write ref_db ''0'' ''d'' s1 = Ok ((), s2) \<and> trail_result (svn_fs__rep_contents ref_db ''0'') s2 = Ok ''abcd''"
  using immutable_rep_written [of ref_db id one_text "''0''" False "''0''" "''d''", OF bdb_laws_ref] one_text by auto

end
