(* ===== verification/Fs_Dag.thy ===== *)
theory Fs_Dag
  imports Fs_Fulltext
begin

text \<open>
  The directed graph of nodes (\<open>libsvn_fs/dag.c\<close>): a node is a reference to a node revision of the
  nodes table, with the node revision skel it has read.  A skel reached through a null pointer
  stops the program.  Operations that read or change the skel kept in a node return the node as
  it is afterwards.
\<close>

section \<open>Node revision skels\<close>

text \<open>The macros of \<open>node-rev.h\<close>: the parts of a node revision; \<open>None\<close> is the null pointer at the end of a list.\<close>

definition nr_header :: "skel_t \<Rightarrow> skel_t svn_result" where
  "nr_header node_rev = skel_child 0 node_rev"

definition nr_hdr_kind :: "skel_t \<Rightarrow> skel_t option svn_result" where
  "nr_hdr_kind node_rev = svn_bind (nr_header node_rev) (\<lambda>header. Ok (first_skel (skel_children header)))"

definition nr_hdr_rev :: "skel_t \<Rightarrow> skel_t svn_result" where
  "nr_hdr_rev node_rev = svn_bind (nr_header node_rev) (skel_child 1)"

definition nr_hdr_copy :: "skel_t \<Rightarrow> skel_t option svn_result" where
  "nr_hdr_copy node_rev =
     svn_bind (nr_header node_rev) (\<lambda>header.
     svn_bind (skel_child 1 header) (\<lambda>_. Ok (first_skel (drop 2 (skel_children header)))))"

definition nr_prop_key :: "skel_t \<Rightarrow> skel_t svn_result" where
  "nr_prop_key node_rev = skel_child 1 node_rev"

definition nr_data_key :: "skel_t \<Rightarrow> skel_t svn_result" where
  "nr_data_key node_rev = skel_child 2 node_rev"

definition nr_edit_key :: "skel_t \<Rightarrow> skel_t option svn_result" where
  "nr_edit_key node_rev =
     svn_bind (skel_child 2 node_rev) (\<lambda>_. Ok (first_skel (drop 3 (skel_children node_rev))))"

text \<open>The key of a representation in a node revision, as a string.\<close>

definition key_string :: "skel_t \<Rightarrow> bytes" where
  "key_string key_skel = apr_pstrndup (skel_data key_skel)"

definition node_is_kind_p :: "skel_t \<Rightarrow> bytes \<Rightarrow> bool svn_result" where
  "node_is_kind_p node_rev kindstr = svn_bind (nr_hdr_kind node_rev) (\<lambda>kind. Ok (svn_fs__matches_atom kind kindstr))"

definition node_rev_is_mutable :: "skel_t \<Rightarrow> bool svn_result" where
  "node_rev_is_mutable node_content = svn_bind (nr_hdr_rev node_content) (\<lambda>r. Ok (length (skel_data r) = 0))"

text \<open>The revision of the header becomes empty, and everything behind it is cut off.\<close>

definition node_rev_make_mutable :: "skel_t \<Rightarrow> skel_t svn_result" where
  "node_rev_make_mutable node_rev =
     svn_bind (nr_header node_rev) (\<lambda>header.
     svn_bind (skel_child 1 header) (\<lambda>_.
       Ok (set_skel_child 0 (skel_list (skel_data header) ((take 2 (skel_children header))[1 := skel_atom []])) node_rev)))"

section \<open>Nodes\<close>

datatype svn_node_kind_t = svn_node_none | svn_node_file | svn_node_dir | svn_node_unknown

text \<open>
  \<open>dn_completion\<close>: the end of the trail clears the skel, which was mutable when it was read or
  written.
\<close>

record dag_node_t =
  dn_id :: svn_fs_id_t
  dn_kind :: svn_node_kind_t
  dn_node_revision :: "skel_t option"
  dn_completion :: bool

definition svn_fs__dag_node_kind :: "dag_node_t \<Rightarrow> svn_node_kind_t" where
  "svn_fs__dag_node_kind node = dn_kind node"

definition svn_fs__dag_is_file :: "dag_node_t \<Rightarrow> bool" where
  "svn_fs__dag_is_file node \<longleftrightarrow> dn_kind node = svn_node_file"

definition svn_fs__dag_is_directory :: "dag_node_t \<Rightarrow> bool" where
  "svn_fs__dag_is_directory node \<longleftrightarrow> dn_kind node = svn_node_dir"

definition svn_fs__dag_get_id :: "dag_node_t \<Rightarrow> svn_fs_id_t" where
  "svn_fs__dag_get_id node = dn_id node"

definition uncache_node_revision :: "dag_node_t \<Rightarrow> dag_node_t" where
  "uncache_node_revision node = node\<lparr>dn_node_revision := None\<rparr>"

definition cache_node_revision :: "dag_node_t \<Rightarrow> skel_t \<Rightarrow> dag_node_t svn_result" where
  "cache_node_revision node skel =
     svn_bind (node_rev_is_mutable skel) (\<lambda>mutable.
       if mutable then Ok (node\<lparr>dn_node_revision := Some skel, dn_completion := True\<rparr>)
       else Ok (node\<lparr>dn_node_revision := Some (svn_fs__copy_skel skel)\<rparr>))"

definition get_node_revision :: "'d bdb \<Rightarrow> dag_node_t \<Rightarrow> ('d, skel_t \<times> dag_node_t) trail" where
  "get_node_revision db node =
     (case dn_node_revision node of
        Some skel \<Rightarrow> tret (skel, node)
      | None \<Rightarrow>
          tbind (svn_fs__get_node_revision db (dn_id node)) (\<lambda>node_revision.
          tbind (tlift (cache_node_revision node node_revision)) (\<lambda>node.
            case dn_node_revision node of
              Some skel \<Rightarrow> tret (skel, node)
            | None \<Rightarrow> tlift Abort)))"

definition set_node_revision :: "'d bdb \<Rightarrow> dag_node_t \<Rightarrow> skel_t \<Rightarrow> ('d, dag_node_t) trail" where
  "set_node_revision db node skel =
     tbind (svn_fs__put_node_revision db (dn_id node) skel) (\<lambda>_. tlift (cache_node_revision node skel))"

definition svn_fs__dag_check_mutable :: "'d bdb \<Rightarrow> dag_node_t \<Rightarrow> ('d, bool \<times> dag_node_t) trail" where
  "svn_fs__dag_check_mutable db node =
     tbind (get_node_revision db node) (\<lambda>(node_rev, node).
     tbind (tlift (node_rev_is_mutable node_rev)) (\<lambda>is_mutable. tret (is_mutable, node)))"

definition new_dag_node :: "svn_fs_id_t \<Rightarrow> svn_node_kind_t \<Rightarrow> dag_node_t" where
  "new_dag_node nid kind = \<lparr>dn_id = nid, dn_kind = kind, dn_node_revision = None, dn_completion = False\<rparr>"

definition svn_fs__dag_get_node :: "'d bdb \<Rightarrow> svn_fs_id_t \<Rightarrow> ('d, dag_node_t) trail" where
  "svn_fs__dag_get_node db nid =
     tbind (get_node_revision db (new_dag_node (svn_fs__id_copy nid) svn_node_none)) (\<lambda>(contents, new_node).
     tbind (tlift (node_is_kind_p contents ''file'')) (\<lambda>is_file.
       if is_file then tret (new_node\<lparr>dn_kind := svn_node_file\<rparr>)
       else
         tbind (tlift (node_is_kind_p contents ''dir'')) (\<lambda>is_dir.
           if is_dir then tret (new_node\<lparr>dn_kind := svn_node_dir\<rparr>) else tfail SVN_ERR_FS_GENERAL)))"

text \<open>A null id is read through.\<close>

definition dag_get_node_opt :: "'d bdb \<Rightarrow> svn_fs_id_t option \<Rightarrow> ('d, dag_node_t) trail" where
  "dag_get_node_opt db nid = (case nid of None \<Rightarrow> tlift Abort | Some i \<Rightarrow> svn_fs__dag_get_node db i)"

text \<open>\<open>atol\<close>: blanks, a sign and digits; a value outside \<open>long\<close> is undefined.\<close>

definition atol :: "bytes \<Rightarrow> int svn_result" where
  "atol s =
     (let s1 = dropWhile apr_isspace s;
          neg = (s1 \<noteq> [] \<and> hd s1 = CHR ''-'');
          s2 = (if s1 \<noteq> [] \<and> (hd s1 = CHR ''-'' \<or> hd s1 = CHR ''+'') then tl s1 else s1);
          v = int (dec_value (takeWhile is_digit s2));
          r = (if neg then - v else v)
      in if - (2 ^ 63) \<le> r \<and> r < 2 ^ 63 then Ok r else Abort)"

definition SVN_INVALID_REVNUM :: int where
  "SVN_INVALID_REVNUM = - 1"

definition svn_fs__dag_get_revision :: "'d bdb \<Rightarrow> dag_node_t \<Rightarrow> ('d, int \<times> dag_node_t) trail" where
  "svn_fs__dag_get_revision db node =
     tbind (get_node_revision db node) (\<lambda>(node_rev, node).
     tbind (tlift (nr_hdr_rev node_rev)) (\<lambda>rev_str.
       if length (skel_data rev_str) \<noteq> 0
       then tbind (tlift (atol (apr_pstrndup (skel_data rev_str)))) (\<lambda>r. tret (r, node))
       else tret (SVN_INVALID_REVNUM, node)))"

definition svn_fs__dag_dup :: "dag_node_t \<Rightarrow> dag_node_t" where
  "svn_fs__dag_dup node = new_dag_node (svn_fs__id_copy (dn_id node)) (dn_kind node)"

section \<open>Directory entries\<close>

definition parse_entries :: "bytes \<Rightarrow> skel_t svn_result" where
  "parse_entries d = (case svn_fs__parse_skel d of None \<Rightarrow> Abort | Some entries \<Rightarrow> Ok entries)"

definition get_dir_entries :: "'d bdb \<Rightarrow> skel_t \<Rightarrow> ('d, skel_t) trail" where
  "get_dir_entries db node_rev =
     (case skel_children node_rev of
        [] \<Rightarrow> tfail SVN_ERR_FS_CORRUPT
      | header # rest \<Rightarrow>
          if svn_fs__matches_atom (first_skel (skel_children header)) ''dir'' then
            tbind (tlift (nr_data_key node_rev)) (\<lambda>rep_key_skel.
              let rep_key = key_string rep_key_skel in
              if rep_key = [] then tret svn_fs__make_empty_list
              else
                tbind (svn_fs__rep_contents db rep_key) (\<lambda>entries_raw.
                tbind (tlift (parse_entries entries_raw)) (\<lambda>entries.
                  if list_ex (\<lambda>entry. svn_fs__list_length (Some entry) \<noteq> 2) (skel_children entries)
                  then tfail SVN_ERR_FS_CORRUPT
                  else tret entries)))
          else tfail SVN_ERR_FS_NOT_DIRECTORY)"

text \<open>The position of the entry; the entry before it is the one at the position before.\<close>

fun find_entry_loop :: "skel_t list \<Rightarrow> bytes \<Rightarrow> nat \<Rightarrow> nat option svn_result" where
  "find_entry_loop [] name i = Ok None"
| "find_entry_loop (cur_entry # rest) name i =
     (if svn_fs__matches_atom (first_skel (skel_children cur_entry)) name then
        (if svn_fs__list_length (Some cur_entry) \<noteq> 2 then Err SVN_ERR_FS_CORRUPT else Ok (Some i))
      else find_entry_loop rest name (Suc i))"

definition find_dir_entry :: "skel_t \<Rightarrow> bytes \<Rightarrow> nat option svn_result" where
  "find_dir_entry entries name = find_entry_loop (skel_children entries) name 0"

definition svn_fs__dag_dir_entries_skel :: "'d bdb \<Rightarrow> dag_node_t \<Rightarrow> ('d, skel_t \<times> dag_node_t) trail" where
  "svn_fs__dag_dir_entries_skel db node =
     (if \<not> svn_fs__dag_is_directory node then tfail SVN_ERR_FS_NOT_DIRECTORY
      else
        tbind (get_node_revision db node) (\<lambda>(node_rev, node).
        tbind (get_dir_entries db node_rev) (\<lambda>entries. tret (entries, node))))"

definition dir_entry_from_node :: "'d bdb \<Rightarrow> dag_node_t \<Rightarrow> bytes \<Rightarrow> ('d, skel_t option \<times> dag_node_t) trail" where
  "dir_entry_from_node db parent name =
     tbind (svn_fs__dag_dir_entries_skel db parent) (\<lambda>(entries, parent).
     tbind (tlift (find_dir_entry entries name)) (\<lambda>found.
       tret (map_option (\<lambda>i. skel_children entries ! i) found, parent)))"

text \<open>The id in an entry.\<close>

definition entry_id :: "skel_t \<Rightarrow> svn_fs_id_t option svn_result" where
  "entry_id entry = svn_bind (skel_child 1 entry) (\<lambda>id_skel. svn_fs_parse_id (skel_data id_skel))"

record svn_fs_dirent_t =
  de_name :: bytes
  de_id :: "svn_fs_id_t option"

text \<open>The key of the hash table has the length of the name skel: the copy of a name with a null byte is shorter.\<close>

fun hash_entries :: "skel_t list \<Rightarrow> (bytes, svn_fs_dirent_t) fmap \<Rightarrow> (bytes, svn_fs_dirent_t) fmap svn_result" where
  "hash_entries [] tbl = Ok tbl"
| "hash_entries (entry # rest) tbl =
     svn_bind (skel_child 0 entry) (\<lambda>name_skel.
     svn_bind (entry_id entry) (\<lambda>nid.
       if NUL \<in> set (skel_data name_skel) then Abort
       else hash_entries rest (fmupd (skel_data name_skel) \<lparr>de_name = skel_data name_skel, de_id = nid\<rparr> tbl)))"

definition svn_fs__dag_dir_entries_hash :: "'d bdb \<Rightarrow> dag_node_t \<Rightarrow> ('d, (bytes, svn_fs_dirent_t) fmap \<times> dag_node_t) trail" where
  "svn_fs__dag_dir_entries_hash db node =
     tbind (svn_fs__dag_dir_entries_skel db node) (\<lambda>(entries, node).
     tbind (tlift (hash_entries (skel_children entries) fmempty)) (\<lambda>tbl. tret (tbl, node)))"

text \<open>The text of a skel, and a write whose error is ignored.\<close>

definition skel_string :: "skel_t \<Rightarrow> bytes svn_result" where
  "skel_string skel =
     svn_bind (svn_fs__unparse_skel skel) (\<lambda>str. mem_bytes (sb_data str) (unat (sb_len str)))"

definition tignore :: "('d, unit) trail \<Rightarrow> ('d, unit) trail" where
  "tignore m s = (case m s of Ok p \<Rightarrow> Ok p | Err e \<Rightarrow> Ok ((), s) | Abort \<Rightarrow> Abort)"

text \<open>
  The key of a mutable version of the representation behind the data key; the node revision is
  stored with the new key.
\<close>

definition mutable_data_rep :: "'d bdb \<Rightarrow> dag_node_t \<Rightarrow> skel_t \<Rightarrow> bytes \<Rightarrow> ('d, bytes \<times> dag_node_t) trail" where
  "mutable_data_rep db parent parent_node_rev rep_key =
     tbind (svn_fs__get_mutable_rep db (Some rep_key)) (\<lambda>mutable_rep_key.
       if rep_key \<noteq> mutable_rep_key then
         tbind (set_node_revision db parent
                  (set_skel_child 2 (skel_atom mutable_rep_key) (svn_fs__copy_skel parent_node_rev))) (\<lambda>parent.
           tret (mutable_rep_key, parent))
       else tret (mutable_rep_key, parent))"

text \<open>The entries with the entry set: changed where it is, or added in front.\<close>

definition change_entry :: "skel_t \<Rightarrow> bytes \<Rightarrow> svn_fs_id_t \<Rightarrow> skel_t svn_result" where
  "change_entry entries name nid =
     svn_bind (id_atom nid) (\<lambda>id_skel.
     svn_bind (find_dir_entry entries name) (\<lambda>found.
       case found of
         Some i \<Rightarrow> Ok (set_skel_child i (set_skel_child 1 id_skel (skel_children entries ! i)) entries)
       | None \<Rightarrow>
           svn_bind (svn_fs__prepend id_skel svn_fs__make_empty_list) (\<lambda>new_entry.
           svn_bind (svn_fs__prepend (svn_fs__str_atom name) new_entry) (\<lambda>new_entry.
             svn_fs__prepend new_entry entries))))"

definition set_entry :: "'d bdb \<Rightarrow> dag_node_t \<Rightarrow> bytes \<Rightarrow> svn_fs_id_t \<Rightarrow> ('d, dag_node_t) trail" where
  "set_entry db parent name nid =
     tbind (get_node_revision db parent) (\<lambda>(parent_node_rev, parent).
     tbind (tlift (nr_data_key parent_node_rev)) (\<lambda>key_skel.
     let rep_key = key_string key_skel in
     tbind (mutable_data_rep db parent parent_node_rev rep_key) (\<lambda>(mutable_rep_key, parent).
     tbind (if rep_key = []
            then tbind (tlift (skel_string svn_fs__make_empty_list)) (\<lambda>empty_text. tignore (rep_write db mutable_rep_key empty_text))
            else tret ()) (\<lambda>_.
     tbind (svn_fs__rep_contents db mutable_rep_key) (\<lambda>str.
     tbind (tlift (svn_bind (parse_entries str) (\<lambda>entries. change_entry entries name nid))) (\<lambda>entries.
     tbind (tlift (skel_string entries)) (\<lambda>unparsed_entries.
     tbind (svn_fs__rep_contents_clear db mutable_rep_key) (\<lambda>_.
     tbind (tignore (rep_write db mutable_rep_key unparsed_entries)) (\<lambda>_. tret parent)))))))))"

definition svn_fs__dag_set_entry :: "'d bdb \<Rightarrow> dag_node_t \<Rightarrow> bytes \<Rightarrow> svn_fs_id_t \<Rightarrow> ('d, dag_node_t) trail" where
  "svn_fs__dag_set_entry db node entry_name nid =
     (if \<not> svn_fs__dag_is_directory node then tfail SVN_ERR_FS_NOT_DIRECTORY
      else
        tbind (svn_fs__dag_check_mutable db node) (\<lambda>(is_mutable, node).
          if \<not> is_mutable then tfail SVN_ERR_FS_NOT_DIRECTORY
          else set_entry db node entry_name nid))"


section \<open>Creating and opening entries\<close>

definition new_node_rev :: "bool \<Rightarrow> skel_t svn_result" where
  "new_node_rev is_dir =
     svn_bind (svn_fs__prepend (svn_fs__str_atom []) svn_fs__make_empty_list) (\<lambda>header.
     svn_bind (svn_fs__prepend (svn_fs__str_atom (if is_dir then ''dir'' else ''file'')) header) (\<lambda>header.
     svn_bind (svn_fs__prepend (svn_fs__str_atom []) svn_fs__make_empty_list) (\<lambda>new_node_skel.
     svn_bind (svn_fs__prepend (svn_fs__str_atom []) new_node_skel) (\<lambda>new_node_skel.
       svn_fs__prepend header new_node_skel))))"

text \<open>The result is the new child and the parent.\<close>

definition make_entry :: "'d bdb \<Rightarrow> dag_node_t \<Rightarrow> bytes \<Rightarrow> bool \<Rightarrow> ('d, dag_node_t \<times> dag_node_t) trail" where
  "make_entry db parent name is_dir =
     (if \<not> svn_fs__is_single_path_component name then tfail SVN_ERR_FS_NOT_SINGLE_PATH_COMPONENT
      else if \<not> svn_fs__dag_is_directory parent then tfail SVN_ERR_FS_NOT_DIRECTORY
      else
        tbind (svn_fs__dag_check_mutable db parent) (\<lambda>(is_mutable, parent).
          if \<not> is_mutable then tfail SVN_ERR_FS_NOT_MUTABLE
          else
            tbind (dir_entry_from_node db parent name) (\<lambda>(entry_skel, parent).
              if entry_skel \<noteq> None then tfail SVN_ERR_FS_ALREADY_EXISTS
              else
                tbind (tlift (new_node_rev is_dir)) (\<lambda>new_node_skel.
                tbind (svn_fs__create_node db new_node_skel) (\<lambda>new_node_id.
                tbind (svn_fs__dag_get_node db new_node_id) (\<lambda>child.
                tbind (set_entry db parent name (svn_fs__dag_get_id child)) (\<lambda>parent. tret (child, parent))))))))"

definition svn_fs__dag_make_file :: "'d bdb \<Rightarrow> dag_node_t \<Rightarrow> bytes \<Rightarrow> ('d, dag_node_t \<times> dag_node_t) trail" where
  "svn_fs__dag_make_file db parent name = make_entry db parent name False"

definition svn_fs__dag_make_dir :: "'d bdb \<Rightarrow> dag_node_t \<Rightarrow> bytes \<Rightarrow> ('d, dag_node_t \<times> dag_node_t) trail" where
  "svn_fs__dag_make_dir db parent name = make_entry db parent name True"

definition svn_fs__dag_open :: "'d bdb \<Rightarrow> dag_node_t \<Rightarrow> bytes \<Rightarrow> ('d, dag_node_t \<times> dag_node_t) trail" where
  "svn_fs__dag_open db parent name =
     tbind (dir_entry_from_node db parent name) (\<lambda>(entry_skel, parent).
       case entry_skel of
         None \<Rightarrow> tfail SVN_ERR_FS_NOT_FOUND
       | Some entry \<Rightarrow>
           if \<not> svn_fs__is_single_path_component name then tfail SVN_ERR_FS_NOT_SINGLE_PATH_COMPONENT
           else
             tbind (tlift (entry_id entry)) (\<lambda>nid.
             tbind (dag_get_node_opt db nid) (\<lambda>child. tret (child, parent))))"

text \<open>The child is returned as it is after the check, with the skel it has read.\<close>

definition svn_fs__dag_link :: "'d bdb \<Rightarrow> dag_node_t \<Rightarrow> dag_node_t \<Rightarrow> bytes \<Rightarrow> ('d, dag_node_t \<times> dag_node_t) trail" where
  "svn_fs__dag_link db parent child name =
     (if \<not> svn_fs__dag_is_directory parent then tfail SVN_ERR_FS_NOT_DIRECTORY
      else
        tbind (svn_fs__dag_check_mutable db parent) (\<lambda>(is_mutable, parent).
          if \<not> is_mutable then tfail SVN_ERR_FS_NOT_MUTABLE
          else
            tbind (svn_fs__dag_check_mutable db child) (\<lambda>(is_mutable, child).
              if is_mutable then tfail SVN_ERR_FS_NOT_MUTABLE
              else if \<not> svn_fs__is_single_path_component name then tfail SVN_ERR_FS_NOT_SINGLE_PATH_COMPONENT
              else
                tbind (dir_entry_from_node db parent name) (\<lambda>(entry_skel, parent).
                  if entry_skel \<noteq> None then tfail SVN_ERR_FS_ALREADY_EXISTS
                  else tbind (set_entry db parent name (svn_fs__dag_get_id child)) (\<lambda>parent. tret (child, parent))))))"

section \<open>Property lists of nodes\<close>

text \<open>\<open>None\<close> is the null pointer of a property list that cannot be parsed.\<close>

definition svn_fs__dag_get_proplist :: "'d bdb \<Rightarrow> dag_node_t \<Rightarrow> ('d, skel_t option \<times> dag_node_t) trail" where
  "svn_fs__dag_get_proplist db node =
     tbind (get_node_revision db node) (\<lambda>(node_rev, node).
     tbind (tlift (nr_prop_key node_rev)) (\<lambda>rep_key_skel.
       if length (skel_data rep_key_skel) = 0 then tret (Some svn_fs__make_empty_list, node)
       else
         tbind (svn_fs__rep_contents db (key_string rep_key_skel)) (\<lambda>propstr.
           tret (svn_fs__parse_skel propstr, node))))"

text \<open>The skel kept in the node is changed in place before it is stored.\<close>

definition svn_fs__dag_set_proplist :: "'d bdb \<Rightarrow> dag_node_t \<Rightarrow> skel_t \<Rightarrow> ('d, dag_node_t) trail" where
  "svn_fs__dag_set_proplist db node proplist =
     tbind (svn_fs__dag_check_mutable db node) (\<lambda>(is_mutable, node).
       if \<not> is_mutable then tfail SVN_ERR_FS_NOT_MUTABLE
       else if \<not> svn_fs__is_valid_proplist (Some proplist) then tfail SVN_ERR_FS_CORRUPT
       else
         tbind (get_node_revision db node) (\<lambda>(node_rev, node).
         tbind (tlift (nr_prop_key node_rev)) (\<lambda>key_skel.
         let orig_rep_key = key_string key_skel in
         tbind (svn_fs__get_mutable_rep db (Some orig_rep_key)) (\<lambda>mutable_rep_key.
         let node_rev' = set_skel_child 1 (skel_atom mutable_rep_key) node_rev in
         tbind (if mutable_rep_key \<noteq> orig_rep_key then
                  tbind (svn_fs__put_node_revision db (dn_id node) node_rev') (\<lambda>_.
                    tret (node\<lparr>dn_node_revision := Some node_rev'\<rparr>))
                else tret node) (\<lambda>node.
         tbind (tlift (skel_string proplist)) (\<lambda>unparsed_props.
         tbind (svn_fs__rep_contents_clear db mutable_rep_key) (\<lambda>_.
         tbind (rep_write db mutable_rep_key unparsed_props) (\<lambda>_. tret node))))))))"

section \<open>Roots\<close>

definition svn_fs__dag_revision_root :: "'d bdb \<Rightarrow> int \<Rightarrow> ('d, dag_node_t) trail" where
  "svn_fs__dag_revision_root db r = tbind (svn_fs__rev_get_root db r) (svn_fs__dag_get_node db)"

definition svn_fs__dag_txn_root :: "'d bdb \<Rightarrow> bytes \<Rightarrow> ('d, dag_node_t) trail" where
  "svn_fs__dag_txn_root db txn = tbind (svn_fs__get_txn_ids db txn) (\<lambda>(root_id, ignored). svn_fs__dag_get_node db root_id)"

definition svn_fs__dag_txn_base_root :: "'d bdb \<Rightarrow> bytes \<Rightarrow> ('d, dag_node_t) trail" where
  "svn_fs__dag_txn_base_root db txn =
     tbind (svn_fs__get_txn_ids db txn) (\<lambda>(ignored, base_root_id). svn_fs__dag_get_node db base_root_id)"

definition svn_fs__dag_clone_child :: "'d bdb \<Rightarrow> dag_node_t \<Rightarrow> bytes \<Rightarrow> ('d, dag_node_t \<times> dag_node_t) trail" where
  "svn_fs__dag_clone_child db parent name =
     tbind (svn_fs__dag_check_mutable db parent) (\<lambda>(is_mutable, parent).
       if \<not> is_mutable then tfail SVN_ERR_FS_NOT_MUTABLE
       else if \<not> svn_fs__is_single_path_component name then tfail SVN_ERR_FS_NOT_SINGLE_PATH_COMPONENT
       else
         tbind (svn_fs__dag_open db parent name) (\<lambda>(cur_entry, parent).
         tbind (svn_fs__dag_check_mutable db cur_entry) (\<lambda>(is_mutable, cur_entry).
         tbind (if is_mutable then tret (dn_id cur_entry, parent)
                else
                  tbind (get_node_revision db cur_entry) (\<lambda>(node_rev, cur_entry).
                  tbind (tlift (node_rev_make_mutable node_rev)) (\<lambda>node_rev.
                  tbind (svn_fs__create_successor db (dn_id cur_entry) node_rev) (\<lambda>new_node_id.
                  tbind (set_entry db parent name new_node_id) (\<lambda>parent. tret (new_node_id, parent)))))) (\<lambda>(new_node_id, parent).
         tbind (svn_fs__dag_get_node db new_node_id) (\<lambda>child. tret (child, parent))))))"

definition svn_fs__dag_clone_root :: "'d bdb \<Rightarrow> bytes \<Rightarrow> ('d, dag_node_t) trail" where
  "svn_fs__dag_clone_root db svn_txn =
     tbind (svn_fs__get_txn_ids db svn_txn) (\<lambda>(root_id, base_root_id).
     tbind (if svn_fs__id_eq root_id base_root_id then
              tbind (svn_fs__get_node_revision db base_root_id) (\<lambda>root_skel.
              tbind (tlift (node_rev_make_mutable root_skel)) (\<lambda>root_skel.
              tbind (svn_fs__create_successor db base_root_id root_skel) (\<lambda>root_id.
              tbind (svn_fs__set_txn_root db svn_txn root_id) (\<lambda>_. tret root_id))))
            else tret root_id) (\<lambda>root_id.
       svn_fs__dag_get_node db root_id))"

section \<open>Deleting\<close>

fun tforeach :: "('a \<Rightarrow> ('d, unit) trail) \<Rightarrow> 'a list \<Rightarrow> ('d, unit) trail" where
  "tforeach f [] = tret ()"
| "tforeach f (x # xs) = tbind (f x) (\<lambda>_. tforeach f xs)"

definition delete_key_rep :: "'d bdb \<Rightarrow> skel_t \<Rightarrow> ('d, unit) trail" where
  "delete_key_rep db key_skel =
     (let rep_key = key_string key_skel in
      if rep_key \<noteq> [] then svn_fs__delete_rep_if_mutable db rep_key else tret ())"

text \<open>
  The recursion into directories: different nodes are nested no deeper than their number, and a
  directory inside itself recurses until the stack is exhausted.
\<close>

fun delete_node_depth :: "nat \<Rightarrow> 'd bdb \<Rightarrow> svn_fs_id_t \<Rightarrow> ('d, unit) trail" where
  "delete_node_depth 0 db nid = tlift Abort"
| "delete_node_depth (Suc n) db nid =
     tbind (svn_fs__dag_get_node db nid) (\<lambda>node.
     tbind (svn_fs__dag_check_mutable db node) (\<lambda>(is_mutable, node).
       if \<not> is_mutable then tret ()
       else
         tbind (if svn_fs__dag_is_directory node then
                  tbind (svn_fs__dag_dir_entries_skel db node) (\<lambda>(entries, node).
                    tforeach (\<lambda>entry.
                        tbind (tlift (entry_id entry)) (\<lambda>this_id.
                          case this_id of None \<Rightarrow> tlift Abort | Some i \<Rightarrow> delete_node_depth n db i))
                      (skel_children entries))
                else tret ()) (\<lambda>_.
         tbind (svn_fs__get_node_revision db nid) (\<lambda>node_rev.
         tbind (tbind (tlift (nr_prop_key node_rev)) (delete_key_rep db)) (\<lambda>_.
         tbind (tbind (tlift (nr_data_key node_rev)) (delete_key_rep db)) (\<lambda>_.
         tbind (tbind (tlift (nr_edit_key node_rev)) (\<lambda>edit_key.
                  case edit_key of None \<Rightarrow> tret () | Some key_skel \<Rightarrow> delete_key_rep db key_skel)) (\<lambda>_.
           svn_fs__delete_node_revision db nid)))))))"

definition svn_fs__dag_delete_if_mutable :: "'d bdb \<Rightarrow> svn_fs_id_t \<Rightarrow> ('d, unit) trail" where
  "svn_fs__dag_delete_if_mutable db nid =
     tbind (db_peek (db_count db Nodes)) (\<lambda>n. delete_node_depth (Suc n) db nid)"

definition remove_entry :: "nat \<Rightarrow> skel_t \<Rightarrow> skel_t" where
  "remove_entry i entries =
     skel_list (skel_data entries) (take i (skel_children entries) @ drop (Suc i) (skel_children entries))"

text \<open>The node of the entry: a directory must be readable, and empty when that is required.\<close>

definition check_deletable :: "'d bdb \<Rightarrow> svn_fs_id_t option \<Rightarrow> bool \<Rightarrow> ('d, svn_fs_id_t) trail" where
  "check_deletable db nid require_empty =
     (case nid of
        None \<Rightarrow> tlift Abort
      | Some i \<Rightarrow>
          tbind (svn_fs__dag_get_node db i) (\<lambda>node.
            if svn_fs__dag_is_directory node then
              tbind (svn_fs__dag_dir_entries_skel db node) (\<lambda>(entries_here, node).
                if require_empty \<and> svn_fs__list_length (Some entries_here) \<noteq> 0 then tfail SVN_ERR_FS_DIR_NOT_EMPTY
                else tret i)
            else tret i))"

definition delete_entry :: "'d bdb \<Rightarrow> dag_node_t \<Rightarrow> bytes \<Rightarrow> bool \<Rightarrow> ('d, dag_node_t) trail" where
  "delete_entry db parent name require_empty =
     (if \<not> svn_fs__dag_is_directory parent then tfail SVN_ERR_FS_NOT_DIRECTORY
      else
        tbind (svn_fs__dag_check_mutable db parent) (\<lambda>(is_mutable, parent).
          if \<not> is_mutable then tfail SVN_ERR_FS_NOT_MUTABLE
          else if \<not> svn_fs__is_single_path_component name then tfail SVN_ERR_FS_NOT_SINGLE_PATH_COMPONENT
          else
            tbind (get_node_revision db parent) (\<lambda>(parent_node_rev, parent).
            tbind (tlift (nr_data_key parent_node_rev)) (\<lambda>key_skel.
            let rep_key = key_string key_skel in
            if rep_key = [] then tfail SVN_ERR_FS_NO_SUCH_ENTRY
            else
              tbind (mutable_data_rep db parent parent_node_rev rep_key) (\<lambda>(mutable_rep_key, parent).
              tbind (svn_fs__rep_contents db mutable_rep_key) (\<lambda>str.
              tbind (tlift (parse_entries str)) (\<lambda>entries.
              tbind (tlift (find_dir_entry entries name)) (\<lambda>found.
                case found of
                  None \<Rightarrow> tfail SVN_ERR_FS_NO_SUCH_ENTRY
                | Some i \<Rightarrow>
                    tbind (tlift (entry_id (skel_children entries ! i))) (\<lambda>nid.
                    tbind (check_deletable db nid require_empty) (\<lambda>nid.
                    tbind (svn_fs__dag_delete_if_mutable db nid) (\<lambda>_.
                    tbind (tlift (skel_string (remove_entry i entries))) (\<lambda>unparsed_entries.
                    tbind (svn_fs__rep_contents_clear db mutable_rep_key) (\<lambda>_.
                    tbind (rep_write db mutable_rep_key unparsed_entries) (\<lambda>_. tret parent))))))))))))))"

definition svn_fs__dag_delete :: "'d bdb \<Rightarrow> dag_node_t \<Rightarrow> bytes \<Rightarrow> ('d, dag_node_t) trail" where
  "svn_fs__dag_delete db parent name = delete_entry db parent name True"

definition svn_fs__dag_delete_tree :: "'d bdb \<Rightarrow> dag_node_t \<Rightarrow> bytes \<Rightarrow> ('d, dag_node_t) trail" where
  "svn_fs__dag_delete_tree db parent name = delete_entry db parent name False"

section \<open>Contents of files\<close>

text \<open>The stream that is returned is given by its baton; each read of it is a transaction.\<close>

definition svn_fs__dag_get_contents :: "'d bdb \<Rightarrow> dag_node_t \<Rightarrow> ('d, rep_read_baton \<times> dag_node_t) trail" where
  "svn_fs__dag_get_contents db file =
     (if \<not> svn_fs__dag_is_file file then tfail SVN_ERR_FS_NOT_FILE
      else
        tbind (get_node_revision db file) (\<lambda>(node_rev, file).
        tbind (tlift (nr_data_key node_rev)) (\<lambda>key_skel.
          tret (\<lparr>rr_rep_key = (if length (skel_data key_skel) \<noteq> 0 then Some (key_string key_skel) else None), rr_offset = 0\<rparr>, file))))"

definition svn_fs__dag_file_length :: "'d bdb \<Rightarrow> dag_node_t \<Rightarrow> ('d, nat \<times> dag_node_t) trail" where
  "svn_fs__dag_file_length db file =
     (if \<not> svn_fs__dag_is_file file then tfail SVN_ERR_FS_NOT_FILE
      else
        tbind (get_node_revision db file) (\<lambda>(node_rev, file).
          if \<not> 3 \<le> svn_fs__list_length (Some node_rev) then tlift Abort
          else
            tbind (tlift (nr_data_key node_rev)) (\<lambda>key_skel.
            tbind (svn_fs__rep_contents_size db (key_string key_skel)) (\<lambda>length. tret (length, file)))))"

text \<open>The write stream is given by the key of its representation.\<close>

definition svn_fs__dag_get_edit_stream :: "'d bdb \<Rightarrow> dag_node_t \<Rightarrow> ('d, bytes \<times> dag_node_t) trail" where
  "svn_fs__dag_get_edit_stream db file =
     (if \<not> svn_fs__dag_is_file file then tfail SVN_ERR_FS_NOT_FILE
      else
        tbind (svn_fs__dag_check_mutable db file) (\<lambda>(is_mutable, file).
          if \<not> is_mutable then tfail SVN_ERR_FS_NOT_MUTABLE
          else
            tbind (get_node_revision db file) (\<lambda>(node_rev, file).
            tbind (tlift (nr_edit_key node_rev)) (\<lambda>edit_key.
            tbind (case edit_key of
                     None \<Rightarrow> tret ()
                   | Some key_skel \<Rightarrow> svn_fs__delete_rep_if_mutable db (key_string key_skel)) (\<lambda>_.
            tbind (svn_fs__get_mutable_rep db None) (\<lambda>mutable_rep_key.
            tbind (tlift (svn_fs__append (svn_fs__str_atom mutable_rep_key) node_rev)) (\<lambda>node_rev.
            tbind (svn_fs__put_node_revision db (dn_id file) node_rev) (\<lambda>_.
              tret (mutable_rep_key, file\<lparr>dn_node_revision := Some node_rev\<rparr>)))))))))"

definition svn_fs__dag_finalize_edits :: "'d bdb \<Rightarrow> dag_node_t \<Rightarrow> ('d, dag_node_t) trail" where
  "svn_fs__dag_finalize_edits db file =
     (if \<not> svn_fs__dag_is_file file then tfail SVN_ERR_FS_NOT_FILE
      else
        tbind (svn_fs__dag_check_mutable db file) (\<lambda>(is_mutable, file).
          if \<not> is_mutable then tfail SVN_ERR_FS_NOT_MUTABLE
          else
            tbind (get_node_revision db file) (\<lambda>(node_rev, file).
            tbind (tlift (nr_edit_key node_rev)) (\<lambda>edit_key.
              if edit_key = None then tret file
              else
                tbind (tlift (nr_data_key node_rev)) (\<lambda>key_skel.
                let old_data_key = key_string key_skel;
                    node_rev = skel_list (skel_data node_rev) (take 2 (skel_children node_rev) @ drop 3 (skel_children node_rev)) in
                tbind (svn_fs__put_node_revision db (dn_id file) node_rev) (\<lambda>_.
                tbind (if old_data_key \<noteq> [] then svn_fs__delete_rep_if_mutable db old_data_key else tret ()) (\<lambda>_.
                  tret (file\<lparr>dn_node_revision := Some node_rev\<rparr>))))))))"

section \<open>Copies\<close>

definition svn_fs__dag_rename :: "'d bdb \<Rightarrow> dag_node_t \<Rightarrow> bytes \<Rightarrow> dag_node_t \<Rightarrow> bytes \<Rightarrow> ('d, unit) trail" where
  "svn_fs__dag_rename db from_dir from_name to_dir to_name = tlift Abort"

text \<open>The text of a revision number, printed with \<open>%ld\<close>.\<close>

definition rev_text :: "int \<Rightarrow> bytes" where
  "rev_text r = (if r < 0 then CHR ''-'' # dec_digits (nat (- r)) else dec_digits (nat r))"

text \<open>A node revision that says it is a copy: the options of its header are replaced, and it is mutable.\<close>

definition copy_node_rev :: "skel_t \<Rightarrow> int \<Rightarrow> bytes \<Rightarrow> skel_t svn_result" where
  "copy_node_rev from_node_rev from_rev from_path =
     (let to_node_rev = svn_fs__copy_skel from_node_rev in
      svn_bind (svn_fs__prepend (svn_fs__str_atom from_path) svn_fs__make_empty_list) (\<lambda>copy_opt.
      svn_bind (svn_fs__prepend (svn_fs__str_atom (rev_text from_rev)) copy_opt) (\<lambda>copy_opt.
      svn_bind (svn_fs__prepend (svn_fs__str_atom ''copy'') copy_opt) (\<lambda>copy_opt.
      svn_bind (nr_hdr_copy to_node_rev) (\<lambda>_.
      svn_bind (nr_header to_node_rev) (\<lambda>header.
      svn_bind (svn_fs__append copy_opt (skel_list (skel_data header) (take 2 (skel_children header)))) (\<lambda>header.
        Ok (set_skel_child 0 (set_skel_child 1 (skel_atom []) header) to_node_rev))))))))"

definition svn_fs__dag_copy ::
  "'d bdb \<Rightarrow> dag_node_t \<Rightarrow> bytes \<Rightarrow> dag_node_t \<Rightarrow> bool \<Rightarrow> int \<Rightarrow> bytes \<Rightarrow> ('d, dag_node_t \<times> dag_node_t) trail"
where
  "svn_fs__dag_copy db to_node entry from_node preserve_history from_rev from_path =
     tbind (if preserve_history then
              tbind (get_node_revision db from_node) (\<lambda>(from_node_rev, from_node).
              tbind (tlift (copy_node_rev from_node_rev from_rev from_path)) (\<lambda>to_node_rev.
              tbind (svn_fs__create_node db to_node_rev) (\<lambda>nid. tret (nid, from_node))))
            else tret (svn_fs__dag_get_id from_node, from_node)) (\<lambda>(nid, from_node).
     tbind (svn_fs__dag_set_entry db to_node entry nid) (\<lambda>to_node. tret (to_node, from_node)))"

definition svn_fs__dag_copied_from :: "'d bdb \<Rightarrow> dag_node_t \<Rightarrow> ('d, (int \<times> bytes option) \<times> dag_node_t) trail" where
  "svn_fs__dag_copied_from db node =
     tbind (get_node_revision db node) (\<lambda>(node_rev, node).
     tbind (tlift (nr_hdr_copy node_rev)) (\<lambda>copy_skel.
       case copy_skel of
         None \<Rightarrow> tret ((SVN_INVALID_REVNUM, None), node)
       | Some skel \<Rightarrow>
           tbind (tlift (svn_bind (skel_child 1 skel) (\<lambda>c. atol (apr_pstrndup (skel_data c))))) (\<lambda>r.
           tbind (tlift (skel_child 2 skel)) (\<lambda>c. tret ((r, Some (apr_pstrndup (skel_data c))), node)))))"

section \<open>Comparison\<close>

text \<open>Whether the properties and the contents differ; either question can be left out.\<close>

definition svn_fs__things_different ::
  "'d bdb \<Rightarrow> bool \<Rightarrow> bool \<Rightarrow> dag_node_t \<Rightarrow> dag_node_t \<Rightarrow> ('d, bool option \<times> bool option) trail"
where
  "svn_fs__things_different db want_props want_contents node1 node2 =
     (if \<not> want_props \<and> \<not> want_contents then tret (None, None)
      else
        tbind (get_node_revision db node1) (\<lambda>(node_rev1, node1).
        tbind (get_node_revision db node2) (\<lambda>(node_rev2, node2).
        tbind (if want_props then
                 tbind (tlift (nr_prop_key node_rev1)) (\<lambda>k1. tbind (tlift (nr_prop_key node_rev2)) (\<lambda>k2.
                 tbind (tlift (svn_fs__skels_are_equal k1 k2)) (\<lambda>eq. tret (Some (\<not> eq)))))
               else tret None) (\<lambda>props_changed.
        tbind (if want_contents then
                 tbind (tlift (nr_data_key node_rev1)) (\<lambda>k1. tbind (tlift (nr_data_key node_rev2)) (\<lambda>k2.
                 tbind (tlift (svn_fs__skels_are_equal k1 k2)) (\<lambda>eq. tret (Some (\<not> eq)))))
               else tret None) (\<lambda>contents_changed.
          tret (props_changed, contents_changed))))))"

section \<open>Refinement\<close>

lemma refines_tignore [refine_intros]: "refines view m g \<Longrightarrow> refines view (tignore m) (tignore g)"
  unfolding refines_def tignore_def
proof
  fix s assume "\<forall>s. map_svn_result (map_prod id view) (m s) = g (view s)"
  then have "g (view s) = map_svn_result (map_prod id view) (m s)" by simp
  then show "map_svn_result (map_prod id view) (case m s of Ok p \<Rightarrow> Ok p | Err e \<Rightarrow> Ok ((), s) | Abort \<Rightarrow> Abort) =
      (case g (view s) of Ok p \<Rightarrow> Ok p | Err e \<Rightarrow> Ok ((), view s) | Abort \<Rightarrow> Abort)"
    by (cases "m s") auto
qed

lemma refines_tforeach [refine_intros]: "(\<And>x. refines view (f x) (g x)) \<Longrightarrow> refines view (tforeach f xs) (tforeach g xs)"
  by (induction xs) (auto intro!: refine_intros)

lemma refines_dag_get_node_revision [refine_intros]:
  "bdb_laws db view \<Longrightarrow> refines view (get_node_revision db node) (get_node_revision ref_db node)"
  unfolding get_node_revision_def by (intro refine_intros)

lemma refines_set_node_revision [refine_intros]:
  "bdb_laws db view \<Longrightarrow> refines view (set_node_revision db node skel) (set_node_revision ref_db node skel)"
  unfolding set_node_revision_def by (intro refine_intros)

lemma refines_dag_check_mutable [refine_intros]:
  "bdb_laws db view \<Longrightarrow> refines view (svn_fs__dag_check_mutable db node) (svn_fs__dag_check_mutable ref_db node)"
  unfolding svn_fs__dag_check_mutable_def by (intro refine_intros)

lemma refines_dag_get_node [refine_intros]:
  "bdb_laws db view \<Longrightarrow> refines view (svn_fs__dag_get_node db nid) (svn_fs__dag_get_node ref_db nid)"
  unfolding svn_fs__dag_get_node_def by (intro refine_intros)

lemma refines_dag_get_node_opt [refine_intros]:
  "bdb_laws db view \<Longrightarrow> refines view (dag_get_node_opt db nid) (dag_get_node_opt ref_db nid)"
  unfolding dag_get_node_opt_def by (intro refine_intros)

lemma refines_dag_get_revision [refine_intros]:
  "bdb_laws db view \<Longrightarrow> refines view (svn_fs__dag_get_revision db node) (svn_fs__dag_get_revision ref_db node)"
  unfolding svn_fs__dag_get_revision_def by (intro refine_intros)

lemma refines_get_dir_entries [refine_intros]:
  "bdb_laws db view \<Longrightarrow> refines view (get_dir_entries db node_rev) (get_dir_entries ref_db node_rev)"
  unfolding get_dir_entries_def Let_def by (intro refine_intros)

lemma refines_dir_entries_skel [refine_intros]:
  "bdb_laws db view \<Longrightarrow> refines view (svn_fs__dag_dir_entries_skel db node) (svn_fs__dag_dir_entries_skel ref_db node)"
  unfolding svn_fs__dag_dir_entries_skel_def by (intro refine_intros)

lemma refines_dir_entry_from_node [refine_intros]:
  "bdb_laws db view \<Longrightarrow> refines view (dir_entry_from_node db node name) (dir_entry_from_node ref_db node name)"
  unfolding dir_entry_from_node_def by (intro refine_intros)

lemma refines_dir_entries_hash [refine_intros]:
  "bdb_laws db view \<Longrightarrow> refines view (svn_fs__dag_dir_entries_hash db node) (svn_fs__dag_dir_entries_hash ref_db node)"
  unfolding svn_fs__dag_dir_entries_hash_def by (intro refine_intros)

lemma refines_mutable_data_rep [refine_intros]:
  "bdb_laws db view \<Longrightarrow> refines view (mutable_data_rep db node nr k) (mutable_data_rep ref_db node nr k)"
  unfolding mutable_data_rep_def by (intro refine_intros)

lemma refines_set_entry [refine_intros]:
  "bdb_laws db view \<Longrightarrow> refines view (set_entry db node name nid) (set_entry ref_db node name nid)"
  unfolding set_entry_def Let_def by (intro refine_intros)

lemma refines_dag_set_entry [refine_intros]:
  "bdb_laws db view \<Longrightarrow> refines view (svn_fs__dag_set_entry db node name nid) (svn_fs__dag_set_entry ref_db node name nid)"
  unfolding svn_fs__dag_set_entry_def by (intro refine_intros)

lemma refines_make_entry [refine_intros]:
  "bdb_laws db view \<Longrightarrow> refines view (make_entry db node name is_dir) (make_entry ref_db node name is_dir)"
  unfolding make_entry_def by (intro refine_intros)

lemma refines_dag_open [refine_intros]:
  "bdb_laws db view \<Longrightarrow> refines view (svn_fs__dag_open db node name) (svn_fs__dag_open ref_db node name)"
  unfolding svn_fs__dag_open_def by (intro refine_intros)

lemma refines_dag_link [refine_intros]:
  "bdb_laws db view \<Longrightarrow> refines view (svn_fs__dag_link db node child name) (svn_fs__dag_link ref_db node child name)"
  unfolding svn_fs__dag_link_def by (intro refine_intros)

lemma refines_dag_proplist [refine_intros]:
  "bdb_laws db view \<Longrightarrow> refines view (svn_fs__dag_get_proplist db node) (svn_fs__dag_get_proplist ref_db node)"
  "bdb_laws db view \<Longrightarrow> refines view (svn_fs__dag_set_proplist db node p) (svn_fs__dag_set_proplist ref_db node p)"
  unfolding svn_fs__dag_get_proplist_def svn_fs__dag_set_proplist_def Let_def by (intro refine_intros; assumption)+

lemma refines_dag_roots [refine_intros]:
  "bdb_laws db view \<Longrightarrow> refines view (svn_fs__dag_revision_root db r) (svn_fs__dag_revision_root ref_db r)"
  "bdb_laws db view \<Longrightarrow> refines view (svn_fs__dag_txn_root db txn) (svn_fs__dag_txn_root ref_db txn)"
  "bdb_laws db view \<Longrightarrow> refines view (svn_fs__dag_txn_base_root db txn) (svn_fs__dag_txn_base_root ref_db txn)"
  unfolding svn_fs__dag_revision_root_def svn_fs__dag_txn_root_def svn_fs__dag_txn_base_root_def by (intro refine_intros; assumption)+

lemma refines_dag_clone_child [refine_intros]:
  "bdb_laws db view \<Longrightarrow> refines view (svn_fs__dag_clone_child db node name) (svn_fs__dag_clone_child ref_db node name)"
  unfolding svn_fs__dag_clone_child_def by (intro refine_intros)

lemma refines_dag_clone_root [refine_intros]:
  "bdb_laws db view \<Longrightarrow> refines view (svn_fs__dag_clone_root db txn) (svn_fs__dag_clone_root ref_db txn)"
  unfolding svn_fs__dag_clone_root_def by (intro refine_intros)

lemma refines_delete_key_rep [refine_intros]:
  "bdb_laws db view \<Longrightarrow> refines view (delete_key_rep db k) (delete_key_rep ref_db k)"
  unfolding delete_key_rep_def Let_def by (intro refine_intros)

lemma refines_delete_node_depth:
  "bdb_laws db view \<Longrightarrow> refines view (delete_node_depth n db nid) (delete_node_depth n ref_db nid)"
proof (induction n arbitrary: nid)
  case (Suc n)
  show ?case unfolding delete_node_depth.simps by (intro refine_intros Suc)
qed (simp add: refines_tlift)

lemma refines_dag_delete_if_mutable [refine_intros]:
  "bdb_laws db view \<Longrightarrow> refines view (svn_fs__dag_delete_if_mutable db nid) (svn_fs__dag_delete_if_mutable ref_db nid)"
  unfolding svn_fs__dag_delete_if_mutable_def by (intro refine_intros refines_delete_node_depth)

lemma refines_check_deletable [refine_intros]:
  "bdb_laws db view \<Longrightarrow> refines view (check_deletable db nid b) (check_deletable ref_db nid b)"
  unfolding check_deletable_def by (intro refine_intros)

lemma refines_delete_entry [refine_intros]:
  "bdb_laws db view \<Longrightarrow> refines view (delete_entry db node name b) (delete_entry ref_db node name b)"
  unfolding delete_entry_def Let_def by (intro refine_intros)

lemma refines_dag_file [refine_intros]:
  "bdb_laws db view \<Longrightarrow> refines view (svn_fs__dag_get_contents db node) (svn_fs__dag_get_contents ref_db node)"
  "bdb_laws db view \<Longrightarrow> refines view (svn_fs__dag_file_length db node) (svn_fs__dag_file_length ref_db node)"
  "bdb_laws db view \<Longrightarrow> refines view (svn_fs__dag_get_edit_stream db node) (svn_fs__dag_get_edit_stream ref_db node)"
  "bdb_laws db view \<Longrightarrow> refines view (svn_fs__dag_finalize_edits db node) (svn_fs__dag_finalize_edits ref_db node)"
  unfolding svn_fs__dag_get_contents_def svn_fs__dag_file_length_def svn_fs__dag_get_edit_stream_def
    svn_fs__dag_finalize_edits_def Let_def by (intro refine_intros; assumption)+

lemma refines_dag_copy [refine_intros]:
  "bdb_laws db view \<Longrightarrow> refines view (svn_fs__dag_copy db node name from_node h r p) (svn_fs__dag_copy ref_db node name from_node h r p)"
  unfolding svn_fs__dag_copy_def by (intro refine_intros)

lemma refines_dag_copied_from [refine_intros]:
  "bdb_laws db view \<Longrightarrow> refines view (svn_fs__dag_copied_from db node) (svn_fs__dag_copied_from ref_db node)"
  unfolding svn_fs__dag_copied_from_def by (intro refine_intros)

lemma refines_things_different [refine_intros]:
  "bdb_laws db view \<Longrightarrow> refines view (svn_fs__things_different db p c n1 n2) (svn_fs__things_different ref_db p c n1 n2)"
  unfolding svn_fs__things_different_def by (intro refine_intros)

end
