(* ===== verification/Fs_Deltify.thy ===== *)
theory Fs_Deltify
  imports Fs_Dag
begin

text \<open>
  Deltified storage: storing a representation as a delta against another one and back
  (\<open>libsvn_fs/reps-strings.c\<close>), and its use on nodes (\<open>libsvn_fs/deltify.c\<close>).  The MD5 routines
  of the APR library are a parameter.

  The streams between the parts are stream records with the functions below; the database they act
  on is put into their batons for the time of a call.  Reading a representation does not change it.
\<close>

section \<open>Streams on representations and strings\<close>

record 'c md5_routines =
  md5_init :: 'c
  md5_update :: "'c \<Rightarrow> bytes \<Rightarrow> 'c"
  md5_final :: "'c \<Rightarrow> bytes option"
  md5_unset :: bytes

definition rep_read_fn :: "'d bdb \<Rightarrow> rep_read_baton \<times> 'd \<Rightarrow> nat \<Rightarrow> (bytes \<times> rep_read_baton \<times> 'd) svn_result" where
  "rep_read_fn db p len =
     (case p of (rb, s) \<Rightarrow> svn_bind (txn_body_read_rep db rb len s) (\<lambda>((data, rb'), s'). Ok (data, (rb', s'))))"

definition rep_stream :: "'d bdb \<Rightarrow> rep_read_baton \<Rightarrow> 'd \<Rightarrow> (rep_read_baton \<times> 'd) svn_stream_t" where
  "rep_stream db rb s = svn_stream_set_read (svn_stream_create (rb, s)) (rep_read_fn db)"

record write_svndiff_strings_baton =
  ws_key :: "bytes option"
  ws_size :: nat
  ws_header_read :: nat

text \<open>The header is stripped; a first write that is shorter than the header counts down below zero.\<close>

definition write_svndiff_strings ::
  "'d bdb \<Rightarrow> write_svndiff_strings_baton \<times> 'd \<Rightarrow> bytes \<Rightarrow> (nat \<times> write_svndiff_strings_baton \<times> 'd) svn_result"
where
  "write_svndiff_strings db p data =
     (case p of (wb, s) \<Rightarrow>
        (let nheader = (if ws_header_read wb < 4 then 4 - ws_header_read wb else 0) in
         if length data < nheader then Abort
         else
           svn_bind (svn_fs__string_append db (ws_key wb) (drop nheader data) s) (\<lambda>(key, s).
             Ok (length data,
                 (wb\<lparr>ws_key := Some key, ws_size := ws_size wb + length data, ws_header_read := ws_header_read wb + nheader\<rparr>, s)))))"

definition svndiff_strings ::
  "'d bdb \<Rightarrow> write_svndiff_strings_baton \<Rightarrow> 'd \<Rightarrow> (write_svndiff_strings_baton \<times> 'd) svn_stream_t"
where
  "svndiff_strings db wb s = svn_stream_set_write (svn_stream_create (wb, s)) (write_svndiff_strings db)"

section \<open>Making the windows\<close>

text \<open>The delta stream between calls keeps the batons of its two streams.\<close>

type_synonym 'c rep_txstream = "(rep_read_baton, rep_read_baton, 'c) svn_txdelta_stream_t"

definition attach :: "'d bdb \<Rightarrow> 'd \<Rightarrow> 'c rep_txstream \<Rightarrow> (rep_read_baton \<times> 'd, rep_read_baton \<times> 'd, 'c) svn_txdelta_stream_t" where
  "attach db s tx =
     \<lparr>source = rep_stream db (baton (source tx)) s, target = rep_stream db (baton (target tx)) s,
      tx_more = tx_more tx, pos = pos tx, buf = buf tx, tx_context = tx_context tx, tx_digest = tx_digest tx\<rparr>"

definition detach :: "(rep_read_baton \<times> 'd, rep_read_baton \<times> 'd, 'c) svn_txdelta_stream_t \<Rightarrow> 'c rep_txstream" where
  "detach tx =
     \<lparr>source = svn_stream_create (fst (baton (source tx))), target = svn_stream_create (fst (baton (target tx))),
      tx_more = tx_more tx, pos = pos tx, buf = buf tx, tx_context = tx_context tx, tx_digest = tx_digest tx\<rparr>"

definition next_rep_window ::
  "'c md5_routines \<Rightarrow> 'd bdb \<Rightarrow> 'c rep_txstream \<Rightarrow> ('d, svn_txdelta_window_t option \<times> 'c rep_txstream) trail"
where
  "next_rep_window md5 db tx s =
     svn_bind (svn_txdelta_next_window (md5_update md5) (md5_final md5) (attach db s tx)) (\<lambda>(window, tx').
       Ok ((window, detach tx'), s))"

text \<open>The svndiff encoder between calls: the baton of its stream, and whether the header is written.\<close>

definition write_window ::
  "'d bdb \<Rightarrow> svn_txdelta_window_t option \<Rightarrow> write_svndiff_strings_baton \<Rightarrow> bool
     \<Rightarrow> ('d, write_svndiff_strings_baton \<times> bool) trail"
where
  "write_window db window wb header s =
     svn_bind (window_handler window \<lparr>eb_output = svndiff_strings db wb s, header_done = header\<rparr>) (\<lambda>eb.
       Ok ((fst (baton (eb_output eb)), header_done eb), snd (baton (eb_output eb))))"

record window_write_t =
  ww_key :: "bytes option"
  ww_svndiff_len :: nat
  ww_text_off :: nat
  ww_text_len :: nat

text \<open>
  The loop over the windows.  Every window takes at least a byte of the target text, whose size
  bounds the number of turns.
\<close>

fun deltify_windows ::
  "nat \<Rightarrow> 'c md5_routines \<Rightarrow> 'd bdb \<Rightarrow> 'c rep_txstream \<Rightarrow> write_svndiff_strings_baton \<Rightarrow> bool \<Rightarrow> nat
     \<Rightarrow> window_write_t list \<Rightarrow> ('d, window_write_t list \<times> 'c rep_txstream) trail"
where
  "deltify_windows 0 md5 db tx wb header tview_off windows = tlift Abort"
| "deltify_windows (Suc n) md5 db tx wb header tview_off windows =
     tbind (next_rep_window md5 db tx) (\<lambda>(window, tx).
     tbind (write_window db window (wb\<lparr>ws_size := 0, ws_key := None\<rparr>) header) (\<lambda>(wb, header).
       case window of
         None \<Rightarrow> tret (windows, tx)
       | Some w \<Rightarrow>
           deltify_windows n md5 db tx wb header (tview_off + unat (tview_len w))
             (windows @ [\<lparr>ww_key = ws_key wb, ww_svndiff_len = ws_size wb,
                          ww_text_off = tview_off, ww_text_len = unat (tview_len w)\<rparr>])))"

text \<open>The size of the strings of a representation, and their keys.\<close>

fun string_sizes :: "'d bdb \<Rightarrow> bytes list \<Rightarrow> ('d, nat) trail" where
  "string_sizes db [] = tret 0"
| "string_sizes db (str_key # keys) =
     tbind (svn_fs__string_size db str_key) (\<lambda>my_size.
     tbind (string_sizes db keys) (\<lambda>old_size. tret (my_size + old_size)))"

definition old_strings :: "'d bdb \<Rightarrow> bytes \<Rightarrow> ('d, nat \<times> bytes list) trail" where
  "old_strings db tgt_key =
     tbind (svn_fs__read_rep db tgt_key) (\<lambda>old_rep.
     tbind (tlift (rep_is_fulltext old_rep)) (\<lambda>ft.
       if ft then
         tbind (tlift (fulltext_string_key old_rep)) (\<lambda>str_key.
         tbind (svn_fs__string_size db str_key) (\<lambda>old_size. tret (old_size, [str_key])))
       else
         tbind (tlift (delta_string_keys old_rep)) (\<lambda>keys.
         tbind (string_sizes db keys) (\<lambda>old_size. tret (old_size, keys)))))"

definition delete_window_string :: "'d bdb \<Rightarrow> window_write_t \<Rightarrow> ('d, unit) trail" where
  "delete_window_string db ww = (case ww_key ww of None \<Rightarrow> tlift Abort | Some key \<Rightarrow> svn_fs__string_delete db key)"

section \<open>The representation skel of a delta\<close>

text \<open>The lists that the routine builds by prepending.\<close>

definition window_skel :: "bytes \<Rightarrow> bytes \<Rightarrow> window_write_t \<Rightarrow> skel_t svn_result" where
  "window_skel src_key digest ww =
     (case ww_key ww of
        None \<Rightarrow> Abort
      | Some key \<Rightarrow>
          (let diff = skel_list [] [svn_fs__str_atom ''svndiff'', svn_fs__str_atom key];
               checksum = skel_list [] [svn_fs__str_atom ''md5'', svn_fs__mem_atom digest];
               win = skel_list [] [diff, svn_fs__str_atom (dec_digits (ww_text_len ww)), checksum, svn_fs__str_atom src_key]
           in Ok (skel_list [] [svn_fs__str_atom (dec_digits (ww_text_off ww)), win])))"

fun window_skels :: "bytes \<Rightarrow> bytes \<Rightarrow> window_write_t list \<Rightarrow> skel_t list svn_result" where
  "window_skels src_key digest [] = Ok []"
| "window_skels src_key digest (ww # windows) =
     svn_bind (window_skels src_key digest windows) (\<lambda>rep.
     svn_bind (window_skel src_key digest ww) (\<lambda>winhdr. Ok (winhdr # rep)))"

definition delta_rep_skel :: "bytes \<Rightarrow> bytes \<Rightarrow> window_write_t list \<Rightarrow> skel_t svn_result" where
  "delta_rep_skel src_key digest windows =
     svn_bind (window_skels src_key digest windows) (\<lambda>rep.
       Ok (skel_list [] (skel_list [] [svn_fs__str_atom ''delta''] # rep)))"

definition deltify_start :: "'c md5_routines \<Rightarrow> bytes \<Rightarrow> bytes \<Rightarrow> 'c rep_txstream" where
  "deltify_start md5 src_key tgt_key =
     svn_txdelta (md5_init md5) (md5_unset md5)
       (svn_stream_create \<lparr>rr_rep_key = Some src_key, rr_offset = 0\<rparr>)
       (svn_stream_create \<lparr>rr_rep_key = Some tgt_key, rr_offset = 0\<rparr>)"

definition svn_fs__rep_deltify :: "'c md5_routines \<Rightarrow> 'd bdb \<Rightarrow> bytes \<Rightarrow> bytes \<Rightarrow> ('d, unit) trail" where
  "svn_fs__rep_deltify md5 db tgt_key src_key =
     (if tgt_key = src_key then tfail SVN_ERR_FS_CORRUPT
      else
        tbind (svn_fs__rep_contents_size db tgt_key) (\<lambda>size.
          if SVN_STREAM_CHUNK_SIZE < size then tret ()
          else
            tbind (deltify_windows (Suc (Suc size)) md5 db (deltify_start md5 src_key tgt_key)
                     \<lparr>ws_key = None, ws_size = 0, ws_header_read = 0\<rparr> False 0 []) (\<lambda>(windows, txdelta_stream).
              case svn_txdelta_md5_digest txdelta_stream of
                None \<Rightarrow> tfail SVN_ERR_DELTA_MD5_CHECKSUM_ABSENT
              | Some digest \<Rightarrow>
                  tbind (old_strings db tgt_key) (\<lambda>(old_size, orig_str_keys).
                    if old_size \<le> sum_list (map ww_svndiff_len windows)
                    then tforeach (delete_window_string db) windows
                    else
                      tbind (tlift (delta_rep_skel src_key digest windows)) (\<lambda>rep.
                      tbind (svn_fs__write_rep db tgt_key rep) (\<lambda>_. delete_strings db orig_str_keys))))))"

section \<open>Full texts again\<close>

text \<open>\<open>n\<close> bounds the number of turns: a turn reads at least a byte, or it is the last.\<close>

fun undeltify_loop :: "nat \<Rightarrow> 'd bdb \<Rightarrow> rep_read_baton \<Rightarrow> bytes option \<Rightarrow> ('d, bytes) trail" where
  "undeltify_loop 0 db rb key = tlift Abort"
| "undeltify_loop (Suc n) db rb key =
     tbind (txn_body_read_rep db rb 65536) (\<lambda>(data, rb).
     tbind (svn_fs__string_append db key data) (\<lambda>key.
       if data \<noteq> [] then undeltify_loop n db rb (Some key) else tret key))"

definition contents_bound :: "'d bdb \<Rightarrow> bytes \<Rightarrow> 'd \<Rightarrow> nat" where
  "contents_bound db rep s = (case svn_fs__rep_contents_size db rep s of Ok (n, _) \<Rightarrow> n | _ \<Rightarrow> 0)"

definition svn_fs__rep_undeltify :: "'d bdb \<Rightarrow> bytes \<Rightarrow> ('d, unit) trail" where
  "svn_fs__rep_undeltify db rep =
     tbind (svn_fs__read_rep db rep) (\<lambda>rep_skel.
     tbind (tlift (rep_is_fulltext rep_skel)) (\<lambda>ft.
       if ft then tret ()
       else
         tbind (tlift (delta_string_keys rep_skel)) (\<lambda>orig_keys.
         tbind (db_peek (contents_bound db rep)) (\<lambda>n.
         tbind (undeltify_loop (Suc (Suc n)) db \<lparr>rr_rep_key = Some rep, rr_offset = 0\<rparr> None) (\<lambda>key.
         tbind (tlift (make_fulltext_rep_skel (Some key) False)) (\<lambda>rep_skel.
         tbind (svn_fs__write_rep db rep rep_skel) (\<lambda>_. delete_strings db orig_keys)))))))"

section \<open>Deltifying nodes\<close>

definition key_opt :: "skel_t \<Rightarrow> bytes option" where
  "key_opt key_skel = (if length (skel_data key_skel) \<noteq> 0 then Some (key_string key_skel) else None)"

definition deltify_keys :: "'c md5_routines \<Rightarrow> 'd bdb \<Rightarrow> bytes option \<Rightarrow> bytes option \<Rightarrow> ('d, unit) trail" where
  "deltify_keys md5 db tgt_key src_key =
     (case tgt_key of
        None \<Rightarrow> tret ()
      | Some t \<Rightarrow>
          (case src_key of
             None \<Rightarrow> tret ()
           | Some s \<Rightarrow> if t \<noteq> s then svn_fs__rep_deltify md5 db t s else tret ()))"

definition deltify :: "'c md5_routines \<Rightarrow> 'd bdb \<Rightarrow> svn_fs_id_t \<Rightarrow> svn_fs_id_t \<Rightarrow> bool \<Rightarrow> ('d, unit) trail" where
  "deltify md5 db target_id source_id props_only =
     tbind (svn_fs__get_node_revision db target_id) (\<lambda>target_nr.
     tbind (svn_fs__get_node_revision db source_id) (\<lambda>source_nr.
     tbind (tlift (nr_prop_key target_nr)) (\<lambda>target_pkey.
     tbind (tlift (nr_data_key target_nr)) (\<lambda>target_dkey.
     tbind (tlift (nr_prop_key source_nr)) (\<lambda>source_pkey.
     tbind (tlift (nr_data_key source_nr)) (\<lambda>source_dkey.
     tbind (deltify_keys md5 db (key_opt target_pkey) (key_opt source_pkey)) (\<lambda>_.
       if props_only then tret ()
       else deltify_keys md5 db (key_opt target_dkey) (key_opt source_dkey))))))))"

definition undeltify_key :: "'d bdb \<Rightarrow> bytes option \<Rightarrow> ('d, unit) trail" where
  "undeltify_key db key = (case key of None \<Rightarrow> tret () | Some k \<Rightarrow> svn_fs__rep_undeltify db k)"

definition undeltify :: "'d bdb \<Rightarrow> svn_fs_id_t \<Rightarrow> ('d, unit) trail" where
  "undeltify db nid =
     tbind (svn_fs__get_node_revision db nid) (\<lambda>node_rev.
     tbind (tlift (nr_prop_key node_rev)) (\<lambda>pkey.
     tbind (tlift (nr_data_key node_rev)) (\<lambda>dkey.
     tbind (undeltify_key db (key_opt pkey)) (\<lambda>_. undeltify_key db (key_opt dkey)))))"

text \<open>Whether a node exists: every error counts as no.\<close>

definition node_exists :: "'d bdb \<Rightarrow> svn_fs_id_t \<Rightarrow> ('d, bool) trail" where
  "node_exists db nid s =
     (case svn_fs__dag_get_node db nid s of
        Ok (node, s') \<Rightarrow> Ok (True, s')
      | Err e \<Rightarrow> Ok (False, s)
      | Abort \<Rightarrow> Abort)"

definition deltify_by_id :: "'c md5_routines \<Rightarrow> 'd bdb \<Rightarrow> svn_fs_id_t \<Rightarrow> bool \<Rightarrow> ('d, unit) trail" where
  "deltify_by_id md5 db target_id is_dir =
     (let len = svn_fs__id_length target_id; tmp_id = svn_fs__id_copy target_id in
      if len = 0 then tlift Abort
      else
        (let tmp_id1 = tmp_id[len - 1 := tmp_id ! (len - 1) + 1]; tmp_id2 = tmp_id @ [1, 1] in
         tbind (node_exists db tmp_id1) (\<lambda>found.
           if found then deltify md5 db target_id tmp_id1 is_dir
           else
             tbind (node_exists db tmp_id2) (\<lambda>found.
               if found then deltify md5 db target_id tmp_id2 is_dir else tret ()))))"

text \<open>
  The entries of a directory are taken in the order of the hash table, \<open>order\<close>.  The path of the
  directory is only passed on.  The depth of the recursion is bounded as for deletion.
\<close>

fun deltify_undeltify ::
  "nat \<Rightarrow> ((bytes, svn_fs_dirent_t) fmap \<Rightarrow> svn_fs_dirent_t list) \<Rightarrow> 'c md5_routines \<Rightarrow> 'd bdb \<Rightarrow> svn_fs_id_t
     \<Rightarrow> bool \<Rightarrow> bool \<Rightarrow> ('d, unit) trail"
where
  "deltify_undeltify 0 order md5 db nid do_deltify recurse = tlift Abort"
| "deltify_undeltify (Suc n) order md5 db nid do_deltify recurse =
     tbind (svn_fs__dag_get_node db nid) (\<lambda>node.
     tbind (if svn_fs__dag_is_directory node \<and> recurse then
              tbind (svn_fs__dag_dir_entries_hash db node) (\<lambda>(entries, node).
                tforeach (\<lambda>entry.
                    case de_id entry of None \<Rightarrow> tlift Abort | Some i \<Rightarrow> deltify_undeltify n order md5 db i do_deltify recurse)
                  (order entries))
            else tret ()) (\<lambda>_.
       if do_deltify then deltify_by_id md5 db nid (svn_fs__dag_is_directory node)
       else undeltify db nid))"

definition txn_body_deltify ::
  "((bytes, svn_fs_dirent_t) fmap \<Rightarrow> svn_fs_dirent_t list) \<Rightarrow> 'c md5_routines \<Rightarrow> 'd bdb \<Rightarrow> svn_fs_id_t \<Rightarrow> bool \<Rightarrow> ('d, unit) trail"
where
  "txn_body_deltify order md5 db nid recursive =
     tbind (svn_fs__dag_get_node db nid) (\<lambda>node.
     tbind (db_peek (db_count db Nodes)) (\<lambda>n. deltify_undeltify (Suc n) order md5 db nid True recursive))"

definition txn_body_undeltify ::
  "((bytes, svn_fs_dirent_t) fmap \<Rightarrow> svn_fs_dirent_t list) \<Rightarrow> 'c md5_routines \<Rightarrow> 'd bdb \<Rightarrow> svn_fs_id_t \<Rightarrow> bool \<Rightarrow> ('d, unit) trail"
where
  "txn_body_undeltify order md5 db nid recursive =
     tbind (svn_fs__dag_get_node db nid) (\<lambda>node.
     tbind (db_peek (db_count db Nodes)) (\<lambda>n. deltify_undeltify (Suc n) order md5 db nid False recursive))"

definition svn_fs__stable_node :: "'c md5_routines \<Rightarrow> 'd bdb \<Rightarrow> svn_fs_id_t \<Rightarrow> ('d, unit) trail" where
  "svn_fs__stable_node md5 db nid =
     tbind (tlift (svn_fs__id_predecessor nid)) (\<lambda>predecessor_id.
     tbind (svn_fs__dag_get_node db nid) (\<lambda>node.
       case predecessor_id of
         None \<Rightarrow> tret ()
       | Some p \<Rightarrow> deltify md5 db p nid (svn_fs__dag_is_directory node)))"


section \<open>Refinement\<close>

lemma rep_stream_read [simp]:
  "svn_stream_read (rep_stream db rb s) n =
     svn_bind (txn_body_read_rep db rb n s) (\<lambda>((data, rb'), s'). Ok (data, rep_stream db rb' s'))"
  by (cases "txn_body_read_rep db rb n s")
    (auto simp: svn_stream_read_def rep_stream_def rep_read_fn_def svn_stream_set_read_def svn_stream_create_def)

lemma rep_stream_baton [simp]: "baton (rep_stream db rb s) = (rb, s)"
  by (simp add: rep_stream_def svn_stream_set_read_def svn_stream_create_def)

lemma svndiff_strings_write [simp]:
  "svn_stream_write (svndiff_strings db wb s) d =
     svn_bind (write_svndiff_strings db (wb, s) d) (\<lambda>(n, wb', s'). Ok (n, svndiff_strings db wb' s'))"
  by (cases "write_svndiff_strings db (wb, s) d")
    (auto simp: svn_stream_write_def svndiff_strings_def svn_stream_set_write_def svn_stream_create_def)

lemma svndiff_strings_simps [simp]:
  "baton (svndiff_strings db wb s) = (wb, s)" "svn_stream_close (svndiff_strings db wb s) = Ok (svndiff_strings db wb s)"
  by (simp_all add: svndiff_strings_def svn_stream_set_write_def svn_stream_create_def svn_stream_close_def)

lemma refines_read_rep_body [refine_intros]:
  "bdb_laws db view \<Longrightarrow> refines view (txn_body_read_rep db rb len) (txn_body_read_rep ref_db rb len)"
  unfolding txn_body_read_rep_def by (intro refine_intros)

lemma window_for_detach:
  "svn_bind (window_for tx sview tdata) (\<lambda>(w, tx'). Ok (w, detach tx')) = window_for (detach tx) sview tdata"
  by (cases "svn_txdelta__vdelta empty_bob (sview @ tdata) (length sview) (length tdata)")
    (simp_all add: window_for_def Let_def detach_def)

text \<open>A window of the delta stream as a step on the database.\<close>

lemma next_rep_window_eq:
  "next_rep_window md5 db tx s =
    (if \<not> tx_more tx then
       (case md5_final md5 (tx_context tx) of
          None \<Rightarrow> Err APR_ERR
        | Some d \<Rightarrow> Ok ((None, (detach (attach db s tx))\<lparr>tx_digest := d\<rparr>), s))
     else
       svn_bind (txn_body_read_rep db (baton (source tx)) (new_source_len tx) s) (\<lambda>((sdata, rb1), s1).
       svn_bind (txn_body_read_rep db (baton (target tx)) SVN_STREAM_CHUNK_SIZE s) (\<lambda>((tdata, rb2), s2).
         let tx1 = tx\<lparr>source := svn_stream_create rb1, target := svn_stream_create rb2,
                      pos := pos tx + of_nat (length sdata), tx_context := md5_update md5 (tx_context tx) sdata\<rparr>
         in if tdata = [] then Ok ((None, tx1\<lparr>tx_more := False\<rparr>), s)
            else svn_bind (window_for tx1 (buf tx @ sdata) tdata) (\<lambda>r. Ok (r, s)))))"
proof (cases "tx_more tx")
  case False
  then show ?thesis
    by (simp add: next_rep_window_def svn_txdelta_next_window_def attach_def detach_def split: option.split)
next
  case True
  let ?r1 = "txn_body_read_rep db (baton (source tx)) (new_source_len tx) s"
  let ?r2 = "txn_body_read_rep db (baton (target tx)) SVN_STREAM_CHUNK_SIZE s"
  have n: "new_source_len (attach db s tx) = new_source_len tx" by (simp add: new_source_len_def attach_def)
  show ?thesis
  proof (cases ?r1)
    case (Ok p)
    obtain sdata rb1 s1 where p: "p = ((sdata, rb1), s1)" by (metis surj_pair)
    show ?thesis
    proof (cases ?r2)
      case (Ok q)
      obtain tdata rb2 s2 where q: "q = ((tdata, rb2), s2)" by (metis surj_pair)
      let ?tx = "(attach db s tx)\<lparr>source := rep_stream db rb1 s1, target := rep_stream db rb2 s2,
          pos := pos tx + of_nat (length sdata), tx_context := md5_update md5 (tx_context tx) sdata\<rparr>"
      have d: "detach ?tx = tx\<lparr>source := svn_stream_create rb1, target := svn_stream_create rb2,
          pos := pos tx + of_nat (length sdata), tx_context := md5_update md5 (tx_context tx) sdata\<rparr>"
        "detach (?tx\<lparr>tx_more := False\<rparr>) = (detach ?tx)\<lparr>tx_more := False\<rparr>"
        by (simp_all add: detach_def attach_def)
      have "svn_bind (window_for ?tx (buf tx @ sdata) tdata) (\<lambda>(w, tx'). Ok ((w, detach tx'), s)) =
          svn_bind (window_for (detach ?tx) (buf tx @ sdata) tdata) (\<lambda>r. Ok (r, s))"
        unfolding window_for_detach [symmetric] by (cases "window_for ?tx (buf tx @ sdata) tdata") auto
      then show ?thesis using True \<open>?r1 = Ok p\<close> Ok p q n d
        by (simp add: next_rep_window_def svn_txdelta_next_window_def Let_def attach_def)
    qed (use True Ok p n in \<open>simp_all add: next_rep_window_def svn_txdelta_next_window_def attach_def\<close>)
  qed (use True n in \<open>simp_all add: next_rep_window_def svn_txdelta_next_window_def attach_def\<close>)
qed

lemma detach_attach: "detach (attach db s tx) = tx\<lparr>source := svn_stream_create (baton (source tx)), target := svn_stream_create (baton (target tx))\<rparr>"
  by (simp add: detach_def attach_def)

lemma refines_next_rep_window [refine_intros]:
  assumes "bdb_laws db view"
  shows "refines view (next_rep_window md5 db tx) (next_rep_window md5 ref_db tx)"
  unfolding refines_def
proof
  fix s
  let ?v = "\<lambda>db s. txn_body_read_rep db (baton (source tx)) (new_source_len tx) s"
  let ?w = "\<lambda>db s. txn_body_read_rep db (baton (target tx)) SVN_STREAM_CHUNK_SIZE s"
  have r: "?v ref_db (view s) = map_svn_result (map_prod id view) (?v db s)"
      "?w ref_db (view s) = map_svn_result (map_prod id view) (?w db s)"
    using refinesD [OF refines_read_rep_body [OF assms]] by simp_all
  show "map_svn_result (map_prod id view) (next_rep_window md5 db tx s) = next_rep_window md5 ref_db tx (view s)"
  proof (cases "tx_more tx")
    case True
    have w: "map_svn_result (map_prod id view) (svn_bind X (\<lambda>r. Ok (r, s))) = svn_bind X (\<lambda>r. Ok (r, view s))" for X :: "'x svn_result"
      by (cases X) simp_all
    show ?thesis using True w
      by (cases "?v db s"; cases "?w db s") (auto simp: next_rep_window_eq r Let_def)
  qed (auto simp: next_rep_window_eq detach_attach split: option.split)
qed

lemma refines_write_svndiff:
  assumes "bdb_laws db view"
  shows "write_svndiff_strings ref_db (wb, view s) d = map_svn_result (map_prod id (map_prod id view)) (write_svndiff_strings db (wb, s) d)"
  using refinesD [OF refines_string_append [OF assms], of "ws_key wb" _ s, symmetric]
  by (cases "svn_fs__string_append db (ws_key wb) (drop (if ws_header_read wb < 4 then 4 - ws_header_read wb else 0) d) s")
    (auto simp: write_svndiff_strings_def Let_def)

text \<open>Writing to the stream as a step on the database.\<close>

definition svndiff_write :: "'d bdb \<Rightarrow> bytes \<Rightarrow> write_svndiff_strings_baton \<Rightarrow> ('d, write_svndiff_strings_baton) trail" where
  "svndiff_write db d wb s = svn_bind (write_svndiff_strings db (wb, s) d) (\<lambda>(n, p). Ok p)"

lemma refines_svndiff_write [refine_intros]:
  assumes "bdb_laws db view"
  shows "refines view (svndiff_write db d wb) (svndiff_write ref_db d wb)"
  unfolding refines_def
proof
  fix s
  show "map_svn_result (map_prod id view) (svndiff_write db d wb s) = svndiff_write ref_db d wb (view s)"
    using refines_write_svndiff [OF assms, of wb s d] by (cases "write_svndiff_strings db (wb, s) d") (auto simp: svndiff_write_def)
qed

lemma write_window_eq:
  "write_window db window wb header =
     tbind (if header then tret wb else svndiff_write db svndiff_magic wb) (\<lambda>wb.
       case window of
         None \<Rightarrow> tret (wb, True)
       | Some w \<Rightarrow>
           tbind (tlift (encode_window w)) (\<lambda>(h, instructions).
           tbind (svndiff_write db h wb) (\<lambda>wb.
           tbind (if instructions = [] then tret wb else svndiff_write db instructions wb) (\<lambda>wb.
           tbind (if new_data w = [] then tret wb else svndiff_write db (new_data w) wb) (\<lambda>wb.
             tret (wb, True))))))"
  (is "?l = ?r")
proof
  fix s
  have wr: "svn_bind (write_svndiff_strings db (wb, s) d) F = svn_bind (svndiff_write db d wb s) (\<lambda>(wb', s'). F (length d, wb', s'))" for wb s d F
    by (cases "svn_fs__string_append db (ws_key wb) (drop (if ws_header_read wb < 4 then 4 - ws_header_read wb else 0) d) s")
      (auto simp: svndiff_write_def write_svndiff_strings_def Let_def)
  have body: "svn_bind (window_handler window \<lparr>eb_output = svndiff_strings db wb s, header_done = True\<rparr>) (\<lambda>eb.
       Ok ((fst (baton (eb_output eb)), header_done eb), snd (baton (eb_output eb)))) =
     (case window of
         None \<Rightarrow> tret (wb, True)
       | Some w \<Rightarrow>
           tbind (tlift (encode_window w)) (\<lambda>(h, instructions).
           tbind (svndiff_write db h wb) (\<lambda>wb.
           tbind (if instructions = [] then tret wb else svndiff_write db instructions wb) (\<lambda>wb.
           tbind (if new_data w = [] then tret wb else svndiff_write db (new_data w) wb) (\<lambda>wb.
             tret (wb, True)))))) s" for wb s
  proof (cases window)
    case (Some w)
    have ne: "write_nonempty (svndiff_strings db wb s) d =
        svn_bind ((if d = [] then tret wb else svndiff_write db d wb) s) (\<lambda>(wb, s). Ok (svndiff_strings db wb s))" for wb s d
      by (simp add: write_nonempty_def tret_def wr case_prod_unfold svn_bind_assoc)
    show ?thesis
      by (cases "encode_window w")
        (auto simp: Some window_handler_def tbind_def tlift_def tret_def wr ne svn_bind_assoc case_prod_unfold cong: if_cong)
  qed (simp add: window_handler_def tret_def)
  show "?l s = ?r s"
  proof (cases header)
    case False
    have "?l s = svn_bind (svndiff_write db svndiff_magic wb s) (\<lambda>(wb, s).
        svn_bind (window_handler window \<lparr>eb_output = svndiff_strings db wb s, header_done = True\<rparr>) (\<lambda>eb.
          Ok ((fst (baton (eb_output eb)), header_done eb), snd (baton (eb_output eb)))))"
      using False by (cases "svndiff_write db svndiff_magic wb s") (auto simp: write_window_def window_handler_def wr)
    then show ?thesis using False body by (simp add: tbind_def)
  qed (use body in \<open>simp add: write_window_def tbind_def tret_def\<close>)
qed

lemma refines_write_window [refine_intros]:
  "bdb_laws db view \<Longrightarrow> refines view (write_window db w wb header) (write_window ref_db w wb header)"
  unfolding write_window_eq by (intro refine_intros)

lemma refines_deltify_windows [refine_intros]:
  assumes "bdb_laws db view"
  shows "refines view (deltify_windows n md5 db tx wb header off ws) (deltify_windows n md5 ref_db tx wb header off ws)"
proof (induction n arbitrary: tx wb header off ws)
  case (Suc n)
  show ?case unfolding deltify_windows.simps by (intro refine_intros assms Suc.IH)
qed (simp add: refines_tlift)

lemma refines_string_sizes [refine_intros]:
  "bdb_laws db view \<Longrightarrow> refines view (string_sizes db ks) (string_sizes ref_db ks)"
  by (induction ks) (auto intro!: refine_intros)

lemma refines_old_strings [refine_intros]:
  "bdb_laws db view \<Longrightarrow> refines view (old_strings db k) (old_strings ref_db k)"
  unfolding old_strings_def by (intro refine_intros)

lemma refines_delete_window_string [refine_intros]:
  "bdb_laws db view \<Longrightarrow> refines view (delete_window_string db w) (delete_window_string ref_db w)"
  unfolding delete_window_string_def by (intro refine_intros)

lemma refines_rep_deltify [refine_intros]:
  "bdb_laws db view \<Longrightarrow> refines view (svn_fs__rep_deltify md5 db t s) (svn_fs__rep_deltify md5 ref_db t s)"
  unfolding svn_fs__rep_deltify_def by (intro refine_intros)

lemma refines_undeltify_loop [refine_intros]:
  assumes "bdb_laws db view"
  shows "refines view (undeltify_loop n db rb key) (undeltify_loop n ref_db rb key)"
proof (induction n arbitrary: rb key)
  case (Suc n)
  show ?case unfolding undeltify_loop.simps by (intro refine_intros assms Suc.IH)
qed (simp add: refines_tlift)

lemma contents_bound_law [refine_intros]:
  assumes "bdb_laws db view"
  shows "read_law view (contents_bound db rep) (contents_bound ref_db rep)"
  unfolding read_law_def
proof
  fix s
  show "contents_bound db rep s = contents_bound ref_db rep (view s)"
    using refinesD [OF refines_rep_contents_size [OF assms], of rep s, symmetric]
    by (cases "svn_fs__rep_contents_size db rep s") (auto simp: contents_bound_def)
qed

lemma refines_rep_undeltify [refine_intros]:
  "bdb_laws db view \<Longrightarrow> refines view (svn_fs__rep_undeltify db k) (svn_fs__rep_undeltify ref_db k)"
  unfolding svn_fs__rep_undeltify_def by (intro refine_intros)

lemma refines_deltify [refine_intros]:
  "bdb_laws db view \<Longrightarrow> refines view (deltify md5 db t s p) (deltify md5 ref_db t s p)"
  unfolding deltify_def deltify_keys_def by (intro refine_intros)

lemma refines_undeltify [refine_intros]:
  "bdb_laws db view \<Longrightarrow> refines view (undeltify db t) (undeltify ref_db t)"
  unfolding undeltify_def undeltify_key_def by (intro refine_intros)

lemma refines_stable_node [refine_intros]:
  "bdb_laws db view \<Longrightarrow> refines view (svn_fs__stable_node md5 db nid) (svn_fs__stable_node md5 ref_db nid)"
  unfolding svn_fs__stable_node_def by (intro refine_intros)

end
