(* ===== verification/Fs_Commit.thy ===== *)
theory Fs_Commit
  imports Fs_Deltify
begin

text \<open>
  Making nodes immutable, committing transactions, and the first revision of a new filesystem
  (\<open>libsvn_fs/dag.c\<close>).  The text of the current time is an argument.
\<close>

section \<open>Immutable nodes\<close>

definition make_key_immutable :: "'d bdb \<Rightarrow> skel_t \<Rightarrow> ('d, unit) trail" where
  "make_key_immutable db key_skel =
     (let rep_key = key_string key_skel in
      if rep_key \<noteq> [] then svn_fs__make_rep_immutable db rep_key else tret ())"

text \<open>The revision number is printed with \<open>%lu\<close>.\<close>

definition set_node_rev :: "skel_t \<Rightarrow> int \<Rightarrow> skel_t svn_result" where
  "set_node_rev node_rev r =
     svn_bind (nr_hdr_rev node_rev) (\<lambda>_.
     svn_bind (nr_header node_rev) (\<lambda>header.
       Ok (set_skel_child 0 (set_skel_child 1 (skel_atom (dec_digits (nat (r mod 2 ^ 64)))) header) node_rev)))"

definition make_node_immutable :: "'d bdb \<Rightarrow> dag_node_t \<Rightarrow> int \<Rightarrow> ('d, dag_node_t) trail" where
  "make_node_immutable db node r =
     tbind (get_node_revision db node) (\<lambda>(node_rev, node).
     tbind (tlift (node_rev_is_mutable node_rev)) (\<lambda>mutable.
       if \<not> mutable then tret node
       else
         tbind (tlift (nr_edit_key node_rev)) (\<lambda>edit_key.
           if edit_key \<noteq> None then tfail SVN_ERR_FS_CORRUPT
           else
             (let node_rev = svn_fs__copy_skel node_rev in
              tbind (tbind (tlift (nr_prop_key node_rev)) (make_key_immutable db)) (\<lambda>_.
              tbind (tbind (tlift (nr_data_key node_rev)) (make_key_immutable db)) (\<lambda>_.
              tbind (tlift (set_node_rev node_rev r)) (\<lambda>node_rev.
                set_node_revision db node node_rev)))))))"

text \<open>The depth of the recursion is bounded as for deletion.\<close>

fun stabilize_depth :: "nat \<Rightarrow> 'c md5_routines \<Rightarrow> 'd bdb \<Rightarrow> dag_node_t \<Rightarrow> int \<Rightarrow> ('d, unit) trail" where
  "stabilize_depth 0 md5 db node r = tlift Abort"
| "stabilize_depth (Suc n) md5 db node r =
     tbind (svn_fs__dag_check_mutable db node) (\<lambda>(is_mutable, node).
       if \<not> is_mutable then tret ()
       else
         tbind (if svn_fs__dag_is_directory node then
                  tbind (svn_fs__dag_dir_entries_skel db node) (\<lambda>(entries, node).
                  tbind (tforeach (\<lambda>entry.
                             tbind (tlift (entry_id entry)) (\<lambda>nid.
                             tbind (dag_get_node_opt db nid) (\<lambda>child. stabilize_depth n md5 db child r)))
                           (skel_children entries)) (\<lambda>_. tret node))
                else if svn_fs__dag_is_file node then tret node
                else tlift Abort) (\<lambda>node.
         tbind (make_node_immutable db node r) (\<lambda>node.
           svn_fs__stable_node md5 db (dn_id node))))"

definition stabilize_node :: "'c md5_routines \<Rightarrow> 'd bdb \<Rightarrow> dag_node_t \<Rightarrow> int \<Rightarrow> ('d, unit) trail" where
  "stabilize_node md5 db node r =
     tbind (db_peek (db_count db Nodes)) (\<lambda>n. stabilize_depth (Suc n) md5 db node r)"

section \<open>Committing\<close>

definition revision_skel :: "svn_fs_id_t \<Rightarrow> skel_t \<Rightarrow> skel_t svn_result" where
  "revision_skel root_id transaction =
     svn_bind (id_atom root_id) (\<lambda>id_skel.
     svn_bind (skel_child 3 transaction) (\<lambda>proplist.
     svn_bind (svn_fs__prepend proplist svn_fs__make_empty_list) (\<lambda>new_revision_skel.
     svn_bind (svn_fs__prepend id_skel new_revision_skel) (\<lambda>new_revision_skel.
       svn_fs__prepend (svn_fs__str_atom ''revision'') new_revision_skel))))"

definition svn_fs__dag_commit_txn :: "'c md5_routines \<Rightarrow> 'd bdb \<Rightarrow> bytes \<Rightarrow> bytes \<Rightarrow> ('d, int) trail" where
  "svn_fs__dag_commit_txn md5 db date svn_txn =
     tbind (svn_fs__dag_txn_root db svn_txn) (\<lambda>root.
     tbind (svn_fs__get_txn db svn_txn) (\<lambda>transaction.
     tbind (tlift (revision_skel (dn_id root) transaction)) (\<lambda>new_revision_skel.
     tbind (svn_fs__put_rev db new_revision_skel) (\<lambda>new_rev.
     tbind (svn_fs__set_rev_prop db new_rev ''svn:date'' (Some date)) (\<lambda>_.
     tbind (stabilize_node md5 db root new_rev) (\<lambda>_.
     tbind (svn_fs__delete_txn db svn_txn) (\<lambda>_. tret new_rev)))))))"

section \<open>The first revision\<close>

text \<open>Parsing the texts of the two skels and of the id of the root in the source.\<close>

definition txn_body_dag_init_fs :: "'c md5_routines \<Rightarrow> 'd bdb \<Rightarrow> bytes \<Rightarrow> ('d, unit) trail" where
  "txn_body_dag_init_fs md5 db date =
     (case svn_fs__parse_skel ''((dir 1 0) 0 0 )'' of
        None \<Rightarrow> tlift Abort
      | Some node_rev \<Rightarrow>
          tbind (tlift (svn_fs_parse_id ''0.0'')) (\<lambda>root_id.
            case root_id of
              None \<Rightarrow> tlift Abort
            | Some root_id \<Rightarrow>
                tbind (svn_fs__put_node_revision db root_id node_rev) (\<lambda>_.
                tbind (svn_fs__stable_node md5 db root_id) (\<lambda>_.
                  case svn_fs__parse_skel ''(revision 3 0.0 ())'' of
                    None \<Rightarrow> tlift Abort
                  | Some rev_skel \<Rightarrow>
                      tbind (svn_fs__put_rev db rev_skel) (\<lambda>r.
                        if r \<noteq> 0 then tfail SVN_ERR_FS_CORRUPT
                        else svn_fs__set_rev_prop db 0 ''svn:date'' (Some date))))))"

definition svn_fs__dag_init_fs :: "'c md5_routines \<Rightarrow> 'd bdb \<Rightarrow> bytes \<Rightarrow> 'd \<Rightarrow> (unit svn_result \<times> 'd) option" where
  "svn_fs__dag_init_fs md5 db date = svn_fs__retry_txn db (txn_body_dag_init_fs md5 db date)"

section \<open>Refinement\<close>

lemma refines_make_node_immutable [refine_intros]:
  "bdb_laws db view \<Longrightarrow> refines view (make_node_immutable db node r) (make_node_immutable ref_db node r)"
  unfolding make_node_immutable_def make_key_immutable_def Let_def by (intro refine_intros)

lemma refines_stabilize_depth:
  "bdb_laws db view \<Longrightarrow> refines view (stabilize_depth n md5 db node r) (stabilize_depth n md5 ref_db node r)"
proof (induction n arbitrary: node)
  case (Suc n)
  show ?case unfolding stabilize_depth.simps by (intro refine_intros Suc)
qed (simp add: refines_tlift)

lemma refines_stabilize_node [refine_intros]:
  "bdb_laws db view \<Longrightarrow> refines view (stabilize_node md5 db node r) (stabilize_node md5 ref_db node r)"
  unfolding stabilize_node_def by (intro refine_intros refines_stabilize_depth)

lemma refines_dag_commit_txn [refine_intros]:
  "bdb_laws db view \<Longrightarrow> refines view (svn_fs__dag_commit_txn md5 db date txn) (svn_fs__dag_commit_txn md5 ref_db date txn)"
  unfolding svn_fs__dag_commit_txn_def by (intro refine_intros)

lemma refines_dag_init_fs [refine_intros]:
  "bdb_laws db view \<Longrightarrow> refines view (txn_body_dag_init_fs md5 db date) (txn_body_dag_init_fs md5 ref_db date)"
  unfolding txn_body_dag_init_fs_def by (intro refine_intros)

end
