(* ===== verification/Fs_Noderev.thy ===== *)
theory Fs_Noderev
  imports Fs_Commit
begin

text \<open>
  Node revisions as records: what a node revision skel says, which node revision the nodes table
  has for an id, and when a node agrees with the table.
\<close>

section \<open>Skels without their bodies\<close>

text \<open>\<open>svn_fs__copy_skel\<close> leaves the atoms and the nesting: the text of a skel depends on nothing else.\<close>

lemma copy_skel_text [simp]: "skel_text (svn_fs__copy_skel s) = skel_text s"
  and copy_children_text: "children_text (map svn_fs__copy_skel cs) = children_text cs"
proof (induction s and cs rule: skel_text_children_text.induct)
  case (5 child sibling rest)
  then show ?case by simp
qed simp_all

lemma copy_skel_norm [simp]: "svn_fs__copy_skel (skel_norm s) = svn_fs__copy_skel s"
  by (induction s) simp_all

lemma copy_skel_idem [simp]: "svn_fs__copy_skel (svn_fs__copy_skel s) = svn_fs__copy_skel s"
  by (induction s) simp_all

lemma copy_skel_eq_atom [simp]: "svn_fs__copy_skel s = skel_atom d \<longleftrightarrow> s = skel_atom d"
  by (cases s) simp_all

lemma copy_skel_eq_list: "svn_fs__copy_skel s = skel_list [] cs \<longleftrightarrow> (\<exists>b cs'. s = skel_list b cs' \<and> map svn_fs__copy_skel cs' = cs)"
  by (cases s) auto

lemma matches_atom_copy [simp]: "svn_fs__matches_atom (Some (svn_fs__copy_skel s)) str = svn_fs__matches_atom (Some s) str"
  by (cases s) simp_all

lemma is_atom_copy [simp]: "is_atom (svn_fs__copy_skel s) = is_atom s"
  by (cases s) simp_all

lemma is_valid_option_copy [simp]: "is_valid_option (svn_fs__copy_skel s) = is_valid_option s"
  by (cases s rule: is_valid_option.cases) simp_all

lemma is_atom_iff: "is_atom s \<longleftrightarrow> (\<exists>d. s = skel_atom d)"
  by (cases s) simp_all

lemma matches_atom_iff: "svn_fs__matches_atom (Some s) str \<longleftrightarrow> s = skel_atom str"
  by (cases s) auto

lemma skel_string_text: "length (skel_text s) < 2 ^ 62 \<Longrightarrow> skel_string s = Ok (skel_text s)"
proof -
  assume "length (skel_text s) < 2 ^ 62"
  then obtain str where str: "svn_fs__unparse_skel s = Ok str" "sb_ok str" "sb_contents str = skel_text s"
    using unparse_skel_text by blast
  have "mem_bytes (sb_data str) (unat (sb_len str)) = Ok (sb_contents str)"
    using str(2) by (intro mem_bytes_contents) (simp add: sb_ok_def)
  with str show "skel_string s = Ok (skel_text s)" by (simp add: skel_string_def)
qed

section \<open>Node revisions\<close>

record node_rev_t =
  nr_kind :: bytes
  nr_rev :: bytes
  nr_opts :: "skel_t list"
  nr_prop :: bytes
  nr_data :: bytes
  nr_edit :: "bytes option"

definition nr_skel :: "node_rev_t \<Rightarrow> skel_t" where
  "nr_skel nr =
     skel_list [] (skel_list [] (skel_atom (nr_kind nr) # skel_atom (nr_rev nr) # nr_opts nr) #
       skel_atom (nr_prop nr) # skel_atom (nr_data nr) # (case nr_edit nr of None \<Rightarrow> [] | Some k \<Rightarrow> [skel_atom k]))"

definition nr_valid :: "node_rev_t \<Rightarrow> bool" where
  "nr_valid nr \<longleftrightarrow>
     (nr_kind nr = ''dir'' \<and> nr_edit nr = None \<or> nr_kind nr = ''file'' \<and> (nr_edit nr = None \<or> nr_rev nr = [])) \<and>
     list_all is_valid_option (nr_opts nr) \<and> map svn_fs__copy_skel (nr_opts nr) = nr_opts nr"

fun nr_of :: "skel_t \<Rightarrow> node_rev_t option" where
  "nr_of (skel_list b (skel_list h (skel_atom kind # skel_atom r # opts) # skel_atom p # skel_atom d # rest)) =
     Some \<lparr>nr_kind = kind, nr_rev = r, nr_opts = map svn_fs__copy_skel opts, nr_prop = p, nr_data = d,
           nr_edit = (case rest of skel_atom k # _ \<Rightarrow> Some k | _ \<Rightarrow> None)\<rparr>"
| "nr_of _ = None"

text \<open>The skel \<open>s\<close> says what \<open>nr\<close> says.\<close>

abbreviation says :: "skel_t \<Rightarrow> node_rev_t \<Rightarrow> bool" where
  "says s nr \<equiv> svn_fs__copy_skel s = nr_skel nr"

lemma saysE:
  assumes "says s nr"
  obtains b h opts where
    "s = skel_list b (skel_list h (skel_atom (nr_kind nr) # skel_atom (nr_rev nr) # opts) #
           skel_atom (nr_prop nr) # skel_atom (nr_data nr) # (case nr_edit nr of None \<Rightarrow> [] | Some k \<Rightarrow> [skel_atom k]))"
    and "map svn_fs__copy_skel opts = nr_opts nr"
  using assms that
  by (cases "nr_edit nr") (auto simp: nr_skel_def copy_skel_eq_list map_eq_Cons_conv)

lemma says_valid:
  assumes "is_valid_node_revision s"
  shows "\<exists>nr. nr_of s = Some nr \<and> says s nr \<and> nr_valid nr"
proof -
  obtain b header keys where s: "s = skel_list b (header # keys)"
    using assms by (auto simp: is_valid_node_revision_def split: skel_t.splits list.splits)
  then obtain kind where kind: "is_valid_header header = Some kind"
    using assms by (auto simp: is_valid_node_revision_def split: option.splits)
  then obtain h r opts where h: "header = skel_list h (kind # r # opts)" "is_atom kind" "is_atom r" "list_all is_valid_option opts"
    by (cases header rule: is_valid_header.cases) (auto split: if_splits)
  then obtain k' r' where atoms: "kind = skel_atom k'" "r = skel_atom r'" by (auto simp: is_atom_iff)
  have keys: "k' = ''dir'' \<and> (\<exists>p d. keys = [skel_atom p, skel_atom d]) \<or>
      k' = ''file'' \<and> ((\<exists>p d. keys = [skel_atom p, skel_atom d]) \<or> (\<exists>p d e. keys = [skel_atom p, skel_atom d, skel_atom e] \<and> r' = []))"
    using assms s kind h atoms
    by (auto simp: is_valid_node_revision_def is_atom_iff numeral_2_eq_2 numeral_3_eq_3 length_Suc_conv split: if_splits)
  have opts: "list_all is_valid_option (map svn_fs__copy_skel opts)" using h(4) by (simp add: list_all_length)
  show ?thesis using keys s h(1) atoms opts by (auto simp: nr_skel_def nr_valid_def)
qed

lemma nr_skel_valid: "nr_valid nr \<Longrightarrow> says s nr \<Longrightarrow> is_valid_node_revision s"
proof -
  assume v: "nr_valid nr" and s: "says s nr"
  obtain b h opts where e: "s = skel_list b (skel_list h (skel_atom (nr_kind nr) # skel_atom (nr_rev nr) # opts) #
      skel_atom (nr_prop nr) # skel_atom (nr_data nr) # (case nr_edit nr of None \<Rightarrow> [] | Some k \<Rightarrow> [skel_atom k]))"
      "map svn_fs__copy_skel opts = nr_opts nr"
    using saysE [OF s] .
  have "list_all is_valid_option (map svn_fs__copy_skel opts)" using v e(2) by (simp add: nr_valid_def)
  then have "list_all is_valid_option opts" by (simp add: list_all_length)
  then show ?thesis using v e(1) by (auto simp: is_valid_node_revision_def nr_valid_def split: option.split)
qed

lemma nr_of_says: "is_valid_node_revision s \<Longrightarrow> nr_of s = Some nr \<longleftrightarrow> says s nr"
proof
  assume "is_valid_node_revision s"
  then obtain nr' where nr': "nr_of s = Some nr'" "says s nr'" using says_valid by blast
  then show "nr_of s = Some nr \<Longrightarrow> says s nr" by simp
  assume "says s nr"
  then show "nr_of s = Some nr" by (rule saysE) (simp split: option.split)
qed

text \<open>The parts of a skel that says what \<open>nr\<close> says.\<close>

lemma says_parts:
  assumes "says s nr"
  shows "nr_hdr_kind s = Ok (Some (skel_atom (nr_kind nr)))" and "nr_hdr_rev s = Ok (skel_atom (nr_rev nr))"
    and "nr_prop_key s = Ok (skel_atom (nr_prop nr))" and "nr_data_key s = Ok (skel_atom (nr_data nr))"
    and "nr_edit_key s = Ok (map_option skel_atom (nr_edit nr))" and "node_rev_is_mutable s = Ok (nr_rev nr = [])"
    and "node_is_kind_p s k = Ok (nr_kind nr = k)"
  by (rule saysE [OF assms];
      auto simp: nr_hdr_kind_def nr_hdr_rev_def nr_header_def nr_prop_key_def nr_data_key_def nr_edit_key_def
        node_rev_is_mutable_def node_is_kind_p_def skel_child_def first_skel_def split: option.split)+

lemma says_set:
  assumes "says s nr"
  shows "says (set_skel_child (Suc 0) (skel_atom k) s) (nr\<lparr>nr_prop := k\<rparr>)"
    and "says (set_skel_child 2 (skel_atom k) s) (nr\<lparr>nr_data := k\<rparr>)"
proof -
  obtain b h opts where s: "s = skel_list b (skel_list h (skel_atom (nr_kind nr) # skel_atom (nr_rev nr) # opts) #
      skel_atom (nr_prop nr) # skel_atom (nr_data nr) # (case nr_edit nr of None \<Rightarrow> [] | Some k \<Rightarrow> [skel_atom k]))"
      "map svn_fs__copy_skel opts = nr_opts nr"
    using saysE [OF assms] .
  show "says (set_skel_child (Suc 0) (skel_atom k) s) (nr\<lparr>nr_prop := k\<rparr>)" "says (set_skel_child 2 (skel_atom k) s) (nr\<lparr>nr_data := k\<rparr>)"
    using s(2) by (simp_all add: s(1) nr_skel_def numeral_2_eq_2 split: option.split)
qed

lemma says_make_mutable:
  assumes "says s nr"
  shows "\<exists>s'. node_rev_make_mutable s = Ok s' \<and> says s' (nr\<lparr>nr_rev := [], nr_opts := []\<rparr>)"
  by (rule saysE [OF assms]) (simp add: node_rev_make_mutable_def nr_header_def skel_child_def nr_skel_def numeral_2_eq_2 split: option.split)

lemma says_append: "says s nr \<Longrightarrow> nr_edit nr = None \<Longrightarrow> \<exists>s'. svn_fs__append (svn_fs__str_atom k) s = Ok s' \<and> says s' (nr\<lparr>nr_edit := Some k\<rparr>)"
  by (erule saysE) (simp add: nr_skel_def svn_fs__str_atom_def)

section \<open>Node revisions in the table\<close>

definition node_of :: "fs_tables \<Rightarrow> svn_fs_id_t \<Rightarrow> node_rev_t option" where
  "node_of v nid = (case node_rec v nid of Ok s \<Rightarrow> nr_of s | _ \<Rightarrow> None)"

lemma node_rec_valid: "node_rec v nid = Ok s \<Longrightarrow> is_valid_node_revision s"
  by (auto simp: node_rec_def split: option.splits if_splits)

lemma node_of_Some:
  assumes "node_of v nid = Some nr"
  obtains s where "node_rec v nid = Ok s" and "says s nr" and "nr_valid nr"
proof -
  from assms obtain s where s: "node_rec v nid = Ok s" "nr_of s = Some nr" by (auto simp: node_of_def split: svn_result.splits)
  with says_valid [OF node_rec_valid [OF s(1)]] that show thesis by auto
qed

definition nr_put :: "svn_fs_id_t \<Rightarrow> node_rev_t \<Rightarrow> fs_tables \<Rightarrow> fs_tables" where
  "nr_put nid nr v = put_tab Nodes (id_text nid) (skel_text (nr_skel nr)) v"

definition nr_small :: "node_rev_t \<Rightarrow> bool" where
  "nr_small nr \<longleftrightarrow> length (skel_text (nr_skel nr)) < 2 ^ 32"

lemma put_node_revision_nr:
  assumes "key_ok nid" and "says s nr" and "nr_valid nr" and "nr_small nr"
  shows "svn_fs__put_node_revision ref_db nid s v = Ok ((), nr_put nid nr v)"
proof -
  have t: "skel_text s = skel_text (nr_skel nr)" using assms(2) copy_skel_text [of s] by metis
  show ?thesis using put_node_revision_ref [OF assms(1) nr_skel_valid [OF assms(3,2)]] assms(4) by (simp add: nr_put_def nr_small_def t)
qed

lemma node_of_put:
  assumes "key_ok nid" and "key_ok nid'" and "nr_valid nr" and "nr_small nr"
  shows "node_of (nr_put nid nr v) nid' = (if nid' = nid then Some nr else node_of v nid')"
proof -
  have s: "says (nr_skel nr) nr" using assms(3) by (auto simp: nr_skel_def nr_valid_def split: option.split)
  have "nr_of (skel_norm (nr_skel nr)) = Some nr"
    using nr_of_says [of "skel_norm (nr_skel nr)" nr] nr_skel_valid [OF assms(3), of "skel_norm (nr_skel nr)"] s by simp
  then show ?thesis using node_rec_put [OF assms(1,2) nr_skel_valid [OF assms(3) s], of v] assms(4)
    by (simp add: node_of_def nr_put_def nr_small_def)
qed

lemma node_of_frame [simp]:
  "T \<noteq> Nodes \<Longrightarrow> node_of (put_tab T k x v) nid = node_of v nid"
  "node_of (set_str k rs v) nid = node_of v nid"
  "T \<noteq> Nodes \<Longrightarrow> node_of (del_tab T k v) nid = node_of v nid"
  "node_of (put_rev_rec n x v) nid = node_of v nid"
  by (simp_all add: node_of_def)

lemma nr_put_frame [simp]:
  "ft_rep (nr_put nid nr v) k = ft_rep v k" "str_recs k (nr_put nid nr v) = str_recs k v"
  "str_val k (nr_put nid nr v) = str_val k v" "ft_text (nr_put nid nr v) k = ft_text v k" "ft_wf (nr_put nid nr v) k = ft_wf v k"
  "strings_inv (nr_put nid nr v) = strings_inv v" "reps_inv (nr_put nid nr v) = reps_inv v"
  "next_str (nr_put nid nr v) = next_str v" "next_rep (nr_put nid nr v) = next_rep v"
  by (simp_all add: nr_put_def ft_text_def ft_wf_def reps_inv_def next_rep_def rep_keys_def split: option.split)

section \<open>Nodes that agree with the table\<close>

definition kind_of :: "node_rev_t \<Rightarrow> svn_node_kind_t" where
  "kind_of nr = (if nr_kind nr = ''file'' then svn_node_file else svn_node_dir)"

text \<open>The node is for the node revision \<open>nr\<close> of the table, and the skel it keeps says the same.\<close>

definition node_for :: "fs_tables \<Rightarrow> dag_node_t \<Rightarrow> node_rev_t \<Rightarrow> bool" where
  "node_for v node nr \<longleftrightarrow>
     key_ok (dn_id node) \<and> node_of v (dn_id node) = Some nr \<and> dn_kind node = kind_of nr \<and>
     (\<forall>c. dn_node_revision node = Some c \<longrightarrow> says c nr)"

lemma cache_says:
  assumes "says s nr"
  obtains c node' where "cache_node_revision node s = Ok node'" and "dn_node_revision node' = Some c" and "says c nr"
    and "dn_id node' = dn_id node" and "dn_kind node' = dn_kind node"
proof (cases "nr_rev nr = []")
  case True
  then show thesis using that [of "node\<lparr>dn_node_revision := Some s, dn_completion := True\<rparr>" s] says_parts(6) [OF assms] assms
    by (simp add: cache_node_revision_def)
next
  case False
  have "says (nr_skel nr) nr" using copy_skel_idem [of s] unfolding assms .
  then show thesis using assms that [of "node\<lparr>dn_node_revision := Some (svn_fs__copy_skel s)\<rparr>" "svn_fs__copy_skel s"]
      says_parts(6) [OF assms] False by (simp add: cache_node_revision_def)
qed

lemma get_node_revision_for:
  assumes "node_for v node nr"
  obtains c node' where "get_node_revision ref_db node v = Ok ((c, node'), v)" and "says c nr" and "node_for v node' nr"
    and "dn_node_revision node' = Some c" and "dn_id node' = dn_id node"
proof (cases "dn_node_revision node")
  case None
  obtain s where s: "node_rec v (dn_id node) = Ok s" "says s nr" using assms node_of_Some by (metis node_for_def)
  obtain c node' where c: "cache_node_revision node s = Ok node'" "dn_node_revision node' = Some c" "says c nr"
      "dn_id node' = dn_id node" "dn_kind node' = dn_kind node"
    using cache_says [OF s(2)] by metis
  show thesis using that [of c node'] c assms None get_node_revision_ref [of "dn_id node" v] s(1)
    by (auto simp: get_node_revision_def node_for_def tbind_def tlift_def tret_def)
next
  case (Some c)
  show thesis using that [of c node] Some assms by (simp add: get_node_revision_def node_for_def tret_def)
qed

lemma check_mutable_for:
  assumes "node_for v node nr"
  obtains node' where "svn_fs__dag_check_mutable ref_db node v = Ok ((nr_rev nr = [], node'), v)" and "node_for v node' nr"
    and "dn_id node' = dn_id node"
proof -
  obtain c node' where "get_node_revision ref_db node v = Ok ((c, node'), v)" "says c nr" "node_for v node' nr" "dn_id node' = dn_id node"
    using get_node_revision_for [OF assms] by metis
  then show thesis using that says_parts(6) by (simp add: svn_fs__dag_check_mutable_def tbind_def tlift_def tret_def)
qed

lemma set_node_revision_for:
  assumes "key_ok (dn_id node)" and "says s nr" and "nr_valid nr" and "nr_small nr" and "dn_kind node = kind_of nr"
  obtains node' where "set_node_revision ref_db node s v = Ok (node', nr_put (dn_id node) nr v)" and "node_for (nr_put (dn_id node) nr v) node' nr"
    and "dn_id node' = dn_id node"
proof -
  obtain c node' where "cache_node_revision node s = Ok node'" "dn_node_revision node' = Some c" "says c nr"
      "dn_id node' = dn_id node" "dn_kind node' = dn_kind node"
    using cache_says [OF assms(2)] by metis
  then show thesis using that put_node_revision_nr [OF assms(1-4), of v] node_of_put [OF assms(1,1,3,4), of v] assms(1,5)
    by (simp add: set_node_revision_def tbind_def tlift_def node_for_def)
qed

lemma id_copy_key_ok: "key_ok nid \<Longrightarrow> svn_fs__id_copy nid = nid"
  by (simp add: svn_fs__id_copy_def id_length_key_ok)

lemma dag_get_node_for:
  assumes "key_ok nid" and "node_of v nid = Some nr"
  obtains node where "svn_fs__dag_get_node ref_db nid v = Ok (node, v)" and "node_for v node nr" and "dn_id node = nid"
proof -
  let ?n = "new_dag_node nid svn_node_none"
  obtain s where s: "node_rec v nid = Ok s" "says s nr" "nr_valid nr" using assms(2) node_of_Some by metis
  obtain c node' where c: "cache_node_revision ?n s = Ok node'" "dn_node_revision node' = Some c" "says c nr" "dn_id node' = dn_id ?n"
    using cache_says [OF s(2)] by metis
  have k: "nr_kind nr = ''file'' \<or> nr_kind nr = ''dir''" using s(3) by (auto simp: nr_valid_def)
  have g: "get_node_revision ref_db ?n v = Ok ((c, node'), v)"
    using c get_node_revision_ref [OF assms(1), of v] s(1)
    by (simp add: get_node_revision_def new_dag_node_def tbind_def tlift_def tret_def)
  show thesis using that [of "node'\<lparr>dn_kind := kind_of nr\<rparr>"] g k says_parts(7) [OF c(3)] c(2-4) assms id_copy_key_ok [OF assms(1)]
    by (auto simp: svn_fs__dag_get_node_def tbind_def tlift_def tret_def node_for_def kind_of_def new_dag_node_def)
qed

end
