(* ===== verification/Fs_Mutrep.thy ===== *)
theory Fs_Mutrep
  imports Fs_Commit Fs_Noderev
begin

text \<open>
  Mutable representations for nodes: what is chosen when a node needs a representation it can
  write to, and what stays as it was.
\<close>

section \<open>What stays as it was\<close>

text \<open>What changes when strings and representations are written: neither nodes, nor transactions, nor revisions.\<close>

definition same_nodes :: "fs_tables \<Rightarrow> fs_tables \<Rightarrow> bool" where
  "same_nodes v v' \<longleftrightarrow> (\<forall>T. T \<noteq> Representations \<longrightarrow> ft_tab v' T = ft_tab v T) \<and> ft_revs v' = ft_revs v"

lemma same_nodes_simps [simp]:
  "same_nodes v v" "same_nodes v (set_str k rs v') = same_nodes v v'" "same_nodes v (put_tab Representations k x v') = same_nodes v v'"
  by (simp_all add: same_nodes_def)

lemma same_nodes_node_of: "same_nodes v v' \<Longrightarrow> node_of v' nid = node_of v nid"
  by (simp add: same_nodes_def node_of_def node_rec_def)

lemma same_nodes_trans: "same_nodes v v' \<Longrightarrow> same_nodes v' v'' \<Longrightarrow> same_nodes v v''"
  by (simp add: same_nodes_def)

lemma same_nodes_for: "same_nodes v v' \<Longrightarrow> node_for v node nr \<Longrightarrow> node_for v' node nr"
  by (simp add: node_for_def same_nodes_node_of)

text \<open>Every full text is as before.\<close>

definition texts_kept :: "fs_tables \<Rightarrow> fs_tables \<Rightarrow> bool" where
  "texts_kept v v' \<longleftrightarrow> (\<forall>q. ft_wf v q \<longrightarrow> ft_wf v' q \<and> ft_text v' q = ft_text v q \<and> ft_rep v' q = ft_rep v q)"

text \<open>Every full text is as before, except the ones whose text is the string \<open>sk\<close>.\<close>

definition texts_kept_but :: "bytes \<Rightarrow> fs_tables \<Rightarrow> fs_tables \<Rightarrow> bool" where
  "texts_kept_but sk v v' \<longleftrightarrow>
     (\<forall>q m sk'. ft_wf v q \<and> ft_rep v q = Some (m, sk') \<and> sk' \<noteq> sk \<longrightarrow>
        ft_wf v' q \<and> ft_text v' q = ft_text v q \<and> ft_rep v' q = ft_rep v q)"

lemma kept_but_set: "texts_kept_but sk v (set_str sk rs v)"
  by (auto simp: texts_kept_but_def ft_wf_def ft_text_def str_val_def)

text \<open>The keys that can still be chosen, and what has to hold of the tables.\<close>

definition keys_inv :: "fs_tables \<Rightarrow> bool" where
  "keys_inv v \<longleftrightarrow> strings_inv v \<and> reps_inv v"

definition keys_room :: "fs_tables \<Rightarrow> bool" where
  "keys_room v \<longleftrightarrow> length (next_str v) < 199 \<and> length (next_rep v) < 199"

text \<open>A key of a node without contents, or of a full text.\<close>

definition rep_key_ok :: "fs_tables \<Rightarrow> bytes \<Rightarrow> bool" where
  "rep_key_ok v k \<longleftrightarrow> k = [] \<or> NUL \<notin> set k \<and> ft_wf v k"

definition rep_text :: "fs_tables \<Rightarrow> bytes \<Rightarrow> bytes" where
  "rep_text v k = (if k = [] then [] else ft_text v k)"

lemma valid_key_NUL: "valid_key k \<Longrightarrow> NUL \<notin> set k"
  using valid_key_cstring [of k] by (auto simp: apr_pstrndup_def takeWhile_eq_all_conv)

lemma pstrndup_id: "NUL \<notin> set k \<Longrightarrow> apr_pstrndup k = k"
  by (auto simp: apr_pstrndup_def takeWhile_eq_all_conv)

text \<open>A new full text without contents.\<close>

lemma fulltext_skel: "make_fulltext_rep_skel (Some k) True = Ok (ft_skel True k)"
  by (simp add: make_fulltext_rep_skel_def svn_fs__str_atom_def svn_fs__make_empty_list_def ft_skel_def)

text \<open>A new string with a new representation for it.\<close>

lemma new_text_rep:
  fixes nk :: bytes and rs :: "bytes list"
  assumes "keys_inv v" and "keys_room v" and "rs \<noteq> []" and "length (concat rs) < 2 ^ 32"
  defines "v1 \<equiv> set_str (next_str v) rs (set_str svn_fs__next_key_key [nk] v)"
  assumes "strings_inv v1" and "skel_text skel = skel_text (ft_skel True (next_str v))"
  obtains v' where "svn_fs__write_new_rep ref_db skel v1 = Ok (next_rep v, v')" and "keys_inv v'" and "same_nodes v v'"
    and "ft_wf v' (next_rep v)" and "ft_rep v' (next_rep v) = Some (True, next_str v)" and "ft_text v' (next_rep v) = concat rs"
    and "texts_kept v v'"
proof -
  let ?sk = "next_str v" and ?k = "next_rep v" and ?nx = "svn_fs__next_key_key"
  have inv: "strings_inv v" "reps_inv v" "length ?sk < 199" "length ?k < 199" using assms(1,2) by (simp_all add: keys_inv_def keys_room_def)
  have len: "length (skel_text skel) < 2 ^ 32" unfolding assms(7) using inv(3) by (intro ft_skel_length) simp
  obtain nr where nr: "svn_fs__write_new_rep ref_db skel v1 =
      Ok (?k, put_tab Representations ?nx nr (put_tab Representations ?k (skel_text (ft_skel True ?sk)) v1))"
      "reps_inv (put_tab Representations ?nx nr (put_tab Representations ?k (skel_text (ft_skel True ?sk)) v1))"
    using write_new_rep_ref [of v1, OF _ _ len] inv unfolding assms(7) v1_def by auto
  let ?v2 = "put_tab Representations ?nx nr (put_tab Representations ?k (skel_text (ft_skel True ?sk)) v1)"
  have ne: "?k \<noteq> ?nx" "?sk \<noteq> ?nx" using next_rep_fresh(2) [OF inv(2)] next_str_fresh(2) [OF inv(1)] by auto
  have vk: "valid_key ?sk" "valid_key ?k" using inv(1,2) by (simp_all add: strings_inv_def reps_inv_def keys_below_def)
  have rep: "ft_rep ?v2 ?k = Some (True, ?sk)" using ne inv(3) ft_rep_put [of ?sk ?k True] by simp
  have tx: "ft_text ?v2 ?k = concat rs" using rep by (simp add: ft_text_def str_val_def v1_def)
  have wf: "ft_wf ?v2 ?k" using rep ne vk inv(3,4) assms(3,4) by (auto simp: ft_wf_def str_val_def valid_key_def v1_def)
  have kept: "texts_kept v ?v2" using ft_kept [OF inv(1,2), where rs = rs and nk = nk and nr = nr and x = "skel_text (ft_skel True ?sk)"]
    by (simp add: texts_kept_def v1_def)
  show thesis using that [OF nr(1) _ _ wf rep tx kept] assms(6) nr(2) by (simp add: keys_inv_def v1_def)
qed

text \<open>The keys that are chosen next are in no full text.\<close>

lemma next_keys:
  assumes "keys_inv v" and "keys_room v"
  shows "valid_key (next_str v)" and "valid_key (next_rep v)" and "length (next_rep v) < 199" and "length (next_str v) < 199"
    and "rep_rec (next_rep v) v = None" and "ft_rep v (next_rep v) = None"
    and "ft_wf v q \<Longrightarrow> ft_rep v q \<noteq> Some (m, next_str v)" and "ft_wf v q \<Longrightarrow> q \<noteq> next_rep v"
proof -
  have inv: "strings_inv v" "reps_inv v" "length (next_str v) < 199" "length (next_rep v) < 199"
    using assms by (simp_all add: keys_inv_def keys_room_def)
  then show "valid_key (next_str v)" "valid_key (next_rep v)" "length (next_rep v) < 199" "length (next_str v) < 199"
    by (simp_all add: strings_inv_def reps_inv_def keys_below_def)
  show f: "rep_rec (next_rep v) v = None" "ft_rep v (next_rep v) = None" using next_rep_fresh(1) [OF inv(2)] by (simp_all add: ft_rep_def)
  show "ft_wf v q \<Longrightarrow> ft_rep v q \<noteq> Some (m, next_str v)" using next_str_fresh(1) [OF inv(1)] by (auto simp: ft_wf_def)
  show "ft_wf v q \<Longrightarrow> q \<noteq> next_rep v" using f by (auto simp: ft_wf_def)
qed

lemma new_mutable_rep:
  assumes "keys_inv v" and "keys_room v" and "k = None \<or> k = Some []"
  obtains v' where "svn_fs__get_mutable_rep ref_db k v = Ok (next_rep v, v')" and "keys_inv v'" and "same_nodes v v'"
    and "ft_wf v' (next_rep v)" and "ft_rep v' (next_rep v) = Some (True, next_str v)" and "ft_text v' (next_rep v) = []"
    and "texts_kept v v'"
proof -
  let ?sk = "next_str v" and ?k = "next_rep v" and ?nx = "svn_fs__next_key_key"
  have inv: "strings_inv v" "length ?sk < 199" using assms(1,2) by (simp_all add: keys_inv_def keys_room_def)
  obtain nk where nk: "svn_fs__string_append ref_db None [] v = Ok (?sk, set_str ?sk [[]] (set_str ?nx [nk] v))"
      "strings_inv (set_str ?sk [[]] (set_str ?nx [nk] v))"
    using string_new_ref [OF inv, of "[]"] by auto
  obtain v' where v': "svn_fs__write_new_rep ref_db (ft_skel True ?sk) (set_str ?sk [[]] (set_str ?nx [nk] v)) = Ok (?k, v')"
      "keys_inv v'" "same_nodes v v'" "ft_wf v' ?k" "ft_rep v' ?k = Some (True, ?sk)" "ft_text v' ?k = concat [[]]" "texts_kept v v'"
    using new_text_rep [OF assms(1,2) _ _ nk(2) refl] by auto
  have "svn_fs__get_mutable_rep ref_db k v = Ok (?k, v')"
    using assms(3) nk(1) v'(1) fulltext_skel [of ?sk] by (auto simp: svn_fs__get_mutable_rep_def tbind_def tlift_def)
  with v' that show thesis by simp
qed

lemma copied_mutable_rep:
  assumes "keys_inv v" and "keys_room v" and "ft_wf v k" and "ft_rep v k = Some (False, sk)"
  obtains v' where "svn_fs__get_mutable_rep ref_db (Some k) v = Ok (next_rep v, v')" and "keys_inv v'" and "same_nodes v v'"
    and "ft_wf v' (next_rep v)" and "ft_rep v' (next_rep v) = Some (True, next_str v)" and "ft_text v' (next_rep v) = ft_text v k"
    and "texts_kept v v'"
proof -
  let ?sk = "next_str v" and ?k = "next_rep v" and ?nx = "svn_fs__next_key_key"
  have inv: "strings_inv v" "length ?sk < 199" using assms(1,2) by (simp_all add: keys_inv_def keys_room_def)
  have w: "valid_key sk" "length sk < 2 ^ 32" "str_recs sk v \<noteq> []" "length (str_val sk v) < 2 ^ 32" "ft_text v k = str_val sk v"
      "length k < 2 ^ 32" "sk \<noteq> ?nx" "k \<noteq> []"
    using assms(3,4) next_key_key_invalid by (auto simp: ft_wf_def ft_text_def)
  obtain skel where skel: "svn_fs__read_rep ref_db k v = Ok (Some skel, v)" "fulltext_of skel = Some (False, sk)"
    using ft_rep_read [OF assms(4) w(6)] .
  obtain nk where nk: "svn_fs__string_copy ref_db sk v = Ok (?sk, set_str ?sk (str_recs sk v) (set_str ?nx [nk] v))"
      "strings_inv (set_str ?sk (str_recs sk v) (set_str ?nx [nk] v))"
    using string_copy_ref [OF inv w(2,7,3)] .
  obtain r where r: "rep_set_mutable_flag skel = Ok r" "skel_text (set_skel_child 1 (skel_atom ?sk) r) = skel_text (ft_skel True ?sk)"
    using mutable_skel skel(2) by metis
  have len: "length (concat (str_recs sk v)) < 2 ^ 32" using w(4) by (simp add: str_val_def)
  obtain v' where v': "svn_fs__write_new_rep ref_db (set_skel_child 1 (skel_atom ?sk) r) (set_str ?sk (str_recs sk v) (set_str ?nx [nk] v)) = Ok (?k, v')"
      "keys_inv v'" "same_nodes v v'" "ft_wf v' ?k" "ft_rep v' ?k = Some (True, ?sk)" "ft_text v' ?k = concat (str_recs sk v)" "texts_kept v v'"
    using new_text_rep [OF assms(1,2) w(3) len nk(2) r(2)] by auto
  have "svn_fs__get_mutable_rep ref_db (Some k) v = Ok (?k, v')"
    using skel(1) fulltext_tests [OF skel(2)] w(8) nk(1) r(1) v'(1) valid_key_cstring [OF w(1)]
    by (simp add: svn_fs__get_mutable_rep_def mutable_copy_def tbind_def tlift_def tret_def)
  with v' that w(5) show thesis by (simp add: str_val_def)
qed

text \<open>The mutable version of a node's representation: the representation itself when it is mutable, and otherwise a new one.\<close>

lemma get_mutable_rep_for:
  assumes "keys_inv v" and "keys_room v" and "rep_key_ok v k"
  obtains k' v' sk' where "svn_fs__get_mutable_rep ref_db (Some k) v = Ok (k', v')" and "keys_inv v'" and "same_nodes v v'"
    and "ft_wf v' k'" and "ft_rep v' k' = Some (True, sk')" and "ft_text v' k' = rep_text v k" and "NUL \<notin> set k'"
    and "texts_kept v v'"
    and "k' = k \<and> v' = v \<and> k \<noteq> [] \<or> k' \<noteq> k \<and> k' = next_rep v \<and> sk' = next_str v \<and> (\<forall>sk. k \<noteq> [] \<longrightarrow> ft_rep v k \<noteq> Some (True, sk))"
proof -
  note nx = next_keys [OF assms(1,2)]
  have ne: "next_rep v \<noteq> []" using nx(2) by (auto simp: valid_key_def)
  consider (empty) "k = []" | (mut) sk where "k \<noteq> []" "NUL \<notin> set k" "ft_wf v k" "ft_rep v k = Some (True, sk)"
    | (imm) sk where "k \<noteq> []" "NUL \<notin> set k" "ft_wf v k" "ft_rep v k = Some (False, sk)"
    using assms(3) by (fastforce simp: rep_key_ok_def ft_wf_def split: option.splits)
  then show thesis
  proof cases
    case empty
    obtain v' where "svn_fs__get_mutable_rep ref_db (Some k) v = Ok (next_rep v, v')" "keys_inv v'" "same_nodes v v'"
      "ft_wf v' (next_rep v)" "ft_rep v' (next_rep v) = Some (True, next_str v)" "ft_text v' (next_rep v) = []" "texts_kept v v'"
      using new_mutable_rep [OF assms(1,2), of "Some k"] empty by metis
    with that [of "next_rep v" v' "next_str v"] empty valid_key_NUL [OF nx(2)] ne show thesis by (simp add: rep_text_def)
  next
    case mut
    then obtain skel where skel: "svn_fs__read_rep ref_db k v = Ok (Some skel, v)" "fulltext_of skel = Some (True, sk)"
      using ft_rep_read [OF mut(4)] by (auto simp: ft_wf_def)
    have "svn_fs__get_mutable_rep ref_db (Some k) v = Ok (k, v)"
      using skel(1) fulltext_tests [OF skel(2)] mut(1) by (simp add: svn_fs__get_mutable_rep_def tbind_def tlift_def tret_def)
    with that [of k v sk] assms(1) mut show thesis by (simp add: rep_text_def texts_kept_def)
  next
    case imm
    obtain v' where "svn_fs__get_mutable_rep ref_db (Some k) v = Ok (next_rep v, v')" "keys_inv v'" "same_nodes v v'"
      "ft_wf v' (next_rep v)" "ft_rep v' (next_rep v) = Some (True, next_str v)" "ft_text v' (next_rep v) = ft_text v k" "texts_kept v v'"
      using copied_mutable_rep [OF assms(1,2) imm(3,4)] by metis
    with that [of "next_rep v" v' "next_str v"] imm valid_key_NUL [OF nx(2)] nx(8) [OF imm(3)] show thesis by (simp add: rep_text_def)
  qed
qed

end
