(* ===== verification/Fs_Dirs.thy ===== *)
theory Fs_Dirs
  imports Fs_Mutrep
begin

text \<open>
  Directories as maps: the entries list behind a directory node, and what setting, finding and
  reading entries does to it.
\<close>

section \<open>Small node revisions\<close>

text \<open>There is room for longer keys.\<close>

definition nr_fits :: "node_rev_t \<Rightarrow> bool" where
  "nr_fits nr \<longleftrightarrow> length (skel_text (nr_skel nr)) + 1000 < 2 ^ 32"

lemma key_text_length: "length k < 200 \<Longrightarrow> length (skel_text (skel_atom k)) \<le> 221"
  using atom_text_length [of k] by simp

lemma nr_fits_small:
  assumes "nr_fits nr" and "length k < 200"
  shows "nr_small (nr\<lparr>nr_data := k\<rparr>)" and "nr_small (nr\<lparr>nr_prop := k\<rparr>)" and "nr_small (nr\<lparr>nr_edit := Some k\<rparr>)" and "nr_small nr"
  using assms(1) key_text_length [OF assms(2)]
  by (auto simp: nr_fits_def nr_small_def nr_skel_def simp del: skel_text.simps(1) split: option.splits)

lemma nr_valid_update [simp]:
  "nr_valid (nr\<lparr>nr_data := k\<rparr>) = nr_valid nr" "nr_valid (nr\<lparr>nr_prop := k\<rparr>) = nr_valid nr"
  "kind_of (nr\<lparr>nr_data := k\<rparr>) = kind_of nr" "kind_of (nr\<lparr>nr_prop := k\<rparr>) = kind_of nr" "kind_of (nr\<lparr>nr_edit := e\<rparr>) = kind_of nr"
  by (simp_all add: nr_valid_def kind_of_def)

lemma node_for_valid: "node_for v node nr \<Longrightarrow> nr_valid nr"
  by (auto simp: node_for_def elim: node_of_Some)

section \<open>Entries lists\<close>

definition entry_skel :: "bytes \<times> svn_fs_id_t \<Rightarrow> skel_t" where
  "entry_skel e = skel_list [] [skel_atom (fst e), skel_atom (id_text (snd e))]"

definition dir_skel :: "(bytes \<times> svn_fs_id_t) list \<Rightarrow> skel_t" where
  "dir_skel es = skel_list [] (map entry_skel es)"

definition entries_ok :: "(bytes \<times> svn_fs_id_t) list \<Rightarrow> bool" where
  "entries_ok es \<longleftrightarrow> distinct (map fst es) \<and> (\<forall>e \<in> set es. key_ok (snd e) \<and> NUL \<notin> set (fst e))"

text \<open>The entries of a directory.\<close>

definition dir_is :: "fs_tables \<Rightarrow> node_rev_t \<Rightarrow> (bytes \<times> svn_fs_id_t) list \<Rightarrow> bool" where
  "dir_is v nr es \<longleftrightarrow>
     nr_kind nr = ''dir'' \<and> entries_ok es \<and> rep_key_ok v (nr_data nr) \<and>
     (if nr_data nr = [] then es = [] else ft_text v (nr_data nr) = skel_text (dir_skel es))"

text \<open>Setting an entry: in place, or in front of the others.\<close>

definition set_dirent :: "bytes \<Rightarrow> svn_fs_id_t \<Rightarrow> (bytes \<times> svn_fs_id_t) list \<Rightarrow> (bytes \<times> svn_fs_id_t) list" where
  "set_dirent name nid es =
     (if name \<in> fst ` set es then map (\<lambda>e. if fst e = name then (name, nid) else e) es else (name, nid) # es)"

lemma map_of_set_dirent: "map_of (set_dirent name nid es) = (map_of es)(name \<mapsto> nid)"
proof
  fix n
  have m: "map_of (map (\<lambda>e. if fst e = name then (name, nid) else e) es) n = map_option (\<lambda>i. if n = name then nid else i) (map_of es n)"
    by (induction es) auto
  show "map_of (set_dirent name nid es) n = ((map_of es)(name \<mapsto> nid)) n"
  proof (cases "name \<in> fst ` set es")
    case True
    then have "map_of es name \<noteq> None" by (simp add: map_of_eq_None_iff)
    then obtain y where "map_of es name = Some y" by blast
    moreover have "map_of (set_dirent name nid es) n = map_option (\<lambda>i. if n = name then nid else i) (map_of es n)"
      unfolding set_dirent_def using True m by simp
    ultimately show ?thesis by (simp add: option.map_ident)
  qed (simp add: set_dirent_def)
qed

lemma set_dirent_ok:
  assumes "entries_ok es" and "key_ok nid" and "NUL \<notin> set name"
  shows "entries_ok (set_dirent name nid es)"
proof (cases "name \<in> fst ` set es")
  case True
  have "map fst (map (\<lambda>e. if fst e = name then (name, nid) else e) es) = map fst es" by simp
  moreover have "key_ok (snd e) \<and> NUL \<notin> set (fst e)" if e: "e \<in> (\<lambda>e. if fst e = name then (name, nid) else e) ` set es" for e
  proof -
    obtain e' where "e' \<in> set es" "e = (if fst e' = name then (name, nid) else e')" using e by blast
    then show ?thesis using assms by (cases "fst e' = name") (simp_all add: entries_ok_def)
  qed
  ultimately show ?thesis using True assms(1) unfolding entries_ok_def set_dirent_def by (simp only: if_True list.set_map) simp
next
  case False
  then show ?thesis using assms by (simp add: entries_ok_def set_dirent_def)
qed

lemma find_entry_loop_es:
  assumes "map svn_fs__copy_skel cs = map entry_skel es"
  shows "find_entry_loop cs name i = Ok (if name \<in> fst ` set es then Some (i + length (takeWhile (\<lambda>e. fst e \<noteq> name) es)) else None)"
  using assms
proof (induction cs arbitrary: es i)
  case (Cons c cs)
  then obtain e es' where es: "es = e # es'" "svn_fs__copy_skel c = entry_skel e" "map svn_fs__copy_skel cs = map entry_skel es'" by auto
  obtain b where c: "c = skel_list b [skel_atom (fst e), skel_atom (id_text (snd e))]"
    using es(2) by (auto simp: entry_skel_def copy_skel_eq_list map_eq_Cons_conv)
  show ?case using Cons.IH [OF es(3), of "Suc i"] by (auto simp: es(1) c first_skel_def)
qed simp

lemma dirent_pos:
  assumes "name \<in> fst ` set es"
  shows "length (takeWhile (\<lambda>e. fst e \<noteq> name) es) < length es" and "fst (es ! length (takeWhile (\<lambda>e. fst e \<noteq> name) es)) = name"
  using assms by (induction es) auto

text \<open>A skel that lists the entries \<open>es\<close>.\<close>

abbreviation lists :: "skel_t \<Rightarrow> (bytes \<times> svn_fs_id_t) list \<Rightarrow> bool" where
  "lists s es \<equiv> svn_fs__copy_skel s = dir_skel es"

lemma listsE:
  assumes "lists s es"
  obtains b cs where "s = skel_list b cs" and "map svn_fs__copy_skel cs = map entry_skel es" and "length cs = length es"
  using assms that by (auto simp: dir_skel_def copy_skel_eq_list dest: map_eq_imp_length_eq)

lemma lists_entry:
  assumes "lists s es" and "i < length es"
  obtains b where "skel_children s ! i = skel_list b [skel_atom (fst (es ! i)), skel_atom (id_text (snd (es ! i)))]"
proof -
  obtain b cs where s: "s = skel_list b cs" "map svn_fs__copy_skel cs = map entry_skel es" "length cs = length es"
    using listsE [OF assms(1)] .
  have "svn_fs__copy_skel (cs ! i) = entry_skel (es ! i)" using s(2,3) assms(2) by (metis nth_map)
  then show thesis using that s(1) by (auto simp: entry_skel_def copy_skel_eq_list map_eq_Cons_conv)
qed

lemma entry_id_lists:
  assumes "lists s es" and "i < length es" and "key_ok (snd (es ! i))"
  shows "entry_id (skel_children s ! i) = Ok (Some (snd (es ! i)))"
proof -
  obtain b where "skel_children s ! i = skel_list b [skel_atom (fst (es ! i)), skel_atom (id_text (snd (es ! i)))]"
    using lists_entry [OF assms(1,2)] .
  then show ?thesis using key_ok_text(2) [OF assms(3)] by (simp add: entry_id_def skel_child_def del: id_text.simps)
qed

lemma update_pos:
  assumes "distinct (map fst es)" and "name \<in> fst ` set es"
  shows "es[length (takeWhile (\<lambda>e. fst e \<noteq> name) es) := (name, nid)] = map (\<lambda>e. if fst e = name then (name, nid) else e) es"
  using assms
proof (induction es)
  case (Cons e es)
  have "map (\<lambda>e. if fst e = name then (name, nid) else e) es = es" if "name \<notin> fst ` set es"
    using that by (intro map_idI) auto
  with Cons show ?case by auto
qed simp

lemma change_entry_lists:
  assumes "lists s es" and "entries_ok es" and "key_ok nid"
  obtains s' where "change_entry s name nid = Ok s'" and "lists s' (set_dirent name nid es)"
proof -
  obtain b cs where s: "s = skel_list b cs" "map svn_fs__copy_skel cs = map entry_skel es" "length cs = length es"
    using listsE [OF assms(1)] .
  let ?i = "length (takeWhile (\<lambda>e. fst e \<noteq> name) es)"
  have f: "find_dir_entry s name = Ok (if name \<in> fst ` set es then Some ?i else None)"
    using find_entry_loop_es [OF s(2), of name 0] by (simp add: find_dir_entry_def s(1))
  show thesis
  proof (cases "name \<in> fst ` set es")
    case True
    note p = dirent_pos [OF True]
    obtain b' where e: "skel_children s ! ?i = skel_list b' [skel_atom (fst (es ! ?i)), skel_atom (id_text (snd (es ! ?i)))]"
      using lists_entry [OF assms(1) p(1)] .
    let ?e = "skel_list b' [skel_atom name, skel_atom (id_text nid)]"
    have "map svn_fs__copy_skel (cs[?i := ?e]) = map entry_skel (es[?i := (name, nid)])"
      using s(2) by (simp add: map_update entry_skel_def)
    then have "lists (set_skel_child ?i ?e s) (set_dirent name nid es)"
      using True assms(2) update_pos [of es name nid] by (simp add: s(1) dir_skel_def set_dirent_def entries_ok_def)
    moreover have "change_entry s name nid = Ok (set_skel_child ?i ?e s)"
      using f True id_atom_text [OF assms(3)] e p(2) by (simp add: change_entry_def)
    ultimately show thesis using that by blast
  next
    case False
    have "change_entry s name nid = Ok (skel_list b (skel_list [] [skel_atom name, skel_atom (id_text nid)] # cs))"
      using f False id_atom_text [OF assms(3)] by (simp add: change_entry_def s(1) svn_fs__make_empty_list_def svn_fs__str_atom_def)
    moreover have "lists (skel_list b (skel_list [] [skel_atom name, skel_atom (id_text nid)] # cs)) (set_dirent name nid es)"
      using False s(2) by (simp add: dir_skel_def set_dirent_def entry_skel_def)
    ultimately show thesis using that by blast
  qed
qed

lemma lists_text: "lists s es \<Longrightarrow> skel_text s = skel_text (dir_skel es)"
  using copy_skel_text [of s] by simp

lemma parse_dir_text:
  assumes "length (skel_text (dir_skel es)) < 2 ^ 32"
  obtains s where "svn_fs__parse_skel (skel_text (dir_skel es)) = Some s" and "lists s es"
proof -
  have "lists (dir_skel es) es" by (simp add: dir_skel_def entry_skel_def)
  then show thesis using that [of "skel_norm (dir_skel es)"] skel_to_dbt_text(2) [OF assms] by simp
qed

section \<open>Reading directories\<close>

lemma get_dir_entries_for:
  assumes "keys_inv v" and "says c nr" and "dir_is v nr es"
  obtains s where "get_dir_entries ref_db c v = Ok (s, v)" and "lists s es"
proof -
  obtain b h opts where c: "c = skel_list b (skel_list h (skel_atom (nr_kind nr) # skel_atom (nr_rev nr) # opts) #
      skel_atom (nr_prop nr) # skel_atom (nr_data nr) # (case nr_edit nr of None \<Rightarrow> [] | Some k \<Rightarrow> [skel_atom k]))"
    using saysE [OF assms(2)] by metis
  note k = says_parts(4) [OF assms(2)]
  have kind: "nr_kind nr = ''dir''" using assms(3) by (simp add: dir_is_def)
  have c': "\<exists>rest. skel_children c = skel_list h (skel_atom ''dir'' # skel_atom (nr_rev nr) # opts) # rest" using kind by (simp add: c)
  show thesis
  proof (cases "nr_data nr = []")
    case True
    then show thesis using that [of svn_fs__make_empty_list] k c' assms(3)
      by (auto simp: get_dir_entries_def tbind_def tlift_def tret_def key_string_def apr_pstrndup_def first_skel_def
          svn_fs__make_empty_list_def dir_skel_def dir_is_def)
  next
    case False
    have r: "NUL \<notin> set (nr_data nr)" "ft_wf v (nr_data nr)" "ft_text v (nr_data nr) = skel_text (dir_skel es)"
      using assms(3) False by (simp_all add: dir_is_def rep_key_ok_def)
    have "length (ft_text v (nr_data nr)) < 2 ^ 32" using ft_wfE [OF r(2)] by metis
    then obtain s where s: "svn_fs__parse_skel (ft_text v (nr_data nr)) = Some s" "lists s es"
      using parse_dir_text [of es] unfolding r(3) by auto
    obtain b' cs where sl: "s = skel_list b' cs" "map svn_fs__copy_skel cs = map entry_skel es" "length cs = length es"
      using listsE [OF s(2)] .
    have two: "svn_fs__list_length (Some (skel_children s ! i)) = 2" if i: "i < length cs" for i
    proof -
      obtain b where "skel_children s ! i = skel_list b [skel_atom (fst (es ! i)), skel_atom (id_text (snd (es ! i)))]"
        using lists_entry [OF s(2), of i] i sl(3) by metis
      then show ?thesis by simp
    qed
    have "\<not> list_ex (\<lambda>entry. svn_fs__list_length (Some entry) \<noteq> 2) (skel_children s)"
      using two by (auto simp: list_ex_length sl(1))
    moreover have "svn_fs__rep_contents ref_db (nr_data nr) v = Ok (ft_text v (nr_data nr), v)"
      using rep_contents_ref [OF r(2)] assms(1) by (simp add: keys_inv_def)
    moreover obtain rest where "skel_children c = skel_list h (skel_atom ''dir'' # skel_atom (nr_rev nr) # opts) # rest" using c' by blast
    ultimately have "get_dir_entries ref_db c v = Ok (s, v)" using s(1) k False pstrndup_id [OF r(1)]
      by (simp add: get_dir_entries_def tbind_def tlift_def tret_def key_string_def first_skel_def parse_entries_def)
    then show thesis using that s(2) by blast
  qed
qed

lemma dir_entries_for:
  assumes "keys_inv v" and "node_for v node nr" and "dir_is v nr es"
  obtains s node' where "svn_fs__dag_dir_entries_skel ref_db node v = Ok ((s, node'), v)" and "lists s es"
    and "node_for v node' nr" and "dn_id node' = dn_id node"
proof -
  obtain c node' where c: "get_node_revision ref_db node v = Ok ((c, node'), v)" "says c nr" "node_for v node' nr" "dn_id node' = dn_id node"
    using get_node_revision_for [OF assms(2)] by metis
  obtain s where s: "get_dir_entries ref_db c v = Ok (s, v)" "lists s es" using get_dir_entries_for [OF assms(1) c(2) assms(3)] .
  have "svn_fs__dag_is_directory node" using assms(2,3) by (simp add: svn_fs__dag_is_directory_def node_for_def dir_is_def kind_of_def)
  then show thesis using that [of s node'] c s by (simp add: svn_fs__dag_dir_entries_skel_def tbind_def tret_def)
qed

text \<open>The hash table of the entries.\<close>

lemma hash_entries_es:
  assumes "map svn_fs__copy_skel cs = map entry_skel es" and "entries_ok es"
  shows "\<exists>t. hash_entries cs tbl = Ok t \<and>
    (\<forall>n. fmlookup t n = (case map_of es n of Some i \<Rightarrow> Some \<lparr>de_name = n, de_id = Some i\<rparr> | None \<Rightarrow> fmlookup tbl n))"
  using assms
proof (induction cs arbitrary: es tbl)
  case (Cons c cs)
  then obtain e es' where es: "es = e # es'" "svn_fs__copy_skel c = entry_skel e" "map svn_fs__copy_skel cs = map entry_skel es'" by auto
  obtain b where c: "c = skel_list b [skel_atom (fst e), skel_atom (id_text (snd e))]"
    using es(2) by (auto simp: entry_skel_def copy_skel_eq_list map_eq_Cons_conv)
  have ok: "entries_ok es'" "key_ok (snd e)" "NUL \<notin> set (fst e)" "fst e \<notin> fst ` set es'" using Cons.prems(2) by (auto simp: entries_ok_def es(1))
  let ?t = "fmupd (fst e) \<lparr>de_name = fst e, de_id = Some (snd e)\<rparr> tbl"
  obtain t where t: "hash_entries cs ?t = Ok t"
      "\<forall>n. fmlookup t n = (case map_of es' n of Some i \<Rightarrow> Some \<lparr>de_name = n, de_id = Some i\<rparr> | None \<Rightarrow> fmlookup ?t n)"
    using Cons.IH [OF es(3) ok(1), of ?t] by blast
  have "map_of es' (fst e) = None" using ok(4) by (simp add: map_of_eq_None_iff)
  then have "fmlookup t n = (case map_of es n of Some i \<Rightarrow> Some \<lparr>de_name = n, de_id = Some i\<rparr> | None \<Rightarrow> fmlookup tbl n)" for n
    using t(2) by (cases e) (auto simp: es(1) split: option.splits)
  moreover have "hash_entries (c # cs) tbl = Ok t"
    using t(1) ok(3) key_ok_text(2) [OF ok(2)] by (simp add: c skel_child_def entry_id_def)
  ultimately show ?case by blast
qed auto

definition dirent_map :: "(bytes, svn_fs_dirent_t) fmap \<Rightarrow> (bytes \<rightharpoonup> svn_fs_id_t)" where
  "dirent_map t n = (case fmlookup t n of Some d \<Rightarrow> de_id d | None \<Rightarrow> None)"

lemma dir_hash_for:
  assumes "keys_inv v" and "node_for v node nr" and "dir_is v nr es"
  shows "\<exists>t node'. svn_fs__dag_dir_entries_hash ref_db node v = Ok ((t, node'), v) \<and> dirent_map t = map_of es"
proof -
  obtain s node' where s: "svn_fs__dag_dir_entries_skel ref_db node v = Ok ((s, node'), v)" "lists s es"
    using dir_entries_for [OF assms] by metis
  obtain b cs where sl: "s = skel_list b cs" "map svn_fs__copy_skel cs = map entry_skel es" using listsE [OF s(2)] by metis
  obtain t where t: "hash_entries cs fmempty = Ok t"
      "\<forall>n. fmlookup t n = (case map_of es n of Some i \<Rightarrow> Some \<lparr>de_name = n, de_id = Some i\<rparr> | None \<Rightarrow> fmlookup fmempty n)"
    using hash_entries_es [OF sl(2)] assms(3) by (auto simp: dir_is_def)
  have "dirent_map t = map_of es" using t(2) by (auto simp: dirent_map_def split: option.split)
  then show ?thesis using s(1) t(1) by (auto simp: svn_fs__dag_dir_entries_hash_def tbind_def tlift_def tret_def sl(1))
qed

end
