(* ===== verification/Fs_Setentry.thy ===== *)
theory Fs_Setentry
  imports Fs_Dirs
begin

text \<open>
  Changing directories: setting and creating entries changes the map of the directory at one name
  and nothing else.
\<close>

section \<open>Rewriting a mutable full text\<close>

text \<open>The string of a mutable representation.\<close>

definition own_string :: "fs_tables \<Rightarrow> bytes \<Rightarrow> bytes option" where
  "own_string v k = (if k = [] then None else case ft_rep v k of Some (True, sk) \<Rightarrow> Some sk | _ \<Rightarrow> None)"

text \<open>
  Every full text is as before, except the ones whose text is the string of the mutable
  representation \<open>k\<close>.
\<close>

definition texts_apart :: "fs_tables \<Rightarrow> bytes \<Rightarrow> fs_tables \<Rightarrow> bool" where
  "texts_apart v k v' \<longleftrightarrow>
     (\<forall>q m sk. ft_wf v q \<and> ft_rep v q = Some (m, sk) \<and> own_string v k \<noteq> Some sk \<longrightarrow>
        ft_wf v' q \<and> ft_text v' q = ft_text v q \<and> ft_rep v' q = ft_rep v q)"

lemma rewrite_rep:
  assumes "keys_inv v" and "ft_wf v k" and "ft_rep v k = Some (True, sk)" and "length data < 2 ^ 32"
  obtains v1 v2 where "svn_fs__rep_contents_clear ref_db k v = Ok ((), v1)" and "rep_write ref_db k data v1 = Ok ((), v2)"
    and "keys_inv v2" and "same_nodes v v2" and "ft_wf v2 k" and "ft_rep v2 k = Some (True, sk)" and "ft_text v2 k = data"
    and "texts_kept_but sk v v2"
proof -
  let ?v1 = "set_str sk [[]] v"
  have w: "sk \<noteq> svn_fs__next_key_key" "sk \<in> str_keys v" using assms(2,3) next_key_key_invalid by (auto simp: ft_wf_def str_keys_def)
  have s1: "strings_inv ?v1" using assms(1) w by (intro strings_inv_set) (simp_all add: keys_inv_def short_recs_def)
  have r1: "ft_wf ?v1 k" "ft_rep ?v1 k = Some (True, sk)" "ft_text ?v1 k = []"
    using assms(2,3) by (auto simp: ft_wf_def ft_text_def str_val_def)
  let ?v2 = "set_str sk (str_recs sk ?v1 @ [data]) ?v1"
  note wr = rep_write_wf [OF r1(1) s1 r1(2), of data]
  have eq: "?v2 = set_str sk [[], data] v" by simp
  show thesis
  proof (rule that [of ?v1 ?v2])
    show "svn_fs__rep_contents_clear ref_db k v = Ok ((), ?v1)" using rep_contents_clear_ref [OF assms(2,3)] by simp
    show "rep_write ref_db k data ?v1 = Ok ((), ?v2)" by (rule rep_write_ref [OF r1(1,2) assms(4)])
    show "keys_inv ?v2" using wr(3) assms(1,4) r1(3) by (simp add: keys_inv_def)
    show "texts_kept_but sk v ?v2" unfolding eq by (rule kept_but_set)
  qed (use wr r1 assms(3,4) in simp_all)
qed

section \<open>The mutable entries list\<close>

lemma own_string_simps: "own_string v k = Some sk \<longleftrightarrow> k \<noteq> [] \<and> ft_rep v k = Some (True, sk)"
  by (auto simp: own_string_def split: option.split bool.splits)

text \<open>The text that is changed is in none of the other full texts.\<close>

lemma mutable_data_rep_for:
  assumes "keys_inv v" and "keys_room v" and "node_for v node nr" and "rep_key_ok v (nr_data nr)" and "nr_fits nr" and "says c nr"
  obtains k' sk' v' node' where "mutable_data_rep ref_db node c (nr_data nr) v = Ok ((k', node'), v')" and "keys_inv v'"
    and "node_for v' node' (nr\<lparr>nr_data := k'\<rparr>)" and "dn_id node' = dn_id node"
    and "\<And>i. key_ok i \<Longrightarrow> i \<noteq> dn_id node \<Longrightarrow> node_of v' i = node_of v i"
    and "k' \<noteq> []" and "NUL \<notin> set k'" and "ft_wf v' k'" and "ft_rep v' k' = Some (True, sk')" and "ft_text v' k' = rep_text v (nr_data nr)"
    and "\<And>v''. texts_kept_but sk' v' v'' \<Longrightarrow> texts_apart v (nr_data nr) v''"
proof -
  let ?k = "nr_data nr"
  have id: "key_ok (dn_id node)" "dn_kind node = kind_of nr" using assms(3) by (auto simp: node_for_def)
  obtain k' v1 sk' where g: "svn_fs__get_mutable_rep ref_db (Some ?k) v = Ok (k', v1)" "keys_inv v1" "same_nodes v v1"
      "ft_wf v1 k'" "ft_rep v1 k' = Some (True, sk')" "ft_text v1 k' = rep_text v ?k" "NUL \<notin> set k'" "texts_kept v v1"
      "k' = ?k \<and> v1 = v \<and> ?k \<noteq> [] \<or> k' \<noteq> ?k \<and> k' = next_rep v \<and> sk' = next_str v \<and> (\<forall>sk. ?k \<noteq> [] \<longrightarrow> ft_rep v ?k \<noteq> Some (True, sk))"
    using get_mutable_rep_for [OF assms(1,2,4)] by metis
  have k': "k' \<noteq> []" using g(4) by (simp add: ft_wf_def)
  have apart: "texts_apart v ?k v''" if b: "texts_kept_but sk' v1 v''" for v''
    unfolding texts_apart_def
  proof (intro allI impI)
    fix q m sk assume q: "ft_wf v q \<and> ft_rep v q = Some (m, sk) \<and> own_string v ?k \<noteq> Some sk"
    have "sk \<noteq> sk'" using g(5,9) q next_keys(7) [OF assms(1,2), of q m] by (auto simp: own_string_simps)
    moreover have "ft_wf v1 q \<and> ft_text v1 q = ft_text v q \<and> ft_rep v1 q = ft_rep v q" using g(8) q by (simp add: texts_kept_def)
    ultimately show "ft_wf v'' q \<and> ft_text v'' q = ft_text v q \<and> ft_rep v'' q = ft_rep v q"
      using b q unfolding texts_kept_but_def by metis
  qed
  show thesis
  proof (cases "k' = ?k")
    case True
    have "mutable_data_rep ref_db node c ?k v = Ok ((k', node), v1)" using g(1) True by (simp add: mutable_data_rep_def tbind_def tret_def)
    then show thesis using that [of k' node v1 sk'] g(2-7) k' apart True same_nodes_for [OF g(3) assms(3)] same_nodes_node_of [OF g(3)] by simp
  next
    case False
    let ?nr = "nr\<lparr>nr_data := k'\<rparr>"
    have "length k' < 200" using False g(9) next_keys(3) [OF assms(1,2)] by auto
    note small = nr_fits_small(1) [OF assms(5) this]
    have "svn_fs__copy_skel (nr_skel nr) = nr_skel nr" using copy_skel_idem [of c] unfolding assms(6) .
    then have s: "says (set_skel_child 2 (skel_atom k') (svn_fs__copy_skel c)) ?nr" using says_set(2) [of "svn_fs__copy_skel c" nr k'] assms(6) by simp
    have valid: "nr_valid ?nr" using node_for_valid [OF assms(3)] by simp
    obtain node' where n: "set_node_revision ref_db node (set_skel_child 2 (skel_atom k') (svn_fs__copy_skel c)) v1 = Ok (node', nr_put (dn_id node) ?nr v1)"
        "node_for (nr_put (dn_id node) ?nr v1) node' ?nr" "dn_id node' = dn_id node"
      using set_node_revision_for [OF id(1) s valid small, of v1] id(2) by auto
    have "mutable_data_rep ref_db node c ?k v = Ok ((k', node'), nr_put (dn_id node) ?nr v1)"
      using g(1) False n(1) by (simp add: mutable_data_rep_def tbind_def tret_def)
    moreover have "node_of (nr_put (dn_id node) ?nr v1) i = node_of v i" if "key_ok i" "i \<noteq> dn_id node" for i
      using node_of_put [OF id(1) that(1) valid small, of v1] that(2) same_nodes_node_of [OF g(3)] by simp
    moreover have "texts_apart v ?k v''" if "texts_kept_but sk' (nr_put (dn_id node) ?nr v1) v''" for v''
      using that by (intro apart) (auto simp: texts_kept_but_def)
    ultimately show thesis using that [of k' node' "nr_put (dn_id node) ?nr v1" sk'] g(2,4-7) k' n(2,3) by (simp add: keys_inv_def)
  qed
qed

lemma texts_kept_but_trans: "texts_kept_but sk v v1 \<Longrightarrow> texts_kept_but sk v1 v2 \<Longrightarrow> texts_kept_but sk v v2"
  unfolding texts_kept_but_def by metis

section \<open>Setting an entry\<close>

text \<open>What a change of the entries of a directory has done.\<close>

definition dir_changed ::
  "fs_tables \<Rightarrow> dag_node_t \<Rightarrow> node_rev_t \<Rightarrow> (bytes \<times> svn_fs_id_t) list \<Rightarrow> dag_node_t \<Rightarrow> fs_tables \<Rightarrow> bool"
where
  "dir_changed v node nr es' node' v' \<longleftrightarrow>
     keys_inv v' \<and> dn_id node' = dn_id node \<and>
     (\<exists>k. node_for v' node' (nr\<lparr>nr_data := k\<rparr>) \<and> dir_is v' (nr\<lparr>nr_data := k\<rparr>) es') \<and>
     (\<forall>i. key_ok i \<and> i \<noteq> dn_id node \<longrightarrow> node_of v' i = node_of v i) \<and>
     texts_apart v (nr_data nr) v'"

lemma set_entry_for:
  assumes "keys_inv v" and "keys_room v" and "node_for v node nr" and "nr_fits nr" and "dir_is v nr es"
    and "key_ok nid" and "NUL \<notin> set name" and "length (skel_text (dir_skel (set_dirent name nid es))) < 2 ^ 32"
  obtains node' v' where "set_entry ref_db node name nid v = Ok (node', v')" and "dir_changed v node nr (set_dirent name nid es) node' v'"
proof -
  let ?k = "nr_data nr" and ?es = "set_dirent name nid es"
  have rk: "rep_key_ok v ?k" "nr_kind nr = ''dir''" "entries_ok es" using assms(5) by (auto simp: dir_is_def)
  obtain c node0 where c: "get_node_revision ref_db node v = Ok ((c, node0), v)" "says c nr" "node_for v node0 nr" "dn_id node0 = dn_id node"
    using get_node_revision_for [OF assms(3)] by metis
  have ks: "key_string (skel_atom ?k) = ?k" using rk(1) by (auto simp: key_string_def rep_key_ok_def pstrndup_id apr_pstrndup_def)
  obtain k' sk' v1 node1 where m: "mutable_data_rep ref_db node0 c ?k v = Ok ((k', node1), v1)" "keys_inv v1"
      "node_for v1 node1 (nr\<lparr>nr_data := k'\<rparr>)" "dn_id node1 = dn_id node0"
      "\<And>i. key_ok i \<Longrightarrow> i \<noteq> dn_id node0 \<Longrightarrow> node_of v1 i = node_of v i"
      "k' \<noteq> []" "NUL \<notin> set k'" "ft_wf v1 k'" "ft_rep v1 k' = Some (True, sk')" "ft_text v1 k' = rep_text v ?k"
      "\<And>v''. texts_kept_but sk' v1 v'' \<Longrightarrow> texts_apart v ?k v''"
    using mutable_data_rep_for [OF assms(1,2) c(3) rk(1) assms(4) c(2)] by metis
  let ?ini = "if ?k = [] then tbind (tlift (skel_string svn_fs__make_empty_list)) (\<lambda>e. tignore (rep_write ref_db k' e)) else tret ()"
  obtain v2 where i: "?ini v1 = Ok ((), v2)" "keys_inv v2" "same_nodes v1 v2" "ft_wf v2 k'" "ft_rep v2 k' = Some (True, sk')"
      "ft_text v2 k' = skel_text (dir_skel es)" "texts_kept_but sk' v1 v2"
  proof (cases "?k = []")
    case True
    have es: "es = []" using assms(5) True by (simp add: dir_is_def)
    have t: "skel_string svn_fs__make_empty_list = Ok ''()''" using skel_string_text [of svn_fs__make_empty_list] by (simp add: svn_fs__make_empty_list_def)
    let ?v2 = "set_str sk' (str_recs sk' v1 @ [''()'']) v1"
    have "rep_write ref_db k' ''()'' v1 = Ok ((), ?v2)" by (rule rep_write_ref [OF m(8,9)]) simp
    then have ok: "?ini v1 = Ok ((), ?v2)" using True t by (simp add: tbind_def tlift_def tignore_def)
    have tx: "ft_text v1 k' = []" using m(10) True by (simp add: rep_text_def)
    have "strings_inv v1" using m(2) by (simp add: keys_inv_def)
    note wr = rep_write_wf [OF m(8) this m(9), of "''()''"]
    have d: "skel_text (dir_skel es) = ''()''" by (simp add: es dir_skel_def)
    show thesis using wr m(2,9) tx d by (intro that [OF ok]) (simp_all add: keys_inv_def kept_but_set)
  next
    case False
    then show thesis using that [of v1] m assms(5) by (simp add: tret_def rep_text_def dir_is_def texts_kept_but_def)
  qed
  have len: "length (ft_text v2 k') < 2 ^ 32" using ft_wfE [OF i(4)] by metis
  obtain s where s: "svn_fs__parse_skel (skel_text (dir_skel es)) = Some s" "lists s es" using parse_dir_text [of es] len i(6) by metis
  obtain s' where s': "change_entry s name nid = Ok s'" "lists s' ?es" using change_entry_lists [OF s(2) rk(3) assms(6)] .
  have tx: "skel_string s' = Ok (skel_text (dir_skel ?es))" using lists_text [OF s'(2)] skel_string_text [of s'] assms(8) by simp
  obtain v3 v4 where w: "svn_fs__rep_contents_clear ref_db k' v2 = Ok ((), v3)" "rep_write ref_db k' (skel_text (dir_skel ?es)) v3 = Ok ((), v4)"
      "keys_inv v4" "same_nodes v2 v4" "ft_wf v4 k'" "ft_rep v4 k' = Some (True, sk')" "ft_text v4 k' = skel_text (dir_skel ?es)"
      "texts_kept_but sk' v2 v4"
    using rewrite_rep [OF i(2,4,5) assms(8)] .
  have rc: "svn_fs__rep_contents ref_db k' v2 = Ok (skel_text (dir_skel es), v2)"
    using rep_contents_ref [OF i(4)] i(2,6) by (simp add: keys_inv_def)
  have "set_entry ref_db node name nid v = Ok (node1, v4)"
    unfolding set_entry_def tbind_def [of "get_node_revision ref_db node"] c(1)
    using says_parts(4) [OF c(2)] m(1) i(1) rc s(1) s'(1) tx w(1,2)
    by (simp add: tbind_def tlift_def tret_def Let_def ks parse_entries_def tignore_def del: skel_text.simps)
  moreover have sn: "same_nodes v1 v4" using same_nodes_trans [OF i(3) w(4)] .
  moreover have "dir_changed v node nr ?es node1 v4"
    unfolding dir_changed_def
  proof (intro conjI exI)
    show "node_for v4 node1 (nr\<lparr>nr_data := k'\<rparr>)" by (rule same_nodes_for [OF sn m(3)])
    show "dir_is v4 (nr\<lparr>nr_data := k'\<rparr>) ?es" using rk(2) set_dirent_ok [OF rk(3) assms(6,7)] w(5,7) m(6,7) by (simp add: dir_is_def rep_key_ok_def)
    show "\<forall>i. key_ok i \<and> i \<noteq> dn_id node \<longrightarrow> node_of v4 i = node_of v i" using m(5) same_nodes_node_of [OF sn] c(4) by simp
    show "texts_apart v ?k v4" by (rule m(11) [OF texts_kept_but_trans [OF i(7) w(8)]])
  qed (use w(3) m(4) c(4) in simp_all)
  ultimately show thesis using that by blast
qed


text \<open>The reading operations give results that do not depend on the state they leave behind.\<close>

lemma dir_hash_result:
  assumes "bdb_laws db view" and "keys_inv (view s)" and "node_for (view s) node nr" and "dir_is (view s) nr es"
  shows "\<exists>t node'. trail_result (svn_fs__dag_dir_entries_hash db node) s = Ok (t, node') \<and> dirent_map t = map_of es"
  using dir_hash_for [OF assms(2-4)] refines_result [OF refines_dir_entries_hash [OF assms(1)], of node s] by (auto simp: trail_result_def)

lemma dir_is_directory: "node_for v node nr \<Longrightarrow> dir_is v nr es \<Longrightarrow> svn_fs__dag_is_directory node"
  by (simp add: svn_fs__dag_is_directory_def node_for_def dir_is_def kind_of_def)

section \<open>Finding and opening entries\<close>

lemma dir_entry_for:
  assumes "keys_inv v" and "node_for v node nr" and "dir_is v nr es"
  obtains e node' where "dir_entry_from_node ref_db node name v = Ok ((e, node'), v)" and "node_for v node' nr" and "dn_id node' = dn_id node"
    and "e = None \<longleftrightarrow> map_of es name = None" and "\<And>x i. e = Some x \<Longrightarrow> map_of es name = Some i \<Longrightarrow> entry_id x = Ok (Some i)"
proof -
  obtain s node' where s: "svn_fs__dag_dir_entries_skel ref_db node v = Ok ((s, node'), v)" "lists s es" "node_for v node' nr" "dn_id node' = dn_id node"
    using dir_entries_for [OF assms] .
  obtain b cs where sl: "s = skel_list b cs" "map svn_fs__copy_skel cs = map entry_skel es" using listsE [OF s(2)] by metis
  let ?i = "length (takeWhile (\<lambda>e. fst e \<noteq> name) es)"
  have f: "find_dir_entry s name = Ok (if name \<in> fst ` set es then Some ?i else None)"
    using find_entry_loop_es [OF sl(2), of name 0] by (simp add: find_dir_entry_def sl(1))
  have none: "map_of es name = None \<longleftrightarrow> name \<notin> fst ` set es" by (rule map_of_eq_None_iff)
  let ?e = "if name \<in> fst ` set es then Some (skel_children s ! ?i) else None"
  show thesis
  proof (rule that [of ?e node'])
    show "dir_entry_from_node ref_db node name v = Ok ((?e, node'), v)"
      using s(1) f by (simp add: dir_entry_from_node_def tbind_def tlift_def tret_def)
    fix x i assume x: "?e = Some x" and i: "map_of es name = Some i"
    have mem: "name \<in> fst ` set es" using x by (auto split: if_splits)
    note p = dirent_pos [OF mem]
    have ok: "entries_ok es" using assms(3) by (simp add: dir_is_def)
    have "(name, snd (es ! ?i)) \<in> set es" using p nth_mem [OF p(1)] by (metis prod.collapse)
    then have "map_of es name = Some (snd (es ! ?i))" using ok by (simp add: entries_ok_def)
    moreover have "key_ok (snd (es ! ?i))" using ok nth_mem [OF p(1)] by (auto simp: entries_ok_def)
    ultimately show "entry_id x = Ok (Some i)" using entry_id_lists [OF s(2) p(1)] x i mem by simp
  qed (use s(3,4) none in auto)
qed

lemma dag_open_for:
  assumes "keys_inv v" and "node_for v node nr" and "dir_is v nr es" and "map_of es name = Some i" and "key_ok i"
    and "node_of v i = Some nr'" and "svn_fs__is_single_path_component name"
  obtains child node' where "svn_fs__dag_open ref_db node name v = Ok ((child, node'), v)" and "node_for v child nr'" and "dn_id child = i"
    and "node_for v node' nr" and "dn_id node' = dn_id node"
proof -
  obtain e node' where e: "dir_entry_from_node ref_db node name v = Ok ((e, node'), v)" "node_for v node' nr" "dn_id node' = dn_id node"
      "e = None \<longleftrightarrow> map_of es name = None" "\<And>x i. e = Some x \<Longrightarrow> map_of es name = Some i \<Longrightarrow> entry_id x = Ok (Some i)"
    using dir_entry_for [OF assms(1-3), of name] by metis
  obtain x where x: "e = Some x" using e(4) assms(4) by (cases e) auto
  obtain child where c: "svn_fs__dag_get_node ref_db i v = Ok (child, v)" "node_for v child nr'" "dn_id child = i"
    using dag_get_node_for [OF assms(5,6)] .
  show thesis using that [of child node'] e(1-3) x e(5) [OF x assms(4)] c assms(7)
    by (simp add: svn_fs__dag_open_def tbind_def tlift_def tret_def dag_get_node_opt_def)
qed

section \<open>Properties\<close>

text \<open>
  C7. On every database that works as documented, setting an entry of a mutable directory changes the
  map from names to ids that is read from the directory at that name, and nowhere else; every other node
  revision is as before, and so is every full text that is not the one of the directory's own mutable
  representation.  In an immutable directory the same call fails with \<open>SVN_ERR_FS_NOT_DIRECTORY\<close>.
\<close>

theorem set_entry_map:
  assumes "bdb_laws db view" and "keys_inv (view s)" and "keys_room (view s)" and "node_for (view s) node nr" and "nr_fits nr"
    and "dir_is (view s) nr es" and "key_ok nid" and "NUL \<notin> set name" and "length (skel_text (dir_skel (set_dirent name nid es))) < 2 ^ 32"
  shows "if nr_rev nr \<noteq> [] then svn_fs__dag_set_entry db node name nid s = Err SVN_ERR_FS_NOT_DIRECTORY
    else \<exists>t0 n0 node' s' t n1.
      trail_result (svn_fs__dag_dir_entries_hash db node) s = Ok (t0, n0) \<and>
      svn_fs__dag_set_entry db node name nid s = Ok (node', s') \<and>
      trail_result (svn_fs__dag_dir_entries_hash db node') s' = Ok (t, n1) \<and>
      dirent_map t = (dirent_map t0)(name \<mapsto> nid) \<and> keys_inv (view s') \<and>
      (\<forall>i. key_ok i \<and> i \<noteq> dn_id node \<longrightarrow> node_of (view s') i = node_of (view s) i) \<and> texts_apart (view s) (nr_data nr) (view s')"
proof -
  note d = dir_is_directory [OF assms(4,6)]
  obtain node0 where m: "svn_fs__dag_check_mutable ref_db node (view s) = Ok ((nr_rev nr = [], node0), view s)" "node_for (view s) node0 nr"
      "dn_id node0 = dn_id node"
    using check_mutable_for [OF assms(4)] .
  have step: "svn_fs__dag_set_entry ref_db node name nid (view s) =
      (if nr_rev nr = [] then set_entry ref_db node0 name nid (view s) else Err SVN_ERR_FS_NOT_DIRECTORY)"
    using m(1) d by (simp add: svn_fs__dag_set_entry_def tbind_def tfail_def)
  show ?thesis
  proof (cases "nr_rev nr = []")
    case False
    then show ?thesis using refines_Err [OF refines_dag_set_entry [OF assms(1)]] step by simp
  next
    case True
    obtain node' v' where e: "set_entry ref_db node0 name nid (view s) = Ok (node', v')" "dir_changed (view s) node0 nr (set_dirent name nid es) node' v'"
      using set_entry_for [OF assms(2,3) m(2) assms(5-9)] .
    obtain s' where s': "svn_fs__dag_set_entry db node name nid s = Ok (node', s')" "view s' = v'"
      using refines_Ok [OF refines_dag_set_entry [OF assms(1)], of node name nid s] step e(1) True by auto
    obtain t0 n0 where t0: "trail_result (svn_fs__dag_dir_entries_hash db node) s = Ok (t0, n0)" "dirent_map t0 = map_of es"
      using dir_hash_result [OF assms(1,2,4,6)] by blast
    obtain k where k: "node_for v' node' (nr\<lparr>nr_data := k\<rparr>)" "dir_is v' (nr\<lparr>nr_data := k\<rparr>) (set_dirent name nid es)" "keys_inv v'"
      using e(2) by (auto simp: dir_changed_def)
    obtain t n1 where t: "trail_result (svn_fs__dag_dir_entries_hash db node') s' = Ok (t, n1)" "dirent_map t = map_of (set_dirent name nid es)"
      using dir_hash_result [OF assms(1), of s'] k unfolding s'(2) by metis
    show ?thesis using True s' t0 t k(3) e(2) m(3) map_of_set_dirent by (simp add: dir_changed_def)
  qed
qed


text \<open>A filesystem with a mutable directory, next to the full text of \<open>one_text\<close>.\<close>

definition empty_dir :: node_rev_t where
  "empty_dir = \<lparr>nr_kind = ''dir'', nr_rev = [], nr_opts = [], nr_prop = [], nr_data = [], nr_edit = None\<rparr>"

definition one_dir :: fs_tables where
  "one_dir = nr_put [0, 1] empty_dir one_text"

lemma empty_dir: "nr_valid empty_dir" "nr_small empty_dir" "nr_fits empty_dir" "kind_of empty_dir = svn_node_dir"
proof -
  have "skel_text (nr_skel empty_dir) = ''((dir 0 ) 0  0 )''" by code_simp
  then show "nr_small empty_dir" "nr_fits empty_dir" by (simp_all add: nr_small_def nr_fits_def)
qed (simp_all add: empty_dir_def nr_valid_def kind_of_def)

lemma small_ids: "key_ok [0, 1]" "key_ok [0, 0]" "node_id [0, 1]"
  by (simp_all add: key_ok_def node_id_def)

lemma one_dir:
  "keys_inv one_dir" "keys_room one_dir" "node_of one_dir [0, 1] = Some empty_dir" "dir_is one_dir empty_dir []"
  "node_for one_dir (new_dag_node [0, 1] svn_node_dir) empty_dir"
proof -
  show k: "keys_inv one_dir" "keys_room one_dir" using one_text by (simp_all add: one_dir_def keys_inv_def keys_room_def)
  show n: "node_of one_dir [0, 1] = Some empty_dir" using node_of_put [OF small_ids(1,1) empty_dir(1,2)] by (simp add: one_dir_def)
  show "dir_is one_dir empty_dir []" by (simp add: dir_is_def empty_dir_def entries_ok_def rep_key_ok_def)
  show "node_for one_dir (new_dag_node [0, 1] svn_node_dir) empty_dir"
    using n small_ids(1) empty_dir(4) by (simp add: node_for_def new_dag_node_def)
qed

theorem set_entry_map_witness:
  "\<exists>node' s' t n1. svn_fs__dag_set_entry ref_db (new_dag_node [0, 1] svn_node_dir) ''a'' [0, 0] one_dir = Ok (node', s') \<and>
     trail_result (svn_fs__dag_dir_entries_hash ref_db node') s' = Ok (t, n1) \<and> dirent_map t ''a'' = Some [0, 0]"
proof -
  have "skel_text (dir_skel (set_dirent ''a'' [0, 0] [])) = ''((a 3 0.0))''" by code_simp
  then have len: "length (skel_text (dir_skel (set_dirent ''a'' [0, 0] []))) < 2 ^ 32" by simp
  have v: "keys_inv (id one_dir)" "keys_room (id one_dir)" "node_for (id one_dir) (new_dag_node [0, 1] svn_node_dir) empty_dir"
      "dir_is (id one_dir) empty_dir []" using one_dir by simp_all
  have "nr_rev empty_dir = []" by (simp add: empty_dir_def)
  with set_entry_map [of ref_db id one_dir, OF bdb_laws_ref v(1-3) empty_dir(3) v(4) small_ids(2), of "''a''", OF _ len] show ?thesis
    by auto
qed

section \<open>Creating entries\<close>

lemma dir_text_new:
  assumes "key_ok nid" and "length name < 2 ^ 32"
  shows "length (skel_text (dir_skel ((name, nid) # es))) \<le> length (skel_text (dir_skel es)) + length name + length (id_text nid) + 60"
proof -
  have "length (skel_text (skel_atom name)) \<le> length name + 21" using assms(2) by (rule atom_text_length)
  moreover have "length (skel_text (skel_atom (id_text nid))) \<le> length (id_text nid) + 21"
    using key_ok_length [OF assms(1)] by (intro atom_text_length) simp
  ultimately show ?thesis by (cases es) (auto simp: dir_skel_def entry_skel_def simp del: skel_text.simps(1) id_text.simps)
qed

definition new_nr :: "bool \<Rightarrow> node_rev_t" where
  "new_nr is_dir = \<lparr>nr_kind = (if is_dir then ''dir'' else ''file''), nr_rev = [], nr_opts = [], nr_prop = [], nr_data = [], nr_edit = None\<rparr>"

lemma new_node_rev: "new_node_rev is_dir = Ok (nr_skel (new_nr is_dir))"
  by (simp add: new_node_rev_def new_nr_def nr_skel_def svn_fs__str_atom_def svn_fs__make_empty_list_def)

lemma new_nr: "nr_valid (new_nr is_dir)" "nr_small (new_nr is_dir)" "nr_fits (new_nr is_dir)" "says (nr_skel (new_nr is_dir)) (new_nr is_dir)"
proof -
  have "skel_text (nr_skel (new_nr True)) = ''((dir 0 ) 0  0 )''" "skel_text (nr_skel (new_nr False)) = ''((file 0 ) 0  0 )''" by code_simp+
  then have "length (skel_text (nr_skel (new_nr is_dir))) \<le> 17" by (cases is_dir) simp_all
  then show "nr_small (new_nr is_dir)" "nr_fits (new_nr is_dir)" by (simp_all add: nr_small_def nr_fits_def)
qed (simp_all add: new_nr_def nr_valid_def nr_skel_def)

lemma nodes_inv_same: "same_nodes v v' \<Longrightarrow> nodes_inv v' = nodes_inv v \<and> node_ids v' = node_ids v"
  by (simp add: same_nodes_def nodes_inv_def node_ids_def table_keys_def)

lemma node_of_in_ids: "nodes_inv v \<Longrightarrow> key_ok nid \<Longrightarrow> node_of v nid \<noteq> None \<Longrightarrow> nid \<in> set (node_ids v)"
proof -
  assume inv: "nodes_inv v" and k: "key_ok nid" and n: "node_of v nid \<noteq> None"
  have "fmlookup (ft_tab v Nodes) (id_text nid) \<noteq> None" using n by (auto simp: node_of_def node_rec_def split: option.splits)
  then have "id_text nid \<in> set (table_keys Nodes v)" by (simp add: set_table_keys fmlookup_dom_iff)
  then show ?thesis using key_ok_text(3) [OF k] by (force simp: node_ids_def)
qed

lemma create_node_for:
  assumes "nodes_inv v" and "node_ids v \<noteq> []" and "\<forall>i \<in> set (node_ids v). hd i < 99999999" and "nr_valid nr" and "nr_small nr" and "says s nr"
  obtains nid where "svn_fs__create_node ref_db s v = Ok (nid, nr_put nid nr v)" and "key_ok nid" and "node_id nid"
    and "node_of v nid = None" and "length (id_text nid) \<le> 20"
proof -
  obtain n where n: "svn_fs__new_node_id ref_db v = Ok ([n + 1, 1], v)" "\<exists>i \<in> set (node_ids v). hd i = n" "\<forall>i \<in> set (node_ids v). hd i \<le> n"
    using new_node_id_ref [OF assms(1,2)] by metis
  obtain i where i: "i \<in> set (node_ids v)" "hd i = n" using n(2) by blast
  have "node_id i" using assms(1) i(1) by (auto simp: nodes_inv_def node_ids_def)
  then have "0 \<le> n" using i(2) by (cases i) (auto simp: node_id_def)
  then have ok: "node_id [n + 1, 1]" using assms(3) i by (auto simp: node_id_def)
  note k = node_id_key_ok [OF ok]
  have fresh: "node_of v [n + 1, 1] = None" using node_of_in_ids [OF assms(1) k] n(3) by force
  have len: "length (id_text [n + 1, 1]) \<le> 20" using id_text_short [of "[n + 1, 1]"] k by (auto simp: key_ok_def)
  have "svn_fs__create_node ref_db s v = Ok ([n + 1, 1], nr_put [n + 1, 1] nr v)"
    using n(1) put_node_revision_nr [OF k assms(6,4,5), of v] by (simp add: svn_fs__create_node_def tbind_def tret_def)
  with that k ok fresh len show thesis by blast
qed


lemma nr_put_dir:
  assumes "key_ok nid" and "nr_valid nr" and "nr_small nr" and "nid \<noteq> dn_id node" and "node_for v node nr'"
  shows "node_for (nr_put nid nr v) node nr'"
  using assms(5) node_of_put [OF assms(1) _ assms(2,3), of "dn_id node" v] assms(4) by (auto simp: node_for_def)

lemma dir_is_put [simp]: "dir_is (nr_put nid nr v) nr' es = dir_is v nr' es"
  by (simp add: dir_is_def rep_key_ok_def)

lemma texts_apart_put [simp]: "texts_apart (nr_put nid nr v) k v' = texts_apart v k v'"
  by (simp add: texts_apart_def own_string_def)

text \<open>The guards of \<open>make_entry\<close>, up to the creation of the node.\<close>

definition make_new :: "'d bdb \<Rightarrow> dag_node_t \<Rightarrow> bytes \<Rightarrow> bool \<Rightarrow> ('d, dag_node_t \<times> dag_node_t) trail" where
  "make_new db parent name is_dir =
     tbind (tlift (new_node_rev is_dir)) (\<lambda>new_node_skel.
     tbind (svn_fs__create_node db new_node_skel) (\<lambda>new_node_id.
     tbind (svn_fs__dag_get_node db new_node_id) (\<lambda>child.
     tbind (set_entry db parent name (svn_fs__dag_get_id child)) (\<lambda>parent. tret (child, parent)))))"

lemma make_entry_guards:
  assumes "keys_inv v" and "node_for v node nr" and "dir_is v nr es"
  obtains node' where "node_for v node' nr" and "dn_id node' = dn_id node"
    and "make_entry ref_db node name is_dir v =
      (if \<not> svn_fs__is_single_path_component name then Err SVN_ERR_FS_NOT_SINGLE_PATH_COMPONENT
       else if nr_rev nr \<noteq> [] then Err SVN_ERR_FS_NOT_MUTABLE
       else if map_of es name \<noteq> None then Err SVN_ERR_FS_ALREADY_EXISTS
       else make_new ref_db node' name is_dir v)"
proof -
  obtain n0 where m: "svn_fs__dag_check_mutable ref_db node v = Ok ((nr_rev nr = [], n0), v)" "node_for v n0 nr" "dn_id n0 = dn_id node"
    using check_mutable_for [OF assms(2)] .
  obtain e n1 where e: "dir_entry_from_node ref_db n0 name v = Ok ((e, n1), v)" "node_for v n1 nr" "dn_id n1 = dn_id n0"
      "e = None \<longleftrightarrow> map_of es name = None"
    using dir_entry_for [OF assms(1) m(2) assms(3), of name] by metis
  have "make_entry ref_db node name is_dir v =
      (if \<not> svn_fs__is_single_path_component name then Err SVN_ERR_FS_NOT_SINGLE_PATH_COMPONENT
       else if nr_rev nr \<noteq> [] then Err SVN_ERR_FS_NOT_MUTABLE
       else if map_of es name \<noteq> None then Err SVN_ERR_FS_ALREADY_EXISTS
       else make_new ref_db n1 name is_dir v)"
    using m(1) e(1,4) dir_is_directory [OF assms(2,3)]
    by (cases "svn_fs__is_single_path_component name"; cases "nr_rev nr = []"; cases e)
      (simp_all add: make_entry_def make_new_def tbind_def tfail_def)
  then show thesis using that [of n1] m e by simp
qed

lemma make_new_for:
  assumes "keys_inv v" and "keys_room v" and "nodes_inv v" and "\<forall>i \<in> set (node_ids v). hd i < 99999999"
    and "node_for v node nr" and "nr_fits nr" and "dir_is v nr es" and "map_of es name = None" and "NUL \<notin> set name"
    and "length (skel_text (dir_skel es)) + length name < 2 ^ 31"
  obtains child node' v' where "make_new ref_db node name is_dir v = Ok ((child, node'), v')"
    and "node_of v (dn_id child) = None" and "node_for v' child (new_nr is_dir)" and "dn_id child \<noteq> dn_id node"
    and "keys_inv v'" and "dn_id node' = dn_id node"
    and "\<exists>k. node_for v' node' (nr\<lparr>nr_data := k\<rparr>) \<and> dir_is v' (nr\<lparr>nr_data := k\<rparr>) ((name, dn_id child) # es)"
    and "\<forall>i. key_ok i \<and> i \<noteq> dn_id node \<and> i \<noteq> dn_id child \<longrightarrow> node_of v' i = node_of v i" and "texts_apart v (nr_data nr) v'"
proof -
  let ?nr = "new_nr is_dir"
  have id: "key_ok (dn_id node)" "node_of v (dn_id node) = Some nr" using assms(5) by (auto simp: node_for_def)
  have ne: "node_ids v \<noteq> []" using node_of_in_ids [OF assms(3) id(1)] id(2) by auto
  obtain nid where c: "svn_fs__create_node ref_db (nr_skel ?nr) v = Ok (nid, nr_put nid ?nr v)" "key_ok nid" "node_id nid"
      "node_of v nid = None" "length (id_text nid) \<le> 20"
    using create_node_for [OF assms(3) ne assms(4) new_nr(1,2,4)] .
  let ?v = "nr_put nid ?nr v"
  have neq: "nid \<noteq> dn_id node" using c(4) id(2) by auto
  have "node_of ?v nid = Some ?nr" using node_of_put [OF c(2,2) new_nr(1,2)] by simp
  then obtain child where ch: "svn_fs__dag_get_node ref_db nid ?v = Ok (child, ?v)" "node_for ?v child ?nr" "dn_id child = nid"
    using dag_get_node_for [OF c(2)] by blast
  have es: "set_dirent name nid es = (name, nid) # es" using assms(8) by (simp add: set_dirent_def map_of_eq_None_iff)
  have len: "length (skel_text (dir_skel (set_dirent name nid es))) < 2 ^ 32"
    using dir_text_new [OF c(2), of name es] c(5) assms(10) by (simp add: es del: skel_text.simps id_text.simps)
  obtain node' v' where se: "set_entry ref_db node name nid ?v = Ok (node', v')" "dir_changed ?v node nr (set_dirent name nid es) node' v'"
    using set_entry_for [of ?v, OF _ _ nr_put_dir [OF c(2) new_nr(1,2) neq assms(5)] assms(6) _ c(2) assms(9) len] assms(1,2,7)
    by (auto simp: keys_inv_def keys_room_def)
  have fr: "key_ok i \<and> i \<noteq> dn_id node \<longrightarrow> node_of v' i = node_of ?v i" for i using se(2) by (simp add: dir_changed_def)
  have "node_for v' child ?nr" using ch(2,3) fr [of nid] c(2) neq by (auto simp: node_for_def)
  moreover have "make_new ref_db node name is_dir v = Ok ((child, node'), v')"
    using c(1) ch(1,3) se(1) by (simp add: make_new_def new_node_rev tbind_def tlift_def tret_def svn_fs__dag_get_id_def)
  moreover have "node_of v' i = node_of v i" if "key_ok i" "i \<noteq> dn_id node" "i \<noteq> nid" for i
    using fr [of i] node_of_put [OF c(2) that(1) new_nr(1,2), where v = v] that by simp
  ultimately show thesis using that [of child node' v'] c(4) ch(3) neq se(2) by (simp add: dir_changed_def es)
qed

text \<open>
  C8. On every database that works as documented, making a file or a directory: a name that is not a single path component,
  an immutable parent and a name that exists are errors, in this order (an empty name, \<open>.\<close> and \<open>..\<close> are refused with
  \<open>SVN_ERR_FS_NOT_SINGLE_PATH_COMPONENT\<close>, where \<open>svn_fs.h\<close> says \<open>SVN_ERR_FS_PATH_SYNTAX\<close>); otherwise the new node has an id
  that was not in use, it is empty and mutable and of the kind asked for, opening the name in the parent
  gives it, the map of the parent changes at the name only, and every other node revision is as before.
\<close>

theorem make_entry_spec:
  assumes "bdb_laws db view" and "keys_inv (view s)" and "keys_room (view s)" and "nodes_inv (view s)"
    and "\<forall>i \<in> set (node_ids (view s)). hd i < 99999999" and "node_for (view s) node nr" and "nr_fits nr"
    and "dir_is (view s) nr es" and "NUL \<notin> set name" and "length (skel_text (dir_skel es)) + length name < 2 ^ 31"
  shows "if \<not> svn_fs__is_single_path_component name then make_entry db node name is_dir s = Err SVN_ERR_FS_NOT_SINGLE_PATH_COMPONENT
    else if nr_rev nr \<noteq> [] then make_entry db node name is_dir s = Err SVN_ERR_FS_NOT_MUTABLE
    else if map_of es name \<noteq> None then make_entry db node name is_dir s = Err SVN_ERR_FS_ALREADY_EXISTS
    else \<exists>child node' s' t n1 child' n2. make_entry db node name is_dir s = Ok ((child, node'), s') \<and>
      node_of (view s) (dn_id child) = None \<and> node_of (view s') (dn_id child) = Some (new_nr is_dir) \<and>
      trail_result (svn_fs__dag_open db node' name) s' = Ok (child', n1) \<and> dn_id child' = dn_id child \<and> dn_kind child' = dn_kind child \<and>
      trail_result (svn_fs__dag_dir_entries_hash db node') s' = Ok (t, n2) \<and> dirent_map t = (map_of es)(name \<mapsto> dn_id child) \<and>
      (\<forall>i. key_ok i \<and> i \<noteq> dn_id node \<and> i \<noteq> dn_id child \<longrightarrow> node_of (view s') i = node_of (view s) i) \<and>
      texts_apart (view s) (nr_data nr) (view s')"
proof -
  let ?v = "view s"
  obtain n0 where g: "node_for ?v n0 nr" "dn_id n0 = dn_id node"
    "make_entry ref_db node name is_dir ?v =
      (if \<not> svn_fs__is_single_path_component name then Err SVN_ERR_FS_NOT_SINGLE_PATH_COMPONENT
       else if nr_rev nr \<noteq> [] then Err SVN_ERR_FS_NOT_MUTABLE
       else if map_of es name \<noteq> None then Err SVN_ERR_FS_ALREADY_EXISTS
       else make_new ref_db n0 name is_dir ?v)"
    using make_entry_guards [OF assms(2,6,8)] .
  note err = refines_Err [OF refines_make_entry [OF assms(1)], of node name is_dir s]
  show ?thesis
  proof (cases "svn_fs__is_single_path_component name \<and> nr_rev nr = [] \<and> map_of es name = None")
    case True
    obtain child node' v' where n: "make_new ref_db n0 name is_dir ?v = Ok ((child, node'), v')"
      "node_of ?v (dn_id child) = None" "node_for v' child (new_nr is_dir)" "dn_id child \<noteq> dn_id n0"
      "keys_inv v'" "dn_id node' = dn_id n0"
      "\<exists>k. node_for v' node' (nr\<lparr>nr_data := k\<rparr>) \<and> dir_is v' (nr\<lparr>nr_data := k\<rparr>) ((name, dn_id child) # es)"
      "\<forall>i. key_ok i \<and> i \<noteq> dn_id n0 \<and> i \<noteq> dn_id child \<longrightarrow> node_of v' i = node_of ?v i" "texts_apart ?v (nr_data nr) v'"
      using make_new_for [OF assms(2-5) g(1) assms(7,8) _ assms(9,10)] True by blast
    obtain k where k: "node_for v' node' (nr\<lparr>nr_data := k\<rparr>)" "dir_is v' (nr\<lparr>nr_data := k\<rparr>) ((name, dn_id child) # es)" using n(7) by blast
    obtain s' where s': "make_entry db node name is_dir s = Ok ((child, node'), s')" "view s' = v'"
      using refines_Ok [OF refines_make_entry [OF assms(1)], of node name is_dir s] g(3) n(1) True by auto
    have ck: "key_ok (dn_id child)" "node_of v' (dn_id child) = Some (new_nr is_dir)" using n(3) by (auto simp: node_for_def)
    obtain child' n1 where o: "svn_fs__dag_open ref_db node' name v' = Ok ((child', n1), v')" "node_for v' child' (new_nr is_dir)" "dn_id child' = dn_id child"
      using dag_open_for [OF n(5) k _ ck] True by (metis map_of_Cons_code(2))
    have o': "trail_result (svn_fs__dag_open db node' name) s' = Ok (child', n1)" "dn_kind child' = dn_kind child"
      using refines_result [OF refines_dag_open [OF assms(1)], of node' name s'] o s'(2) n(3) by (simp_all add: trail_result_def node_for_def)
    obtain t n2 where t: "trail_result (svn_fs__dag_dir_entries_hash db node') s' = Ok (t, n2)" "dirent_map t = map_of ((name, dn_id child) # es)"
      using dir_hash_result [OF assms(1), of s'] k n(5) unfolding s'(2) by metis
    show ?thesis using True s' n(2,8,9) ck(2) o(3) o' t g(2) by simp
  qed (use g(3) err in auto)
qed

theorem make_entry_spec_witness:
  "\<exists>child node' s' t n2. make_entry ref_db (new_dag_node [0, 1] svn_node_dir) ''f'' False one_dir = Ok ((child, node'), s') \<and>
     node_of one_dir (dn_id child) = None \<and> node_of s' (dn_id child) = Some (new_nr False) \<and>
     trail_result (svn_fs__dag_dir_entries_hash ref_db node') s' = Ok (t, n2) \<and> dirent_map t ''f'' = Some (dn_id child)"
proof -
  have keys: "set (table_keys Nodes one_dir) = {id_text [0, 1]}"
    by (simp add: set_table_keys one_dir_def nr_put_def one_text_def new_tables_def del: id_text.simps)
  have ids: "nodes_inv (id one_dir)" "\<forall>i \<in> set (node_ids (id one_dir)). hd i < 99999999"
    using key_ok_text(3) [OF small_ids(1)] small_ids(3) by (simp_all add: nodes_inv_def node_ids_def keys del: id_text.simps)
  have v: "keys_inv (id one_dir)" "keys_room (id one_dir)" "node_for (id one_dir) (new_dag_node [0, 1] svn_node_dir) empty_dir"
      "dir_is (id one_dir) empty_dir []" using one_dir by simp_all
  have len: "length (skel_text (dir_skel [])) + length ''f'' < 2 ^ 31" by (simp add: dir_skel_def)
  have c: "svn_fs__is_single_path_component ''f''" "nr_rev empty_dir = []" by (simp_all add: svn_fs__is_single_path_component_def empty_dir_def)
  from make_entry_spec [of ref_db id one_dir, OF bdb_laws_ref v(1,2) ids v(3) empty_dir(3) v(4) _ len, of False] c
  obtain child node' s' t n2 where "make_entry ref_db (new_dag_node [0, 1] svn_node_dir) ''f'' False one_dir = Ok ((child, node'), s')"
    "node_of one_dir (dn_id child) = None" "node_of s' (dn_id child) = Some (new_nr False)"
    "trail_result (svn_fs__dag_dir_entries_hash ref_db node') s' = Ok (t, n2)" "dirent_map t = [''f'' \<mapsto> dn_id child]"
    by auto
  then show ?thesis by fastforce
qed

end
