(* ===== verification/Fs_Files.thy ===== *)
theory Fs_Files
  imports Fs_Setentry
begin

text \<open>
  The contents and the property lists of nodes: writing through an edit stream and reading back,
  storing and reading property lists.
\<close>

section \<open>Deleting mutable full texts\<close>

lemma reps_inv_del: "reps_inv v \<Longrightarrow> k \<noteq> svn_fs__next_key_key \<Longrightarrow> reps_inv (del_tab Representations k v)"
  by (auto simp: reps_inv_def next_rep_def rep_keys_def keys_below_def split: if_splits)

lemma delete_rep_if_mutable_for:
  assumes "keys_inv v" and "ft_wf v k" and "ft_rep v k = Some (m, sk)"
  defines "v' \<equiv> if m then del_tab Representations k (set_str sk [] v) else v"
  shows "svn_fs__delete_rep_if_mutable ref_db k v = Ok ((), v')" and "keys_inv v'" and "same_nodes v v'"
    and "\<And>q sk'. ft_rep v q = Some (m', sk') \<Longrightarrow> ft_wf v q \<Longrightarrow> q \<noteq> k \<Longrightarrow> sk' \<noteq> sk \<Longrightarrow> ft_wf v' q \<and> ft_text v' q = ft_text v q"
    and "next_str v' = next_str v" and "next_rep v' = next_rep v"
proof -
  have w: "valid_key sk" "length sk < 2 ^ 32" "length k < 2 ^ 32" "str_recs sk v \<noteq> []" "k \<noteq> svn_fs__next_key_key" "sk \<noteq> svn_fs__next_key_key"
    using assms(2,3) next_key_key_invalid by (auto simp: ft_wf_def)
  have ex: "rep_rec k v \<noteq> None" using assms(3) by (auto simp: ft_rep_def split: option.splits)
  obtain skel where skel: "svn_fs__read_rep ref_db k v = Ok (Some skel, v)" "fulltext_of skel = Some (m, sk)"
    using ft_rep_read [OF assms(3) w(3)] .
  show "svn_fs__delete_rep_if_mutable ref_db k v = Ok ((), v')"
    using skel(1) fulltext_tests [OF skel(2)] valid_key_cstring [OF w(1)] string_delete_ref [OF w(2), of v] w(4) ex delete_rep_ref [OF w(3)]
    by (auto simp: svn_fs__delete_rep_if_mutable_def tbind_def tlift_def tret_def v'_def)
  have "strings_inv (set_str sk [] v)" using assms(1) w(6) by (intro strings_inv_set) (simp_all add: keys_inv_def short_recs_def)
  then have "strings_inv v'" using assms(1) by (simp add: v'_def keys_inv_def strings_inv_def next_str_def str_keys_def)
  then show "keys_inv v'" using assms(1) w(5) reps_inv_del [of "set_str sk [] v" k] by (simp add: keys_inv_def v'_def)
  show "same_nodes v v'" by (simp add: v'_def same_nodes_def)
  show "next_str v' = next_str v" "next_rep v' = next_rep v" using w(5,6) by (simp_all add: v'_def next_str_def next_rep_def)
  fix q sk' assume "ft_rep v q = Some (m', sk')" "ft_wf v q" "q \<noteq> k" "sk' \<noteq> sk"
  then show "ft_wf v' q \<and> ft_text v' q = ft_text v q"
    by (simp add: v'_def ft_wf_def ft_text_def ft_rep_def str_val_def)
qed

section \<open>Edit streams\<close>

lemma file_node: "node_for v node nr \<Longrightarrow> nr_kind nr = ''file'' \<Longrightarrow> svn_fs__dag_is_file node"
  by (simp add: node_for_def kind_of_def svn_fs__dag_is_file_def)

lemma edit_start:
  assumes "node_for v node nr" and "nr_kind nr = ''file''" and "nr_rev nr = []"
  obtains c node' where "says c nr" and "node_for v node' nr" and "dn_id node' = dn_id node"
    and "svn_fs__dag_get_edit_stream ref_db node v =
      tbind (case nr_edit nr of None \<Rightarrow> tret () | Some k \<Rightarrow> svn_fs__delete_rep_if_mutable ref_db (apr_pstrndup k)) (\<lambda>_.
      tbind (svn_fs__get_mutable_rep ref_db None) (\<lambda>k.
      tbind (tlift (svn_fs__append (svn_fs__str_atom k) c)) (\<lambda>node_rev.
      tbind (svn_fs__put_node_revision ref_db (dn_id node') node_rev) (\<lambda>_.
        tret (k, node'\<lparr>dn_node_revision := Some node_rev\<rparr>))))) v"
proof -
  obtain n0 where m: "svn_fs__dag_check_mutable ref_db node v = Ok ((True, n0), v)" "node_for v n0 nr" "dn_id n0 = dn_id node"
    using check_mutable_for [OF assms(1)] assms(3) by metis
  obtain c n1 where c: "get_node_revision ref_db n0 v = Ok ((c, n1), v)" "says c nr" "node_for v n1 nr" "dn_id n1 = dn_id n0"
    using get_node_revision_for [OF m(2)] by metis
  show thesis using that [OF c(2,3)] c(1,4) m(1,3) file_node [OF assms(1,2)] says_parts(5) [OF c(2)]
    by (cases "nr_edit nr") (simp_all add: svn_fs__dag_get_edit_stream_def tbind_def tlift_def tret_def key_string_def)
qed

lemma get_edit_stream_for:
  assumes "keys_inv v" and "keys_room v" and "node_for v node nr" and "nr_kind nr = ''file''" and "nr_rev nr = []"
    and "nr_edit nr = None" and "nr_fits nr"
  obtains node' v' where "svn_fs__dag_get_edit_stream ref_db node v = Ok ((next_rep v, node'), v')" and "keys_inv v'"
    and "node_for v' node' (nr\<lparr>nr_edit := Some (next_rep v)\<rparr>)" and "dn_id node' = dn_id node"
    and "ft_wf v' (next_rep v)" and "ft_rep v' (next_rep v) = Some (True, next_str v)" and "ft_text v' (next_rep v) = []"
    and "texts_kept v v'" and "\<And>i. key_ok i \<Longrightarrow> i \<noteq> dn_id node \<Longrightarrow> node_of v' i = node_of v i"
proof -
  let ?k = "next_rep v" and ?nr = "nr\<lparr>nr_edit := Some (next_rep v)\<rparr>"
  obtain c n1 where c: "says c nr" "node_for v n1 nr" "dn_id n1 = dn_id node" "svn_fs__dag_get_edit_stream ref_db node v =
      tbind (case nr_edit nr of None \<Rightarrow> tret () | Some k \<Rightarrow> svn_fs__delete_rep_if_mutable ref_db (apr_pstrndup k)) (\<lambda>_.
      tbind (svn_fs__get_mutable_rep ref_db None) (\<lambda>k.
      tbind (tlift (svn_fs__append (svn_fs__str_atom k) c)) (\<lambda>node_rev.
      tbind (svn_fs__put_node_revision ref_db (dn_id n1) node_rev) (\<lambda>_.
        tret (k, n1\<lparr>dn_node_revision := Some node_rev\<rparr>))))) v"
    using edit_start [OF assms(3-5)] .
  obtain v1 where g: "svn_fs__get_mutable_rep ref_db None v = Ok (?k, v1)" "keys_inv v1" "same_nodes v v1" "ft_wf v1 ?k"
      "ft_rep v1 ?k = Some (True, next_str v)" "ft_text v1 ?k = []" "texts_kept v v1"
    using new_mutable_rep [OF assms(1,2), of None] by auto
  obtain c' where a: "svn_fs__append (svn_fs__str_atom ?k) c = Ok c'" "says c' ?nr" using says_append [OF c(1) assms(6)] by blast
  have id: "key_ok (dn_id node)" using assms(3) by (simp add: node_for_def)
  have valid: "nr_valid ?nr" using node_for_valid [OF assms(3)] assms(4,5) by (simp add: nr_valid_def)
  have "length ?k < 200" using next_keys(3) [OF assms(1,2)] by simp
  note small = nr_fits_small(3) [OF assms(7) this]
  let ?v = "nr_put (dn_id node) ?nr v1"
  have p: "svn_fs__put_node_revision ref_db (dn_id node) c' v1 = Ok ((), ?v)" by (rule put_node_revision_nr [OF id a(2) valid small])
  note no = node_of_put [OF id _ valid small, of _ v1]
  have "svn_fs__dag_get_edit_stream ref_db node v = Ok ((?k, n1\<lparr>dn_node_revision := Some c'\<rparr>), ?v)"
    unfolding c(4) using assms(6) g(1) a(1) p c(3) by (simp add: tbind_def tlift_def tret_def)
  then show thesis
    using that [of "n1\<lparr>dn_node_revision := Some c'\<rparr>" ?v] g(2,4-7) c(2,3) a(2) id no same_nodes_node_of [OF g(3)]
    by (simp add: keys_inv_def node_for_def texts_kept_def)
qed

text \<open>Finishing: the edited text replaces the contents, and a mutable old text is deleted.\<close>

lemma finalize_edits_for:
  assumes "keys_inv v" and "node_for v node nr" and "nr_kind nr = ''file''" and "nr_rev nr = []" and "nr_edit nr = Some k"
    and "nr_small (nr\<lparr>nr_data := k, nr_edit := None\<rparr>)" and "rep_key_ok v (nr_data nr)" and "ft_wf v k" and "ft_rep v k = Some (True, sk)"
    and "nr_data nr \<noteq> k" and "own_string v (nr_data nr) \<noteq> Some sk"
  obtains node' v' where "svn_fs__dag_finalize_edits ref_db node v = Ok (node', v')" and "keys_inv v'"
    and "node_for v' node' (nr\<lparr>nr_data := k, nr_edit := None\<rparr>)" and "dn_id node' = dn_id node" and "ft_wf v' k" and "ft_text v' k = ft_text v k"
    and "\<And>i. key_ok i \<Longrightarrow> i \<noteq> dn_id node \<Longrightarrow> node_of v' i = node_of v i"
proof -
  let ?nr = "nr\<lparr>nr_data := k, nr_edit := None\<rparr>" and ?o = "nr_data nr"
  obtain n0 where m: "svn_fs__dag_check_mutable ref_db node v = Ok ((True, n0), v)" "node_for v n0 nr" "dn_id n0 = dn_id node"
    using check_mutable_for [OF assms(2)] assms(4) by metis
  obtain c n1 where c: "get_node_revision ref_db n0 v = Ok ((c, n1), v)" "says c nr" "node_for v n1 nr" "dn_id n1 = dn_id n0"
    using get_node_revision_for [OF m(2)] by metis
  let ?c = "skel_list (skel_data c) (take 2 (skel_children c) @ drop 3 (skel_children c))"
  have says: "says ?c ?nr" by (rule saysE [OF c(2)]) (simp add: assms(5) nr_skel_def numeral_2_eq_2 numeral_3_eq_3)
  have valid: "nr_valid ?nr" using node_for_valid [OF assms(2)] assms(3) by (simp add: nr_valid_def)
  have id: "key_ok (dn_id node)" using assms(2) by (simp add: node_for_def)
  let ?v1 = "nr_put (dn_id node) ?nr v"
  have p: "svn_fs__put_node_revision ref_db (dn_id node) ?c v = Ok ((), ?v1)" by (rule put_node_revision_nr [OF id says valid assms(6)])
  have ks: "key_string (skel_atom ?o) = ?o" using assms(7) by (auto simp: key_string_def rep_key_ok_def pstrndup_id apr_pstrndup_def)
  have k1: "keys_inv ?v1" "ft_wf ?v1 k" "ft_rep ?v1 k = Some (True, sk)" using assms(1,8,9) by (simp_all add: keys_inv_def)
  obtain v2 where d: "(if ?o \<noteq> [] then svn_fs__delete_rep_if_mutable ref_db ?o else tret ()) ?v1 = Ok ((), v2)" "keys_inv v2"
      "same_nodes ?v1 v2" "ft_wf v2 k" "ft_text v2 k = ft_text v k"
  proof (cases "?o = []")
    case True
    then show thesis using that [of ?v1] k1 by (simp add: tret_def)
  next
    case False
    then have o: "ft_wf ?v1 ?o" using assms(7) by (simp add: rep_key_ok_def)
    obtain m' sk' where r: "ft_rep ?v1 ?o = Some (m', sk')" using ft_wfE [OF o] by metis
    note del = delete_rep_if_mutable_for [OF k1(1) o r]
    show thesis
    proof (cases m')
      case True
      have "sk' \<noteq> sk" using assms(11) r True False by (simp add: own_string_simps)
      then show thesis using that [OF _ del(2,3)] del(1) del(4) [OF k1(3,2)] assms(10) False by auto
    next
      case f: False
      then show thesis using that [of ?v1] del(1) k1 False by simp
    qed
  qed
  have e: "svn_fs__dag_finalize_edits ref_db node v = Ok (n1\<lparr>dn_node_revision := Some ?c\<rparr>, v2)"
    using m(1,3) c(1,4) file_node [OF assms(2,3)] says_parts(4,5) [OF c(2)] assms(5) ks p d(1)
    by (cases "?o = []") (simp_all add: svn_fs__dag_finalize_edits_def tbind_def tlift_def tret_def Let_def)
  have no: "node_of v2 i = (if i = dn_id node then Some ?nr else node_of v i)" if "key_ok i" for i
    using node_of_put [OF id that valid assms(6), of v] same_nodes_node_of [OF d(3)] by simp
  show thesis using that [OF e d(2) _ _ d(4,5)] no c(3,4) m(3) id says by (simp add: node_for_def kind_of_def)
qed


lemma file_contents_for:
  assumes "keys_inv v" and "node_for v node nr" and "nr_kind nr = ''file''" and "nr_data nr \<noteq> []" and "rep_key_ok v (nr_data nr)"
  shows "\<exists>node'. svn_fs__dag_get_contents ref_db node v = Ok ((\<lparr>rr_rep_key = Some (nr_data nr), rr_offset = 0\<rparr>, node'), v)"
    and "\<exists>node'. svn_fs__dag_file_length ref_db node v = Ok ((length (ft_text v (nr_data nr)), node'), v)"
proof -
  obtain c n1 where c: "get_node_revision ref_db node v = Ok ((c, n1), v)" "says c nr"
    using get_node_revision_for [OF assms(2)] by metis
  have ks: "key_string (skel_atom (nr_data nr)) = nr_data nr" and wf: "ft_wf v (nr_data nr)"
    using assms(4,5) by (auto simp: key_string_def rep_key_ok_def pstrndup_id)
  have three: "3 \<le> svn_fs__list_length (Some c)" by (rule saysE [OF c(2)]) simp
  show "\<exists>node'. svn_fs__dag_get_contents ref_db node v = Ok ((\<lparr>rr_rep_key = Some (nr_data nr), rr_offset = 0\<rparr>, node'), v)"
    using c(1) says_parts(4) [OF c(2)] file_node [OF assms(2,3)] ks assms(4)
    by (simp add: svn_fs__dag_get_contents_def tbind_def tlift_def tret_def)
  show "\<exists>node'. svn_fs__dag_file_length ref_db node v = Ok ((length (ft_text v (nr_data nr)), node'), v)"
    using c(1) says_parts(4) [OF c(2)] file_node [OF assms(2,3)] ks three rep_contents_size_ref [OF wf]
    by (simp add: svn_fs__dag_file_length_def tbind_def tlift_def tret_def)
qed

lemma own_string_kept:
  assumes "texts_kept v v'" and "rep_key_ok v k"
  shows "rep_key_ok v' k" and "own_string v' k = own_string v k" and "rep_text v' k = rep_text v k"
  using assms by (auto simp: texts_kept_def rep_key_ok_def own_string_def rep_text_def)

lemma next_rep_own:
  assumes "keys_inv v" and "keys_room v" and "rep_key_ok v k"
  shows "k \<noteq> next_rep v" and "own_string v k \<noteq> Some (next_str v)"
proof -
  have "next_rep v \<noteq> []" using next_keys(2) [OF assms(1,2)] by (auto simp: valid_key_def)
  then show "k \<noteq> next_rep v" using assms(3) next_keys(8) [OF assms(1,2), of k] by (auto simp: rep_key_ok_def)
  show "own_string v k \<noteq> Some (next_str v)"
    using assms(3) next_keys(7) [OF assms(1,2), of k True] by (auto simp: rep_key_ok_def own_string_simps)
qed

lemma own_string_set [simp]: "own_string (set_str sk rs v) k = own_string v k"
  by (simp add: own_string_def)

text \<open>Opening the stream, writing once, and finalizing.\<close>

lemma edit_for:
  assumes "keys_inv v" and "keys_room v" and "node_for v node nr" and "nr_kind nr = ''file''" and "nr_rev nr = []"
    and "nr_edit nr = None" and "nr_fits nr" and "rep_key_ok v (nr_data nr)" and "length data < 2 ^ 32"
  obtains n1 v1 v2 n2 v3 where "svn_fs__dag_get_edit_stream ref_db node v = Ok ((next_rep v, n1), v1)"
    and "rep_write ref_db (next_rep v) data v1 = Ok ((), v2)" and "svn_fs__dag_finalize_edits ref_db n1 v2 = Ok (n2, v3)"
    and "keys_inv v3" and "node_for v3 n2 (nr\<lparr>nr_data := next_rep v\<rparr>)" and "ft_wf v3 (next_rep v)" and "ft_text v3 (next_rep v) = data"
    and "\<forall>i. key_ok i \<and> i \<noteq> dn_id node \<longrightarrow> node_of v3 i = node_of v i"
proof -
  let ?k = "next_rep v" and ?sk = "next_str v"
  obtain n1 v1 where e: "svn_fs__dag_get_edit_stream ref_db node v = Ok ((?k, n1), v1)" "keys_inv v1"
      "node_for v1 n1 (nr\<lparr>nr_edit := Some ?k\<rparr>)" "dn_id n1 = dn_id node" "ft_wf v1 ?k" "ft_rep v1 ?k = Some (True, ?sk)"
      "ft_text v1 ?k = []" "texts_kept v v1" "\<And>i. key_ok i \<Longrightarrow> i \<noteq> dn_id node \<Longrightarrow> node_of v1 i = node_of v i"
    using get_edit_stream_for [OF assms(1-7)] by metis
  let ?v2 = "set_str ?sk (str_recs ?sk v1 @ [data]) v1"
  have wr: "rep_write ref_db ?k data v1 = Ok ((), ?v2)" by (rule rep_write_ref [OF e(5,6) assms(9)])
  have "strings_inv v1" using e(2) by (simp add: keys_inv_def)
  note w = rep_write_wf [OF e(5) this e(6), of data]
  have k2: "keys_inv ?v2" using w(3) e(2,7) assms(9) by (simp add: keys_inv_def)
  have n2: "node_for ?v2 n1 (nr\<lparr>nr_edit := Some ?k\<rparr>)" using e(3) by (simp add: node_for_def)
  note own = own_string_kept [OF e(8) assms(8)] and fresh = next_rep_own [OF assms(1,2,8)]
  have "ft_rep v1 (nr_data nr) \<noteq> Some (m, ?sk)" if "nr_data nr \<noteq> []" for m
    using that assms(8) e(8) next_keys(7) [OF assms(1,2), of "nr_data nr" m] by (auto simp: texts_kept_def rep_key_ok_def)
  then have rk: "rep_key_ok ?v2 (nr_data nr)"
    using own(1) kept_but_set [of ?sk v1 "str_recs ?sk v1 @ [data]"] unfolding rep_key_ok_def texts_kept_but_def
    by (metis ft_wfE)
  have eq: "nr\<lparr>nr_edit := Some ?k, nr_data := ?k, nr_edit := None\<rparr> = nr\<lparr>nr_data := ?k\<rparr>" using assms(6) by (cases nr) simp
  have "length ?k < 200" using next_keys(3) [OF assms(1,2)] by simp
  from nr_fits_small(1) [OF assms(7) this] have small: "nr_small (nr\<lparr>nr_edit := Some ?k, nr_data := ?k, nr_edit := None\<rparr>)"
    unfolding eq .
  have bound: "length (ft_text v1 ?k) + length data < 2 ^ 32" using e(7) assms(9) by simp
  let ?e = "nr\<lparr>nr_edit := Some ?k\<rparr>"
  have p: "nr_kind ?e = ''file''" "nr_rev ?e = []" "nr_edit ?e = Some ?k" "rep_key_ok ?v2 (nr_data ?e)"
    "ft_rep ?v2 ?k = Some (True, ?sk)" "nr_data ?e \<noteq> ?k" "own_string ?v2 (nr_data ?e) \<noteq> Some ?sk"
    using assms(4,5) rk own(2) e(6) fresh by simp_all
  obtain n2' v3 where f: "svn_fs__dag_finalize_edits ref_db n1 ?v2 = Ok (n2', v3)" "keys_inv v3"
      "node_for v3 n2' (nr\<lparr>nr_edit := Some ?k, nr_data := ?k, nr_edit := None\<rparr>)" "ft_wf v3 ?k" "ft_text v3 ?k = ft_text ?v2 ?k"
      "\<And>i. key_ok i \<Longrightarrow> i \<noteq> dn_id n1 \<Longrightarrow> node_of v3 i = node_of ?v2 i"
    using finalize_edits_for [OF k2 n2 p(1-3) small p(4) w(1) [OF bound] p(5-7)] by metis
  have n3: "node_for v3 n2' (nr\<lparr>nr_data := ?k\<rparr>)" using f(3) unfolding eq .
  show thesis using that [OF e(1) wr f(1,2) n3 f(4)] f(5,6) w(2) e(4,7,9) assms(9) by simp
qed

section \<open>Properties\<close>

text \<open>
  C12. On every database that works as documented, the contents that are written to a mutable file
  through an edit stream, once the edits are finalized, are what is read from the file from its
  beginning, and its length is their length; all other node revisions are as before.
\<close>

theorem edit_file_contents:
  assumes "bdb_laws db view" and "keys_inv (view s)" and "keys_room (view s)" and "node_for (view s) node nr"
    and "nr_kind nr = ''file''" and "nr_rev nr = []" and "nr_edit nr = None" and "nr_fits nr" and "rep_key_ok (view s) (nr_data nr)"
    and "length data < 2 ^ 32"
  shows "\<exists>k n1 s1 s2 n2 s3 n3 n4 rb. svn_fs__dag_get_edit_stream db node s = Ok ((k, n1), s1) \<and>
    rep_write db k data s1 = Ok ((), s2) \<and> svn_fs__dag_finalize_edits db n1 s2 = Ok (n2, s3) \<and>
    trail_result (svn_fs__dag_get_contents db n2) s3 = Ok (rb, n3) \<and>
    (\<forall>len < 2 ^ 32. map_svn_result fst (trail_result (txn_body_read_rep db rb len) s3) = Ok (take len data)) \<and>
    trail_result (svn_fs__dag_file_length db n2) s3 = Ok (length data, n4) \<and>
    (\<forall>i. key_ok i \<and> i \<noteq> dn_id node \<longrightarrow> node_of (view s3) i = node_of (view s) i)"
proof -
  let ?v = "view s" and ?k = "next_rep (view s)"
  let ?rb = "\<lparr>rr_rep_key = Some ?k, rr_offset = 0\<rparr>"
  obtain n1 v1 v2 n2 v3 where e: "svn_fs__dag_get_edit_stream ref_db node ?v = Ok ((?k, n1), v1)" "rep_write ref_db ?k data v1 = Ok ((), v2)"
      "svn_fs__dag_finalize_edits ref_db n1 v2 = Ok (n2, v3)" "keys_inv v3" "node_for v3 n2 (nr\<lparr>nr_data := ?k\<rparr>)" "ft_wf v3 ?k" "ft_text v3 ?k = data"
      "\<forall>i. key_ok i \<and> i \<noteq> dn_id node \<longrightarrow> node_of v3 i = node_of ?v i"
    using edit_for [OF assms(2-10)] .
  obtain s1 where s1: "svn_fs__dag_get_edit_stream db node s = Ok ((?k, n1), s1)" "view s1 = v1"
    using refines_Ok [OF refines_dag_file(3) [OF assms(1)] e(1)] by blast
  obtain s2 where s2: "rep_write db ?k data s1 = Ok ((), s2)" "view s2 = v2"
    using refines_Ok [OF refines_rep_write [OF assms(1)], of ?k data s1] e(2) s1(2) by blast
  obtain s3 where s3: "svn_fs__dag_finalize_edits db n1 s2 = Ok (n2, s3)" "view s3 = v3"
    using refines_Ok [OF refines_dag_file(4) [OF assms(1)], of n1 s2] e(3) s2(2) by blast
  have vk: "rep_key_ok v3 ?k" "?k \<noteq> []" using valid_key_NUL next_keys(2) [OF assms(2,3)] e(6) by (auto simp: valid_key_def rep_key_ok_def)
  obtain n3 n4 where c: "svn_fs__dag_get_contents ref_db n2 v3 = Ok ((?rb, n3), v3)" "svn_fs__dag_file_length ref_db n2 v3 = Ok ((length data, n4), v3)"
    using file_contents_for [OF e(4,5)] assms(5) vk e(7) by auto
  have "trail_result (svn_fs__dag_get_contents db n2) s3 = Ok (?rb, n3)" "trail_result (svn_fs__dag_file_length db n2) s3 = Ok (length data, n4)"
    using refines_result [OF refines_dag_file(1) [OF assms(1)], of n2 s3] refines_result [OF refines_dag_file(2) [OF assms(1)], of n2 s3] s3(2) c
    by (simp_all add: trail_result_def)
  moreover have "map_svn_result fst (trail_result (txn_body_read_rep db ?rb len) s3) = Ok (take len data)" if "len < 2 ^ 32" for len
    using refines_result [OF refines_read_rep_body [OF assms(1)], of ?rb len s3] s3(2) rep_read_range_ref [OF e(6) _ that, of 0] e(4,7)
    by (simp add: txn_body_read_rep_def trail_result_def keys_inv_def tbind_def tret_def)
  ultimately show ?thesis using s1(1) s2(1) s3 e(8) by blast
qed

text \<open>
  On every database that works as documented, asking for the length of a file that has never had
  contents fails: its representation key is empty, and no representation has that key.
\<close>

lemma empty_file_length:
  assumes "bdb_laws db view" and "keys_inv (view s)" and "node_for (view s) node nr" and "nr_kind nr = ''file''" and "nr_data nr = []"
  shows "svn_fs__dag_file_length db node s = Err SVN_ERR_FS_NO_SUCH_REPRESENTATION"
proof -
  obtain c n1 where c: "get_node_revision ref_db node (view s) = Ok ((c, n1), view s)" "says c nr"
    using get_node_revision_for [OF assms(3)] by metis
  have three: "3 \<le> svn_fs__list_length (Some c)" by (rule saysE [OF c(2)]) simp
  have "rep_rec [] (view s) = None"
    using assms(2) by (auto simp: keys_inv_def reps_inv_def keys_below_def rep_keys_def valid_key_def svn_fs__next_key_key_def)
  then have "svn_fs__rep_contents_size ref_db [] (view s) = Err SVN_ERR_FS_NO_SUCH_REPRESENTATION"
    using read_rep_ref [of "[]" "view s"] by (simp add: svn_fs__rep_contents_size_def tbind_def)
  then have "svn_fs__dag_file_length ref_db node (view s) = Err SVN_ERR_FS_NO_SUCH_REPRESENTATION"
    using c(1) says_parts(4) [OF c(2)] file_node [OF assms(3,4)] three assms(5)
    by (simp add: svn_fs__dag_file_length_def tbind_def tlift_def key_string_def apr_pstrndup_def)
  then show ?thesis by (rule refines_Err [OF refines_dag_file(2) [OF assms(1)]])
qed

text \<open>
  C40. On every database that works as documented, a second edit stream for a file whose edits are not
  finalized is refused as a corrupt node revision: the key of the new representation is added behind the
  key of the old one.
\<close>

theorem second_edit_stream:
  assumes "bdb_laws db view" and "keys_inv (view s)" and "keys_room (view s)" and "node_for (view s) node nr"
    and "nr_kind nr = ''file''" and "nr_rev nr = []" and "nr_edit nr = Some k" and "NUL \<notin> set k" and "ft_wf (view s) k"
  shows "svn_fs__dag_get_edit_stream db node s = Err SVN_ERR_FS_CORRUPT"
proof -
  let ?v = "view s"
  obtain c n1 where c: "says c nr" "node_for ?v n1 nr" "dn_id n1 = dn_id node" "svn_fs__dag_get_edit_stream ref_db node ?v =
      tbind (case nr_edit nr of None \<Rightarrow> tret () | Some k \<Rightarrow> svn_fs__delete_rep_if_mutable ref_db (apr_pstrndup k)) (\<lambda>_.
      tbind (svn_fs__get_mutable_rep ref_db None) (\<lambda>k.
      tbind (tlift (svn_fs__append (svn_fs__str_atom k) c)) (\<lambda>node_rev.
      tbind (svn_fs__put_node_revision ref_db (dn_id n1) node_rev) (\<lambda>_.
        tret (k, n1\<lparr>dn_node_revision := Some node_rev\<rparr>))))) ?v"
    using edit_start [OF assms(4-6)] .
  obtain m sk where r: "ft_rep ?v k = Some (m, sk)" using ft_wfE [OF assms(9)] by metis
  let ?v1 = "if m then del_tab Representations k (set_str sk [] ?v) else ?v"
  note del = delete_rep_if_mutable_for [OF assms(2,9) r]
  have room: "keys_room ?v1" using assms(3) del(5,6) by (simp add: keys_room_def)
  obtain v2 where g: "svn_fs__get_mutable_rep ref_db None ?v1 = Ok (next_rep ?v1, v2)"
    using new_mutable_rep [OF del(2) room, of None] by metis
  have "\<exists>c'. svn_fs__append (svn_fs__str_atom (next_rep ?v1)) c = Ok c' \<and> \<not> is_valid_node_revision c'"
    by (rule saysE [OF c(1)]) (simp add: assms(5,7) is_valid_node_revision_def svn_fs__str_atom_def split: option.split)
  then obtain c' where c': "svn_fs__append (svn_fs__str_atom (next_rep ?v1)) c = Ok c'" "\<not> is_valid_node_revision c'" by blast
  have "svn_fs__dag_get_edit_stream ref_db node ?v = Err SVN_ERR_FS_CORRUPT"
    unfolding c(4) using assms(7) pstrndup_id [OF assms(8)] del(1) g c'
    by (simp add: tbind_def tlift_def svn_fs__put_node_revision_def tfail_def)
  then show ?thesis by (rule refines_Err [OF refines_dag_file(3) [OF assms(1)]])
qed

text \<open>A filesystem with a mutable file, next to the full text of \<open>one_text\<close>.\<close>

definition a_file :: "string \<Rightarrow> string option \<Rightarrow> node_rev_t" where
  "a_file d e = \<lparr>nr_kind = ''file'', nr_rev = [], nr_opts = [], nr_prop = [], nr_data = d, nr_edit = e\<rparr>"

lemma a_file_small: "nr_fits (a_file [] None)" "nr_fits (a_file ''0'' None)" "nr_fits (a_file [] (Some ''0''))"
proof -
  have "skel_text (nr_skel (a_file [] None)) = ''((file 0 ) 0  0 )''" "skel_text (nr_skel (a_file ''0'' None)) = ''((file 0 ) 0  1 0)''"
    "skel_text (nr_skel (a_file [] (Some ''0''))) = ''((file 0 ) 0  0  1 0)''" by code_simp+
  then show "nr_fits (a_file [] None)" "nr_fits (a_file ''0'' None)" "nr_fits (a_file [] (Some ''0''))" by (simp_all add: nr_fits_def)
qed

lemma a_file_simps [simp]: "nr_kind (a_file d e) = ''file''" "nr_rev (a_file d e) = []" "nr_data (a_file d e) = d" "nr_edit (a_file d e) = e"
  by (simp_all add: a_file_def)

lemma one_file:
  assumes "nr_fits (a_file d e)"
  defines "v \<equiv> id (nr_put [0, 1] (a_file d e) one_text)"
  shows "keys_inv v" and "keys_room v" and "node_for v (new_dag_node [0, 1] svn_node_file) (a_file d e)" and "ft_wf v ''0''"
proof -
  have "nr_valid (a_file d e)" by (simp add: nr_valid_def a_file_def)
  moreover have "nr_small (a_file d e)" using assms(1) by (simp add: nr_fits_def nr_small_def)
  ultimately have "node_of v [0, 1] = Some (a_file d e)" using node_of_put [OF small_ids(1,1)] by (simp add: v_def)
  then show "node_for v (new_dag_node [0, 1] svn_node_file) (a_file d e)"
    using small_ids(1) by (simp add: node_for_def new_dag_node_def kind_of_def)
  show "keys_inv v" "keys_room v" "ft_wf v ''0''" using one_text by (simp_all add: v_def keys_inv_def keys_room_def)
qed

theorem edit_file_contents_witness:
  "\<exists>k n1 s1 s2 n2 s3 n3 n4 rb.
    svn_fs__dag_get_edit_stream ref_db (new_dag_node [0, 1] svn_node_file) (nr_put [0, 1] (a_file ''0'' None) one_text) = Ok ((k, n1), s1) \<and>
    rep_write ref_db k ''new'' s1 = Ok ((), s2) \<and> svn_fs__dag_finalize_edits ref_db n1 s2 = Ok (n2, s3) \<and>
    trail_result (svn_fs__dag_get_contents ref_db n2) s3 = Ok (rb, n3) \<and>
    map_svn_result fst (trail_result (txn_body_read_rep ref_db rb 2) s3) = Ok ''ne'' \<and>
    trail_result (svn_fs__dag_file_length ref_db n2) s3 = Ok (3, n4)"
proof -
  note f = one_file [OF a_file_small(2)]
  have k: "rep_key_ok (id (nr_put [0, 1] (a_file ''0'' None) one_text)) (nr_data (a_file ''0'' None))" using f(4) by (simp add: rep_key_ok_def)
  from edit_file_contents [OF bdb_laws_ref f(1-3) a_file_simps(1,2,4) a_file_small(2) k, of "''new''"]
  obtain k n1 s1 s2 n2 s3 n3 n4 rb where
    r: "svn_fs__dag_get_edit_stream ref_db (new_dag_node [0, 1] svn_node_file) (nr_put [0, 1] (a_file ''0'' None) one_text) = Ok ((k, n1), s1)"
      "rep_write ref_db k ''new'' s1 = Ok ((), s2)" "svn_fs__dag_finalize_edits ref_db n1 s2 = Ok (n2, s3)"
      "trail_result (svn_fs__dag_get_contents ref_db n2) s3 = Ok (rb, n3)"
      "\<forall>len < 2 ^ 32. map_svn_result fst (trail_result (txn_body_read_rep ref_db rb len) s3) = Ok (take len ''new'')"
      "trail_result (svn_fs__dag_file_length ref_db n2) s3 = Ok (length ''new'', n4)" by auto
  from r(5) have "map_svn_result fst (trail_result (txn_body_read_rep ref_db rb 2) s3) = Ok (take 2 ''new'')" by simp
  with r(1-4,6) show ?thesis by auto
qed

theorem second_edit_stream_witness:
  "svn_fs__dag_get_edit_stream ref_db (new_dag_node [0, 1] svn_node_file) (nr_put [0, 1] (a_file [] (Some ''0'')) one_text) = Err SVN_ERR_FS_CORRUPT"
  using second_edit_stream [OF bdb_laws_ref one_file(1-3) [OF a_file_small(3)], of "''0''"] one_file(4) [OF a_file_small(3)] by simp

end
