(* ===== verification/Fs_Tree.thy ===== *)
theory Fs_Tree
  imports Fs_Files Fs_Commit
begin

text \<open>
  The filesystem interface on paths (\<open>libsvn_fs/tree.c\<close>): roots, the traversal of paths, making the
  nodes along a path mutable, and the operations on nodes, directories and files.  A linked parent path
  is a list, from the node to the root.
\<close>

section \<open>Roots\<close>

datatype root_kind_t = unspecified_root | revision_root | transaction_root | id_root

record svn_fs_root_t =
  rt_kind :: root_kind_t
  rt_txn :: "bytes option"
  rt_rev :: int
  rt_root_dir :: "dag_node_t option"

definition make_root :: svn_fs_root_t where
  "make_root = \<lparr>rt_kind = unspecified_root, rt_txn = None, rt_rev = 0, rt_root_dir = None\<rparr>"

definition make_revision_root :: "int \<Rightarrow> dag_node_t \<Rightarrow> svn_fs_root_t" where
  "make_revision_root r root_dir = make_root\<lparr>rt_kind := revision_root, rt_rev := r, rt_root_dir := Some root_dir\<rparr>"

definition make_txn_root :: "bytes \<Rightarrow> svn_fs_root_t" where
  "make_txn_root txn = make_root\<lparr>rt_kind := transaction_root, rt_txn := Some txn\<rparr>"

definition not_found :: "svn_fs_root_t \<Rightarrow> ('d, 'a) trail" where
  "not_found root =
     (if rt_kind root = transaction_root \<or> rt_kind root = revision_root then tfail SVN_ERR_FS_NOT_FOUND else tlift Abort)"

definition already_exists :: "svn_fs_root_t \<Rightarrow> ('d, 'a) trail" where
  "already_exists root =
     (if rt_kind root = transaction_root \<or> rt_kind root = revision_root then tfail SVN_ERR_FS_ALREADY_EXISTS else tlift Abort)"

definition not_txn :: svn_errcode where
  "not_txn = SVN_ERR_FS_NOT_TXN_ROOT"

definition root_node :: "'d bdb \<Rightarrow> svn_fs_root_t \<Rightarrow> ('d, dag_node_t) trail" where
  "root_node db root =
     (if rt_kind root = revision_root then
        (case rt_root_dir root of None \<Rightarrow> tlift Abort | Some root_dir \<Rightarrow> tret (svn_fs__dag_dup root_dir))
      else if rt_kind root = transaction_root then
        (case rt_txn root of None \<Rightarrow> tlift Abort | Some txn \<Rightarrow> svn_fs__dag_txn_root db txn)
      else tlift Abort)"

definition mutable_root_node :: "'d bdb \<Rightarrow> svn_fs_root_t \<Rightarrow> ('d, dag_node_t) trail" where
  "mutable_root_node db root =
     (if rt_kind root = transaction_root then
        (case rt_txn root of None \<Rightarrow> tlift Abort | Some txn \<Rightarrow> svn_fs__dag_clone_root db txn)
      else tfail SVN_ERR_FS_NOT_MUTABLE)"

definition svn_fs_is_txn_root :: "svn_fs_root_t \<Rightarrow> bool" where
  "svn_fs_is_txn_root root \<longleftrightarrow> rt_kind root = transaction_root"

definition svn_fs_is_revision_root :: "svn_fs_root_t \<Rightarrow> bool" where
  "svn_fs_is_revision_root root \<longleftrightarrow> rt_kind root = revision_root"

definition svn_fs_is_id_root :: "svn_fs_root_t \<Rightarrow> bool" where
  "svn_fs_is_id_root root \<longleftrightarrow> rt_kind root = id_root"

definition svn_fs_txn_root_name :: "svn_fs_root_t \<Rightarrow> bytes option" where
  "svn_fs_txn_root_name root = (if rt_kind root = transaction_root then rt_txn root else None)"

definition svn_fs_revision_root_revision :: "svn_fs_root_t \<Rightarrow> int" where
  "svn_fs_revision_root_revision root = (if rt_kind root = revision_root then rt_rev root else - 1)"

section \<open>Paths\<close>

record parent_path_t =
  pp_node :: "dag_node_t option"
  pp_entry :: "bytes option"

definition make_parent_path :: "dag_node_t option \<Rightarrow> bytes option \<Rightarrow> parent_path_t list \<Rightarrow> parent_path_t list" where
  "make_parent_path node entry parent = \<lparr>pp_node = node, pp_entry = entry\<rparr> # parent"

definition next_entry_name :: "bytes \<Rightarrow> bytes \<times> bytes option" where
  "next_entry_name path =
     (case dropWhile (\<lambda>c. c \<noteq> CHR ''/'') path of
        [] \<Rightarrow> (path, None)
      | e # es \<Rightarrow> (takeWhile (\<lambda>c. c \<noteq> CHR ''/'') path, Some (dropWhile (\<lambda>c. c = CHR ''/'') (e # es))))"

lemma next_entry_name_shorter:
  assumes "next_entry_name path = (entry, Some rest)"
  shows "length rest < length path"
proof -
  obtain e es where d: "dropWhile (\<lambda>c. c \<noteq> CHR ''/'') path = e # es" and r: "rest = dropWhile (\<lambda>c. c = CHR ''/'') (e # es)"
    using assms by (auto simp: next_entry_name_def split: list.splits)
  have "e = CHR ''/''" using hd_dropWhile [of "\<lambda>c. c \<noteq> CHR ''/''" path] d by simp
  then have "length rest \<le> length es" using r length_dropWhile_le [of "\<lambda>c. c = CHR ''/''" es] by auto
  moreover have "length (e # es) \<le> length path" using d length_dropWhile_le [of "\<lambda>c. c \<noteq> CHR ''/''" path] by metis
  ultimately show ?thesis by simp
qed

text \<open>Opening an entry, with \<open>None\<close> for one that does not exist.\<close>

definition dag_open_opt :: "'d bdb \<Rightarrow> dag_node_t \<Rightarrow> bytes \<Rightarrow> ('d, (dag_node_t \<times> dag_node_t) option) trail" where
  "dag_open_opt db here entry s =
     (case svn_fs__dag_open db here entry s of
        Ok (p, s') \<Rightarrow> Ok (Some p, s')
      | Err e \<Rightarrow> if e = SVN_ERR_FS_NOT_FOUND then Ok (None, s) else Err e
      | Abort \<Rightarrow> Abort)"

text \<open>
  One step down.  \<open>here\<close> is the directory looked at and \<open>up\<close> the path above it; the result is the
  node that is found with the path above it, or \<open>None\<close> with the whole path when the last component is
  optional and does not exist.
\<close>

definition open_path_step ::
  "'d bdb \<Rightarrow> svn_fs_root_t \<Rightarrow> bool \<Rightarrow> bytes \<Rightarrow> bytes option \<Rightarrow> dag_node_t \<Rightarrow> bytes option \<Rightarrow> parent_path_t list
     \<Rightarrow> ('d, dag_node_t option \<times> bytes option \<times> parent_path_t list) trail"
where
  "open_path_step db root last_optional entry rest here here_entry up =
     (if entry = [] then tret (Some here, here_entry, up)
      else
        tbind (dag_open_opt db here entry) (\<lambda>r.
          case r of
            Some (child, here) \<Rightarrow> tret (Some child, Some entry, make_parent_path (Some here) here_entry up)
          | None \<Rightarrow>
              if last_optional \<and> (rest = None \<or> rest = Some [])
              then tret (None, Some entry, make_parent_path (Some here) here_entry up)
              else not_found root))"

function open_path_loop ::
  "'d bdb \<Rightarrow> svn_fs_root_t \<Rightarrow> bool \<Rightarrow> bytes \<Rightarrow> dag_node_t \<Rightarrow> bytes option \<Rightarrow> parent_path_t list \<Rightarrow> ('d, parent_path_t list) trail"
where
  "open_path_loop db root last_optional rest here here_entry up =
     (case next_entry_name rest of (entry, next_rest) \<Rightarrow>
        tbind (open_path_step db root last_optional entry next_rest here here_entry up) (\<lambda>(child, child_entry, up).
          case child of
            None \<Rightarrow> tret (make_parent_path None child_entry up)
          | Some child \<Rightarrow>
              (case next_rest of
                 None \<Rightarrow> tret (make_parent_path (Some child) child_entry up)
               | Some r \<Rightarrow>
                   if \<not> svn_fs__dag_is_directory child then tfail SVN_ERR_FS_NOT_DIRECTORY
                   else open_path_loop db root last_optional r child child_entry up)))"
  by pat_completeness auto
termination
  by (relation "measure (\<lambda>(db, root, last_optional, rest, here, here_entry, up). length rest)")
    (auto dest: next_entry_name_shorter [OF sym])

declare open_path_loop.simps [simp del]

definition open_path :: "'d bdb \<Rightarrow> svn_fs_root_t \<Rightarrow> bytes \<Rightarrow> bool \<Rightarrow> ('d, parent_path_t list) trail" where
  "open_path db root path last_optional =
     (if svn_fs_is_id_root root then
        tbind (tlift (svn_fs_parse_id path)) (\<lambda>nid.
          if last_optional then tlift Abort
          else
            case nid of
              None \<Rightarrow> tfail SVN_ERR_FS_NOT_ID
            | Some i \<Rightarrow> tbind (svn_fs__dag_get_node db i) (\<lambda>node. tret (make_parent_path (Some node) None [])))
      else tbind (root_node db root) (\<lambda>here. open_path_loop db root last_optional path here None []))"

text \<open>The nodes along the path are replaced by their clones, from the root down.\<close>

fun make_path_mutable :: "'d bdb \<Rightarrow> svn_fs_root_t \<Rightarrow> parent_path_t list \<Rightarrow> ('d, parent_path_t list) trail" where
  "make_path_mutable db root [] = tlift Abort"
| "make_path_mutable db root (p # parents) =
     (case pp_node p of
        None \<Rightarrow> tlift Abort
      | Some node \<Rightarrow>
          tbind (svn_fs__dag_check_mutable db node) (\<lambda>(is_mutable, node).
            if is_mutable then tret (p\<lparr>pp_node := Some node\<rparr> # parents)
            else if parents = [] then
              tbind (mutable_root_node db root) (\<lambda>clone. tret [p\<lparr>pp_node := Some clone\<rparr>])
            else
              tbind (make_path_mutable db root parents) (\<lambda>parents.
                case (parents, pp_entry p) of
                  (q # qs, Some entry) \<Rightarrow>
                    (case pp_node q of
                       None \<Rightarrow> tlift Abort
                     | Some parent \<Rightarrow>
                         tbind (svn_fs__dag_clone_child db parent entry) (\<lambda>(clone, parent).
                           tret (p\<lparr>pp_node := Some clone\<rparr> # q\<lparr>pp_node := Some parent\<rparr> # qs)))
                | _ \<Rightarrow> tlift Abort)))"

text \<open>The node at the bottom of a path; without the optional flag there is one.\<close>

definition bottom_node :: "parent_path_t list \<Rightarrow> dag_node_t svn_result" where
  "bottom_node parent_path =
     (case parent_path of p # _ \<Rightarrow> (case pp_node p of Some node \<Rightarrow> Ok node | None \<Rightarrow> Abort) | [] \<Rightarrow> Abort)"

definition get_dag :: "'d bdb \<Rightarrow> svn_fs_root_t \<Rightarrow> bytes \<Rightarrow> ('d, dag_node_t) trail" where
  "get_dag db root path = tbind (open_path db root path False) (\<lambda>parent_path. tlift (bottom_node parent_path))"

section \<open>Nodes\<close>

definition txn_body_node_id :: "'d bdb \<Rightarrow> svn_fs_root_t \<Rightarrow> bytes \<Rightarrow> ('d, svn_fs_id_t) trail" where
  "txn_body_node_id db root path = tbind (get_dag db root path) (\<lambda>node. tret (svn_fs__id_copy (svn_fs__dag_get_id node)))"

definition svn_fs_node_id :: "'d bdb \<Rightarrow> svn_fs_root_t \<Rightarrow> bytes \<Rightarrow> 'd \<Rightarrow> (svn_fs_id_t svn_result \<times> 'd) option" where
  "svn_fs_node_id db root path = svn_fs__retry_txn db (txn_body_node_id db root path)"

definition txn_body_node_created_rev :: "'d bdb \<Rightarrow> svn_fs_root_t \<Rightarrow> bytes \<Rightarrow> ('d, int) trail" where
  "txn_body_node_created_rev db root path =
     tbind (get_dag db root path) (\<lambda>node. tbind (svn_fs__dag_get_revision db node) (\<lambda>(r, node). tret r))"

definition svn_fs_node_created_rev :: "'d bdb \<Rightarrow> svn_fs_root_t \<Rightarrow> bytes \<Rightarrow> 'd \<Rightarrow> (int svn_result \<times> 'd) option" where
  "svn_fs_node_created_rev db root path = svn_fs__retry_txn db (txn_body_node_created_rev db root path)"

definition txn_body_node_kind :: "'d bdb \<Rightarrow> svn_fs_root_t \<Rightarrow> bytes \<Rightarrow> ('d, svn_node_kind_t) trail" where
  "txn_body_node_kind db root path = tbind (get_dag db root path) (\<lambda>node. tret (svn_fs__dag_node_kind node))"

text \<open>Every error counts as no node.\<close>

definition svn_fs_check_path :: "'d bdb \<Rightarrow> svn_fs_root_t \<Rightarrow> bytes \<Rightarrow> 'd \<Rightarrow> (svn_node_kind_t svn_result \<times> 'd) option" where
  "svn_fs_check_path db root path s =
     map_option (map_prod (\<lambda>r. case r of Ok kind \<Rightarrow> Ok kind | Err e \<Rightarrow> Ok svn_node_none | Abort \<Rightarrow> Abort) id)
       (svn_fs__retry_txn db (txn_body_node_kind db root path) s)"

definition fs_then :: "('a svn_result \<times> 'd) option \<Rightarrow> ('a \<Rightarrow> 'd \<Rightarrow> ('b svn_result \<times> 'd) option) \<Rightarrow> ('b svn_result \<times> 'd) option" where
  "fs_then r f =
     (case r of
        None \<Rightarrow> None
      | Some (Ok x, s) \<Rightarrow> f x s
      | Some (Err e, s) \<Rightarrow> Some (Err e, s)
      | Some (Abort, s) \<Rightarrow> Some (Abort, s))"

definition svn_fs_is_dir :: "'d bdb \<Rightarrow> svn_fs_root_t \<Rightarrow> bytes \<Rightarrow> 'd \<Rightarrow> (bool svn_result \<times> 'd) option" where
  "svn_fs_is_dir db root path s =
     fs_then (svn_fs__retry_txn db (txn_body_node_kind db root path) s) (\<lambda>kind s. Some (Ok (kind = svn_node_dir), s))"

definition svn_fs_is_file :: "'d bdb \<Rightarrow> svn_fs_root_t \<Rightarrow> bytes \<Rightarrow> 'd \<Rightarrow> (bool svn_result \<times> 'd) option" where
  "svn_fs_is_file db root path s =
     fs_then (svn_fs__retry_txn db (txn_body_node_kind db root path) s) (\<lambda>kind s. Some (Ok (kind = svn_node_file), s))"

text \<open>
  The ids are compared as pointers, and those of two nodes that have been opened apart are never the same.
\<close>

definition txn_body_is_different :: "'d bdb \<Rightarrow> svn_fs_root_t \<Rightarrow> bytes \<Rightarrow> svn_fs_root_t \<Rightarrow> bytes \<Rightarrow> ('d, bool) trail" where
  "txn_body_is_different db root1 path1 root2 path2 =
     tbind (get_dag db root1 path1) (\<lambda>node1.
     tbind (get_dag db root2 path2) (\<lambda>node2.
       if svn_fs__dag_node_kind node1 \<noteq> svn_fs__dag_node_kind node2 then tret True
       else
         tbind (svn_fs__things_different db True True node1 node2) (\<lambda>(props_differ, contents_differ).
           tret (props_differ = Some True \<or> contents_differ = Some True))))"

definition svn_fs_is_different ::
  "'d bdb \<Rightarrow> svn_fs_root_t \<Rightarrow> bytes \<Rightarrow> svn_fs_root_t \<Rightarrow> bytes \<Rightarrow> 'd \<Rightarrow> (bool svn_result \<times> 'd) option"
where
  "svn_fs_is_different db root1 path1 root2 path2 = svn_fs__retry_txn db (txn_body_is_different db root1 path1 root2 path2)"

section \<open>Properties of nodes\<close>

definition txn_body_node_prop :: "'d bdb \<Rightarrow> svn_fs_root_t \<Rightarrow> bytes \<Rightarrow> bytes \<Rightarrow> ('d, bytes option) trail" where
  "txn_body_node_prop db root path propname =
     tbind (get_dag db root path) (\<lambda>node.
     tbind (svn_fs__dag_get_proplist db node) (\<lambda>(proplist, node).
       case proplist of None \<Rightarrow> tlift Abort | Some p \<Rightarrow> tlift (svn_fs__get_prop p propname)))"

definition svn_fs_node_prop :: "'d bdb \<Rightarrow> svn_fs_root_t \<Rightarrow> bytes \<Rightarrow> bytes \<Rightarrow> 'd \<Rightarrow> (bytes option svn_result \<times> 'd) option" where
  "svn_fs_node_prop db root path propname = svn_fs__retry_txn db (txn_body_node_prop db root path propname)"

definition txn_body_node_proplist :: "'d bdb \<Rightarrow> svn_fs_root_t \<Rightarrow> bytes \<Rightarrow> ('d, (bytes, bytes) fmap) trail" where
  "txn_body_node_proplist db root path =
     tbind (open_path db root path False) (\<lambda>parent_path.
     tbind (tlift (bottom_node parent_path)) (\<lambda>node.
     tbind (svn_fs__dag_get_proplist db node) (\<lambda>(proplist, node).
       case proplist of None \<Rightarrow> tlift Abort | Some p \<Rightarrow> tlift (svn_fs__make_prop_hash p))))"

definition svn_fs_node_proplist :: "'d bdb \<Rightarrow> svn_fs_root_t \<Rightarrow> bytes \<Rightarrow> 'd \<Rightarrow> ((bytes, bytes) fmap svn_result \<times> 'd) option" where
  "svn_fs_node_proplist db root path = svn_fs__retry_txn db (txn_body_node_proplist db root path)"

definition txn_body_change_node_prop :: "'d bdb \<Rightarrow> svn_fs_root_t \<Rightarrow> bytes \<Rightarrow> bytes \<Rightarrow> bytes option \<Rightarrow> ('d, unit) trail" where
  "txn_body_change_node_prop db root path name value =
     tbind (open_path db root path False) (\<lambda>parent_path.
     tbind (make_path_mutable db root parent_path) (\<lambda>parent_path.
     tbind (tlift (bottom_node parent_path)) (\<lambda>node.
     tbind (svn_fs__dag_get_proplist db node) (\<lambda>(proplist, node).
       case proplist of
         None \<Rightarrow> tlift Abort
       | Some p \<Rightarrow>
           tbind (tlift (svn_fs__set_prop p name value)) (\<lambda>p.
           tbind (svn_fs__dag_set_proplist db node p) (\<lambda>node. tret ()))))))"

definition svn_fs_change_node_prop ::
  "'d bdb \<Rightarrow> svn_fs_root_t \<Rightarrow> bytes \<Rightarrow> bytes \<Rightarrow> bytes option \<Rightarrow> 'd \<Rightarrow> (unit svn_result \<times> 'd) option"
where
  "svn_fs_change_node_prop db root path name value s =
     (if \<not> svn_fs_is_txn_root root then Some (Err not_txn, s)
      else svn_fs__retry_txn db (txn_body_change_node_prop db root path name value) s)"

definition txn_body_props_changed :: "'d bdb \<Rightarrow> svn_fs_root_t \<Rightarrow> bytes \<Rightarrow> svn_fs_root_t \<Rightarrow> bytes \<Rightarrow> ('d, bool) trail" where
  "txn_body_props_changed db root1 path1 root2 path2 =
     tbind (open_path db root1 path1 False) (\<lambda>parent_path_1.
     tbind (open_path db root2 path2 False) (\<lambda>parent_path_2.
     tbind (tlift (bottom_node parent_path_1)) (\<lambda>node1.
     tbind (tlift (bottom_node parent_path_2)) (\<lambda>node2.
     tbind (svn_fs__things_different db True False node1 node2) (\<lambda>(changed, ignored). tret (changed = Some True))))))"

definition svn_fs_props_changed ::
  "'d bdb \<Rightarrow> svn_fs_root_t \<Rightarrow> bytes \<Rightarrow> svn_fs_root_t \<Rightarrow> bytes \<Rightarrow> 'd \<Rightarrow> (bool svn_result \<times> 'd) option"
where
  "svn_fs_props_changed db root1 path1 root2 path2 = svn_fs__retry_txn db (txn_body_props_changed db root1 path1 root2 path2)"

section \<open>Directories\<close>

definition txn_body_dir_entries :: "'d bdb \<Rightarrow> svn_fs_root_t \<Rightarrow> bytes \<Rightarrow> ('d, (bytes, svn_fs_dirent_t) fmap) trail" where
  "txn_body_dir_entries db root path =
     tbind (open_path db root path False) (\<lambda>parent_path.
     tbind (tlift (bottom_node parent_path)) (\<lambda>node.
     tbind (svn_fs__dag_dir_entries_hash db node) (\<lambda>(tbl, node). tret tbl)))"

definition svn_fs_dir_entries :: "'d bdb \<Rightarrow> svn_fs_root_t \<Rightarrow> bytes \<Rightarrow> 'd \<Rightarrow> ((bytes, svn_fs_dirent_t) fmap svn_result \<times> 'd) option" where
  "svn_fs_dir_entries db root path = svn_fs__retry_txn db (txn_body_dir_entries db root path)"

text \<open>The directory above the bottom of a path and the name in it; a null parent is read through.\<close>

definition parent_dir :: "parent_path_t list \<Rightarrow> (dag_node_t \<times> bytes) svn_result" where
  "parent_dir parent_path =
     (case parent_path of
        p # q # _ \<Rightarrow> (case (pp_node q, pp_entry p) of (Some node, Some entry) \<Rightarrow> Ok (node, entry) | _ \<Rightarrow> Abort)
      | _ \<Rightarrow> Abort)"

definition make_parent_mutable :: "'d bdb \<Rightarrow> svn_fs_root_t \<Rightarrow> parent_path_t list \<Rightarrow> ('d, dag_node_t \<times> bytes) trail" where
  "make_parent_mutable db root parent_path =
     (case parent_path of
        [] \<Rightarrow> tlift Abort
      | p # parents \<Rightarrow> tbind (make_path_mutable db root parents) (\<lambda>parents. tlift (parent_dir (p # parents))))"

definition txn_body_make_dir :: "'d bdb \<Rightarrow> svn_fs_root_t \<Rightarrow> bytes \<Rightarrow> ('d, unit) trail" where
  "txn_body_make_dir db root path =
     tbind (open_path db root path True) (\<lambda>parent_path.
       case parent_path of
         [] \<Rightarrow> tlift Abort
       | p # parents \<Rightarrow>
           if pp_node p \<noteq> None then already_exists root
           else
             tbind (make_parent_mutable db root parent_path) (\<lambda>(parent, entry).
             tbind (svn_fs__dag_make_dir db parent entry) (\<lambda>_. tret ())))"

definition svn_fs_make_dir :: "'d bdb \<Rightarrow> svn_fs_root_t \<Rightarrow> bytes \<Rightarrow> 'd \<Rightarrow> (unit svn_result \<times> 'd) option" where
  "svn_fs_make_dir db root path s =
     (if \<not> svn_fs_is_txn_root root then Some (Err not_txn, s)
      else svn_fs__retry_txn db (txn_body_make_dir db root path) s)"

definition txn_body_delete :: "'d bdb \<Rightarrow> svn_fs_root_t \<Rightarrow> bytes \<Rightarrow> bool \<Rightarrow> ('d, unit) trail" where
  "txn_body_delete db root path delete_tree =
     tbind (open_path db root path False) (\<lambda>parent_path.
       if \<not> svn_fs_is_txn_root root then tfail not_txn
       else if length parent_path \<le> 1 then tfail SVN_ERR_FS_ROOT_DIR
       else
         tbind (make_parent_mutable db root parent_path) (\<lambda>(parent, entry).
           if delete_tree then tbind (svn_fs__dag_delete_tree db parent entry) (\<lambda>_. tret ())
           else tbind (svn_fs__dag_delete db parent entry) (\<lambda>_. tret ())))"

definition svn_fs_delete :: "'d bdb \<Rightarrow> svn_fs_root_t \<Rightarrow> bytes \<Rightarrow> 'd \<Rightarrow> (unit svn_result \<times> 'd) option" where
  "svn_fs_delete db root path = svn_fs__retry_txn db (txn_body_delete db root path False)"

definition svn_fs_delete_tree :: "'d bdb \<Rightarrow> svn_fs_root_t \<Rightarrow> bytes \<Rightarrow> 'd \<Rightarrow> (unit svn_result \<times> 'd) option" where
  "svn_fs_delete_tree db root path = svn_fs__retry_txn db (txn_body_delete db root path True)"

definition svn_fs_rename :: "'d bdb \<Rightarrow> svn_fs_root_t \<Rightarrow> bytes \<Rightarrow> bytes \<Rightarrow> 'd \<Rightarrow> (unit svn_result \<times> 'd) option" where
  "svn_fs_rename db root from_path to_path s = Some (Abort, s)"

definition txn_body_copy ::
  "'d bdb \<Rightarrow> svn_fs_root_t \<Rightarrow> bytes \<Rightarrow> svn_fs_root_t \<Rightarrow> bytes \<Rightarrow> bool \<Rightarrow> ('d, unit) trail"
where
  "txn_body_copy db from_root from_path to_root to_path preserve_history =
     (if \<not> svn_fs_is_revision_root from_root then tfail SVN_ERR_FS_GENERAL
      else
        tbind (open_path db from_root from_path False) (\<lambda>from_parent_path.
        tbind (open_path db to_root to_path True) (\<lambda>to_parent_path.
        tbind (make_parent_mutable db to_root to_parent_path) (\<lambda>(parent, entry).
        tbind (tlift (bottom_node from_parent_path)) (\<lambda>from_node.
        tbind (svn_fs__dag_copy db parent entry from_node preserve_history (svn_fs_revision_root_revision from_root) from_path) (\<lambda>_.
          tret ()))))))"

definition svn_fs_copy ::
  "'d bdb \<Rightarrow> svn_fs_root_t \<Rightarrow> bytes \<Rightarrow> svn_fs_root_t \<Rightarrow> bytes \<Rightarrow> 'd \<Rightarrow> (unit svn_result \<times> 'd) option"
where
  "svn_fs_copy db from_root from_path to_root to_path s =
     (if \<not> svn_fs_is_txn_root to_root then Some (Err not_txn, s)
      else svn_fs__retry_txn db (txn_body_copy db from_root from_path to_root to_path True) s)"

definition svn_fs_link ::
  "'d bdb \<Rightarrow> svn_fs_root_t \<Rightarrow> bytes \<Rightarrow> svn_fs_root_t \<Rightarrow> bytes \<Rightarrow> 'd \<Rightarrow> (unit svn_result \<times> 'd) option"
where
  "svn_fs_link db from_root from_path to_root to_path s =
     (if \<not> svn_fs_is_txn_root to_root then Some (Err not_txn, s)
      else svn_fs__retry_txn db (txn_body_copy db from_root from_path to_root to_path False) s)"

definition txn_body_copied_from :: "'d bdb \<Rightarrow> svn_fs_root_t \<Rightarrow> bytes \<Rightarrow> ('d, int \<times> bytes option) trail" where
  "txn_body_copied_from db root path =
     tbind (open_path db root path False) (\<lambda>path_down.
     tbind (tlift (bottom_node path_down)) (\<lambda>node.
     tbind (svn_fs__dag_copied_from db node) (\<lambda>(r, node). tret r)))"

definition svn_fs_copied_from :: "'d bdb \<Rightarrow> svn_fs_root_t \<Rightarrow> bytes \<Rightarrow> 'd \<Rightarrow> ((int \<times> bytes option) svn_result \<times> 'd) option" where
  "svn_fs_copied_from db root path = svn_fs__retry_txn db (txn_body_copied_from db root path)"

section \<open>Files\<close>

definition txn_body_make_file :: "'d bdb \<Rightarrow> svn_fs_root_t \<Rightarrow> bytes \<Rightarrow> ('d, unit) trail" where
  "txn_body_make_file db root path =
     tbind (open_path db root path True) (\<lambda>parent_path.
       case parent_path of
         [] \<Rightarrow> tlift Abort
       | p # parents \<Rightarrow>
           if pp_node p \<noteq> None then already_exists root
           else
             tbind (make_parent_mutable db root parent_path) (\<lambda>(parent, entry).
             tbind (svn_fs__dag_make_file db parent entry) (\<lambda>_. tret ())))"

definition svn_fs_make_file :: "'d bdb \<Rightarrow> svn_fs_root_t \<Rightarrow> bytes \<Rightarrow> 'd \<Rightarrow> (unit svn_result \<times> 'd) option" where
  "svn_fs_make_file db root path = svn_fs__retry_txn db (txn_body_make_file db root path)"

definition txn_body_file_length :: "'d bdb \<Rightarrow> svn_fs_root_t \<Rightarrow> bytes \<Rightarrow> ('d, nat) trail" where
  "txn_body_file_length db root path =
     tbind (get_dag db root path) (\<lambda>file. tbind (svn_fs__dag_file_length db file) (\<lambda>(length, file). tret length))"

definition svn_fs_file_length :: "'d bdb \<Rightarrow> svn_fs_root_t \<Rightarrow> bytes \<Rightarrow> 'd \<Rightarrow> (nat svn_result \<times> 'd) option" where
  "svn_fs_file_length db root path = svn_fs__retry_txn db (txn_body_file_length db root path)"

text \<open>The stream is given by its baton.\<close>

definition txn_body_get_file_contents :: "'d bdb \<Rightarrow> svn_fs_root_t \<Rightarrow> bytes \<Rightarrow> ('d, rep_read_baton) trail" where
  "txn_body_get_file_contents db root path =
     tbind (get_dag db root path) (\<lambda>node. tbind (svn_fs__dag_get_contents db node) (\<lambda>(file_stream, node). tret file_stream))"

definition svn_fs_file_contents :: "'d bdb \<Rightarrow> svn_fs_root_t \<Rightarrow> bytes \<Rightarrow> 'd \<Rightarrow> (rep_read_baton svn_result \<times> 'd) option" where
  "svn_fs_file_contents db root path = svn_fs__retry_txn db (txn_body_get_file_contents db root path)"

definition txn_body_contents_changed :: "'d bdb \<Rightarrow> svn_fs_root_t \<Rightarrow> bytes \<Rightarrow> svn_fs_root_t \<Rightarrow> bytes \<Rightarrow> ('d, bool) trail" where
  "txn_body_contents_changed db root1 path1 root2 path2 =
     tbind (open_path db root1 path1 False) (\<lambda>parent_path_1.
     tbind (open_path db root2 path2 False) (\<lambda>parent_path_2.
     tbind (tlift (bottom_node parent_path_1)) (\<lambda>node1.
     tbind (tlift (bottom_node parent_path_2)) (\<lambda>node2.
     tbind (svn_fs__things_different db False True node1 node2) (\<lambda>(ignored, changed). tret (changed = Some True))))))"

definition svn_fs_contents_changed ::
  "'d bdb \<Rightarrow> svn_fs_root_t \<Rightarrow> bytes \<Rightarrow> svn_fs_root_t \<Rightarrow> bytes \<Rightarrow> 'd \<Rightarrow> (bool svn_result \<times> 'd) option"
where
  "svn_fs_contents_changed db root1 path1 root2 path2 s =
     fs_then (svn_fs_is_file db root1 path1 s) (\<lambda>is_file s.
       if \<not> is_file then Some (Err SVN_ERR_FS_GENERAL, s)
       else
         fs_then (svn_fs_is_file db root2 path2 s) (\<lambda>is_file s.
           if \<not> is_file then Some (Err SVN_ERR_FS_GENERAL, s)
           else svn_fs__retry_txn db (txn_body_contents_changed db root1 path1 root2 path2) s))"

section \<open>Opening roots and transactions\<close>

definition txn_body_txn_root :: "'d bdb \<Rightarrow> svn_fs_txn_t \<Rightarrow> ('d, svn_fs_root_t) trail" where
  "txn_body_txn_root db txn =
     tbind (svn_fs__get_txn_ids db (svn_fs_txn_name txn)) (\<lambda>(root_id, base_root_id). tret (make_txn_root (svn_fs_txn_name txn)))"

definition svn_fs_txn_root :: "'d bdb \<Rightarrow> svn_fs_txn_t \<Rightarrow> 'd \<Rightarrow> (svn_fs_root_t svn_result \<times> 'd) option" where
  "svn_fs_txn_root db txn = svn_fs__retry_txn db (txn_body_txn_root db txn)"

text \<open>At the end of a trail the nodes that have registered for it lose their node revision.\<close>

definition trail_ended :: "dag_node_t \<Rightarrow> dag_node_t" where
  "trail_ended node = (if dn_completion node then uncache_node_revision node else node)"

definition txn_body_revision_root :: "'d bdb \<Rightarrow> int \<Rightarrow> ('d, svn_fs_root_t) trail" where
  "txn_body_revision_root db r =
     tbind (svn_fs__dag_revision_root db r) (\<lambda>root_dir. tret (make_revision_root r (trail_ended root_dir)))"

definition svn_fs_revision_root :: "'d bdb \<Rightarrow> int \<Rightarrow> 'd \<Rightarrow> (svn_fs_root_t svn_result \<times> 'd) option" where
  "svn_fs_revision_root db r = fs_call db (txn_body_revision_root db r)"

definition svn_fs_id_root :: svn_fs_root_t where
  "svn_fs_id_root = make_root\<lparr>rt_kind := id_root\<rparr>"

definition svn_fs_txn_path_is_id ::
  "'d bdb \<Rightarrow> svn_fs_root_t \<Rightarrow> bytes \<Rightarrow> svn_fs_id_t \<Rightarrow> 'd \<Rightarrow> (bool svn_result \<times> 'd) option"
where
  "svn_fs_txn_path_is_id db txn_root path nid s =
     fs_then (svn_fs_node_id db txn_root path s) (\<lambda>res_id s.
       if svn_fs__id_eq res_id nid then Some (Ok True, s)
       else
         (case svn_fs__id_is_parent nid res_id of
            Ok True \<Rightarrow>
              map_option (map_prod (\<lambda>r. case r of Ok is_dir \<Rightarrow> Ok is_dir | Err e \<Rightarrow> Ok False | Abort \<Rightarrow> Abort) (\<lambda>s. s))
                (svn_fs_is_dir db txn_root path s)
          | Ok False \<Rightarrow> Some (Ok False, s)
          | Err e \<Rightarrow> Some (Err e, s)
          | Abort \<Rightarrow> Some (Abort, s)))"

definition txn_body_abort_txn :: "'d bdb \<Rightarrow> svn_fs_txn_t \<Rightarrow> ('d, unit) trail" where
  "txn_body_abort_txn db txn =
     tbind (svn_fs__get_txn_ids db (svn_fs_txn_name txn)) (\<lambda>(root_id, ignored_id).
     tbind (svn_fs__dag_delete_if_mutable db root_id) (\<lambda>_. svn_fs__delete_txn db (txn_id txn)))"

definition svn_fs_abort_txn :: "'d bdb \<Rightarrow> svn_fs_txn_t \<Rightarrow> 'd \<Rightarrow> (unit svn_result \<times> 'd) option" where
  "svn_fs_abort_txn db txn = svn_fs__retry_txn db (txn_body_abort_txn db txn)"

definition txn_body_open_txn :: "'d bdb \<Rightarrow> bytes \<Rightarrow> ('d, svn_fs_txn_t) trail" where
  "txn_body_open_txn db name =
     tbind (svn_fs__get_txn_ids db name) (\<lambda>(root_id, base_root_id).
     tbind (svn_fs__dag_get_node db base_root_id) (\<lambda>base_root_node.
     tbind (svn_fs__dag_get_revision db base_root_node) (\<lambda>(base_rev, base_root_node). tret (make_txn name base_rev))))"

definition svn_fs_open_txn :: "'d bdb \<Rightarrow> bytes \<Rightarrow> 'd \<Rightarrow> (svn_fs_txn_t svn_result \<times> 'd) option" where
  "svn_fs_open_txn db name = fs_call db (txn_body_open_txn db name)"

section \<open>Refinement\<close>

lemma refines_dag_open_opt [refine_intros]:
  assumes "bdb_laws db view"
  shows "refines view (dag_open_opt db here entry) (dag_open_opt ref_db here entry)"
  unfolding refines_def dag_open_opt_def
proof
  fix s
  show "map_svn_result (map_prod id view) (case svn_fs__dag_open db here entry s of Ok (p, s') \<Rightarrow> Ok (Some p, s')
      | Err e \<Rightarrow> if e = SVN_ERR_FS_NOT_FOUND then Ok (None, s) else Err e | Abort \<Rightarrow> Abort) =
    (case svn_fs__dag_open ref_db here entry (view s) of Ok (p, s') \<Rightarrow> Ok (Some p, s')
      | Err e \<Rightarrow> if e = SVN_ERR_FS_NOT_FOUND then Ok (None, view s) else Err e | Abort \<Rightarrow> Abort)"
    using refinesD [OF refines_dag_open [OF assms], of here entry s, symmetric]
    by (cases "svn_fs__dag_open db here entry s") auto
qed

lemma refines_roots [refine_intros]:
  assumes "bdb_laws db view"
  shows "refines view (root_node db root) (root_node ref_db root)"
    and "refines view (mutable_root_node db root) (mutable_root_node ref_db root)"
    and "refines view (not_found root) (not_found root)" and "refines view (already_exists root) (already_exists root)"
  unfolding root_node_def mutable_root_node_def not_found_def already_exists_def using assms by - (intro refine_intros; assumption)+

lemma refines_open_path_step [refine_intros]:
  "bdb_laws db view \<Longrightarrow> refines view (open_path_step db root opt entry rest here e up) (open_path_step ref_db root opt entry rest here e up)"
  unfolding open_path_step_def by (intro refine_intros)

lemma refines_open_path_loop [refine_intros]:
  "bdb_laws db view \<Longrightarrow> refines view (open_path_loop db root opt rest here e up) (open_path_loop ref_db root opt rest here e up)"
proof (induction db root opt rest here e up rule: open_path_loop.induct)
  case (1 db root opt rest here e up)
  obtain entry nx where nx: "next_entry_name rest = (entry, nx)" by fastforce
  show ?case
    by (subst (1 2) open_path_loop.simps, unfold nx prod.case)
      (rule refines_tbind [OF refines_open_path_step [OF 1(2)]], auto intro!: refines_tret refines_tfail 1 simp: nx split: option.split)
qed

lemma refines_open_path [refine_intros]:
  "bdb_laws db view \<Longrightarrow> refines view (open_path db root path opt) (open_path ref_db root path opt)"
  unfolding open_path_def by (intro refine_intros)

lemma refines_make_path_mutable [refine_intros]:
  "bdb_laws db view \<Longrightarrow> refines view (make_path_mutable db root pp) (make_path_mutable ref_db root pp)"
  by (induction pp) (auto intro!: refine_intros)

lemma refines_get_dag [refine_intros]:
  "bdb_laws db view \<Longrightarrow> refines view (get_dag db root path) (get_dag ref_db root path)"
  unfolding get_dag_def by (intro refine_intros)

lemma refines_node_bodies [refine_intros]:
  assumes "bdb_laws db view"
  shows "refines view (txn_body_node_id db root path) (txn_body_node_id ref_db root path)"
    and "refines view (txn_body_node_created_rev db root path) (txn_body_node_created_rev ref_db root path)"
    and "refines view (txn_body_node_kind db root path) (txn_body_node_kind ref_db root path)"
    and "refines view (txn_body_node_prop db root path name) (txn_body_node_prop ref_db root path name)"
    and "refines view (txn_body_node_proplist db root path) (txn_body_node_proplist ref_db root path)"
    and "refines view (txn_body_change_node_prop db root path name v) (txn_body_change_node_prop ref_db root path name v)"
    and "refines view (txn_body_dir_entries db root path) (txn_body_dir_entries ref_db root path)"
  unfolding txn_body_node_id_def txn_body_node_created_rev_def txn_body_node_kind_def txn_body_node_prop_def
    txn_body_node_proplist_def txn_body_change_node_prop_def txn_body_dir_entries_def
  using assms by - (intro refine_intros; assumption)+

lemma refines_make_parent_mutable [refine_intros]:
  "bdb_laws db view \<Longrightarrow> refines view (make_parent_mutable db root pp) (make_parent_mutable ref_db root pp)"
  unfolding make_parent_mutable_def by (intro refine_intros)

lemma refines_change_bodies [refine_intros]:
  assumes "bdb_laws db view"
  shows "refines view (txn_body_make_dir db root path) (txn_body_make_dir ref_db root path)"
    and "refines view (txn_body_make_file db root path) (txn_body_make_file ref_db root path)"
    and "refines view (txn_body_delete db root path t) (txn_body_delete ref_db root path t)"
    and "refines view (txn_body_revision_root db r) (txn_body_revision_root ref_db r)"
    and "refines view (txn_body_txn_root db txn) (txn_body_txn_root ref_db txn)"
    and "refines view (txn_body_abort_txn db txn) (txn_body_abort_txn ref_db txn)"
    and "refines view (txn_body_open_txn db name) (txn_body_open_txn ref_db name)"
  unfolding txn_body_make_dir_def txn_body_make_file_def svn_fs__dag_make_dir_def svn_fs__dag_make_file_def txn_body_delete_def
    svn_fs__dag_delete_def svn_fs__dag_delete_tree_def txn_body_revision_root_def txn_body_txn_root_def txn_body_abort_txn_def txn_body_open_txn_def
  using assms by - (intro refine_intros; assumption)+

lemma refines_txn_body_copy [refine_intros]:
  "bdb_laws db view \<Longrightarrow> refines view (txn_body_copy db r1 p1 r2 p2 h) (txn_body_copy ref_db r1 p1 r2 p2 h)"
  unfolding txn_body_copy_def by (intro refine_intros)

end
