(* ===== verification/Fs_Merge.thy ===== *)
theory Fs_Merge
  imports Fs_Tree
begin

text \<open>
  Merging and committing (\<open>libsvn_fs/tree.c\<close>), and the operations on the history of nodes.  The entries
  of a directory are taken in the order of the hash table, \<open>order\<close>.
\<close>

section \<open>Merging\<close>

definition txn_body_get_root :: "'d bdb \<Rightarrow> svn_fs_root_t \<Rightarrow> ('d, dag_node_t) trail" where
  "txn_body_get_root db root = tbind (get_dag db root []) (\<lambda>node. tret (trail_ended node))"

definition path_append :: "bytes \<Rightarrow> bytes \<Rightarrow> bytes" where
  "path_append dir entry = dir @ ''/'' @ entry"

text \<open>A null id is read through.\<close>

definition dirent_id :: "svn_fs_dirent_t \<Rightarrow> svn_fs_id_t svn_result" where
  "dirent_id entry = (case de_id entry of None \<Rightarrow> Abort | Some nid \<Rightarrow> Ok nid)"

definition conflict_at :: "bytes \<Rightarrow> ('d, 'a) trail" where
  "conflict_at path = tfail (SVN_ERR_FS_CONFLICT path)"

text \<open>The target takes an entry of the source.\<close>

definition target_takes :: "'d bdb \<Rightarrow> dag_node_t \<Rightarrow> bytes \<Rightarrow> svn_fs_id_t \<Rightarrow> ('d, dag_node_t) trail" where
  "target_takes db tgt name nid =
     tbind (svn_fs__dag_check_mutable db tgt) (\<lambda>(is_mutable, tgt).
       if \<not> is_mutable then tfail SVN_ERR_FS_NOT_MUTABLE
       else svn_fs__dag_set_entry db tgt name nid)"

text \<open>
  After a merge into a node that is one step from the ancestor, the node gets an id that says it
  comes after the source; \<open>use\<close> makes what refers to the node refer to the new id.
\<close>

definition reidentify ::
  "'d bdb \<Rightarrow> svn_fs_id_t \<Rightarrow> svn_fs_id_t \<Rightarrow> svn_fs_id_t \<Rightarrow> (svn_fs_id_t \<Rightarrow> ('d, 'a) trail) \<Rightarrow> 'a \<Rightarrow> ('d, 'a) trail"
where
  "reidentify db a_id t_id s_id use x =
     tbind (tlift (svn_fs_id_distance a_id t_id)) (\<lambda>d1.
     tbind (if d1 = 1 then tlift (svn_fs_id_distance a_id s_id) else tret 0) (\<lambda>d2.
       if d1 = 1 \<and> d2 \<ge> 1 then
         tbind (svn_fs__new_successor_id db s_id) (\<lambda>successor.
         tbind (svn_fs__get_node_revision db t_id) (\<lambda>node_rev.
         tbind (svn_fs__put_node_revision db successor node_rev) (\<lambda>_.
         tbind (use successor) (\<lambda>x.
         tbind (svn_fs__delete_nodes_entry db t_id) (\<lambda>_. tret x)))))
       else tret x))"

text \<open>
  An entry that all three directories have.  \<open>rec\<close> merges directories below.
\<close>

definition merge_both ::
  "'d bdb \<Rightarrow> (bytes \<Rightarrow> dag_node_t \<Rightarrow> dag_node_t \<Rightarrow> dag_node_t \<Rightarrow> ('d, unit) trail) \<Rightarrow> bytes \<Rightarrow> dag_node_t
     \<Rightarrow> svn_fs_dirent_t \<Rightarrow> svn_fs_dirent_t \<Rightarrow> svn_fs_dirent_t \<Rightarrow> ('d, dag_node_t) trail"
where
  "merge_both db rec target_path tgt a_entry s_entry t_entry =
     tbind (tlift (dirent_id a_entry)) (\<lambda>a_id.
     tbind (tlift (dirent_id s_entry)) (\<lambda>s_id.
       if svn_fs__id_eq a_id s_id then tret tgt
       else
         tbind (tlift (dirent_id t_entry)) (\<lambda>t_id.
         tbind (if svn_fs__id_eq a_id t_id then tret True
                else
                  tbind (tlift (svn_fs__id_is_ancestor a_id t_id)) (\<lambda>at.
                    if at then tlift (svn_fs__id_is_ancestor t_id s_id) else tret False)) (\<lambda>takes.
           if takes then target_takes db tgt (de_name t_entry) s_id
           else
             tbind (tlift (svn_fs__id_is_ancestor s_id t_id)) (\<lambda>st.
               if st then tret tgt
               else
                 tbind (svn_fs__dag_get_node db s_id) (\<lambda>s_ent_node.
                 tbind (svn_fs__dag_get_node db t_id) (\<lambda>t_ent_node.
                 tbind (svn_fs__dag_get_node db a_id) (\<lambda>a_ent_node.
                   if \<not> svn_fs__dag_is_directory s_ent_node \<or> \<not> svn_fs__dag_is_directory t_ent_node
                      \<or> \<not> svn_fs__dag_is_directory a_ent_node
                   then conflict_at (path_append target_path (de_name a_entry))
                   else
                     tbind (rec (path_append target_path (de_name t_entry)) t_ent_node s_ent_node a_ent_node) (\<lambda>_.
                       reidentify db a_id t_id s_id (svn_fs__dag_set_entry db tgt (de_name t_entry)) tgt)))))))))"

text \<open>An entry that the source has and the target has not, and one that only the target has left.\<close>

definition merge_source_only :: "bytes \<Rightarrow> dag_node_t \<Rightarrow> svn_fs_dirent_t \<Rightarrow> svn_fs_dirent_t \<Rightarrow> ('d, dag_node_t) trail" where
  "merge_source_only target_path tgt a_entry s_entry =
     tbind (tlift (dirent_id a_entry)) (\<lambda>a_id.
     tbind (tlift (dirent_id s_entry)) (\<lambda>s_id.
       if \<not> svn_fs__id_eq a_id s_id then conflict_at (path_append target_path (de_name a_entry)) else tret tgt))"

definition merge_target_only ::
  "'d bdb \<Rightarrow> bytes \<Rightarrow> dag_node_t \<Rightarrow> svn_fs_dirent_t \<Rightarrow> svn_fs_dirent_t \<Rightarrow> ('d, bool \<times> dag_node_t) trail"
where
  "merge_target_only db target_path tgt a_entry t_entry =
     tbind (tlift (dirent_id t_entry)) (\<lambda>t_id.
     tbind (tlift (dirent_id a_entry)) (\<lambda>a_id.
       if svn_fs__id_eq t_id a_id then
         tbind (svn_fs__dag_check_mutable db tgt) (\<lambda>(is_mutable, tgt).
           if \<not> is_mutable then tfail SVN_ERR_FS_NOT_MUTABLE
           else tbind (svn_fs__dag_delete_tree db tgt (de_name t_entry)) (\<lambda>tgt. tret (True, tgt)))
       else
         tbind (tlift (svn_fs_id_distance t_id a_id)) (\<lambda>d.
           if d \<noteq> - 1 then conflict_at (path_append target_path (de_name t_entry)) else tret (False, tgt))))"

text \<open>
  The loop over the entries of the ancestor.  The hash table of the target loses the entries that are
  deleted; the one of the source loses all of them afterwards.
\<close>

fun merge_ancestor_loop ::
  "'d bdb \<Rightarrow> (bytes \<Rightarrow> dag_node_t \<Rightarrow> dag_node_t \<Rightarrow> dag_node_t \<Rightarrow> ('d, unit) trail) \<Rightarrow> bytes
     \<Rightarrow> (bytes, svn_fs_dirent_t) fmap \<Rightarrow> (bytes, svn_fs_dirent_t) fmap \<Rightarrow> bytes list \<Rightarrow> dag_node_t
     \<Rightarrow> (bytes, svn_fs_dirent_t) fmap \<Rightarrow> ('d, dag_node_t \<times> (bytes, svn_fs_dirent_t) fmap) trail"
where
  "merge_ancestor_loop db rec target_path a_entries s_entries [] tgt t_entries = tret (tgt, t_entries)"
| "merge_ancestor_loop db rec target_path a_entries s_entries (key # keys) tgt t_entries =
     (case fmlookup a_entries key of
        None \<Rightarrow> tlift Abort
      | Some a_entry \<Rightarrow>
          tbind (case (fmlookup s_entries key, fmlookup t_entries key) of
                   (Some s_entry, Some t_entry) \<Rightarrow>
                     tbind (merge_both db rec target_path tgt a_entry s_entry t_entry) (\<lambda>tgt. tret (tgt, t_entries))
                 | (Some s_entry, None) \<Rightarrow>
                     tbind (merge_source_only target_path tgt a_entry s_entry) (\<lambda>tgt. tret (tgt, t_entries))
                 | (None, Some t_entry) \<Rightarrow>
                     tbind (merge_target_only db target_path tgt a_entry t_entry) (\<lambda>(deleted, tgt).
                       tret (tgt, if deleted then fmdrop key t_entries else t_entries))
                 | (None, None) \<Rightarrow> tret (tgt, t_entries)) (\<lambda>(tgt, t_entries).
            merge_ancestor_loop db rec target_path a_entries s_entries keys tgt t_entries))"

fun merge_source_loop ::
  "'d bdb \<Rightarrow> bytes \<Rightarrow> (bytes, svn_fs_dirent_t) fmap \<Rightarrow> (bytes, svn_fs_dirent_t) fmap \<Rightarrow> bytes list \<Rightarrow> dag_node_t
     \<Rightarrow> ('d, dag_node_t) trail"
where
  "merge_source_loop db target_path s_entries t_entries [] tgt = tret tgt"
| "merge_source_loop db target_path s_entries t_entries (key # keys) tgt =
     (case fmlookup s_entries key of
        None \<Rightarrow> tlift Abort
      | Some s_entry \<Rightarrow>
          tbind (case fmlookup t_entries key of
                   None \<Rightarrow>
                     tbind (svn_fs__dag_check_mutable db tgt) (\<lambda>(is_mutable, tgt).
                       if \<not> is_mutable then tfail SVN_ERR_FS_NOT_MUTABLE
                       else
                         tbind (tlift (dirent_id s_entry)) (\<lambda>s_id. svn_fs__dag_set_entry db tgt (de_name s_entry) s_id))
                 | Some t_entry \<Rightarrow>
                     tbind (tlift (dirent_id s_entry)) (\<lambda>s_id.
                     tbind (tlift (dirent_id t_entry)) (\<lambda>t_id.
                     tbind (tlift (svn_fs__id_is_ancestor s_id t_id)) (\<lambda>st.
                       if \<not> st then conflict_at (path_append target_path (de_name t_entry)) else tret tgt)))) (\<lambda>tgt.
            merge_source_loop db target_path s_entries t_entries keys tgt))"

text \<open>
  Directories are nested no deeper than the number of nodes, unless a directory is inside itself; \<open>n\<close>
  bounds the depth.
\<close>

fun merge_depth ::
  "nat \<Rightarrow> ((bytes, svn_fs_dirent_t) fmap \<Rightarrow> bytes list) \<Rightarrow> 'd bdb \<Rightarrow> bytes \<Rightarrow> dag_node_t \<Rightarrow> dag_node_t \<Rightarrow> dag_node_t
     \<Rightarrow> ('d, unit) trail"
where
  "merge_depth 0 order db target_path tgt src ancestor = tlift Abort"
| "merge_depth (Suc n) order db target_path tgt src ancestor =
     tbind (tlift (svn_fs__check_fs db)) (\<lambda>_.
     (let source_id = svn_fs__dag_get_id src; target_id = svn_fs__dag_get_id tgt; ancestor_id = svn_fs__dag_get_id ancestor in
      if svn_fs__id_eq ancestor_id target_id then tfail SVN_ERR_FS_GENERAL
      else if svn_fs__id_eq ancestor_id source_id \<or> svn_fs__id_eq source_id target_id then tret ()
      else if \<not> svn_fs__dag_is_directory src \<or> \<not> svn_fs__dag_is_directory tgt \<or> \<not> svn_fs__dag_is_directory ancestor
      then conflict_at target_path
      else
        tbind (svn_fs__get_node_revision db target_id) (\<lambda>tgt_skel.
        tbind (svn_fs__get_node_revision db ancestor_id) (\<lambda>anc_skel.
        tbind (tlift (nr_prop_key tgt_skel)) (\<lambda>tgt_key.
        tbind (tlift (nr_prop_key anc_skel)) (\<lambda>anc_key.
        tbind (tlift (svn_fs__skels_are_equal tgt_key anc_key)) (\<lambda>same_props.
          if \<not> same_props then conflict_at target_path
          else
            tbind (svn_fs__dag_dir_entries_hash db src) (\<lambda>(s_entries, src).
            tbind (svn_fs__dag_dir_entries_hash db tgt) (\<lambda>(t_entries, tgt).
            tbind (svn_fs__dag_dir_entries_hash db ancestor) (\<lambda>(a_entries, ancestor).
            tbind (merge_ancestor_loop db (merge_depth n order db) target_path a_entries s_entries (order a_entries) tgt t_entries)
              (\<lambda>(tgt, t_entries).
              (let s_rest = fmfilter (\<lambda>key. fmlookup a_entries key = None) s_entries in
               tbind (merge_source_loop db target_path s_rest t_entries (order s_rest) tgt) (\<lambda>tgt. tret ())))))))))))))"

definition merge ::
  "((bytes, svn_fs_dirent_t) fmap \<Rightarrow> bytes list) \<Rightarrow> 'd bdb \<Rightarrow> bytes \<Rightarrow> dag_node_t \<Rightarrow> dag_node_t \<Rightarrow> dag_node_t \<Rightarrow> ('d, unit) trail"
where
  "merge order db target_path tgt src ancestor =
     tbind (db_peek (db_count db Nodes)) (\<lambda>n. merge_depth (Suc n) order db target_path tgt src ancestor)"

definition txn_body_merge ::
  "((bytes, svn_fs_dirent_t) fmap \<Rightarrow> bytes list) \<Rightarrow> 'd bdb \<Rightarrow> dag_node_t option \<Rightarrow> dag_node_t \<Rightarrow> svn_fs_txn_t \<Rightarrow> ('d, unit) trail"
where
  "txn_body_merge order db ancestor_node source_node txn =
     (let txn_name = svn_fs_txn_name txn; source_id = svn_fs__dag_get_id source_node in
      tbind (svn_fs__dag_txn_root db txn_name) (\<lambda>txn_root_node.
      tbind (case ancestor_node of None \<Rightarrow> svn_fs__dag_txn_base_root db txn_name | Some node \<Rightarrow> tret node) (\<lambda>ancestor_node.
        if svn_fs__id_eq (svn_fs__dag_get_id ancestor_node) (svn_fs__dag_get_id txn_root_node) then
          tbind (svn_fs__set_txn_base db txn_name source_id) (\<lambda>_. svn_fs__set_txn_root db txn_name source_id)
        else
          tbind (merge order db [] txn_root_node source_node ancestor_node) (\<lambda>_.
          tbind (reidentify db (svn_fs__dag_get_id ancestor_node) (svn_fs__dag_get_id txn_root_node) source_id
                   (svn_fs__set_txn_root db txn_name) ()) (\<lambda>_.
            svn_fs__set_txn_base db txn_name source_id)))))"

section \<open>Committing\<close>

definition txn_body_commit :: "'c md5_routines \<Rightarrow> 'd bdb \<Rightarrow> bytes \<Rightarrow> svn_fs_txn_t \<Rightarrow> ('d, int) trail" where
  "txn_body_commit md5 db date txn =
     (let txn_name = svn_fs_txn_name txn in
      tbind (svn_fs__youngest_rev db) (\<lambda>youngest_rev.
      tbind (svn_fs__rev_get_root db youngest_rev) (\<lambda>y_rev_root_id.
      tbind (svn_fs__dag_txn_base_root db txn_name) (\<lambda>txn_base_root_node.
        if \<not> svn_fs__id_eq y_rev_root_id (svn_fs__dag_get_id txn_base_root_node) then tfail SVN_ERR_TXN_OUT_OF_DATE
        else svn_fs__dag_commit_txn md5 db date txn_name))))"

text \<open>
  One turn of the loop: the result of the commit, or \<open>None\<close> when another revision has been committed in
  between.  The loop is a sequence of transactions, and \<open>others k\<close> is what other processes do to the
  database before the transaction with the number \<open>k\<close>; \<open>date k\<close> is the date that the turn beginning there gives to
  the revision.
\<close>

definition commit_turn ::
  "(nat \<Rightarrow> 'd \<Rightarrow> 'd) \<Rightarrow> ((bytes, svn_fs_dirent_t) fmap \<Rightarrow> bytes list) \<Rightarrow> 'c md5_routines \<Rightarrow> 'd bdb \<Rightarrow> (nat \<Rightarrow> bytes) \<Rightarrow> svn_fs_txn_t
     \<Rightarrow> nat \<Rightarrow> 'd \<Rightarrow> (int option svn_result \<times> 'd) option"
where
  "commit_turn others order md5 db date txn k s =
     fs_then (svn_fs_youngest_rev db (others k s)) (\<lambda>youngish_rev s.
     fs_then (svn_fs_revision_root db youngish_rev (others (k + 1) s)) (\<lambda>youngish_root s.
     fs_then (svn_fs__retry_txn db (txn_body_get_root db youngish_root) (others (k + 2) s)) (\<lambda>youngish_root_node s.
     fs_then (svn_fs__retry_txn db (txn_body_merge order db None youngish_root_node txn) (others (k + 3) s)) (\<lambda>_ s.
       case svn_fs__retry_txn db (txn_body_commit md5 db (date k) txn) (others (k + 4) s) of
         None \<Rightarrow> None
       | Some (Ok new_rev, s) \<Rightarrow> Some (Ok (Some new_rev), s)
       | Some (Abort, s) \<Rightarrow> Some (Abort, s)
       | Some (Err e, s) \<Rightarrow>
           if e \<noteq> SVN_ERR_TXN_OUT_OF_DATE then Some (Err e, s)
           else
             fs_then (svn_fs_youngest_rev db (others (k + 5) s)) (\<lambda>youngest_rev s.
               if youngest_rev = youngish_rev then Some (Err e, s) else Some (Ok None, s))))))"

partial_function (option) commit_loop ::
  "(nat \<Rightarrow> 'd \<Rightarrow> 'd) \<Rightarrow> ((bytes, svn_fs_dirent_t) fmap \<Rightarrow> bytes list) \<Rightarrow> 'c md5_routines \<Rightarrow> 'd bdb \<Rightarrow> (nat \<Rightarrow> bytes) \<Rightarrow> svn_fs_txn_t
     \<Rightarrow> nat \<Rightarrow> 'd \<Rightarrow> (int svn_result \<times> 'd) option"
where
  "commit_loop others order md5 db date txn k s =
     (case commit_turn others order md5 db date txn k s of
        None \<Rightarrow> None
      | Some (r, s) \<Rightarrow>
          (case r of
             Err e \<Rightarrow> Some (Err e, s)
           | Abort \<Rightarrow> Some (Abort, s)
           | Ok (Some new_rev) \<Rightarrow> Some (Ok new_rev, s)
           | Ok None \<Rightarrow> commit_loop others order md5 db date txn (k + 6) s))"

definition svn_fs_commit_txn ::
  "(nat \<Rightarrow> 'd \<Rightarrow> 'd) \<Rightarrow> ((bytes, svn_fs_dirent_t) fmap \<Rightarrow> bytes list) \<Rightarrow> 'c md5_routines \<Rightarrow> 'd bdb \<Rightarrow> (nat \<Rightarrow> bytes) \<Rightarrow> svn_fs_txn_t
     \<Rightarrow> 'd \<Rightarrow> (int svn_result \<times> 'd) option"
where
  "svn_fs_commit_txn others order md5 db date txn = commit_loop others order md5 db date txn 0"

definition svn_fs_merge ::
  "((bytes, svn_fs_dirent_t) fmap \<Rightarrow> bytes list) \<Rightarrow> 'd bdb \<Rightarrow> svn_fs_root_t \<Rightarrow> svn_fs_root_t \<Rightarrow> svn_fs_root_t \<Rightarrow> 'd
     \<Rightarrow> (unit svn_result \<times> 'd) option"
where
  "svn_fs_merge order db source_root target_root ancestor_root s =
     (if \<not> svn_fs_is_txn_root target_root then Some (Err not_txn, s)
      else
        fs_then (svn_fs__retry_txn db (txn_body_get_root db ancestor_root) s) (\<lambda>ancestor s.
        fs_then (svn_fs__retry_txn db (txn_body_get_root db source_root) s) (\<lambda>src s.
        case svn_fs_txn_root_name target_root of
          None \<Rightarrow> Some (Abort, s)
        | Some name \<Rightarrow>
            fs_then (svn_fs_open_txn db name s) (\<lambda>txn s.
              svn_fs__retry_txn db (txn_body_merge order db (Some ancestor) src txn) s))))"

section \<open>History\<close>

text \<open>
  The id before an id: the last number is decremented, and a branch whose number becomes zero is left.
  \<open>None\<close> is an id whose first component has become the end mark.
\<close>

definition hack_predecessor :: "svn_fs_id_t \<Rightarrow> svn_fs_id_t option svn_result" where
  "hack_predecessor nid =
     (let len = svn_fs__id_length nid in
      if len < 2 then Abort
      else if nid ! (len - 1) - 1 = 0 then Ok (if len = 2 then None else Some (take (len - 2) nid))
      else Ok (Some ((take len nid)[len - 1 := nid ! (len - 1) - 1])))"

text \<open>Every turn finds another node, so that the number of nodes bounds the turns.\<close>

fun node_revisions :: "nat \<Rightarrow> 'd bdb \<Rightarrow> svn_fs_id_t \<Rightarrow> ('d, int list) trail" where
  "node_revisions 0 db tmp_id = tlift Abort"
| "node_revisions (Suc n) db tmp_id =
     tbind (svn_fs__dag_get_node db tmp_id) (\<lambda>node.
     tbind (svn_fs__dag_get_revision db node) (\<lambda>(revision, node).
     tbind (tlift (hack_predecessor tmp_id)) (\<lambda>p.
       case p of
         None \<Rightarrow> tret [revision]
       | Some i \<Rightarrow> tbind (node_revisions n db i) (\<lambda>revisions. tret (revision # revisions)))))"

fun all_node_revisions :: "nat \<Rightarrow> 'd bdb \<Rightarrow> svn_fs_id_t list \<Rightarrow> ('d, int list) trail" where
  "all_node_revisions n db [] = tret []"
| "all_node_revisions n db (i # ids) =
     tbind (node_revisions n db i) (\<lambda>rs. tbind (all_node_revisions n db ids) (\<lambda>rest. tret (rs @ rest)))"

text \<open>Duplicates are dropped, and what is equal to the value of \<open>prev_rev\<close> at the start.\<close>

fun drop_duplicates :: "int \<Rightarrow> int list \<Rightarrow> int list" where
  "drop_duplicates prev_rev [] = []"
| "drop_duplicates prev_rev (r # rs) = (if r \<noteq> prev_rev then r # drop_duplicates r rs else drop_duplicates r rs)"

definition txn_body_revisions_changed :: "'d bdb \<Rightarrow> svn_fs_id_t list \<Rightarrow> ('d, int list) trail" where
  "txn_body_revisions_changed db ids =
     tbind (db_peek (db_count db Nodes)) (\<lambda>n.
     tbind (all_node_revisions (Suc n) db ids) (\<lambda>revisions.
       tret (drop_duplicates SVN_INVALID_REVNUM (sort_key uminus revisions))))"

fun node_ids_of :: "'d bdb \<Rightarrow> svn_fs_root_t \<Rightarrow> bytes list \<Rightarrow> 'd \<Rightarrow> (svn_fs_id_t list svn_result \<times> 'd) option" where
  "node_ids_of db root [] s = Some (Ok [], s)"
| "node_ids_of db root (path # paths) s =
     fs_then (svn_fs_node_id db root path s) (\<lambda>tmp_id s.
     fs_then (node_ids_of db root paths s) (\<lambda>ids s. Some (Ok (svn_fs__id_copy tmp_id # ids), s)))"

definition svn_fs_revisions_changed :: "'d bdb \<Rightarrow> svn_fs_root_t \<Rightarrow> bytes list \<Rightarrow> 'd \<Rightarrow> (int list svn_result \<times> 'd) option" where
  "svn_fs_revisions_changed db root paths s =
     fs_then (node_ids_of db root paths s) (\<lambda>ids s. svn_fs__retry_txn db (txn_body_revisions_changed db ids) s)"

section \<open>Deltification of paths\<close>

definition svn_fs_deltify ::
  "((bytes, svn_fs_dirent_t) fmap \<Rightarrow> svn_fs_dirent_t list) \<Rightarrow> 'c md5_routines \<Rightarrow> 'd bdb \<Rightarrow> svn_fs_root_t \<Rightarrow> bytes \<Rightarrow> bool
     \<Rightarrow> 'd \<Rightarrow> (unit svn_result \<times> 'd) option"
where
  "svn_fs_deltify order md5 db root path recursive s =
     (if \<not> svn_fs_is_revision_root root then Some (Err SVN_ERR_FS_NOT_REVISION_ROOT, s)
      else
        fs_then (svn_fs_node_id db root path s) (\<lambda>nid s.
          svn_fs__retry_txn db (txn_body_deltify order md5 db nid recursive) s))"

definition svn_fs_undeltify ::
  "((bytes, svn_fs_dirent_t) fmap \<Rightarrow> svn_fs_dirent_t list) \<Rightarrow> 'c md5_routines \<Rightarrow> 'd bdb \<Rightarrow> svn_fs_root_t \<Rightarrow> bytes \<Rightarrow> bool
     \<Rightarrow> 'd \<Rightarrow> (unit svn_result \<times> 'd) option"
where
  "svn_fs_undeltify order md5 db root path recursive s =
     (if \<not> svn_fs_is_revision_root root then Some (Err SVN_ERR_FS_NOT_REVISION_ROOT, s)
      else
        fs_then (svn_fs_node_id db root path s) (\<lambda>nid s.
          svn_fs__retry_txn db (txn_body_undeltify order md5 db nid recursive) s))"

section \<open>Related nodes\<close>

text \<open>The answer for ids that are related by their numbers, or else the older and the younger id.\<close>

definition related_by_id :: "svn_fs_id_t \<Rightarrow> svn_fs_id_t \<Rightarrow> bool svn_result + svn_fs_id_t \<times> svn_fs_id_t" where
  "related_by_id id1 id2 =
     (case svn_fs_id_distance id1 id2 of
        Abort \<Rightarrow> Inl Abort
      | Err e \<Rightarrow> Inl (Err e)
      | Ok d \<Rightarrow>
          if d \<noteq> - 1 then Inl (Ok True)
          else
            (case svn_bind (id_at id1 0) (\<lambda>a. svn_bind (id_at id2 0) (\<lambda>b. Ok (b < a))) of
               Ok first_younger \<Rightarrow> Inr (if first_younger then (id2, svn_fs__id_copy id1) else (id1, svn_fs__id_copy id2))
             | Err e \<Rightarrow> Inl (Err e)
             | Abort \<Rightarrow> Inl Abort))"

text \<open>The id of the node that a node is a copy of.\<close>

definition copied_id :: "'d bdb \<Rightarrow> svn_fs_id_t \<Rightarrow> 'd \<Rightarrow> (svn_fs_id_t option svn_result \<times> 'd) option" where
  "copied_id db tmp_id s =
     (case svn_bind (svn_fs_unparse_id tmp_id) (\<lambda>str. mem_bytes (sb_data str) (unat (sb_len str))) of
        Abort \<Rightarrow> Some (Abort, s)
      | Err e \<Rightarrow> Some (Err e, s)
      | Ok id_str \<Rightarrow>
          fs_then (svn_fs_copied_from db svn_fs_id_root (apr_pstrndup id_str) s) (\<lambda>(r, cp_path) s.
            if r < 0 then Some (Ok None, s)
            else
              fs_then (svn_fs_revision_root db r s) (\<lambda>root s.
                case cp_path of
                  None \<Rightarrow> Some (Abort, s)
                | Some path \<Rightarrow> fs_then (svn_fs_node_id db root path s) (\<lambda>copy_id s. Some (Ok (Some copy_id), s)))))"

text \<open>
  With \<open>start\<close> the ids are compared and put in order; without it, the loop goes on from the younger
  one, \<open>b\<close>, through its predecessors.  The error of the inner call is dropped.
\<close>

partial_function (option) check_related ::
  "bool \<Rightarrow> 'd bdb \<Rightarrow> svn_fs_id_t \<Rightarrow> svn_fs_id_t \<Rightarrow> 'd \<Rightarrow> (bool svn_result \<times> 'd) option"
where
  "check_related start db a b s =
     (if start then
        (case related_by_id a b of
           Inl r \<Rightarrow> Some (r, s)
         | Inr ids \<Rightarrow> check_related False db (fst ids) (snd ids) s)
      else
        (case copied_id db b s of
           None \<Rightarrow> None
         | Some p \<Rightarrow>
             (case fst p of
                Abort \<Rightarrow> Some (Abort, snd p)
              | Err e \<Rightarrow> Some (Err e, snd p)
              | Ok copy \<Rightarrow>
                  Option.bind (case copy of None \<Rightarrow> Some (Ok False, snd p) | Some copy_id \<Rightarrow> check_related True db a copy_id (snd p))
                    (\<lambda>q.
                      if fst q = Ok True \<or> fst q = Abort then Some q
                      else
                        (case hack_predecessor b of
                           Abort \<Rightarrow> Some (Abort, snd q)
                         | Err e \<Rightarrow> Some (Err e, snd q)
                         | Ok before \<Rightarrow>
                             (case before of
                                None \<Rightarrow> Some (Ok False, snd q)
                              | Some i \<Rightarrow> check_related False db a i (snd q)))))))"

definition svn_fs_check_related :: "'d bdb \<Rightarrow> svn_fs_id_t \<Rightarrow> svn_fs_id_t \<Rightarrow> 'd \<Rightarrow> (bool svn_result \<times> 'd) option" where
  "svn_fs_check_related db id1 id2 = check_related True db id1 id2"

section \<open>Refinement\<close>

lemma refines_get_root [refine_intros]:
  "bdb_laws db view \<Longrightarrow> refines view (txn_body_get_root db root) (txn_body_get_root ref_db root)"
  unfolding txn_body_get_root_def by (intro refine_intros)

lemma refines_check_fs [refine_intros]:
  "bdb_laws db view \<Longrightarrow> refines view (tlift (svn_fs__check_fs db)) (tlift (svn_fs__check_fs ref_db))"
  by (simp add: svn_fs__check_fs_def bdb_laws_def refines_tlift)

lemma refines_conflict_at [refine_intros]: "refines view (conflict_at path) (conflict_at path)"
  unfolding conflict_at_def by (intro refine_intros)

lemma refines_reidentify [refine_intros]:
  assumes "bdb_laws db view" and "\<And>i. refines view (use i) (use' i)"
  shows "refines view (reidentify db a t s use x) (reidentify ref_db a t s use' x)"
  unfolding reidentify_def by (intro refine_intros assms)

lemma refines_target_takes [refine_intros]:
  "bdb_laws db view \<Longrightarrow> refines view (target_takes db tgt name nid) (target_takes ref_db tgt name nid)"
  unfolding target_takes_def by (intro refine_intros)

lemma refines_merge_both [refine_intros]:
  assumes "bdb_laws db view" and "\<And>p t s a. refines view (rec p t s a) (rec' p t s a)"
  shows "refines view (merge_both db rec path tgt a s t) (merge_both ref_db rec' path tgt a s t)"
  unfolding merge_both_def by (intro refine_intros assms)

lemma refines_merge_only [refine_intros]:
  "refines view (merge_source_only path tgt a s) (merge_source_only path tgt a s)"
  "bdb_laws db view \<Longrightarrow> refines view (merge_target_only db path tgt a t) (merge_target_only ref_db path tgt a t)"
  unfolding merge_source_only_def merge_target_only_def svn_fs__dag_delete_tree_def by (intro refine_intros; assumption?)+

lemma refines_merge_ancestor_loop [refine_intros]:
  assumes "bdb_laws db view" and "\<And>p t s a. refines view (rec p t s a) (rec' p t s a)"
  shows "refines view (merge_ancestor_loop db rec path ae se keys tgt te) (merge_ancestor_loop ref_db rec' path ae se keys tgt te)"
proof (induction keys arbitrary: tgt te)
  case (Cons key keys)
  show ?case
    by (cases "fmlookup ae key"; cases "fmlookup se key"; cases "fmlookup te key"; simp) (intro refine_intros assms Cons)+
qed (simp add: refines_tret)

lemma refines_merge_source_loop [refine_intros]:
  "bdb_laws db view \<Longrightarrow> refines view (merge_source_loop db path se te keys tgt) (merge_source_loop ref_db path se te keys tgt)"
proof (induction keys arbitrary: tgt)
  case (Cons key keys)
  show ?case
    by (cases "fmlookup se key"; cases "fmlookup te key"; simp) (intro refine_intros Cons)+
qed (simp add: refines_tret)

lemma refines_merge_depth [refine_intros]:
  "bdb_laws db view \<Longrightarrow> refines view (merge_depth n order db path t s a) (merge_depth n order ref_db path t s a)"
proof (induction n arbitrary: path t s a)
  case (Suc n)
  show ?case by (simp only: merge_depth.simps Let_def) (intro refine_intros Suc)
qed (simp add: refines_tlift)

lemma refines_merge [refine_intros]:
  "bdb_laws db view \<Longrightarrow> refines view (merge order db path t s a) (merge order ref_db path t s a)"
  unfolding merge_def by (intro refine_intros)

lemma refines_txn_body_merge [refine_intros]:
  "bdb_laws db view \<Longrightarrow> refines view (txn_body_merge order db anc src txn) (txn_body_merge order ref_db anc src txn)"
  unfolding txn_body_merge_def Let_def by (intro refine_intros)

lemma refines_txn_body_commit [refine_intros]:
  "bdb_laws db view \<Longrightarrow> refines view (txn_body_commit md5 db date txn) (txn_body_commit md5 ref_db date txn)"
  unfolding txn_body_commit_def Let_def by (intro refine_intros)

end
