(* ===== verification/Fs_Frame.thy ===== *)
theory Fs_Frame
  imports Fs_Merge
begin

text \<open>
  What the operations leave alone.  A relation between the tables before and after that is
  reflexive and transitive is kept by an operation when all its steps keep it: the reading
  operations keep every such relation, equality included; the operations on nodes keep those that
  writing nodes, representations and strings keeps; the operations on trees those that writing
  transactions keeps as well.
\<close>

definition keeps :: "('d \<Rightarrow> 'd \<Rightarrow> bool) \<Rightarrow> ('d, 'a) trail \<Rightarrow> bool" where
  "keeps R m \<longleftrightarrow> (\<forall>v x v'. m v = Ok (x, v') \<longrightarrow> R v v')"

lemma keepsD: "keeps R m \<Longrightarrow> m v = Ok (x, v') \<Longrightarrow> R v v'"
  by (simp add: keeps_def)

named_theorems keep

lemma keeps_prod [keep]: "(\<And>x y. keeps R (g x y)) \<Longrightarrow> keeps R (case p of (x, y) \<Rightarrow> g x y)"
  by (cases p) simp

lemma keeps_cases [keep]:
  "keeps R m \<Longrightarrow> keeps R n \<Longrightarrow> keeps R (if b then m else n)"
  "keeps R m \<Longrightarrow> (\<And>x. keeps R (f x)) \<Longrightarrow> keeps R (case o1 of None \<Rightarrow> m | Some x \<Rightarrow> f x)"
  "keeps R m \<Longrightarrow> (\<And>x xs. keeps R (g x xs)) \<Longrightarrow> keeps R (case l of [] \<Rightarrow> m | x # xs \<Rightarrow> g x xs)"
  "(\<And>x. keeps R (f x)) \<Longrightarrow> (\<And>e. keeps R (h e)) \<Longrightarrow> keeps R (case r of DB_ok x \<Rightarrow> f x | DB_err e \<Rightarrow> h e)"
  by (auto split: option.split prod.split list.split db_result.split)

locale frame =
  fixes R :: "'d \<Rightarrow> 'd \<Rightarrow> bool"
  assumes R_refl: "R v v" and R_trans: "R u v \<Longrightarrow> R v w \<Longrightarrow> R u w"
begin

lemma keeps_tbind [keep]: "keeps R m \<Longrightarrow> (\<And>x. keeps R (f x)) \<Longrightarrow> keeps R (tbind m f)"
  unfolding keeps_def
proof (intro allI impI)
  fix v y w
  assume m: "\<forall>v x v'. m v = Ok (x, v') \<longrightarrow> R v v'" and f: "\<And>x. \<forall>v y v'. f x v = Ok (y, v') \<longrightarrow> R v v'" and t: "tbind m f v = Ok (y, w)"
  obtain x u where "m v = Ok (x, u)" "f x u = Ok (y, w)" using t by (auto simp: tbind_def svn_bind_Ok_iff)
  then show "R v w" using m f R_trans by blast
qed

lemma keeps_steps [keep]:
  "keeps R (tret x)" "keeps R (tfail e)" "keeps R (tlift r)" "keeps R (db_peek rd)" "keeps R (db_read rd')" "keeps R (db_read_or rd' h)"
  by (auto simp: keeps_def tret_def tfail_def tlift_def db_peek_def db_read_def db_read_or_def svn_bind_Ok_iff R_refl
      split: db_result.splits)

lemma keeps_tforeach [keep]: "(\<And>x. keeps R (f x)) \<Longrightarrow> keeps R (tforeach f xs)"
  by (induction xs) (auto intro!: keep)

lemma keeps_tignore [keep]: "keeps R m \<Longrightarrow> keeps R (tignore m)"
  unfolding keeps_def tignore_def using R_refl by (auto split: svn_result.splits)

end

section \<open>Inside the svndiff parser\<close>

definition in_dec :: "('d \<Rightarrow> 'd \<Rightarrow> bool) \<Rightarrow> ('w \<times> 'd) decode_baton \<Rightarrow> ('w \<times> 'd) decode_baton \<Rightarrow> bool" where
  "in_dec R dec dec' \<longleftrightarrow> R (snd (consumer_baton dec)) (snd (consumer_baton dec'))"

context frame
begin

lemma frame_in_dec: "frame (in_dec R)"
  by unfold_locales (auto simp: in_dec_def R_refl intro: R_trans)

lemma decode_loop_keeps:
  assumes "\<And>w p p'. c (Some w) p = Ok p' \<Longrightarrow> R (snd p) (snd p')"
  shows "decode_loop c dec = Ok dec' \<Longrightarrow> in_dec R dec dec'"
proof (induction "length (buffer dec)" arbitrary: dec rule: less_induct)
  case less
  let ?t = "decode_turn (last_sview_offset dec) (last_sview_len dec) (buffer dec)"
  show ?case
  proof (cases "\<exists>w b. ?t = Ok (Window w b)")
    case True
    then obtain w b where t: "?t = Ok (Window w b)" by blast
    obtain cb where cb: "c (Some w) (consumer_baton dec) = Ok cb"
      "decode_loop c (dec\<lparr>consumer_baton := cb, buffer := b, last_sview_offset := sview_offset w, last_sview_len := sview_len w\<rparr>) = Ok dec'"
      using less.prems t by (subst (asm) decode_loop.simps) (auto split: svn_result.splits)
    have "in_dec R (dec\<lparr>consumer_baton := cb, buffer := b, last_sview_offset := sview_offset w, last_sview_len := sview_len w\<rparr>) dec'"
      using cb(2) decode_turn_shorter [OF t] by (intro less.hyps) simp_all
    then show ?thesis using assms [OF cb(1)] R_trans by (auto simp: in_dec_def)
  next
    case False
    then have "dec' = dec" using less.prems by (subst (asm) decode_loop.simps) (auto split: svn_result.splits turn.splits)
    then show ?thesis by (simp add: in_dec_def R_refl)
  qed
qed

lemma write_handler_keeps:
  assumes "\<And>w p p'. c w p = Ok p' \<Longrightarrow> R (snd p) (snd p')"
  shows "keeps (in_dec R) (\<lambda>dec. write_handler c dec chunk)"
  unfolding keeps_def
proof (intro allI impI)
  fix dec x dec' assume "write_handler c dec chunk = Ok (x, dec')"
  then obtain d where d: "decode_loop c (dec\<lparr>header_bytes := header_bytes dec + nheader dec chunk, buffer := buffer dec @ drop (nheader dec chunk) chunk\<rparr>) = Ok d"
      "d = dec'"
    by (auto simp: write_handler_def svn_bind_Ok_iff split: if_splits)
  show "in_dec R dec dec'" using decode_loop_keeps [OF assms d(1)] d(2) by (simp add: in_dec_def)
qed

lemma parser_keeps:
  "keeps R m \<Longrightarrow> keeps (in_dec R) (in_parser m)" "keeps (in_dec R) parser_done" "keeps (in_dec R) (parser_update f)"
  by (auto simp: keeps_def in_parser_def parser_done_def parser_update_def in_dec_def svn_bind_Ok_iff R_refl split: prod.splits)

lemma window_ops_keeps:
  assumes "\<And>off len. keeps R (rd off len)"
  shows "keeps R (window_ops rd w d room os src t n)"
proof (induction os arbitrary: src t n)
  case (Cons op os)
  have "keeps R (window_op rd w op src t)"
    unfolding window_op_def Let_def by (cases "action_code op"; simp; intro keep assms conjI impI)
  then show ?case unfolding window_ops.simps Let_def by (intro keep Cons.IH)
qed (simp add: keeps_steps)

lemma rep_window_handler_keeps:
  assumes "\<And>k off len. keeps R (read k off len)" and "rep_window_handler read w p = Ok p'"
  shows "R (snd p) (snd p')"
proof -
  obtain wb s where p: "p = (wb, s)" by fastforce
  show ?thesis
    using assms(2) keepsD [OF window_ops_keeps, of "read (wh_base_rep wb)", OF assms(1)]
    by (auto simp: rep_window_handler_def p svn_bind_Ok_iff Let_def R_refl split: option.splits if_splits prod.splits)
qed

end

text \<open>The operations on the tables of the filesystem.\<close>

locale fs_frame = frame R for R :: "fs_tables \<Rightarrow> fs_tables \<Rightarrow> bool"
begin

section \<open>Reading operations\<close>

lemma keeps_string_reads [keep]:
  "keeps R (locate_key ref_db q)" "keeps R (get_next_length ref_db q i)"
  unfolding locate_key_def get_next_length_def by (intro keep)+

lemma keeps_seek_record [keep]: "keeps R (seek_record ref_db q n i l off)"
  by (induction n arbitrary: i l off) (auto intro!: keep)

lemma keeps_string_read_once [keep]: "keeps R (string_read ref_db key off n)"
  unfolding string_read_def Let_def by (intro keep)

lemma keeps_string_read_loop [keep]: "keeps R (string_read_loop ref_db key n off l acc)"
  by (induction n arbitrary: acc) (auto simp: Let_def intro!: keep)

lemma keeps_size_loop [keep]: "keeps R (size_loop ref_db q n i acc)"
  by (induction n arbitrary: i acc) (auto intro!: keep)

lemma keeps_string_whole [keep]:
  "keeps R (svn_fs__string_read ref_db key off n)" "keeps R (svn_fs__string_size ref_db key)" "keeps R (svn_fs__read_rep ref_db key)"
  unfolding svn_fs__string_read_def svn_fs__string_size_def svn_fs__read_rep_def Let_def by (intro keep)+

lemma keeps_send_svndiff:
  assumes "\<And>k off len. keeps R (read k off len)"
  shows "keeps (in_dec R) (send_svndiff n ref_db read k off)"
proof (induction n arbitrary: off)
  case (Suc n)
  show ?case unfolding send_svndiff.simps
    by (intro frame.keeps_tbind [OF frame_in_dec] frame.keeps_steps [OF frame_in_dec] keeps_cases parser_keeps keep
        write_handler_keeps rep_window_handler_keeps [OF assms] Suc.IH)
qed (simp add: frame.keeps_steps [OF frame_in_dec])

lemma keeps_read_windows:
  assumes "\<And>k off len. keeps R (read k off len)"
  shows "keeps (in_dec R) (read_windows ref_db read off len ws)"
proof (induction ws)
  case (Cons w ws)
  show ?case unfolding read_windows.simps Let_def
    by (intro frame.keeps_tbind [OF frame_in_dec] frame.keeps_steps [OF frame_in_dec] keeps_cases parser_keeps keep
        keeps_send_svndiff [OF assms] Cons.IH)
qed (simp add: frame.keeps_steps [OF frame_in_dec])

lemma keeps_read_delta:
  assumes "\<And>k off len. keeps R (read k off len)"
  shows "keeps R (read_delta ref_db read ws off len)"
proof -
  have "keeps (in_dec R) (parser_close read)"
    unfolding keeps_def parser_close_def close_handler_def in_dec_def
    by (auto simp: svn_bind_Ok_iff split: if_splits dest!: rep_window_handler_keeps [of read, OF assms])
  then have "keeps (in_dec R) (parse_delta ref_db read ws off len)"
    unfolding parse_delta_def
    by (intro frame.keeps_tbind [OF frame_in_dec] keeps_read_windows [OF assms] write_handler_keeps rep_window_handler_keeps [OF assms])
  then show ?thesis
    unfolding keeps_def read_delta_def in_dec_def
    by (fastforce simp: svn_bind_Ok_iff svn_txdelta_parse_svndiff_def Let_def split: if_splits)
qed

lemma keeps_read_range: "keeps R (read_range n ref_db k off len)"
proof (induction n arbitrary: k off len)
  case (Suc n)
  show ?case unfolding read_range.simps by (intro keep keeps_read_delta Suc)
qed (simp add: keeps_steps)

lemma keeps_rep_reads [keep]:
  "keeps R (rep_read_range ref_db k off len)" "keeps R (svn_fs__rep_contents_size ref_db k)"
  unfolding rep_read_range_def svn_fs__rep_contents_size_def by (intro keep keeps_read_range)+

lemma keeps_rep_contents [keep]:
  "keeps R (svn_fs__rep_contents ref_db k)" "keeps R (txn_body_read_rep ref_db rb len)"
  unfolding svn_fs__rep_contents_def txn_body_read_rep_def by (intro keep)+

lemma keeps_node_reads [keep]:
  "keeps R (svn_fs__get_node_revision ref_db nid)" "keeps R (last_key_before ref_db T key)" "keeps R (svn_fs__new_node_id ref_db)"
  unfolding svn_fs__get_node_revision_def last_key_before_def svn_fs__new_node_id_def by (intro keep)+

lemma keeps_new_successor_id [keep]: "keeps R (svn_fs__new_successor_id ref_db nid)"
  unfolding svn_fs__new_successor_id_def Let_def by (intro keep)

lemma keeps_rev_reads [keep]: "keeps R (svn_fs__get_rev ref_db r)" "keeps R (svn_fs__youngest_rev ref_db)"
  unfolding svn_fs__get_rev_def svn_fs__youngest_rev_def by (intro keep)+

lemma keeps_rev_get_root [keep]: "keeps R (svn_fs__rev_get_root ref_db r)"
  unfolding svn_fs__rev_get_root_def by (intro keep)

lemma keeps_get_txn [keep]: "keeps R (svn_fs__get_txn ref_db t)"
  unfolding svn_fs__get_txn_def by (intro keep)

lemma keeps_get_txn_ids [keep]: "keeps R (svn_fs__get_txn_ids ref_db t)"
  unfolding svn_fs__get_txn_ids_def by (intro keep)

lemma keeps_dag_node_revision [keep]: "keeps R (get_node_revision ref_db node)"
  unfolding get_node_revision_def by (intro keep)

lemma keeps_dag_node [keep]:
  "keeps R (svn_fs__dag_check_mutable ref_db node)" "keeps R (svn_fs__dag_get_node ref_db nid)"
  "keeps R (svn_fs__dag_get_revision ref_db node)" "keeps R (get_dir_entries ref_db node_rev)" "keeps R (svn_fs__dag_get_proplist ref_db node)"
  "keeps R (svn_fs__dag_get_contents ref_db node)" "keeps R (svn_fs__dag_file_length ref_db node)" "keeps R (svn_fs__dag_copied_from ref_db node)"
  "keeps R (svn_fs__things_different ref_db b1 b2 node node')"
  unfolding svn_fs__dag_check_mutable_def svn_fs__dag_get_node_def svn_fs__dag_get_revision_def get_dir_entries_def svn_fs__dag_get_proplist_def
    svn_fs__dag_get_contents_def svn_fs__dag_file_length_def svn_fs__dag_copied_from_def svn_fs__things_different_def Let_def by (intro keep)+

lemma keeps_dag_node_opt [keep]: "keeps R (dag_get_node_opt ref_db i)"
  unfolding dag_get_node_opt_def by (intro keep)

lemma keeps_entries_skel [keep]: "keeps R (svn_fs__dag_dir_entries_skel ref_db node)"
  unfolding svn_fs__dag_dir_entries_skel_def by (intro keep)

lemma keeps_entries [keep]: "keeps R (dir_entry_from_node ref_db node name)" "keeps R (svn_fs__dag_dir_entries_hash ref_db node)"
  unfolding dir_entry_from_node_def svn_fs__dag_dir_entries_hash_def by (intro keep)+

lemma keeps_dag_open [keep]: "keeps R (svn_fs__dag_open ref_db node name)"
  unfolding svn_fs__dag_open_def by (intro keep)

lemma keeps_dag_roots [keep]:
  "keeps R (svn_fs__dag_revision_root ref_db r)" "keeps R (svn_fs__dag_txn_root ref_db t)" "keeps R (svn_fs__dag_txn_base_root ref_db t)"
  unfolding svn_fs__dag_revision_root_def svn_fs__dag_txn_root_def svn_fs__dag_txn_base_root_def by (intro keep)+

lemma keeps_root_node [keep]: "keeps R (root_node ref_db root)" "keeps R (not_found root)"
  unfolding root_node_def not_found_def by (intro keep)+

lemma keeps_dag_open_opt [keep]: "keeps R (dag_open_opt ref_db here entry)"
  using keepsD [OF keeps_dag_open] R_refl by (auto simp: keeps_def dag_open_opt_def split: svn_result.splits if_splits)

lemma keeps_open_path_step [keep]: "keeps R (open_path_step ref_db root opt entry rest here e up)"
  unfolding open_path_step_def by (intro keep)

lemma keeps_open_path_loop [keep]: "keeps R (open_path_loop ref_db root opt rest here e up)"
proof (induction "length rest" arbitrary: rest here e up rule: less_induct)
  case less
  obtain entry nx where nx: "next_entry_name rest = (entry, nx)" by fastforce
  have IH: "keeps R (open_path_loop ref_db root opt r here e up)" if "nx = Some r" for r here e up
    using next_entry_name_shorter [of rest entry r] nx that by (intro less) simp
  show ?case
    by (subst open_path_loop.simps, unfold nx prod.case)
      (rule keeps_tbind [OF keeps_open_path_step], auto intro!: keeps_steps IH split: option.split)
qed

lemma keeps_open_path [keep]: "keeps R (open_path ref_db root path opt)"
  unfolding open_path_def by (intro keep)

lemma keeps_get_dag [keep]: "keeps R (get_dag ref_db root path)"
  unfolding get_dag_def by (intro keep)

lemma keeps_read_bodies [keep]:
  "keeps R (txn_body_node_id ref_db root path)" "keeps R (txn_body_node_created_rev ref_db root path)" "keeps R (txn_body_node_kind ref_db root path)"
  "keeps R (txn_body_node_prop ref_db root path name)" "keeps R (txn_body_node_proplist ref_db root path)"
  "keeps R (txn_body_dir_entries ref_db root path)" "keeps R (txn_body_copied_from ref_db root path)" "keeps R (txn_body_file_length ref_db root path)"
  "keeps R (txn_body_get_file_contents ref_db root path)" "keeps R (txn_body_revision_root ref_db r)" "keeps R (txn_body_txn_root ref_db txn)"
  "keeps R (txn_body_open_txn ref_db t)" "keeps R (txn_body_get_root ref_db root)"
  unfolding txn_body_node_id_def txn_body_node_created_rev_def txn_body_node_kind_def txn_body_node_prop_def txn_body_node_proplist_def
    txn_body_dir_entries_def txn_body_copied_from_def txn_body_file_length_def txn_body_get_file_contents_def txn_body_revision_root_def
    txn_body_txn_root_def txn_body_open_txn_def txn_body_get_root_def by (intro keep)+

lemma keeps_compare_bodies [keep]:
  "keeps R (txn_body_is_different ref_db root path root' path')" "keeps R (txn_body_props_changed ref_db root path root' path')"
  "keeps R (txn_body_contents_changed ref_db root path root' path')"
  unfolding txn_body_is_different_def txn_body_props_changed_def txn_body_contents_changed_def by (intro keep)+

end

text \<open>Equality is such a relation: the reading operations leave everything as it is.\<close>

interpretation reads: fs_frame "(=)"
  by unfold_locales simp_all

end
