(* ===== verification/Fs_Changes.thy ===== *)
theory Fs_Changes
  imports Fs_Frame
begin

text \<open>
  What the writing operations leave alone.  The operations on nodes write nodes, representations and
  strings only; those on trees write transactions as well, and none but a commit writes revisions.
\<close>

lemma keeps_write_intro:
  "(\<And>v v'. wr v = DB_ok v' \<Longrightarrow> R v v') \<Longrightarrow> keeps R (db_write wr)" "(\<And>v v'. wr v = DB_ok v' \<Longrightarrow> R v v') \<Longrightarrow> keeps R (db_write_or wr h)"
  by (auto simp: keeps_def db_write_def db_write_or_def split: db_result.splits)

locale dag_frame = fs_frame +
  assumes put_node_kept: "R v (put_tab Nodes k x v)" and del_node_kept: "R v (del_tab Nodes k v)"
    and put_rep_kept: "R v (put_tab Representations k x v)" and del_rep_kept: "R v (del_tab Representations k v)"
    and str_kept: "R v (set_str k rs v)"
begin

section \<open>Strings and representations\<close>

lemma keeps_dag_writes [keep]:
  "keeps R (db_write (db_put ref_db Nodes k x))" "keeps R (db_write (db_del ref_db Nodes k))"
  "keeps R (db_write (db_put ref_db Representations k x))" "keeps R (db_write_or (db_del ref_db Representations k) h)"
  "keeps R (db_write (str_put ref_db k x))" "keeps R (db_write (str_set ref_db k x))" "keeps R (db_write_or (str_del ref_db k) h)"
  by (intro keeps_write_intro; auto simp: put_node_kept del_node_kept put_rep_kept del_rep_kept str_kept split: if_splits)+

lemma keeps_key_and_bump [keep]: "keeps R (get_key_and_bump ref_db)"
  unfolding get_key_and_bump_def Let_def by (intro keep)

lemma keeps_copy_loop [keep]: "keeps R (copy_loop ref_db q c n i r)"
  by (induction n arbitrary: i r) (auto intro!: keep)

lemma keeps_string_writes [keep]:
  "keeps R (svn_fs__string_append ref_db key d)" "keeps R (svn_fs__string_clear ref_db k)" "keeps R (svn_fs__string_delete ref_db k)"
  "keeps R (svn_fs__string_copy ref_db k)"
  unfolding svn_fs__string_append_def svn_fs__string_clear_def svn_fs__string_delete_def svn_fs__string_copy_def Let_def by (intro keep)+

lemma keeps_delete_strings [keep]: "keeps R (delete_strings ref_db ks)"
  by (induction ks) (auto intro!: keep)

lemma keeps_write_rep [keep]: "keeps R (svn_fs__write_rep ref_db k skel)" "keeps R (svn_fs__delete_rep ref_db k)"
  unfolding svn_fs__write_rep_def svn_fs__delete_rep_def by (intro keep)+

lemma keeps_write_new_rep [keep]: "keeps R (svn_fs__write_new_rep ref_db skel)"
  unfolding svn_fs__write_new_rep_def Let_def by (intro keep)

lemma keeps_copy_delta [keep]: "keeps R (copy_delta n ref_db k off sz str)"
  by (induction n arbitrary: off str) (auto intro!: keep)

lemma keeps_mutable_copy [keep]: "keeps R (mutable_copy ref_db k skel)"
  unfolding mutable_copy_def by (intro keep)

lemma keeps_rep_writes [keep]:
  "keeps R (svn_fs__get_mutable_rep ref_db key)" "keeps R (svn_fs__make_rep_immutable ref_db k)" "keeps R (svn_fs__delete_rep_if_mutable ref_db k)"
  "keeps R (rep_write ref_db k d)" "keeps R (svn_fs__rep_contents_clear ref_db k)"
  unfolding svn_fs__get_mutable_rep_def svn_fs__make_rep_immutable_def svn_fs__delete_rep_if_mutable_def rep_write_def
    svn_fs__rep_contents_clear_def by (intro keep)+

section \<open>Nodes\<close>

lemma keeps_node_writes [keep]:
  "keeps R (svn_fs__put_node_revision ref_db nid skel)" "keeps R (svn_fs__delete_nodes_entry ref_db nid)"
  unfolding svn_fs__put_node_revision_def svn_fs__delete_nodes_entry_def by (intro keep)+

lemma keeps_node_creation [keep]:
  "keeps R (svn_fs__create_node ref_db skel)" "keeps R (svn_fs__create_successor ref_db nid skel)"
  "keeps R (svn_fs__delete_node_revision ref_db nid)" "keeps R (set_node_revision ref_db node skel)"
  unfolding svn_fs__create_node_def svn_fs__create_successor_def svn_fs__delete_node_revision_def set_node_revision_def by (intro keep)+

lemma keeps_mutable_data_rep [keep]: "keeps R (mutable_data_rep ref_db node skel k)"
  unfolding mutable_data_rep_def by (intro keep)

lemma keeps_set_entry [keep]: "keeps R (set_entry ref_db node name nid)"
  unfolding set_entry_def Let_def by (intro keep)

lemma keeps_entry_writes [keep]:
  "keeps R (svn_fs__dag_set_entry ref_db node name nid)" "keeps R (make_entry ref_db node name d)" "keeps R (svn_fs__dag_link ref_db node child name)"
  "keeps R (svn_fs__dag_set_proplist ref_db node p)" "keeps R (svn_fs__dag_clone_child ref_db node name)"
  unfolding svn_fs__dag_set_entry_def make_entry_def svn_fs__dag_link_def svn_fs__dag_set_proplist_def svn_fs__dag_clone_child_def Let_def
  by (intro keep)+

lemma keeps_delete_key_rep [keep]: "keeps R (delete_key_rep ref_db skel)"
  unfolding delete_key_rep_def Let_def by (intro keep)

lemma keeps_delete_node_depth: "keeps R (delete_node_depth n ref_db nid)"
proof (induction n arbitrary: nid)
  case (Suc n)
  show ?case unfolding delete_node_depth.simps by (intro keep Suc)
qed (simp add: keeps_steps)

lemma keeps_delete_if_mutable [keep]: "keeps R (svn_fs__dag_delete_if_mutable ref_db nid)" "keeps R (check_deletable ref_db nid' e)"
  unfolding svn_fs__dag_delete_if_mutable_def check_deletable_def by (intro keep keeps_delete_node_depth)+

lemma keeps_delete_entry [keep]: "keeps R (delete_entry ref_db node name e)"
  unfolding delete_entry_def Let_def by (intro keep)

lemma keeps_file_writes [keep]:
  "keeps R (svn_fs__dag_get_edit_stream ref_db node)" "keeps R (svn_fs__dag_finalize_edits ref_db node)"
  "keeps R (svn_fs__dag_copy ref_db node name from h r p)"
  unfolding svn_fs__dag_get_edit_stream_def svn_fs__dag_finalize_edits_def svn_fs__dag_copy_def Let_def by (intro keep)+

section \<open>Deltified storage\<close>

lemma keeps_svndiff_write [keep]: "keeps R (svndiff_write ref_db d wb)"
  using keepsD [OF keeps_string_writes(1)]
  by (auto simp: keeps_def svndiff_write_def write_svndiff_strings_def Let_def svn_bind_Ok_iff split: if_splits)

lemma keeps_write_window [keep]: "keeps R (write_window ref_db w wb header)"
  unfolding write_window_eq by (intro keep)

lemma keeps_next_rep_window [keep]: "keeps R (next_rep_window md5 ref_db tx)"
  by (auto simp: keeps_def next_rep_window_def svn_bind_Ok_iff R_refl)

lemma keeps_deltify_windows [keep]: "keeps R (deltify_windows n md5 ref_db tx wb header off ws)"
proof (induction n arbitrary: tx wb header off ws)
  case (Suc n)
  show ?case unfolding deltify_windows.simps by (intro keep Suc)
qed (simp add: keeps_steps)

lemma keeps_string_sizes [keep]: "keeps R (string_sizes ref_db ks)"
  by (induction ks) (auto intro!: keep)

lemma keeps_old_strings [keep]: "keeps R (old_strings ref_db k)" "keeps R (delete_window_string ref_db ww)"
  unfolding old_strings_def delete_window_string_def by (intro keep)+

lemma keeps_rep_deltify [keep]: "keeps R (svn_fs__rep_deltify md5 ref_db t s)"
  unfolding svn_fs__rep_deltify_def by (intro keep)

lemma keeps_deltify [keep]: "keeps R (deltify md5 ref_db t s p)"
  unfolding deltify_def deltify_keys_def by (intro keep)

lemma keeps_undeltify_loop [keep]: "keeps R (undeltify_loop n ref_db rb k)"
  by (induction n arbitrary: rb k) (auto intro!: keep)

lemma keeps_undeltify [keep]: "keeps R (undeltify ref_db nid)"
  unfolding undeltify_def undeltify_key_def svn_fs__rep_undeltify_def by (intro keep)

lemma keeps_node_exists [keep]: "keeps R (node_exists ref_db nid)"
  using keepsD [OF keeps_dag_node(2)] R_refl by (auto simp: keeps_def node_exists_def split: svn_result.splits)

lemma keeps_deltify_by_id [keep]: "keeps R (deltify_by_id md5 ref_db nid d)"
  unfolding deltify_by_id_def Let_def by (intro keep)

lemma keeps_deltify_undeltify: "keeps R (deltify_undeltify n order md5 ref_db nid d r)"
proof (induction n arbitrary: nid)
  case (Suc n)
  show ?case unfolding deltify_undeltify.simps by (intro keep Suc)
qed (simp add: keeps_steps)

lemma keeps_deltify_bodies [keep]:
  "keeps R (txn_body_deltify order md5 ref_db nid r)" "keeps R (txn_body_undeltify order md5 ref_db nid r)"
  unfolding txn_body_deltify_def txn_body_undeltify_def by (intro keep keeps_deltify_undeltify)+

lemma keeps_stable_node [keep]: "keeps R (svn_fs__stable_node md5 ref_db nid)"
  unfolding svn_fs__stable_node_def by (intro keep)

lemma keeps_make_node_immutable [keep]: "keeps R (make_node_immutable ref_db node r)"
  unfolding make_node_immutable_def make_key_immutable_def Let_def by (intro keep)

lemma keeps_stabilize_depth: "keeps R (stabilize_depth n md5 ref_db node r)"
proof (induction n arbitrary: node)
  case (Suc n)
  show ?case unfolding stabilize_depth.simps by (intro keep Suc)
qed (simp add: keeps_steps)

lemma keeps_stabilize_node [keep]: "keeps R (stabilize_node md5 ref_db node r)"
  unfolding stabilize_node_def by (intro keep keeps_stabilize_depth)

section \<open>Merging directories\<close>

lemma keeps_conflict_at [keep]: "keeps R (conflict_at p)"
  unfolding conflict_at_def by (intro keep)

lemma keeps_reidentify [keep]: "(\<And>i. keeps R (use i)) \<Longrightarrow> keeps R (reidentify ref_db a t s use x)"
  unfolding reidentify_def by (intro keep)

lemma keeps_merge_parts [keep]:
  "keeps R (target_takes ref_db tgt name nid)" "keeps R (merge_source_only p tgt a s)" "keeps R (merge_target_only ref_db p tgt a t)"
  unfolding target_takes_def merge_source_only_def merge_target_only_def svn_fs__dag_delete_tree_def by (intro keep)+

lemma keeps_merge_both [keep]:
  "(\<And>p t s a. keeps R (rec p t s a)) \<Longrightarrow> keeps R (merge_both ref_db rec p tgt a s t)"
  unfolding merge_both_def by (intro keep)

lemma keeps_merge_ancestor_loop [keep]:
  assumes "\<And>p t s a. keeps R (rec p t s a)"
  shows "keeps R (merge_ancestor_loop ref_db rec p ae se ks tgt te)"
proof (induction ks arbitrary: tgt te)
  case (Cons k ks)
  show ?case
    by (cases "fmlookup ae k"; cases "fmlookup se k"; cases "fmlookup te k"; simp) (intro keep assms Cons)+
qed (simp add: keeps_steps)

lemma keeps_merge_source_loop [keep]: "keeps R (merge_source_loop ref_db p se te ks tgt)"
proof (induction ks arbitrary: tgt)
  case (Cons k ks)
  show ?case by (cases "fmlookup se k"; cases "fmlookup te k"; simp) (intro keep Cons)+
qed (simp add: keeps_steps)

lemma keeps_merge_depth: "keeps R (merge_depth n order ref_db p t s a)"
proof (induction n arbitrary: p t s a)
  case (Suc n)
  show ?case by (simp only: merge_depth.simps Let_def) (intro keep Suc)
qed (simp add: keeps_steps)

lemma keeps_merge [keep]: "keeps R (merge order ref_db p t s a)"
  unfolding merge_def by (intro keep keeps_merge_depth)

end

section \<open>Trees\<close>

locale txn_frame = dag_frame +
  assumes put_txn_kept: "R v (put_tab Transactions k x v)" and del_txn_kept: "R v (del_tab Transactions k v)"
begin

lemma keeps_txn_writes [keep]:
  "keeps R (db_write (db_put ref_db Transactions k x))" "keeps R (db_write (db_del ref_db Transactions k))"
  by (intro keeps_write_intro; auto simp: put_txn_kept del_txn_kept split: if_splits)+

lemma keeps_put_txn [keep]: "keeps R (put_txn ref_db t r b p)" "keeps R (allocate_txn_id ref_db)" "keeps R (svn_fs__delete_txn ref_db t)"
  unfolding put_txn_def allocate_txn_id_def svn_fs__delete_txn_def Let_def by (intro keep)+

lemma keeps_txn_ops [keep]:
  "keeps R (svn_fs__set_txn_root ref_db t r)" "keeps R (svn_fs__set_txn_base ref_db t b)" "keeps R (svn_fs__create_txn ref_db r)"
  unfolding svn_fs__set_txn_root_def svn_fs__set_txn_base_def svn_fs__create_txn_def by (intro keep)+

lemma keeps_clone_root [keep]: "keeps R (svn_fs__dag_clone_root ref_db t)"
  unfolding svn_fs__dag_clone_root_def by (intro keep)

lemma keeps_mutable_root_node [keep]: "keeps R (mutable_root_node ref_db root)" "keeps R (already_exists root)"
  unfolding mutable_root_node_def already_exists_def by (intro keep)+

lemma keeps_make_path_mutable [keep]: "keeps R (make_path_mutable ref_db root pp)"
  by (induction pp) (auto intro!: keep)

lemma keeps_make_parent_mutable [keep]: "keeps R (make_parent_mutable ref_db root pp)"
  unfolding make_parent_mutable_def by (intro keep)

lemma keeps_tree_bodies [keep]:
  "keeps R (txn_body_make_dir ref_db root p)" "keeps R (txn_body_make_file ref_db root p)" "keeps R (txn_body_delete ref_db root p d)"
  "keeps R (txn_body_copy ref_db root p root' p' h)" "keeps R (txn_body_change_node_prop ref_db root p name val)"
  "keeps R (txn_body_abort_txn ref_db txn)" "keeps R (txn_body_begin_txn ref_db r)" "keeps R (txn_body_change_txn_prop ref_db t name val)"
  unfolding txn_body_make_dir_def txn_body_make_file_def svn_fs__dag_make_dir_def svn_fs__dag_make_file_def txn_body_delete_def
    svn_fs__dag_delete_def svn_fs__dag_delete_tree_def txn_body_copy_def txn_body_change_node_prop_def txn_body_abort_txn_def
    txn_body_begin_txn_def txn_body_change_txn_prop_def
  by (intro keep)+

lemma keeps_txn_body_merge [keep]: "keeps R (txn_body_merge order ref_db anc src txn)"
  unfolding txn_body_merge_def Let_def by (intro keep)

end

definition same_transactions :: "fs_tables \<Rightarrow> fs_tables \<Rightarrow> bool" where
  "same_transactions v w \<longleftrightarrow> ft_revs w = ft_revs v \<and> ft_tab w Transactions = ft_tab v Transactions"

definition same_revisions :: "fs_tables \<Rightarrow> fs_tables \<Rightarrow> bool" where
  "same_revisions v w \<longleftrightarrow> ft_revs w = ft_revs v"

interpretation dagw: dag_frame same_transactions
  by unfold_locales (auto simp: same_transactions_def put_tab_def del_tab_def set_str_def)

interpretation treew: txn_frame same_revisions
  by unfold_locales (auto simp: same_revisions_def put_tab_def del_tab_def set_str_def)

end
