(* ===== verification/Fs_Walk.thy ===== *)
theory Fs_Walk
  imports Fs_Tree
begin

text \<open>
  What a path names (\<open>libsvn_fs/tree.c\<close>, \<open>open_path\<close>): an executable specification over the maps
  of the directories, and the proof that opening a path computes it, with its errors.
\<close>

section \<open>The names in a path\<close>

fun split_slash :: "bytes \<Rightarrow> bytes list" where
  "split_slash [] = [[]]"
| "split_slash (c # cs) =
     (if c = CHR ''/'' then [] # split_slash cs else (c # hd (split_slash cs)) # tl (split_slash cs))"

definition path_names :: "bytes \<Rightarrow> bytes list" where
  "path_names path = filter (\<lambda>n. n \<noteq> []) (split_slash path)"

definition ends_in_slash :: "bytes \<Rightarrow> bool" where
  "ends_in_slash path \<longleftrightarrow> path \<noteq> [] \<and> last path = CHR ''/''"

lemma split_slash_ne [simp]: "split_slash p \<noteq> []"
  by (cases p) simp_all

lemma split_slash_none: "CHR ''/'' \<notin> set p \<Longrightarrow> split_slash p = [p]"
  by (induction p) auto

lemma split_slash_append: "CHR ''/'' \<notin> set p \<Longrightarrow> split_slash (p @ CHR ''/'' # q) = p # split_slash q"
  by (induction p) auto

lemma path_names_slash: "path_names (CHR ''/'' # p) = path_names p"
  by (simp add: path_names_def)

lemma path_names_dropWhile: "path_names (dropWhile (\<lambda>c. c = CHR ''/'') p) = path_names p"
  by (induction p) (auto simp: path_names_slash)

lemma ends_in_slash_dropWhile:
  "p \<noteq> [] \<Longrightarrow> ends_in_slash p \<longleftrightarrow> dropWhile (\<lambda>c. c = CHR ''/'') p = [] \<or> ends_in_slash (dropWhile (\<lambda>c. c = CHR ''/'') p)"
  by (induction p) (auto simp: ends_in_slash_def)

lemma next_entry_None:
  assumes "next_entry_name p = (e, None)"
  shows "e = p" and "path_names p = (if p = [] then [] else [p])" and "\<not> ends_in_slash p"
proof -
  have d: "dropWhile (\<lambda>c. c \<noteq> CHR ''/'') p = []" "e = p" using assms by (auto simp: next_entry_name_def split: list.splits)
  then have n: "CHR ''/'' \<notin> set p" by (auto simp: dropWhile_eq_Nil_conv)
  show "e = p" by (rule d)
  show "path_names p = (if p = [] then [] else [p])" using split_slash_none [OF n] by (simp add: path_names_def)
  show "\<not> ends_in_slash p" unfolding ends_in_slash_def using n last_in_set [of p] by metis
qed

lemma path_names_Nil: "path_names p = [] \<Longrightarrow> p = [] \<or> ends_in_slash p"
  by (induction p) (auto simp: path_names_def ends_in_slash_def split: if_splits)

lemma next_entry_Some:
  assumes "next_entry_name p = (e, Some r)"
  shows "path_names p = (if e = [] then [] else [e]) @ path_names r" and "ends_in_slash p \<longleftrightarrow> r = [] \<or> ends_in_slash r"
proof -
  obtain x xs where d: "dropWhile (\<lambda>c. c \<noteq> CHR ''/'') p = x # xs" and e: "e = takeWhile (\<lambda>c. c \<noteq> CHR ''/'') p"
      and r: "r = dropWhile (\<lambda>c. c = CHR ''/'') (x # xs)"
    using assms by (auto simp: next_entry_name_def split: list.splits)
  have x: "x = CHR ''/''" using hd_dropWhile [of "\<lambda>c. c \<noteq> CHR ''/''" p] d by simp
  have p: "p = e @ CHR ''/'' # xs" using takeWhile_dropWhile_id [of "\<lambda>c. c \<noteq> CHR ''/''" p] d e x by simp
  have n: "CHR ''/'' \<notin> set e" using e by (auto dest: set_takeWhileD)
  have rx: "r = dropWhile (\<lambda>c. c = CHR ''/'') xs" using r x by simp
  show "path_names p = (if e = [] then [] else [e]) @ path_names r"
    unfolding p rx path_names_dropWhile using split_slash_append [OF n, of xs] by (simp add: path_names_def)
  have "ends_in_slash p = ends_in_slash (x # xs)" unfolding p x by (simp add: ends_in_slash_def)
  then show "ends_in_slash p \<longleftrightarrow> r = [] \<or> ends_in_slash r" using ends_in_slash_dropWhile [of "x # xs"] unfolding r by simp
qed

section \<open>The specification\<close>

definition entry_pair :: "skel_t \<Rightarrow> bytes \<times> svn_fs_id_t" where
  "entry_pair c =
     (skel_data (skel_children c ! 0), case svn_fs_parse_id (skel_data (skel_children c ! 1)) of Ok (Some i) \<Rightarrow> i | _ \<Rightarrow> [])"

text \<open>The entries of a directory, from the text of its representation.\<close>

definition dirents :: "fs_tables \<Rightarrow> node_rev_t \<Rightarrow> (bytes \<times> svn_fs_id_t) list" where
  "dirents v nr =
     (if nr_data nr = [] then []
      else case svn_fs__parse_skel (ft_text v (nr_data nr)) of None \<Rightarrow> [] | Some s \<Rightarrow> map entry_pair (skel_children s))"

fun walk :: "fs_tables \<Rightarrow> svn_fs_id_t \<Rightarrow> bytes list \<Rightarrow> svn_fs_id_t svn_result" where
  "walk v i [] = Ok i"
| "walk v i (n # ns) =
     (case node_of v i of
        None \<Rightarrow> Err SVN_ERR_FS_ID_NOT_FOUND
      | Some nr \<Rightarrow>
          if nr_kind nr \<noteq> ''dir'' then Err SVN_ERR_FS_NOT_DIRECTORY
          else
            (case map_of (dirents v nr) n of
               None \<Rightarrow> Err SVN_ERR_FS_NOT_FOUND
             | Some j \<Rightarrow> walk v j ns))"

definition is_dir_id :: "fs_tables \<Rightarrow> svn_fs_id_t \<Rightarrow> bool" where
  "is_dir_id v i \<longleftrightarrow> (case node_of v i of None \<Rightarrow> False | Some nr \<Rightarrow> nr_kind nr = ''dir'')"

text \<open>A path that ends in a slash names a directory.\<close>

definition resolve :: "fs_tables \<Rightarrow> svn_fs_id_t \<Rightarrow> bytes \<Rightarrow> svn_fs_id_t svn_result" where
  "resolve v i path =
     svn_bind (walk v i (path_names path)) (\<lambda>j.
       if ends_in_slash path \<and> \<not> is_dir_id v j then Err SVN_ERR_FS_NOT_DIRECTORY else Ok j)"

text \<open>Every directory can be read, and its entries are names of nodes that exist.\<close>

definition tree_inv :: "fs_tables \<Rightarrow> bool" where
  "tree_inv v \<longleftrightarrow> keys_inv v \<and>
     (\<forall>i nr. key_ok i \<and> node_of v i = Some nr \<and> nr_kind nr = ''dir'' \<longrightarrow>
        dir_is v nr (dirents v nr) \<and>
        (\<forall>(n, j) \<in> set (dirents v nr). svn_fs__is_single_path_component n \<and> node_of v j \<noteq> None))"

lemma dirents_lists:
  assumes "lists s es" and "entries_ok es"
  shows "map entry_pair (skel_children s) = es"
proof -
  obtain b cs where s: "s = skel_list b cs" "length cs = length es" using listsE [OF assms(1)] by metis
  have "entry_pair (cs ! i) = es ! i" if i: "i < length es" for i
  proof -
    obtain b' where e: "skel_children s ! i = skel_list b' [skel_atom (fst (es ! i)), skel_atom (id_text (snd (es ! i)))]"
      using lists_entry [OF assms(1) i] .
    have "key_ok (snd (es ! i))" using assms(2) i by (auto simp: entries_ok_def)
    from key_ok_text(2) [OF this] e show ?thesis by (simp add: entry_pair_def s(1) del: id_text.simps)
  qed
  then show ?thesis using s by (auto intro: nth_equalityI)
qed

lemma dirents_dir_is:
  assumes "dir_is v nr es"
  shows "dirents v nr = es"
proof (cases "nr_data nr = []")
  case False
  have r: "ft_wf v (nr_data nr)" "ft_text v (nr_data nr) = skel_text (dir_skel es)" "entries_ok es"
    using assms False by (simp_all add: dir_is_def rep_key_ok_def)
  have "length (ft_text v (nr_data nr)) < 2 ^ 32" using ft_wfE [OF r(1)] by metis
  then obtain s where s: "svn_fs__parse_skel (ft_text v (nr_data nr)) = Some s" "lists s es"
    using parse_dir_text [of es] unfolding r(2) by auto
  then show ?thesis using False dirents_lists [OF s(2) r(3)] by (simp add: dirents_def)
qed (use assms in \<open>simp add: dirents_def dir_is_def\<close>)

lemma tree_invD:
  assumes "tree_inv v" and "key_ok i" and "node_of v i = Some nr" and "nr_kind nr = ''dir''"
  shows "keys_inv v" and "dir_is v nr (dirents v nr)"
    and "map_of (dirents v nr) n = Some j \<Longrightarrow> svn_fs__is_single_path_component n \<and> key_ok j \<and> (\<exists>nr'. node_of v j = Some nr')"
proof -
  have "dir_is v nr (dirents v nr)" "\<forall>(n, j) \<in> set (dirents v nr). svn_fs__is_single_path_component n \<and> node_of v j \<noteq> None"
    using assms by (auto simp: tree_inv_def)
  then show "keys_inv v" "dir_is v nr (dirents v nr)"
    "map_of (dirents v nr) n = Some j \<Longrightarrow> svn_fs__is_single_path_component n \<and> key_ok j \<and> (\<exists>nr'. node_of v j = Some nr')"
    using assms(1) by (auto simp: tree_inv_def dir_is_def entries_ok_def dest!: map_of_SomeD)
qed

section \<open>Opening a path\<close>

lemma dag_open_missing:
  assumes "keys_inv v" and "node_for v node nr" and "dir_is v nr es" and "map_of es name = None"
  shows "svn_fs__dag_open ref_db node name v = Err SVN_ERR_FS_NOT_FOUND"
proof -
  obtain e node' where "dir_entry_from_node ref_db node name v = Ok ((e, node'), v)" "e = None \<longleftrightarrow> map_of es name = None"
    using dir_entry_for [OF assms(1-3), of name] by metis
  then show ?thesis using assms(4) by (simp add: svn_fs__dag_open_def tbind_def tfail_def)
qed

lemma node_for_kind:
  assumes "node_for v node nr"
  shows "svn_fs__dag_is_directory node \<longleftrightarrow> nr_kind nr = ''dir''" and "is_dir_id v (dn_id node) \<longleftrightarrow> nr_kind nr = ''dir''"
proof -
  have "nr_kind nr = ''dir'' \<or> nr_kind nr = ''file''" using node_for_valid [OF assms] by (auto simp: nr_valid_def)
  then show "svn_fs__dag_is_directory node \<longleftrightarrow> nr_kind nr = ''dir''" "is_dir_id v (dn_id node) \<longleftrightarrow> nr_kind nr = ''dir''"
    using assms by (auto simp: svn_fs__dag_is_directory_def node_for_def kind_of_def is_dir_id_def)
qed

lemma dag_open_file:
  assumes "node_for v node nr" and "nr_kind nr \<noteq> ''dir''"
  shows "svn_fs__dag_open ref_db node name v = Err SVN_ERR_FS_NOT_DIRECTORY"
  using node_for_kind(1) [OF assms(1)] assms(2)
  by (simp add: svn_fs__dag_open_def dir_entry_from_node_def svn_fs__dag_dir_entries_skel_def tbind_def tfail_def)

text \<open>The outcome of opening: the node with its id, or the error.\<close>

definition opened :: "fs_tables \<Rightarrow> svn_fs_id_t svn_result \<Rightarrow> (parent_path_t list \<times> fs_tables) svn_result \<Rightarrow> bool" where
  "opened v r out \<longleftrightarrow>
     (case r of
        Ok i \<Rightarrow> \<exists>n e up nr. out = Ok (\<lparr>pp_node = Some n, pp_entry = e\<rparr> # up, v) \<and> node_for v n nr \<and> dn_id n = i
      | Err e \<Rightarrow> out = Err e
      | Abort \<Rightarrow> False)"

text \<open>One step down from a node.\<close>

lemma open_path_step_for:
  assumes "tree_inv v" and "node_for v here nr" and "entry \<noteq> []" and "rt_kind root = transaction_root \<or> rt_kind root = revision_root"
  shows "case walk v (dn_id here) [entry] of
      Ok j \<Rightarrow> \<exists>child up' nr'. open_path_step ref_db root False entry nx here e up v = Ok ((Some child, Some entry, up'), v) \<and>
                node_for v child nr' \<and> dn_id child = j
    | Err er \<Rightarrow> open_path_step ref_db root False entry nx here e up v = Err er
    | Abort \<Rightarrow> False"
proof -
  have i: "key_ok (dn_id here)" "node_of v (dn_id here) = Some nr" using assms(2) by (simp_all add: node_for_def)
  show ?thesis
  proof (cases "nr_kind nr = ''dir''")
    case False
    then show ?thesis using dag_open_file [OF assms(2) False, of entry] i assms(3)
      by (simp add: open_path_step_def dag_open_opt_def tbind_def)
  next
    case True
    note t = tree_invD [OF assms(1) i True]
    show ?thesis
    proof (cases "map_of (dirents v nr) entry")
      case None
      then show ?thesis using True dag_open_missing [OF t(1) assms(2) t(2), of entry] i assms(3,4)
        by (auto simp: open_path_step_def dag_open_opt_def tbind_def not_found_def tfail_def)
    next
      case (Some j)
      from t(3) [OF Some] obtain nr' where j: "svn_fs__is_single_path_component entry" "key_ok j" "node_of v j = Some nr'" by auto
      obtain child node' where "svn_fs__dag_open ref_db here entry v = Ok ((child, node'), v)" "node_for v child nr'" "dn_id child = j"
        using dag_open_for [OF t(1) assms(2) t(2) Some j(2,3,1)] by metis
      then show ?thesis using True Some i assms(3)
        by (auto simp: open_path_step_def dag_open_opt_def tbind_def tret_def)
    qed
  qed
qed

lemma walk_append: "walk v i (ns @ ms) = svn_bind (walk v i ns) (\<lambda>j. walk v j ms)"
  by (induction ns arbitrary: i) (auto split: option.split)

text \<open>The path after the first name, from the node that the name gives.\<close>

lemma resolve_next:
  assumes "next_entry_name p = (e, Some r)" and "e \<noteq> []" and "\<And>j. walk v i [e] = Ok j \<Longrightarrow> node_of v j \<noteq> None"
  shows "resolve v i p = svn_bind (walk v i [e]) (\<lambda>j. if \<not> is_dir_id v j then Err SVN_ERR_FS_NOT_DIRECTORY else resolve v j r)"
proof (cases "walk v i [e]")
  case (Ok j)
  have w: "walk v i (path_names p) = walk v j (path_names r)"
    using next_entry_Some(1) [OF assms(1)] assms(2) walk_append [of v i "[e]" "path_names r"] Ok by simp
  note slash = next_entry_Some(2) [OF assms(1)]
  show ?thesis
  proof (cases "is_dir_id v j")
    case True
    have "ends_in_slash p \<and> \<not> is_dir_id v k \<longleftrightarrow> ends_in_slash r \<and> \<not> is_dir_id v k" if "walk v j (path_names r) = Ok k" for k
      using slash that True by (auto simp: path_names_def)
    then have "resolve v i p = resolve v j r" unfolding resolve_def w by (cases "walk v j (path_names r)") auto
    then show ?thesis using Ok True by simp
  next
    case False
    have "resolve v i p = Err SVN_ERR_FS_NOT_DIRECTORY"
    proof (cases "path_names r")
      case Nil
      then show ?thesis using path_names_Nil [OF Nil] slash w False by (auto simp: resolve_def)
    next
      case (Cons n ns)
      then show ?thesis using w False assms(3) [OF Ok] by (auto simp: resolve_def is_dir_id_def)
    qed
    then show ?thesis using Ok False by simp
  qed
qed (use next_entry_Some(1) [OF assms(1)] assms(2) walk_append [of v i "[e]" "path_names r"] in \<open>simp_all add: resolve_def\<close>)

lemma resolve_skip:
  assumes "next_entry_name p = ([], Some r)" and "is_dir_id v i"
  shows "resolve v i p = resolve v i r"
proof -
  have "ends_in_slash p \<and> \<not> is_dir_id v k \<longleftrightarrow> ends_in_slash r \<and> \<not> is_dir_id v k" if "walk v i (path_names r) = Ok k" for k
    using next_entry_Some(2) [OF assms(1)] that assms(2) by (auto simp: path_names_def)
  then show ?thesis using next_entry_Some(1) [OF assms(1)] unfolding resolve_def by (cases "walk v i (path_names r)") auto
qed

lemma resolve_file:
  assumes "next_entry_name p = ([], Some r)" and "\<not> is_dir_id v i" and "node_of v i \<noteq> None"
  shows "resolve v i p = Err SVN_ERR_FS_NOT_DIRECTORY"
proof (cases "path_names r")
  case Nil
  then show ?thesis using path_names_Nil [OF Nil] next_entry_Some [OF assms(1)] assms(2) by (auto simp: resolve_def)
next
  case (Cons n ns)
  then show ?thesis using next_entry_Some(1) [OF assms(1)] assms(2,3) by (auto simp: resolve_def is_dir_id_def)
qed

lemma open_path_loop_for:
  assumes "tree_inv v" and "rt_kind root = transaction_root \<or> rt_kind root = revision_root"
  shows "node_for v here nr \<Longrightarrow> opened v (resolve v (dn_id here) p) (open_path_loop ref_db root False p here e up v)"
proof (induction "length p" arbitrary: p here nr e up rule: less_induct)
  case less
  obtain entry nx where nx: "next_entry_name p = (entry, nx)" by fastforce
  let ?i = "dn_id here"
  have i: "key_ok ?i" "node_of v ?i = Some nr" using less.prems by (simp_all add: node_for_def)
  let ?step = "open_path_step ref_db root False entry nx here e up v"
  have loop: "open_path_loop ref_db root False p here e up v =
      svn_bind ?step (\<lambda>((child, ce, up), s). case child of
          None \<Rightarrow> Ok (make_parent_path None ce up, s)
        | Some child \<Rightarrow> (case nx of
             None \<Rightarrow> Ok (make_parent_path (Some child) ce up, s)
           | Some r \<Rightarrow> if \<not> svn_fs__dag_is_directory child then Err SVN_ERR_FS_NOT_DIRECTORY
               else open_path_loop ref_db root False r child ce up s))"
    by (subst open_path_loop.simps) (auto simp: nx tbind_def tret_def tfail_def fun_eq_iff split: option.split intro!: svn_bind_cong)
  have IH: "opened v (resolve v (dn_id c) r) (open_path_loop ref_db root False r c ce up v)"
    if "nx = Some r" "node_for v c nr'" for r c nr' ce up
    using less.hyps [OF _ that(2)] next_entry_name_shorter [of p entry r] nx that(1) by simp
  show ?case
  proof (cases "entry = []")
    case True
    then have st: "?step = Ok ((Some here, e, up), v)" by (simp add: open_path_step_def tret_def)
    show ?thesis
    proof (cases nx)
      case None
      then have "p = []" using True nx next_entry_None(1) [of p] by auto
      then show ?thesis using None st loop less.prems
        by (auto simp: opened_def resolve_def path_names_def ends_in_slash_def make_parent_path_def)
    next
      case (Some r)
      show ?thesis
      proof (cases "is_dir_id v ?i")
        case d: True
        then show ?thesis using resolve_skip [of p r v ?i] nx True Some st loop IH [OF Some less.prems] node_for_kind [OF less.prems]
          by simp
      next
        case d: False
        then show ?thesis using resolve_file [of p r v ?i] nx True Some st loop node_for_kind [OF less.prems] i(2)
          by (simp add: opened_def)
      qed
    qed
  next
    case False
    note st = open_path_step_for [OF assms(1) less.prems False assms(2), of nx e up]
    show ?thesis
    proof (cases "walk v ?i [entry]")
      case (Ok j)
      then obtain child up' nr' where c: "?step = Ok ((Some child, Some entry, up'), v)" "node_for v child nr'" "dn_id child = j"
        using st by auto
      have j: "node_of v j \<noteq> None" using c(2,3) by (auto simp: node_for_def)
      show ?thesis
      proof (cases nx)
        case None
        have "resolve v ?i p = Ok j" using next_entry_None [of p entry] nx None False Ok by (simp add: resolve_def)
        then show ?thesis using None c loop by (auto simp: opened_def make_parent_path_def)
      next
        case (Some r)
        have res: "resolve v ?i p = (if \<not> is_dir_id v j then Err SVN_ERR_FS_NOT_DIRECTORY else resolve v j r)"
          using resolve_next [of p entry r v ?i] nx Some False Ok j by simp
        show ?thesis using res Some c loop IH [OF Some c(2)] node_for_kind [OF c(2)]
          by (cases "is_dir_id v j") (simp_all add: opened_def)
      qed
    next
      case (Err er)
      then have "resolve v ?i p = Err er"
      proof (cases nx)
        case None
        then show ?thesis using next_entry_None [of p entry] nx False Err by (simp add: resolve_def)
      next
        case (Some r)
        then show ?thesis using resolve_next [of p entry r v ?i] nx False Err by simp
      qed
      then show ?thesis using st Err loop by (simp add: opened_def)
    qed (use st in simp)
  qed
qed

section \<open>Roots\<close>

text \<open>The id of the directory a root stands for.\<close>

definition root_is :: "fs_tables \<Rightarrow> svn_fs_root_t \<Rightarrow> svn_fs_id_t \<Rightarrow> bool" where
  "root_is v root i \<longleftrightarrow> key_ok i \<and>
     (\<exists>nr. node_of v i = Some nr \<and>
        (rt_kind root = transaction_root \<and> (\<exists>t b. rt_txn root = Some t \<and> svn_fs__get_txn_ids ref_db t v = Ok ((i, b), v)) \<or>
         rt_kind root = revision_root \<and> (\<exists>n. rt_root_dir root = Some n \<and> dn_id n = i \<and> dn_kind n = kind_of nr)))"

lemma root_node_for:
  assumes "root_is v root i"
  obtains n nr where "root_node ref_db root v = Ok (n, v)" and "node_for v n nr" and "dn_id n = i"
    and "rt_kind root = transaction_root \<or> rt_kind root = revision_root"
proof -
  obtain nr where k: "key_ok i" "node_of v i = Some nr"
      "rt_kind root = transaction_root \<and> (\<exists>t b. rt_txn root = Some t \<and> svn_fs__get_txn_ids ref_db t v = Ok ((i, b), v)) \<or>
       rt_kind root = revision_root \<and> (\<exists>n. rt_root_dir root = Some n \<and> dn_id n = i \<and> dn_kind n = kind_of nr)"
    using assms by (auto simp: root_is_def)
  from k(3) show thesis
  proof
    assume r: "rt_kind root = transaction_root \<and> (\<exists>t b. rt_txn root = Some t \<and> svn_fs__get_txn_ids ref_db t v = Ok ((i, b), v))"
    obtain n where "svn_fs__dag_get_node ref_db i v = Ok (n, v)" "node_for v n nr" "dn_id n = i" using dag_get_node_for [OF k(1,2)] .
    with r that show thesis by (auto simp: root_node_def svn_fs__dag_txn_root_def tbind_def)
  next
    assume r: "rt_kind root = revision_root \<and> (\<exists>n. rt_root_dir root = Some n \<and> dn_id n = i \<and> dn_kind n = kind_of nr)"
    have "node_for v (new_dag_node i (kind_of nr)) nr" using k(1,2) by (simp add: node_for_def new_dag_node_def)
    with r that [of "new_dag_node i (kind_of nr)" nr] id_copy_key_ok [OF k(1)] show thesis
      by (auto simp: root_node_def svn_fs__dag_dup_def tret_def new_dag_node_def)
  qed
qed

lemma open_path_for:
  assumes "tree_inv v" and "root_is v root i"
  shows "opened v (resolve v i path) (open_path ref_db root path False v)"
proof -
  obtain n nr where n: "root_node ref_db root v = Ok (n, v)" "node_for v n nr" "dn_id n = i"
      "rt_kind root = transaction_root \<or> rt_kind root = revision_root"
    using root_node_for [OF assms(2)] .
  have "open_path ref_db root path False v = open_path_loop ref_db root False path n None [] v"
    using n(1,4) by (auto simp: open_path_def svn_fs_is_id_root_def tbind_def)
  then show ?thesis using open_path_loop_for [OF assms(1) n(4,2), of path] n(3) by simp
qed

lemma get_dag_for:
  assumes "tree_inv v" and "root_is v root i"
  shows "case resolve v i path of
      Ok j \<Rightarrow> \<exists>n nr. get_dag ref_db root path v = Ok (n, v) \<and> node_for v n nr \<and> dn_id n = j
    | Err e \<Rightarrow> get_dag ref_db root path v = Err e
    | Abort \<Rightarrow> False"
  using open_path_for [OF assms, of path]
  by (auto simp: opened_def get_dag_def tbind_def tlift_def bottom_node_def split: svn_result.splits)

lemma walk_errors:
  "walk v i ns \<noteq> Abort" "walk v i ns = Err e \<Longrightarrow> e \<noteq> SVN_ERR_BERKELEY_DB d"
  by (induction ns arbitrary: i) (auto split: option.splits if_splits)

lemma resolve_errors: "resolve v i path \<noteq> Abort" "resolve v i path = Err e \<Longrightarrow> e \<noteq> SVN_ERR_BERKELEY_DB d"
  using walk_errors(1) [of v i "path_names path"] walk_errors(2) [of v i "path_names path"]
  by (cases "walk v i (path_names path)"; auto simp: resolve_def split: if_splits)+

text \<open>A public operation whose result on the tables is known.\<close>

lemma retry_ref:
  assumes "bdb_laws db view" and "txn_laws db view" and "refines view body body'"
  shows "body' (view s) = Ok (x, v') \<Longrightarrow> \<exists>s'. svn_fs__retry_txn db body s = Some (Ok x, s') \<and> view s' = v'"
    and "body' (view s) = Err e \<Longrightarrow> e \<noteq> SVN_ERR_BERKELEY_DB DB_LOCK_DEADLOCK \<Longrightarrow>
      \<exists>s'. svn_fs__retry_txn db body s = Some (Err e, s') \<and> view s' = view s"
  using fs_call_ref [OF assms refl, of s] assms(1) by (auto simp: fs_call_def svn_fs__check_fs_def bdb_laws_def)

text \<open>
  C5. On every database that works as documented and whose directories can be read, the node of a
  path is the one that the maps of the directories give, name by name, from the root; repeated
  slashes count once.  A name that a directory does not have is \<open>SVN_ERR_FS_NOT_FOUND\<close>, and a name or
  a slash after a file is \<open>SVN_ERR_FS_NOT_DIRECTORY\<close>.  The names \<open>.\<close> and \<open>..\<close> are looked up like any other, so
  they are not found, where \<open>svn_fs.h\<close> says that they are refused with \<open>SVN_ERR_FS_PATH_SYNTAX\<close>.  Nothing is changed.
\<close>

theorem node_id_resolves:
  assumes "bdb_laws db view" and "txn_laws db view" and "tree_inv (view s)" and "root_is (view s) root i"
  shows "\<exists>s'. svn_fs_node_id db root path s = Some (resolve (view s) i path, s') \<and> view s' = view s"
proof -
  note ref = retry_ref [OF assms(1,2) refines_node_bodies(1) [OF assms(1)], of root path s]
  note g = get_dag_for [OF assms(3,4), of path]
  show ?thesis
  proof (cases "resolve (view s) i path")
    case (Ok j)
    then obtain n nr where n: "get_dag ref_db root path (view s) = Ok (n, view s)" "node_for (view s) n nr" "dn_id n = j" using g by auto
    have "svn_fs__id_copy j = j" using n(2,3) by (auto simp: node_for_def id_copy_key_ok)
    then have "txn_body_node_id ref_db root path (view s) = Ok (j, view s)"
      using n(1,3) by (simp add: txn_body_node_id_def tbind_def tret_def svn_fs__dag_get_id_def)
    with ref(1) Ok show ?thesis by (auto simp: svn_fs_node_id_def)
  next
    case (Err e)
    then have "txn_body_node_id ref_db root path (view s) = Err e" using g by (simp add: txn_body_node_id_def tbind_def)
    with ref(2) Err resolve_errors(2) [OF Err] show ?thesis by (auto simp: svn_fs_node_id_def)
  qed (use resolve_errors(1) in blast)
qed

text \<open>A directory with one entry, which is a file.\<close>

definition tree_dir :: node_rev_t where
  "tree_dir = \<lparr>nr_kind = ''dir'', nr_rev = ''1'', nr_opts = [], nr_prop = [], nr_data = ''0'', nr_edit = None\<rparr>"

definition tree_file :: node_rev_t where
  "tree_file = \<lparr>nr_kind = ''file'', nr_rev = ''1'', nr_opts = [], nr_prop = [], nr_data = [], nr_edit = None\<rparr>"

definition small_tree :: fs_tables where
  "small_tree = nr_put [1, 1] tree_file (nr_put [0, 1] tree_dir (set_str ''0'' [''((f 3 1.1))''] one_text))"

lemma small_nodes:
  "nr_valid tree_dir" "nr_small tree_dir" "nr_valid tree_file" "nr_small tree_file" "key_ok [0, 1]" "key_ok [1, 1]"
proof -
  have "skel_text (nr_skel tree_dir) = ''((dir 1 1) 0  1 0)''" "skel_text (nr_skel tree_file) = ''((file 1 1) 0  0 )''" by code_simp+
  then show "nr_small tree_dir" "nr_small tree_file" by (simp_all add: nr_small_def)
qed (simp_all add: tree_dir_def tree_file_def nr_valid_def key_ok_def)

lemma small_tree_nodes:
  "key_ok i \<Longrightarrow> node_of small_tree i = (if i = [1, 1] then Some tree_file else if i = [0, 1] then Some tree_dir else None)"
proof -
  assume k: "key_ok i"
  have "node_of one_text i = None" by (simp add: node_of_def node_rec_def one_text_def new_tables_def)
  then show ?thesis using node_of_put [OF small_nodes(6) k small_nodes(3,4)] node_of_put [OF small_nodes(5) k small_nodes(1,2)]
    by (simp add: small_tree_def)
qed

lemma small_tree_text: "keys_inv small_tree" "ft_wf small_tree ''0''" "ft_text small_tree ''0'' = ''((f 3 1.1))''"
proof -
  have ne: "''0'' \<noteq> svn_fs__next_key_key" by (simp add: svn_fs__next_key_key_def)
  have r: "ft_rep small_tree ''0'' = Some (False, ''0'')" "str_recs ''0'' small_tree = [''((f 3 1.1))'']"
    using one_text(4) by (simp_all add: small_tree_def)
  then show "ft_text small_tree ''0'' = ''((f 3 1.1))''" by (simp add: ft_text_def str_val_def)
  show "ft_wf small_tree ''0''" using r ne valid_key_0 by (simp add: ft_wf_def str_val_def)
  have "strings_inv (set_str ''0'' [''((f 3 1.1))''] one_text)"
  proof -
    have k: "str_recs k (set_str ''0'' [''((f 3 1.1))''] one_text) = (if k = ''0'' then [''((f 3 1.1))''] else str_recs k one_text)" for k by simp
    have "str_recs ''0'' one_text \<noteq> []" using ne by (simp add: one_text_def)
    then show ?thesis using one_text(1,6) ne
      by (auto simp: strings_inv_def next_str_def keys_below_def str_keys_def short_recs_def k split: if_splits)
  qed
  moreover have "reps_inv (set_str ''0'' [''((f 3 1.1))''] one_text)" using one_text(2) by (simp add: reps_inv_def next_rep_def rep_keys_def)
  ultimately show "keys_inv small_tree" by (simp add: small_tree_def keys_inv_def)
qed

lemma small_tree: "tree_inv small_tree" "dirents small_tree tree_dir = [(''f'', [1, 1])]"
proof -
  have tx: "skel_text (dir_skel [(''f'', [1, 1])]) = ''((f 3 1.1))''" by code_simp
  have d: "dir_is small_tree tree_dir [(''f'', [1, 1])]"
    using small_tree_text small_nodes(6) tx by (simp add: dir_is_def tree_dir_def entries_ok_def rep_key_ok_def)
  show e: "dirents small_tree tree_dir = [(''f'', [1, 1])]" by (rule dirents_dir_is [OF d])
  have "tree_file \<noteq> tree_dir" "nr_kind tree_file \<noteq> ''dir''" by (simp_all add: tree_file_def tree_dir_def)
  then show "tree_inv small_tree"
    using d e small_tree_text(1) small_tree_nodes [OF small_nodes(6)]
    by (auto simp: tree_inv_def small_tree_nodes svn_fs__is_single_path_component_def split: if_splits)
qed

theorem node_id_resolves_witness:
  "(\<exists>s'. svn_fs_node_id ref_db (make_revision_root 1 (new_dag_node [0, 1] svn_node_dir)) ''//f'' small_tree = Some (Ok [1, 1], s')) \<and>
   (\<exists>s'. svn_fs_node_id ref_db (make_revision_root 1 (new_dag_node [0, 1] svn_node_dir)) ''f/'' small_tree = Some (Err SVN_ERR_FS_NOT_DIRECTORY, s'))"
proof -
  let ?root = "make_revision_root 1 (new_dag_node [0, 1] svn_node_dir)"
  have n: "node_of small_tree [0, 1] = Some tree_dir" "node_of small_tree [1, 1] = Some tree_file" "nr_kind tree_dir = ''dir''"
      "nr_kind tree_file = ''file''"
    using small_tree_nodes small_nodes by (simp_all add: tree_dir_def tree_file_def)
  have "root_is (id small_tree) ?root [0, 1]"
    using n small_nodes(5) by (simp add: root_is_def make_revision_root_def make_root_def new_dag_node_def kind_of_def)
  note r = node_id_resolves [OF bdb_laws_ref txn_laws_ref _ this]
  have "resolve small_tree [0, 1] ''//f'' = Ok [1, 1]" "resolve small_tree [0, 1] ''f/'' = Err SVN_ERR_FS_NOT_DIRECTORY"
    using n small_tree(2) by (simp_all add: resolve_def path_names_def ends_in_slash_def is_dir_id_def)
  with r [of "''//f''"] r [of "''f/''"] small_tree(1) show ?thesis by simp
qed

end
