(* ===== verification/Fs_History.thy ===== *)
theory Fs_History
  imports Fs_Changes Fs_Walk
begin

text \<open>
  The revisions of the filesystem: which operations leave them alone, that the loop of a commit ends,
  and what a commit adds.
\<close>

section \<open>Public operations that keep a relation\<close>

lemma retry_keeps:
  assumes "txn_laws db view" and "refines view body body'" and "keeps R body'" and "\<And>v. R v v"
    and "svn_fs__retry_txn db body s = Some (r, s')" and "r \<noteq> Abort"
  shows "R (view s) (view s')" and "r = Ok x \<Longrightarrow> body' (view s) = Ok (x, view s')" and "r = Err e \<Longrightarrow> view s' = view s"
proof -
  note a = retry_txn_all_or_nothing [OF assms(5,1), unfolded all_or_nothing_def fst_conv snd_conv]
  have ok: "body' (view s) = Ok (x, view s')" if r: "r = Ok x" for x
  proof -
    obtain s0 s1 where s0: "view s0 = view s" "body s0 = Ok (x, s1)" "view s' = view s1" using a unfolding r by auto
    show ?thesis using refinesD [OF assms(2), of s0] s0 by simp
  qed
  show "r = Ok x \<Longrightarrow> body' (view s) = Ok (x, view s')" by (rule ok)
  show "r = Err e \<Longrightarrow> view s' = view s" using a by auto
  show "R (view s) (view s')"
  proof (cases r)
    case (Ok x)
    then show ?thesis using keepsD [OF assms(3) ok] by simp
  qed (use a assms(4,6) in auto)
qed

lemma fs_call_laws: "bdb_laws db view \<Longrightarrow> fs_call db body s = svn_fs__retry_txn db body s"
  by (simp add: fs_call_def svn_fs__check_fs_def bdb_laws_def)

lemma fs_then_Ok: "fs_then m f = Some (Ok y, s') \<longleftrightarrow> (\<exists>x s1. m = Some (Ok x, s1) \<and> f x s1 = Some (Ok y, s'))"
  by (auto simp: fs_then_def split: option.splits svn_result.splits)

lemma fs_thenE:
  assumes "fs_then m f = Some (r, s')"
  obtains (ok) x s1 where "m = Some (Ok x, s1)" and "f x s1 = Some (r, s')"
    | (err) e where "m = Some (Err e, s')" and "r = Err e"
    | (ab) "m = Some (Abort, s')" and "r = Abort"
  using assms by (auto simp: fs_then_def split: option.splits svn_result.splits)

section \<open>Operations that leave the revisions alone\<close>

lemma same_revs_reads:
  assumes "bdb_laws db view" and "ft_revs (view s') = ft_revs (view s)"
  shows "trail_result (svn_fs__get_rev db q) s' = trail_result (svn_fs__get_rev db q) s"
    and "trail_result (svn_fs__youngest_rev db) s' = trail_result (svn_fs__youngest_rev db) s"
proof -
  have l: "last_rev (view s') = last_rev (view s)" "ref_rev_get n (view s') = ref_rev_get n (view s)" for n
    using assms(2) by (simp_all add: last_rev_def ref_rev_get_def)
  show "trail_result (svn_fs__get_rev db q) s' = trail_result (svn_fs__get_rev db q) s"
    using refines_result [OF refines_get_rev [OF assms(1)], of q] l
    by (simp add: svn_fs__get_rev_def trail_result_def trail_defs split: db_result.split option.split)
  show "trail_result (svn_fs__youngest_rev db) s' = trail_result (svn_fs__youngest_rev db) s"
    using refines_result [OF refines_youngest_rev [OF assms(1)]] l
    by (simp add: svn_fs__youngest_rev_def trail_result_def trail_defs svn_fs__check_fs_def)
qed

lemma retry_revisions:
  assumes "txn_laws db view" and "refines view body body'" and "keeps same_revisions body'"
    and "svn_fs__retry_txn db body s = Some (r, s')" and "r \<noteq> Abort"
  shows "ft_revs (view s') = ft_revs (view s)"
  using retry_keeps(1) [OF assms(1-3) _ assms(4,5)] by (simp add: same_revisions_def)

text \<open>Reading operations, as public operations.\<close>

lemma retry_reads:
  assumes "txn_laws db view" and "refines view body body'" and "keeps (=) body'"
    and "svn_fs__retry_txn db body s = Some (r, s')" and "r \<noteq> Abort"
  shows "view s' = view s"
  using retry_keeps(1) [OF assms(1-3) _ assms(4,5)] by simp

lemma merge_revisions:
  assumes "bdb_laws db view" and "txn_laws db view" and "svn_fs_merge order db source_root target_root ancestor_root s = Some (r, s')" and "r \<noteq> Abort"
  shows "ft_revs (view s') = ft_revs (view s)"
proof -
  have root: "view s2 = view s1" if "svn_fs__retry_txn db (txn_body_get_root db rt) s1 = Some (x, s2)" "x \<noteq> Abort" for rt s1 s2 x
    by (rule retry_reads [OF assms(2) refines_get_root [OF assms(1)] reads.keeps_read_bodies(13) that])
  have opn: "view s2 = view s1" if "svn_fs_open_txn db name s1 = Some (x, s2)" "x \<noteq> Abort" for name s1 s2 x
    using retry_reads [OF assms(2) refines_change_bodies(7) [OF assms(1)] reads.keeps_read_bodies(12)] that
    by (simp add: svn_fs_open_txn_def fs_call_laws [OF assms(1)])
  have mrg: "ft_revs (view s2) = ft_revs (view s1)" if "svn_fs__retry_txn db (txn_body_merge order db a n t) s1 = Some (x, s2)" "x \<noteq> Abort" for a n t s1 s2 x
    by (rule retry_revisions [OF assms(2) refines_txn_body_merge [OF assms(1)] treew.keeps_txn_body_merge that])
  show ?thesis
  proof (cases "svn_fs_is_txn_root target_root")
    case False
    then show ?thesis using assms(3) by (simp add: svn_fs_merge_def)
  next
    case True
    then show ?thesis using assms(3,4) unfolding svn_fs_merge_def
      by (auto elim!: fs_thenE simp del: split_paired_Ex split: option.splits dest!: root opn mrg)
  qed
qed

text \<open>
  No operation on trees but a commit touches the revisions: whatever the operation and however it ends, short
  of stopping the program, the youngest revision and every revision are read as before.
\<close>

lemma revisions_untouched:
  assumes "bdb_laws db view" and "txn_laws db view" and "r \<noteq> Abort"
    and "svn_fs_make_dir db root path s = Some (r, s') \<or> svn_fs_make_file db root path s = Some (r, s') \<or>
      svn_fs_delete db root path s = Some (r, s') \<or> svn_fs_delete_tree db root path s = Some (r, s') \<or>
      svn_fs_copy db from_root from_path root path s = Some (r, s') \<or> svn_fs_link db from_root from_path root path s = Some (r, s') \<or>
      svn_fs_change_node_prop db root path name value s = Some (r, s') \<or> svn_fs_merge order db source_root root ancestor_root s = Some (r, s') \<or>
      svn_fs_abort_txn db txn s = Some (r, s')"
  shows "trail_result (svn_fs__youngest_rev db) s' = trail_result (svn_fs__youngest_rev db) s \<and>
    trail_result (svn_fs__get_rev db q) s' = trail_result (svn_fs__get_rev db q) s"
proof -
  note b = retry_revisions [OF assms(2) _ _ _ assms(3)]
  note ref = refines_change_bodies [OF assms(1)] refines_txn_body_copy [OF assms(1)] refines_node_bodies [OF assms(1)]
  have "ft_revs (view s') = ft_revs (view s)" using assms(4)
  proof (elim disjE)
    assume "svn_fs_make_dir db root path s = Some (r, s')"
    then show ?thesis using b [OF ref(1) treew.keeps_tree_bodies(1)] by (auto simp: svn_fs_make_dir_def split: if_splits)
  next
    assume "svn_fs_make_file db root path s = Some (r, s')"
    then show ?thesis using b [OF ref(2) treew.keeps_tree_bodies(2)] by (auto simp: svn_fs_make_file_def split: if_splits)
  next
    assume "svn_fs_delete db root path s = Some (r, s')"
    then show ?thesis using b [OF ref(3) treew.keeps_tree_bodies(3)] by (auto simp: svn_fs_delete_def)
  next
    assume "svn_fs_delete_tree db root path s = Some (r, s')"
    then show ?thesis using b [OF ref(3) treew.keeps_tree_bodies(3)] by (auto simp: svn_fs_delete_tree_def)
  next
    assume "svn_fs_copy db from_root from_path root path s = Some (r, s')"
    then show ?thesis using b [OF refines_txn_body_copy [OF assms(1)] treew.keeps_tree_bodies(4)] by (auto simp: svn_fs_copy_def split: if_splits)
  next
    assume "svn_fs_link db from_root from_path root path s = Some (r, s')"
    then show ?thesis using b [OF refines_txn_body_copy [OF assms(1)] treew.keeps_tree_bodies(4)] by (auto simp: svn_fs_link_def split: if_splits)
  next
    assume "svn_fs_change_node_prop db root path name value s = Some (r, s')"
    then show ?thesis using b [OF refines_node_bodies(6) [OF assms(1)] treew.keeps_tree_bodies(5)]
      by (auto simp: svn_fs_change_node_prop_def split: if_splits)
  next
    assume "svn_fs_merge order db source_root root ancestor_root s = Some (r, s')"
    then show ?thesis by (rule merge_revisions [OF assms(1,2) _ assms(3)])
  next
    assume "svn_fs_abort_txn db txn s = Some (r, s')"
    then show ?thesis using b [OF refines_change_bodies(6) [OF assms(1)] treew.keeps_tree_bodies(6)] by (auto simp: svn_fs_abort_txn_def)
  qed
  then show ?thesis using same_revs_reads [OF assms(1), of s' s] by blast
qed

lemma refines_read_bodies:
  assumes "bdb_laws db view"
  shows "refines view (txn_body_copied_from db root path) (txn_body_copied_from ref_db root path)"
    and "refines view (txn_body_file_length db root path) (txn_body_file_length ref_db root path)"
    and "refines view (txn_body_get_file_contents db root path) (txn_body_get_file_contents ref_db root path)"
    and "refines view (txn_body_is_different db root path root2 path2) (txn_body_is_different ref_db root path root2 path2)"
    and "refines view (txn_body_props_changed db root path root2 path2) (txn_body_props_changed ref_db root path root2 path2)"
  unfolding txn_body_copied_from_def txn_body_file_length_def txn_body_get_file_contents_def txn_body_is_different_def txn_body_props_changed_def
  using assms by - (intro refine_intros; assumption)+

text \<open>
  C14. Reading a tree changes nothing: after the operations that look up, list, compare and read nodes and
  that open roots and transactions, however they end, short of stopping the program, the tables are the same.
\<close>

theorem reads_change_nothing:
  assumes "bdb_laws db view" and "txn_laws db view"
    and "(\<exists>r. svn_fs_node_id db root path s = Some (r, s') \<and> r \<noteq> Abort) \<or>
      (\<exists>r. svn_fs_node_created_rev db root path s = Some (r, s') \<and> r \<noteq> Abort) \<or>
      (\<exists>r. svn_fs_check_path db root path s = Some (r, s') \<and> r \<noteq> Abort) \<or>
      (\<exists>r. svn_fs_node_prop db root path name s = Some (r, s') \<and> r \<noteq> Abort) \<or>
      (\<exists>r. svn_fs_node_proplist db root path s = Some (r, s') \<and> r \<noteq> Abort) \<or>
      (\<exists>r. svn_fs_dir_entries db root path s = Some (r, s') \<and> r \<noteq> Abort) \<or>
      (\<exists>r. svn_fs_copied_from db root path s = Some (r, s') \<and> r \<noteq> Abort) \<or>
      (\<exists>r. svn_fs_file_length db root path s = Some (r, s') \<and> r \<noteq> Abort) \<or>
      (\<exists>r. svn_fs_file_contents db root path s = Some (r, s') \<and> r \<noteq> Abort) \<or>
      (\<exists>r. svn_fs_is_different db root path root2 path2 s = Some (r, s') \<and> r \<noteq> Abort) \<or>
      (\<exists>r. svn_fs_props_changed db root path root2 path2 s = Some (r, s') \<and> r \<noteq> Abort) \<or>
      (\<exists>r. svn_fs_revision_root db q s = Some (r, s') \<and> r \<noteq> Abort) \<or>
      (\<exists>r. svn_fs_txn_root db txn s = Some (r, s') \<and> r \<noteq> Abort) \<or>
      (\<exists>r. svn_fs_open_txn db t s = Some (r, s') \<and> r \<noteq> Abort)"
  shows "view s' = view s"
proof -
  note rd = retry_reads [OF assms(2)]
  note node = refines_node_bodies [OF assms(1)] and change = refines_change_bodies [OF assms(1)] and rest = refines_read_bodies [OF assms(1)]
  from assms(3) show ?thesis
    by (elim disjE exE conjE;
        fastforce simp: svn_fs_node_id_def svn_fs_node_created_rev_def svn_fs_check_path_def svn_fs_node_prop_def svn_fs_node_proplist_def
          svn_fs_dir_entries_def svn_fs_copied_from_def svn_fs_file_length_def svn_fs_file_contents_def svn_fs_is_different_def
          svn_fs_props_changed_def svn_fs_revision_root_def svn_fs_txn_root_def svn_fs_open_txn_def fs_call_laws [OF assms(1)]
        split: svn_result.splits
        dest: rd [OF node(1) reads.keeps_read_bodies(1)] rd [OF node(2) reads.keeps_read_bodies(2)] rd [OF node(3) reads.keeps_read_bodies(3)]
          rd [OF node(4) reads.keeps_read_bodies(4)] rd [OF node(5) reads.keeps_read_bodies(5)] rd [OF node(7) reads.keeps_read_bodies(6)]
          rd [OF rest(1) reads.keeps_read_bodies(7)] rd [OF rest(2) reads.keeps_read_bodies(8)] rd [OF rest(3) reads.keeps_read_bodies(9)]
          rd [OF rest(4) reads.keeps_compare_bodies(1)] rd [OF rest(5) reads.keeps_compare_bodies(2)]
          rd [OF change(4) reads.keeps_read_bodies(10)] rd [OF change(5) reads.keeps_read_bodies(11)] rd [OF change(7) reads.keeps_read_bodies(12)])
qed

section \<open>The loop of a commit\<close>

text \<open>A turn in which no other process writes ends the loop.\<close>

lemma commit_turn_alone:
  assumes "bdb_laws db view" and "txn_laws db view" and "\<And>j s. k \<le> j \<Longrightarrow> j < k + 6 \<Longrightarrow> view (others j s) = view s"
  shows "commit_turn others order md5 db date txn k s \<noteq> Some (Ok None, s')"
proof
  assume t: "commit_turn others order md5 db date txn k s = Some (Ok None, s')"
  note laws = assms(1,2)
  have o: "n < 6 \<Longrightarrow> view (others (k + n) s) = view s" for n s using assms(3) by simp
  have revs: "same_revisions v v" for v by (simp add: same_revisions_def)
  have ry: "refines view (txn_body_youngest_rev db) (txn_body_youngest_rev ref_db)"
    unfolding txn_body_youngest_rev_def by (rule refines_youngest_rev [OF assms(1)])
  have ky: "keeps (=) (txn_body_youngest_rev ref_db)" unfolding txn_body_youngest_rev_def by (rule reads.keeps_rev_reads(2))
  from t obtain y s1 root s2 node s3 u s4 where
      y: "svn_fs__retry_txn db (txn_body_youngest_rev db) (others k s) = Some (Ok y, s1)"
      and root: "svn_fs__retry_txn db (txn_body_revision_root db y) (others (k + 1) s1) = Some (Ok root, s2)"
      and node: "svn_fs__retry_txn db (txn_body_get_root db root) (others (k + 2) s2) = Some (Ok node, s3)"
      and merged: "svn_fs__retry_txn db (txn_body_merge order db None node txn) (others (k + 3) s3) = Some (Ok u, s4)"
      and c: "(case svn_fs__retry_txn db (txn_body_commit md5 db (date k) txn) (others (k + 4) s4) of
         None \<Rightarrow> None
       | Some (Ok new_rev, s) \<Rightarrow> Some (Ok (Some new_rev), s)
       | Some (Abort, s) \<Rightarrow> Some (Abort, s)
       | Some (Err e, s) \<Rightarrow>
           if e \<noteq> SVN_ERR_TXN_OUT_OF_DATE then Some (Err e, s)
           else
             fs_then (svn_fs__retry_txn db (txn_body_youngest_rev db) (others (k + 5) s)) (\<lambda>youngest_rev s.
               if youngest_rev = y then Some (Err e, s) else Some (Ok None, s))) = Some (Ok None, s')"
    unfolding commit_turn_def svn_fs_youngest_rev_def svn_fs_revision_root_def fs_call_laws [OF assms(1)] fs_then_Ok by blast
  obtain e s5 y' s6 where failed: "svn_fs__retry_txn db (txn_body_commit md5 db (date k) txn) (others (k + 4) s4) = Some (Err e, s5)"
      and y': "svn_fs__retry_txn db (txn_body_youngest_rev db) (others (k + 5) s5) = Some (Ok y', s6)" and ne: "y' \<noteq> y"
  proof (cases "svn_fs__retry_txn db (txn_body_commit md5 db (date k) txn) (others (k + 4) s4)")
    case (Some p)
    obtain r s5 where p: "p = (r, s5)" by (cases p)
    show thesis using c Some p that by (cases r) (auto simp: fs_then_Ok split: if_splits)
  qed (use c in simp)
  have v1: "view s1 = view s" "txn_body_youngest_rev ref_db (view s) = Ok (y, view s)"
    using retry_keeps(1,2) [OF assms(2) ry ky _ y] o [of 0 s] by auto
  have v2: "view s2 = view s1"
    using retry_keeps(1) [OF assms(2) refines_change_bodies(4) [OF assms(1)] reads.keeps_read_bodies(10) _ root] o [of 1 s1] by auto
  have v3: "view s3 = view s2"
    using retry_keeps(1) [OF assms(2) refines_get_root [OF assms(1)] reads.keeps_read_bodies(13) _ node] o [of 2 s2] by auto
  have v4: "same_revisions (view s3) (view s4)"
    using retry_keeps(1) [OF assms(2) refines_txn_body_merge [OF assms(1)] treew.keeps_txn_body_merge revs merged] o [of 3 s3] by auto
  have v5: "view s5 = view s4"
    using retry_txn_all_or_nothing [OF failed assms(2)] o [of 4 s4] by (simp add: all_or_nothing_def)
  have v6: "txn_body_youngest_rev ref_db (view s5) = Ok (y', view s5)"
    using retry_keeps(1,2) [OF assms(2) ry ky _ y'] o [of 5 s5] by auto
  have "last_rev (view s5) = last_rev (view s)" using v1(1) v2 v3 v4 v5 by (simp add: same_revisions_def last_rev_def)
  then show False using v1(2) v6 ne
    by (auto simp: txn_body_youngest_rev_def svn_fs__youngest_rev_def trail_defs svn_fs__check_fs_def split: if_splits)
qed

text \<open>The states in which the turns of the loop start.\<close>

inductive later_turn ::
  "(nat \<Rightarrow> 'd \<Rightarrow> 'd) \<Rightarrow> ((bytes, svn_fs_dirent_t) fmap \<Rightarrow> bytes list) \<Rightarrow> 'c md5_routines \<Rightarrow> 'd bdb \<Rightarrow> (nat \<Rightarrow> bytes) \<Rightarrow> svn_fs_txn_t
     \<Rightarrow> 'd \<Rightarrow> nat \<Rightarrow> 'd \<Rightarrow> bool"
  for others order md5 db date txn s
where
  first_turn: "later_turn others order md5 db date txn s 0 s"
| next_turn: "later_turn others order md5 db date txn s k s1 \<Longrightarrow> commit_turn others order md5 db date txn k s1 = Some (Ok None, s2)
    \<Longrightarrow> later_turn others order md5 db date txn s (k + 6) s2"

text \<open>The result of the call that a turn which is not repeated gives.\<close>

definition turn_result :: "int option svn_result \<Rightarrow> int svn_result" where
  "turn_result t = svn_bind t (\<lambda>new_rev. Ok (the new_rev))"

text \<open>
  C4. A commit ends: when no other process writes during one turn of the loop that merges and tries again,
  the loop is left in that turn or in an earlier one, with the result of the turn, whatever the other processes
  do before and afterwards; it is only required that the single transactions of the turns up to that one return.
\<close>

theorem commit_txn_returns:
  assumes "bdb_laws db view" and "txn_laws db view" and "\<forall>j s. 6 * n \<le> j \<and> j < 6 * n + 6 \<longrightarrow> view (others j s) = view s"
    and "\<forall>k s1. k \<le> 6 * n \<and> later_turn others order md5 db date txn s k s1 \<longrightarrow> commit_turn others order md5 db date txn k s1 \<noteq> None"
  shows "\<exists>m s1 t s'. m \<le> n \<and> later_turn others order md5 db date txn s (6 * m) s1 \<and>
    commit_turn others order md5 db date txn (6 * m) s1 = Some (t, s') \<and> t \<noteq> Ok None \<and>
    svn_fs_commit_txn others order md5 db date txn s = Some (turn_result t, s')"
proof -
  have "\<exists>m' s2 t s'. m' \<le> n \<and> later_turn others order md5 db date txn s (6 * m') s2 \<and>
      commit_turn others order md5 db date txn (6 * m') s2 = Some (t, s') \<and> t \<noteq> Ok None \<and>
      commit_loop others order md5 db date txn (6 * m) s1 = Some (turn_result t, s')"
    if "m \<le> n" "later_turn others order md5 db date txn s (6 * m) s1" for m s1
    using that
  proof (induction "n - m" arbitrary: m s1)
    case 0
    then have m: "m = n" by simp
    obtain t s2 where t: "commit_turn others order md5 db date txn (6 * m) s1 = Some (t, s2)" using assms(4) "0.prems" by fastforce
    have ne: "t \<noteq> Ok None" using commit_turn_alone [OF assms(1,2), of "6 * n" others] assms(3) t m by metis
    then have "commit_loop others order md5 db date txn (6 * m) s1 = Some (turn_result t, s2)"
      using t by (subst commit_loop.simps) (auto simp: turn_result_def split: svn_result.splits option.splits)
    then show ?case using "0.prems" t ne by blast
  next
    case (Suc d)
    obtain t s2 where t: "commit_turn others order md5 db date txn (6 * m) s1 = Some (t, s2)" using assms(4) Suc.prems by fastforce
    show ?case
    proof (cases "t = Ok None")
      case True
      have "later_turn others order md5 db date txn s (6 * Suc m) s2" using next_turn [OF Suc.prems(2)] t True by (simp add: add.commute)
      moreover have "commit_loop others order md5 db date txn (6 * m) s1 = commit_loop others order md5 db date txn (6 * Suc m) s2"
        using t True by (subst commit_loop.simps) (simp add: add.commute)
      ultimately show ?thesis using Suc.hyps(1) [of "Suc m" s2] Suc.hyps(2) Suc.prems(1) by simp
    next
      case False
      then have "commit_loop others order md5 db date txn (6 * m) s1 = Some (turn_result t, s2)"
        using t by (subst commit_loop.simps) (auto simp: turn_result_def split: svn_result.splits option.splits)
      then show ?thesis using Suc.prems t False by blast
    qed
  qed
  from this [of 0 s] first_turn [of others order md5 db date txn s] show ?thesis by (simp add: svn_fs_commit_txn_def)
qed

section \<open>The new revision\<close>

lemma children_text_Cons:
  "length (children_text (c # cs)) = length (skel_text c) + (if cs = [] then 0 else Suc (length (children_text cs)))"
  by (cases cs) simp_all

lemma change_prop_length:
  "change_prop cs name (Some d) = Some cs' \<Longrightarrow>
   (cs' = [] \<longleftrightarrow> cs = []) \<and> length (children_text cs') \<le> length (children_text cs) + length (skel_text (skel_atom d))"
proof (induction cs name "Some d" arbitrary: cs' rule: change_prop.induct)
  case (1 n v props name)
  show ?case
  proof (cases "svn_fs__matches_atom (Some n) name")
    case True
    then have "cs' = n # skel_atom d # props" using 1 by simp
    then show ?thesis by (simp add: children_text_Cons del: skel_text.simps children_text.simps)
  next
    case False
    then obtain r where r: "change_prop props name (Some d) = Some r" "cs' = n # v # r" using 1 by auto
    show ?thesis using 1(1) [OF False r(1)] r(2) by (auto simp: children_text_Cons simp del: skel_text.simps children_text.simps)
  qed
qed simp_all

lemma set_prop_length:
  assumes "svn_fs__set_prop p name (Some d) = Ok p'" and "length d < 2 ^ 32" and "length name < 2 ^ 32"
  shows "length (skel_text p') \<le> length (skel_text p) + length d + length name + 50"
proof -
  have a: "length (skel_text (skel_atom d)) \<le> length d + 21" "length (skel_text (skel_atom name)) \<le> length name + 21"
    using atom_text_length [OF assms(2)] atom_text_length [OF assms(3)] by simp_all
  have "svn_fs__is_valid_proplist (Some p)" using assms(1) by (auto simp: svn_fs__set_prop_def split: if_splits)
  then obtain b cs where p: "p = skel_list b cs" by (auto simp: valid_proplist_pairs)
  show ?thesis
  proof (cases "change_prop cs name (Some d)")
    case (Some cs')
    then have "p' = skel_list b cs'" using assms(1) by (simp add: svn_fs__set_prop_def p split: if_splits)
    then show ?thesis using change_prop_length [OF Some] a by (simp add: p del: skel_text.simps(1))
  next
    case None
    then have "p' = skel_list b (skel_atom name # skel_atom d # cs)"
      using assms(1) by (simp add: svn_fs__set_prop_def p svn_fs__mem_atom_def split: if_splits)
    then show ?thesis using a by (simp add: p children_text_Cons del: skel_text.simps(1) children_text.simps)
  qed
qed

definition rev_skel :: "svn_fs_id_t \<Rightarrow> skel_t \<Rightarrow> skel_t" where
  "rev_skel root p = skel_list [] [skel_atom ''revision'', skel_atom (id_text root), p]"

lemma revision_skel_of:
  assumes "key_ok root" and "3 < length (skel_children transaction)"
  shows "revision_skel root transaction = Ok (rev_skel root (skel_children transaction ! 3))"
  using id_atom_text [OF assms(1)] assms(2)
  by (simp add: revision_skel_def skel_child_def svn_fs__make_empty_list_def svn_fs__str_atom_def rev_skel_def)

lemma rev_skel_text:
  assumes "key_ok root" and "length (skel_text p) < 2 ^ 31 + 1000"
  shows "length (skel_text (rev_skel root p)) < 2 ^ 32"
proof -
  have r: "skel_text (skel_atom ''revision'') = ''revision''" by code_simp
  have "length (skel_text (skel_atom (id_text root))) \<le> length (id_text root) + 21"
    using key_ok_length [OF assms(1)] by (intro atom_text_length) simp
  then show ?thesis using key_ok_length [OF assms(1)] assms(2)
    by (simp add: rev_skel_def r del: skel_text.simps(1) id_text.simps)
qed

lemma proplist_ok_norm [simp]: "proplist_ok (skel_norm p) = proplist_ok p"
proof (cases "svn_fs__is_valid_proplist (Some p)")
  case True
  then obtain b cs where "p = skel_list b cs" "atom_pairs cs" by (auto simp: valid_proplist_pairs)
  then show ?thesis using is_valid_proplist_norm [of p] True atom_pairs_norm [of cs undefined] by (simp add: proplist_ok_def)
qed (simp add: proplist_ok_def)

lemma skel_text_norm [simp]: "skel_text (skel_norm p) = skel_text p"
  using copy_skel_text [of "skel_norm p"] copy_skel_text [of p] by simp

lemma count_components_text: "key_ok nid \<Longrightarrow> svn_fs__count_id_components (id_text nid) = length nid"
  using count_id_text [of nid 1] by (auto simp: svn_fs__count_id_components_def key_ok_def)

text \<open>A new revision and its date: the record that the table ends up with.\<close>

lemma new_revision_ref:
  assumes "revs_inv v" and "last_rev v < 2 ^ 32 - 1" and "key_ok root" and "proplist_ok p" and "length (skel_text p) + length date < 2 ^ 31"
  obtains x skel where
    "tbind (svn_fs__put_rev ref_db (rev_skel root p)) (\<lambda>r. tbind (svn_fs__set_rev_prop ref_db r ''svn:date'' (Some date)) (\<lambda>_. tret r)) v =
      Ok (int (last_rev v), put_rev_rec (last_rev v + 1) x v)"
    and "revs_inv (put_rev_rec (last_rev v + 1) x v)"
    and "\<forall>q. 0 \<le> q \<longrightarrow> rev_rec (put_rev_rec (last_rev v + 1) x v) q = (if q = int (last_rev v) then Ok skel else rev_rec v q)"
    and "length (skel_children skel) = 3" and "skel_children skel ! 1 = skel_atom (id_text root)"
    and "\<forall>n. svn_fs__get_prop (skel_children skel ! 2) n = (if n = ''svn:date'' then Ok (Some date) else svn_fs__get_prop p n)"
proof -
  let ?r = "int (last_rev v)" and ?n = "last_rev v + 1" and ?s = "rev_skel root p"
  have n: "nat (?r + 1) = ?n" "?r < 2 ^ 32 - 1" using assms(2) by simp_all
  have l1: "length (skel_text ?s) < 2 ^ 32" using rev_skel_text [OF assms(3), of p] assms(5) by simp
  have vp: "svn_fs__is_valid_proplist (Some p)" using assms(4) by (simp add: proplist_ok_def)
  have ev: "even (svn_fs__count_id_components (id_text root))" using count_components_text [OF assms(3)] assms(3) by (simp add: key_ok_def)
  have valid: "is_valid_filesystem_revision ?s" using vp ev by (simp add: rev_skel_def del: id_text.simps)
  let ?v1 = "put_rev_rec ?n (skel_text ?s) v"
  have put: "svn_fs__put_rev ref_db ?s v = Ok (?r, ?v1)" by (rule put_rev_ref [OF l1 valid])
  have inv1: "revs_inv ?v1" using assms(1,2) by (intro revs_inv_put) auto
  let ?b = "skel_text ?s"
  have norm: "skel_norm ?s = skel_list ?b [skel_atom ''revision'', skel_atom (id_text root), skel_norm p]" by (simp add: rev_skel_def)
  have rec1: "rev_rec ?v1 ?r = Ok (skel_norm ?s)" using rev_rec_put [OF l1 _ _ valid, of ?r ?r v] n by simp
  obtain p' where p': "svn_fs__set_prop (skel_norm p) ''svn:date'' (Some date) = Ok p'" "proplist_ok p'"
      "\<forall>n. svn_fs__get_prop p' n = (if n = ''svn:date'' then Ok (Some date) else svn_fs__get_prop (skel_norm p) n)"
    using set_prop_spec [of "skel_norm p" "''svn:date''" "Some date"] assms(4) by auto
  let ?t = "skel_list ?b [skel_atom ''revision'', skel_atom (id_text root), p']"
  have tx: "skel_text ?t = skel_text (rev_skel root p')" by (simp add: rev_skel_def)
  have "length (skel_text p') < 2 ^ 31 + 1000" using set_prop_length [OF p'(1)] assms(5) by simp
  then have l2: "length (skel_text ?t) < 2 ^ 32" unfolding tx by (rule rev_skel_text [OF assms(3)])
  have valid2: "is_valid_filesystem_revision ?t" using p'(2) ev by (simp add: proplist_ok_def del: id_text.simps)
  let ?v2 = "put_rev_rec ?n (skel_text ?t) v"
  have put2: "put_rev_rec ?n (skel_text ?t) ?v1 = ?v2" by (simp add: put_rev_rec_def)
  have "svn_fs__set_rev_prop ref_db ?r ''svn:date'' (Some date) ?v1 = Ok ((), ?v2)"
    using get_rev_ref [OF inv1 _ n(2)] rec1 p'(1) recno_of_small [OF _ n(2)] skel_to_dbt_text(1) [OF l2] put2 n
    by (simp add: svn_fs__set_rev_prop_def trail_defs skel_child_def norm numeral_2_eq_2 del: skel_text.simps skel_norm.simps)
  then have run: "tbind (svn_fs__put_rev ref_db ?s) (\<lambda>r. tbind (svn_fs__set_rev_prop ref_db r ''svn:date'' (Some date)) (\<lambda>_. tret r)) v = Ok (?r, ?v2)"
    using put by (simp add: tbind_def tret_def)
  show thesis
  proof (rule that [OF run])
    show "revs_inv ?v2" using assms(1,2) by (intro revs_inv_put) auto
    show "\<forall>q. 0 \<le> q \<longrightarrow> rev_rec ?v2 q = (if q = ?r then Ok (skel_norm ?t) else rev_rec v q)"
      using rev_rec_put [OF l2 _ _ valid2, of ?r _ v] n by simp
    show "length (skel_children (skel_norm ?t)) = 3" "skel_children (skel_norm ?t) ! 1 = skel_atom (id_text root)" by simp_all
    show "\<forall>m. svn_fs__get_prop (skel_children (skel_norm ?t) ! 2) m = (if m = ''svn:date'' then Ok (Some date) else svn_fs__get_prop p m)"
      using p'(3) get_prop_norm [of p] get_prop_norm [of p'] by (simp add: numeral_2_eq_2)
  qed
qed

section \<open>What a commit does\<close>

lemma dag_get_node_id: "svn_fs__dag_get_node db nid s = Ok (node, s') \<Longrightarrow> dn_id node = svn_fs__id_copy nid"
  by (auto simp: svn_fs__dag_get_node_def get_node_revision_def new_dag_node_def cache_node_revision_def tbind_def tlift_def tret_def
      tfail_def svn_bind_Ok_iff split: option.splits if_splits)

lemma tbind_Ok: "tbind m f v = Ok (y, w) \<longleftrightarrow> (\<exists>x u. m v = Ok (x, u) \<and> f x u = Ok (y, w))"
  by (auto simp: tbind_def svn_bind_Ok_iff)

lemma tlift_Ok: "tlift r v = Ok (x, w) \<longleftrightarrow> r = Ok x \<and> w = v"
  by (auto simp: tlift_def svn_bind_Ok_iff)

text \<open>The ids, the properties and the root of a transaction that can be read.\<close>

definition txn_is :: "fs_tables \<Rightarrow> bytes \<Rightarrow> svn_fs_id_t \<Rightarrow> svn_fs_id_t \<Rightarrow> skel_t \<Rightarrow> bool" where
  "txn_is v t root base p \<longleftrightarrow> length t < 2 ^ 32 \<and> key_ok root \<and> key_ok base \<and> proplist_ok p \<and>
     (\<exists>tr. txn_entry v t = Ok tr \<and> get_ids_from_txn_skel tr = Ok (root, base) \<and> skel_children tr ! 3 = p)"

lemma txn_isD:
  assumes "txn_is v t root base p"
  obtains tr where "svn_fs__get_txn ref_db t v = Ok (tr, v)" and "svn_fs__get_txn_ids ref_db t v = Ok ((root, base), v)"
    and "3 < length (skel_children tr)" and "skel_children tr ! 3 = p"
proof -
  obtain tr where tr: "length t < 2 ^ 32" "txn_entry v t = Ok tr" "get_ids_from_txn_skel tr = Ok (root, base)" "skel_children tr ! 3 = p"
    using assms by (auto simp: txn_is_def)
  have "is_valid_transaction tr" using tr(2) by (auto simp: txn_entry_def split: option.splits if_splits)
  then have "3 < length (skel_children tr)" by (auto elim: is_valid_transaction.elims(2))
  with tr that [of tr] get_txn_ref [OF tr(1), of v] show thesis by (simp add: svn_fs__get_txn_ids_def tbind_def tlift_def)
qed

lemma dag_commit_txn_steps:
  assumes "svn_fs__dag_commit_txn md5 ref_db date t v = Ok (r, v')" and "revs_inv v" and "last_rev v < 2 ^ 32 - 1"
    and "txn_is v t root base p" and "length (skel_text p) + length date < 2 ^ 31"
  obtains skel where "r = int (last_rev v)" and "last_rev v' = last_rev v + 1" and "revs_inv v'"
    and "\<forall>q. 0 \<le> q \<longrightarrow> rev_rec v' q = (if q = r then Ok skel else rev_rec v q)"
    and "length (skel_children skel) = 3" and "skel_children skel ! 1 = skel_atom (id_text root)"
    and "\<forall>n. svn_fs__get_prop (skel_children skel ! 2) n = (if n = ''svn:date'' then Ok (Some date) else svn_fs__get_prop p n)"
    and "\<forall>t'. txn_rec t' v' = (if t' = t then None else txn_rec t' v)"
proof -
  have txn: "key_ok root" "proplist_ok p" "length t < 2 ^ 32" using assms(4) by (auto simp: txn_is_def)
  obtain tr where tr: "svn_fs__get_txn ref_db t v = Ok (tr, v)" "svn_fs__get_txn_ids ref_db t v = Ok ((root, base), v)"
      "3 < length (skel_children tr)" "skel_children tr ! 3 = p"
    using txn_isD [OF assms(4)] .
  obtain x skel where x:
      "tbind (svn_fs__put_rev ref_db (rev_skel root p)) (\<lambda>r. tbind (svn_fs__set_rev_prop ref_db r ''svn:date'' (Some date)) (\<lambda>_. tret r)) v =
        Ok (int (last_rev v), put_rev_rec (last_rev v + 1) x v)"
      "revs_inv (put_rev_rec (last_rev v + 1) x v)"
      "\<forall>q. 0 \<le> q \<longrightarrow> rev_rec (put_rev_rec (last_rev v + 1) x v) q = (if q = int (last_rev v) then Ok skel else rev_rec v q)"
      "length (skel_children skel) = 3" "skel_children skel ! 1 = skel_atom (id_text root)"
      "\<forall>n. svn_fs__get_prop (skel_children skel ! 2) n = (if n = ''svn:date'' then Ok (Some date) else svn_fs__get_prop p n)"
    using new_revision_ref [OF assms(2,3) txn(1,2) assms(5)] .
  let ?v2 = "put_rev_rec (last_rev v + 1) x v"
  obtain node v0 where node: "svn_fs__dag_txn_root ref_db t v = Ok (node, v0)" using assms(1) by (auto simp: svn_fs__dag_commit_txn_def tbind_Ok)
  have v0: "v0 = v" using keepsD [OF reads.keeps_dag_roots(2) node] by simp
  have id: "dn_id node = root" using node tr(2) dag_get_node_id [of ref_db root v node v0] id_copy_key_ok [OF txn(1)]
    by (auto simp: svn_fs__dag_txn_root_def tbind_Ok)
  have sk: "revision_skel (dn_id node) tr = Ok (rev_skel root p)" using revision_skel_of [OF txn(1) tr(3)] id tr(4) by simp
  obtain v3 where v3: "r = int (last_rev v)" "stabilize_node md5 ref_db node r ?v2 = Ok ((), v3)" "svn_fs__delete_txn ref_db t v3 = Ok ((), v')"
    using assms(1) x(1) node v0 tr(1) sk by (auto simp: svn_fs__dag_commit_txn_def tbind_Ok tlift_Ok tret_def)
  have s3: "same_transactions ?v2 v3" by (rule keepsD [OF dagw.keeps_stabilize_node v3(2)])
  have v': "v' = del_tab Transactions t v3" using v3(3) txn(3)
    by (auto simp: svn_fs__delete_txn_def db_write_def svn_fs__str_to_dbt_def svn_fs__set_dbt_def split: if_splits)
  have revs: "ft_revs v' = ft_revs ?v2" using s3 by (simp add: v' same_transactions_def del_tab_def)
  have last: "last_rev v' = last_rev ?v2" "revs_inv v' = revs_inv ?v2" "rev_rec v' q = rev_rec ?v2 q" for q
    using revs by (simp_all add: last_rev_def revs_inv_def rev_rec_def)
  show thesis
  proof (rule that)
    show "last_rev v' = last_rev v + 1" using last(1) by (simp add: last_rev_put)
    have "txn_rec t' v3 = txn_rec t' ?v2" for t' using s3 by (simp add: txn_rec_def same_transactions_def)
    then show "\<forall>t'. txn_rec t' v' = (if t' = t then None else txn_rec t' v)" by (simp add: v')
  qed (use last x v3(1) in auto)
qed

lemma id_eq_key_ok: "key_ok a \<Longrightarrow> key_ok b \<Longrightarrow> svn_fs__id_eq a b \<longleftrightarrow> a = b"
  by (rule id_eq_iff) (auto simp: key_ok_def)

lemma youngest_ref: "last_rev v \<noteq> 0 \<Longrightarrow> svn_fs__youngest_rev ref_db v = Ok (int (last_rev v) - 1, v)"
  by (simp add: svn_fs__youngest_rev_def trail_defs svn_fs__check_fs_def)

lemma rev_get_root_ref:
  assumes "revs_inv v" and "0 \<le> r" and "r < 2 ^ 32 - 1" and "rev_rec v r = Ok skel" and "1 < length (skel_children skel)"
    and "skel_children skel ! 1 = skel_atom (id_text i)" and "key_ok i"
  shows "svn_fs__rev_get_root ref_db r v = Ok (i, v)"
  using get_rev_ref [OF assms(1-3)] assms(4-6) key_ok_text(2) [OF assms(7)]
  by (simp add: svn_fs__rev_get_root_def tbind_def tlift_def tret_def skel_child_def del: id_text.simps)

text \<open>
  C6. On every database that works as documented: a transaction that is not based on the youngest
  revision is refused as out of date.  A commit that succeeds adds one revision, with the number after the
  youngest, whose root is the root of the transaction and whose properties are those of the
  transaction and the date; every older revision is as before, the transaction is gone, and every
  other transaction is as before.
\<close>

theorem commit_adds_revision:
  assumes "bdb_laws db view" and "revs_inv (view s)" and "last_rev (view s) < 2 ^ 32 - 1" and "0 < last_rev (view s)"
    and "svn_fs__rev_get_root ref_db (int (last_rev (view s)) - 1) (view s) = Ok (young, view s)" and "key_ok young"
    and "txn_is (view s) (svn_fs_txn_name txn) root base p" and "node_of (view s) base \<noteq> None"
    and "length (skel_text p) + length date < 2 ^ 31"
  shows "if base \<noteq> young then txn_body_commit md5 db date txn s = Err SVN_ERR_TXN_OUT_OF_DATE
    else \<forall>r s'. txn_body_commit md5 db date txn s = Ok (r, s') \<longrightarrow>
      trail_result (svn_fs__youngest_rev db) s = Ok (r - 1) \<and> trail_result (svn_fs__youngest_rev db) s' = Ok r \<and>
      trail_result (svn_fs__rev_get_root db r) s' = Ok root \<and>
      (\<forall>n. trail_result (txn_body_revision_prop db r n) s' = (if n = ''svn:date'' then Ok (Some date) else svn_fs__get_prop p n)) \<and>
      (\<forall>q. 0 \<le> q \<and> q < r \<longrightarrow> trail_result (svn_fs__get_rev db q) s' = trail_result (svn_fs__get_rev db q) s) \<and>
      trail_result (svn_fs__get_txn db (svn_fs_txn_name txn)) s' = Err SVN_ERR_FS_NO_SUCH_TRANSACTION \<and>
      (\<forall>t. t \<noteq> svn_fs_txn_name txn \<and> length t < 2 ^ 32 \<longrightarrow> trail_result (svn_fs__get_txn db t) s' = trail_result (svn_fs__get_txn db t) s)"
proof -
  let ?t = "svn_fs_txn_name txn" and ?v = "view s"
  have kb: "key_ok base" "key_ok root" "length ?t < 2 ^ 32" using assms(7) by (auto simp: txn_is_def)
  obtain nr where "node_of ?v base = Some nr" using assms(8) by blast
  then obtain node where node: "svn_fs__dag_get_node ref_db base ?v = Ok (node, ?v)" "dn_id node = base"
    using dag_get_node_for [OF kb(1)] by metis
  obtain tr where "svn_fs__get_txn_ids ref_db ?t ?v = Ok ((root, base), ?v)" using txn_isD [OF assms(7)] by metis
  then have body: "txn_body_commit md5 ref_db date txn ?v =
      (if base \<noteq> young then Err SVN_ERR_TXN_OUT_OF_DATE else svn_fs__dag_commit_txn md5 ref_db date ?t ?v)"
    using youngest_ref [of ?v] assms(4,5) node id_eq_key_ok [OF assms(6) kb(1)]
    by (simp add: txn_body_commit_def Let_def tbind_def tfail_def svn_fs__dag_txn_base_root_def svn_fs__dag_get_id_def)
  note ref = refines_txn_body_commit [OF assms(1), of md5 date txn]
  show ?thesis
  proof (cases "base = young")
    case False
    then show ?thesis using refines_Err [OF ref] body by simp
  next
    case True
    have "trail_result (svn_fs__youngest_rev db) s = Ok (r - 1) \<and> trail_result (svn_fs__youngest_rev db) s' = Ok r \<and>
      trail_result (svn_fs__rev_get_root db r) s' = Ok root \<and>
      (\<forall>n. trail_result (txn_body_revision_prop db r n) s' = (if n = ''svn:date'' then Ok (Some date) else svn_fs__get_prop p n)) \<and>
      (\<forall>q. 0 \<le> q \<and> q < r \<longrightarrow> trail_result (svn_fs__get_rev db q) s' = trail_result (svn_fs__get_rev db q) s) \<and>
      trail_result (svn_fs__get_txn db ?t) s' = Err SVN_ERR_FS_NO_SUCH_TRANSACTION \<and>
      (\<forall>t. t \<noteq> ?t \<and> length t < 2 ^ 32 \<longrightarrow> trail_result (svn_fs__get_txn db t) s' = trail_result (svn_fs__get_txn db t) s)"
      if run: "txn_body_commit md5 db date txn s = Ok (r, s')" for r s'
    proof -
      have d: "svn_fs__dag_commit_txn md5 ref_db date ?t ?v = Ok (r, view s')" using refinesD [OF ref, of s] run body True by simp
      obtain skel where c: "r = int (last_rev ?v)" "last_rev (view s') = last_rev ?v + 1" "revs_inv (view s')"
          "\<forall>q. 0 \<le> q \<longrightarrow> rev_rec (view s') q = (if q = r then Ok skel else rev_rec ?v q)"
          "length (skel_children skel) = 3" "skel_children skel ! 1 = skel_atom (id_text root)"
          "\<forall>n. svn_fs__get_prop (skel_children skel ! 2) n = (if n = ''svn:date'' then Ok (Some date) else svn_fs__get_prop p n)"
          "\<forall>t'. txn_rec t' (view s') = (if t' = ?t then None else txn_rec t' ?v)"
        using dag_commit_txn_steps [OF d assms(2,3,7,9)] .
      have r: "0 \<le> r" "r < 2 ^ 32 - 1" using c(1) assms(3) by simp_all
      have y: "trail_result (svn_fs__youngest_rev db) s = Ok (r - 1)" "trail_result (svn_fs__youngest_rev db) s' = Ok r"
        using refines_result [OF refines_youngest_rev [OF assms(1)]] youngest_ref [of ?v] youngest_ref [of "view s'"] assms(4) c(1,2)
        by (simp_all add: trail_result_def)
      have root: "trail_result (svn_fs__rev_get_root db r) s' = Ok root"
        using refines_result [OF refines_rev_get_root [OF assms(1)]] rev_get_root_ref [OF c(3) r _ _ c(6) kb(2)] c(4,5) r(1)
        by (simp add: trail_result_def)
      have props: "trail_result (txn_body_revision_prop db r n) s' = (if n = ''svn:date'' then Ok (Some date) else svn_fs__get_prop p n)" for n
        using revision_prop_result [OF assms(1) c(3) r, of n] c(4,7) r(1) by simp
      have old: "trail_result (svn_fs__get_rev db q) s' = trail_result (svn_fs__get_rev db q) s" if "0 \<le> q" "q < r" for q
        using get_rev_result [OF assms(1) c(3), of q] get_rev_result [OF assms(1,2), of q] c(4) that r by simp
      have txns: "trail_result (svn_fs__get_txn db t) s'' = txn_entry (view s'') t" if "length t < 2 ^ 32" for t s''
        using refines_result [OF refines_get_txn [OF assms(1)], of t s''] get_txn_ref [OF that, of "view s''"]
        by (cases "txn_entry (view s'') t") (simp_all add: trail_result_def)
      have "txn_entry (view s') ?t = Err SVN_ERR_FS_NO_SUCH_TRANSACTION" using c(8) by (simp add: txn_entry_def)
      moreover have "txn_entry (view s') t = txn_entry ?v t" if "t \<noteq> ?t" for t using c(8) that by (simp add: txn_entry_def)
      ultimately show ?thesis using y root props old txns kb(3) by simp
    qed
    then show ?thesis using True by auto
  qed
qed

section \<open>An example\<close>

text \<open>A directory without entries and properties becomes immutable; the first successor of \<open>0.0\<close> has no predecessor.\<close>

lemma says_set_rev:
  assumes "says s nr"
  shows "\<exists>s'. set_node_rev s r = Ok s' \<and> says s' (nr\<lparr>nr_rev := dec_digits (nat (r mod 2 ^ 64))\<rparr>)"
  by (rule saysE [OF assms])
    (simp add: set_node_rev_def nr_hdr_rev_def nr_header_def skel_child_def nr_skel_def split: option.split)

definition bare_dir :: "bytes \<Rightarrow> node_rev_t" where
  "bare_dir r = \<lparr>nr_kind = ''dir'', nr_rev = r, nr_opts = [], nr_prop = [], nr_data = [], nr_edit = None\<rparr>"

lemma bare_dir:
  "nr_valid (bare_dir r)" "kind_of (bare_dir r) = svn_node_dir" "(bare_dir r)\<lparr>nr_rev := r'\<rparr> = bare_dir r'" "dir_is v (bare_dir r) []"
  "length r < 100 \<Longrightarrow> nr_small (bare_dir r)"
proof -
  have "length (skel_text (nr_skel (bare_dir r))) \<le> length (skel_text (skel_atom r)) + 50"
    by (simp add: bare_dir_def nr_skel_def dec_digits.simps use_implicit_def del: skel_text.simps(1)) (simp add: use_implicit_def dec_digits.simps)
  then show "length r < 100 \<Longrightarrow> nr_small (bare_dir r)" using atom_text_length [of r] by (simp add: nr_small_def)
qed (simp_all add: bare_dir_def nr_valid_def kind_of_def dir_is_def entries_ok_def rep_key_ok_def)

lemma make_bare_immutable:
  assumes "node_for v node (bare_dir [])" and "length (dec_digits (nat (r mod 2 ^ 64))) < 100"
  obtains node' where "make_node_immutable ref_db node r v = Ok (node', nr_put (dn_id node) (bare_dir (dec_digits (nat (r mod 2 ^ 64)))) v)"
    and "dn_id node' = dn_id node"
proof -
  let ?d = "dec_digits (nat (r mod 2 ^ 64))"
  obtain c n1 where c: "get_node_revision ref_db node v = Ok ((c, n1), v)" "says c (bare_dir [])" "node_for v n1 (bare_dir [])" "dn_id n1 = dn_id node"
    using get_node_revision_for [OF assms(1)] by metis
  have cc: "says (svn_fs__copy_skel c) (bare_dir [])" using c(2) copy_skel_idem [of c] by simp
  obtain s' where s': "set_node_rev (svn_fs__copy_skel c) r = Ok s'" "says s' (bare_dir ?d)" using says_set_rev [OF cc, of r] bare_dir(3) by auto
  have k: "key_ok (dn_id n1)" "dn_kind n1 = kind_of (bare_dir ?d)" using c(3) by (simp_all add: node_for_def bare_dir(2))
  obtain n2 where "set_node_revision ref_db n1 s' v = Ok (n2, nr_put (dn_id n1) (bare_dir ?d) v)" "dn_id n2 = dn_id n1"
    using set_node_revision_for [OF k(1) s'(2) bare_dir(1) bare_dir(5) [OF assms(2)] k(2)] by metis
  then show thesis using that [of n2] c(1,4) s'(1) says_parts [OF c(2)] says_parts [OF cc]
    by (simp add: make_node_immutable_def make_key_immutable_def Let_def tbind_def tlift_def tret_def key_string_def apr_pstrndup_def bare_dir_def)
qed

lemma stabilize_bare:
  assumes "keys_inv v" and "node_for v node (bare_dir [])" and "length (dec_digits (nat (r mod 2 ^ 64))) < 100"
    and "svn_fs__id_predecessor (dn_id node) = Ok None"
  shows "stabilize_node md5 ref_db node r v = Ok ((), nr_put (dn_id node) (bare_dir (dec_digits (nat (r mod 2 ^ 64)))) v)"
proof -
  let ?d = "dec_digits (nat (r mod 2 ^ 64))" and ?i = "dn_id node"
  let ?v = "nr_put ?i (bare_dir ?d) v"
  have i: "key_ok ?i" "svn_fs__dag_is_directory node"
    using assms(2) by (simp_all add: node_for_def svn_fs__dag_is_directory_def bare_dir(2))
  obtain n1 where m: "svn_fs__dag_check_mutable ref_db node v = Ok ((True, n1), v)" "node_for v n1 (bare_dir [])" "dn_id n1 = ?i"
    using check_mutable_for [OF assms(2)] by (auto simp: bare_dir_def)
  obtain es n2 where e: "svn_fs__dag_dir_entries_skel ref_db n1 v = Ok ((es, n2), v)" "lists es []" "node_for v n2 (bare_dir [])" "dn_id n2 = ?i"
    using dir_entries_for [OF assms(1) m(2) bare_dir(4)] m(3) by metis
  have ch: "skel_children es = []" using listsE [OF e(2)] by fastforce
  obtain n3 where im: "make_node_immutable ref_db n2 r v = Ok (n3, ?v)" "dn_id n3 = ?i"
    using make_bare_immutable [OF e(3) assms(3)] e(4) by metis
  have ni: "node_of ?v ?i = Some (bare_dir ?d)" using node_of_put [OF i(1,1) bare_dir(1) bare_dir(5) [OF assms(3)], of v] by simp
  obtain n4 where "svn_fs__dag_get_node ref_db ?i ?v = Ok (n4, ?v)" using dag_get_node_for [OF i(1) ni] by metis
  then have st: "svn_fs__stable_node md5 ref_db ?i ?v = Ok ((), ?v)"
    using assms(4) by (simp add: svn_fs__stable_node_def tbind_def tlift_def tret_def)
  have d1: "svn_fs__dag_is_directory n1" using m(2) by (simp add: node_for_def svn_fs__dag_is_directory_def bare_dir(2))
  show ?thesis using m(1) d1 e(1) ch im st by (simp add: stabilize_node_def tbind_def tlift_def tret_def db_peek_def)
qed

text \<open>A checksum that does not depend on the data.\<close>

definition ex_md5 :: "unit md5_routines" where
  "ex_md5 = \<lparr>md5_init = (), md5_update = (\<lambda>_ _. ()), md5_final = (\<lambda>_. Some (replicate 16 NUL)), md5_unset = replicate 16 NUL\<rparr>"

text \<open>A filesystem with one revision and a transaction whose root has been cloned.\<close>

definition start_fs :: fs_tables where
  "start_fs =
     put_rev_rec 1 (skel_text (rev_skel [0, 0] (skel_list [] [])))
       (put_tab Transactions ''0'' (skel_text (txn_skel [0, 1] [0, 0] (skel_list [] [])))
         (nr_put [0, 1] (bare_dir []) (nr_put [0, 0] (bare_dir ''0'') one_text)))"

abbreviation start_txn :: svn_fs_txn_t where
  "start_txn \<equiv> \<lparr>txn_base_rev = 0, txn_id = ''0''\<rparr>"

lemma small_keys: "key_ok [0, 0]" "key_ok [0, 1]"
  by (simp_all add: key_ok_def)

lemma start_fs_nodes: "node_of start_fs [0, 0] = Some (bare_dir ''0'')" "node_of start_fs [0, 1] = Some (bare_dir [])"
  using node_of_put [OF small_keys(2) _ bare_dir(1) bare_dir(5), of _ "[]"] node_of_put [OF small_keys(1) _ bare_dir(1) bare_dir(5), of _ "''0''"]
    small_keys by (simp_all add: start_fs_def)

lemma start_fs_keys: "keys_inv start_fs"
  using one_text by (simp add: start_fs_def nr_put_def keys_inv_def reps_inv_def next_rep_def rep_keys_def strings_inv_def next_str_def str_keys_def short_recs_def)

lemma start_fs_revs: "last_rev start_fs = 1" "revs_inv start_fs"
    "svn_fs__rev_get_root ref_db 0 start_fs = Ok ([0, 0], start_fs)"
proof -
  let ?w = "put_tab Transactions ''0'' (skel_text (txn_skel [0, 1] [0, 0] (skel_list [] [])))
         (nr_put [0, 1] (bare_dir []) (nr_put [0, 0] (bare_dir ''0'') one_text))"
  have f: "ft_revs ?w = fmempty" by (simp add: nr_put_def put_tab_def set_str_def one_text_def new_tables_revs)
  have w: "last_rev ?w = 0" "revs_inv ?w" using f new_tables_revs by (simp_all add: last_rev_def revs_inv_def)
  show l: "last_rev start_fs = 1" using w(1) by (simp add: start_fs_def last_rev_put del: skel_text.simps)
  show inv: "revs_inv start_fs" unfolding start_fs_def using w by (intro revs_inv_put) simp_all
  have len: "length (skel_text (rev_skel [0, 0] (skel_list [] []))) < 2 ^ 32" by (rule rev_skel_text [OF small_keys(1)]) simp
  have valid: "is_valid_filesystem_revision (rev_skel [0, 0] (skel_list [] []))" by code_simp
  have "rev_rec start_fs 0 = Ok (skel_norm (rev_skel [0, 0] (skel_list [] [])))"
    unfolding start_fs_def using rev_rec_put [OF len _ _ valid, of 0 0 ?w] by simp
  from rev_get_root_ref [OF inv _ _ this _ _ small_keys(1)] show "svn_fs__rev_get_root ref_db 0 start_fs = Ok ([0, 0], start_fs)"
    by (simp add: rev_skel_def)
qed

lemma start_fs_txn: "txn_is start_fs ''0'' [0, 1] [0, 0] (skel_list ''()'' [])"
proof -
  let ?p = "skel_list [] []"
  have vp: "svn_fs__is_valid_proplist (Some ?p)" by code_simp
  have l: "length (skel_text (txn_skel [0, 1] [0, 0] ?p)) < 2 ^ 32" using txn_skel_length [OF small_keys(2,1), of ?p] by simp
  have "txn_entry start_fs ''0'' = Ok (skel_norm (txn_skel [0, 1] [0, 0] ?p))"
    using txn_entry_put [OF vp l, of "''0''" _ "''0''"] by (simp add: start_fs_def txn_entry_def del: skel_text.simps skel_norm.simps)
  moreover have "skel_children (skel_norm (txn_skel [0, 1] [0, 0] ?p)) ! 3 = skel_list ''()'' []" by (simp add: txn_skel_def)
  ultimately show ?thesis using small_keys get_ids_txn_skel [OF small_keys(2,1), of ?p]
    by (auto simp: txn_is_def proplist_ok_def valid_proplist_pairs)
qed

lemma start_commit: "\<exists>v'. txn_body_commit md5 ref_db ''d'' start_txn start_fs = Ok (1, v')"
proof -
  let ?v = start_fs and ?p = "skel_list ''()'' []"
  have tx: "skel_text ?p = ''()''" by code_simp
  obtain tr where tr: "svn_fs__get_txn ref_db ''0'' ?v = Ok (tr, ?v)" "svn_fs__get_txn_ids ref_db ''0'' ?v = Ok (([0, 1], [0, 0]), ?v)"
      "3 < length (skel_children tr)" "skel_children tr ! 3 = ?p"
    using txn_isD [OF start_fs_txn] .
  obtain base where b: "svn_fs__dag_get_node ref_db [0, 0] ?v = Ok (base, ?v)" "dn_id base = [0, 0]"
    using dag_get_node_for [OF small_keys(1) start_fs_nodes(1)] by metis
  obtain node where n: "svn_fs__dag_get_node ref_db [0, 1] ?v = Ok (node, ?v)" "node_for ?v node (bare_dir [])" "dn_id node = [0, 1]"
    using dag_get_node_for [OF small_keys(2) start_fs_nodes(2)] .
  have p: "proplist_ok ?p" by (simp add: proplist_ok_def valid_proplist_pairs)
  have l: "last_rev ?v < 2 ^ 32 - 1" "length (skel_text ?p) + length ''d'' < 2 ^ 31" using start_fs_revs(1) tx by simp_all
  obtain x where
      "tbind (svn_fs__put_rev ref_db (rev_skel [0, 1] ?p)) (\<lambda>r. tbind (svn_fs__set_rev_prop ref_db r ''svn:date'' (Some ''d'')) (\<lambda>_. tret r)) ?v =
        Ok (int (last_rev ?v), put_rev_rec (last_rev ?v + 1) x ?v)"
    by (rule new_revision_ref [OF start_fs_revs(2) l(1) small_keys(2) p l(2)]) (rule that)
  then have x: "tbind (svn_fs__put_rev ref_db (rev_skel [0, 1] ?p))
        (\<lambda>r. tbind (svn_fs__set_rev_prop ref_db r ''svn:date'' (Some ''d'')) (\<lambda>_. tret r)) ?v = Ok (1, put_rev_rec 2 x ?v)"
    unfolding start_fs_revs(1) by (simp add: numeral_2_eq_2)
  let ?v2 = "put_rev_rec 2 x ?v"
  have v2: "keys_inv ?v2" "node_for ?v2 node (bare_dir [])"
    using start_fs_keys n(2)
    by (simp_all add: node_for_def keys_inv_def reps_inv_def next_rep_def rep_keys_def strings_inv_def next_str_def str_keys_def short_recs_def)
  have d: "dec_digits (nat (1 mod 2 ^ 64)) = ''1''" by code_simp
  have pre: "svn_fs__id_predecessor [0, 1] = Ok None" by code_simp
  have st: "stabilize_node md5 ref_db node 1 ?v2 = Ok ((), nr_put [0, 1] (bare_dir ''1'') ?v2)"
    using stabilize_bare [OF v2, of 1] d pre n(3) by simp
  have "txn_rec ''0'' (nr_put [0, 1] (bare_dir ''1'') ?v2) \<noteq> None" by (simp add: nr_put_def start_fs_def)
  then have del: "\<exists>v'. svn_fs__delete_txn ref_db ''0'' (nr_put [0, 1] (bare_dir ''1'') ?v2) = Ok ((), v')"
    by (auto simp: svn_fs__delete_txn_def db_write_def svn_fs__str_to_dbt_def svn_fs__set_dbt_def txn_rec_def)
  have "\<exists>v'. svn_fs__dag_commit_txn md5 ref_db ''d'' ''0'' ?v = Ok (1, v')"
    using tr(1,2) n(1,3) revision_skel_of [OF small_keys(2) tr(3)] tr(4) x st del
    by (auto simp: svn_fs__dag_commit_txn_def svn_fs__dag_txn_root_def tbind_Ok tlift_Ok tret_def)
  then show ?thesis
    using youngest_ref [of ?v] start_fs_revs(1,3) tr(2) b id_eq_key_ok [OF small_keys(1,1)]
    by (simp add: txn_body_commit_def Let_def tbind_def svn_fs__dag_txn_base_root_def svn_fs__dag_get_id_def svn_fs_txn_name_def)
qed

theorem commit_adds_revision_witness:
  "\<exists>s'. txn_body_commit ex_md5 ref_db ''d'' start_txn start_fs = Ok (1, s') \<and> trail_result (svn_fs__youngest_rev ref_db) s' = Ok 1 \<and>
     trail_result (svn_fs__rev_get_root ref_db 1) s' = Ok [0, 1] \<and>
     trail_result (svn_fs__get_txn ref_db ''0'') s' = Err SVN_ERR_FS_NO_SUCH_TRANSACTION"
proof -
  obtain v' where c: "txn_body_commit ex_md5 ref_db ''d'' start_txn start_fs = Ok (1, v')" using start_commit by blast
  have h: "revs_inv (id start_fs)" "last_rev (id start_fs) < 2 ^ 32 - 1" "0 < last_rev (id start_fs)"
      "svn_fs__rev_get_root ref_db (int (last_rev (id start_fs)) - 1) (id start_fs) = Ok ([0, 0], id start_fs)"
      "txn_is (id start_fs) (svn_fs_txn_name start_txn) [0, 1] [0, 0] (skel_list ''()'' [])" "node_of (id start_fs) [0, 0] \<noteq> None"
    using start_fs_revs start_fs_txn start_fs_nodes by (simp_all add: svn_fs_txn_name_def)
  have "skel_text (skel_list ''()'' []) = ''()''" by code_simp
  then have "length (skel_text (skel_list ''()'' [])) + length ''d'' < 2 ^ 31" by simp
  from commit_adds_revision [OF bdb_laws_ref h(1-4) small_keys(1) h(5,6) this, of ex_md5] c show ?thesis
    by (auto simp: svn_fs_txn_name_def)
qed

lemma start_turn:
  "\<exists>v'. commit_turn (\<lambda>k v. v) order md5 ref_db (\<lambda>k. ''d'') start_txn 0 start_fs = Some (Ok (Some 1), v')"
proof -
  let ?v = start_fs
  note laws = bdb_laws_ref txn_laws_ref
  obtain node where n: "svn_fs__dag_get_node ref_db [0, 0] ?v = Ok (node, ?v)" "node_for ?v node (bare_dir ''0'')" "dn_id node = [0, 0]"
    using dag_get_node_for [OF small_keys(1) start_fs_nodes(1)] .
  obtain root where r: "svn_fs__dag_get_node ref_db [0, 1] ?v = Ok (root, ?v)" "dn_id root = [0, 1]"
    using dag_get_node_for [OF small_keys(2) start_fs_nodes(2)] by metis
  have ids: "svn_fs__get_txn_ids ref_db ''0'' ?v = Ok (([0, 1], [0, 0]), ?v)" "\<exists>tr. svn_fs__get_txn ref_db ''0'' ?v = Ok (tr, ?v) \<and> get_ids_from_txn_skel tr = Ok ([0, 1], [0, 0])"
    using txn_isD [OF start_fs_txn] by (metis, auto simp: svn_fs__get_txn_ids_def tbind_Ok tlift_Ok elim!: txn_isD [OF start_fs_txn])
  have young: "svn_fs_youngest_rev ref_db ?v = Some (Ok 0, ?v)"
    using retry_ref(1) [OF laws, of "txn_body_youngest_rev ref_db" "txn_body_youngest_rev ref_db" ?v 0 ?v] youngest_ref [of ?v] start_fs_revs(1)
      refines_youngest_rev [OF bdb_laws_ref]
    by (simp add: svn_fs_youngest_rev_def fs_call_laws [OF bdb_laws_ref] txn_body_youngest_rev_def)
  let ?root = "make_revision_root 0 (trail_ended node)"
  have rr: "svn_fs_revision_root ref_db 0 ?v = Some (Ok ?root, ?v)"
    using retry_ref(1) [OF laws refines_change_bodies(4) [OF bdb_laws_ref], of 0 ?v ?root ?v] start_fs_revs(3) n(1)
    by (simp add: svn_fs_revision_root_def fs_call_laws [OF bdb_laws_ref] txn_body_revision_root_def svn_fs__dag_revision_root_def tbind_def tret_def)
  have ended: "dn_id (trail_ended node) = [0, 0]" "dn_kind (trail_ended node) = svn_node_dir"
    using n(2,3) by (simp_all add: trail_ended_def uncache_node_revision_def node_for_def bare_dir(2))
  let ?node = "trail_ended (new_dag_node [0, 0] svn_node_dir)"
  have "svn_fs__dag_dup (trail_ended node) = new_dag_node [0, 0] svn_node_dir"
    using ended id_copy_key_ok [OF small_keys(1)] by (simp add: svn_fs__dag_dup_def)
  then have "txn_body_get_root ref_db ?root ?v = Ok (?node, ?v)"
    by (simp add: txn_body_get_root_def get_dag_def open_path_def svn_fs_is_id_root_def make_revision_root_def make_root_def root_node_def
        tbind_def tret_def tlift_def open_path_loop.simps next_entry_name_def open_path_step_def make_parent_path_def bottom_node_def)
  then have gr: "svn_fs__retry_txn ref_db (txn_body_get_root ref_db ?root) ?v = Some (Ok ?node, ?v)"
    using retry_ref(1) [OF laws refines_get_root [OF bdb_laws_ref], of ?root ?v ?node ?v] by simp
  have nid: "dn_id ?node = [0, 0]" by (simp add: trail_ended_def uncache_node_revision_def new_dag_node_def)
  have dist: "svn_fs_id_distance [0, 0] [0, 1] = Ok 1" "svn_fs_id_distance [0, 0] [0, 0] = Ok 0" by code_simp+
  obtain base where b: "svn_fs__dag_txn_base_root ref_db ''0'' ?v = Ok (base, ?v)" "dn_id base = [0, 0]"
    using ids(1) n(1,3) by (auto simp: svn_fs__dag_txn_base_root_def tbind_def)
  have "txn_body_merge order ref_db None ?node start_txn ?v = Ok ((), ?v)"
    using ids r b nid dist
    by (auto simp: txn_body_merge_def Let_def svn_fs_txn_name_def svn_fs__dag_txn_root_def svn_fs__dag_get_id_def merge_def tbind_def tlift_def
        tret_def db_peek_def svn_fs__check_fs_def reidentify_def svn_fs__set_txn_base_def)
  then have mg: "svn_fs__retry_txn ref_db (txn_body_merge order ref_db None ?node start_txn) ?v = Some (Ok (), ?v)"
    using retry_ref(1) [OF laws refines_txn_body_merge [OF bdb_laws_ref], of order None ?node start_txn ?v "()" ?v] by simp
  obtain v' where "svn_fs__retry_txn ref_db (txn_body_commit md5 ref_db ''d'' start_txn) ?v = Some (Ok 1, v')"
    using start_commit [of md5] retry_ref(1) [OF laws refines_txn_body_commit [OF bdb_laws_ref], of md5 "''d''" start_txn ?v 1] by fastforce
  then show ?thesis using young rr gr mg by (simp add: commit_turn_def fs_then_def)
qed

theorem commit_txn_returns_witness:
  "\<exists>s'. svn_fs_commit_txn (\<lambda>k v. v) (\<lambda>t. []) ex_md5 ref_db (\<lambda>k. ''d'') start_txn start_fs = Some (Ok 1, s')"
proof -
  have start: "k = 0 \<and> s1 = start_fs" if "later_turn (\<lambda>k v. v) (\<lambda>t. []) ex_md5 ref_db (\<lambda>k. ''d'') start_txn start_fs k s1" for k s1
    using that start_turn [of "\<lambda>t. []" ex_md5] by induction auto
  then have "\<forall>k s1. k \<le> 6 * 0 \<and> later_turn (\<lambda>k v. v) (\<lambda>t. []) ex_md5 ref_db (\<lambda>k. ''d'') start_txn start_fs k s1 \<longrightarrow>
      commit_turn (\<lambda>k v. v) (\<lambda>t. []) ex_md5 ref_db (\<lambda>k. ''d'') start_txn k s1 \<noteq> None"
    using start_turn [of "\<lambda>t. []" ex_md5] by fastforce
  from commit_txn_returns [OF bdb_laws_ref txn_laws_ref _ this] start start_turn [of "\<lambda>t. []" ex_md5] show ?thesis
    by (fastforce simp: turn_result_def)
qed

lemma start_abort: "\<exists>s'. svn_fs_abort_txn ref_db start_txn start_fs = Some (Ok (), s')"
proof -
  let ?v = start_fs
  obtain node where n: "svn_fs__dag_get_node ref_db [0, 1] ?v = Ok (node, ?v)" "node_for ?v node (bare_dir [])"
    using dag_get_node_for [OF small_keys(2) start_fs_nodes(2)] by metis
  obtain n1 where m: "svn_fs__dag_check_mutable ref_db node ?v = Ok ((True, n1), ?v)" "node_for ?v n1 (bare_dir [])"
    using check_mutable_for [OF n(2)] by (auto simp: bare_dir_def)
  obtain es n2 where e: "svn_fs__dag_dir_entries_skel ref_db n1 ?v = Ok ((es, n2), ?v)" "lists es []"
    using dir_entries_for [OF start_fs_keys m(2) bare_dir(4)] by metis
  have ch: "skel_children es = []" using listsE [OF e(2)] by fastforce
  have d: "svn_fs__dag_is_directory n1" using m(2) by (simp add: node_for_def svn_fs__dag_is_directory_def bare_dir(2))
  obtain sk where sk: "node_rec ?v [0, 1] = Ok sk" "says sk (bare_dir [])" using node_of_Some [OF start_fs_nodes(2)] by metis
  have k: "svn_fs__id_to_dbt [0, 1] = Ok (id_text [0, 1])" by (rule key_ok_text(1) [OF small_keys(2)])
  have in_tab: "fmlookup (ft_tab ?v Nodes) (id_text [0, 1]) \<noteq> None" by (simp add: start_fs_def nr_put_def put_tab_def put_rev_rec_def del: id_text.simps)
  have del: "svn_fs__dag_delete_if_mutable ref_db [0, 1] ?v = Ok ((), del_tab Nodes (id_text [0, 1]) ?v)"
    using n(1) m(1) d e(1) ch get_node_revision_ref [OF small_keys(2), of ?v] sk(1) says_parts(3-5) [OF sk(2)] k in_tab
    by (simp add: svn_fs__dag_delete_if_mutable_def tbind_def tlift_def tret_def db_peek_def db_write_def delete_key_rep_def key_string_def
        apr_pstrndup_def svn_fs__delete_node_revision_def svn_fs__delete_nodes_entry_def bare_dir_def del: id_text.simps)
  obtain tr where ids: "svn_fs__get_txn_ids ref_db ''0'' ?v = Ok (([0, 1], [0, 0]), ?v)" using txn_isD [OF start_fs_txn] by metis
  have "txn_rec ''0'' (del_tab Nodes (id_text [0, 1]) ?v) \<noteq> None" by (simp add: start_fs_def)
  then have "\<exists>v'. svn_fs__delete_txn ref_db ''0'' (del_tab Nodes (id_text [0, 1]) ?v) = Ok ((), v')"
    by (auto simp: svn_fs__delete_txn_def db_write_def svn_fs__str_to_dbt_def svn_fs__set_dbt_def txn_rec_def)
  then have "\<exists>v'. txn_body_abort_txn ref_db start_txn ?v = Ok ((), v')"
    using ids del by (auto simp: txn_body_abort_txn_def svn_fs_txn_name_def tbind_def)
  then show ?thesis using retry_ref(1) [OF bdb_laws_ref txn_laws_ref refines_change_bodies(6) [OF bdb_laws_ref], of start_txn ?v]
    by (fastforce simp: svn_fs_abort_txn_def)
qed

theorem reads_change_nothing_witness:
  "\<exists>s'. svn_fs_node_id ref_db (make_revision_root 1 (new_dag_node [0, 1] svn_node_dir)) ''f'' small_tree = Some (Ok [1, 1], s') \<and> s' = small_tree"
proof -
  let ?root = "make_revision_root 1 (new_dag_node [0, 1] svn_node_dir)"
  have n: "node_of small_tree [0, 1] = Some tree_dir" "nr_kind tree_dir = ''dir''"
    using small_tree_nodes small_nodes by (simp_all add: tree_dir_def)
  have r: "root_is small_tree ?root [0, 1]"
    using n small_nodes(5) by (simp add: root_is_def make_revision_root_def make_root_def new_dag_node_def kind_of_def)
  have "resolve small_tree [0, 1] ''f'' = Ok [1, 1]" using n small_tree(2) by (simp add: resolve_def path_names_def ends_in_slash_def)
  with get_dag_for [OF small_tree(1) r, of "''f''"] id_copy_key_ok [OF small_nodes(6)]
  have "txn_body_node_id ref_db ?root ''f'' small_tree = Ok ([1, 1], small_tree)"
    by (auto simp: txn_body_node_id_def tbind_def tret_def svn_fs__dag_get_id_def)
  with retry_ref(1) [OF bdb_laws_ref txn_laws_ref refines_node_bodies(1) [OF bdb_laws_ref], of ?root "''f''" small_tree]
  obtain s' where s': "svn_fs_node_id ref_db ?root ''f'' small_tree = Some (Ok [1, 1], s')" by (fastforce simp: svn_fs_node_id_def)
  from reads_change_nothing [OF bdb_laws_ref txn_laws_ref, of ?root "''f''" small_tree s'] s' show ?thesis by auto
qed

end
