(* ===== verification/Fs_Copies.thy ===== *)
theory Fs_Copies
  imports Fs_History
begin

text \<open>
  The kinds of paths and the listings of directories that \<open>tree.c\<close> gives, and the copy on write of
  \<open>dag.c\<close>: \<open>svn_fs__dag_clone_child\<close> replaces an immutable child of a mutable directory by a mutable
  successor, and leaves the child itself as it was.
\<close>

section \<open>Kinds and listings\<close>

definition path_kind :: "fs_tables \<Rightarrow> svn_fs_id_t \<Rightarrow> bytes \<Rightarrow> svn_node_kind_t" where
  "path_kind v i path =
     (case resolve v i path of Ok j \<Rightarrow> (if is_dir_id v j then svn_node_dir else svn_node_file) | _ \<Rightarrow> svn_node_none)"

lemma node_kind_for:
  assumes "tree_inv v" and "root_is v root i"
  shows "txn_body_node_kind ref_db root path v =
    svn_bind (resolve v i path) (\<lambda>j. Ok (if is_dir_id v j then svn_node_dir else svn_node_file, v))"
proof (cases "resolve v i path")
  case (Ok j)
  then obtain n nr where n: "get_dag ref_db root path v = Ok (n, v)" "node_for v n nr" "dn_id n = j"
    using get_dag_for [OF assms, of path] by auto
  have "nr_kind nr = ''dir'' \<or> nr_kind nr = ''file''" using node_for_valid [OF n(2)] by (auto simp: nr_valid_def)
  then have "dn_kind n = (if is_dir_id v j then svn_node_dir else svn_node_file)"
    using n(2) node_for_kind(2) [OF n(2)] n(3) by (auto simp: node_for_def kind_of_def)
  then show ?thesis using Ok n(1) by (simp add: txn_body_node_kind_def tbind_def tret_def svn_fs__dag_node_kind_def)
qed (use get_dag_for [OF assms, of path] in \<open>simp_all add: txn_body_node_kind_def tbind_def\<close>)

text \<open>
  C10. On every database that works as documented and whose directories can be read: the kind of a path
  is a directory or a file, as the node has it that the path names, and none where the path names no
  node; the tests for directories and files agree with it, and report the error where there is no node.
\<close>

theorem check_path_kind:
  assumes "bdb_laws db view" and "txn_laws db view" and "tree_inv (view s)" and "root_is (view s) root i"
  shows "\<exists>s1 s2 s3. svn_fs_check_path db root path s = Some (Ok (path_kind (view s) i path), s1) \<and>
    svn_fs_is_dir db root path s = Some (svn_bind (resolve (view s) i path) (\<lambda>j. Ok (path_kind (view s) i path = svn_node_dir)), s2) \<and>
    svn_fs_is_file db root path s = Some (svn_bind (resolve (view s) i path) (\<lambda>j. Ok (path_kind (view s) i path = svn_node_file)), s3) \<and>
    view s1 = view s \<and> view s2 = view s \<and> view s3 = view s"
proof -
  note ref = retry_ref [OF assms(1,2) refines_node_bodies(3) [OF assms(1)], of root path s]
  note k = node_kind_for [OF assms(3,4), of path]
  show ?thesis
  proof (cases "resolve (view s) i path")
    case (Ok j)
    then obtain s' where "svn_fs__retry_txn db (txn_body_node_kind db root path) s = Some (Ok (path_kind (view s) i path), s')" "view s' = view s"
      using ref(1) k by (auto simp: path_kind_def)
    then show ?thesis using Ok by (simp add: svn_fs_check_path_def svn_fs_is_dir_def svn_fs_is_file_def fs_then_def)
  next
    case (Err e)
    then obtain s' where "svn_fs__retry_txn db (txn_body_node_kind db root path) s = Some (Err e, s')" "view s' = view s"
      using ref(2) k resolve_errors(2) [OF Err] by auto
    then show ?thesis using Err by (simp add: svn_fs_check_path_def svn_fs_is_dir_def svn_fs_is_file_def fs_then_def path_kind_def)
  qed (use resolve_errors(1) in blast)
qed

lemma small_root: "root_is (id small_tree) (make_revision_root 1 (new_dag_node [0, 1] svn_node_dir)) [0, 1]"
  using small_tree_nodes small_nodes
  by (simp add: root_is_def make_revision_root_def make_root_def new_dag_node_def kind_of_def tree_dir_def)

theorem check_path_kind_witness:
  "\<exists>s'. svn_fs_check_path ref_db (make_revision_root 1 (new_dag_node [0, 1] svn_node_dir)) ''f'' small_tree = Some (Ok svn_node_file, s')"
proof -
  have "nr_kind tree_dir = ''dir''" "nr_kind tree_file = ''file''" by (simp_all add: tree_dir_def tree_file_def)
  then have "path_kind small_tree [0, 1] ''f'' = svn_node_file"
    using small_tree_nodes small_nodes small_tree(2) by (simp add: path_kind_def resolve_def path_names_def ends_in_slash_def is_dir_id_def)
  moreover have "tree_inv (id small_tree)" using small_tree(1) by simp
  ultimately show ?thesis using check_path_kind [OF bdb_laws_ref txn_laws_ref _ small_root, of "''f''"] by auto
qed

text \<open>
  C11. On every database that works as documented and whose directories can be read: listing a path gives
  the map of the directory that the path names, and an error when it names no directory.
\<close>

theorem dir_entries_list:
  assumes "bdb_laws db view" and "txn_laws db view" and "tree_inv (view s)" and "root_is (view s) root i"
  shows "case resolve (view s) i path of
      Ok j \<Rightarrow>
        if is_dir_id (view s) j
        then \<exists>t s' nr. svn_fs_dir_entries db root path s = Some (Ok t, s') \<and> view s' = view s \<and>
               node_of (view s) j = Some nr \<and> dirent_map t = map_of (dirents (view s) nr)
        else \<exists>s'. svn_fs_dir_entries db root path s = Some (Err SVN_ERR_FS_NOT_DIRECTORY, s') \<and> view s' = view s
    | Err e \<Rightarrow> \<exists>s'. svn_fs_dir_entries db root path s = Some (Err e, s') \<and> view s' = view s
    | Abort \<Rightarrow> False"
proof -
  let ?v = "view s"
  note ref = retry_ref [OF assms(1,2) refines_node_bodies(7) [OF assms(1)], of root path s]
  note o = open_path_for [OF assms(3,4), of path]
  show ?thesis
  proof (cases "resolve ?v i path")
    case (Ok j)
    then obtain n e up nr where n: "open_path ref_db root path False ?v = Ok (\<lparr>pp_node = Some n, pp_entry = e\<rparr> # up, ?v)"
        "node_for ?v n nr" "dn_id n = j"
      using o by (auto simp: opened_def)
    have j: "key_ok j" "node_of ?v j = Some nr" using n(2,3) by (auto simp: node_for_def)
    show ?thesis
    proof (cases "is_dir_id ?v j")
      case True
      then have d: "nr_kind nr = ''dir''" using node_for_kind(2) [OF n(2)] n(3) by simp
      note t = tree_invD [OF assms(3) j d]
      obtain tbl n' where tbl: "svn_fs__dag_dir_entries_hash ref_db n ?v = Ok ((tbl, n'), ?v)" "dirent_map tbl = map_of (dirents ?v nr)"
        using dir_hash_for [OF t(1) n(2) t(2)] by blast
      have "txn_body_dir_entries ref_db root path ?v = Ok (tbl, ?v)"
        using n(1) tbl(1) by (simp add: txn_body_dir_entries_def tbind_def tlift_def tret_def bottom_node_def)
      then show ?thesis using Ok True ref(1) tbl(2) j(2) by (auto simp: svn_fs_dir_entries_def)
    next
      case False
      then have "txn_body_dir_entries ref_db root path ?v = Err SVN_ERR_FS_NOT_DIRECTORY"
        using n node_for_kind [OF n(2)]
        by (simp add: txn_body_dir_entries_def tbind_def tlift_def bottom_node_def svn_fs__dag_dir_entries_hash_def svn_fs__dag_dir_entries_skel_def tfail_def)
      then show ?thesis using Ok False ref(2) by (auto simp: svn_fs_dir_entries_def)
    qed
  next
    case (Err e)
    then have "txn_body_dir_entries ref_db root path ?v = Err e" using o by (simp add: txn_body_dir_entries_def tbind_def opened_def)
    then show ?thesis using ref(2) Err resolve_errors(2) [OF Err] by (auto simp: svn_fs_dir_entries_def)
  qed (use resolve_errors(1) in blast)
qed

theorem dir_entries_list_witness:
  "\<exists>t s'. svn_fs_dir_entries ref_db (make_revision_root 1 (new_dag_node [0, 1] svn_node_dir)) ''/'' small_tree = Some (Ok t, s') \<and>
     dirent_map t = [''f'' \<mapsto> [1, 1]]"
proof -
  have "nr_kind tree_dir = ''dir''" "node_of small_tree [0, 1] = Some tree_dir"
    using small_tree_nodes small_nodes by (simp_all add: tree_dir_def)
  then have r: "resolve (id small_tree) [0, 1] ''/'' = Ok [0, 1]" "is_dir_id (id small_tree) [0, 1]" "node_of (id small_tree) [0, 1] = Some tree_dir"
    by (simp_all add: resolve_def path_names_def ends_in_slash_def is_dir_id_def)
  moreover have "tree_inv (id small_tree)" using small_tree(1) by simp
  ultimately show ?thesis using dir_entries_list [OF bdb_laws_ref txn_laws_ref _ small_root, of "''/''"] small_tree(2) by auto
qed

section \<open>Copy on write\<close>

abbreviation thawed :: "node_rev_t \<Rightarrow> node_rev_t" where
  "thawed nr \<equiv> nr\<lparr>nr_rev := [], nr_opts := []\<rparr>"

lemma thawed_valid: "nr_valid nr \<Longrightarrow> nr_valid (thawed nr)"
  by (auto simp: nr_valid_def)

lemma create_successor_for:
  assumes "nodes_inv v" and "node_id i" and "nr_valid nr" and "nr_small nr" and "says s nr"
  defines "j \<equiv> successor_of (node_ids v) i"
  assumes "node_id j"
  shows "svn_fs__create_successor ref_db i s v = Ok (j, nr_put j nr v)" and "node_of v j = None"
proof -
  note ids = new_successor_id_ref [OF assms(1,2), folded j_def] and k = node_id_key_ok [OF assms(7)]
  show "node_of v j = None" using node_of_in_ids [OF assms(1) k] ids by blast
  show "svn_fs__create_successor ref_db i s v = Ok (j, nr_put j nr v)"
    using ids put_node_revision_nr [OF k assms(5,3,4), of v] by (simp add: svn_fs__create_successor_def tbind_def tret_def)
qed

text \<open>The part of \<open>svn_fs__dag_clone_child\<close> that copies an immutable child.\<close>

definition clone_new :: "'d bdb \<Rightarrow> dag_node_t \<Rightarrow> dag_node_t \<Rightarrow> bytes \<Rightarrow> ('d, svn_fs_id_t \<times> dag_node_t) trail" where
  "clone_new db parent cur_entry name =
     tbind (get_node_revision db cur_entry) (\<lambda>(node_rev, cur_entry).
     tbind (tlift (node_rev_make_mutable node_rev)) (\<lambda>node_rev.
     tbind (svn_fs__create_successor db (dn_id cur_entry) node_rev) (\<lambda>new_node_id.
     tbind (set_entry db parent name new_node_id) (\<lambda>parent. tret (new_node_id, parent)))))"

lemma clone_new_for:
  assumes "keys_inv v" and "keys_room v" and "nodes_inv v" and "node_for v node nr" and "nr_fits nr" and "dir_is v nr es"
    and "NUL \<notin> set name" and "node_for v cur cnr" and "node_id (dn_id cur)" and "nr_small (thawed cnr)"
  defines "j \<equiv> successor_of (node_ids v) (dn_id cur)"
  assumes "node_id j" and "length (skel_text (dir_skel (set_dirent name j es))) < 2 ^ 32"
  shows "\<exists>node' v'. clone_new ref_db node cur name v = Ok ((j, node'), v') \<and> node_of v j = None \<and>
    dir_changed (nr_put j (thawed cnr) v) node nr (set_dirent name j es) node' v'"
proof -
  obtain c cur' where c: "get_node_revision ref_db cur v = Ok ((c, cur'), v)" "says c cnr" "dn_id cur' = dn_id cur"
    using get_node_revision_for [OF assms(8)] by metis
  obtain m where m: "node_rev_make_mutable c = Ok m" "says m (thawed cnr)" using says_make_mutable [OF c(2)] by blast
  have ok: "nr_valid (thawed cnr)" using node_for_valid [OF assms(8)] by (rule thawed_valid)
  note s = create_successor_for [OF assms(3,9) ok assms(10) m(2), folded j_def, OF assms(12)]
  let ?v = "nr_put j (thawed cnr) v"
  note k = node_id_key_ok [OF assms(12)]
  have ne: "j \<noteq> dn_id node" using s(2) assms(4) by (auto simp: node_for_def)
  have v: "keys_inv ?v" "keys_room ?v" "dir_is ?v nr es" using assms(1,2,6) by (simp_all add: keys_inv_def keys_room_def)
  obtain node' v' where e: "set_entry ref_db node name j ?v = Ok (node', v')" "dir_changed ?v node nr (set_dirent name j es) node' v'"
    using set_entry_for [OF v(1,2) nr_put_dir [OF k ok assms(10) ne assms(4)] assms(5) v(3) k assms(7,13)] .
  show ?thesis using c(1,3) m(1) s e by (simp add: clone_new_def tbind_def tlift_def tret_def)
qed

lemma clone_child_for:
  assumes "keys_inv v" and "node_for v node nr" and "dir_is v nr es" and "map_of es name = Some i" and "key_ok i" and "node_of v i = Some cnr"
  obtains node' cur where "node_for v node' nr" and "dn_id node' = dn_id node" and "node_for v cur cnr" and "dn_id cur = i"
    and "svn_fs__dag_clone_child ref_db node name v =
      (if nr_rev nr \<noteq> [] then Err SVN_ERR_FS_NOT_MUTABLE
       else if \<not> svn_fs__is_single_path_component name then Err SVN_ERR_FS_NOT_SINGLE_PATH_COMPONENT
       else tbind (if nr_rev cnr = [] then tret (i, node') else clone_new ref_db node' cur name)
              (\<lambda>(j, parent). tbind (svn_fs__dag_get_node ref_db j) (\<lambda>child. tret (child, parent))) v)"
proof -
  obtain n0 where m: "svn_fs__dag_check_mutable ref_db node v = Ok ((nr_rev nr = [], n0), v)" "node_for v n0 nr" "dn_id n0 = dn_id node"
    using check_mutable_for [OF assms(2)] .
  show thesis
  proof (cases "svn_fs__is_single_path_component name")
    case True
    obtain c0 n1 where o: "svn_fs__dag_open ref_db n0 name v = Ok ((c0, n1), v)" "node_for v c0 cnr" "dn_id c0 = i"
        "node_for v n1 nr" "dn_id n1 = dn_id n0"
      using dag_open_for [OF assms(1) m(2) assms(3-6) True] .
    obtain c1 where c1: "svn_fs__dag_check_mutable ref_db c0 v = Ok ((nr_rev cnr = [], c1), v)" "node_for v c1 cnr" "dn_id c1 = dn_id c0"
      using check_mutable_for [OF o(2)] .
    show thesis using that [of n1 c1] m o c1 True
      by (simp add: svn_fs__dag_clone_child_def clone_new_def tbind_def tfail_def tret_def)
  next
    case False
    obtain cur where "svn_fs__dag_get_node ref_db i v = Ok (cur, v)" "node_for v cur cnr" "dn_id cur = i"
      using dag_get_node_for [OF assms(5,6)] .
    then show thesis using that [of n0 cur] m False by (simp add: svn_fs__dag_clone_child_def tbind_def tfail_def)
  qed
qed

text \<open>
  C9. On every database that works as documented, cloning a child for a change: an immutable parent and
  a name that is not a single path component are errors; a child that is mutable is returned and nothing
  changes; of an immutable child a mutable copy is stored under the id of its successor, which was not in
  use, and the map of the parent names the copy instead.  The child itself and every other node revision
  are as before, and so are the full texts apart from the one the parent may write.
\<close>

theorem clone_child_copies:
  assumes "bdb_laws db view" and "keys_inv (view s)" and "keys_room (view s)" and "nodes_inv (view s)"
    and "node_for (view s) node nr" and "nr_fits nr" and "dir_is (view s) nr es" and "NUL \<notin> set name"
    and "map_of es name = Some i" and "node_id i" and "node_of (view s) i = Some cnr" and "nr_small (thawed cnr)"
  defines "j \<equiv> successor_of (node_ids (view s)) i"
  assumes "node_id j" and "length (skel_text (dir_skel (set_dirent name j es))) < 2 ^ 32"
  shows "if nr_rev nr \<noteq> [] then svn_fs__dag_clone_child db node name s = Err SVN_ERR_FS_NOT_MUTABLE
    else if \<not> svn_fs__is_single_path_component name then svn_fs__dag_clone_child db node name s = Err SVN_ERR_FS_NOT_SINGLE_PATH_COMPONENT
    else if nr_rev cnr = [] then \<exists>child node' s'. svn_fs__dag_clone_child db node name s = Ok ((child, node'), s') \<and> dn_id child = i \<and> view s' = view s
    else \<exists>child node' s' t n1. svn_fs__dag_clone_child db node name s = Ok ((child, node'), s') \<and> dn_id child = j \<and>
      node_of (view s) j = None \<and> node_of (view s') j = Some (thawed cnr) \<and> node_of (view s') i = Some cnr \<and>
      trail_result (svn_fs__dag_dir_entries_hash db node') s' = Ok (t, n1) \<and> dirent_map t = (map_of es)(name \<mapsto> j) \<and>
      (\<forall>x. key_ok x \<and> x \<noteq> dn_id node \<and> x \<noteq> j \<longrightarrow> node_of (view s') x = node_of (view s) x) \<and>
      texts_apart (view s) (nr_data nr) (view s')"
proof -
  let ?v = "view s"
  note ik = node_id_key_ok [OF assms(10)] and jk = node_id_key_ok [OF assms(14)]
  obtain node0 cur where g: "node_for ?v node0 nr" "dn_id node0 = dn_id node" "node_for ?v cur cnr" "dn_id cur = i"
    "svn_fs__dag_clone_child ref_db node name ?v =
      (if nr_rev nr \<noteq> [] then Err SVN_ERR_FS_NOT_MUTABLE
       else if \<not> svn_fs__is_single_path_component name then Err SVN_ERR_FS_NOT_SINGLE_PATH_COMPONENT
       else tbind (if nr_rev cnr = [] then tret (i, node0) else clone_new ref_db node0 cur name)
              (\<lambda>(j, parent). tbind (svn_fs__dag_get_node ref_db j) (\<lambda>child. tret (child, parent))) ?v)"
    using clone_child_for [OF assms(2,5,7,9) ik assms(11)] .
  note ok = refines_Ok [OF refines_dag_clone_child [OF assms(1)], of node name s]
    and err = refines_Err [OF refines_dag_clone_child [OF assms(1)], of node name s]
  show ?thesis
  proof (cases "nr_rev nr = [] \<and> svn_fs__is_single_path_component name")
    case live: True
    show ?thesis
    proof (cases "nr_rev cnr = []")
      case True
      obtain child where c: "svn_fs__dag_get_node ref_db i ?v = Ok (child, ?v)" "dn_id child = i" using dag_get_node_for [OF ik assms(11)] by metis
      then show ?thesis using live True g(5) ok by (auto simp: tbind_def tret_def)
    next
      case False
      obtain node' v' where n: "clone_new ref_db node0 cur name ?v = Ok ((j, node'), v')" "node_of ?v j = None"
          "dir_changed (nr_put j (thawed cnr) ?v) node0 nr (set_dirent name j es) node' v'"
        using clone_new_for [OF assms(2-4) g(1) assms(6-8) g(3)] assms(10,12-15) g(4) by auto
      have valid: "nr_valid (thawed cnr)" using thawed_valid node_for_valid [OF g(3)] .
      note put = node_of_put [OF jk _ valid assms(12)]
      have ne: "j \<noteq> dn_id node" "i \<noteq> j" "i \<noteq> dn_id node"
        using n(2) assms(5,11) live False by (auto simp: node_for_def)
      have fr: "node_of v' x = (if x = j then Some (thawed cnr) else node_of ?v x)" if "key_ok x" "x \<noteq> dn_id node" for x
        using n(3) put [OF that(1)] that g(2) by (simp add: dir_changed_def)
      obtain child where c: "svn_fs__dag_get_node ref_db j v' = Ok (child, v')" "dn_id child = j"
        using dag_get_node_for [OF jk] fr [OF jk] ne(1) by metis
      obtain s' where s': "svn_fs__dag_clone_child db node name s = Ok ((child, node'), s')" "view s' = v'"
        using ok live False g(5) n(1) c(1) by (auto simp: tbind_def tret_def)
      obtain k where k: "node_for v' node' (nr\<lparr>nr_data := k\<rparr>)" "dir_is v' (nr\<lparr>nr_data := k\<rparr>) (set_dirent name j es)" "keys_inv v'"
        using n(3) by (auto simp: dir_changed_def)
      obtain t n1 where t: "trail_result (svn_fs__dag_dir_entries_hash db node') s' = Ok (t, n1)" "dirent_map t = map_of (set_dirent name j es)"
        using dir_hash_result [OF assms(1), of s'] k unfolding s'(2) by metis
      have "texts_apart ?v (nr_data nr) v'" using n(3) by (simp add: dir_changed_def)
      moreover have "node_of v' j = Some (thawed cnr)" "node_of v' i = Some cnr" using fr [OF jk] fr [OF ik] ne assms(11) by simp_all
      moreover have "\<forall>x. key_ok x \<and> x \<noteq> dn_id node \<and> x \<noteq> j \<longrightarrow> node_of v' x = node_of ?v x" using fr by simp
      ultimately show ?thesis using live False s' c(2) n(2) t map_of_set_dirent by simp
    qed
  qed (use g(5) err in auto)
qed

text \<open>The directory of \<open>small_tree\<close>, with a mutable successor that lists the same file.\<close>

definition open_tree :: fs_tables where
  "open_tree = nr_put [0, 2] (thawed tree_dir) small_tree"

lemma thawed_small: "nr_small (thawed tree_dir)" "nr_small (thawed tree_file)" "nr_fits (thawed tree_dir)"
proof -
  have "skel_text (nr_skel (thawed tree_dir)) = ''((dir 0 ) 0  1 0)''" "skel_text (nr_skel (thawed tree_file)) = ''((file 0 ) 0  0 )''" by code_simp+
  then show "nr_small (thawed tree_dir)" "nr_small (thawed tree_file)" "nr_fits (thawed tree_dir)"
    by (simp_all add: nr_small_def nr_fits_def tree_dir_def)
qed

lemma open_tree_keys: "nodes_inv open_tree" "set (node_ids open_tree) = {[0, 2], [1, 1], [0, 1]}"
proof -
  have keys: "set (table_keys Nodes open_tree) = {id_text [0, 2], id_text [1, 1], id_text [0, 1]}"
    by (simp add: set_table_keys open_tree_def small_tree_def nr_put_def one_text_def new_tables_def del: id_text.simps)
  have ids: "node_id [0, 2]" "node_id [1, 1]" "node_id [0, 1]" by (simp_all add: node_id_def)
  then show "nodes_inv open_tree" "set (node_ids open_tree) = {[0, 2], [1, 1], [0, 1]}"
    using key_ok_text(3) [OF node_id_key_ok] by (simp_all add: nodes_inv_def node_ids_def keys del: id_text.simps)
qed

lemma open_tree:
  "keys_inv open_tree" "keys_room open_tree" "node_for open_tree (new_dag_node [0, 2] svn_node_dir) (thawed tree_dir)"
  "dir_is open_tree (thawed tree_dir) [(''f'', [1, 1])]" "node_of open_tree [1, 1] = Some tree_file"
proof -
  have k: "key_ok [0, 2]" by (simp add: key_ok_def)
  note n = node_of_put [OF k _ thawed_valid [OF small_nodes(1)] thawed_small(1), of _ small_tree]
  show "keys_inv open_tree" using small_tree_text(1) by (simp add: open_tree_def keys_inv_def)
  have ne: "''0'' \<noteq> svn_fs__next_key_key" by (simp add: svn_fs__next_key_key_def)
  then show "keys_room open_tree" using one_text by (simp add: open_tree_def small_tree_def keys_room_def next_str_def)
  show "node_of open_tree [1, 1] = Some tree_file" using n [OF small_nodes(6)] small_tree_nodes [OF small_nodes(6)] by (simp add: open_tree_def)
  show "node_for open_tree (new_dag_node [0, 2] svn_node_dir) (thawed tree_dir)"
    using n [OF k] k by (simp add: node_for_def new_dag_node_def kind_of_def open_tree_def) (simp add: tree_dir_def)
  have tx: "skel_text (dir_skel [(''f'', [1, 1])]) = ''((f 3 1.1))''" by code_simp
  then show "dir_is open_tree (thawed tree_dir) [(''f'', [1, 1])]"
    using small_tree_text small_nodes(6) by (simp add: open_tree_def dir_is_def tree_dir_def entries_ok_def rep_key_ok_def)
qed

theorem clone_child_copies_witness:
  "\<exists>child node' s'. svn_fs__dag_clone_child ref_db (new_dag_node [0, 2] svn_node_dir) ''f'' open_tree = Ok ((child, node'), s') \<and>
     dn_id child = [1, 2] \<and> node_of s' [1, 2] = Some (thawed tree_file) \<and> node_of s' [1, 1] = Some tree_file"
proof -
  have v: "keys_inv (id open_tree)" "keys_room (id open_tree)" "nodes_inv (id open_tree)" "node_of (id open_tree) [1, 1] = Some tree_file"
      "node_for (id open_tree) (new_dag_node [0, 2] svn_node_dir) (thawed tree_dir)" "dir_is (id open_tree) (thawed tree_dir) [(''f'', [1, 1])]"
    using open_tree open_tree_keys(1) by simp_all
  have j: "successor_of (node_ids (id open_tree)) [1, 1] = [1, 2]" using open_tree_keys(2) by (simp add: successor_of_def)
  have ids: "node_id [1, 1]" "node_id (successor_of (node_ids (id open_tree)) [1, 1])" by (simp_all only: j) (simp_all add: node_id_def)
  have "skel_text (dir_skel (set_dirent ''f'' [1, 2] [(''f'', [1, 1])])) = ''((f 3 1.2))''" by code_simp
  then have len: "length (skel_text (dir_skel (set_dirent ''f'' (successor_of (node_ids (id open_tree)) [1, 1]) [(''f'', [1, 1])]))) < 2 ^ 32"
    by (simp only: j) simp
  have c: "svn_fs__is_single_path_component ''f''" "nr_rev (thawed tree_dir) = []" "nr_rev tree_file \<noteq> []" "NUL \<notin> set ''f''"
      "map_of [(''f'', [1, 1::int])] ''f'' = Some [1, 1]"
    by (simp_all add: svn_fs__is_single_path_component_def tree_file_def)
  show ?thesis
    using clone_child_copies [of ref_db id open_tree, OF bdb_laws_ref v(1-3,5) thawed_small(3) v(6) c(4,5) ids(1) v(4) thawed_small(2) ids(2) len] c(1-3)
    unfolding j by auto
qed

end
