(* ===== verification/Fs_Abort.thy ===== *)
theory Fs_Abort
  imports Fs_History
begin

text \<open>
  What deleting a tree leaves alone (\<open>svn_fs__dag_delete_if_mutable\<close>, \<open>svn_fs_abort_txn\<close>): the node
  revisions and representations that have been committed are guarded by the tests of their mutability, and
  the strings of committed representations are those of no other representation.
\<close>

section \<open>What has been committed\<close>

definition frozen_node :: "bytes \<Rightarrow> bool" where
  "frozen_node x \<longleftrightarrow> (case svn_fs__parse_skel x of Some skel \<Rightarrow> node_rev_is_mutable skel = Ok False | None \<Rightarrow> False)"

definition frozen_rep :: "bytes \<Rightarrow> bool" where
  "frozen_rep x \<longleftrightarrow> rep_is_mutable (svn_fs__parse_skel x) = Ok False"

text \<open>The strings a representation is stored in, as keys of the table of strings.\<close>

definition rep_strings :: "bytes \<Rightarrow> bytes set" where
  "rep_strings x =
     svn_fs__str_to_dbt `
       ((case fulltext_string_key (svn_fs__parse_skel x) of Ok k \<Rightarrow> {k} | _ \<Rightarrow> {}) \<union>
        (case delta_string_keys (svn_fs__parse_skel x) of Ok ks \<Rightarrow> set ks | _ \<Rightarrow> {}))"

definition pick :: "('v \<Rightarrow> bool) \<Rightarrow> ('k, 'v) fmap \<Rightarrow> 'k \<Rightarrow> 'v option" where
  "pick P t k = (case fmlookup t k of Some x \<Rightarrow> if P x then Some x else None | None \<Rightarrow> None)"

lemma pick_drop: "(\<And>x. fmlookup t k = Some x \<Longrightarrow> \<not> P x) \<Longrightarrow> pick P (fmdrop k t) = pick P t"
  by (rule ext) (auto simp: pick_def split: option.split)

lemma pick_Some: "pick P t k = Some x \<longleftrightarrow> fmlookup t k = Some x \<and> P x"
  by (auto simp: pick_def split: option.split)

abbreviation frozen_nodes :: "fs_tables \<Rightarrow> bytes \<Rightarrow> bytes option" where
  "frozen_nodes v \<equiv> pick frozen_node (ft_tab v Nodes)"

abbreviation frozen_reps :: "fs_tables \<Rightarrow> bytes \<Rightarrow> bytes option" where
  "frozen_reps v \<equiv> pick frozen_rep (ft_tab v Representations)"

definition frozen_strings :: "fs_tables \<Rightarrow> bytes set" where
  "frozen_strings v = (\<Union>x \<in> ran (frozen_reps v). rep_strings x)"

text \<open>No string of a committed representation is one of a mutable representation.\<close>

definition strings_guarded :: "fs_tables \<Rightarrow> bool" where
  "strings_guarded v \<longleftrightarrow>
     (\<forall>k x. fmlookup (ft_tab v Representations) k = Some x \<and> rep_is_mutable (svn_fs__parse_skel x) = Ok True \<longrightarrow>
        rep_strings x \<inter> frozen_strings v = {})"

definition committed_kept :: "fs_tables \<Rightarrow> fs_tables \<Rightarrow> bool" where
  "committed_kept v w \<longleftrightarrow>
     frozen_nodes w = frozen_nodes v \<and> frozen_reps w = frozen_reps v \<and> ft_revs w = ft_revs v \<and>
     (strings_guarded v \<longrightarrow> strings_guarded w \<and> (\<forall>key \<in> frozen_strings v. str_recs key w = str_recs key v))"

interpretation committed: fs_frame committed_kept
  by unfold_locales (auto simp: committed_kept_def frozen_strings_def)

section \<open>Deleting representations\<close>

lemma str_recs_del [simp]: "str_recs k (del_tab T x v) = str_recs k v"
  by (simp add: del_tab_def str_recs_def)

lemma string_delete_Ok:
  assumes "svn_fs__string_delete ref_db key v = Ok ((), w)"
  shows "w = set_str (svn_fs__str_to_dbt key) [] v"
  using assms by (auto simp: svn_fs__string_delete_def db_write_or_def split: if_splits)

lemma delete_strings_Ok:
  "delete_strings ref_db ks v = Ok ((), w) \<Longrightarrow>
   ft_tab w = ft_tab v \<and> ft_revs w = ft_revs v \<and> (\<forall>key. key \<notin> svn_fs__str_to_dbt ` set ks \<longrightarrow> str_recs key w = str_recs key v)"
proof (induction ks arbitrary: v)
  case (Cons k ks)
  then obtain u where "svn_fs__string_delete ref_db k v = Ok ((), u)" "delete_strings ref_db ks u = Ok ((), w)"
    by (auto simp: tbind_def svn_bind_Ok_iff)
  then show ?case using Cons.IH [of u] string_delete_Ok [of k v u] by (auto simp: set_str_def str_recs_def)
qed (simp add: tret_def)

lemma delete_rep_kept:
  assumes "svn_fs__delete_rep_if_mutable ref_db rep v = Ok ((), w)"
  shows "committed_kept v w"
proof -
  let ?k = "svn_fs__str_to_dbt rep"
  obtain x where x: "fmlookup (ft_tab v Representations) ?k = Some x" "svn_fs__read_rep ref_db rep v = Ok (svn_fs__parse_skel x, v)"
    using assms
    by (cases "fmlookup (ft_tab v Representations) ?k")
       (auto simp: svn_fs__delete_rep_if_mutable_def svn_fs__read_rep_def tbind_def tret_def db_read_or_def)
  obtain m where m: "rep_is_mutable (svn_fs__parse_skel x) = Ok m"
    using assms x(2) by (auto simp: svn_fs__delete_rep_if_mutable_def tbind_def tlift_def svn_bind_Ok_iff)
  show ?thesis
  proof (cases m)
    case False
    then have "w = v" using assms x(2) m by (simp add: svn_fs__delete_rep_if_mutable_def tbind_def tlift_def tret_def)
    then show ?thesis by (simp add: committed.R_refl)
  next
    case True
    obtain ft u where ft: "rep_is_fulltext (svn_fs__parse_skel x) = Ok ft" and
        u: "(if ft then tbind (tlift (fulltext_string_key (svn_fs__parse_skel x))) (svn_fs__string_delete ref_db)
             else tbind (tlift (delta_string_keys (svn_fs__parse_skel x))) (delete_strings ref_db)) v = Ok ((), u)"
        and w: "svn_fs__delete_rep ref_db rep u = Ok ((), w)"
      using assms x(2) m True by (auto simp: svn_fs__delete_rep_if_mutable_def tbind_def tlift_def svn_bind_Ok_iff)
    have same: "ft_tab u = ft_tab v" "ft_revs u = ft_revs v" "\<And>key. key \<notin> rep_strings x \<Longrightarrow> str_recs key u = str_recs key v"
    proof -
      have "ft_tab u = ft_tab v \<and> ft_revs u = ft_revs v \<and> (\<forall>key. key \<notin> rep_strings x \<longrightarrow> str_recs key u = str_recs key v)"
      proof (cases ft)
        case True
        then obtain k where k: "fulltext_string_key (svn_fs__parse_skel x) = Ok k" "svn_fs__string_delete ref_db k v = Ok ((), u)"
          using u by (auto simp: tbind_def tlift_def svn_bind_Ok_iff)
        then show ?thesis using string_delete_Ok [OF k(2)] by (auto simp: rep_strings_def set_str_def str_recs_def)
      next
        case False
        then obtain ks where ks: "delta_string_keys (svn_fs__parse_skel x) = Ok ks" "delete_strings ref_db ks v = Ok ((), u)"
          using u by (auto simp: tbind_def tlift_def svn_bind_Ok_iff)
        then show ?thesis using delete_strings_Ok [OF ks(2)] by (auto simp: rep_strings_def)
      qed
      then show "ft_tab u = ft_tab v" "ft_revs u = ft_revs v" "\<And>key. key \<notin> rep_strings x \<Longrightarrow> str_recs key u = str_recs key v" by blast+
    qed
    have wv: "w = del_tab Representations ?k u"
      using w by (auto simp: svn_fs__delete_rep_def db_write_or_def split: if_splits)
    have not: "\<not> frozen_rep x" using m True by (simp add: frozen_rep_def)
    have reps: "frozen_reps w = frozen_reps v" using pick_drop [of "ft_tab v Representations" ?k frozen_rep] x(1) not same(1)
      by (simp add: wv del_tab_def)
    have strings: "frozen_strings w = frozen_strings v" by (simp add: frozen_strings_def reps)
    have "strings_guarded w" "\<forall>key \<in> frozen_strings v. str_recs key w = str_recs key v" if g: "strings_guarded v"
    proof -
      show "strings_guarded w" using g same(1) unfolding strings_guarded_def strings by (auto simp: wv del_tab_def split: if_splits)
      have "rep_is_mutable (svn_fs__parse_skel x) = Ok True" using m True by simp
      then have "rep_strings x \<inter> frozen_strings v = {}" using g x(1) unfolding strings_guarded_def by blast
      then show "\<forall>key \<in> frozen_strings v. str_recs key w = str_recs key v" using same(3) by (auto simp: wv)
    qed
    then show ?thesis using reps same(1,2) by (auto simp: committed_kept_def wv del_tab_def)
  qed
qed

section \<open>Deleting nodes\<close>

lemma unparse_id_copy: "svn_fs_unparse_id (svn_fs__id_copy nid) = svn_fs_unparse_id nid"
proof -
  have t: "svn_fs__id_copy nid = takeWhile (\<lambda>c. c \<noteq> - 1) nid" by (simp add: svn_fs__id_copy_def svn_fs__id_length_def takeWhile_eq_take [symmetric])
  have "unparse_id_loop (takeWhile (\<lambda>c. c \<noteq> - 1) nid) = unparse_id_loop nid"
  proof
    fix u show "unparse_id_loop (takeWhile (\<lambda>c. c \<noteq> - 1) nid) u = unparse_id_loop nid u"
    proof (induction nid arbitrary: u)
      case (Cons c cs)
      have "(case takeWhile (\<lambda>c. c \<noteq> - 1) cs of [] \<Rightarrow> - 1 | d # _ \<Rightarrow> d) = (case cs of [] \<Rightarrow> - 1 | d # _ \<Rightarrow> d)" by (cases cs) simp_all
      moreover have "unparse_id_loop (takeWhile (\<lambda>c. c \<noteq> - 1) cs) = unparse_id_loop cs" by (rule ext) (rule Cons.IH)
      ultimately show ?case by (simp cong: option.case_cong)
    qed simp
  qed
  then show ?thesis by (simp add: svn_fs_unparse_id_def t)
qed

lemma id_copy_dbt: "svn_fs__id_to_dbt (svn_fs__id_copy nid) = svn_fs__id_to_dbt nid"
  by (simp add: svn_fs__id_to_dbt_def unparse_id_copy)

lemma tbind_assoc: "tbind (tbind m f) g = tbind m (\<lambda>x. tbind (f x) g)"
  by (rule ext) (auto simp: tbind_def svn_bind_assoc intro: svn_bind_cong)

lemma keeps_delete_rep: "keeps committed_kept (svn_fs__delete_rep_if_mutable ref_db rep)" "keeps committed_kept (delete_key_rep ref_db k)"
  using delete_rep_kept committed.R_refl by (auto simp: keeps_def delete_key_rep_def Let_def tret_def)

text \<open>A node that passes the test is not a committed one.\<close>

lemma mutable_not_frozen:
  assumes "svn_fs__dag_get_node ref_db nid v = Ok (node, v1)" and "svn_fs__dag_check_mutable ref_db node v1 = Ok ((True, node'), v2)"
    and "svn_fs__id_to_dbt nid = Ok key"
  shows "v1 = v" and "v2 = v" and "frozen_nodes v key = None"
proof -
  let ?n = "new_dag_node (svn_fs__id_copy nid) svn_node_none"
  show v: "v1 = v" "v2 = v"
    using keepsD [OF reads.keeps_dag_node(2) assms(1)] keepsD [OF reads.keeps_dag_node(1) assms(2)] by simp_all
  obtain c n where g: "get_node_revision ref_db ?n v = Ok ((c, n), v)" and node: "dn_node_revision node = dn_node_revision n"
    using assms(1) v(1) keepsD [OF reads.keeps_dag_node_revision]
    by (fastforce simp: svn_fs__dag_get_node_def tbind_Ok tlift_Ok tret_def tfail_def split: if_splits prod.splits)
  obtain skel where r: "svn_fs__get_node_revision ref_db (svn_fs__id_copy nid) v = Ok (skel, v)" and c: "cache_node_revision ?n skel = Ok n"
      and dn: "dn_node_revision n = Some c"
    using g by (auto simp: get_node_revision_def new_dag_node_def tbind_Ok tlift_Ok tret_def split: option.splits)
  have m: "node_rev_is_mutable c = Ok True"
    using assms(2) node dn v by (auto simp: svn_fs__dag_check_mutable_def get_node_revision_def tbind_Ok tlift_Ok tret_def)
  obtain x where x: "fmlookup (ft_tab v Nodes) key = Some x" "svn_fs__parse_skel x = Some skel" "is_valid_node_revision skel"
    using r by (auto simp: svn_fs__get_node_revision_def id_copy_dbt assms(3) tbind_Ok tlift_Ok tret_def tfail_def db_read_or_def of_option_def
        split: option.splits if_splits db_result.splits)
  obtain nr where nr: "says skel nr" using says_valid [OF x(3)] by blast
  have "says (nr_skel nr) nr" using copy_skel_idem [of skel] unfolding nr .
  then have "says c nr" using c dn nr by (auto simp: cache_node_revision_def svn_bind_Ok_iff split: if_splits)
  then have "node_rev_is_mutable skel = Ok True" using m says_parts(6) nr by metis
  then show "frozen_nodes v key = None" using x(1,2) by (simp add: pick_def frozen_node_def)
qed

lemma delete_node_kept:
  assumes "frozen_nodes u key = None" and "svn_fs__id_to_dbt nid = Ok key" and "svn_fs__delete_node_revision ref_db nid u = Ok ((), w)"
  shows "committed_kept u w"
proof -
  have w: "w = del_tab Nodes key u"
    using assms(2,3) by (auto simp: svn_fs__delete_node_revision_def svn_fs__delete_nodes_entry_def tbind_Ok tlift_Ok db_write_def split: if_splits)
  have "\<not> frozen_node x" if "fmlookup (ft_tab u Nodes) key = Some x" for x using assms(1) that by (auto simp: pick_def split: if_splits)
  then have "frozen_nodes w = frozen_nodes u" using pick_drop [of "ft_tab u Nodes" key frozen_node] by (simp add: w)
  then show ?thesis by (auto simp: committed_kept_def w strings_guarded_def frozen_strings_def)
qed

lemma delete_node_depth_kept: "keeps committed_kept (delete_node_depth n ref_db nid)"
proof (induction n arbitrary: nid)
  case (Suc n)
  show ?case unfolding keeps_def
  proof (intro allI impI)
    fix v x w assume run: "delete_node_depth (Suc n) ref_db nid v = Ok (x, w)"
    let ?entries = "\<lambda>node. if svn_fs__dag_is_directory node then
                  tbind (svn_fs__dag_dir_entries_skel ref_db node) (\<lambda>(entries, node).
                    tforeach (\<lambda>entry.
                        tbind (tlift (entry_id entry)) (\<lambda>this_id.
                          case this_id of None \<Rightarrow> tlift Abort | Some i \<Rightarrow> delete_node_depth n ref_db i))
                      (skel_children entries))
                else tret ()"
    let ?keys = "tbind (svn_fs__get_node_revision ref_db nid) (\<lambda>node_rev.
         tbind (tbind (tlift (nr_prop_key node_rev)) (delete_key_rep ref_db)) (\<lambda>_.
         tbind (tbind (tlift (nr_data_key node_rev)) (delete_key_rep ref_db)) (\<lambda>_.
         tbind (tlift (nr_edit_key node_rev)) (\<lambda>edit_key.
                  case edit_key of None \<Rightarrow> tret () | Some key_skel \<Rightarrow> delete_key_rep ref_db key_skel))))"
    have k: "keeps committed_kept (?entries node)" "keeps committed_kept ?keys" for node
      by (intro keep keeps_delete_rep Suc.IH)+
    have eq: "delete_node_depth (Suc n) ref_db nid = tbind (svn_fs__dag_get_node ref_db nid) (\<lambda>node.
        tbind (svn_fs__dag_check_mutable ref_db node) (\<lambda>(m, node).
          if \<not> m then tret () else tbind (?entries node) (\<lambda>_. tbind ?keys (\<lambda>_. svn_fs__delete_node_revision ref_db nid))))"
      by (simp add: tbind_assoc cong: if_cong)
    obtain node v1 m node' v2 where get: "svn_fs__dag_get_node ref_db nid v = Ok (node, v1)"
        "svn_fs__dag_check_mutable ref_db node v1 = Ok ((m, node'), v2)"
      and rest: "(if \<not> m then tret () else tbind (?entries node') (\<lambda>_. tbind ?keys (\<lambda>_. svn_fs__delete_node_revision ref_db nid))) v2 = Ok (x, w)"
      using run unfolding eq by (auto simp: tbind_Ok)
    show "committed_kept v w"
    proof (cases m)
      case False
      then show ?thesis using rest keepsD [OF committed.keeps_dag_node(2) get(1)] keepsD [OF committed.keeps_dag_node(1) get(2)] committed.R_trans
        by (auto simp: tret_def)
    next
      case True
      obtain u1 u2 y z where u: "?entries node' v2 = Ok (y, u1)" "?keys u1 = Ok (z, u2)" "svn_fs__delete_node_revision ref_db nid u2 = Ok ((), w)"
        using rest True by (auto simp: tbind_Ok simp del: split_paired_Ex)
      obtain key where key: "svn_fs__id_to_dbt nid = Ok key"
        using u(3) by (auto simp: svn_fs__delete_node_revision_def svn_fs__delete_nodes_entry_def tbind_Ok tlift_Ok)
      have chk: "svn_fs__dag_check_mutable ref_db node v1 = Ok ((True, node'), v2)" using get(2) True by simp
      note g = mutable_not_frozen [OF get(1) chk key]
      have a: "committed_kept v u2" using keepsD [OF k(1) u(1)] keepsD [OF k(2) u(2)] g(2) committed.R_trans by blast
      then have "frozen_nodes u2 key = None" using g(3) by (simp add: committed_kept_def)
      then show ?thesis using delete_node_kept [OF _ key u(3)] a committed.R_trans by blast
    qed
  qed
qed (simp add: keeps_def tlift_def)

section \<open>Aborting a transaction\<close>

lemma abort_body:
  assumes "txn_body_abort_txn ref_db txn v = Ok ((), w)"
  shows "committed_kept v w" and "fmlookup (ft_tab w Transactions) (svn_fs__str_to_dbt (txn_id txn)) = None"
proof -
  obtain ids u where ids: "svn_fs__get_txn_ids ref_db (svn_fs_txn_name txn) v = Ok (ids, u)" and
      d: "tbind (svn_fs__dag_delete_if_mutable ref_db (fst ids)) (\<lambda>_. svn_fs__delete_txn ref_db (txn_id txn)) u = Ok ((), w)"
    using assms by (auto simp: txn_body_abort_txn_def tbind_Ok split: prod.splits)
  have u: "u = v" using keepsD [OF reads.keeps_get_txn_ids ids] by simp
  obtain x t where t: "svn_fs__dag_delete_if_mutable ref_db (fst ids) v = Ok (x, t)" "svn_fs__delete_txn ref_db (txn_id txn) t = Ok ((), w)"
    using d u by (auto simp: tbind_Ok simp del: split_paired_Ex)
  have kept: "committed_kept v t" using t(1) keepsD [OF delete_node_depth_kept]
    by (auto simp: svn_fs__dag_delete_if_mutable_def tbind_Ok db_peek_def simp del: delete_node_depth.simps)
  have w: "w = del_tab Transactions (svn_fs__str_to_dbt (txn_id txn)) t"
    using t(2) by (auto simp: svn_fs__delete_txn_def db_write_def split: if_splits)
  show "fmlookup (ft_tab w Transactions) (svn_fs__str_to_dbt (txn_id txn)) = None" by (simp add: w)
  have "committed_kept t w" by (auto simp: committed_kept_def w strings_guarded_def frozen_strings_def)
  then show "committed_kept v w" using kept committed.R_trans by blast
qed

lemma trail_result_Ok: "trail_result m s = Ok x \<longleftrightarrow> (\<exists>s'. m s = Ok (x, s'))"
  by (cases "m s") (auto simp: trail_result_def)

lemma kept_reads:
  assumes "bdb_laws db view" and "committed_kept (view s) (view s')"
  shows "trail_result (svn_fs__get_node_revision db nid) s = Ok skel \<Longrightarrow> node_rev_is_mutable skel = Ok False \<Longrightarrow>
      trail_result (svn_fs__get_node_revision db nid) s' = Ok skel"
    and "trail_result (svn_fs__read_rep db k) s = Ok rep \<Longrightarrow> rep_is_mutable rep = Ok False \<Longrightarrow> trail_result (svn_fs__read_rep db k) s' = Ok rep"
proof -
  have nodes: "frozen_nodes (view s) key = Some x \<Longrightarrow> frozen_nodes (view s') key = Some x"
    and reps: "frozen_reps (view s) key = Some x \<Longrightarrow> frozen_reps (view s') key = Some x" for key x
    using assms(2) by (simp_all add: committed_kept_def)
  show "trail_result (svn_fs__get_node_revision db nid) s' = Ok skel"
    if r: "trail_result (svn_fs__get_node_revision db nid) s = Ok skel" and m: "node_rev_is_mutable skel = Ok False"
  proof -
    note res = refines_result [OF refines_get_node_revision [OF assms(1)]]
    obtain w where w: "svn_fs__get_node_revision ref_db nid (view s) = Ok (skel, w)" using r unfolding res by (auto simp: trail_result_Ok)
    then obtain key where key: "svn_fs__id_to_dbt nid = Ok key" by (auto simp: svn_fs__get_node_revision_def tbind_Ok tlift_Ok)
    obtain x where x: "fmlookup (ft_tab (view s) Nodes) key = Some x"
      using w by (cases "fmlookup (ft_tab (view s) Nodes) key") (simp_all add: svn_fs__get_node_revision_def tbind_def tlift_def db_read_or_def key)
    have p: "svn_fs__parse_skel x = Some skel" "is_valid_node_revision skel"
      using w x by (auto simp: svn_fs__get_node_revision_def tbind_def tlift_def tret_def tfail_def db_read_or_def key split: option.splits if_splits)
    have "fmlookup (ft_tab (view s') Nodes) key = Some x" using nodes [of key x] m x p by (simp add: pick_Some frozen_node_def)
    then show ?thesis unfolding res using p key
      by (simp add: trail_result_def svn_fs__get_node_revision_def tbind_def tlift_def tret_def db_read_or_def)
  qed
  show "trail_result (svn_fs__read_rep db k) s' = Ok rep" if r: "trail_result (svn_fs__read_rep db k) s = Ok rep" and m: "rep_is_mutable rep = Ok False"
  proof -
    note res = refines_result [OF refines_read_rep [OF assms(1)]]
    obtain x where x: "fmlookup (ft_tab (view s) Representations) (svn_fs__str_to_dbt k) = Some x" "svn_fs__parse_skel x = rep"
      using r unfolding res
      by (auto simp: trail_result_Ok svn_fs__read_rep_def tbind_Ok tret_def db_read_or_def of_option_def split: option.splits)
    then have "fmlookup (ft_tab (view s') Representations) (svn_fs__str_to_dbt k) = Some x"
      using reps [of "svn_fs__str_to_dbt k" x] m by (simp add: pick_Some frozen_rep_def)
    then show ?thesis unfolding res using x by (simp add: trail_result_def svn_fs__read_rep_def tbind_def tret_def db_read_or_def)
  qed
qed

text \<open>
  C13. On every database that works as documented, aborting a transaction deletes nothing that has been committed: however the call
  ends, short of stopping the program, every immutable node revision and every immutable representation is
  read as before, the revisions and the youngest revision are the same, and when no string of an immutable representation belongs to a
  mutable one, the strings of the immutable representations are the same.  When the call succeeds, the transaction no longer exists.
\<close>

theorem abort_keeps_committed:
  assumes "bdb_laws db view" and "txn_laws db view" and "svn_fs_abort_txn db txn s = Some (r, s')" and "r \<noteq> Abort"
  shows "(\<forall>nid skel. trail_result (svn_fs__get_node_revision db nid) s = Ok skel \<and> node_rev_is_mutable skel = Ok False \<longrightarrow>
        trail_result (svn_fs__get_node_revision db nid) s' = Ok skel) \<and>
    (\<forall>k rep. trail_result (svn_fs__read_rep db k) s = Ok rep \<and> rep_is_mutable rep = Ok False \<longrightarrow>
        trail_result (svn_fs__read_rep db k) s' = Ok rep) \<and>
    (\<forall>q. trail_result (svn_fs__get_rev db q) s' = trail_result (svn_fs__get_rev db q) s) \<and>
    trail_result (svn_fs__youngest_rev db) s' = trail_result (svn_fs__youngest_rev db) s \<and>
    (strings_guarded (view s) \<longrightarrow> (\<forall>key \<in> frozen_strings (view s). str_recs key (view s') = str_recs key (view s))) \<and>
    (r = Ok () \<longrightarrow> trail_result (svn_fs__get_txn db (txn_id txn)) s' = Err SVN_ERR_FS_NO_SUCH_TRANSACTION)"
proof -
  have run: "svn_fs__retry_txn db (txn_body_abort_txn db txn) s = Some (r, s')" using assms(3) by (simp add: svn_fs_abort_txn_def)
  have body: "keeps committed_kept (txn_body_abort_txn ref_db txn)" using abort_body(1) by (auto simp: keeps_def)
  note k = retry_keeps [OF assms(2) refines_change_bodies(6) [OF assms(1)] body committed.R_refl run assms(4)]
  have revs: "ft_revs (view s') = ft_revs (view s)" using k(1) by (simp add: committed_kept_def)
  have gone: "trail_result (svn_fs__get_txn db (txn_id txn)) s' = Err SVN_ERR_FS_NO_SUCH_TRANSACTION" if "r = Ok ()"
    unfolding refines_result [OF refines_get_txn [OF assms(1)]] using abort_body(2) [OF k(2) [OF that]]
    by (simp add: trail_result_def svn_fs__get_txn_def tbind_def db_read_or_def or_notfound_def)
  have strings: "strings_guarded (view s) \<longrightarrow> (\<forall>key \<in> frozen_strings (view s). str_recs key (view s') = str_recs key (view s))"
    using k(1) by (simp add: committed_kept_def)
  show ?thesis
    using kept_reads [OF assms(1) k(1)] same_revs_reads [OF assms(1) revs] gone strings by blast
qed

theorem abort_keeps_committed_witness:
  "\<exists>s'. svn_fs_abort_txn ref_db start_txn start_fs = Some (Ok (), s') \<and>
     trail_result (svn_fs__get_node_revision ref_db [0, 0]) s' = trail_result (svn_fs__get_node_revision ref_db [0, 0]) start_fs \<and>
     trail_result (svn_fs__get_txn ref_db ''0'') s' = Err SVN_ERR_FS_NO_SUCH_TRANSACTION"
proof -
  obtain s' where s': "svn_fs_abort_txn ref_db start_txn start_fs = Some (Ok (), s')" using start_abort by blast
  obtain sk where sk: "node_rec start_fs [0, 0] = Ok sk" "says sk (bare_dir ''0'')" using node_of_Some [OF start_fs_nodes(1)] by metis
  have "trail_result (svn_fs__get_node_revision ref_db [0, 0]) start_fs = Ok sk"
    using get_node_revision_ref [OF small_keys(1), of start_fs] sk(1) by (simp add: trail_result_def)
  moreover have "node_rev_is_mutable sk = Ok False" using says_parts(6) [OF sk(2)] by (simp add: bare_dir_def)
  ultimately show ?thesis using abort_keeps_committed [OF bdb_laws_ref txn_laws_ref s'] s' by auto
qed

end
