(* ===== verification/Spec2Isabelle.thy ===== *)
theory Spec2Isabelle
  imports Svndiff Base64 Quoprint Targets Path_Uri Hashdump Fs_Copies Fs_Abort
begin

text \<open>
  \<^bold>\<open>Subversion's libraries, verified.\<close>
  The program is an early Subversion: a version control system made of C libraries over APR.
  A versioned filesystem (\<open>libsvn_fs\<close>) stores trees in Berkeley DB tables whose records are
  skeletons; file contents travel and are stored as text deltas (\<open>libsvn_delta\<close>), in the
  svndiff encoding; everything uses the strings, streams, paths and dumps of \<open>libsvn_subr\<close>.

  \<^bold>\<open>How C is read.\<close>
  One definition models one C routine, and keeps its name; a loop is a recursive function beside
  it.  A routine that can fail returns \<open>svn_result\<close> (\<open>Prelude\<close>): \<open>Ok\<close> a value, \<open>Err\<close> an error code,
  as \<open>SVN_ERR\<close> propagates it, or \<open>Abort\<close>, which stands for a failed assert, a call of \<open>abort\<close> and
  every access outside a block of memory, so that a theorem that a routine returns \<open>Ok\<close> also says
  that it is free of undefined behaviour.  The platform is LP64 with signed plain \<open>char\<close>:
  \<open>apr_size_t\<close> and \<open>apr_off_t\<close> are 64-bit words, and arithmetic wraps where the source's does.
  Memory is a list of cells that may be uninitialised (\<open>mem\<close>).  Pools never run out of memory and
  freeing is not modelled.  Code outside the repository (Berkeley DB, APR's file names and file
  types, MD5) is a parameter of the definitions that use it.

  \<^bold>\<open>Theories.\<close>
  \<^item> \<open>Prelude\<close>: machine types, results, error codes and the shared lemmas on lists and words.
  \<^item> \<open>Svn_String\<close> (\<open>svn_string.c\<close>): growable string buffers.  The invariant \<open>sb_ok\<close> (allocated,
    initialised, null-terminated) is preserved by every operation, and each acts on the
    contents as a list operation.  \<open>svn_stringbuf_ensure\<close> doubles the block size with a fuel of 64
    doublings, enough because a 64-bit size doubled 64 times is zero.
  \<^item> \<open>Svn_Stream\<close> (\<open>io.c\<close>, the streams): read, write and close handlers on a baton.  The locales
    \<open>svn_readable\<close> and \<open>svn_writable\<close> state what clients rely on and are interpreted on the stdio
    and the empty streams; \<open>delta_streams\<close>, \<open>delta_applier\<close> and \<open>coder_stream\<close> build on them.
  \<^item> \<open>Text_Delta\<close>, \<open>Vdelta\<close>, \<open>Delta_Stream\<close> (\<open>text_delta.c\<close>, \<open>vdelta.c\<close>): windows and instructions,
    the generator and its hash table, and the streams of windows with the window applier.  The
    generator's windows rebuild the target, instruction by instruction; the overlapping copy
    refines a specification on lists; a whole stream applied to the source writes the target.
  \<^item> \<open>Svndiff\<close> (\<open>svndiff.c\<close>): the encoding of integers, instructions and windows, and the
    incremental parser.  The parser's result does not depend on how its input is cut, and it
    inverts the encoder.  \<open>C1\<close> below composes the generator, the encoder, the parser and the
    applier into one statement.
  \<^item> \<open>Stream_Coder\<close>, \<open>Base64\<close>, \<open>Quoprint\<close> (\<open>svn_base64.c\<close>, \<open>quoprint.c\<close>): the filters, as streams and
    on strings, with round trips and bounds.
  \<^item> \<open>Svn_Path\<close>, \<open>Path_Components\<close>, \<open>Path_Uri\<close>, \<open>Targets\<close> (\<open>path.c\<close>, \<open>target.c\<close>): joining,
    canonicalising, comparing, splitting and escaping paths, and thinning lists of targets.
  \<^item> \<open>Hashdump\<close> (\<open>hashdump.c\<close>): hash tables written to files and read back.
  \<^item> \<open>Key_Gen\<close>, \<open>Skel\<close>, \<open>Fs_Id\<close> (\<open>key-gen.c\<close>, \<open>skel.c\<close>, \<open>id.c\<close>, \<open>validate.c\<close>): the numbers, keys,
    skeletons and node revision ids of the filesystem.
  \<^item> \<open>Fs_Db\<close>, \<open>Fs_Ref\<close>, \<open>Fs_Trail\<close> (\<open>trail.c\<close>, \<open>dbt.c\<close>, \<open>err.c\<close>): Berkeley DB is the record \<open>bdb\<close> of its
    operations, an argument of every routine of the filesystem.  \<open>bdb_laws db view\<close> is the named
    hypothesis that they do what is documented, seen through \<open>view\<close> as tables of byte strings;
    \<open>ref_db\<close> is a database that does, on the tables themselves, and \<open>refines\<close> carries each routine
    from one to the other.  \<open>txn_safe\<close> states what begin, commit, checkpoint and abort do when they
    succeed, and \<open>txn_laws\<close> adds that they do; \<open>txn_left\<close> is the unknown state in which a failed body leaves the
    database until it is aborted.  \<open>svn_fs__retry_txn\<close> is all or nothing and ends with the first
    run that does not deadlock; its value \<open>None\<close> is a body that deadlocks for ever.
  \<^item> \<open>Fs_Strings\<close>, \<open>Fs_Nodes\<close>, \<open>Fs_Successor\<close>, \<open>Fs_Props\<close>, \<open>Fs_Revs\<close>, \<open>Fs_Txns\<close> (\<open>strings-table.c\<close>,
    \<open>reps-table.c\<close>, \<open>nodes-table.c\<close>, \<open>node-rev.c\<close>, \<open>proplist.c\<close>, \<open>rev-table.c\<close>, \<open>txn-table.c\<close>, \<open>txn.c\<close>): the tables.
    Writing and reading agree, new keys and ids are not in use, and the rest of a table stays as it was.  Walks of
    cursors take their fuel from the number of keys (\<open>db_count\<close>) or records (\<open>str_dups\<close>), loops
    that read a string from its bytes (\<open>str_bytes\<close>).  A \<open>DBT\<close> cuts sizes to 32 bits, and theorems
    bound the data accordingly.
  \<^item> \<open>Fs_Reps\<close>, \<open>Fs_Fulltext\<close>, \<open>Fs_Deltify\<close> (\<open>reps-strings.c\<close>, \<open>deltify.c\<close>): representations, stored as full
    texts or as deltas against others.  A mutable copy has a string of its own.  The MD5 routines are an
    argument.
  \<^item> \<open>Fs_Dag\<close>, \<open>Fs_Noderev\<close>, \<open>Fs_Mutrep\<close>, \<open>Fs_Dirs\<close>, \<open>Fs_Setentry\<close>, \<open>Fs_Files\<close>, \<open>Fs_Commit\<close> (\<open>dag.c\<close>): nodes with the
    skel they cache.  \<open>node_of\<close> reads the table as node revisions and \<open>dirents\<close> a directory as a
    list of entries; setting and making entries changes the map of the directory at one name and
    no other node, and what is written to a file is read after the edit is finalized.  Recursion
    into directories has as many levels as there are nodes; a directory inside itself is an
    \<open>Abort\<close>.
  \<^item> \<open>Fs_Tree\<close>, \<open>Fs_Merge\<close> (\<open>tree.c\<close>): roots, paths, the operations on trees, merging, and the loop of
    a commit.  What other processes do between its transactions, its dates and the order in which a hash table
    is walked are arguments.
  \<^item> \<open>Fs_Frame\<close>, \<open>Fs_Changes\<close>: the locales \<open>frame\<close>, \<open>fs_frame\<close>, \<open>dag_frame\<close> and \<open>txn_frame\<close>: an operation keeps every
    reflexive and transitive relation that its primitive writes keep.  They are interpreted on
    equality (reading operations), on the revisions and on the transactions.
  \<^item> \<open>Fs_Walk\<close>, \<open>Fs_History\<close>, \<open>Fs_Copies\<close>, \<open>Fs_Abort\<close>: properties of trees.  A path names the node that the maps of
    the directories give; reading changes nothing; a commit adds one revision and ends in the
    first turn in which nobody interferes; a child is copied before it is changed; aborting a
    transaction deletes nothing that has been committed.

  \<^bold>\<open>Defects.\<close>
  Where the code does something else than it means to, the model does the same, and a theorem
  says what happens: an empty string sent as svndiff, stripping a blank string, removing the
  component of a path such as \<open>/a\<close>, joining a root, an empty and a relative component, the
  decoders of URIs and of quoted-printable text that leave their block, the branch that the id of a
  successor is given, the limit of transaction ids, a write to an immutable text and a second edit stream of a file.

  \<^bold>\<open>Not modelled.\<close>
  Opening, creating and removing filesystems (\<open>fs.c\<close>) only configures Berkeley DB.  In \<open>tree.c\<close>, applying a
  text delta through a window handler and the delta stream between two files are left out: their streams run
  transactions of their own while another handler is active.  One filesystem is modelled, so the
  tests that two roots belong to the same one are left out.  The editors that
  describe changes of trees, the working copy, client, repository and access libraries, the Apache module and the
  programs drive the modelled libraries through files, processes, networks and XML; the bindings are
  generated, and Expat is third-party code.
\<close>

section \<open>A delta over the wire\<close>

text \<open>
  C1. A delta from one file to another, generated as a stream of windows, encoded as svndiff,
  cut into pieces in any way, parsed and applied to a file with the source's contents, writes
  exactly the target: no step fails and no byte is added, lost or changed.
\<close>

theorem svndiff_pipeline:
  assumes "healthy_file src" and "healthy_file tgt" and "healthy_file wire"
    and "length (fp_rest src) < 2 ^ 62" and "length (fp_rest tgt) < 2 ^ 56"
  shows "\<exists>st eb d.
    svn_txdelta_send_txstream upd final
        (svn_txdelta ctx0 junk (svn_stream_from_stdio src) (svn_stream_from_stdio tgt))
        window_handler (svn_txdelta_to_svndiff (svn_stream_from_stdio wire)) = Some (Ok (st, eb)) \<and>
    fp_out (baton (eb_output eb)) = fp_out wire @ d \<and>
    (\<forall>base out early cs.
       healthy_file base \<and> healthy_file out \<and> fp_rest base = fp_rest src \<and> concat cs = d \<longrightarrow>
       (\<exists>ab. svndiff_parse apply_window
               (svn_txdelta_parse_svndiff
                  (svn_txdelta_apply (svn_stream_from_stdio base) (svn_stream_from_stdio out)) early) cs
             = Ok ab \<and>
             fp_out (baton (ab_target ab)) = fp_out out @ fp_rest tgt))"
proof -
  let ?src = "svn_stream_from_stdio src" and ?tgt = "svn_stream_from_stdio tgt"
  let ?S = "fp_rest src" and ?T = "fp_rest tgt"
  obtain ws st where ws: "delivers upd final (svn_txdelta ctx0 junk ?src ?tgt) ws st"
    and seq: "window_seq ?S 0 0 ws ?T"
    using stdio_delta.txdelta_delivers [of ?src ?tgt upd final ctx0 junk] assms by auto
  obtain eb where eb: "feed_windows window_handler ws (svn_txdelta_to_svndiff (svn_stream_from_stdio wire)) = Ok eb"
    "fp_out (baton (eb_output eb)) = fp_out wire @ svndiff_stream ws"
    using stdio_out.feed_window_handler [OF _ seq assms(4), of "svn_txdelta_to_svndiff (svn_stream_from_stdio wire)"]
      assms(3) by (auto simp: svndiff_stream_def)
  have len: "length (svndiff_stream ws) < 2 ^ 63"
    using svndiff_stream_length [OF seq] assms(5) by simp
  have "\<exists>ab. svndiff_parse apply_window
      (svn_txdelta_parse_svndiff (svn_txdelta_apply (svn_stream_from_stdio base) (svn_stream_from_stdio out)) early) cs
      = Ok ab \<and> fp_out (baton (ab_target ab)) = fp_out out @ ?T"
    if h: "healthy_file base \<and> healthy_file out \<and> fp_rest base = ?S \<and> concat cs = svndiff_stream ws"
    for base out early cs
  proof -
    have inv: "stdio_applier.ab_inv ?S 0 0 (svn_txdelta_apply (svn_stream_from_stdio base) (svn_stream_from_stdio out))"
      using stdio_applier.ab_inv_start [of "svn_stream_from_stdio base"] h by auto
    have "concat cs = svndiff_stream ws" using h by simp
    note parse = svndiff_parse_stream [OF seq assms(4) this len]
    from stdio_applier.feed_apply_window [OF inv assms(4) seq] show ?thesis
      by (simp add: parse)
  qed
  with ws eb show ?thesis
    by (intro exI [of _ st] exI [of _ eb] exI [of _ "svndiff_stream ws"])
       (simp add: send_txstream_delivers)
qed

theorem svndiff_pipeline_witness:
  "\<exists>st eb d ab.
    svn_txdelta_send_txstream (\<lambda>c x. c @ x) Some
        (svn_txdelta [] [] (svn_stream_from_stdio (file_of ''abcdabcd'' []))
           (svn_stream_from_stdio (file_of ''xabcdab'' [])))
        window_handler (svn_txdelta_to_svndiff (svn_stream_from_stdio (file_of [] [])))
      = Some (Ok (st, eb)) \<and>
    fp_out (baton (eb_output eb)) = d \<and>
    svndiff_parse apply_window
      (svn_txdelta_parse_svndiff
         (svn_txdelta_apply (svn_stream_from_stdio (file_of ''abcdabcd'' []))
            (svn_stream_from_stdio (file_of [] ''>''))) True)
      [take 3 d, drop 3 d] = Ok ab \<and>
    fp_out (baton (ab_target ab)) = ''>xabcdab''"
proof -
  let ?f = "\<lambda>i out. svn_stream_from_stdio (file_of i out)"
  have l: "length (fp_rest (file_of ''abcdabcd'' [])) < 2 ^ 62"
    "length (fp_rest (file_of ''xabcdab'' [])) < 2 ^ 56" by simp_all
  from svndiff_pipeline [OF file_of_simps(3) file_of_simps(3) file_of_simps(3) l,
      of "\<lambda>c x. c @ x" Some "[]" "[]" "[]" "[]"]
  obtain st eb d where
    run: "svn_txdelta_send_txstream (\<lambda>c x. c @ x) Some
      (svn_txdelta [] [] (?f ''abcdabcd'' []) (?f ''xabcdab'' []))
      window_handler (svn_txdelta_to_svndiff (?f [] [])) = Some (Ok (st, eb))"
    and d: "fp_out (baton (eb_output eb)) = d"
    and all: "\<And>base out early cs.
       healthy_file base \<and> healthy_file out \<and> fp_rest base = ''abcdabcd'' \<and> concat cs = d \<Longrightarrow>
       \<exists>ab. svndiff_parse apply_window
               (svn_txdelta_parse_svndiff
                  (svn_txdelta_apply (svn_stream_from_stdio base) (svn_stream_from_stdio out)) early) cs
             = Ok ab \<and> fp_out (baton (ab_target ab)) = fp_out out @ ''xabcdab''"
    by auto
  from all [of "file_of ''abcdabcd'' []" "file_of [] ''>''" "[take 3 d, drop 3 d]" True] run d
  show ?thesis by auto
qed

end
